(* ===== verification/Prelude.thy ===== *)
theory Prelude
  imports Main "HOL-Library.Word" "HOL-Library.Multiset" "HOL-Library.Monad_Syntax"
    "HOL-Library.Signed_Division"
begin

text \<open>
  What the components share: the machine integer types, the option monad in which
  \<open>None\<close> is undefined behaviour of the C program (a dereferenced NULL or freed
  pointer, an access outside a buffer, a signed overflow, a division by zero) or a call
  that does not return, the rules that compute what such a computation ensures, signed
  arithmetic of width 64, and the removal of an entry from an array.
\<close>

type_synonym u8 = "8 word"
type_synonym u32 = "32 word"
type_synonym u64 = "64 word"

type_synonym addr = nat

subsection \<open>The option monad: undefined behaviour\<close>

lemma bind_Some_iff [simp]:
  "(Option.bind m f = Some y) = (\<exists>x. m = Some x \<and> f x = Some y)"
  by (cases m) auto

lemma Some_bind_iff [simp]:
  "(Some y = Option.bind m f) = (\<exists>x. m = Some x \<and> f x = Some y)"
  by (cases m) auto

definition guard :: "bool \<Rightarrow> unit option" where
  "guard b = (if b then Some () else None)"

lemma guard_Some [simp]: "(guard b = Some u) = b"
  by (simp add: guard_def)

lemma guard_True [simp]: "guard True = Some ()" and guard_False [simp]: "guard False = None"
  by (simp_all add: guard_def)

text \<open>
  \<open>post m Q\<close>: if the computation is defined, its result satisfies \<open>Q\<close>. The rules in
  \<open>wlp\<close> compute the condition from the program text.
\<close>

definition post :: "'a option \<Rightarrow> ('a \<Rightarrow> bool) \<Rightarrow> bool" where
  "post m Q \<longleftrightarrow> (\<forall>x. m = Some x \<longrightarrow> Q x)"

named_theorems wlp "the condition under which a computation meets its postcondition"

lemma post_Some [wlp]: "post (Some x) Q = Q x"
  and post_None [wlp]: "post None Q = True"
  and post_bind [wlp]: "post (Option.bind m f) Q = post m (\<lambda>x. post (f x) Q)"
  and post_guard [wlp]: "post (guard b) U = (b \<longrightarrow> U ())"
  by (auto simp: post_def guard_def)

lemma post_if [wlp]: "post (if b then m else n) Q = ((b \<longrightarrow> post m Q) \<and> (\<not> b \<longrightarrow> post n Q))"
  by simp

lemma post_option [wlp]:
  "post (case x of None \<Rightarrow> m | Some y \<Rightarrow> f y) Q
   = ((x = None \<longrightarrow> post m Q) \<and> (\<forall>y. x = Some y \<longrightarrow> post (f y) Q))"
  by (cases x) simp_all

lemma post_map_option [wlp]: "post (map_option f m) Q = post m (\<lambda>x. Q (f x))"
  by (cases m) (simp_all add: post_def)

lemma post_prod [wlp]: "post (case p of (x, y) \<Rightarrow> f x y) Q = (\<forall>x y. p = (x, y) \<longrightarrow> post (f x y) Q)"
  by (cases p) simp

lemma postD: "post m Q \<Longrightarrow> m = Some x \<Longrightarrow> Q x"
  by (simp add: post_def)

lemma postI: "(\<And>x. m = Some x \<Longrightarrow> Q x) \<Longrightarrow> post m Q"
  by (simp add: post_def)

lemma post_seq: "post m P \<Longrightarrow> (\<And>x. P x \<Longrightarrow> post (f x) Q) \<Longrightarrow> post (Option.bind m f) Q"
  by (auto simp: post_def)

lemma post_mono: "post m P \<Longrightarrow> (\<And>x. P x \<Longrightarrow> Q x) \<Longrightarrow> post m Q"
  by (simp add: post_def)

subsection \<open>Signed arithmetic of width 64\<close>

definition in_long :: "int \<Rightarrow> bool" where
  "in_long x \<longleftrightarrow> - (2 ^ 63) \<le> x \<and> x < 2 ^ 63"

definition ladd :: "int \<Rightarrow> int \<Rightarrow> int option" where
  "ladd x y = (if in_long (x + y) then Some (x + y) else None)"

definition lsub :: "int \<Rightarrow> int \<Rightarrow> int option" where
  "lsub x y = (if in_long (x - y) then Some (x - y) else None)"

text \<open>C division truncates towards zero; dividing by zero, and the one quotient that
  does not fit, are undefined.\<close>

definition ldiv :: "int \<Rightarrow> int \<Rightarrow> int option" where
  "ldiv x y = (if y = 0 \<or> \<not> in_long (x sdiv y) then None else Some (x sdiv y))"

lemma ladd_Some [simp]: "(ladd x y = Some z) = (in_long (x + y) \<and> z = x + y)"
  by (auto simp: ladd_def)

lemma lsub_Some [simp]: "(lsub x y = Some z) = (in_long (x - y) \<and> z = x - y)"
  by (auto simp: lsub_def)

subsection \<open>Lists updated by moving the last element\<close>

text \<open>
  The arrays of configs, of ports and of connected interactions are all shrunk the same
  way: the last entry is copied over the removed one and the array ends one entry
  earlier.
\<close>

definition swap_remove :: "nat \<Rightarrow> 'a list \<Rightarrow> 'a list" where
  "swap_remove i xs =
     (if i < length xs - 1 then butlast (xs[i := last xs]) else butlast xs)"

lemma length_swap_remove [simp]: "length (swap_remove i xs) = length xs - 1"
  by (simp add: swap_remove_def)

lemma mset_swap_remove:
  assumes "i < length xs"
  shows "mset (swap_remove i xs) = mset xs - {# xs ! i #}"
proof -
  from assms obtain ys z where xs: "xs = ys @ [z]" by (cases xs rule: rev_cases) auto
  show ?thesis
  proof (cases "i < length ys")
    case True
    then have "swap_remove i xs = ys[i := z]"
      by (simp add: swap_remove_def xs list_update_append)
    moreover have "mset (ys[i := z]) = add_mset z (mset ys - {# ys ! i #})"
      using True by (simp add: mset_update)
    moreover have "ys ! i \<in># mset ys" using True by simp
    ultimately show ?thesis using True
      by (simp add: xs nth_append)
  next
    case False
    with assms have "i = length ys" by (simp add: xs)
    then show ?thesis by (simp add: swap_remove_def xs)
  qed
qed

lemma set_swap_remove_distinct:
  assumes "i < length xs" "distinct xs"
  shows "set (swap_remove i xs) = set xs - {xs ! i}"
proof -
  have "mset (swap_remove i xs) = mset (remove1 (xs ! i) xs)"
    using assms(1) by (simp add: mset_swap_remove)
  then have "set (swap_remove i xs) = set (remove1 (xs ! i) xs)"
    by (rule mset_eq_setD)
  with assms(2) show ?thesis by simp
qed

end
