(* ===== verification/Table.thy ===== *)
theory Table
  imports Prelude
begin

text \<open>
  The hash tables of \<open>src/src/uthash.h\<close> as the framework uses them: keyed by a name,
  looked up, extended at the end, deleted from, counted, and iterated in the order of
  insertion (the \<open>hh.prev\<close>/\<open>hh.next\<close> chain). \<open>name_table\<close> is the interface the
  node relies on; the association list below provides it. The pointers and buckets behind
  the macros are in theory \<open>UtHash\<close>; theory \<open>UtHashRun\<close> shows that they implement this list.
\<close>

locale name_table =
  fixes find :: "'t \<Rightarrow> string \<Rightarrow> 'v option"
    and add :: "'t \<Rightarrow> string \<Rightarrow> 'v \<Rightarrow> 't"
    and del :: "'t \<Rightarrow> string \<Rightarrow> 't"
    and cnt :: "'t \<Rightarrow> nat"
    and entries :: "'t \<Rightarrow> (string \<times> 'v) list"
    and ok :: "'t \<Rightarrow> bool"
  assumes ok_distinct: "ok t \<Longrightarrow> distinct (map fst (entries t))"
    and find_entries: "ok t \<Longrightarrow> find t k = map_of (entries t) k"
    and entries_add: "ok t \<Longrightarrow> find t k = None \<Longrightarrow> entries (add t k v) = entries t @ [(k, v)]"
    and entries_del: "ok t \<Longrightarrow> entries (del t k) = filter (\<lambda>e. fst e \<noteq> k) (entries t)"
    and ok_add: "ok t \<Longrightarrow> find t k = None \<Longrightarrow> ok (add t k v)"
    and ok_del: "ok t \<Longrightarrow> ok (del t k)"
    and cnt_entries: "ok t \<Longrightarrow> cnt t = length (entries t)"
begin

lemma find_add:
  assumes "ok t" "find t k = None"
  shows "find (add t k v) k' = (if k' = k then Some v else find t k')"
  using assms find_entries [OF ok_add [OF assms]]
  by (auto simp: entries_add find_entries map_add_def split: option.splits)

lemma find_del:
  assumes "ok t"
  shows "find (del t k) k' = (if k' = k then None else find t k')"
proof -
  have "map_of (filter (\<lambda>e. fst e \<noteq> k) xs) k' = (if k' = k then None else map_of xs k')"
    for xs :: "(string \<times> 'v) list"
    by (induction xs) auto
  then show ?thesis using assms ok_del [OF assms] by (simp add: find_entries entries_del)
qed

lemma cnt_add: "ok t \<Longrightarrow> find t k = None \<Longrightarrow> cnt (add t k v) = Suc (cnt t)"
  by (simp add: cnt_entries entries_add ok_add)

lemma cnt_del:
  assumes "ok t" "find t k = Some v"
  shows "cnt t = Suc (cnt (del t k))"
proof -
  have "length xs = Suc (length (filter (\<lambda>e. fst e \<noteq> k) xs))"
    if "distinct (map fst xs)" "map_of xs k = Some v" for xs :: "(string \<times> 'v) list"
    using that
  proof (induction xs)
    case (Cons x xs)
    show ?case
    proof (cases "fst x = k")
      case True
      with Cons.prems(1) have "filter (\<lambda>e. fst e \<noteq> k) xs = xs"
        by (auto simp: filter_id_conv image_iff Bex_def)
      with True show ?thesis by simp
    next
      case False
      with Cons show ?thesis by (cases x) auto
    qed
  qed simp
  then show ?thesis using assms ok_distinct [OF assms(1)]
    by (simp add: cnt_entries ok_del entries_del find_entries)
qed

lemma del_add:
  assumes "ok t" "find t k = None"
  shows "entries (del (add t k v) k) = entries t"
proof -
  have "k \<notin> fst ` set (entries t)"
    using assms by (simp add: find_entries map_of_eq_None_iff)
  then have "filter (\<lambda>e. fst e \<noteq> k) (entries t) = entries t"
    by (force simp: filter_id_conv)
  then show ?thesis using assms by (simp add: entries_del entries_add ok_add)
qed

end

definition hash_find :: "(string \<times> 'v) list \<Rightarrow> string \<Rightarrow> 'v option" where
  "hash_find t k = map_of t k"

definition hash_add :: "(string \<times> 'v) list \<Rightarrow> string \<Rightarrow> 'v \<Rightarrow> (string \<times> 'v) list" where
  "hash_add t k v = t @ [(k, v)]"

definition hash_del :: "(string \<times> 'v) list \<Rightarrow> string \<Rightarrow> (string \<times> 'v) list" where
  "hash_del t k = filter (\<lambda>e. fst e \<noteq> k) t"

definition hash_count :: "(string \<times> 'v) list \<Rightarrow> nat" where
  "hash_count t = length t"

definition hash_ok :: "(string \<times> 'v) list \<Rightarrow> bool" where
  "hash_ok t \<longleftrightarrow> distinct (map fst t)"

interpretation ht: name_table hash_find hash_add hash_del hash_count "\<lambda>t. t" hash_ok
proof unfold_locales
  show "hash_ok (hash_del t k)" if "hash_ok t" for t :: "(string \<times> 'v) list" and k
    using that by (auto simp: hash_ok_def hash_del_def distinct_map inj_on_def)
qed (auto simp: hash_find_def hash_add_def hash_del_def hash_count_def hash_ok_def map_of_eq_None_iff)

lemma hash_find_in: "hash_find t k = Some v \<Longrightarrow> (k, v) \<in> set t"
  by (simp add: hash_find_def map_of_SomeD)

lemma hash_find_iff: "hash_ok t \<Longrightarrow> (hash_find t k = Some v) = ((k, v) \<in> set t)"
  by (simp add: hash_find_def hash_ok_def)

lemma hash_find_None: "(hash_find t k = None) = (k \<notin> fst ` set t)"
  by (simp add: hash_find_def map_of_eq_None_iff)

lemma set_hash_add [simp]: "set (hash_add t k v) = insert (k, v) (set t)"
  by (simp add: hash_add_def)

lemma set_hash_del [simp]: "set (hash_del t k) = {e \<in> set t. fst e \<noteq> k}"
  by (auto simp: hash_del_def)

end
