(* ===== verification/Md5.thy ===== *)
theory Md5
  imports Prelude
begin

text \<open>
  The MD5 digest of \<open>src/src/md5.c\<close>, with which every registered type is
  fingerprinted. The context holds its input block as the bytes in memory; the code
  also views that memory as sixteen native words (the union \<open>in32\<close>, and the casts to
  \<open>uint32_t *\<close>), so loads and stores of words take the byte order of the machine
  (\<open>endian\<close>) as a parameter. The lemmas show that \<open>byteReverse\<close> makes the
  digest independent of that order, that feeding a message in pieces and in one call
  lead to the same context up to the stale part of the block, and that \<open>md5\<close>
  computes the padded, block-wise digest of RFC 1321 (\<open>md5_spec\<close>).
\<close>

unbundle bit_operations_syntax

datatype endian = Little | Big

record MD5Context =
  buf :: "u32 list"
  bits0 :: u32
  bits1 :: u32
  inb :: "u8 list"

subsection \<open>Words in memory\<close>

text \<open>The value \<open>byteReverse\<close> assembles from four bytes, in the shifts of the code.\<close>

definition le_word :: "u8 \<Rightarrow> u8 \<Rightarrow> u8 \<Rightarrow> u8 \<Rightarrow> u32" where
  "le_word b0 b1 b2 b3 =
     push_bit 16 (push_bit 8 (ucast b3) OR ucast b2) OR (push_bit 8 (ucast b1) OR ucast b0)"

definition le_bytes :: "u32 \<Rightarrow> u8 list" where
  "le_bytes t = [ucast t, ucast (drop_bit 8 t), ucast (drop_bit 16 t), ucast (drop_bit 24 t)]"

definition store32 :: "endian \<Rightarrow> u32 \<Rightarrow> u8 list" where
  "store32 e t = (case e of Little \<Rightarrow> le_bytes t | Big \<Rightarrow> rev (le_bytes t))"

text \<open>Sixteen (or fewer) native words read from a block of bytes.\<close>

fun load32s :: "endian \<Rightarrow> u8 list \<Rightarrow> u32 list" where
  "load32s e (b0 # b1 # b2 # b3 # bs) =
     (case e of Little \<Rightarrow> le_word b0 b1 b2 b3 | Big \<Rightarrow> le_word b3 b2 b1 b0) # load32s e bs"
| "load32s e _ = []"

text \<open>Overwriting part of a buffer: \<open>memmove\<close> to an offset.\<close>

definition blit :: "nat \<Rightarrow> 'a list \<Rightarrow> 'a list \<Rightarrow> 'a list" where
  "blit off src dst = take off dst @ src @ drop (off + length src) dst"

fun byteReverse :: "endian \<Rightarrow> u8 list \<Rightarrow> nat \<Rightarrow> u8 list" where
  "byteReverse e (b0 # b1 # b2 # b3 # bs) (Suc longs) =
     store32 e (le_word b0 b1 b2 b3) @ byteReverse e bs longs"
| "byteReverse e bs _ = bs"

subsection \<open>The transformation of one block\<close>

definition F1 :: "u32 \<Rightarrow> u32 \<Rightarrow> u32 \<Rightarrow> u32" where "F1 x y z = z XOR (x AND (y XOR z))"
definition F2 :: "u32 \<Rightarrow> u32 \<Rightarrow> u32 \<Rightarrow> u32" where "F2 x y z = F1 z x y"
definition F3 :: "u32 \<Rightarrow> u32 \<Rightarrow> u32 \<Rightarrow> u32" where "F3 x y z = x XOR y XOR z"
definition F4 :: "u32 \<Rightarrow> u32 \<Rightarrow> u32 \<Rightarrow> u32" where "F4 x y z = y XOR (x OR NOT z)"

definition MD5STEP ::
    "(u32 \<Rightarrow> u32 \<Rightarrow> u32 \<Rightarrow> u32) \<Rightarrow> u32 \<Rightarrow> u32 \<Rightarrow> u32 \<Rightarrow> u32 \<Rightarrow> u32 \<Rightarrow> nat \<Rightarrow> u32" where
  "MD5STEP f w x y z data s =
     (let w = w + (f x y z + data); w = push_bit s w OR drop_bit (32 - s) w in w + x)"

text \<open>
  The sixty-four \<open>MD5STEP\<close> lines, in their order: the function, the variable that is
  assigned (the other three follow it cyclically in the macro's arguments), the index
  of the message word, the constant and the shift.
\<close>

datatype reg = RA | RB | RC | RD

definition MD5_lines :: "((u32 \<Rightarrow> u32 \<Rightarrow> u32 \<Rightarrow> u32) \<times> reg \<times> nat \<times> u32 \<times> nat) list" where
  "MD5_lines =
    [(F1, RA, 0, 0xd76aa478, 7), (F1, RD, 1, 0xe8c7b756, 12),
     (F1, RC, 2, 0x242070db, 17), (F1, RB, 3, 0xc1bdceee, 22),
     (F1, RA, 4, 0xf57c0faf, 7), (F1, RD, 5, 0x4787c62a, 12),
     (F1, RC, 6, 0xa8304613, 17), (F1, RB, 7, 0xfd469501, 22),
     (F1, RA, 8, 0x698098d8, 7), (F1, RD, 9, 0x8b44f7af, 12),
     (F1, RC, 10, 0xffff5bb1, 17), (F1, RB, 11, 0x895cd7be, 22),
     (F1, RA, 12, 0x6b901122, 7), (F1, RD, 13, 0xfd987193, 12),
     (F1, RC, 14, 0xa679438e, 17), (F1, RB, 15, 0x49b40821, 22),
     (F2, RA, 1, 0xf61e2562, 5), (F2, RD, 6, 0xc040b340, 9),
     (F2, RC, 11, 0x265e5a51, 14), (F2, RB, 0, 0xe9b6c7aa, 20),
     (F2, RA, 5, 0xd62f105d, 5), (F2, RD, 10, 0x02441453, 9),
     (F2, RC, 15, 0xd8a1e681, 14), (F2, RB, 4, 0xe7d3fbc8, 20),
     (F2, RA, 9, 0x21e1cde6, 5), (F2, RD, 14, 0xc33707d6, 9),
     (F2, RC, 3, 0xf4d50d87, 14), (F2, RB, 8, 0x455a14ed, 20),
     (F2, RA, 13, 0xa9e3e905, 5), (F2, RD, 2, 0xfcefa3f8, 9),
     (F2, RC, 7, 0x676f02d9, 14), (F2, RB, 12, 0x8d2a4c8a, 20),
     (F3, RA, 5, 0xfffa3942, 4), (F3, RD, 8, 0x8771f681, 11),
     (F3, RC, 11, 0x6d9d6122, 16), (F3, RB, 14, 0xfde5380c, 23),
     (F3, RA, 1, 0xa4beea44, 4), (F3, RD, 4, 0x4bdecfa9, 11),
     (F3, RC, 7, 0xf6bb4b60, 16), (F3, RB, 10, 0xbebfbc70, 23),
     (F3, RA, 13, 0x289b7ec6, 4), (F3, RD, 0, 0xeaa127fa, 11),
     (F3, RC, 3, 0xd4ef3085, 16), (F3, RB, 6, 0x04881d05, 23),
     (F3, RA, 9, 0xd9d4d039, 4), (F3, RD, 12, 0xe6db99e5, 11),
     (F3, RC, 15, 0x1fa27cf8, 16), (F3, RB, 2, 0xc4ac5665, 23),
     (F4, RA, 0, 0xf4292244, 6), (F4, RD, 7, 0x432aff97, 10),
     (F4, RC, 14, 0xab9423a7, 15), (F4, RB, 5, 0xfc93a039, 21),
     (F4, RA, 12, 0x655b59c3, 6), (F4, RD, 3, 0x8f0ccc92, 10),
     (F4, RC, 10, 0xffeff47d, 15), (F4, RB, 1, 0x85845dd1, 21),
     (F4, RA, 8, 0x6fa87e4f, 6), (F4, RD, 15, 0xfe2ce6e0, 10),
     (F4, RC, 6, 0xa3014314, 15), (F4, RB, 13, 0x4e0811a1, 21),
     (F4, RA, 4, 0xf7537e82, 6), (F4, RD, 11, 0xbd3af235, 10),
     (F4, RC, 2, 0x2ad7d2bb, 15), (F4, RB, 9, 0xeb86d391, 21)]"

fun MD5_line ::
    "u32 list \<Rightarrow> ((u32 \<Rightarrow> u32 \<Rightarrow> u32 \<Rightarrow> u32) \<times> reg \<times> nat \<times> u32 \<times> nat)
     \<Rightarrow> u32 \<times> u32 \<times> u32 \<times> u32 \<Rightarrow> u32 \<times> u32 \<times> u32 \<times> u32" where
  "MD5_line i (f, RA, k, t, s) (a, b, c, d) = (MD5STEP f a b c d (i ! k + t) s, b, c, d)"
| "MD5_line i (f, RD, k, t, s) (a, b, c, d) = (a, b, c, MD5STEP f d a b c (i ! k + t) s)"
| "MD5_line i (f, RC, k, t, s) (a, b, c, d) = (a, b, MD5STEP f c d a b (i ! k + t) s, d)"
| "MD5_line i (f, RB, k, t, s) (a, b, c, d) = (a, MD5STEP f b c d a (i ! k + t) s, c, d)"

definition MD5Transform :: "u32 list \<Rightarrow> u32 list \<Rightarrow> u32 list" where
  "MD5Transform bf i =
     (case fold (MD5_line i) MD5_lines (bf ! 0, bf ! 1, bf ! 2, bf ! 3) of
        (a, b, c, d) \<Rightarrow> [bf ! 0 + a, bf ! 1 + b, bf ! 2 + c, bf ! 3 + d])"

subsection \<open>The context operations\<close>

definition MD5Init :: "u8 list \<Rightarrow> MD5Context" where
  "MD5Init stack = \<lparr>buf = [0x67452301, 0xefcdab89, 0x98badcfe, 0x10325476],
                    bits0 = 0, bits1 = 0, inb = stack\<rparr>"

definition MD5_block :: "endian \<Rightarrow> MD5Context \<Rightarrow> MD5Context" where
  "MD5_block e ctx =
     (let b = byteReverse e (inb ctx) 16
      in ctx\<lparr>inb := b, buf := MD5Transform (buf ctx) (load32s e b)\<rparr>)"

text \<open>\<open>while (len >= 64)\<close>: whole blocks straight from the input, then the rest is
  kept at the front of the block.\<close>

function MD5Update_loop :: "endian \<Rightarrow> MD5Context \<Rightarrow> u8 list \<Rightarrow> MD5Context" where
  "MD5Update_loop e ctx data =
     (if length data \<ge> 64
      then MD5Update_loop e (MD5_block e (ctx\<lparr>inb := blit 0 (take 64 data) (inb ctx)\<rparr>)) (drop 64 data)
      else ctx\<lparr>inb := blit 0 data (inb ctx)\<rparr>)"
  by pat_completeness auto
termination by (relation "measure (\<lambda>(e, ctx, data). length data)") auto

declare MD5Update_loop.simps [simp del]

text \<open>\<open>len\<close> is \<open>unsigned\<close>: the data are the \<open>len\<close> bytes at the pointer.\<close>

definition MD5Update_bits :: "MD5Context \<Rightarrow> u32 \<Rightarrow> MD5Context" where
  "MD5Update_bits ctx len =
     (let t = bits0 ctx;
          b0 = t + push_bit 3 len;
          b1 = (if b0 < t then bits1 ctx + 1 else bits1 ctx)
      in ctx\<lparr>bits0 := b0, bits1 := b1 + drop_bit 29 len\<rparr>)"

definition MD5Update :: "endian \<Rightarrow> MD5Context \<Rightarrow> u8 list \<Rightarrow> MD5Context" where
  "MD5Update e ctx data =
     (let t = unat (drop_bit 3 (bits0 ctx) AND 0x3f);
          ctx = MD5Update_bits ctx (word_of_nat (length data))
      in if t \<noteq> 0
         then if length data < 64 - t
              then ctx\<lparr>inb := blit t data (inb ctx)\<rparr>
              else MD5Update_loop e
                     (MD5_block e (ctx\<lparr>inb := blit t (take (64 - t) data) (inb ctx)\<rparr>))
                     (drop (64 - t) data)
         else MD5Update_loop e ctx data)"

definition MD5Final :: "endian \<Rightarrow> MD5Context \<Rightarrow> u8 list" where
  "MD5Final e ctx =
     (let count = unat (drop_bit 3 (bits0 ctx) AND 0x3F);
          ctx = ctx\<lparr>inb := blit count [0x80] (inb ctx)\<rparr>;
          p = count + 1;
          count = 64 - 1 - count;
          ctx = (if count < 8
                 then let ctx = MD5_block e (ctx\<lparr>inb := blit p (replicate count 0) (inb ctx)\<rparr>)
                      in ctx\<lparr>inb := blit 0 (replicate 56 0) (inb ctx)\<rparr>
                 else ctx\<lparr>inb := blit p (replicate (count - 8) 0) (inb ctx)\<rparr>);
          b = byteReverse e (inb ctx) 14;
          b = blit 56 (store32 e (bits0 ctx)) b;
          b = blit 60 (store32 e (bits1 ctx)) b;
          h = MD5Transform (buf ctx) (load32s e b)
      in byteReverse e (concat (map (store32 e) h)) 4)"

text \<open>The context is a local variable: its block starts as whatever the stack held.\<close>

definition md5 :: "endian \<Rightarrow> u8 list \<Rightarrow> u8 list \<Rightarrow> u8 list" where
  "md5 e stack input = MD5Final e (MD5Update e (MD5Init stack) input)"


subsection \<open>The digest of RFC 1321\<close>

definition rfc_fn :: "nat \<Rightarrow> u32 \<Rightarrow> u32 \<Rightarrow> u32 \<Rightarrow> u32" where
  "rfc_fn i x y z =
     (if i < 16 then (x AND y) OR (NOT x AND z)
      else if i < 32 then (x AND z) OR (y AND NOT z)
      else if i < 48 then x XOR y XOR z
      else y XOR (x OR NOT z))"

definition rfc_index :: "nat \<Rightarrow> nat" where
  "rfc_index i =
     (if i < 16 then i
      else if i < 32 then (5 * i + 1) mod 16
      else if i < 48 then (3 * i + 5) mod 16
      else (7 * i) mod 16)"

definition rfc_shift :: "nat \<Rightarrow> nat" where
  "rfc_shift i =
     [[7, 12, 17, 22], [5, 9, 14, 20], [4, 11, 16, 23], [6, 10, 15, 21]] ! (i div 16) ! (i mod 4)"

definition rfc_T :: "u32 list" where
  "rfc_T =
    [0xd76aa478, 0xe8c7b756, 0x242070db, 0xc1bdceee,
     0xf57c0faf, 0x4787c62a, 0xa8304613, 0xfd469501,
     0x698098d8, 0x8b44f7af, 0xffff5bb1, 0x895cd7be,
     0x6b901122, 0xfd987193, 0xa679438e, 0x49b40821,
     0xf61e2562, 0xc040b340, 0x265e5a51, 0xe9b6c7aa,
     0xd62f105d, 0x02441453, 0xd8a1e681, 0xe7d3fbc8,
     0x21e1cde6, 0xc33707d6, 0xf4d50d87, 0x455a14ed,
     0xa9e3e905, 0xfcefa3f8, 0x676f02d9, 0x8d2a4c8a,
     0xfffa3942, 0x8771f681, 0x6d9d6122, 0xfde5380c,
     0xa4beea44, 0x4bdecfa9, 0xf6bb4b60, 0xbebfbc70,
     0x289b7ec6, 0xeaa127fa, 0xd4ef3085, 0x04881d05,
     0xd9d4d039, 0xe6db99e5, 0x1fa27cf8, 0xc4ac5665,
     0xf4292244, 0x432aff97, 0xab9423a7, 0xfc93a039,
     0x655b59c3, 0x8f0ccc92, 0xffeff47d, 0x85845dd1,
     0x6fa87e4f, 0xfe2ce6e0, 0xa3014314, 0x4e0811a1,
     0xf7537e82, 0xbd3af235, 0x2ad7d2bb, 0xeb86d391]"

fun rfc_step :: "u32 list \<Rightarrow> nat \<Rightarrow> u32 \<times> u32 \<times> u32 \<times> u32 \<Rightarrow> u32 \<times> u32 \<times> u32 \<times> u32" where
  "rfc_step m i (a, b, c, d) =
     (d, b + word_rotl (rfc_shift i) (a + rfc_fn i b c d + m ! rfc_index i + rfc_T ! i), b, c)"

definition rfc_compress :: "u32 list \<Rightarrow> u32 list \<Rightarrow> u32 list" where
  "rfc_compress h m =
     (case fold (rfc_step m) [0..<64] (h ! 0, h ! 1, h ! 2, h ! 3) of
        (a, b, c, d) \<Rightarrow> [h ! 0 + a, h ! 1 + b, h ! 2 + c, h ! 3 + d])"

function rfc_blocks :: "u32 list \<Rightarrow> u8 list \<Rightarrow> u32 list" where
  "rfc_blocks h bs =
     (if length bs \<ge> 64
      then rfc_blocks (rfc_compress h (load32s Little (take 64 bs))) (drop 64 bs)
      else h)"
  by pat_completeness auto
termination by (relation "measure (\<lambda>(h, bs). length bs)") auto

declare rfc_blocks.simps [simp del]

definition rfc_iv :: "u32 list" where
  "rfc_iv = [0x67452301, 0xefcdab89, 0x98badcfe, 0x10325476]"

text \<open>One bit and zeros up to 56 modulo 64, then the bit length modulo \<open>2 ^ 64\<close>.\<close>

definition rfc_zeros :: "nat \<Rightarrow> nat" where
  "rfc_zeros n = (119 - n mod 64) mod 64"

definition rfc_pad :: "u8 list \<Rightarrow> u8 list" where
  "rfc_pad m = m @ [0x80] @ replicate (rfc_zeros (length m)) 0
     @ le_bytes (word_of_nat (8 * length m)) @ le_bytes (word_of_nat (8 * length m div 2 ^ 32))"

definition md5_spec :: "u8 list \<Rightarrow> u8 list" where
  "md5_spec m = concat (map le_bytes (rfc_blocks rfc_iv (rfc_pad m)))"

subsection \<open>Words and bytes\<close>

lemma le_word_le_bytes:
  "le_word (ucast t) (ucast (drop_bit 8 t)) (ucast (drop_bit 16 t)) (ucast (drop_bit 24 t)) = t"
proof (rule bit_word_eqI)
  fix n assume "n < LENGTH(32)"
  then consider "n < 8" | "8 \<le> n" "n < 16" | "16 \<le> n" "n < 24" | "24 \<le> n" "n < 32" by fastforce
  then show "bit (le_word (ucast t) (ucast (drop_bit 8 t)) (ucast (drop_bit 16 t))
      (ucast (drop_bit 24 t))) n = bit t n"
    by cases (auto simp: le_word_def bit_or_iff bit_push_bit_iff bit_ucast_iff bit_drop_bit_eq
        possible_bit_word)
qed

lemma load32s_store32 [simp]: "load32s e (store32 e t @ bs) = t # load32s e bs"
  by (cases e) (simp_all add: store32_def le_bytes_def le_word_le_bytes)

lemma load32s_le_bytes [simp]: "load32s Little (le_bytes t @ bs) = t # load32s Little bs"
  using load32s_store32 [of Little t bs] by (simp add: store32_def)

lemma load32s_word [simp]: "load32s e (store32 e t) = [t]" "load32s Little (le_bytes t) = [t]"
  using load32s_store32 [of e t "[]"] load32s_le_bytes [of t "[]"] by simp_all

lemma length_store32 [simp]: "length (store32 e t) = 4"
  by (cases e) (simp_all add: store32_def le_bytes_def)

lemma length_le_bytes [simp]: "length (le_bytes t) = 4"
  by (simp add: le_bytes_def)

lemma le_bytes_le_word: "le_bytes (le_word a b c d) = [a, b, c, d]"
proof -
  have "ucast (le_word a b c d) = a" "ucast (drop_bit 8 (le_word a b c d)) = b"
    "ucast (drop_bit 16 (le_word a b c d)) = c" "ucast (drop_bit 24 (le_word a b c d)) = d"
    by (rule bit_word_eqI, auto simp: le_word_def bit_or_iff bit_push_bit_iff bit_ucast_iff
        bit_drop_bit_eq possible_bit_word dest: bit_imp_le_length)+
  then show ?thesis by (simp add: le_bytes_def)
qed

lemma length4_cases:
  assumes "length bs = 4 * Suc n"
  obtains b0 b1 b2 b3 cs where "bs = b0 # b1 # b2 # b3 # cs" "length cs = 4 * n"
  using assms by (auto simp: length_Suc_conv numeral_eq_Suc)

text \<open>Reversing the words of a block and then reading them natively is reading them
  little endian, whatever the machine.\<close>

lemma load32s_byteReverse:
  "length bs = 4 * n \<Longrightarrow> load32s e (byteReverse e (bs @ cs) n @ ds) = load32s Little bs @ load32s e (cs @ ds)"
proof (induction n arbitrary: bs)
  case (Suc n)
  from Suc.prems obtain b0 b1 b2 b3 cs' where "bs = b0 # b1 # b2 # b3 # cs'" "length cs' = 4 * n"
    by (rule length4_cases)
  then show ?case using Suc.IH by simp
next
  case 0
  then have "byteReverse e (bs @ cs) 0 = cs"
    by (cases "(e, cs, 0::nat)" rule: byteReverse.cases) auto
  with 0 show ?case by simp
qed

lemma length_byteReverse [simp]:
  "length bs = 4 * n \<Longrightarrow> length (byteReverse e (bs @ cs) n) = length (bs @ cs)"
proof (induction n arbitrary: bs)
  case (Suc n)
  from Suc.prems obtain b0 b1 b2 b3 cs' where "bs = b0 # b1 # b2 # b3 # cs'" "length cs' = 4 * n"
    by (rule length4_cases)
  then show ?case using Suc.IH by simp
next
  case 0
  then show ?case by (cases "(e, cs, 0::nat)" rule: byteReverse.cases) auto
qed

lemma byteReverse_store32s:
  "byteReverse e (concat (map (store32 e) ws)) (length ws) = concat (map le_bytes ws)"
proof (induction ws)
  case (Cons w ws)
  have "store32 e (le_word (ucast w) (ucast (drop_bit 8 w)) (ucast (drop_bit 16 w)) (ucast (drop_bit 24 w))) = store32 e w"
    by (simp add: le_word_le_bytes)
  moreover have "store32 Big (le_word (ucast (drop_bit 24 w)) (ucast (drop_bit 16 w)) (ucast (drop_bit 8 w)) (ucast w)) = le_bytes w"
    by (simp add: store32_def le_bytes_le_word) (simp add: le_bytes_def)
  ultimately show ?case using Cons.IH
    by (cases e) (simp_all add: store32_def le_bytes_def le_word_le_bytes)
qed simp


subsection \<open>The transformation is the compression of the RFC\<close>

text \<open>The bit-select functions the code optimises.\<close>

lemma F1_rfc: "F1 x y z = (x AND y) OR (NOT x AND z)"
  by (rule bit_word_eqI) (auto simp: F1_def bit_or_iff bit_and_iff bit_xor_iff bit_not_iff)

lemma F2_rfc: "F2 x y z = (x AND z) OR (y AND NOT z)"
  by (rule bit_word_eqI)
     (auto simp: F2_def F1_def bit_or_iff bit_and_iff bit_xor_iff bit_not_iff)

lemma rotl_shifts:
  fixes w :: u32
  assumes "0 < s" "s < 32"
  shows "push_bit s w OR drop_bit (32 - s) w = word_rotl s w"
proof (rule bit_word_eqI)
  fix n assume "n < LENGTH(32)"
  with assms show "bit (push_bit s w OR drop_bit (32 - s) w) n = bit (word_rotl s w) n"
    by (cases "n < s")
       (auto simp: bit_or_iff bit_push_bit_iff bit_drop_bit_eq bit_word_rotl_iff mod_if
          possible_bit_word add.commute [of n 32] dest: bit_imp_le_length)
qed

definition code_fn :: "nat \<Rightarrow> u32 \<Rightarrow> u32 \<Rightarrow> u32 \<Rightarrow> u32" where
  "code_fn i = (if i < 16 then F1 else if i < 32 then F2 else if i < 48 then F3 else F4)"

lemma code_fn_rfc: "code_fn i x y z = rfc_fn i x y z"
  by (simp add: code_fn_def rfc_fn_def F1_rfc F2_rfc F3_def F4_def)

definition code_reg :: "nat \<Rightarrow> reg" where
  "code_reg i = [RA, RD, RC, RB] ! (i mod 4)"

text \<open>The table of the code, line by line, is the schedule of the RFC.\<close>

lemma MD5_lines_schedule:
  "MD5_lines = map (\<lambda>i. (code_fn i, code_reg i, rfc_index i, rfc_T ! i, rfc_shift i)) [0..<64]"
  by (simp add: upt_rec MD5_lines_def code_fn_def code_reg_def rfc_index_def rfc_T_def rfc_shift_def)

lemma rfc_shift_bounds: "i < 64 \<Longrightarrow> 0 < rfc_shift i \<and> rfc_shift i < 32"
proof -
  assume "i < 64"
  then have "i div 16 \<in> {0, 1, 2, 3}" "i mod 4 \<in> {0, 1, 2, 3}" by auto
  then show ?thesis by (auto simp: rfc_shift_def)
qed

text \<open>The RFC renames the four registers after every step; the code assigns them in
  turn. \<open>reg_view k\<close> is the renaming after \<open>k\<close> steps.\<close>

fun reg_view :: "nat \<Rightarrow> 'a \<times> 'a \<times> 'a \<times> 'a \<Rightarrow> 'a \<times> 'a \<times> 'a \<times> 'a" where
  "reg_view k (a, b, c, d) =
     [(a, b, c, d), (d, a, b, c), (c, d, a, b), (b, c, d, a)] ! (k mod 4)"

lemma MD5STEP_rfc:
  assumes "i < 64"
  shows "MD5STEP (code_fn i) w x y z (k + t) (rfc_shift i)
    = x + word_rotl (rfc_shift i) (w + rfc_fn i x y z + k + t)"
  using rfc_shift_bounds [OF assms]
  by (simp add: MD5STEP_def Let_def rotl_shifts code_fn_rfc add.commute add.left_commute add.assoc)

lemma MD5_line_rfc:
  assumes "i < 64"
  shows "reg_view (Suc i) (MD5_line m (code_fn i, code_reg i, rfc_index i, rfc_T ! i, rfc_shift i) st)
     = rfc_step m i (reg_view i st)"
proof -
  obtain a b c d where st: "st = (a, b, c, d)" by (cases st)
  have "i mod 4 < 4" by simp
  then consider "i mod 4 = 0" | "i mod 4 = 1" | "i mod 4 = 2" | "i mod 4 = 3" by linarith
  then show ?thesis
    by cases (simp_all add: st code_reg_def mod_Suc MD5STEP_rfc [OF assms])
qed

lemma MD5_rounds_rfc:
  "n \<le> 64 \<Longrightarrow>
   reg_view n (fold (MD5_line m)
     (map (\<lambda>i. (code_fn i, code_reg i, rfc_index i, rfc_T ! i, rfc_shift i)) [0..<n]) st)
   = fold (rfc_step m) [0..<n] (reg_view 0 st)"
  by (induction n) (simp_all add: MD5_line_rfc del: reg_view.simps)

lemma MD5Transform_rfc: "MD5Transform h m = rfc_compress h m"
proof -
  let ?st = "(h ! 0, h ! 1, h ! 2, h ! 3)"
  have "reg_view 64 (fold (MD5_line m) MD5_lines ?st) = fold (rfc_step m) [0..<64] (reg_view 0 ?st)"
    unfolding MD5_lines_schedule by (rule MD5_rounds_rfc) simp
  moreover have "reg_view 64 st = st" for st :: "u32 \<times> u32 \<times> u32 \<times> u32"
    by (cases st) simp
  ultimately show ?thesis by (simp add: MD5Transform_def rfc_compress_def)
qed

lemma length_rfc_compress [simp]: "length (rfc_compress h m) = 4"
  by (simp add: rfc_compress_def split: prod.split)


subsection \<open>What a context stands for\<close>

lemma length_blit [simp]: "off + length src \<le> length dst \<Longrightarrow> length (blit off src dst) = length dst"
  by (simp add: blit_def)

lemma take_blit: "off \<le> length dst \<Longrightarrow> take (off + length src) (blit off src dst) = take off dst @ src"
  by (simp add: blit_def)

lemma blit_full:
  "length dst = off + length src \<Longrightarrow> blit off src dst = take off dst @ src"
  by (simp add: blit_def)

lemma take_length_append: "take (length xs) (xs @ ys) = xs"
  and drop_length_append: "drop (length xs) (xs @ ys) = ys"
  by simp_all

lemma rfc_blocks_step:
  "length bs = 64 \<Longrightarrow> rfc_blocks h (bs @ cs) = rfc_blocks (rfc_compress h (load32s Little bs)) cs"
  by (subst rfc_blocks.simps) simp

lemma rfc_blocks_short: "length bs < 64 \<Longrightarrow> rfc_blocks h bs = h"
  by (subst rfc_blocks.simps) simp

lemma rfc_blocks_append:
  "64 dvd length xs \<Longrightarrow> rfc_blocks h (xs @ ys) = rfc_blocks (rfc_blocks h xs) ys"
proof (induction h xs rule: rfc_blocks.induct)
  case (1 h bs)
  show ?case
  proof (cases "length bs \<ge> 64")
    case True
    with 1 have "rfc_blocks (rfc_compress h (load32s Little (take 64 bs))) (drop 64 bs @ ys)
        = rfc_blocks (rfc_blocks (rfc_compress h (load32s Little (take 64 bs))) (drop 64 bs)) ys"
      by (simp add: dvd_diff_nat)
    with True show ?thesis
      by (simp add: rfc_blocks.simps [of h "bs @ ys"] rfc_blocks.simps [of h bs])
  next
    case False
    with "1.prems" have "bs = []" by (auto dest: dvd_imp_le)
    then show ?thesis by (simp add: rfc_blocks_short)
  qed
qed

text \<open>
  A context stands for the message \<open>m\<close> fed to it so far: the hash of the whole
  blocks, the message's tail at the front of the block, the bit count modulo \<open>2 ^ 64\<close>.
\<close>

definition whole :: "'a list \<Rightarrow> nat" where
  "whole m = length m - length m mod 64"

definition md5_abs :: "MD5Context \<Rightarrow> u8 list \<Rightarrow> bool" where
  "md5_abs ctx m \<longleftrightarrow>
     length (inb ctx) = 64
     \<and> buf ctx = rfc_blocks rfc_iv (take (whole m) m)
     \<and> take (length m mod 64) (inb ctx) = drop (whole m) m
     \<and> (unat (bits0 ctx) + 2 ^ 32 * unat (bits1 ctx)) = 8 * length m mod 2 ^ 64"

lemma whole_dvd: "64 dvd whole m"
  by (simp add: whole_def dvd_minus_mod)

lemma md5_abs_init: "length stack = 64 \<Longrightarrow> md5_abs (MD5Init stack) []"
  by (simp add: md5_abs_def MD5Init_def whole_def rfc_blocks_short rfc_iv_def)

lemma MD5_block_buf:
  assumes "length (inb ctx) = 64"
  shows "buf (MD5_block e ctx) = rfc_compress (buf ctx) (load32s Little (inb ctx))"
    "length (inb (MD5_block e ctx)) = 64"
    "bits0 (MD5_block e ctx) = bits0 ctx" "bits1 (MD5_block e ctx) = bits1 ctx"
  using load32s_byteReverse [of "inb ctx" 16 e "[]" "[]"] length_byteReverse [of "inb ctx" 16 e "[]"] assms
  by (simp_all add: MD5_block_def Let_def MD5Transform_rfc)

text \<open>The number of bytes in the block is read off the bit count.\<close>

lemma drop3_and63: "unat (drop_bit 3 w AND 0x3f) = unat w div 8 mod 64" for w :: u32
proof -
  have "drop_bit 3 w AND 0x3f = take_bit 6 (drop_bit 3 w)"
    by (simp add: take_bit_eq_mask mask_eq_exp_minus_1)
  then show ?thesis
    by (simp add: take_bit_eq_mod drop_bit_eq_div unat_mod_distrib unat_div_distrib)
qed

lemma md5_abs_count:
  assumes "md5_abs ctx m"
  shows "unat (drop_bit 3 (bits0 ctx) AND 0x3f) = length m mod 64"
proof -
  let ?a = "unat (bits0 ctx)" and ?b = "unat (bits1 ctx)" and ?l = "length m"
  have "?a < 2 ^ 32" using unsigned_less [of "bits0 ctx", where ?'a = nat] by simp
  then have "?a = (?a + 2 ^ 32 * ?b) mod 2 ^ 32" by (simp only: mod_mult_self2 mod_less)
  also have "\<dots> = 8 * ?l mod 2 ^ 64 mod 2 ^ 32" using assms by (simp only: md5_abs_def)
  also have "\<dots> = 8 * ?l mod (8 * 2 ^ 29)" by (subst mod_mod_cancel) (auto intro: le_imp_power_dvd)
  also have "\<dots> = 8 * (?l mod 2 ^ 29)" by (rule mult_mod_right [symmetric])
  finally have "?a div 8 mod 64 = ?l mod 2 ^ 29 mod 64" by simp
  also have "\<dots> = ?l mod 64" by (subst mod_mod_cancel) auto
  finally show ?thesis unfolding drop3_and63 .
qed

lemma MD5Update_loop_spec:
  assumes "length (inb ctx) = 64"
  shows "buf (MD5Update_loop e ctx data) = rfc_blocks (buf ctx) (take (whole data) data)
    \<and> length (inb (MD5Update_loop e ctx data)) = 64
    \<and> take (length data mod 64) (inb (MD5Update_loop e ctx data)) = drop (whole data) data
    \<and> bits0 (MD5Update_loop e ctx data) = bits0 ctx
    \<and> bits1 (MD5Update_loop e ctx data) = bits1 ctx"
  using assms
proof (induction e ctx data rule: MD5Update_loop.induct)
  case (1 e ctx data)
  show ?case
  proof (cases "length data \<ge> 64")
    case True
    let ?c = "MD5_block e (ctx\<lparr>inb := blit 0 (take 64 data) (inb ctx)\<rparr>)"
    have b: "blit 0 (take 64 data) (inb ctx) = take 64 data"
      using True "1.prems" by (simp add: blit_full)
    then have c: "buf ?c = rfc_compress (buf ctx) (load32s Little (take 64 data))"
        "length (inb ?c) = 64" "bits0 ?c = bits0 ctx" "bits1 ?c = bits1 ctx"
      using True "1.prems" by (simp_all add: MD5_block_buf)
    have w: "whole data = 64 + whole (drop 64 data)"
      using True by (simp add: whole_def le_mod_geq)
    have t: "take (whole data) data = take 64 data @ take (whole (drop 64 data)) (drop 64 data)"
      by (simp only: w take_add)
    have l: "length data mod 64 = length (drop 64 data) mod 64"
      using True by (simp add: le_mod_geq)
    have r: "MD5Update_loop e ctx data = MD5Update_loop e ?c (drop 64 data)"
      using True by (subst MD5Update_loop.simps) simp
    have "rfc_blocks (buf ctx) (take (whole data) data)
        = rfc_blocks (buf ?c) (take (whole (drop 64 data)) (drop 64 data))"
      using True unfolding t c(1) by (intro rfc_blocks_step) simp
    moreover have "drop (whole data) data = drop (whole (drop 64 data)) (drop 64 data)"
      by (simp add: w add.commute)
    ultimately show ?thesis
      using "1.IH" [OF True c(2)] c(3,4) unfolding r l by simp
  next
    case False
    then show ?thesis using "1.prems"
      by (subst MD5Update_loop.simps)
         (simp add: MD5Update_loop.simps [of e ctx data] whole_def rfc_blocks_short
           take_blit [where off = 0, simplified])
  qed
qed

lemma whole_append:
  assumes "length data + length m mod 64 \<ge> 64"
  shows "whole (m @ data) = whole m + 64 + whole (drop (64 - length m mod 64) data)"
    "(length (m @ data)) mod 64 = length (drop (64 - length m mod 64) data) mod 64"
proof -
  let ?t = "length m mod 64"
  obtain q where q: "whole m = 64 * q" using whole_dvd by (auto elim: dvdE)
  have "length (m @ data) = whole m + 64 + (length data - (64 - ?t))"
    using assms by (simp add: whole_def)
  then have "length (m @ data) mod 64 = (64 * (q + 1) + (length data - (64 - ?t))) mod 64"
    by (simp add: q add.commute)
  then have "length (m @ data) mod 64 = (length data - (64 - ?t)) mod 64"
    by (simp only: mod_mult_self4)
  then show *: "(length (m @ data)) mod 64 = length (drop (64 - ?t) data) mod 64" by simp
  show "whole (m @ data) = whole m + 64 + whole (drop (64 - ?t) data)"
    using * assms by (simp add: whole_def)
qed

lemma two_limbs:
  "0 < N \<Longrightarrow> x mod N + N * ((y + x div N) mod N) = (x + N * y) mod (N * N)" for N :: nat
  by (simp add: mod_mult2_eq add.commute)

lemma MD5Update_bits_count:
  assumes "(unat (bits0 ctx) + 2 ^ 32 * unat (bits1 ctx)) = 8 * l mod 2 ^ 64" "n < 2 ^ 32"
  shows "(unat (bits0 (MD5Update_bits ctx (word_of_nat n)))
      + 2 ^ 32 * unat (bits1 (MD5Update_bits ctx (word_of_nat n)))) = 8 * (l + n) mod 2 ^ 64"
proof -
  define N :: nat where "N = 2 ^ 32"
  define a b where "a = unat (bits0 ctx)" and "b = unat (bits1 ctx)"
  define k where "k = n div 2 ^ 29"
  define d where "d = 8 * n mod N"
  let ?n = "word_of_nat n :: u32"
  have N: "2 ^ LENGTH(32) = N" "0 < N" by (simp_all add: N_def)
  have a: "a < N" using unsigned_less [of "bits0 ctx", where ?'a = nat] by (simp add: a_def N_def)
  have n: "unat ?n = n" using assms(2) by (simp add: unat_of_nat take_bit_eq_mod)
  have p: "unat (push_bit 3 ?n) = d"
    by (simp add: d_def N_def push_bit_eq_mult unat_word_ariths n mult.commute)
  have s: "unat (bits0 ctx + push_bit 3 ?n) = (a + d) mod N"
    by (simp add: unat_word_ariths p a_def N_def)
  have q: "unat (drop_bit 29 ?n) = k"
    by (simp add: drop_bit_eq_div unat_div_distrib n k_def)
  have d: "d < N" "8 * n = d + N * k"
  proof -
    show "d < N" using N by (simp add: d_def)
    have "8 * n = 8 * n mod N + N * (8 * n div N)" by simp
    also have "8 * n div N = k" by (simp add: N_def k_def)
    finally show "8 * n = d + N * k" by (simp add: d_def)
  qed
  have e: "(a + d) div N = (if a + d \<ge> N then 1 else 0)" using a d(1)
    by (auto simp: div_if)
  have m: "(a + d) mod N = (if a + d \<ge> N then a + d - N else a + d)" using a d(1)
    by (auto simp: mod_if)
  have c: "(bits0 ctx + push_bit 3 ?n < bits0 ctx) = (a + d \<ge> N)"
    unfolding word_less_nat_alt s m a_def [symmetric] using a d(1) by auto
  have c0: "unat (bits0 (MD5Update_bits ctx ?n)) = (a + d) mod N"
    by (simp add: MD5Update_bits_def Let_def s)
  have c1: "unat (bits1 (MD5Update_bits ctx ?n)) = (b + k + (a + d) div N) mod N"
  proof (cases "a + d \<ge> N")
    case True
    then have "unat (bits1 (MD5Update_bits ctx ?n)) = unat (bits1 ctx + 1 + drop_bit 29 ?n)"
      by (simp add: MD5Update_bits_def Let_def c)
    also have "\<dots> = ((b + 1) mod N + k) mod N"
      unfolding unat_word_ariths q N by (simp add: b_def)
    also have "\<dots> = (b + k + 1) mod N" by (simp only: mod_add_left_eq) (simp add: ac_simps)
    finally show ?thesis using True by (simp only: e if_True)
  next
    case False
    then show ?thesis
      by (simp add: MD5Update_bits_def Let_def c e unat_word_ariths q b_def N(1) del: len_of_numeral_defs)
  qed
  have "(a + d) mod N + N * ((b + k + (a + d) div N) mod N) = (a + d + N * (b + k)) mod (N * N)"
    by (rule two_limbs) (rule N)
  also have "a + d + N * (b + k) = (a + N * b) + 8 * n" by (simp add: d(2) distrib_left)
  also have "a + N * b = 8 * l mod (N * N)"
    using assms(1) by (simp add: a_def b_def N_def)
  also have "(8 * l mod (N * N) + 8 * n) mod (N * N) = 8 * (l + n) mod (N * N)"
    by (simp only: mod_add_left_eq distrib_left)
  finally show ?thesis unfolding c0 c1 by (simp add: N_def)
qed


lemma MD5Update_bits_frame [simp]:
  "buf (MD5Update_bits ctx len) = buf ctx" "inb (MD5Update_bits ctx len) = inb ctx"
  by (simp_all add: MD5Update_bits_def Let_def)

lemma md5_abs_update:
  assumes "md5_abs ctx m" "length data < 2 ^ 32"
  shows "md5_abs (MD5Update e ctx data) (m @ data)"
proof -
  define t where "t = length m mod 64"
  let ?c = "MD5Update_bits ctx (word_of_nat (length data))"
  have t: "t < 64" by (simp add: t_def)
  have cnt: "unat (drop_bit 3 (bits0 ctx) AND 0x3f) = t"
    unfolding t_def by (rule md5_abs_count) (rule assms(1))
  have ctx: "length (inb ctx) = 64" "buf ctx = rfc_blocks rfc_iv (take (whole m) m)"
      "take t (inb ctx) = drop (whole m) m"
    and bits: "unat (bits0 ?c) + 2 ^ 32 * unat (bits1 ?c) = 8 * length (m @ data) mod 2 ^ 64"
    using assms(1) MD5Update_bits_count [OF _ assms(2), of ctx "length m"]
    by (simp_all add: md5_abs_def t_def)
  show ?thesis
  proof (cases "length data < 64 - t")
    case True
    have "(length m + length data) mod 64 = (t + length data) mod 64"
      by (simp only: t_def mod_add_left_eq)
    with True have l: "length (m @ data) mod 64 = t + length data" by simp
    have w: "whole (m @ data) = whole m"
      unfolding whole_def l by (simp add: t_def)
    have u: "MD5Update e ctx data = ?c\<lparr>inb := blit t data (inb ctx)\<rparr>"
    proof (cases "t = 0")
      case True
      with \<open>length data < 64 - t\<close> show ?thesis
        by (simp add: MD5Update_def Let_def cnt MD5Update_loop.simps [of e _ data])
    qed (simp add: MD5Update_def Let_def cnt True)
    have "whole m \<le> length m" by (simp add: whole_def)
    then show ?thesis using ctx bits True t
      unfolding md5_abs_def w l u by (simp add: take_blit)
  next
    case False
    let ?d = "drop (64 - t) data"
    let ?b = "take t (inb ctx) @ take (64 - t) data"
    define c0 where "c0 = MD5_block e (?c\<lparr>inb := ?b\<rparr>)"
    have lb: "length ?b = 64" using False t ctx(1) by simp
    have bl: "blit t (take (64 - t) data) (inb ctx) = ?b"
      using False t ctx(1) by (intro blit_full) simp
    have u: "MD5Update e ctx data = MD5Update_loop e c0 ?d"
    proof (cases "t = 0")
      case True
      then show ?thesis using False bl
        by (simp add: MD5Update_def Let_def cnt MD5Update_loop.simps [of e ?c data] c0_def)
    next
      case t0: False
      then show ?thesis using False bl by (simp add: MD5Update_def Let_def cnt c0_def)
    qed
    have c0: "length (inb c0) = 64" "bits0 c0 = bits0 ?c" "bits1 c0 = bits1 ?c"
      "buf c0 = rfc_compress (buf ctx) (load32s Little ?b)"
      using MD5_block_buf [of "?c\<lparr>inb := ?b\<rparr>" e] lb by (simp_all add: c0_def)
    have wl: "whole (m @ data) = whole m + 64 + whole ?d" "length (m @ data) mod 64 = length ?d mod 64"
      using whole_append [of data m] False by (simp_all add: t_def)
    have wm: "whole m \<le> length m" "length m - whole m = t" by (simp_all add: whole_def t_def)
    have m: "m @ data = (take (whole m) m @ ?b) @ ?d"
      by (simp add: ctx(3))
    let ?P = "take (whole m) m @ ?b"
    have P: "length ?P = whole m + 64" using lb wm(1) by simp
    have "take (whole (m @ data)) (m @ data) = take (length ?P + whole ?d) (?P @ ?d)"
      by (simp only: wl(1) P m [symmetric])
    then have tk: "take (whole (m @ data)) (m @ data) = ?P @ take (whole ?d) ?d"
      by (simp only: take_add take_length_append drop_length_append)
    have "drop (whole (m @ data)) (m @ data) = drop (length ?P + whole ?d) (?P @ ?d)"
      by (simp only: wl(1) P m [symmetric])
    then have dr: "drop (whole (m @ data)) (m @ data) = drop (whole ?d) ?d"
      by (simp only: drop_drop [symmetric] add.commute [of "length ?P"] drop_length_append)
    have "rfc_blocks rfc_iv (take (whole (m @ data)) (m @ data)) = rfc_blocks (buf c0) (take (whole ?d) ?d)"
    proof -
      let ?T = "take (whole m) m" and ?X = "take (whole ?d) ?d"
      have "64 dvd length ?T" using wm(1) whole_dvd [of m] by (simp add: min_absorb2)
      then have "rfc_blocks rfc_iv (?T @ (?b @ ?X)) = rfc_blocks (rfc_blocks rfc_iv ?T) (?b @ ?X)"
        by (rule rfc_blocks_append)
      also have "\<dots> = rfc_blocks (buf c0) ?X"
        unfolding c0(4) ctx(2) by (rule rfc_blocks_step) (rule lb)
      finally show ?thesis unfolding tk by (simp only: append_assoc)
    qed
    moreover note MD5Update_loop_spec [OF c0(1), of e ?d]
    ultimately show ?thesis
      using bits unfolding md5_abs_def u wl(2) dr by (simp add: c0(2,3))
  qed
qed


subsection \<open>The final padding\<close>

lemma byteReverse_append:
  "length xs = 4 * n \<Longrightarrow> byteReverse e (xs @ ys) n = byteReverse e xs n @ ys"
proof (induction n arbitrary: xs)
  case (Suc n)
  from Suc.prems obtain b0 b1 b2 b3 cs where "xs = b0 # b1 # b2 # b3 # cs" "length cs = 4 * n"
    by (rule length4_cases)
  then show ?case using Suc.IH by simp
next
  case 0
  then show ?case by (cases "(e, ys, 0::nat)" rule: byteReverse.cases) auto
qed

lemma MD5_last_block:
  assumes "length xs = 56" "length ys = 8"
  shows "MD5Transform h (load32s e (blit 60 (store32 e b1) (blit 56 (store32 e b0) (byteReverse e (xs @ ys) 14))))
    = rfc_compress h (load32s Little (xs @ le_bytes b0 @ le_bytes b1))"
proof -
  let ?r = "byteReverse e xs 14"
  have l: "length ?r = 56" using length_byteReverse [of xs 14 e "[]"] assms(1) by simp
  have "blit 56 (store32 e b0) (?r @ ys) = ?r @ store32 e b0 @ drop 4 ys"
    using l by (simp add: blit_def)
  moreover have "blit 60 (store32 e b1) (?r @ store32 e b0 @ drop 4 ys) = ?r @ store32 e b0 @ store32 e b1"
    using l assms(2) by (simp add: blit_def)
  ultimately have "blit 60 (store32 e b1) (blit 56 (store32 e b0) (byteReverse e (xs @ ys) 14))
      = ?r @ store32 e b0 @ store32 e b1"
    using assms(1) by (simp add: byteReverse_append)
  moreover have "load32s e (?r @ store32 e b0 @ store32 e b1) = load32s Little xs @ [b0, b1]"
    using load32s_byteReverse [of xs 14 e "[]" "store32 e b0 @ store32 e b1"] assms(1)
    by simp
  moreover have "load32s Little (xs @ le_bytes b0 @ le_bytes b1) = load32s Little xs @ [b0, b1]"
  proof -
    have "byteReverse Little xs n = xs" if "length xs = 4 * n" for xs n
      using that
    proof (induction n arbitrary: xs)
      case (Suc n)
      from Suc.prems obtain c0 c1 c2 c3 cs where "xs = c0 # c1 # c2 # c3 # cs" "length cs = 4 * n"
        by (rule length4_cases)
      then show ?case using Suc.IH by (simp add: store32_def le_bytes_le_word)
    qed simp
    from this [of xs 14] load32s_byteReverse [of xs 14 Little "[]" "le_bytes b0 @ le_bytes b1"] assms(1)
    show ?thesis by simp
  qed
  ultimately show ?thesis by (simp add: MD5Transform_rfc)
qed

lemma md5_abs_bits:
  assumes "md5_abs ctx m"
  shows "word_of_nat (8 * length m) = bits0 ctx" "word_of_nat (8 * length m div 2 ^ 32) = bits1 ctx"
proof -
  let ?a = "unat (bits0 ctx)" and ?b = "unat (bits1 ctx)" and ?N = "2 ^ 32 :: nat"
  have a: "?a < ?N" and b: "?b < ?N"
    using unsigned_less [of "bits0 ctx", where ?'a = nat] unsigned_less [of "bits1 ctx", where ?'a = nat]
    by simp_all
  have e: "?a + ?N * ?b = 8 * length m mod (?N * ?N)" using assms by (simp add: md5_abs_def)
  have "?a + ?N * ?b = ?N * (8 * length m div ?N mod ?N) + 8 * length m mod ?N"
    unfolding e by (rule mod_mult2_eq)
  then have "(?a + ?N * ?b) mod ?N = (8 * length m mod ?N) mod ?N"
    and "(?a + ?N * ?b) div ?N = (?N * (8 * length m div ?N mod ?N) + 8 * length m mod ?N) div ?N"
    by (simp_all only: mod_mult_self4)
  then have "?a = 8 * length m mod ?N" "?b = 8 * length m div ?N mod ?N"
    using a by simp_all
  then show "word_of_nat (8 * length m) = bits0 ctx" "word_of_nat (8 * length m div 2 ^ 32) = bits1 ctx"
    unfolding word_unat_eq_iff unsigned_of_nat take_bit_eq_mod by simp_all
qed

lemma le_bytes_concat: "length ws = 4 \<Longrightarrow> byteReverse e (concat (map (store32 e) ws)) 4 = concat (map le_bytes ws)"
  using byteReverse_store32s [of e ws] by simp


lemma MD5Final_spec:
  assumes "md5_abs ctx m"
  shows "MD5Final e ctx = md5_spec m"
proof -
  define t where "t = length m mod 64"
  define r where "r = drop (whole m) m"
  define h where "h = buf ctx"
  let ?T = "take (whole m) m"
  let ?L = "le_bytes (bits0 ctx) @ le_bytes (bits1 ctx)"
  have t: "t < 64" "rfc_zeros (length m) = (119 - t) mod 64" by (simp_all add: t_def rfc_zeros_def)
  have cnt: "unat (drop_bit 3 (bits0 ctx) AND 0x3F) = t"
    unfolding t_def by (rule md5_abs_count) (rule assms)
  have ctx: "length (inb ctx) = 64" "h = rfc_blocks rfc_iv ?T" "take t (inb ctx) = r" "length r = t"
    using assms by (simp_all add: md5_abs_def t_def r_def h_def whole_def)
  have dT: "64 dvd length ?T" using whole_dvd [of m] by (simp add: whole_def min_absorb2)
  have "rfc_pad m = ?T @ (r @ [0x80] @ replicate (rfc_zeros (length m)) 0 @ ?L)"
    unfolding rfc_pad_def md5_abs_bits [OF assms] r_def by simp
  then have spec: "rfc_blocks rfc_iv (rfc_pad m)
      = rfc_blocks h (r @ [0x80] @ replicate (rfc_zeros (length m)) 0 @ ?L)"
    using rfc_blocks_append [OF dT] by (simp add: ctx(2))
  let ?B = "blit t [0x80] (inb ctx)"
  have B: "take (Suc t) ?B = r @ [0x80]" "length ?B = 64"
    using t(1) ctx take_blit [of t "inb ctx" "[0x80]"] by simp_all
  have fin: "rfc_blocks h' (xs @ ?L) = rfc_compress h' (load32s Little (xs @ ?L))"
    if "length xs = 56" for h' and xs :: "u8 list"
    using rfc_blocks_step [of "xs @ ?L" h' "[]"] that by (simp add: rfc_blocks_short)
  have out: "MD5Final e ctx = concat (map le_bytes (rfc_blocks rfc_iv (rfc_pad m)))"
  proof (cases "t < 56")
    case True
    let ?xs = "r @ [0x80] @ replicate (55 - t) 0"
    have xs: "length ?xs = 56" using True ctx(4) by simp
    have z: "rfc_zeros (length m) = 55 - t" using True t(2) by (simp add: le_mod_geq)
    have "blit (t + 1) (replicate (63 - t - 8) 0) ?B = ?xs @ drop 56 ?B"
      using True unfolding blit_def [of "t + 1"] by (simp add: B)
    moreover have "\<not> 63 - t < 8" using True by simp
    ultimately have "MD5Final e ctx = concat (map le_bytes (rfc_compress h (load32s Little (?xs @ ?L))))"
      using True MD5_last_block [OF xs, of "drop 56 ?B" h e "bits1 ctx" "bits0 ctx"] B(2)
      by (simp add: MD5Final_def Let_def cnt le_bytes_concat h_def)
    then show ?thesis using fin [OF xs, of h] unfolding spec z by simp
  next
    case False
    let ?ys = "r @ 0x80 # replicate (63 - t) 0" and ?xs = "replicate 56 0 :: u8 list"
    define c where "c = MD5_block e (ctx\<lparr>inb := ?ys\<rparr>)"
    have ys: "length ?ys = 64" using t ctx(4) by simp
    have z: "replicate (rfc_zeros (length m)) (0::u8) = replicate (63 - t) 0 @ ?xs"
      using False t by (simp add: replicate_add [symmetric])
    have c: "buf c = rfc_compress h (load32s Little ?ys)" "length (inb c) = 64"
       "bits0 c = bits0 ctx" "bits1 c = bits1 ctx"
      using MD5_block_buf [of "ctx\<lparr>inb := ?ys\<rparr>" e] ys by (simp_all add: c_def h_def)
    have "blit (t + 1) (replicate (63 - t) 0) ?B = ?ys"
      using t B by (subst blit_full) simp_all
    moreover have "blit 0 ?xs (inb c) = ?xs @ drop 56 (inb c)" by (simp add: blit_def)
    moreover have "63 - t < 8" using False t(1) by simp
    ultimately have "MD5Final e ctx = concat (map le_bytes (rfc_compress (buf c) (load32s Little (?xs @ ?L))))"
      using False t(1) MD5_last_block [of ?xs "drop 56 (inb c)" "buf c" e "bits1 ctx" "bits0 ctx"] c(2,3,4)
      by (simp add: MD5Final_def Let_def cnt le_bytes_concat c_def [symmetric])
    also have "rfc_compress (buf c) (load32s Little (?xs @ ?L)) = rfc_blocks (buf c) (?xs @ ?L)"
      by (rule fin [symmetric]) simp
    also have "\<dots> = rfc_blocks h (?ys @ (?xs @ ?L))"
      unfolding c(1) by (rule rfc_blocks_step [symmetric]) (rule ys)
    finally show ?thesis unfolding spec z by simp
  qed
  then show ?thesis by (simp add: md5_spec_def)
qed


lemma md5_abs_updates:
  assumes "md5_abs ctx m" "\<forall>d \<in> set ds. length d < 2 ^ 32"
  shows "md5_abs (fold (\<lambda>d c. MD5Update e c d) ds ctx) (m @ concat ds)"
  using assms
proof (induction ds arbitrary: ctx m)
  case (Cons d ds)
  then have "md5_abs (MD5Update e ctx d) (m @ d)" by (intro md5_abs_update) simp_all
  from Cons.IH [OF this] Cons.prems(2) show ?case by simp
qed simp

lemma length_rfc_blocks [simp]: "length h = 4 \<Longrightarrow> length (rfc_blocks h bs) = 4"
  by (induction h bs rule: rfc_blocks.induct) (subst rfc_blocks.simps, simp)

lemma length_md5_spec: "length (md5_spec m) = 16"
proof -
  have "length (concat (map le_bytes ws)) = 4 * length ws" for ws by (induction ws) simp_all
  moreover have "length rfc_iv = 4" by (simp add: rfc_iv_def)
  ultimately show ?thesis by (simp add: md5_spec_def)
qed

subsection \<open>Properties\<close>

text \<open>C17: \<open>md5\<close> computes the digest of RFC 1321 for every input, on machines of
  either byte order and whatever the uninitialised block of the context holds.\<close>

theorem md5_correct:
  assumes "length stack = 64" "length input < 2 ^ 31"
  shows "md5 e stack input = md5_spec input"
proof -
  have "md5_abs (MD5Update e (MD5Init stack) input) ([] @ input)"
    using assms by (intro md5_abs_update md5_abs_init) simp_all
  from MD5Final_spec [OF this] show ?thesis by (simp add: md5_def)
qed

theorem md5_correct_witness:
  "length (replicate 64 (0xaa :: u8)) = 64 \<and> length (map of_char ''abc'' :: u8 list) < 2 ^ 31
   \<and> md5 Big (replicate 64 0xaa) (map of_char ''abc'') = md5_spec (map of_char ''abc'')"
  using md5_correct [of "replicate 64 0xaa" "map of_char ''abc''" Big] by simp

text \<open>C21: feeding a message in any number of pieces to \<open>MD5Update\<close> gives the
  digest of their concatenation.\<close>

theorem md5_streaming:
  assumes "length stack = 64" "\<forall>d \<in> set ds. length d < 2 ^ 32"
  shows "MD5Final e (fold (\<lambda>d c. MD5Update e c d) ds (MD5Init stack)) = md5_spec (concat ds)"
  using MD5Final_spec [OF md5_abs_updates [OF md5_abs_init [OF assms(1)] assms(2)]] by simp

theorem md5_streaming_witness:
  "MD5Final Little (fold (\<lambda>d c. MD5Update Little c d) [[1], [2, 3]] (MD5Init (replicate 64 0)))
   = md5_spec [1, 2, 3]"
  using md5_streaming [of "replicate 64 0" "[[1], [2, 3]]" Little] by simp

end
