(* ===== verification/UbxTime.thy ===== *)
theory UbxTime
  imports Prelude
begin

text \<open>
  The time arithmetic at the end of \<open>src/src/ubx.c\<close>: comparison, normalisation,
  sum, difference and quotient of \<open>struct ubx_timespec\<close>. Both fields are C
  \<open>long\<close>s; an operation whose value does not fit is undefined (\<open>None\<close>). The lemmas
  give the meaning of every operation over \<open>ts_val\<close>, the nanoseconds a pair stands
  for: normalisation keeps the value and yields the one normal form of it, comparison
  on normal forms is comparison of values, and sum and difference are exact.
\<close>

datatype ubx_timespec = TS (sec: int) (nsec: int)

definition NSEC_PER_SEC :: int where "NSEC_PER_SEC = 1000000000"

definition ubx_ts_cmp :: "ubx_timespec \<Rightarrow> ubx_timespec \<Rightarrow> int" where
  "ubx_ts_cmp ts1 ts2 =
     (if sec ts1 > sec ts2 then 1
      else if sec ts1 < sec ts2 then -1
      else if nsec ts1 > nsec ts2 then 1
      else if nsec ts1 < nsec ts2 then -1
      else 0)"

text \<open>The four adjustments of \<open>ubx_ts_norm\<close>, in the order of the code.\<close>

definition ubx_ts_norm :: "ubx_timespec \<Rightarrow> ubx_timespec option" where
  "ubx_ts_norm ts = do {
     ts \<leftarrow> (if nsec ts \<ge> NSEC_PER_SEC
           then do { s \<leftarrow> ladd (sec ts) (nsec ts sdiv NSEC_PER_SEC);
                     Some (TS s (nsec ts smod NSEC_PER_SEC)) }
           else Some ts);
     ts \<leftarrow> (if nsec ts \<le> - NSEC_PER_SEC
           then do { s \<leftarrow> ladd (sec ts) (nsec ts sdiv NSEC_PER_SEC);
                     Some (TS s (nsec ts smod (- NSEC_PER_SEC))) }
           else Some ts);
     ts \<leftarrow> (if sec ts > 0 \<and> nsec ts < 0
           then do { s \<leftarrow> lsub (sec ts) 1; n \<leftarrow> ladd (nsec ts) NSEC_PER_SEC; Some (TS s n) }
           else Some ts);
     (if sec ts < 0 \<and> nsec ts > 0
      then do { s \<leftarrow> ladd (sec ts) 1; n \<leftarrow> lsub (nsec ts) NSEC_PER_SEC; Some (TS s n) }
      else Some ts) }"

definition ubx_ts_sub :: "ubx_timespec \<Rightarrow> ubx_timespec \<Rightarrow> ubx_timespec option" where
  "ubx_ts_sub ts1 ts2 = do {
     s \<leftarrow> lsub (sec ts1) (sec ts2);
     n \<leftarrow> lsub (nsec ts1) (nsec ts2);
     ubx_ts_norm (TS s n) }"

definition ubx_ts_add :: "ubx_timespec \<Rightarrow> ubx_timespec \<Rightarrow> ubx_timespec option" where
  "ubx_ts_add ts1 ts2 = do {
     s \<leftarrow> ladd (sec ts1) (sec ts2);
     n \<leftarrow> ladd (nsec ts1) (nsec ts2);
     ubx_ts_norm (TS s n) }"

text \<open>The code computes both fields of the quotient from the seconds.\<close>

definition ubx_ts_div :: "ubx_timespec \<Rightarrow> int \<Rightarrow> ubx_timespec option" where
  "ubx_ts_div ts d = do {
     s \<leftarrow> ldiv (sec ts) d;
     n \<leftarrow> ldiv (sec ts) d;
     Some (TS s n) }"

text \<open>\<open>clock_gettime\<close> is the operating system's: its answer is the parameter
  \<open>clk\<close>, \<open>None\<close> when it fails.\<close>

definition ubx_clock_mono_gettime ::
    "ubx_timespec option \<Rightarrow> ubx_timespec option \<Rightarrow> int \<times> ubx_timespec option" where
  "ubx_clock_mono_gettime clk uts =
     (case uts of
        None \<Rightarrow> (-1, None)
      | Some old \<Rightarrow> (case clk of
            None \<Rightarrow> (-1, Some old)
          | Some ts \<Rightarrow> (0, Some (TS (sec ts) (nsec ts)))))"

subsection \<open>Values and normal forms\<close>

definition ts_val :: "ubx_timespec \<Rightarrow> int" where
  "ts_val ts = sec ts * NSEC_PER_SEC + nsec ts"

definition ts_normal :: "ubx_timespec \<Rightarrow> bool" where
  "ts_normal ts \<longleftrightarrow> \<bar>nsec ts\<bar> < NSEC_PER_SEC
     \<and> (sec ts > 0 \<longrightarrow> nsec ts \<ge> 0) \<and> (sec ts < 0 \<longrightarrow> nsec ts \<le> 0)"

text \<open>Fields far enough from the ends of \<open>long\<close> that no adjustment overflows.\<close>

definition ts_small :: "ubx_timespec \<Rightarrow> bool" where
  "ts_small ts \<longleftrightarrow> \<bar>sec ts\<bar> < 2 ^ 62 \<and> \<bar>nsec ts\<bar> < 2 ^ 62"

lemma sdiv_NSEC:
  "n sdiv NSEC_PER_SEC = (if n \<ge> 0 then n div NSEC_PER_SEC else - ((- n) div NSEC_PER_SEC))"
  by (simp add: signed_divide_int_def NSEC_PER_SEC_def sgn_if)

lemma smod_NSEC:
  "n smod NSEC_PER_SEC = (if n \<ge> 0 then n mod NSEC_PER_SEC else - ((- n) mod NSEC_PER_SEC))"
  by (simp add: signed_modulo_int_def NSEC_PER_SEC_def sgn_if minus_div_mult_eq_mod [symmetric])

lemma smod_minus_NSEC: "n smod (- NSEC_PER_SEC) = n smod NSEC_PER_SEC"
  by (simp add: signed_modulo_int_def)

text \<open>The first two adjustments together: the nanoseconds are reduced below one
  second in magnitude, keeping their sign, and the quotient is carried.\<close>

definition ts_carry :: "ubx_timespec \<Rightarrow> ubx_timespec" where
  "ts_carry ts = TS (sec ts + nsec ts sdiv NSEC_PER_SEC) (nsec ts smod NSEC_PER_SEC)"

definition ts_sign :: "ubx_timespec \<Rightarrow> ubx_timespec" where
  "ts_sign ts = (if sec ts > 0 \<and> nsec ts < 0 then TS (sec ts - 1) (nsec ts + NSEC_PER_SEC)
                 else if sec ts < 0 \<and> nsec ts > 0 then TS (sec ts + 1) (nsec ts - NSEC_PER_SEC)
                 else ts)"

lemma sdiv_smod_NSEC: "(n sdiv NSEC_PER_SEC) * NSEC_PER_SEC + n smod NSEC_PER_SEC = n"
proof (cases "n \<ge> 0")
  case False
  have "((- n) div NSEC_PER_SEC) * NSEC_PER_SEC + (- n) mod NSEC_PER_SEC = - n"
    by (rule div_mult_mod_eq)
  then have "- (((- n) div NSEC_PER_SEC) * NSEC_PER_SEC) - (- n) mod NSEC_PER_SEC = n" by linarith
  with False show ?thesis by (simp add: sdiv_NSEC smod_NSEC)
qed (simp add: sdiv_NSEC smod_NSEC)

lemma ts_carry_val: "ts_val (ts_carry ts) = ts_val ts"
  using sdiv_smod_NSEC [of "nsec ts"]
  by (simp add: ts_val_def ts_carry_def distrib_right)

lemma smod_NSEC_bound: "\<bar>n smod NSEC_PER_SEC\<bar> < NSEC_PER_SEC"
  unfolding smod_NSEC by (simp add: NSEC_PER_SEC_def)

lemma ts_carry_bound: "\<bar>nsec (ts_carry ts)\<bar> < NSEC_PER_SEC"
  by (simp add: ts_carry_def smod_NSEC_bound)

lemma ts_sign_val: "ts_val (ts_sign ts) = ts_val ts"
  by (simp add: ts_sign_def ts_val_def algebra_simps)

lemma ts_sign_normal: "\<bar>nsec ts\<bar> < NSEC_PER_SEC \<Longrightarrow> ts_normal (ts_sign ts)"
  by (auto simp: ts_sign_def ts_normal_def)

lemma ts_carry_id: "\<bar>nsec ts\<bar> < NSEC_PER_SEC \<Longrightarrow> ts_carry ts = ts"
  by (cases ts) (auto simp: ts_carry_def sdiv_NSEC smod_NSEC)

lemma ts_norm_Some: "ubx_ts_norm ts = Some ts' \<Longrightarrow> ts' = ts_sign (ts_carry ts)"
proof -
  assume *: "ubx_ts_norm ts = Some ts'"
  have b: "\<not> nsec ts smod NSEC_PER_SEC \<le> - NSEC_PER_SEC"
    using smod_NSEC_bound [of "nsec ts"] by linarith
  show ?thesis
  proof (cases "\<bar>nsec ts\<bar> < NSEC_PER_SEC")
    case True
    then have "\<not> nsec ts \<ge> NSEC_PER_SEC" "\<not> nsec ts \<le> - NSEC_PER_SEC" by linarith+
    with * True show ?thesis
      by (auto simp: ubx_ts_norm_def ts_sign_def ts_carry_id split: if_splits)
  next
    case False
    then consider "nsec ts \<ge> NSEC_PER_SEC" | "\<not> nsec ts \<ge> NSEC_PER_SEC" "nsec ts \<le> - NSEC_PER_SEC"
      by linarith
    then show ?thesis
      using * b by cases (auto simp: ubx_ts_norm_def ts_sign_def ts_carry_def smod_minus_NSEC
          split: if_splits)
  qed
qed

lemma ts_norm_defined:
  assumes "ts_small ts"
  shows "ubx_ts_norm ts = Some (ts_sign (ts_carry ts))"
proof -
  define s n where "s = sec ts + nsec ts sdiv NSEC_PER_SEC" and "n = nsec ts smod NSEC_PER_SEC"
  have c: "ts_carry ts = TS s n" by (simp add: ts_carry_def s_def n_def)
  have n: "\<bar>n\<bar> < NSEC_PER_SEC" by (simp add: n_def smod_NSEC_bound)
  have "\<bar>nsec ts sdiv NSEC_PER_SEC\<bar> < 2 ^ 61"
    using assms unfolding sdiv_NSEC ts_small_def by (auto simp: NSEC_PER_SEC_def)
  then have s: "\<bar>s\<bar> < 2 ^ 62 + 2 ^ 61" using assms unfolding s_def ts_small_def by linarith
  have lo: "\<not> n \<ge> NSEC_PER_SEC" "\<not> n \<le> - NSEC_PER_SEC" using n by linarith+
  consider (a) "\<bar>nsec ts\<bar> < NSEC_PER_SEC"
    | (b) "nsec ts \<ge> NSEC_PER_SEC" | (c) "\<not> nsec ts \<ge> NSEC_PER_SEC" "nsec ts \<le> - NSEC_PER_SEC"
    by linarith
  then have "ubx_ts_norm ts = (if s > 0 \<and> n < 0 then do { s \<leftarrow> lsub s 1; n \<leftarrow> ladd n NSEC_PER_SEC; Some (TS s n) }
      else Some (TS s n)) \<bind> (\<lambda>ts. if sec ts < 0 \<and> nsec ts > 0
      then do { s \<leftarrow> ladd (sec ts) 1; n \<leftarrow> lsub (nsec ts) NSEC_PER_SEC; Some (TS s n) } else Some ts)"
  proof cases
    case a
    then have "ts = TS s n" using c by (simp add: ts_carry_id)
    moreover have "\<not> nsec ts \<ge> NSEC_PER_SEC" "\<not> nsec ts \<le> - NSEC_PER_SEC" using a by linarith+
    ultimately show ?thesis by (simp add: ubx_ts_norm_def)
  next
    case b
    then show ?thesis using s lo(2)
      by (simp add: ubx_ts_norm_def ladd_def s_def [symmetric] n_def [symmetric] in_long_def abs_less_iff)
  next
    case c
    then show ?thesis using s lo
      by (simp add: ubx_ts_norm_def ladd_def s_def [symmetric] n_def [symmetric] in_long_def
          abs_less_iff smod_minus_NSEC)
  qed
  also have "\<dots> = Some (ts_sign (TS s n))"
    using s n by (auto simp: ts_sign_def ladd_def lsub_def in_long_def NSEC_PER_SEC_def abs_less_iff)
  finally show ?thesis by (simp add: c)
qed

text \<open>A normal form is determined by its value, so the order of values is the
  lexicographic order of normal forms.\<close>

lemma ts_normal_less:
  assumes "ts_normal a" "ts_normal b" "sec a < sec b"
  shows "ts_val a < ts_val b"
proof -
  have "nsec a - nsec b < (sec b - sec a) * NSEC_PER_SEC"
  proof (cases "sec b - sec a \<ge> 2")
    case True
    then have "(sec b - sec a) * NSEC_PER_SEC \<ge> 2 * NSEC_PER_SEC"
      by (simp add: NSEC_PER_SEC_def)
    moreover have "nsec a - nsec b < 2 * NSEC_PER_SEC"
      using assms(1,2) by (simp add: ts_normal_def abs_less_iff)
    ultimately show ?thesis by linarith
  next
    case False
    with assms(3) have d: "sec b - sec a = 1" by linarith
    have "nsec a - nsec b < NSEC_PER_SEC"
      using assms d by (auto simp: ts_normal_def abs_less_iff)
    with d show ?thesis by simp
  qed
  then show ?thesis by (simp add: ts_val_def algebra_simps)
qed

lemma ts_cmp_normal:
  assumes "ts_normal a" "ts_normal b"
  shows "ubx_ts_cmp a b = sgn (ts_val a - ts_val b)"
proof -
  consider "sec a < sec b" | "sec b < sec a" | "sec a = sec b" by linarith
  then show ?thesis
  proof cases
    case 1 then show ?thesis using ts_normal_less [OF assms] by (simp add: ubx_ts_cmp_def)
  next
    case 2 then show ?thesis using ts_normal_less [OF assms(2,1)] by (simp add: ubx_ts_cmp_def)
  next
    case 3 then show ?thesis by (simp add: ubx_ts_cmp_def ts_val_def sgn_if)
  qed
qed

lemma ts_normal_unique:
  assumes "ts_normal a" "ts_normal b" "ts_val a = ts_val b"
  shows "a = b"
proof -
  have "\<not> sec a < sec b" "\<not> sec b < sec a"
    using ts_normal_less [OF assms(1,2)] ts_normal_less [OF assms(2,1)] assms(3) by auto
  with assms(3) show ?thesis by (cases a; cases b) (simp add: ts_val_def)
qed

subsection \<open>The order of time stamps\<close>

instantiation ubx_timespec :: linorder
begin

definition less_eq_ubx_timespec :: "ubx_timespec \<Rightarrow> ubx_timespec \<Rightarrow> bool" where
  "a \<le> b \<longleftrightarrow> sec a < sec b \<or> (sec a = sec b \<and> nsec a \<le> nsec b)"

definition less_ubx_timespec :: "ubx_timespec \<Rightarrow> ubx_timespec \<Rightarrow> bool" where
  "a < b \<longleftrightarrow> sec a < sec b \<or> (sec a = sec b \<and> nsec a < nsec b)"

instance
proof
  fix a b c :: ubx_timespec
  show "(a < b) = (a \<le> b \<and> \<not> b \<le> a)"
    by (auto simp: less_eq_ubx_timespec_def less_ubx_timespec_def)
  show "a \<le> a" by (simp add: less_eq_ubx_timespec_def)
  show "a \<le> b \<Longrightarrow> b \<le> c \<Longrightarrow> a \<le> c" by (auto simp: less_eq_ubx_timespec_def)
  show "a \<le> b \<Longrightarrow> b \<le> a \<Longrightarrow> a = b"
    by (cases a; cases b) (auto simp: less_eq_ubx_timespec_def)
  show "a \<le> b \<or> b \<le> a" by (auto simp: less_eq_ubx_timespec_def)
qed

end

lemma ts_cmp_order:
  "(ubx_ts_cmp a b = 1) = (b < a)" "(ubx_ts_cmp a b = -1) = (a < b)"
  by (auto simp: ubx_ts_cmp_def less_ubx_timespec_def)

lemma ts_val_mono: "ts_normal a \<Longrightarrow> ts_normal b \<Longrightarrow> (ts_val a < ts_val b) = (a < b)"
  using ts_cmp_normal [of a b] ts_cmp_order(2) [of a b] by (simp add: sgn_if split: if_splits)

lemma ts_sub_spec:
  assumes "ubx_ts_sub a b = Some c"
  shows "ts_val c = ts_val a - ts_val b \<and> ts_normal c"
  using assms ts_norm_Some
  by (auto simp: ubx_ts_sub_def ts_sign_val ts_carry_val ts_sign_normal ts_carry_bound
      dest!: ts_norm_Some) (simp add: ts_val_def algebra_simps)

lemma ts_add_spec:
  assumes "ubx_ts_add a b = Some c"
  shows "ts_val c = ts_val a + ts_val b \<and> ts_normal c"
  using assms
  by (auto simp: ubx_ts_add_def ts_sign_val ts_carry_val ts_sign_normal ts_carry_bound
      dest!: ts_norm_Some) (simp add: ts_val_def algebra_simps)

subsection \<open>Properties of the time arithmetic\<close>

text \<open>Half the range, so that sums and differences stay small.\<close>

definition ts_half :: "ubx_timespec \<Rightarrow> bool" where
  "ts_half ts \<longleftrightarrow> \<bar>sec ts\<bar> < 2 ^ 61 \<and> \<bar>nsec ts\<bar> < 2 ^ 61"

text \<open>C26: The difference and the sum of two time stamps are defined, exact to the nanosecond and
  in normal form: the nanoseconds are less than a second and do not have the other sign
  than the seconds.\<close>

theorem ts_arith_exact:
  assumes "ts_half a" "ts_half b"
  shows "(\<exists>c. ubx_ts_sub a b = Some c \<and> ts_val c = ts_val a - ts_val b \<and> ts_normal c)
    \<and> (\<exists>c. ubx_ts_add a b = Some c \<and> ts_val c = ts_val a + ts_val b \<and> ts_normal c)"
proof -
  have s: "ts_small (TS (sec a - sec b) (nsec a - nsec b))" "ts_small (TS (sec a + sec b) (nsec a + nsec b))"
    and l: "in_long (sec a - sec b)" "in_long (nsec a - nsec b)" "in_long (sec a + sec b)" "in_long (nsec a + nsec b)"
    using assms unfolding ts_half_def ts_small_def in_long_def by (auto simp: abs_less_iff)
  have "ubx_ts_sub a b \<noteq> None" using l by (simp add: ubx_ts_sub_def lsub_def ts_norm_defined [OF s(1)])
  moreover have "ubx_ts_add a b \<noteq> None" using l by (simp add: ubx_ts_add_def ladd_def ts_norm_defined [OF s(2)])
  ultimately show ?thesis using ts_sub_spec ts_add_spec by blast
qed

theorem ts_arith_exact_witness:
  "\<exists>c. ubx_ts_sub (TS 3 100) (TS 1 900) = Some c \<and> ts_val c = 1999999200"
proof -
  have "ts_half (TS 3 100)" "ts_half (TS 1 900)" by (simp_all add: ts_half_def)
  from ts_arith_exact [OF this] show ?thesis by (auto simp: ts_val_def NSEC_PER_SEC_def)
qed

text \<open>On normal forms the comparison is the sign of the difference of the values, so it
  is a total order.\<close>

lemma ts_cmp_sign:
  assumes "ts_normal a" "ts_normal b"
  shows "ubx_ts_cmp a b = sgn (ts_val a - ts_val b) \<and> (ubx_ts_cmp a b = 0 \<longleftrightarrow> a = b)
    \<and> ubx_ts_cmp b a = - ubx_ts_cmp a b"
  using ts_cmp_normal [OF assms] ts_cmp_normal [OF assms(2,1)] ts_normal_unique [OF assms]
  by (auto simp: sgn_if)

text \<open>The quotient of a time stamp is wrong whenever its seconds do not vanish in it: the
  nanoseconds are computed from the seconds and those of the argument are ignored.\<close>

lemma ts_div_ignores_nsec:
  assumes "d \<noteq> 0" "in_long (sec ts sdiv d)"
  shows "ubx_ts_div ts d = Some (TS (sec ts sdiv d) (sec ts sdiv d))
    \<and> ubx_ts_div (TS (sec ts) n) d = ubx_ts_div ts d"
  using assms by (simp add: ubx_ts_div_def ldiv_def)

end
