(* ===== verification/UbxModel.thy ===== *)
theory UbxModel
  imports Table Md5 UbxTime
begin

text \<open>
  The data of the framework, \<open>src/src/ubx_types.h\<close>, and the state its functions
  work on. Pointers are \<open>addr option\<close> (\<open>None\<close> is NULL); block and type objects live in
  heaps, so that a dangling pointer is one whose address is not (or no longer) there.
  Arrays that end in an entry without a name are lists, \<open>None\<close> where the array
  pointer is NULL. Function pointers are numbers that a table of hooks gives a meaning
  (theory \<open>UbxLife\<close>); \<open>'p\<close> is the type of a block's private data.
\<close>

subsection \<open>Constants\<close>

definition TYPE_CLASS_BASIC :: u32 where "TYPE_CLASS_BASIC = 1"
definition TYPE_CLASS_STRUCT :: u32 where "TYPE_CLASS_STRUCT = 2"
definition TYPE_CLASS_CUSTOM :: u32 where "TYPE_CLASS_CUSTOM = 3"

definition PORT_DIR_IN :: u32 where "PORT_DIR_IN = push_bit 0 1"
definition PORT_DIR_OUT :: u32 where "PORT_DIR_OUT = push_bit 1 1"

text \<open>The header combines the two directions with \<open>&\<close>.\<close>

definition PORT_DIR_INOUT :: u32 where "PORT_DIR_INOUT = PORT_DIR_IN AND PORT_DIR_OUT"

definition EPORT_INVALID :: int where "EPORT_INVALID = -3"
definition EPORT_INVALID_TYPE :: int where "EPORT_INVALID_TYPE = -4"
definition EINVALID_BLOCK_TYPE :: int where "EINVALID_BLOCK_TYPE = -5"
definition ENOSUCHBLOCK :: int where "ENOSUCHBLOCK = -6"
definition EALREADY_REGISTERED :: int where "EALREADY_REGISTERED = -7"
definition EOUTOFMEM :: int where "EOUTOFMEM = -8"
definition EINVALID_CONFIG :: int where "EINVALID_CONFIG = -9"

definition BLOCK_TYPE_COMPUTATION :: u32 where "BLOCK_TYPE_COMPUTATION = 1"
definition BLOCK_TYPE_INTERACTION :: u32 where "BLOCK_TYPE_INTERACTION = 2"

definition BLOCK_STATE_PREINIT :: int where "BLOCK_STATE_PREINIT = 0"
definition BLOCK_STATE_INACTIVE :: int where "BLOCK_STATE_INACTIVE = 1"
definition BLOCK_STATE_ACTIVE :: int where "BLOCK_STATE_ACTIVE = 2"

lemmas state_defs = BLOCK_STATE_PREINIT_def BLOCK_STATE_INACTIVE_def BLOCK_STATE_ACTIVE_def
lemmas btype_defs = BLOCK_TYPE_COMPUTATION_def BLOCK_TYPE_INTERACTION_def
lemmas err_defs = EPORT_INVALID_def EPORT_INVALID_TYPE_def EINVALID_BLOCK_TYPE_def
  ENOSUCHBLOCK_def EALREADY_REGISTERED_def EOUTOFMEM_def EINVALID_CONFIG_def

subsection \<open>Objects\<close>

text \<open>A byte buffer behind a \<open>void *\<close>: NULL, allocated, or given back.\<close>

datatype cbuf = BNull | BLive "u8 list" | BFreed

fun live_bytes :: "cbuf \<Rightarrow> u8 list option" where
  "live_bytes (BLive bs) = Some bs"
| "live_bytes BNull = None"
| "live_bytes BFreed = None"

record ubx_type =
  ty_name :: string
  ty_doc :: "string option"
  ty_class :: u32
  ty_size :: u64
  ty_private :: "addr option"
  ty_hash :: "u8 list"

record ubx_data =
  d_type :: "addr option"
  d_len :: u64
  d_data :: cbuf

record ubx_port =
  p_name :: string
  p_doc :: "string option"
  p_attrs :: u32
  p_state :: u32
  in_type_name :: "string option"
  out_type_name :: "string option"
  in_type :: "addr option"
  out_type :: "addr option"
  in_data_len :: u64
  out_data_len :: u64
  in_interaction :: "addr list option"
  out_interaction :: "addr list option"
  stat_writes :: u64
  stat_reades :: u64
  p_block :: "addr option"

record ubx_config =
  c_name :: string
  c_doc :: "string option"
  c_type_name :: string
  c_attrs :: u32
  c_value :: ubx_data

type_synonym fid = nat

text \<open>The union of the methods is flat: \<open>b_step\<close> is meaningful for computations, the
  other four fields for interactions.\<close>

record 'p ubx_block =
  b_name :: string
  meta_data :: "string option"
  b_type :: u32
  ports :: "ubx_port list option"
  configs :: "ubx_config list option"
  block_state :: int
  prototype :: "string option"
  b_ni :: bool
  b_init :: "fid option"
  b_start :: "fid option"
  b_stop :: "fid option"
  b_cleanup :: "fid option"
  b_step :: "fid option"
  stat_num_steps :: u64
  b_read :: "fid option"
  b_write :: "fid option"
  stat_num_reads :: u64
  stat_num_writes :: u64
  private_data :: "'p option"

record ubx_module =
  m_id :: string
  m_init :: fid
  m_cleanup :: fid
  m_spdx :: "string option"

text \<open>
  The node and the memory of the process. There is one node, so a pointer to it is a
  flag. \<open>mem\<close> is the allocator's plan: whether the next allocations succeed, and
  once it is used up all do. \<open>garbage\<close> are the bytes of memory that is not
  initialised, \<open>host\<close> the byte order of the machine, \<open>clock\<close> the readings the clock
  is going to give, and the last two fields the state of the C library's random
  number generator: its seed and how many numbers were drawn since.
\<close>

record 'p world =
  node_name :: "string option"
  blocks :: "(string \<times> addr) list"
  types :: "(string \<times> (addr \<times> u64)) list"
  modules :: "(string \<times> ubx_module) list"
  cur_seqid :: u64
  heap :: "addr \<Rightarrow> 'p ubx_block option"
  theap :: "addr \<Rightarrow> ubx_type option"
  datas :: "addr \<Rightarrow> ubx_data option"
  next_addr :: addr
  mem :: "bool list"
  garbage :: "nat \<Rightarrow> u8"
  host :: endian
  clock :: "ubx_timespec list"
  rng_seed :: u32
  rng_count :: nat

subsection \<open>The allocator\<close>

definition alloc_ok :: "'p world \<Rightarrow> bool" where
  "alloc_ok w = (case mem w of [] \<Rightarrow> True | b # _ \<Rightarrow> b)"

definition alloc_step :: "'p world \<Rightarrow> 'p world" where
  "alloc_step w = w\<lparr>mem := tl (mem w)\<rparr>"

lemma alloc_step_sel [simp]:
  "node_name (alloc_step w) = node_name w" "blocks (alloc_step w) = blocks w"
  "types (alloc_step w) = types w" "modules (alloc_step w) = modules w"
  "cur_seqid (alloc_step w) = cur_seqid w" "heap (alloc_step w) = heap w"
  "theap (alloc_step w) = theap w" "datas (alloc_step w) = datas w"
  "next_addr (alloc_step w) = next_addr w" "mem (alloc_step w) = tl (mem w)"
  "garbage (alloc_step w) = garbage w" "host (alloc_step w) = host w"
  "clock (alloc_step w) = clock w" "rng_seed (alloc_step w) = rng_seed w"
  "rng_count (alloc_step w) = rng_count w"
  by (simp_all add: alloc_step_def)

lemma alloc_plentiful [simp]: "mem w = [] \<Longrightarrow> alloc_ok w" "mem w = [] \<Longrightarrow> alloc_step w = w"
  by (simp_all add: alloc_ok_def alloc_step_def)

text \<open>\<open>calloc(n, size)\<close> also fails when the product does not fit.\<close>

definition calloc_ok :: "'p world \<Rightarrow> u64 \<Rightarrow> u64 \<Rightarrow> bool" where
  "calloc_ok w n sz \<longleftrightarrow> unat n * unat sz < 2 ^ 64 \<and> alloc_ok w"

definition zeroed :: "u64 \<Rightarrow> u64 \<Rightarrow> u8 list" where
  "zeroed n sz = replicate (unat n * unat sz) 0"

text \<open>\<open>realloc\<close> of a buffer to \<open>n > 0\<close> bytes: the old bytes, then garbage.\<close>

definition realloc_bytes :: "'p world \<Rightarrow> u8 list \<Rightarrow> nat \<Rightarrow> u8 list" where
  "realloc_bytes w old n = take n old @ map (garbage w) [length old..<n]"

lemma length_realloc_bytes [simp]: "length (realloc_bytes w old n) = n"
  by (simp add: realloc_bytes_def min_def)

text \<open>Updating one field of a block object.\<close>

definition upd_block :: "'p world \<Rightarrow> addr \<Rightarrow> ('p ubx_block \<Rightarrow> 'p ubx_block) \<Rightarrow> 'p world" where
  "upd_block w a f = w\<lparr>heap := (heap w)(a := map_option f (heap w a))\<rparr>"

lemma upd_block_sel [simp]:
  "node_name (upd_block w a f) = node_name w" "blocks (upd_block w a f) = blocks w"
  "types (upd_block w a f) = types w" "modules (upd_block w a f) = modules w"
  "cur_seqid (upd_block w a f) = cur_seqid w" "theap (upd_block w a f) = theap w"
  "datas (upd_block w a f) = datas w" "next_addr (upd_block w a f) = next_addr w"
  "mem (upd_block w a f) = mem w" "garbage (upd_block w a f) = garbage w"
  "host (upd_block w a f) = host w" "clock (upd_block w a f) = clock w"
  "rng_seed (upd_block w a f) = rng_seed w" "rng_count (upd_block w a f) = rng_count w"
  by (simp_all add: upd_block_def)

lemma heap_upd_block: "heap (upd_block w a f) b = (if b = a then map_option f (heap w a) else heap w b)"
  by (simp add: upd_block_def)

subsection \<open>A small node\<close>

text \<open>
  The concrete state at which the theorems below are exercised: a node with one type,
  one prototype and one inactive instance of it, which has a config and a port. The
  next allocations succeed or fail as \<open>plan\<close> says.
\<close>

definition ex_type :: ubx_type where
  "ex_type = \<lparr>ty_name = ''double'', ty_doc = None, ty_class = TYPE_CLASS_BASIC, ty_size = 8,
     ty_private = None, ty_hash = []\<rparr>"

definition ex_port :: ubx_port where
  "ex_port = \<lparr>p_name = ''pos'', p_doc = None, p_attrs = PORT_DIR_IN OR PORT_DIR_OUT, p_state = 0,
     in_type_name = Some ''double'', out_type_name = Some ''double'', in_type = Some 0, out_type = Some 0,
     in_data_len = 1, out_data_len = 1, in_interaction = None, out_interaction = None,
     stat_writes = 0, stat_reades = 0, p_block = Some 1\<rparr>"

definition ex_config :: ubx_config where
  "ex_config = \<lparr>c_name = ''gain'', c_doc = None, c_type_name = ''double'', c_attrs = 0,
     c_value = \<lparr>d_type = Some 0, d_len = 1, d_data = BLive [0, 0, 0, 0, 0, 0, 0, 0]\<rparr>\<rparr>"

definition ex_block :: "string \<Rightarrow> string option \<Rightarrow> int \<Rightarrow> nat ubx_block" where
  "ex_block nm proto st = \<lparr>b_name = nm, meta_data = Some ''{}'', b_type = BLOCK_TYPE_COMPUTATION,
     ports = Some [ex_port], configs = Some [ex_config], block_state = st, prototype = proto,
     b_ni = True, b_init = Some 1, b_start = Some 2, b_stop = Some 3, b_cleanup = Some 4,
     b_step = Some 5, stat_num_steps = 0, b_read = None, b_write = None,
     stat_num_reads = 0, stat_num_writes = 0, private_data = None\<rparr>"

definition ex_world :: "bool list \<Rightarrow> nat world" where
  "ex_world plan = \<lparr>node_name = Some ''node'', blocks = [(''pid'', 0), (''pid1'', 1)],
     types = [(''double'', (0, 0))], modules = [], cur_seqid = 1,
     heap = [0 \<mapsto> ex_block ''pid'' None BLOCK_STATE_PREINIT,
             1 \<mapsto> ex_block ''pid1'' (Some ''pid'') BLOCK_STATE_INACTIVE],
     theap = [0 \<mapsto> ex_type], datas = (\<lambda>_. None), next_addr = 2, mem = plan,
     garbage = (\<lambda>_. 0), host = Little,
     clock = [], rng_seed = 1, rng_count = 0\<rparr>"

lemmas ex_defs = ex_type_def ex_port_def ex_config_def ex_block_def ex_world_def

end
