(* ===== verification/UbxData.thy ===== *)
theory UbxData
  imports UbxModel
begin

text \<open>
  The type registry of a node and the typed buffers (\<open>ubx_data_t\<close>) of
  \<open>src/src/ubx.c\<close>. The first part keeps the table of registered types: it stays a
  table of distinct names that agree with the type objects, every type carries the
  MD5 fingerprint of its name, and the sequence numbers follow the order of
  registration. The second part allocates, resizes, copies and measures buffers,
  with the undefined behaviour of every out of bounds \<open>memcpy\<close> as \<open>None\<close>.
\<close>

subsection \<open>The type registry\<close>

definition ubx_type_get :: "'p world \<Rightarrow> string \<Rightarrow> addr option" where
  "ubx_type_get w name = map_option fst (hash_find (types w) name)"

text \<open>The fingerprint of a name; the stack block of \<open>md5\<close> is garbage.\<close>

definition name_bytes :: "string \<Rightarrow> u8 list" where
  "name_bytes s = map of_char s"

definition type_md5 :: "'p world \<Rightarrow> string \<Rightarrow> u8 list" where
  "type_md5 w name = md5 (host w) (map (garbage w) [0..<64]) (name_bytes name)"

definition ubx_type_register :: "'p world \<Rightarrow> addr option \<Rightarrow> (int \<times> 'p world) option" where
  "ubx_type_register w tp =
     (case tp of
        None \<Rightarrow> Some (-1, w)
      | Some t \<Rightarrow> do {
          ty \<leftarrow> theap w t;
          (case hash_find (types w) (ty_name ty) of
             Some _ \<Rightarrow> Some (-1, w)
           | None \<Rightarrow>
               if \<not> alloc_ok w then Some (-1, alloc_step w)
               else let w = alloc_step w;
                        seqid = cur_seqid w;
                        w = w\<lparr>cur_seqid := seqid + 1\<rparr>;
                        w = w\<lparr>theap := (theap w)(t \<mapsto> ty\<lparr>ty_hash := type_md5 w (ty_name ty)\<rparr>)\<rparr>
                    in Some (0, w\<lparr>types := hash_add (types w) (ty_name ty) (t, seqid)\<rparr>)) })"

definition ubx_type_unregister :: "'p world \<Rightarrow> string \<Rightarrow> addr option \<times> 'p world" where
  "ubx_type_unregister w name =
     (case hash_find (types w) name of
        None \<Rightarrow> (None, w)
      | Some (t, _) \<Rightarrow> (Some t, w\<lparr>types := hash_del (types w) name\<rparr>))"

definition ubx_num_types :: "'p world \<Rightarrow> nat" where "ubx_num_types w = hash_count (types w)"
definition ubx_num_blocks :: "'p world \<Rightarrow> nat" where "ubx_num_blocks w = hash_count (blocks w)"
definition ubx_num_modules :: "'p world \<Rightarrow> nat" where "ubx_num_modules w = hash_count (modules w)"

subsection \<open>Typed buffers\<close>

definition get_typename :: "'p world \<Rightarrow> ubx_data option \<Rightarrow> (string option) option" where
  "get_typename w data =
     (case data of
        None \<Rightarrow> Some None
      | Some d \<Rightarrow> (case d_type d of
            None \<Rightarrow> Some None
          | Some t \<Rightarrow> do { ty \<leftarrow> theap w t; Some (Some (ty_name ty)) }))"

text \<open>The size is computed in \<open>unsigned long\<close> and returned as \<open>unsigned int\<close>.\<close>

definition data_size :: "'p world \<Rightarrow> ubx_data option \<Rightarrow> u32 option" where
  "data_size w d =
     (case d of
        None \<Rightarrow> Some 0
      | Some d \<Rightarrow> (case d_type d of
            None \<Rightarrow> Some 0
          | Some t \<Rightarrow> do { ty \<leftarrow> theap w t; Some (ucast (d_len d * ty_size ty)) }))"

text \<open>
  \<open>__ubx_data_alloc\<close>: when the buffer cannot be allocated the header is freed, and the
  pointer to it is returned nevertheless.
\<close>

definition ubx_data_alloc_typ ::
    "'p world \<Rightarrow> addr option \<Rightarrow> u64 \<Rightarrow> (addr option \<times> 'p world) option" where
  "ubx_data_alloc_typ w typ array_len =
     (case typ of
        None \<Rightarrow> Some (None, w)
      | Some t \<Rightarrow>
          if array_len = 0 then Some (None, w)
          else if \<not> alloc_ok w then Some (None, alloc_step w)
          else do {
            let w = alloc_step w;
            let d = next_addr w;
            let w = w\<lparr>next_addr := Suc d\<rparr>;
            ty \<leftarrow> theap w t;
            if calloc_ok w array_len (ty_size ty)
            then Some (Some d, (alloc_step w)\<lparr>datas := (datas w)(d \<mapsto>
                   \<lparr>d_type = Some t, d_len = array_len, d_data = BLive (zeroed array_len (ty_size ty))\<rparr>)\<rparr>)
            else Some (Some d, alloc_step w) })"

definition ubx_data_alloc ::
    "'p world \<Rightarrow> bool \<Rightarrow> string \<Rightarrow> u64 \<Rightarrow> (addr option \<times> 'p world) option" where
  "ubx_data_alloc w ni typname array_len =
     (if \<not> ni then Some (None, w)
      else case ubx_type_get w typname of
        None \<Rightarrow> Some (None, w)
      | Some t \<Rightarrow> ubx_data_alloc_typ w (Some t) array_len)"

text \<open>The new byte size is truncated to \<open>unsigned int\<close>. As in the GNU C library,
  \<open>realloc\<close> to zero bytes of a live buffer frees it and returns NULL.\<close>

definition ubx_data_resize :: "'p world \<Rightarrow> ubx_data \<Rightarrow> u32 \<Rightarrow> (int \<times> ubx_data \<times> 'p world) option" where
  "ubx_data_resize w d newlen = do {
     t \<leftarrow> d_type d;
     ty \<leftarrow> theap w t;
     let newsz = (ucast (ucast newlen * ty_size ty) :: u32);
     old \<leftarrow> (case d_data d of BNull \<Rightarrow> Some [] | BLive bs \<Rightarrow> Some bs | BFreed \<Rightarrow> None);
     if newsz = 0 \<and> d_data d \<noteq> BNull then Some (-1, d\<lparr>d_data := BFreed\<rparr>, w)
     else if \<not> alloc_ok w then Some (-1, d, alloc_step w)
     else Some (0, d\<lparr>d_data := BLive (realloc_bytes w old (unat newsz)), d_len := ucast newlen\<rparr>,
                alloc_step w) }"

definition ubx_data_free :: "'p world \<Rightarrow> addr \<Rightarrow> 'p world option" where
  "ubx_data_free w d = do {
     dat \<leftarrow> datas w d;
     guard (d_data dat \<noteq> BFreed);
     Some (w\<lparr>datas := (datas w)(d := None)\<rparr>) }"

text \<open>\<open>memcpy\<close>: both buffers must hold the bytes.\<close>

definition c_memcpy :: "cbuf \<Rightarrow> cbuf \<Rightarrow> nat \<Rightarrow> cbuf option" where
  "c_memcpy dst src n = do {
     ds \<leftarrow> live_bytes dst;
     ss \<leftarrow> live_bytes src;
     guard (n \<le> length ds \<and> n \<le> length ss);
     Some (BLive (take n ss @ drop n ds)) }"

definition data_copy :: "'p world \<Rightarrow> ubx_data \<Rightarrow> cbuf \<Rightarrow> u64 \<Rightarrow> (int \<times> ubx_data) option" where
  "data_copy w dest src sz = do {
     dest_len \<leftarrow> data_size w (Some dest);
     if ucast dest_len < sz then Some (0, dest)
     else do {
       t \<leftarrow> d_type dest;
       ty \<leftarrow> theap w t;
       guard (ty_size ty \<noteq> 0);
       if sz mod ty_size ty \<noteq> 0 then Some (0, dest)
       else do {
         b \<leftarrow> c_memcpy (d_data dest) src (unat sz);
         Some (sint (ucast (sz div ty_size ty) :: 32 word), dest\<lparr>d_data := b\<rparr>) } } }"

text \<open>The third test compares the target's length with itself, as the code does.\<close>

definition ubx_data_assign :: "'p world \<Rightarrow> ubx_data \<Rightarrow> ubx_data \<Rightarrow> (int \<times> ubx_data) option" where
  "ubx_data_assign w tgt src =
     (if d_type src \<noteq> d_type tgt then Some (-1, tgt)
      else do {
        t \<leftarrow> d_type src;
        ty \<leftarrow> theap w t;
        if ty_class ty \<noteq> TYPE_CLASS_BASIC \<and> ty_class ty \<noteq> TYPE_CLASS_STRUCT then Some (-1, tgt)
        else if d_len tgt \<noteq> d_len tgt then Some (-1, tgt)
        else do {
          n \<leftarrow> data_size w (Some tgt);
          b \<leftarrow> c_memcpy (d_data tgt) (d_data src) (unat n);
          Some (0, tgt\<lparr>d_data := b\<rparr>) } })"


subsection \<open>The registry stays consistent\<close>

definition type_entry_ok :: "'p world \<Rightarrow> string \<Rightarrow> addr \<Rightarrow> bool" where
  "type_entry_ok w n t \<longleftrightarrow>
     (case theap w t of
        None \<Rightarrow> False
      | Some ty \<Rightarrow> ty_name ty = n \<and> ty_hash ty = md5_spec (name_bytes n))"

definition wf_types :: "'p world \<Rightarrow> bool" where
  "wf_types w \<longleftrightarrow>
     hash_ok (types w)
     \<and> (\<forall>(n, t, s) \<in> set (types w). type_entry_ok w n t \<and> s < cur_seqid w)
     \<and> sorted_wrt (<) (map (snd \<circ> snd) (types w))"

lemma type_md5_spec: "length name < 2 ^ 31 \<Longrightarrow> type_md5 w name = md5_spec (name_bytes name)"
proof -
  assume l: "length name < 2 ^ 31"
  have "md5_abs (MD5Update (host w) (MD5Init (map (garbage w) [0..<64])) (name_bytes name)) ([] @ name_bytes name)"
    using l by (intro md5_abs_update md5_abs_init) (simp_all add: name_bytes_def)
  from MD5Final_spec [OF this] show ?thesis by (simp add: type_md5_def md5_def)
qed

text \<open>What \<open>ubx_type_register\<close> does, by cases of its result.\<close>

lemma type_register_cases:
  assumes "ubx_type_register w tp = Some (r, w')"
  obtains (fail) "r = -1" "w' = w \<or> w' = alloc_step w"
  | (added) t ty where "tp = Some t" "r = 0" "theap w t = Some ty" "alloc_ok w"
      "hash_find (types w) (ty_name ty) = None"
      "types w' = hash_add (types w) (ty_name ty) (t, cur_seqid w)"
      "cur_seqid w' = cur_seqid w + 1"
      "theap w' = (theap w)(t \<mapsto> ty\<lparr>ty_hash := type_md5 w (ty_name ty)\<rparr>)"
proof (cases tp)
  case None
  with assms show ?thesis by (intro fail) (auto simp: ubx_type_register_def)
next
  case (Some t)
  with assms obtain ty where ty: "theap w t = Some ty"
    by (auto simp: ubx_type_register_def)
  show ?thesis
  proof (cases "hash_find (types w) (ty_name ty) = None \<and> alloc_ok w")
    case True
    with assms Some ty show ?thesis
      by (intro added [of t ty]) (auto simp: ubx_type_register_def Let_def type_md5_def)
  next
    case False
    with assms Some ty show ?thesis
      by (intro fail) (auto simp: ubx_type_register_def Let_def split: option.splits)
  qed
qed

lemma wf_types_register:
  assumes "wf_types w" "ubx_type_register w tp = Some (r, w')"
    and len: "\<And>t ty. tp = Some t \<Longrightarrow> theap w t = Some ty \<Longrightarrow> length (ty_name ty) < 2 ^ 31"
    and seq: "cur_seqid w + 1 \<noteq> 0"
  shows "wf_types w'"
  using assms(2)
proof (cases rule: type_register_cases)
  case fail
  then show ?thesis using assms(1) by (auto simp: wf_types_def type_entry_ok_def)
next
  case (added t ty)
  have lt: "s < cur_seqid w + 1" if "s \<le> cur_seqid w" for s
    using that seq unatSuc [of "cur_seqid w"] by (simp add: word_less_nat_alt word_le_nat_alt add.commute)
  have "type_entry_ok w' n t'" if "(n, t', s) \<in> set (types w)" for n t' s
    using that assms(1) added(3,5,8) unfolding wf_types_def type_entry_ok_def
    by (fastforce simp: hash_find_None image_iff split: option.splits)
  moreover have "type_entry_ok w' (ty_name ty) t"
    using len [OF added(1,3)] by (simp add: type_entry_ok_def added(8) type_md5_spec)
  moreover have "hash_ok (types w')"
    using assms(1) added(5,6) by (auto simp: wf_types_def intro: ht.ok_add)
  ultimately show ?thesis using assms(1) lt unfolding wf_types_def
    by (auto simp: added(6,7) hash_add_def sorted_wrt_append less_imp_le)
qed

lemma wf_types_unregister:
  assumes "wf_types w"
  shows "wf_types (snd (ubx_type_unregister w name))"
proof -
  have "sorted_wrt (<) (map (snd \<circ> snd) (hash_del (types w) name))"
    using assms unfolding wf_types_def hash_del_def sorted_wrt_map
    by (auto intro: sorted_wrt_filter)
  then show ?thesis using assms
    by (auto simp: ubx_type_unregister_def wf_types_def ht.ok_del type_entry_ok_def split: option.splits)
qed

lemma type_get_entry:
  "wf_types w \<Longrightarrow> ubx_type_get w n = Some t \<Longrightarrow> type_entry_ok w n t"
  by (fastforce simp: ubx_type_get_def wf_types_def dest: hash_find_in)

lemma type_get_register:
  assumes "wf_types w" "ubx_type_register w (Some t) = Some (0, w')" "theap w t = Some ty"
  shows "ubx_type_get w' n = (if n = ty_name ty then Some t else ubx_type_get w n)"
  using assms(2)
proof (cases rule: type_register_cases)
  case (added t' ty')
  with assms(1,3) show ?thesis
    by (auto simp: ubx_type_get_def wf_types_def ht.find_add)
qed simp

subsection \<open>Buffers hold what their header says\<close>

definition wf_data :: "'p world \<Rightarrow> ubx_data \<Rightarrow> bool" where
  "wf_data w d \<longleftrightarrow>
     (case d_type d of None \<Rightarrow> False | Some t \<Rightarrow>
       (case theap w t of None \<Rightarrow> False | Some ty \<Rightarrow>
          ty_size ty \<noteq> 0 \<and> unat (d_len d) * unat (ty_size ty) < 2 ^ 32
          \<and> (\<exists>bs. d_data d = BLive bs \<and> length bs = unat (d_len d) * unat (ty_size ty))))"

lemma wf_dataE:
  assumes "wf_data w d"
  obtains t ty bs where "d_type d = Some t" "theap w t = Some ty" "ty_size ty \<noteq> 0"
    "unat (d_len d) * unat (ty_size ty) < 2 ^ 32" "d_data d = BLive bs"
    "length bs = unat (d_len d) * unat (ty_size ty)"
  using assms by (auto simp: wf_data_def split: option.splits)

lemma ucast_prod32:
  fixes a b :: u64
  assumes "unat a * unat b < 2 ^ 32"
  shows "unat (ucast (a * b) :: u32) = unat a * unat b" "unat (a * b) = unat a * unat b"
proof -
  have "unat a * unat b < 2 ^ 64" using assms by simp
  then show *: "unat (a * b) = unat a * unat b" by (simp add: unat_word_ariths)
  show "unat (ucast (a * b) :: u32) = unat a * unat b"
    using assms by (simp add: unsigned_ucast_eq * take_bit_eq_mod)
qed

lemma data_size_wf:
  assumes "wf_data w d" "d_data d = BLive bs"
  shows "\<exists>n. data_size w (Some d) = Some n \<and> unat n = length bs"
  using assms(1)
proof (rule wf_dataE)
  fix t ty bs'
  assume *: "d_type d = Some t" "theap w t = Some ty" "unat (d_len d) * unat (ty_size ty) < 2 ^ 32"
    "d_data d = BLive bs'" "length bs' = unat (d_len d) * unat (ty_size ty)"
  show ?thesis using * assms(2) by (simp add: data_size_def ucast_prod32)
qed

lemma data_alloc_typ_wf:
  assumes "ubx_data_alloc_typ w typ n = Some (Some d, w')" "datas w' d = Some dat" "datas w d = None"
    "d = next_addr w" "typ = Some t" "theap w t = Some ty" "ty_size ty \<noteq> 0"
    "unat n * unat (ty_size ty) < 2 ^ 32"
  shows "wf_data w' dat \<and> d_type dat = Some t \<and> d_len dat = n
    \<and> d_data dat = BLive (replicate (unat n * unat (ty_size ty)) 0)"
  using assms
  by (auto simp: ubx_data_alloc_typ_def Let_def wf_data_def zeroed_def split: if_splits)

text \<open>A live pointer comes back exactly when both allocations succeed.\<close>

lemma data_alloc_typ_result:
  assumes "theap w t = Some ty" "n \<noteq> 0"
  shows "ubx_data_alloc_typ w (Some t) n =
    (if \<not> alloc_ok w then Some (None, alloc_step w)
     else let w1 = (alloc_step w)\<lparr>next_addr := Suc (next_addr w)\<rparr> in
       if calloc_ok w1 n (ty_size ty)
       then Some (Some (next_addr w), (alloc_step w1)\<lparr>datas := (datas w)(next_addr w \<mapsto>
              \<lparr>d_type = Some t, d_len = n, d_data = BLive (zeroed n (ty_size ty))\<rparr>)\<rparr>)
       else Some (Some (next_addr w), alloc_step w1))"
  using assms by (simp add: ubx_data_alloc_typ_def Let_def)

lemma memcpy_whole:
  "length a = n \<Longrightarrow> length b = n \<Longrightarrow> c_memcpy (BLive a) (BLive b) n = Some (BLive b)"
  by (simp add: c_memcpy_def)

lemma data_assign_copies:
  assumes "wf_data w tgt" "wf_data w src" "d_type src = d_type tgt" "d_len src = d_len tgt"
    "d_type src = Some t" "theap w t = Some ty" "ty_class ty \<in> {TYPE_CLASS_BASIC, TYPE_CLASS_STRUCT}"
  shows "ubx_data_assign w tgt src = Some (0, tgt\<lparr>d_data := d_data src\<rparr>)"
proof -
  have dt: "d_type tgt = Some t" using assms(3,5) by simp
  obtain a where a: "d_data tgt = BLive a" "length a = unat (d_len tgt) * unat (ty_size ty)"
    using assms by (auto elim!: wf_dataE)
  obtain b where b: "d_data src = BLive b" "length b = unat (d_len tgt) * unat (ty_size ty)"
    using assms by (auto elim!: wf_dataE)
  obtain n where n: "data_size w (Some tgt) = Some n" "unat n = length a"
    using data_size_wf [OF assms(1) a(1)] by blast
  have "c_memcpy (d_data tgt) (d_data src) (unat n) = Some (d_data src)"
    unfolding a(1) b(1) n(2) by (rule memcpy_whole) (simp_all add: a(2) b(2))
  with n assms(3,5-7) dt show ?thesis by (auto simp: ubx_data_assign_def)
qed

lemma data_assign_longer:
  assumes "wf_data w tgt" "wf_data w src" "d_type src = d_type tgt" "d_len src < d_len tgt"
    "d_type src = Some t" "theap w t = Some ty" "ty_class ty \<in> {TYPE_CLASS_BASIC, TYPE_CLASS_STRUCT}"
  shows "ubx_data_assign w tgt src = None"
proof -
  have dt: "d_type tgt = Some t" using assms(3,5) by simp
  obtain a where a: "d_data tgt = BLive a" "length a = unat (d_len tgt) * unat (ty_size ty)" "ty_size ty \<noteq> 0"
    using assms by (auto elim!: wf_dataE)
  obtain b where b: "d_data src = BLive b" "length b = unat (d_len src) * unat (ty_size ty)"
    using assms by (auto elim!: wf_dataE)
  obtain n where n: "data_size w (Some tgt) = Some n" "unat n = length a"
    using data_size_wf [OF assms(1) a(1)] by blast
  have "unat (d_len src) < unat (d_len tgt)" "0 < unat (ty_size ty)"
    using assms(4) a(3) by (simp_all add: word_less_nat_alt unat_gt_0)
  then have "length b < length a" by (simp add: a(2) b(2))
  with n a b assms(3,5-7) dt show ?thesis
    by (auto simp: ubx_data_assign_def c_memcpy_def guard_def)
qed

subsection \<open>Properties of the registry and of typed buffers\<close>

text \<open>C24: Registering a type keeps the registry consistent (names are unique and agree with the
  objects, every type carries the MD5 digest of its name, sequence numbers follow the
  order of registration), and when it reports success the type, and no other, has
  become visible under its name.\<close>

theorem type_register_ok:
  assumes "wf_types w" "ubx_type_register w (Some t) = Some (r, w')"
    and "theap w t = Some ty" "length (ty_name ty) < 2 ^ 31" "cur_seqid w + 1 \<noteq> 0"
  shows "wf_types w'
    \<and> (r = 0 \<longrightarrow> (\<forall>n. ubx_type_get w' n = (if n = ty_name ty then Some t else ubx_type_get w n))
         \<and> map_option ty_hash (theap w' t) = Some (md5_spec (name_bytes (ty_name ty)))
         \<and> ubx_num_types w' = Suc (ubx_num_types w))
    \<and> (r \<noteq> 0 \<longrightarrow> types w' = types w \<and> theap w' = theap w)"
proof -
  have wf: "wf_types w'" using assms by (intro wf_types_register [OF assms(1,2)]) auto
  show ?thesis
    using assms(2)
  proof (cases rule: type_register_cases)
    case fail
    with wf show ?thesis by auto
  next
    case (added t' ty')
    have eq: "t' = t" "ty' = ty" using added(1,3) assms(3) by simp_all
    have ok: "hash_ok (types w)" using assms(1) by (simp add: wf_types_def)
    have "\<forall>n. ubx_type_get w' n = (if n = ty_name ty then Some t else ubx_type_get w n)"
      using type_get_register [OF assms(1) _ assms(3), of w'] assms(2) added(2) by simp
    moreover have "ubx_num_types w' = Suc (ubx_num_types w)"
      using ht.cnt_add [OF ok added(5)] by (simp add: ubx_num_types_def added(6))
    ultimately show ?thesis using wf added(2,8) assms(4) by (simp add: eq type_md5_spec)
  qed
qed

definition ex_new_type :: ubx_type where
  "ex_new_type = ex_type\<lparr>ty_name := ''vec''\<rparr>"

text \<open>A registry without types yet.\<close>

definition ex_types_world :: "nat world" where
  "ex_types_world = (ex_world [])\<lparr>types := [], theap := [5 \<mapsto> ex_new_type]\<rparr>"

theorem type_register_ok_witness:
  "\<exists>w'. ubx_type_register ex_types_world (Some 5) = Some (0, w') \<and> ubx_type_get w' ''vec'' = Some 5"
proof -
  have "\<exists>w'. ubx_type_register ex_types_world (Some 5) = Some (0, w')"
    by (simp add: ubx_type_register_def ex_types_world_def ex_new_type_def ex_world_def hash_find_def
        Let_def alloc_ok_def)
  then obtain w' where w': "ubx_type_register ex_types_world (Some 5) = Some (0, w')" by blast
  have "wf_types ex_types_world" "theap ex_types_world 5 = Some ex_new_type"
    "length (ty_name ex_new_type) < 2 ^ 31" "cur_seqid ex_types_world + 1 \<noteq> 0"
    by (simp_all add: wf_types_def ex_types_world_def ex_new_type_def ex_defs hash_ok_def)
  from type_register_ok [OF this(1) w' this(2-4)] w' show ?thesis
    by (auto simp: ex_new_type_def)
qed

text \<open>Assigning a buffer to one of the same type and length copies it; when the target is
  longer than the source, the copy reads past the end of the source, although the code
  means to reject a difference in length.\<close>

lemma data_assign_lengths:
  assumes "wf_data w tgt" "wf_data w src" "d_type src = d_type tgt"
    "d_type src = Some t" "theap w t = Some ty" "ty_class ty \<in> {TYPE_CLASS_BASIC, TYPE_CLASS_STRUCT}"
  shows "(d_len src = d_len tgt \<longrightarrow> ubx_data_assign w tgt src = Some (0, tgt\<lparr>d_data := d_data src\<rparr>))
    \<and> (d_len src < d_len tgt \<longrightarrow> ubx_data_assign w tgt src = None)"
  using data_assign_copies [OF assms(1-3) _ assms(4-6)] data_assign_longer [OF assms(1-3) _ assms(4-6)]
  by simp

text \<open>Allocating a buffer: with both allocations granted the new object is typed, has the
  requested length and is zeroed; when only the second fails, the address of the header
  that was just freed is returned.\<close>

lemma data_alloc_result:
  assumes "theap w t = Some ty" "n \<noteq> 0" "ty_size ty \<noteq> 0" "unat n * unat (ty_size ty) < 2 ^ 32" "alloc_ok w"
    "datas w (next_addr w) = None"
  shows "\<exists>w'. ubx_data_alloc_typ w (Some t) n = Some (Some (next_addr w), w')
    \<and> (if alloc_ok (alloc_step w)
       then \<exists>d. datas w' (next_addr w) = Some d \<and> wf_data w' d \<and> d_type d = Some t \<and> d_len d = n
              \<and> d_data d = BLive (replicate (unat n * unat (ty_size ty)) 0)
       else datas w' (next_addr w) = None)"
proof -
  have fits: "unat n * unat (ty_size ty) < 2 ^ 64" using assms(4) by simp
  show ?thesis
    using assms fits by (auto simp: data_alloc_typ_result Let_def calloc_ok_def alloc_ok_def wf_data_def zeroed_def)
qed

end
