(* ===== verification/UbxBlock.thy ===== *)
theory UbxBlock
  imports UbxData
begin

text \<open>
  Blocks (\<open>src/src/ubx.c\<close>): registering a block with the node, cloning a prototype with its
  ports and configs, resolving their types, creating and removing instances. Allocation failures follow the code's \<open>goto\<close>s; what the
  code dereferences without a check is undefined (\<open>None\<close>) when it is NULL or freed.
\<close>

subsection \<open>Error exits\<close>

text \<open>\<open>or_out m k\<close> continues with \<open>k\<close> unless \<open>m\<close> took the error exit (inner \<open>None\<close>).\<close>

definition or_out ::
    "('a option \<times> 'w) option \<Rightarrow> ('a \<Rightarrow> 'w \<Rightarrow> ('b option \<times> 'w) option) \<Rightarrow> ('b option \<times> 'w) option" where
  "or_out m k = do { (r, w) \<leftarrow> m; case r of None \<Rightarrow> Some (None, w) | Some x \<Rightarrow> k x w }"

lemma or_out_simps [simp]:
  "or_out (Some (None, w)) k = Some (None, w)" "or_out (Some (Some x, w)) k = k x w"
  "or_out None k = None"
  by (simp_all add: or_out_def)

text \<open>Copies of strings: an absent string needs no allocation.\<close>

definition c_strdup :: "'p world \<Rightarrow> string option \<Rightarrow> (string option option \<times> 'p world) option" where
  "c_strdup w s =
     (case s of None \<Rightarrow> Some (Some None, w)
      | Some x \<Rightarrow> if alloc_ok w then Some (Some (Some x), alloc_step w) else Some (None, alloc_step w))"

definition c_malloc :: "'p world \<Rightarrow> (unit option \<times> 'p world) option" where
  "c_malloc w = Some (if alloc_ok w then Some () else None, alloc_step w)"

text \<open>The name of a type behind a pointer that may be NULL.\<close>

definition typ_name :: "'p world \<Rightarrow> addr option \<Rightarrow> string option option" where
  "typ_name w t = (case t of None \<Rightarrow> Some None | Some a \<Rightarrow> map_option (\<lambda>ty. Some (ty_name ty)) (theap w a))"

subsection \<open>Cloning ports and configs\<close>

text \<open>
  The target slot after the call is \<open>Some p\<close>, or \<open>None\<close> when it is left without a name
  and so ends the array. The slot is cleared first: the \<open>block\<close> pointer is NULL.
\<close>

definition ubx_clone_port_data ::
    "'p world \<Rightarrow> string option \<Rightarrow> string option \<Rightarrow> addr option \<Rightarrow> u64 \<Rightarrow> addr option \<Rightarrow> u64 \<Rightarrow> u32
     \<Rightarrow> (int \<times> ubx_port option \<times> 'p world) option" where
  "ubx_clone_port_data w name doc ity ilen oty olen st =
     (case name of
        None \<Rightarrow> Some (EOUTOFMEM, None, w)
      | Some nm \<Rightarrow> do {
          (r, w) \<leftarrow>
            or_out (c_malloc w) (\<lambda>_ w.
            or_out (c_strdup w doc) (\<lambda>doc w. do {
              iname \<leftarrow> typ_name w ity;
              or_out (c_strdup w iname) (\<lambda>iname w. do {
                oname \<leftarrow> typ_name w oty;
                or_out (c_strdup w oname) (\<lambda>oname w. Some (Some
                  \<lparr>p_name = nm, p_doc = doc,
                   p_attrs = (if ity \<noteq> None then PORT_DIR_IN else 0) OR (if oty \<noteq> None then PORT_DIR_OUT else 0),
                   p_state = st, in_type_name = iname, out_type_name = oname,
                   in_type = ity, out_type = oty,
                   in_data_len = (if ilen = 0 then 1 else ilen),
                   out_data_len = (if olen = 0 then 1 else olen),
                   in_interaction = None, out_interaction = None,
                   stat_writes = 0, stat_reades = 0, p_block = None\<rparr>, w)) }) }));
          Some (case r of None \<Rightarrow> (EOUTOFMEM, None, w) | Some p \<Rightarrow> (0, Some p, w)) })"

text \<open>The buffer of the new value is allocated without a check.\<close>

definition ubx_clone_config_data ::
    "'p world \<Rightarrow> string \<Rightarrow> string option \<Rightarrow> addr option \<Rightarrow> u64 \<Rightarrow> (int \<times> ubx_config option \<times> 'p world) option" where
  "ubx_clone_config_data w name doc typ len = do {
     (r, w) \<leftarrow>
       or_out (c_malloc w) (\<lambda>_ w.
       or_out (c_strdup w doc) (\<lambda>doc w. do {
         t \<leftarrow> typ;
         ty \<leftarrow> theap w t;
         or_out (c_malloc w) (\<lambda>_ w.
           let len = (if len = 0 then 1 else len);
               buf = (if calloc_ok w len (ty_size ty) then BLive (zeroed len (ty_size ty)) else BNull)
           in Some (Some \<lparr>c_name = name, c_doc = doc, c_type_name = ty_name ty, c_attrs = 0,
                          c_value = \<lparr>d_type = Some t, d_len = len, d_data = buf\<rparr>\<rparr>, alloc_step w)) }));
     Some (case r of None \<Rightarrow> (-1, None, w) | Some c \<Rightarrow> (0, Some c, w)) }"

fun slot_list :: "'e option \<Rightarrow> 'e list" where
  "slot_list None = []"
| "slot_list (Some x) = [x]"

fun clone_configs :: "'p world \<Rightarrow> ubx_config list \<Rightarrow> (ubx_config list option \<times> 'p world) option" where
  "clone_configs w [] = Some (Some [], w)"
| "clone_configs w (c # cs) = do {
     (r, slot, w) \<leftarrow> ubx_clone_config_data w (c_name c) (c_doc c) (d_type (c_value c)) (d_len (c_value c));
     if r \<noteq> 0 then Some (None, w)
     else or_out (clone_configs w cs) (\<lambda>cs w. Some (Some (slot_list slot @ cs), w)) }"

fun clone_ports :: "'p world \<Rightarrow> addr \<Rightarrow> ubx_port list \<Rightarrow> (ubx_port list option \<times> 'p world) option" where
  "clone_ports w newb [] = Some (Some [], w)"
| "clone_ports w newb (p # ps) = do {
     (r, slot, w) \<leftarrow> ubx_clone_port_data w (Some (p_name p)) (p_doc p) (in_type p) (in_data_len p)
                     (out_type p) (out_data_len p) (p_state p);
     if r \<noteq> 0 then Some (None, w)
     else or_out (clone_ports w newb ps)
            (\<lambda>ps w. Some (Some (map (\<lambda>q. q\<lparr>p_block := Some newb\<rparr>) (slot_list slot) @ ps), w)) }"

text \<open>An array that is NULL stays NULL; otherwise it is allocated and filled.\<close>

definition clone_array ::
    "'p world \<Rightarrow> 'e list option \<Rightarrow> ('p world \<Rightarrow> 'e list \<Rightarrow> ('e list option \<times> 'p world) option)
     \<Rightarrow> ('e list option option \<times> 'p world) option" where
  "clone_array w arr f =
     (case arr of
        None \<Rightarrow> Some (Some None, w)
      | Some xs \<Rightarrow> or_out (c_malloc w) (\<lambda>_ w. or_out (f w xs) (\<lambda>ys w. Some (Some (Some ys), w))))"

subsection \<open>Resolving types\<close>

text \<open>Both return whether all names resolved; on failure the entries before the
  failing one have been updated.\<close>

definition resolve_port :: "'p world \<Rightarrow> ubx_port \<Rightarrow> bool \<times> ubx_port" where
  "resolve_port w p =
     (let (ok, p) = (case in_type_name p of
            None \<Rightarrow> (True, p)
          | Some n \<Rightarrow> (case ubx_type_get w n of
                None \<Rightarrow> (False, p)
              | Some t \<Rightarrow> (True, p\<lparr>in_type := Some t\<rparr>)))
      in if \<not> ok then (False, p)
         else case out_type_name p of
            None \<Rightarrow> (True, p)
          | Some n \<Rightarrow> (case ubx_type_get w n of
                None \<Rightarrow> (False, p)
              | Some t \<Rightarrow> (True, p\<lparr>out_type := Some t\<rparr>)))"

definition resolve_config :: "'p world \<Rightarrow> ubx_config \<Rightarrow> bool \<times> ubx_config" where
  "resolve_config w c =
     (case ubx_type_get w (c_type_name c) of
        None \<Rightarrow> (False, c)
      | Some t \<Rightarrow> (True, c\<lparr>c_value := (c_value c)\<lparr>d_type := Some t\<rparr>\<rparr>))"

fun resolve_all :: "('e \<Rightarrow> bool \<times> 'e) \<Rightarrow> 'e list \<Rightarrow> bool \<times> 'e list" where
  "resolve_all f [] = (True, [])"
| "resolve_all f (x # xs) =
     (case f x of
        (False, y) \<Rightarrow> (False, y # xs)
      | (True, y) \<Rightarrow> (case resolve_all f xs of (ok, ys) \<Rightarrow> (ok, y # ys)))"

definition resolve_array :: "('e \<Rightarrow> bool \<times> 'e) \<Rightarrow> 'e list option \<Rightarrow> bool \<times> 'e list option" where
  "resolve_array f arr = (case arr of None \<Rightarrow> (True, None)
     | Some xs \<Rightarrow> (case resolve_all f xs of (ok, ys) \<Rightarrow> (ok, Some ys)))"

definition ubx_resolve_types :: "'p world \<Rightarrow> 'p ubx_block \<Rightarrow> int \<times> 'p ubx_block" where
  "ubx_resolve_types w b =
     (let (ok, ps) = resolve_array (resolve_port w) (ports b); b = b\<lparr>ports := ps\<rparr>
      in if \<not> ok then (-1, b)
         else let (ok, cs) = resolve_array (resolve_config w) (configs b); b = b\<lparr>configs := cs\<rparr>
              in if \<not> ok then (-1, b) else (0, b))"

subsection \<open>Blocks of the node\<close>

definition ubx_block_get :: "'p world \<Rightarrow> string \<Rightarrow> addr option" where
  "ubx_block_get w name = hash_find (blocks w) name"

definition ubx_block_register :: "'p world \<Rightarrow> addr \<Rightarrow> (int \<times> 'p world) option" where
  "ubx_block_register w b = do {
     blk \<leftarrow> heap w b;
     if prototype blk \<noteq> None \<and> b_ni blk then Some (-1, w)
     else if b_type blk \<noteq> BLOCK_TYPE_COMPUTATION \<and> b_type blk \<noteq> BLOCK_TYPE_INTERACTION then Some (-1, w)
     else case hash_find (blocks w) (b_name blk) of
        Some _ \<Rightarrow> Some (-1, w)
      | None \<Rightarrow>
          let (ret, blk) = ubx_resolve_types w (blk\<lparr>b_ni := True\<rparr>);
              w = w\<lparr>heap := (heap w)(b \<mapsto> blk)\<rparr>
          in if ret \<noteq> 0 then Some (ret, w)
             else Some (0, w\<lparr>blocks := hash_add (blocks w) (b_name blk) b\<rparr>) }"

definition ubx_block_unregister :: "'p world \<Rightarrow> string \<Rightarrow> addr option \<times> 'p world" where
  "ubx_block_unregister w name =
     (case hash_find (blocks w) name of
        None \<Rightarrow> (None, w)
      | Some b \<Rightarrow> (Some b, w\<lparr>blocks := hash_del (blocks w) name\<rparr>))"

definition ubx_block_free :: "'p world \<Rightarrow> addr option \<Rightarrow> 'p world option" where
  "ubx_block_free w b = do {
     b \<leftarrow> b;
     blk \<leftarrow> heap w b;
     Some (w\<lparr>heap := (heap w)(b := None)\<rparr>) }"

text \<open>The new object is allocated first; the error exit frees it, and dereferences NULL
  when there is none.\<close>

definition ubx_block_clone :: "'p world \<Rightarrow> addr \<Rightarrow> string \<Rightarrow> (addr option \<times> 'p world) option" where
  "ubx_block_clone w prot name =
     (if \<not> alloc_ok w then do { w \<leftarrow> ubx_block_free (alloc_step w) None; Some (None, w) }
      else do {
        let w = alloc_step w;
        let newb = next_addr w;
        let w = w\<lparr>next_addr := Suc newb\<rparr>;
        pb \<leftarrow> heap w prot;
        or_out (c_malloc w) (\<lambda>_ w. do {
          meta \<leftarrow> meta_data pb;
          or_out (c_malloc w) (\<lambda>_ w.
          or_out (c_malloc w) (\<lambda>_ w.
          or_out (clone_array w (configs pb) clone_configs) (\<lambda>cs w.
          or_out (clone_array w (ports pb) (\<lambda>w. clone_ports w newb)) (\<lambda>ps w.
            let blk = \<lparr>b_name = name, meta_data = Some meta, b_type = b_type pb,
                  ports = ps, configs = cs,
                  block_state = BLOCK_STATE_PREINIT, prototype = Some (b_name pb), b_ni = False,
                  b_init = b_init pb, b_start = b_start pb, b_stop = b_stop pb, b_cleanup = b_cleanup pb,
                  b_step = (if b_type pb = BLOCK_TYPE_COMPUTATION then b_step pb else None),
                  stat_num_steps = 0,
                  b_read = (if b_type pb = BLOCK_TYPE_INTERACTION then b_read pb else None),
                  b_write = (if b_type pb = BLOCK_TYPE_INTERACTION then b_write pb else None),
                  stat_num_reads = 0, stat_num_writes = 0, private_data = None\<rparr>
            in Some (Some newb, w\<lparr>heap := (heap w)(newb \<mapsto> blk)\<rparr>))))) }) })"

definition ubx_block_create :: "'p world \<Rightarrow> string \<Rightarrow> string option \<Rightarrow> (addr option \<times> 'p world) option" where
  "ubx_block_create w typ name =
     (case name of
        None \<Rightarrow> Some (None, w)
      | Some nm \<Rightarrow> (case hash_find (blocks w) typ of
          None \<Rightarrow> Some (None, w)
        | Some prot \<Rightarrow> (case hash_find (blocks w) nm of
            Some _ \<Rightarrow> Some (None, w)
          | None \<Rightarrow> do {
              (newb, w) \<leftarrow> ubx_block_clone w prot nm;
              (case newb of
                 None \<Rightarrow> Some (None, w)
               | Some b \<Rightarrow> do {
                   (ret, w) \<leftarrow> ubx_block_register w b;
                   if ret \<noteq> 0
                   then do { w \<leftarrow> ubx_block_free w (Some b); Some (Some b, w) }
                   else Some (Some b, w) }) })))"

definition ubx_block_rm :: "'p world \<Rightarrow> string \<Rightarrow> (int \<times> 'p world) option" where
  "ubx_block_rm w name =
     (case ubx_block_get w name of
        None \<Rightarrow> Some (ENOSUCHBLOCK, w)
      | Some b \<Rightarrow> do {
          blk \<leftarrow> heap w b;
          if prototype blk = None then Some (-1, w)
          else if block_state blk \<noteq> BLOCK_STATE_PREINIT then Some (-1, w)
          else do {
            let w = snd (ubx_block_unregister w name);
            w \<leftarrow> ubx_block_free w (Some b);
            Some (0, w) } })"


subsection \<open>Only the allocator moves\<close>

lemma post_or_out [wlp]:
  "post (or_out m k) Q
   = post m (\<lambda>(r, w). case r of None \<Rightarrow> Q (None, w) | Some x \<Rightarrow> post (k x w) Q)"
  unfolding or_out_def post_bind
  by (rule arg_cong [of _ _ "post m"]) (auto simp: fun_eq_iff wlp split: option.splits)

lemma post_or_outI:
  assumes "post m P" "\<And>w. P (None, w) \<Longrightarrow> Q (None, w)"
    and "\<And>x w. P (Some x, w) \<Longrightarrow> post (k x w) Q"
  shows "post (or_out m k) Q"
  unfolding post_or_out by (rule post_mono [OF assms(1)]) (auto intro: assms(2,3) split: option.splits)

definition mem_only :: "'p world \<Rightarrow> 'p world \<Rightarrow> bool" where
  "mem_only w w' \<longleftrightarrow> (\<exists>m. w' = w\<lparr>mem := m\<rparr>)"

lemma mem_only_refl [simp, intro!]: "mem_only w w"
  unfolding mem_only_def by (rule exI [of _ "mem w"]) simp

lemma mem_only_step [simp, intro!]: "mem_only w (alloc_step w)"
  by (auto simp: mem_only_def alloc_step_def)

lemma mem_only_trans [trans]: "mem_only w w1 \<Longrightarrow> mem_only w1 w2 \<Longrightarrow> mem_only w w2"
  by (auto simp: mem_only_def)

lemma mem_only_sel:
  assumes "mem_only w w'"
  shows "heap w' = heap w" "theap w' = theap w" "types w' = types w" "blocks w' = blocks w"
    "next_addr w' = next_addr w" "modules w' = modules w" "cur_seqid w' = cur_seqid w"
    "datas w' = datas w" "node_name w' = node_name w" "garbage w' = garbage w" "host w' = host w"
  using assms by (auto simp: mem_only_def)

lemma mem_only_steps [simp, intro]: "mem_only w w' \<Longrightarrow> mem_only w (alloc_step w')"
  by (rule mem_only_trans [OF _ mem_only_step])

lemma post_malloc [wlp]:
  "post (c_malloc w) Q = ((alloc_ok w \<longrightarrow> Q (Some (), alloc_step w)) \<and> (\<not> alloc_ok w \<longrightarrow> Q (None, alloc_step w)))"
  by (simp add: c_malloc_def wlp)

lemma post_strdup [wlp]:
  "post (c_strdup w s) Q =
     ((s = None \<longrightarrow> Q (Some None, w))
      \<and> (s \<noteq> None \<longrightarrow> (alloc_ok w \<longrightarrow> Q (Some s, alloc_step w)) \<and> (\<not> alloc_ok w \<longrightarrow> Q (None, alloc_step w))))"
  by (auto simp: c_strdup_def wlp split: option.splits)

lemma post_typ_name [wlp]: "post (typ_name w t) Q = (\<forall>n. typ_name w t = Some n \<longrightarrow> Q n)"
  by (simp add: post_def)

lemma typ_name_step [simp]: "typ_name (alloc_step w) t = typ_name w t"
  by (cases t) (simp_all add: typ_name_def)

text \<open>What a cloned port has in common with its prototype.\<close>

definition port_clone_of :: "'p world \<Rightarrow> ubx_port \<Rightarrow> ubx_port \<Rightarrow> bool" where
  "port_clone_of w p q \<longleftrightarrow>
     p_name q = p_name p \<and> p_doc q = p_doc p \<and> p_state q = p_state p
     \<and> in_type q = in_type p \<and> out_type q = out_type p
     \<and> Some (in_type_name q) = typ_name w (in_type p) \<and> Some (out_type_name q) = typ_name w (out_type p)
     \<and> p_attrs q = (if in_type p \<noteq> None then PORT_DIR_IN else 0) OR (if out_type p \<noteq> None then PORT_DIR_OUT else 0)
     \<and> in_data_len q = (if in_data_len p = 0 then 1 else in_data_len p)
     \<and> out_data_len q = (if out_data_len p = 0 then 1 else out_data_len p)
     \<and> in_interaction q = None \<and> out_interaction q = None
     \<and> stat_writes q = 0 \<and> stat_reades q = 0"

definition config_clone_of :: "'p world \<Rightarrow> ubx_config \<Rightarrow> ubx_config \<Rightarrow> bool" where
  "config_clone_of w c d \<longleftrightarrow>
     c_name d = c_name c \<and> c_doc d = c_doc c \<and> c_attrs d = 0
     \<and> (\<exists>t ty. d_type (c_value c) = Some t \<and> theap w t = Some ty \<and> c_type_name d = ty_name ty
         \<and> d_type (c_value d) = Some t
         \<and> d_len (c_value d) = (if d_len (c_value c) = 0 then 1 else d_len (c_value c))
         \<and> (d_data (c_value d) = BNull \<or> d_data (c_value d) = BLive (zeroed (d_len (c_value d)) (ty_size ty))))"

lemma clone_port_data_spec:
  "post (ubx_clone_port_data w (Some (p_name p)) (p_doc p) (in_type p) (in_data_len p)
           (out_type p) (out_data_len p) (p_state p))
     (\<lambda>(r, slot, w'). mem_only w w' \<and>
        (r = 0 \<and> (\<exists>q. slot = Some q \<and> port_clone_of w p q \<and> p_block q = None)
         \<or> r = EOUTOFMEM \<and> slot = None))"
  unfolding ubx_clone_port_data_def
  by (auto simp: wlp port_clone_of_def split del: if_split split: if_split_asm)

lemma clone_config_data_spec:
  "post (ubx_clone_config_data w (c_name c) (c_doc c) (d_type (c_value c)) (d_len (c_value c)))
     (\<lambda>(r, slot, w'). mem_only w w' \<and>
        (r = 0 \<and> (\<exists>d. slot = Some d \<and> config_clone_of w c d) \<or> r = -1 \<and> slot = None))"
proof (cases "d_type (c_value c)")
  case None
  then show ?thesis by (simp add: ubx_clone_config_data_def wlp)
next
  case (Some t)
  show ?thesis
  proof (cases "theap w t")
    case None
    with Some show ?thesis by (simp add: ubx_clone_config_data_def wlp)
  next
    case (Some ty)
    with \<open>d_type (c_value c) = Some t\<close> show ?thesis
      by (auto simp: ubx_clone_config_data_def wlp config_clone_of_def Let_def)
  qed
qed

lemma clone_of_mem_only [simp]:
  assumes "mem_only w w'"
  shows "config_clone_of w' = config_clone_of w" "port_clone_of w' = port_clone_of w"
  using assms by (auto simp: mem_only_def config_clone_of_def port_clone_of_def typ_name_def fun_eq_iff)

lemma clone_configs_spec:
  "post (clone_configs w cs) (\<lambda>(r, w'). mem_only w w' \<and>
     (\<forall>ds. r = Some ds \<longrightarrow> list_all2 (config_clone_of w) cs ds))"
proof (induction cs arbitrary: w)
  case Nil
  show ?case by (simp add: wlp)
next
  case (Cons c cs)
  show ?case unfolding clone_configs.simps
    apply (rule post_seq [OF clone_config_data_spec])
    apply (clarsimp simp: wlp)
    apply (rule post_mono [OF Cons.IH])
    apply (auto simp: wlp intro: mem_only_trans split: option.splits)
    done
qed

lemma clone_ports_spec:
  "post (clone_ports w b ps) (\<lambda>(r, w'). mem_only w w' \<and>
     (\<forall>qs. r = Some qs \<longrightarrow> list_all2 (\<lambda>p q. port_clone_of w p q \<and> p_block q = Some b) ps qs))"
proof (induction ps arbitrary: w)
  case Nil
  show ?case by (simp add: wlp)
next
  case (Cons p ps)
  show ?case unfolding clone_ports.simps
    apply (rule post_seq [OF clone_port_data_spec])
    apply (clarsimp simp: wlp err_defs)
    apply (rule post_mono [OF Cons.IH])
    apply (auto simp: wlp port_clone_of_def intro: mem_only_trans split: option.splits)
    done
qed

lemma clone_array_spec:
  assumes "\<And>w1 xs. mem_only w w1 \<Longrightarrow> arr = Some xs \<Longrightarrow>
     post (f w1 xs) (\<lambda>(r, w'). mem_only w1 w' \<and> (\<forall>ys. r = Some ys \<longrightarrow> list_all2 R xs ys))"
  shows "post (clone_array w arr f) (\<lambda>(r, w'). mem_only w w' \<and>
     (\<forall>ys. r = Some ys \<longrightarrow> rel_option (list_all2 R) arr ys))"
proof (cases arr)
  case None
  then show ?thesis by (simp add: clone_array_def wlp)
next
  case (Some xs)
  then show ?thesis
    apply (clarsimp simp: clone_array_def wlp)
    apply (rule post_mono [OF assms])
      apply (auto simp: wlp intro: mem_only_trans split: option.splits)
    done
qed

subsection \<open>What cloning a block produces\<close>

definition instance_of :: "'p world \<Rightarrow> 'p ubx_block \<Rightarrow> string \<Rightarrow> addr \<Rightarrow> 'p ubx_block \<Rightarrow> bool" where
  "instance_of w pb nm b blk \<longleftrightarrow>
     b_name blk = nm \<and> prototype blk = Some (b_name pb) \<and> meta_data blk = meta_data pb
     \<and> b_type blk = b_type pb \<and> block_state blk = BLOCK_STATE_PREINIT \<and> \<not> b_ni blk
     \<and> private_data blk = None
     \<and> stat_num_steps blk = 0 \<and> stat_num_reads blk = 0 \<and> stat_num_writes blk = 0
     \<and> b_init blk = b_init pb \<and> b_start blk = b_start pb \<and> b_stop blk = b_stop pb
     \<and> b_cleanup blk = b_cleanup pb
     \<and> b_step blk = (if b_type pb = BLOCK_TYPE_COMPUTATION then b_step pb else None)
     \<and> b_read blk = (if b_type pb = BLOCK_TYPE_INTERACTION then b_read pb else None)
     \<and> b_write blk = (if b_type pb = BLOCK_TYPE_INTERACTION then b_write pb else None)
     \<and> rel_option (list_all2 (config_clone_of w)) (configs pb) (configs blk)
     \<and> rel_option (list_all2 (\<lambda>p q. port_clone_of w p q \<and> p_block q = Some b)) (ports pb) (ports blk)"

text \<open>The new object is the only thing that changes besides the allocator.\<close>

definition cloned :: "'p world \<Rightarrow> 'p world \<Rightarrow> bool" where
  "cloned w w' \<longleftrightarrow> (\<exists>m. w' = w\<lparr>next_addr := Suc (next_addr w), mem := m\<rparr>)"

lemma cloned_sel:
  assumes "cloned w w'"
  shows "node_name w' = node_name w" "blocks w' = blocks w" "types w' = types w"
    "modules w' = modules w" "cur_seqid w' = cur_seqid w" "heap w' = heap w" "theap w' = theap w"
    "datas w' = datas w" "next_addr w' = Suc (next_addr w)" "garbage w' = garbage w" "host w' = host w"
  using assms by (auto simp: cloned_def)

lemma cloned_mem_only: "cloned w w1 \<Longrightarrow> mem_only w1 w2 \<Longrightarrow> cloned w w2"
  by (auto simp: cloned_def mem_only_def)

lemma cloned_clone_of [simp]:
  assumes "cloned w w'"
  shows "config_clone_of w' = config_clone_of w" "port_clone_of w' = port_clone_of w"
  using assms by (auto simp: cloned_def config_clone_of_def port_clone_of_def typ_name_def fun_eq_iff)

definition clone_result :: "'p world \<Rightarrow> addr \<Rightarrow> string \<Rightarrow> addr option \<times> 'p world \<Rightarrow> bool" where
  "clone_result w prot nm = (\<lambda>(r, w').
     (r = None \<and> cloned w w')
     \<or> (\<exists>pb blk w1. r = Some (next_addr w) \<and> heap w prot = Some pb \<and> cloned w w1
          \<and> w' = w1\<lparr>heap := (heap w)(next_addr w \<mapsto> blk)\<rparr>
          \<and> instance_of w pb nm (next_addr w) blk))"

lemma clone_result_None: "cloned w w' \<Longrightarrow> clone_result w prot nm (None, w')"
  by (simp add: clone_result_def)

lemma clone_result_Some:
  assumes "heap w prot = Some pb" "cloned w w1" "instance_of w pb nm (next_addr w) blk"
  shows "clone_result w prot nm (Some (next_addr w), w1\<lparr>heap := (heap w1)(next_addr w \<mapsto> blk)\<rparr>)"
  unfolding clone_result_def using assms by (auto simp: cloned_sel)

lemma block_clone_spec: "post (ubx_block_clone w prot nm) (clone_result w prot nm)"
proof (cases "alloc_ok w")
  case False
  then show ?thesis by (simp add: ubx_block_clone_def ubx_block_free_def wlp)
next
  case True
  let ?w = "(alloc_step w)\<lparr>next_addr := Suc (next_addr w)\<rparr>"
  let ?cl = "\<lambda>R w0 arr (r, w'). mem_only w0 w' \<and> (\<forall>ys. r = Some ys \<longrightarrow> rel_option (list_all2 R) arr ys)"
  have step: "cloned w (alloc_step w1)" if "cloned w w1" for w1
    using that by (rule cloned_mem_only) simp
  have c: "cloned w ?w" unfolding cloned_def alloc_step_def
    by (rule exI [of _ "tl (mem w)"]) simp
  have cs: "post (clone_array w1 (configs pb) clone_configs) (?cl (config_clone_of w) w1 (configs pb))"
    if "cloned w w1" for w1 pb
  proof (rule clone_array_spec)
    fix w2 xs
    assume "mem_only w1 w2"
    then have "cloned w w2" by (rule cloned_mem_only [OF that])
    then show "post (clone_configs w2 xs) (\<lambda>(r, w'). mem_only w2 w' \<and> (\<forall>ys. r = Some ys \<longrightarrow> list_all2 (config_clone_of w) xs ys))"
      using clone_configs_spec [of w2 xs] by simp
  qed
  have ps: "post (clone_array w1 (ports pb) (\<lambda>w'. clone_ports w' b))
      (?cl (\<lambda>p q. port_clone_of w p q \<and> p_block q = Some b) w1 (ports pb))"
    if "cloned w w1" for w1 pb b
  proof (rule clone_array_spec)
    fix w2 xs
    assume "mem_only w1 w2"
    then have "cloned w w2" by (rule cloned_mem_only [OF that])
    then show "post (clone_ports w2 b xs) (\<lambda>(r, w'). mem_only w2 w' \<and> (\<forall>ys. r = Some ys \<longrightarrow> list_all2 (\<lambda>p q. port_clone_of w p q \<and> p_block q = Some b) xs ys))"
      using clone_ports_spec [of w2 b xs] by simp
  qed
  show ?thesis
    using True unfolding ubx_block_clone_def
    apply (simp add: Let_def)
    apply (rule post_bind [THEN iffD2])
    apply (rule postI, rename_tac pb)
    apply (rule post_or_outI [where P = "\<lambda>(r, w1). cloned w w1"])
      apply (simp add: wlp c step)
     apply (simp add: clone_result_None)
    apply (rule post_bind [THEN iffD2])
    apply (rule postI, rename_tac meta)
    apply (rule post_or_outI [where P = "\<lambda>(r, w1). cloned w w1"])
      apply (simp add: wlp c step)
     apply (simp add: clone_result_None)
    apply (rule post_or_outI [where P = "\<lambda>(r, w1). cloned w w1"])
      apply (simp add: wlp c step)
     apply (simp add: clone_result_None)
    apply (rule post_or_outI [OF cs])
      apply simp
     apply (auto intro!: clone_result_None intro: cloned_mem_only)[1]
    apply (rule post_or_outI [OF ps])
      apply (auto intro: cloned_mem_only)[1]
     apply (auto intro!: clone_result_None intro: cloned_mem_only)[1]
    apply (simp only: post_Some Let_def)
    apply (rule clone_result_Some)
      apply assumption
     apply (auto intro: cloned_mem_only)[1]
    apply (simp add: instance_of_def)
    done
qed

subsection \<open>Resolving types changes types only\<close>

lemma resolve_types_frame:
  assumes "ubx_resolve_types w b = (r, b')"
  shows "\<exists>ps cs. b' = b\<lparr>ports := ps, configs := cs\<rparr>"
proof -
  have *: "b\<lparr>ports := ps\<rparr> = b\<lparr>ports := ps, configs := configs b\<rparr>" for ps by simp
  from assms show ?thesis
    by (auto simp: ubx_resolve_types_def Let_def split: prod.splits if_splits)
      (use * in \<open>blast+\<close>)
qed

lemma resolve_types_sel:
  assumes "ubx_resolve_types w b = (r, b')"
  shows "b_name b' = b_name b" "b_ni b' = b_ni b" "b_type b' = b_type b" "prototype b' = prototype b"
    "block_state b' = block_state b"
  using resolve_types_frame [OF assms] by auto

definition port_resolved :: "'p world \<Rightarrow> ubx_port \<Rightarrow> ubx_port \<Rightarrow> bool" where
  "port_resolved w p q \<longleftrightarrow>
     (\<exists>i o'. q = p\<lparr>in_type := i, out_type := o'\<rparr>
        \<and> (case in_type_name p of None \<Rightarrow> i = in_type p | Some n \<Rightarrow> i \<noteq> None \<and> i = ubx_type_get w n)
        \<and> (case out_type_name p of None \<Rightarrow> o' = out_type p | Some n \<Rightarrow> o' \<noteq> None \<and> o' = ubx_type_get w n))"

definition config_resolved :: "'p world \<Rightarrow> ubx_config \<Rightarrow> ubx_config \<Rightarrow> bool" where
  "config_resolved w c d \<longleftrightarrow>
     (\<exists>t. ubx_type_get w (c_type_name c) = Some t \<and> d = c\<lparr>c_value := (c_value c)\<lparr>d_type := Some t\<rparr>\<rparr>)"

lemma resolve_port_True: "resolve_port w p = (True, q) \<Longrightarrow> port_resolved w p q"
  unfolding port_resolved_def by (auto simp: resolve_port_def split: option.splits)

lemma resolve_config_True: "resolve_config w c = (True, d) \<Longrightarrow> config_resolved w c d"
  by (auto simp: resolve_config_def config_resolved_def split: option.splits)

lemma resolve_all_True:
  "resolve_all f xs = (True, ys) \<Longrightarrow> (\<And>x y. f x = (True, y) \<Longrightarrow> R x y) \<Longrightarrow> list_all2 R xs ys"
  by (induction xs arbitrary: ys) (auto split: prod.splits bool.splits)

lemma resolve_array_True:
  "resolve_array f arr = (True, arr') \<Longrightarrow> (\<And>x y. f x = (True, y) \<Longrightarrow> R x y)
   \<Longrightarrow> rel_option (list_all2 R) arr arr'"
  by (auto simp: resolve_array_def resolve_all_True split: option.splits prod.splits)

lemma resolve_types_ok:
  assumes "ubx_resolve_types w b = (0, b')"
  shows "rel_option (list_all2 (port_resolved w)) (ports b) (ports b')"
    and "rel_option (list_all2 (config_resolved w)) (configs b) (configs b')"
  using assms
  by (auto simp: ubx_resolve_types_def Let_def split: prod.splits if_splits
      dest: resolve_array_True [where R = "port_resolved w", OF _ resolve_port_True]
            resolve_array_True [where R = "config_resolved w", OF _ resolve_config_True])

subsection \<open>The node stays well formed\<close>

definition entry_ok :: "'p world \<Rightarrow> string \<Rightarrow> addr \<Rightarrow> bool" where
  "entry_ok w n a \<longleftrightarrow> (case heap w a of None \<Rightarrow> False | Some blk \<Rightarrow>
     b_name blk = n \<and> b_ni blk \<and> b_type blk \<in> {BLOCK_TYPE_COMPUTATION, BLOCK_TYPE_INTERACTION})"

definition wf_node :: "'p world \<Rightarrow> bool" where
  "wf_node w \<longleftrightarrow>
     hash_ok (blocks w)
     \<and> (\<forall>(n, a) \<in> set (blocks w). entry_ok w n a)
     \<and> (\<forall>a. heap w a \<noteq> None \<longrightarrow> a < next_addr w)"

lemma wf_nodeI:
  assumes "hash_ok (blocks w)" "\<And>n a. (n, a) \<in> set (blocks w) \<Longrightarrow> entry_ok w n a"
    and "\<And>a blk. heap w a = Some blk \<Longrightarrow> a < next_addr w"
  shows "wf_node w"
  using assms by (auto simp: wf_node_def)

lemma wf_nodeD:
  assumes "wf_node w"
  shows "hash_ok (blocks w)" "(n, a) \<in> set (blocks w) \<Longrightarrow> entry_ok w n a"
    "heap w a = Some blk \<Longrightarrow> a < next_addr w"
  using assms by (auto simp: wf_node_def)

lemma entry_okE:
  assumes "entry_ok w n a"
  obtains blk where "heap w a = Some blk" "b_name blk = n" "b_ni blk"
    "b_type blk \<in> {BLOCK_TYPE_COMPUTATION, BLOCK_TYPE_INTERACTION}"
  using assms by (auto simp: entry_ok_def split: option.splits)

lemma wf_node_get:
  assumes "wf_node w" "ubx_block_get w n = Some a"
  obtains blk where "heap w a = Some blk" "b_name blk = n" "b_ni blk" "a < next_addr w"
    "b_type blk \<in> {BLOCK_TYPE_COMPUTATION, BLOCK_TYPE_INTERACTION}"
  using entry_okE [OF wf_nodeD(2) [OF assms(1) hash_find_in [OF assms(2) [unfolded ubx_block_get_def]]]]
    wf_nodeD(3) [OF assms(1)] that by metis

text \<open>Unregistered addresses do not matter.\<close>

lemma wf_node_heap:
  assumes "wf_node w" "blocks w' = blocks w" "next_addr w \<le> next_addr w'"
    and "\<And>n a. (n, a) \<in> set (blocks w) \<Longrightarrow> heap w' a = heap w a"
    and "\<And>a blk. heap w' a = Some blk \<Longrightarrow> a < next_addr w'"
  shows "wf_node w'"
  using assms wf_nodeD [OF assms(1)] by (intro wf_nodeI) (auto simp: entry_ok_def)

lemma wf_node_same:
  assumes "wf_node w" "blocks w' = blocks w" "heap w' = heap w" "next_addr w \<le> next_addr w'"
  shows "wf_node w'"
  using assms by (intro wf_node_heap [OF assms(1)]) (auto dest: wf_nodeD(3) [OF assms(1)])

text \<open>An update of an object that keeps its name, type and registration.\<close>

lemma wf_node_update:
  assumes "wf_node w" "heap w a = Some blk" "b_name blk' = b_name blk"
    "b_ni blk \<longrightarrow> b_ni blk'" "b_type blk' = b_type blk"
  shows "wf_node (w\<lparr>heap := (heap w)(a \<mapsto> blk')\<rparr>)"
proof (rule wf_nodeI)
  fix n x
  assume "(n, x) \<in> set (blocks (w\<lparr>heap := (heap w)(a \<mapsto> blk')\<rparr>))"
  then have "entry_ok w n x" using wf_nodeD(2) [OF assms(1)] by simp
  then show "entry_ok (w\<lparr>heap := (heap w)(a \<mapsto> blk')\<rparr>) n x"
    using assms(2-5) by (auto simp: entry_ok_def split: option.splits)
qed (use wf_nodeD [OF assms(1)] assms(2) in \<open>auto split: if_splits\<close>)

lemma register_cases:
  assumes "ubx_block_register w b = Some (r, w')"
  obtains (refused) blk where "heap w b = Some blk" "r = -1" "w' = w"
  | (unresolved) blk blk' where "heap w b = Some blk" "hash_find (blocks w) (b_name blk) = None"
      "ubx_resolve_types w (blk\<lparr>b_ni := True\<rparr>) = (r, blk')" "r \<noteq> 0"
      "w' = w\<lparr>heap := (heap w)(b \<mapsto> blk')\<rparr>"
  | (registered) blk blk' where "heap w b = Some blk" "hash_find (blocks w) (b_name blk) = None"
      "prototype blk = None \<or> \<not> b_ni blk"
      "b_type blk \<in> {BLOCK_TYPE_COMPUTATION, BLOCK_TYPE_INTERACTION}"
      "ubx_resolve_types w (blk\<lparr>b_ni := True\<rparr>) = (0, blk')" "r = 0"
      "w' = w\<lparr>heap := (heap w)(b \<mapsto> blk'), blocks := hash_add (blocks w) (b_name blk) b\<rparr>"
proof -
  obtain blk where blk: "heap w b = Some blk" using assms by (auto simp: ubx_block_register_def)
  obtain ret blk' where res: "ubx_resolve_types w (blk\<lparr>b_ni := True\<rparr>) = (ret, blk')" by fastforce
  have name: "b_name blk' = b_name blk" using resolve_types_sel(1) [OF res] by simp
  show ?thesis
  proof (cases "(prototype blk \<noteq> None \<and> b_ni blk)
      \<or> (b_type blk \<noteq> BLOCK_TYPE_COMPUTATION \<and> b_type blk \<noteq> BLOCK_TYPE_INTERACTION)
      \<or> hash_find (blocks w) (b_name blk) \<noteq> None")
    case True
    with assms blk have "r = -1" "w' = w"
      by (auto simp: ubx_block_register_def split: if_splits)
    with blk show ?thesis by (intro refused)
  next
    case False
    with assms blk res name
    have "(r, w') = (if ret \<noteq> 0 then (ret, w\<lparr>heap := (heap w)(b \<mapsto> blk')\<rparr>)
        else (0, w\<lparr>heap := (heap w)(b \<mapsto> blk'), blocks := hash_add (blocks w) (b_name blk) b\<rparr>))"
      by (simp add: ubx_block_register_def Let_def split: if_splits)
    with False blk res show ?thesis
      by (cases "ret = 0") (auto intro: unresolved registered)
  qed
qed

lemma wf_node_add:
  assumes "wf_node w" "hash_find (blocks w) n = None" "entry_ok w n a"
  shows "wf_node (w\<lparr>blocks := hash_add (blocks w) n a\<rparr>)"
proof (rule wf_nodeI)
  fix m x
  assume "(m, x) \<in> set (blocks (w\<lparr>blocks := hash_add (blocks w) n a\<rparr>))"
  then have "entry_ok w m x" using assms(3) wf_nodeD(2) [OF assms(1)] by auto
  then show "entry_ok (w\<lparr>blocks := hash_add (blocks w) n a\<rparr>) m x" by (simp add: entry_ok_def)
qed (use wf_nodeD [OF assms(1)] assms(2) in \<open>auto intro: ht.ok_add\<close>)

lemma wf_node_del:
  assumes "wf_node w"
  shows "wf_node (w\<lparr>blocks := hash_del (blocks w) n\<rparr>)"
proof (rule wf_nodeI)
  fix m x
  assume "(m, x) \<in> set (blocks (w\<lparr>blocks := hash_del (blocks w) n\<rparr>))"
  then have "entry_ok w m x" using wf_nodeD(2) [OF assms] by auto
  then show "entry_ok (w\<lparr>blocks := hash_del (blocks w) n\<rparr>) m x" by (simp add: entry_ok_def)
qed (use wf_nodeD [OF assms] in \<open>auto intro: ht.ok_del\<close>)

lemma wf_node_register:
  assumes wf: "wf_node w" and reg: "ubx_block_register w b = Some (r, w')"
  shows "wf_node w'"
  using reg
proof (cases rule: register_cases)
  case refused
  with wf show ?thesis by simp
next
  case (unresolved blk blk')
  note sel = resolve_types_sel [OF unresolved(3)]
  show ?thesis unfolding unresolved(5)
    by (rule wf_node_update [OF wf unresolved(1)]) (simp_all add: sel)
next
  case (registered blk blk')
  let ?w = "w\<lparr>heap := (heap w)(b \<mapsto> blk')\<rparr>"
  note sel = resolve_types_sel [OF registered(5)]
  have u: "wf_node ?w" by (rule wf_node_update [OF wf registered(1)]) (simp_all add: sel)
  have "entry_ok ?w (b_name blk) b" using registered(4) by (simp add: entry_ok_def sel)
  from wf_node_add [OF u _ this] registered(2,7) show ?thesis by simp
qed

text \<open>What is registered is the block with all its type names resolved.\<close>

definition registered_as :: "'p world \<Rightarrow> addr \<Rightarrow> 'p ubx_block \<Rightarrow> 'p world \<Rightarrow> 'p ubx_block \<Rightarrow> bool" where
  "registered_as w b blk w' blk' \<longleftrightarrow>
     heap w' = (heap w)(b \<mapsto> blk')
     \<and> ubx_block_get w (b_name blk) = None
     \<and> (\<forall>n. ubx_block_get w' n = (if n = b_name blk then Some b else ubx_block_get w n))
     \<and> (\<exists>ps cs. blk' = blk\<lparr>b_ni := True, ports := ps, configs := cs\<rparr>
          \<and> rel_option (list_all2 (port_resolved w)) (ports blk) ps
          \<and> rel_option (list_all2 (config_resolved w)) (configs blk) cs)"

lemma register_ok:
  assumes "wf_node w" "ubx_block_register w b = Some (0, w')" "heap w b = Some blk"
  obtains blk' where "registered_as w b blk w' blk'" "blocks w' = hash_add (blocks w) (b_name blk) b"
    "types w' = types w" "theap w' = theap w" "next_addr w' = next_addr w" "mem w' = mem w"
  using assms(2)
proof (cases rule: register_cases)
  case (registered b1 blk')
  have b1: "b1 = blk" using registered(1) assms(3) by simp
  obtain ps cs where ps: "blk' = blk\<lparr>b_ni := True, ports := ps, configs := cs\<rparr>"
    using resolve_types_frame [OF registered(5)] b1 by auto
  have "registered_as w b blk w' blk'"
    using registered ps resolve_types_ok [OF registered(5)] wf_nodeD(1) [OF assms(1)]
    by (auto simp: registered_as_def ubx_block_get_def ht.find_add b1)
  then show ?thesis using registered b1 by (intro that) simp_all
qed simp_all

subsection \<open>Creating and removing instances\<close>

lemma wf_node_cloned: "wf_node w \<Longrightarrow> cloned w w' \<Longrightarrow> wf_node w'"
  by (erule wf_node_same) (simp_all add: cloned_sel)

lemma wf_node_new:
  assumes "wf_node w" "cloned w w1"
  shows "wf_node (w1\<lparr>heap := (heap w)(next_addr w \<mapsto> blk)\<rparr>)"
proof (rule wf_node_heap [OF assms(1)])
  fix n a
  assume "(n, a) \<in> set (blocks w)"
  then have "a < next_addr w"
    using wf_nodeD(2,3) [OF assms(1)] by (blast elim: entry_okE)
  then show "heap (w1\<lparr>heap := (heap w)(next_addr w \<mapsto> blk)\<rparr>) a = heap w a" by simp
qed (use wf_nodeD(3) [OF assms(1)] in \<open>auto simp: cloned_sel[OF assms(2)] less_Suc_eq split: if_splits\<close>)

lemma heap_fresh: "wf_node w \<Longrightarrow> heap w (next_addr w) = None"
  using wf_nodeD(3) [of w "next_addr w"] by (cases "heap w (next_addr w)") auto

lemma create_cases:
  assumes wf: "wf_node w" and c: "ubx_block_create w typ name = Some (r, w')"
  obtains (refused) "r = None" "w' = w"
      "name = None \<or> ubx_block_get w typ = None \<or> (\<exists>nm. name = Some nm \<and> ubx_block_get w nm \<noteq> None)"
  | (nomem) "r = None" "cloned w w'"
  | (dangling) w1 where "r = Some (next_addr w)" "cloned w w1" "w' = w1\<lparr>heap := heap w\<rparr>"
  | (created) nm pa pb blk blk' w1 where "name = Some nm" "r = Some (next_addr w)" "cloned w w1"
      "ubx_block_get w typ = Some pa" "heap w pa = Some pb" "ubx_block_get w nm = None"
      "instance_of w pb nm (next_addr w) blk"
      "registered_as (w1\<lparr>heap := (heap w)(next_addr w \<mapsto> blk)\<rparr>) (next_addr w) blk w' blk'"
      "blocks w' = hash_add (blocks w) nm (next_addr w)"
      "wf_node w'"
proof (cases "name = None \<or> ubx_block_get w typ = None \<or> (\<exists>nm. name = Some nm \<and> ubx_block_get w nm \<noteq> None)")
  case True
  with c have "r = None" "w' = w"
    by (auto simp: ubx_block_create_def ubx_block_get_def split: option.splits)
  with True show ?thesis by (intro refused)
next
  case False
  then obtain nm pa where nm: "name = Some nm" and pa: "ubx_block_get w typ = Some pa"
    and free: "ubx_block_get w nm = None" by auto
  with c obtain nb w1 where cl: "ubx_block_clone w pa nm = Some (nb, w1)"
    and rest: "(case nb of None \<Rightarrow> Some (None, w1) | Some b \<Rightarrow> do {
        (ret, w2) \<leftarrow> ubx_block_register w1 b;
        if ret \<noteq> 0 then do { w3 \<leftarrow> ubx_block_free w2 (Some b); Some (Some b, w3) }
        else Some (Some b, w2) }) = Some (r, w')"
    by (auto simp: ubx_block_create_def ubx_block_get_def)
  from postD [OF block_clone_spec cl]
  consider "nb = None" "cloned w w1"
    | pb blk w0 where "nb = Some (next_addr w)" "heap w pa = Some pb" "cloned w w0"
      "w1 = w0\<lparr>heap := (heap w)(next_addr w \<mapsto> blk)\<rparr>" "instance_of w pb nm (next_addr w) blk"
    unfolding clone_result_def by auto
  then show ?thesis
  proof cases
    case 1
    with rest show ?thesis by (intro nomem) auto
  next
    case (2 pb blk w0)
    have wf1: "wf_node w1" unfolding 2(4) by (rule wf_node_new [OF wf 2(3)])
    have h: "heap w1 (next_addr w) = Some blk" by (simp add: 2(4))
    from rest 2(1) obtain ret w2 where reg: "ubx_block_register w1 (next_addr w) = Some (ret, w2)"
      and fin: "(if ret \<noteq> 0 then do { w3 \<leftarrow> ubx_block_free w2 (Some (next_addr w)); Some (Some (next_addr w), w3) }
        else Some (Some (next_addr w), w2)) = Some (r, w')" by auto
    show ?thesis
    proof (cases "ret = 0")
      case True
      with register_ok [OF wf1 _ h] reg obtain blk' where
        "registered_as w1 (next_addr w) blk w2 blk'" "blocks w2 = hash_add (blocks w1) (b_name blk) (next_addr w)"
        by blast
      moreover have "b_name blk = nm" using 2(5) by (simp add: instance_of_def)
      moreover have "wf_node w2" using wf_node_register [OF wf1 reg] .
      ultimately show ?thesis using True fin nm pa free 2
        by (intro created [of nm w0 pa pb blk blk']) (simp_all add: cloned_sel)
    next
      case False
      from reg have "\<exists>h. w2 = w1\<lparr>heap := (heap w1)(next_addr w := h)\<rparr>"
      proof (cases rule: register_cases)
        case refused
        then show ?thesis by (intro exI [of _ "heap w1 (next_addr w)"]) (simp add: fun_upd_idem)
      next
        case unresolved
        then show ?thesis by auto
      next
        case registered
        with False show ?thesis by simp
      qed
      moreover have "(heap w)(next_addr w := None) = heap w"
        using heap_fresh [OF wf] by auto
      ultimately show ?thesis using False fin 2
        by (intro dangling [of w0]) (auto simp: ubx_block_free_def)
    qed
  qed
qed

lemma create_wf:
  assumes "wf_node w" "ubx_block_create w typ name = Some (r, w')"
  shows "wf_node w'"
  using assms
proof (cases rule: create_cases)
  case (dangling w1)
  from wf_node_cloned [OF assms(1) dangling(2)] show ?thesis
    unfolding dangling(3) by (rule wf_node_same) (simp_all add: cloned_sel [OF dangling(2)])
next
  case nomem
  then show ?thesis using wf_node_cloned [OF assms(1)] by blast
qed (simp_all add: assms(1))

lemma rm_cases:
  assumes "wf_node w" "ubx_block_rm w name = Some (r, w')"
  obtains (unknown) "r = ENOSUCHBLOCK" "w' = w" "ubx_block_get w name = None"
  | (refused) a blk where "r = -1" "w' = w" "ubx_block_get w name = Some a" "heap w a = Some blk"
      "prototype blk = None \<or> block_state blk \<noteq> BLOCK_STATE_PREINIT"
  | (removed) a blk where "r = 0" "ubx_block_get w name = Some a" "heap w a = Some blk"
      "prototype blk \<noteq> None" "block_state blk = BLOCK_STATE_PREINIT"
      "w' = w\<lparr>blocks := hash_del (blocks w) name, heap := (heap w)(a := None)\<rparr>"
proof (cases "ubx_block_get w name")
  case None
  with assms(2) show ?thesis by (intro unknown) (auto simp: ubx_block_rm_def)
next
  case (Some a)
  from wf_node_get [OF assms(1) Some] obtain blk where blk: "heap w a = Some blk" by blast
  show ?thesis
  proof (cases "prototype blk = None \<or> block_state blk \<noteq> BLOCK_STATE_PREINIT")
    case True
    with assms(2) Some blk show ?thesis
      by (intro refused [OF _ _ Some blk True]) (auto simp: ubx_block_rm_def split: if_splits)
  next
    case False
    with assms(2) Some blk show ?thesis
      by (intro removed [OF _ Some blk])
        (auto simp: ubx_block_rm_def Let_def ubx_block_unregister_def ubx_block_free_def ubx_block_get_def)
  qed
qed

lemma rm_wf:
  assumes wf: "wf_node w" and "ubx_block_rm w name = Some (r, w')"
  shows "wf_node w'"
  using assms
proof (cases rule: rm_cases)
  case (removed a blk)
  have nm: "b_name blk = name" using wf_node_get [OF wf removed(2)] removed(3) by force
  let ?w = "w\<lparr>blocks := hash_del (blocks w) name\<rparr>"
  show ?thesis
  proof (rule wf_node_heap [OF wf_node_del [OF wf, of name]])
    fix n x
    assume "(n, x) \<in> set (blocks ?w)"
    then have "(n, x) \<in> set (blocks w)" "n \<noteq> name" by simp_all
    with nm removed(3) wf_nodeD(2) [OF wf] have "x \<noteq> a" by (auto elim!: entry_okE dest!: wf_nodeD(2) [OF wf])
    then show "heap w' x = heap ?w x" by (simp add: removed(6))
  next
    fix x bk
    assume "heap w' x = Some bk"
    then show "x < next_addr w'" using wf_nodeD(3) [OF wf] by (auto simp: removed(6) split: if_splits)
  qed (simp_all add: removed(6))
qed (simp_all add: wf)

subsection \<open>Properties of creating and removing blocks\<close>

lemma create_returns:
  assumes "wf_node w" "ubx_block_create w typ name = Some (Some b, w')"
  shows "b = next_addr w"
  using assms by (cases rule: create_cases) auto

text \<open>C19: When creating an instance returns a pointer that is registered under the requested
  name, the object there is a fresh copy of the prototype in state preinit with all its
  type names resolved, every other block and every other name is as before, and the node
  stays well formed.\<close>

theorem create_instance:
  assumes "wf_node w" "ubx_block_create w typ (Some nm) = Some (Some b, w')"
    and "ubx_block_get w' nm = Some b"
  shows "wf_node w' \<and> heap w b = None
    \<and> (\<exists>pa pb blk blk'. ubx_block_get w typ = Some pa \<and> heap w pa = Some pb
         \<and> instance_of w pb nm b blk \<and> heap w' = (heap w)(b \<mapsto> blk')
         \<and> block_state blk' = BLOCK_STATE_PREINIT \<and> prototype blk' = Some (b_name pb) \<and> b_ni blk'
         \<and> rel_option (list_all2 (port_resolved w)) (ports blk) (ports blk')
         \<and> rel_option (list_all2 (config_resolved w)) (configs blk) (configs blk'))
    \<and> (\<forall>n. ubx_block_get w' n = (if n = nm then Some b else ubx_block_get w n))"
  using assms(1,2)
proof (cases rule: create_cases)
  case (dangling w1)
  then have "blocks w' = blocks w" by (simp add: cloned_sel)
  with assms(3) have "ubx_block_get w nm = Some b" by (simp add: ubx_block_get_def)
  from wf_node_get [OF assms(1) this] heap_fresh [OF assms(1)] dangling(1) show ?thesis by auto
next
  case (created nm' pa pb blk blk' w1)
  have tg: "ubx_type_get (w1\<lparr>heap := h\<rparr>) = ubx_type_get w" for h
    by (simp add: ubx_type_get_def cloned_sel [OF created(3)] fun_eq_iff)
  have res: "port_resolved (w1\<lparr>heap := h\<rparr>) = port_resolved w"
    "config_resolved (w1\<lparr>heap := h\<rparr>) = config_resolved w" for h
    unfolding port_resolved_def config_resolved_def tg by simp_all
  have b: "b = next_addr w" and nm: "nm' = nm" using created(1,2) by simp_all
  have "heap w' = (heap w)(b \<mapsto> blk')" using created(8) by (auto simp: registered_as_def b)
  moreover have "rel_option (list_all2 (port_resolved w)) (ports blk) (ports blk')"
    "rel_option (list_all2 (config_resolved w)) (configs blk) (configs blk')" "b_ni blk'"
    "block_state blk' = BLOCK_STATE_PREINIT" "prototype blk' = Some (b_name pb)"
    using created(7,8) by (auto simp: registered_as_def res instance_of_def)
  moreover have "ubx_block_get w' n = (if n = nm then Some b else ubx_block_get w n)" for n
    using created(6) wf_nodeD(1) [OF assms(1)]
    by (simp add: ubx_block_get_def created(9) nm b ht.find_add)
  moreover have "instance_of w pb nm b blk" using created(7) by (simp add: b nm)
  ultimately show ?thesis using created(4,5,10) heap_fresh [OF assms(1)] unfolding b by blast
qed simp_all

lemma ex_wf_node: "wf_node (ex_world plan)"
  by (rule wf_nodeI) (auto simp: ex_defs hash_ok_def entry_ok_def split: if_splits)

lemmas create_eval = ubx_block_create_def ubx_block_clone_def ubx_block_register_def ubx_resolve_types_def
  clone_array_def ubx_clone_config_data_def ubx_clone_port_data_def c_malloc_def c_strdup_def typ_name_def
  resolve_array_def resolve_port_def resolve_config_def ubx_type_get_def hash_find_def hash_add_def btype_defs

theorem create_instance_witness:
  "\<exists>w'. ubx_block_create (ex_world []) ''pid'' (Some ''pid2'') = Some (Some 2, w')
    \<and> wf_node w' \<and> ubx_block_get w' ''pid2'' = Some 2 \<and> ubx_block_get w' ''pid1'' = Some 1"
proof -
  have "\<exists>w'. ubx_block_create (ex_world []) ''pid'' (Some ''pid2'') = Some (Some 2, w')
      \<and> ubx_block_get w' ''pid2'' = Some 2"
    by (simp add: create_eval ubx_block_get_def ex_defs Let_def)
  then obtain w' where w': "ubx_block_create (ex_world []) ''pid'' (Some ''pid2'') = Some (Some 2, w')"
    "ubx_block_get w' ''pid2'' = Some 2" by blast
  have "ubx_block_get (ex_world []) ''pid1'' = Some 1" by (simp add: ex_defs ubx_block_get_def hash_find_def)
  with create_instance [OF ex_wf_node w'] w' show ?thesis by auto
qed

text \<open>C22: Removing a freshly created instance succeeds and restores the table of blocks and
  every block object.\<close>

theorem create_rm:
  assumes "wf_node w" "ubx_block_create w typ (Some nm) = Some (Some b, w1)"
    and "ubx_block_get w1 nm = Some b"
  shows "\<exists>w2. ubx_block_rm w1 nm = Some (0, w2) \<and> blocks w2 = blocks w \<and> heap w2 = heap w"
  using assms(1,2)
proof (cases rule: create_cases)
  case (dangling w0)
  then have "blocks w1 = blocks w" by (simp add: cloned_sel)
  with assms(3) have "ubx_block_get w nm = Some b" by (simp add: ubx_block_get_def)
  from wf_node_get [OF assms(1) this] heap_fresh [OF assms(1)] dangling(1) show ?thesis by auto
next
  case (created nm' pa pb blk blk' w0)
  have b: "b = next_addr w" and nm: "nm' = nm" using created(1,2) by simp_all
  have h: "heap w1 = (heap w)(b \<mapsto> blk')" "block_state blk' = BLOCK_STATE_PREINIT" "prototype blk' \<noteq> None"
    using created(7,8) by (auto simp: registered_as_def b instance_of_def)
  have "hash_del (blocks w1) nm = blocks w"
    using created(6) wf_nodeD(1) [OF assms(1)]
    by (simp add: created(9) nm ubx_block_get_def ht.del_add)
  moreover have "(heap w1)(b := None) = heap w"
    using heap_fresh [OF assms(1)] by (auto simp: h(1) b)
  moreover have "ubx_block_rm w1 nm = Some (0, w1\<lparr>blocks := hash_del (blocks w1) nm, heap := (heap w1)(b := None)\<rparr>)"
    using assms(3) h by (simp add: ubx_block_rm_def ubx_block_unregister_def ubx_block_get_def ubx_block_free_def)
  ultimately show ?thesis by simp
qed simp_all

theorem create_rm_witness:
  "\<exists>w1 w2. ubx_block_create (ex_world []) ''pid'' (Some ''pid2'') = Some (Some 2, w1)
    \<and> ubx_block_rm w1 ''pid2'' = Some (0, w2) \<and> blocks w2 = [(''pid'', 0), (''pid1'', 1)]"
proof -
  have "\<exists>w'. ubx_block_create (ex_world []) ''pid'' (Some ''pid2'') = Some (Some 2, w')
      \<and> ubx_block_get w' ''pid2'' = Some 2"
    by (simp add: create_eval ubx_block_get_def ex_defs Let_def)
  then obtain w1 where w1: "ubx_block_create (ex_world []) ''pid'' (Some ''pid2'') = Some (Some 2, w1)"
    "ubx_block_get w1 ''pid2'' = Some 2" by blast
  from create_rm [OF ex_wf_node w1] w1(1) show ?thesis by (auto simp: ex_world_def)
qed

text \<open>When a type name of the copy cannot be resolved, creating the instance frees the
  object and returns its address all the same: the caller of \<open>ubx_block_create\<close> gets a
  dangling pointer where the documentation promises NULL.\<close>

lemma create_unresolved_dangles:
  "\<exists>w'. ubx_block_create ((ex_world [])\<lparr>types := []\<rparr>) ''pid'' (Some ''pid2'') = Some (Some 2, w')
    \<and> heap w' 2 = None \<and> ubx_block_get w' ''pid2'' = None"
  by (simp add: create_eval ubx_block_free_def ubx_block_get_def ex_defs Let_def)

text \<open>C23: Removing a block from a well formed node is always defined; it succeeds exactly for
  an instance in state preinit, says which of the other cases it met, leaves the node
  well formed, and changes nothing when it fails.\<close>

theorem rm_total:
  assumes "wf_node w"
  shows "\<exists>r w'. ubx_block_rm w nm = Some (r, w') \<and> wf_node w' \<and> (r \<noteq> 0 \<longrightarrow> w' = w)
    \<and> (r = 0 \<longleftrightarrow> (\<exists>a blk. ubx_block_get w nm = Some a \<and> heap w a = Some blk \<and> prototype blk \<noteq> None
                   \<and> block_state blk = BLOCK_STATE_PREINIT))
    \<and> (r = 0 \<longrightarrow> ubx_block_get w' nm = None \<and> ubx_num_blocks w = Suc (ubx_num_blocks w'))
    \<and> (r = ENOSUCHBLOCK \<longleftrightarrow> ubx_block_get w nm = None)"
proof -
  have "ubx_block_rm w nm \<noteq> None"
  proof (cases "ubx_block_get w nm")
    case None
    then show ?thesis by (simp add: ubx_block_rm_def)
  next
    case (Some a)
    obtain blk where "heap w a = Some blk" using wf_node_get [OF assms Some] by blast
    with Some show ?thesis
      by (simp add: ubx_block_rm_def ubx_block_unregister_def ubx_block_free_def ubx_block_get_def)
  qed
  then obtain r w' where rm: "ubx_block_rm w nm = Some (r, w')" by auto
  note wf' = rm_wf [OF assms rm]
  show ?thesis
    using assms rm
  proof (cases rule: rm_cases)
    case (removed a blk)
    have ok: "hash_ok (blocks w)" by (rule wf_nodeD(1) [OF assms])
    have "ubx_block_get w' nm = None" by (simp add: removed(6) ubx_block_get_def ht.find_del [OF ok])
    moreover have "ubx_num_blocks w = Suc (ubx_num_blocks w')"
      using removed(2) by (simp add: removed(6) ubx_num_blocks_def ubx_block_get_def ht.cnt_del [OF ok])
    ultimately show ?thesis using rm wf' removed by (auto simp: err_defs)
  qed (use rm wf' in \<open>auto simp: err_defs\<close>)
qed

theorem rm_total_witness:
  "\<exists>w'. ubx_block_rm (ex_world []) ''pid1'' = Some (-1, w')"
proof -
  have "ubx_block_get (ex_world []) ''pid1'' = Some 1"
    "heap (ex_world []) 1 = Some (ex_block ''pid1'' (Some ''pid'') BLOCK_STATE_INACTIVE)"
    by (simp_all add: ex_world_def ubx_block_get_def hash_find_def)
  then have "ubx_block_rm (ex_world []) ''pid1'' = Some (-1, ex_world [])"
    by (simp add: ubx_block_rm_def ex_block_def state_defs)
  with rm_total [OF ex_wf_node, of "[]" "''pid1''"] show ?thesis by auto
qed

end
