(* ===== verification/UbxPorts.thy ===== *)
theory UbxPorts
  imports UbxBlock
begin

text \<open>
  Finding, adding and removing the configs and the ports of a block
  (\<open>src/src/ubx.c\<close>). A pointer to an entry is the block's address with the index of the
  entry; the first entry with the name is the one that is found. Entry counts are
  natural numbers: an array never has \<open>2 ^ 31\<close> entries.
\<close>

subsection \<open>Entries by name\<close>

fun name_index :: "('e \<Rightarrow> string) \<Rightarrow> string \<Rightarrow> 'e list \<Rightarrow> nat option" where
  "name_index key n [] = None"
| "name_index key n (x # xs) = (if key x = n then Some 0 else map_option Suc (name_index key n xs))"

lemma name_index_Some:
  "name_index key n xs = Some i \<Longrightarrow> i < length xs \<and> key (xs ! i) = n \<and> (\<forall>j < i. key (xs ! j) \<noteq> n)"
proof (induction xs arbitrary: i)
  case (Cons x xs)
  then show ?case
    by (cases i) (auto simp: less_Suc_eq_0_disj split: if_splits)
qed simp

lemma name_index_None: "name_index key n xs = None \<longleftrightarrow> n \<notin> key ` set xs"
  by (induction xs) auto

lemma name_index_append:
  "name_index key n (xs @ ys) = (case name_index key n xs of
     Some i \<Rightarrow> Some i | None \<Rightarrow> map_option (\<lambda>i. length xs + i) (name_index key n ys))"
proof (induction xs)
  case Nil
  show ?case by (cases "name_index key n ys") simp_all
next
  case (Cons x xs)
  then show ?case by (cases "name_index key n ys") (auto split: option.splits)
qed

text \<open>An entry is found under its name in a list of distinct names, wherever it stands.\<close>

lemma name_index_distinct:
  assumes "distinct (map key xs)" "x \<in> set xs"
  shows "\<exists>i. name_index key (key x) xs = Some i \<and> xs ! i = x"
proof -
  have "name_index key (key x) xs \<noteq> None" using assms(2) by (auto simp: name_index_None)
  then obtain i where i: "name_index key (key x) xs = Some i" by auto
  obtain j where j: "j < length xs" "xs ! j = x" using assms(2) by (auto simp: in_set_conv_nth)
  have "i < length xs" "key (xs ! i) = key (xs ! j)" using name_index_Some [OF i] j by auto
  then have "i = j" using nth_eq_iff_index_eq [OF assms(1)] j(1) by simp
  with i j show ?thesis by blast
qed

lemma swap_remove_last: "length xs = i \<Longrightarrow> swap_remove i (xs @ [x]) = xs"
  by (simp add: swap_remove_def)

lemma distinct_swap_remove:
  assumes "i < length xs" "distinct (map key xs)"
  shows "distinct (map key (swap_remove i xs))"
proof -
  have d: "distinct xs" using assms(2) by (simp add: distinct_map)
  have "mset (swap_remove i xs) = mset (remove1 (xs ! i) xs)"
    using assms(1) by (simp add: mset_swap_remove)
  then have "distinct (map key (swap_remove i xs)) = distinct (map key (remove1 (xs ! i) xs))"
    by (intro mset_eq_imp_distinct_iff) (simp only: mset_map)
  also have "\<dots>" using assms(2) d by (auto simp: distinct_map distinct_remove1 inj_on_def set_remove1_eq)
  finally show ?thesis .
qed

text \<open>Removing the entry found under a name leaves the others.\<close>

lemma name_index_swap_remove:
  assumes "distinct (map key xs)" "name_index key n xs = Some i"
  shows "name_index key n (swap_remove i xs) = None"
    and "m \<noteq> n \<Longrightarrow> map_option ((!) (swap_remove i xs)) (name_index key m (swap_remove i xs))
           = map_option ((!) xs) (name_index key m xs)"
proof -
  note i = name_index_Some [OF assms(2)]
  have d: "distinct xs" using assms(1) by (simp add: distinct_map)
  have set: "set (swap_remove i xs) = set xs - {xs ! i}"
    using i d by (simp add: set_swap_remove_distinct)
  have d': "distinct (map key (swap_remove i xs))" using i assms(1) by (simp add: distinct_swap_remove)
  show "name_index key n (swap_remove i xs) = None"
    unfolding name_index_None set
    using i assms(1) by (auto simp: distinct_map inj_on_def)
  show "map_option ((!) (swap_remove i xs)) (name_index key m (swap_remove i xs))
      = map_option ((!) xs) (name_index key m xs)" if "m \<noteq> n"
  proof (cases "\<exists>x \<in> set xs. key x = m")
    case True
    then obtain x where x: "x \<in> set xs" "key x = m" by blast
    with that i have "x \<in> set (swap_remove i xs)" by (auto simp: set)
    from name_index_distinct [OF d' this] name_index_distinct [OF assms(1) x(1)] x(2)
    show ?thesis by auto
  next
    case False
    then have "name_index key m xs = None" "name_index key m (swap_remove i xs) = None"
      by (auto simp: name_index_None set)
    then show ?thesis by simp
  qed
qed

subsection \<open>Configs\<close>

definition get_num_configs :: "'p ubx_block \<Rightarrow> nat" where
  "get_num_configs b = (case configs b of None \<Rightarrow> 0 | Some cs \<Rightarrow> length cs)"

definition ubx_config_get ::
    "'p world \<Rightarrow> addr option \<Rightarrow> string option \<Rightarrow> (addr \<times> nat) option option" where
  "ubx_config_get w b name =
     (case b of None \<Rightarrow> Some None
      | Some a \<Rightarrow> do {
          blk \<leftarrow> heap w a;
          (case (configs blk, name) of
             (Some cs, Some n) \<Rightarrow> Some (map_option (Pair a) (name_index c_name n cs))
           | _ \<Rightarrow> Some None) })"

text \<open>What a pointer to a config points to.\<close>

definition config_at :: "'p world \<Rightarrow> addr \<times> nat \<Rightarrow> ubx_config option" where
  "config_at w p = do {
     blk \<leftarrow> heap w (fst p);
     cs \<leftarrow> configs blk;
     guard (snd p < length cs);
     Some (cs ! snd p) }"

definition ubx_config_get_data ::
    "'p world \<Rightarrow> addr option \<Rightarrow> string option \<Rightarrow> (addr \<times> nat) option option" where
  "ubx_config_get_data w b name =
     (if b = None then Some None else ubx_config_get w b name)"

definition ubx_config_get_data_ptr ::
    "'p world \<Rightarrow> addr option \<Rightarrow> string option \<Rightarrow> (cbuf \<times> u32) option" where
  "ubx_config_get_data_ptr w b name =
     (if b = None then Some (BNull, 0)
      else do {
        d \<leftarrow> ubx_config_get_data w b name;
        (case d of None \<Rightarrow> Some (BNull, 0)
         | Some p \<Rightarrow> do {
             c \<leftarrow> config_at w p;
             Some (d_data (c_value c), ucast (d_len (c_value c))) }) })"

text \<open>A block that is not registered has no node to look the type up in. The array is
  grown before the entry is filled, and ends before it when that fails.\<close>

definition ubx_config_add ::
    "'p world \<Rightarrow> addr option \<Rightarrow> string option \<Rightarrow> string option \<Rightarrow> string \<Rightarrow> u64 \<Rightarrow> (int \<times> 'p world) option" where
  "ubx_config_add w b name meta type_name len =
     (case b of None \<Rightarrow> Some (-1, w)
      | Some a \<Rightarrow> do {
          blk \<leftarrow> heap w a;
          guard (b_ni blk);
          (case ubx_type_get w type_name of
             None \<Rightarrow> Some (-1, w)
           | Some typ \<Rightarrow>
               if \<not> alloc_ok w then Some (-1, alloc_step w)
               else do {
                 let old = (case configs blk of None \<Rightarrow> [] | Some cs \<Rightarrow> cs);
                 n \<leftarrow> name;
                 (ret, slot, w) \<leftarrow> ubx_clone_config_data (alloc_step w) n meta (Some typ) len;
                 Some (ret, upd_block w a (\<lambda>bk. bk\<lparr>configs := Some (old @ slot_list slot)\<rparr>)) }) })"

text \<open>Freeing a config's buffer a second time is undefined.\<close>

definition ubx_config_rm :: "'p world \<Rightarrow> addr option \<Rightarrow> string \<Rightarrow> (int \<times> 'p world) option" where
  "ubx_config_rm w b name =
     (case b of None \<Rightarrow> Some (-1, w)
      | Some a \<Rightarrow> do {
          blk \<leftarrow> heap w a;
          if prototype blk = None then Some (-1, w)
          else case configs blk of
            None \<Rightarrow> Some (-1, w)
          | Some cs \<Rightarrow> (case name_index c_name name cs of
              None \<Rightarrow> Some (-1, w)
            | Some i \<Rightarrow> do {
                guard (d_data (c_value (cs ! i)) \<noteq> BFreed);
                Some (0, upd_block w a (\<lambda>bk. bk\<lparr>configs := Some (swap_remove i cs)\<rparr>)) }) })"

subsection \<open>Ports\<close>

definition get_num_ports :: "'p ubx_block \<Rightarrow> nat" where
  "get_num_ports b = (case ports b of None \<Rightarrow> 0 | Some ps \<Rightarrow> length ps)"

text \<open>A type that is named must be registered; one that is not named is absent.\<close>

definition named_type :: "'p world \<Rightarrow> string option \<Rightarrow> addr option option" where
  "named_type w n = (case n of None \<Rightarrow> Some None | Some n \<Rightarrow> map_option Some (ubx_type_get w n))"

text \<open>The \<open>block\<close> field of the new entry is set before the entry is filled, and
  cleared with it: \<open>ubx_clone_port_data\<close> starts with a \<open>memset\<close>.\<close>

definition ubx_port_add ::
    "'p world \<Rightarrow> addr option \<Rightarrow> string option \<Rightarrow> string option \<Rightarrow> string option \<Rightarrow> u64
     \<Rightarrow> string option \<Rightarrow> u64 \<Rightarrow> u32 \<Rightarrow> (int \<times> 'p world) option" where
  "ubx_port_add w b name doc itn in_len otn out_len st =
     (case b of None \<Rightarrow> Some (-1, w)
      | Some a \<Rightarrow> do {
          blk \<leftarrow> heap w a;
          if prototype blk = None then Some (-1, w)
          else do {
            guard (b_ni blk \<or> itn = None \<and> otn = None);
            (case (named_type w itn, named_type w otn) of
               (Some ity, Some oty) \<Rightarrow>
                 if \<not> alloc_ok w then Some (-1, alloc_step w)
                 else do {
                   let old = (case ports blk of None \<Rightarrow> [] | Some ps \<Rightarrow> ps);
                   (ret, slot, w) \<leftarrow> ubx_clone_port_data (alloc_step w) name doc ity in_len oty out_len st;
                   Some (ret, upd_block w a (\<lambda>bk. bk\<lparr>ports := Some (old @ slot_list slot)\<rparr>)) }
             | _ \<Rightarrow> Some (-1, w)) } })"

definition ubx_port_rm :: "'p world \<Rightarrow> addr option \<Rightarrow> string \<Rightarrow> (int \<times> 'p world) option" where
  "ubx_port_rm w b name =
     (case b of None \<Rightarrow> Some (-1, w)
      | Some a \<Rightarrow> do {
          blk \<leftarrow> heap w a;
          if prototype blk = None then Some (-1, w)
          else case ports blk of
            None \<Rightarrow> Some (-1, w)
          | Some ps \<Rightarrow> (case name_index p_name name ps of
              None \<Rightarrow> Some (-1, w)
            | Some i \<Rightarrow> Some (0, upd_block w a (\<lambda>bk. bk\<lparr>ports := Some (swap_remove i ps)\<rparr>))) })"

definition ubx_port_get ::
    "'p world \<Rightarrow> addr option \<Rightarrow> string option \<Rightarrow> (addr \<times> nat) option option" where
  "ubx_port_get w b name =
     (case (b, name) of
        (Some a, Some n) \<Rightarrow> do {
          blk \<leftarrow> heap w a;
          (case ports blk of
             None \<Rightarrow> Some None
           | Some ps \<Rightarrow> Some (map_option (Pair a) (name_index p_name n ps))) }
      | _ \<Rightarrow> Some None)"

definition port_at :: "'p world \<Rightarrow> addr \<times> nat \<Rightarrow> ubx_port option" where
  "port_at w p = do {
     blk \<leftarrow> heap w (fst p);
     ps \<leftarrow> ports blk;
     guard (snd p < length ps);
     Some (ps ! snd p) }"

subsection \<open>What adding and removing do\<close>

lemma clone_of_step [simp]:
  "config_clone_of (alloc_step w) = config_clone_of w" "port_clone_of (alloc_step w) = port_clone_of w"
  by simp_all

text \<open>Every outcome of adding a config: refused, out of memory, or appended.\<close>

lemma config_add_cases:
  assumes "ubx_config_add w (Some a) (Some n) meta ty len = Some (r, w')"
  obtains (refused) "r = -1" "w' = w \<or> w' = alloc_step w" "ubx_type_get w ty = None \<or> \<not> alloc_ok w"
  | (nomem) blk w1 where "r = -1" "heap w a = Some blk" "mem_only w w1"
      "w' = upd_block w1 a (\<lambda>bk. bk\<lparr>configs := Some (case configs blk of None \<Rightarrow> [] | Some cs \<Rightarrow> cs)\<rparr>)"
  | (added) blk w1 t c where "r = 0" "heap w a = Some blk" "b_ni blk" "mem_only w w1"
      "ubx_type_get w ty = Some t" "c_name c = n" "c_doc c = meta" "c_attrs c = 0"
      "d_type (c_value c) = Some t" "d_len (c_value c) = (if len = 0 then 1 else len)"
      "d_data (c_value c) \<noteq> BFreed"
      "w' = upd_block w1 a (\<lambda>bk. bk\<lparr>configs := Some ((case configs blk of None \<Rightarrow> [] | Some cs \<Rightarrow> cs) @ [c])\<rparr>)"
proof -
  obtain blk where blk: "heap w a = Some blk" "b_ni blk"
    using assms by (auto simp: ubx_config_add_def)
  show ?thesis
  proof (cases "ubx_type_get w ty = None \<or> \<not> alloc_ok w")
    case True
    with assms blk have "r = -1 \<and> (w' = w \<or> w' = alloc_step w)"
      by (auto simp: ubx_config_add_def split: option.splits)
    with True show ?thesis by (intro refused) simp_all
  next
    case False
    then obtain t where t: "ubx_type_get w ty = Some t" "alloc_ok w" by auto
    with assms blk obtain slot w1 where
      cl: "ubx_clone_config_data (alloc_step w) n meta (Some t) len = Some (r, slot, w1)"
      and w': "w' = upd_block w1 a (\<lambda>bk. bk\<lparr>configs :=
                 Some ((case configs blk of None \<Rightarrow> [] | Some cs \<Rightarrow> cs) @ slot_list slot)\<rparr>)"
      by (auto simp: ubx_config_add_def Let_def)
    define c0 where "c0 = \<lparr>c_name = n, c_doc = meta, c_type_name = [], c_attrs = 0,
       c_value = \<lparr>d_type = Some t, d_len = len, d_data = BNull\<rparr>\<rparr>"
    have "post (ubx_clone_config_data (alloc_step w) n meta (Some t) len)
      (\<lambda>(r, slot, w'). mem_only (alloc_step w) w' \<and>
        (r = 0 \<and> (\<exists>d. slot = Some d \<and> config_clone_of (alloc_step w) c0 d) \<or> r = -1 \<and> slot = None))"
      using clone_config_data_spec [of "alloc_step w" c0] by (simp add: c0_def)
    from postD [OF this cl]
    consider d where "r = 0" "slot = Some d" "config_clone_of w c0 d" "mem_only w w1"
      | "r = -1" "slot = None" "mem_only w w1"
      by (auto intro: mem_only_trans [OF mem_only_step])
    then show ?thesis
    proof cases
      case (1 d)
      with blk t w' show ?thesis
        by (intro added [of blk w1 t d]) (auto simp: config_clone_of_def c0_def)
    next
      case 2
      with blk w' show ?thesis by (intro nomem [of blk w1]) simp_all
    qed
  qed
qed

lemma named_type_absent: "named_type w n = Some t \<Longrightarrow> t \<noteq> None \<longleftrightarrow> n \<noteq> None"
  by (cases n) (auto simp: named_type_def)

lemma port_add_cases:
  assumes "ubx_port_add w (Some a) (Some n) doc ity ilen oty olen st = Some (r, w')"
  obtains (refused) "r = -1" "w' = w \<or> w' = alloc_step w"
  | (nomem) blk w1 where "r = EOUTOFMEM" "heap w a = Some blk" "mem_only w w1"
      "w' = upd_block w1 a (\<lambda>bk. bk\<lparr>ports := Some (case ports blk of None \<Rightarrow> [] | Some ps \<Rightarrow> ps)\<rparr>)"
  | (added) blk w1 p where "r = 0" "heap w a = Some blk" "prototype blk \<noteq> None" "mem_only w w1"
      "p_name p = n" "p_doc p = doc" "p_state p = st"
      "named_type w ity = Some (in_type p)" "named_type w oty = Some (out_type p)"
      "p_attrs p = (if ity \<noteq> None then PORT_DIR_IN else 0) OR (if oty \<noteq> None then PORT_DIR_OUT else 0)"
      "in_interaction p = None" "out_interaction p = None" "p_block p = None"
      "w' = upd_block w1 a (\<lambda>bk. bk\<lparr>ports := Some ((case ports blk of None \<Rightarrow> [] | Some ps \<Rightarrow> ps) @ [p])\<rparr>)"
proof -
  obtain blk where blk: "heap w a = Some blk"
    using assms by (auto simp: ubx_port_add_def)
  show ?thesis
  proof (cases "prototype blk = None \<or> named_type w ity = None \<or> named_type w oty = None \<or> \<not> alloc_ok w")
    case True
    with assms blk have "r = -1 \<and> (w' = w \<or> w' = alloc_step w)"
      by (auto simp: ubx_port_add_def split: if_splits option.splits)
    then show ?thesis by (intro refused) simp_all
  next
    case False
    then obtain i t where t: "named_type w ity = Some i" "named_type w oty = Some t" "alloc_ok w"
      "prototype blk \<noteq> None" by auto
    with assms blk obtain slot w1 where
      cl: "ubx_clone_port_data (alloc_step w) (Some n) doc i ilen t olen st = Some (r, slot, w1)"
      and w': "w' = upd_block w1 a (\<lambda>bk. bk\<lparr>ports :=
                 Some ((case ports blk of None \<Rightarrow> [] | Some cs \<Rightarrow> cs) @ slot_list slot)\<rparr>)"
      by (auto simp: ubx_port_add_def Let_def)
    define p0 where "p0 = \<lparr>p_name = n, p_doc = doc, p_attrs = 0, p_state = st, in_type_name = None,
       out_type_name = None, in_type = i, out_type = t, in_data_len = ilen, out_data_len = olen,
       in_interaction = None, out_interaction = None, stat_writes = 0, stat_reades = 0, p_block = None\<rparr>"
    have "post (ubx_clone_port_data (alloc_step w) (Some n) doc i ilen t olen st)
      (\<lambda>(r, slot, w'). mem_only (alloc_step w) w' \<and>
        (r = 0 \<and> (\<exists>q. slot = Some q \<and> port_clone_of (alloc_step w) p0 q \<and> p_block q = None)
         \<or> r = EOUTOFMEM \<and> slot = None))"
      using clone_port_data_spec [of "alloc_step w" p0] by (simp add: p0_def)
    from postD [OF this cl]
    consider q where "r = 0" "slot = Some q" "port_clone_of w p0 q" "p_block q = None" "mem_only w w1"
      | "r = EOUTOFMEM" "slot = None" "mem_only w w1"
      by (auto intro: mem_only_trans [OF mem_only_step])
    then show ?thesis
    proof cases
      case (1 q)
      have "i \<noteq> None \<longleftrightarrow> ity \<noteq> None" "t \<noteq> None \<longleftrightarrow> oty \<noteq> None"
        using named_type_absent [OF t(1)] named_type_absent [OF t(2)] .
      with 1 blk t w' show ?thesis
        by (intro added [of blk w1 q]) (simp_all add: port_clone_of_def p0_def)
    next
      case 2
      with blk w' show ?thesis by (intro nomem [of blk w1]) simp_all
    qed
  qed
qed

definition config_list :: "'p ubx_block \<Rightarrow> ubx_config list" where
  "config_list b = (case configs b of None \<Rightarrow> [] | Some cs \<Rightarrow> cs)"

definition port_list :: "'p ubx_block \<Rightarrow> ubx_port list" where
  "port_list b = (case ports b of None \<Rightarrow> [] | Some ps \<Rightarrow> ps)"

text \<open>Looking up a config or a port is looking its name up in the list.\<close>

lemma config_get_list:
  "heap w a = Some blk \<Longrightarrow>
   ubx_config_get w (Some a) (Some n) = Some (map_option (Pair a) (name_index c_name n (config_list blk)))"
  by (simp add: ubx_config_get_def config_list_def split: option.splits)

lemma port_get_list:
  "heap w a = Some blk \<Longrightarrow>
   ubx_port_get w (Some a) (Some n) = Some (map_option (Pair a) (name_index p_name n (port_list blk)))"
  by (simp add: ubx_port_get_def port_list_def split: option.splits)

lemma config_at_list:
  "heap w a = Some blk \<Longrightarrow> i < length (config_list blk) \<Longrightarrow> config_at w (a, i) = Some (config_list blk ! i)"
  by (auto simp: config_at_def config_list_def split: option.splits)

lemma port_at_list:
  "heap w a = Some blk \<Longrightarrow> i < length (port_list blk) \<Longrightarrow> port_at w (a, i) = Some (port_list blk ! i)"
  by (auto simp: port_at_def port_list_def split: option.splits)

text \<open>The named entry itself.\<close>

definition config_named :: "'p world \<Rightarrow> addr \<Rightarrow> string \<Rightarrow> ubx_config option" where
  "config_named w a n = do { p \<leftarrow> ubx_config_get w (Some a) (Some n); q \<leftarrow> p; config_at w q }"

definition port_named :: "'p world \<Rightarrow> addr \<Rightarrow> string \<Rightarrow> ubx_port option" where
  "port_named w a n = do { p \<leftarrow> ubx_port_get w (Some a) (Some n); q \<leftarrow> p; port_at w q }"

lemma config_named_list:
  assumes "heap w a = Some blk"
  shows "config_named w a n = map_option ((!) (config_list blk)) (name_index c_name n (config_list blk))"
  using config_at_list [OF assms] name_index_Some [of c_name n "config_list blk"]
  by (cases "name_index c_name n (config_list blk)") (simp_all add: config_named_def config_get_list [OF assms])

lemma port_named_list:
  assumes "heap w a = Some blk"
  shows "port_named w a n = map_option ((!) (port_list blk)) (name_index p_name n (port_list blk))"
  using port_at_list [OF assms] name_index_Some [of p_name n "port_list blk"]
  by (cases "name_index p_name n (port_list blk)") (simp_all add: port_named_def port_get_list [OF assms])

lemma nth_name_index_append:
  "map_option ((!) (xs @ [x])) (name_index key n (xs @ [x])) =
     (case map_option ((!) xs) (name_index key n xs) of
        Some y \<Rightarrow> Some y | None \<Rightarrow> if key x = n then Some x else None)"
  using name_index_Some [of key n xs]
  by (auto simp: name_index_append nth_append split: option.splits)

lemma config_rm_done:
  assumes "heap w a = Some blk" "prototype blk \<noteq> None" "name_index c_name n (config_list blk) = Some i"
    "d_data (c_value (config_list blk ! i)) \<noteq> BFreed"
  shows "ubx_config_rm w (Some a) n
    = Some (0, upd_block w a (\<lambda>bk. bk\<lparr>configs := Some (swap_remove i (config_list blk))\<rparr>))"
proof -
  obtain cs where "configs blk = Some cs" using assms(3) by (auto simp: config_list_def split: option.splits)
  with assms show ?thesis by (auto simp: ubx_config_rm_def config_list_def)
qed

lemma port_rm_done:
  assumes "ubx_port_rm w (Some a) n = Some (0, w')"
  obtains blk i where "heap w a = Some blk" "prototype blk \<noteq> None"
    "name_index p_name n (port_list blk) = Some i"
    "w' = upd_block w a (\<lambda>bk. bk\<lparr>ports := Some (swap_remove i (port_list blk))\<rparr>)"
  using assms by (auto simp: ubx_port_rm_def port_list_def split: if_splits option.splits)

subsection \<open>Properties of configs and ports\<close>

text \<open>A config that is added is found under its name from then on, holds a value of the
  requested type and length, and does not change what any other name finds; a name that
  was there already keeps finding the older entry.\<close>

lemma config_add_find:
  assumes "ubx_config_add w (Some a) (Some n) meta ty len = Some (0, w')"
  shows "\<exists>c. c_name c = n \<and> d_type (c_value c) = ubx_type_get w ty
      \<and> d_len (c_value c) = (if len = 0 then 1 else len)
      \<and> config_named w' a n = (if config_named w a n = None then Some c else config_named w a n)
      \<and> (\<forall>m. m \<noteq> n \<longrightarrow> config_named w' a m = config_named w a m)"
  using assms
proof (cases rule: config_add_cases)
  case (added blk w1 t c)
  let ?blk' = "blk\<lparr>configs := Some (config_list blk @ [c])\<rparr>"
  have "heap w' a = Some ?blk'"
    using added by (simp add: heap_upd_block mem_only_sel config_list_def)
  moreover have "config_list ?blk' = config_list blk @ [c]" by (simp add: config_list_def)
  ultimately have new: "config_named w' a m = (case config_named w a m of
      Some y \<Rightarrow> Some y | None \<Rightarrow> if c_name c = m then Some c else None)" for m
    by (simp add: config_named_list [OF \<open>heap w' a = _\<close>] config_named_list [OF added(2)] nth_name_index_append)
  show ?thesis
    by (rule exI [of _ c]) (use added new in \<open>auto split: option.splits\<close>)
qed (simp_all add: err_defs)

text \<open>Adding a config under a new name to an instance and removing it again restores the
  list of configs, when the new buffer could be allocated or not.\<close>

lemma config_add_rm:
  assumes "ubx_config_add w (Some a) (Some n) meta ty len = Some (0, w1)"
    and "heap w a = Some blk" "prototype blk \<noteq> None" "config_named w a n = None"
  shows "\<exists>w2. ubx_config_rm w1 (Some a) n = Some (0, w2)
    \<and> map_option config_list (heap w2 a) = Some (config_list blk)
    \<and> (\<forall>b. b \<noteq> a \<longrightarrow> heap w2 b = heap w b)"
  using assms(1)
proof (cases rule: config_add_cases)
  case (added blk' w0 t c)
  have b: "blk' = blk" using added(2) assms(2) by simp
  let ?blk = "blk\<lparr>configs := Some (config_list blk @ [c])\<rparr>"
  have h: "heap w1 a = Some ?blk"
    using added by (simp add: heap_upd_block mem_only_sel config_list_def b)
  have l: "config_list ?blk = config_list blk @ [c]" by (simp add: config_list_def)
  have "name_index c_name n (config_list blk) = None"
    using assms(4) by (simp add: config_named_list [OF assms(2)])
  then have i: "name_index c_name n (config_list ?blk) = Some (length (config_list blk))"
    using added(6) unfolding l by (simp add: name_index_append)
  let ?w2 = "upd_block w1 a (\<lambda>bk. bk\<lparr>configs := Some (swap_remove (length (config_list blk)) (config_list ?blk))\<rparr>)"
  have "ubx_config_rm w1 (Some a) n = Some (0, ?w2)"
    by (rule config_rm_done [OF h _ i]) (use assms(3) added(11) l in simp_all)
  moreover have "heap ?w2 a = Some (blk\<lparr>configs := Some (config_list blk)\<rparr>)"
    by (simp add: heap_upd_block h l swap_remove_last)
  moreover have "heap ?w2 b = heap w b" if "b \<noteq> a" for b
    using that added by (simp add: heap_upd_block mem_only_sel)
  ultimately show ?thesis by (simp add: config_list_def)
qed (simp_all add: err_defs)

theorem config_add_find_witness:
  "\<exists>w1. ubx_config_add (ex_world []) (Some 1) (Some ''limit'') None ''double'' 3 = Some (0, w1)
    \<and> (\<exists>c. config_named w1 1 ''limit'' = Some c \<and> d_len (c_value c) = 3)
    \<and> config_named w1 1 ''gain'' = Some ex_config"
proof -
  have "\<exists>w1. ubx_config_add (ex_world []) (Some 1) (Some ''limit'') None ''double'' 3 = Some (0, w1)"
    by (simp add: ex_defs ubx_config_add_def ubx_clone_config_data_def c_malloc_def c_strdup_def
        ubx_type_get_def hash_find_def)
  then obtain w1 where w1: "ubx_config_add (ex_world []) (Some 1) (Some ''limit'') None ''double'' 3 = Some (0, w1)"
    by blast
  have "config_named (ex_world []) 1 ''limit'' = None" "config_named (ex_world []) 1 ''gain'' = Some ex_config"
    by (simp_all add: ex_defs config_named_def ubx_config_get_def config_at_def)
  with config_add_find [OF w1] w1 show ?thesis by auto
qed

text \<open>Removing a port from a block whose port names are distinct: the name is no longer
  found, every other port is found under its name with its contents unchanged, names stay
  distinct, and exactly one port is gone.\<close>

lemma port_rm_find:
  assumes "ubx_port_rm w (Some a) n = Some (0, w')" "heap w a = Some blk"
    and "distinct (map p_name (port_list blk))"
  shows "port_named w' a n = None
    \<and> (\<forall>m. m \<noteq> n \<longrightarrow> port_named w' a m = port_named w a m)
    \<and> (\<exists>blk'. heap w' a = Some blk' \<and> distinct (map p_name (port_list blk'))
         \<and> get_num_ports blk = Suc (get_num_ports blk'))"
proof -
  obtain i where i: "name_index p_name n (port_list blk) = Some i"
    and w': "w' = upd_block w a (\<lambda>bk. bk\<lparr>ports := Some (swap_remove i (port_list blk))\<rparr>)"
    using port_rm_done [OF assms(1)] assms(2) by (metis option.inject)
  let ?blk = "blk\<lparr>ports := Some (swap_remove i (port_list blk))\<rparr>"
  have h: "heap w' a = Some ?blk" using assms(2) by (simp add: w' heap_upd_block)
  have l: "port_list ?blk = swap_remove i (port_list blk)" by (simp add: port_list_def)
  have lt: "i < length (port_list blk)" using name_index_Some [OF i] by simp
  have num: "get_num_ports bk = length (port_list bk)" for bk :: "'a ubx_block"
    by (simp add: get_num_ports_def port_list_def split: option.splits)
  show ?thesis
    using name_index_swap_remove [OF assms(3) i] distinct_swap_remove [OF lt assms(3)] lt
    unfolding port_named_list [OF h] port_named_list [OF assms(2)] l
    by (simp add: h l num)
qed

text \<open>A port that is added can be found afterwards and has the direction, the types and
  the documentation asked for, but it does not know its block: the pointer that is set
  before the entry is filled is lost when the entry is cleared.\<close>

lemma port_add_find:
  assumes "ubx_port_add w (Some a) (Some n) doc ity ilen oty olen st = Some (0, w')"
    and "port_named w a n = None"
  shows "\<exists>p. port_named w' a n = Some p \<and> p_doc p = doc \<and> p_state p = st
    \<and> named_type w ity = Some (in_type p) \<and> named_type w oty = Some (out_type p)
    \<and> p_attrs p = (if ity \<noteq> None then PORT_DIR_IN else 0) OR (if oty \<noteq> None then PORT_DIR_OUT else 0)
    \<and> p_block p = None
    \<and> (\<forall>m. m \<noteq> n \<longrightarrow> port_named w' a m = port_named w a m)"
  using assms(1)
proof (cases rule: port_add_cases)
  case (added blk w1 p)
  let ?blk' = "blk\<lparr>ports := Some (port_list blk @ [p])\<rparr>"
  have h: "heap w' a = Some ?blk'"
    using added by (simp add: heap_upd_block mem_only_sel port_list_def)
  moreover have "port_list ?blk' = port_list blk @ [p]" by (simp add: port_list_def)
  ultimately have new: "port_named w' a m = (case port_named w a m of
      Some y \<Rightarrow> Some y | None \<Rightarrow> if p_name p = m then Some p else None)" for m
    by (simp add: port_named_list [OF h] port_named_list [OF added(2)] nth_name_index_append)
  show ?thesis
    by (rule exI [of _ p]) (use added assms(2) new in \<open>auto split: option.splits\<close>)
qed (simp_all add: err_defs)

end
