(* ===== verification/UbxLife.thy ===== *)
theory UbxLife
  imports UbxPorts
begin

text \<open>
  The life cycle of a block (\<open>src/src/ubx.c\<close>): the five operations on its state, the
  hooks they call, and the type check of the typed accessors. A block's hooks are
  function pointers, numbers here, which a record of functions gives a meaning; \<open>block_hooks\<close>
  is what the framework relies on when it calls one. The automaton \<open>life_next\<close> is the
  specification the operations implement.
\<close>

subsection \<open>Hooks\<close>

text \<open>
  A hook works on the whole state. Those with a result return it, the read hook with the
  data object it was handed; \<open>None\<close> is a hook that does not return (or one whose
  behaviour is undefined).
\<close>

record 'p hooks =
  h_init :: "fid \<Rightarrow> addr \<Rightarrow> 'p world \<Rightarrow> (int \<times> 'p world) option"
  h_start :: "fid \<Rightarrow> addr \<Rightarrow> 'p world \<Rightarrow> (int \<times> 'p world) option"
  h_stop :: "fid \<Rightarrow> addr \<Rightarrow> 'p world \<Rightarrow> 'p world option"
  h_cleanup :: "fid \<Rightarrow> addr \<Rightarrow> 'p world \<Rightarrow> 'p world option"
  h_step :: "fid \<Rightarrow> addr \<Rightarrow> 'p world \<Rightarrow> 'p world option"
  h_read :: "fid \<Rightarrow> addr \<Rightarrow> ubx_data \<Rightarrow> 'p world \<Rightarrow> (int \<times> ubx_data \<times> 'p world) option"
  h_write :: "fid \<Rightarrow> addr \<Rightarrow> ubx_data \<Rightarrow> 'p world \<Rightarrow> (ubx_data \<times> 'p world) option"

text \<open>What no hook may do to a block: change its name, type, state, registration or hooks,
  or free it. Its data, ports, configs and counters it may change.\<close>

definition same_control :: "'p ubx_block \<Rightarrow> 'p ubx_block \<Rightarrow> bool" where
  "same_control b b' \<longleftrightarrow>
     b_name b' = b_name b \<and> b_type b' = b_type b \<and> b_ni b' = b_ni b
     \<and> block_state b' = block_state b \<and> prototype b' = prototype b
     \<and> b_init b' = b_init b \<and> b_start b' = b_start b \<and> b_stop b' = b_stop b
     \<and> b_cleanup b' = b_cleanup b \<and> b_step b' = b_step b \<and> b_read b' = b_read b \<and> b_write b' = b_write b"

lemma same_control_refl [simp, intro!]: "same_control b b"
  by (simp add: same_control_def)

lemma same_control_trans: "same_control b c \<Longrightarrow> same_control c d \<Longrightarrow> same_control b d"
  by (simp add: same_control_def)

definition hook_frame :: "'p world \<Rightarrow> 'p world \<Rightarrow> bool" where
  "hook_frame w w' \<longleftrightarrow>
     node_name w' = node_name w \<and> blocks w' = blocks w \<and> types w' = types w \<and> modules w' = modules w
     \<and> next_addr w \<le> next_addr w' \<and> (\<forall>a. rel_option same_control (heap w a) (heap w' a))"

lemma hook_frame_refl [simp, intro!]: "hook_frame w w"
  by (auto simp: hook_frame_def intro: option.rel_refl_strong)

lemma hook_frame_trans: "hook_frame w w1 \<Longrightarrow> hook_frame w1 w2 \<Longrightarrow> hook_frame w w2"
proof -
  assume *: "hook_frame w w1" "hook_frame w1 w2"
  have "rel_option same_control (heap w a) (heap w2 a)" for a
  proof -
    have "rel_option same_control (heap w a) (heap w1 a)" "rel_option same_control (heap w1 a) (heap w2 a)"
      using * by (auto simp: hook_frame_def)
    then show ?thesis
      by (cases "heap w a"; cases "heap w1 a"; cases "heap w2 a") (auto intro: same_control_trans)
  qed
  with * show ?thesis by (auto simp: hook_frame_def)
qed

lemma hook_frame_heap:
  assumes "hook_frame w w'" "heap w a = Some blk"
  obtains blk' where "heap w' a = Some blk'" "same_control blk blk'"
  using assms unfolding hook_frame_def by (metis option.rel_cases option.distinct(1) option.inject)

lemma hook_frame_upd:
  assumes "\<And>b. heap w a = Some b \<Longrightarrow> same_control b (f b)"
  shows "hook_frame w (upd_block w a f)"
  using assms unfolding hook_frame_def
  by (auto simp: heap_upd_block intro!: option.rel_refl_strong) (cases "heap w a"; simp)

lemma hook_frame_mem: "hook_frame w w' \<Longrightarrow> hook_frame w (alloc_step w')"
  by (simp add: hook_frame_def)

lemma hook_frame_back:
  assumes "hook_frame w w'" "heap w' a = Some blk'"
  obtains blk where "heap w a = Some blk" "same_control blk blk'"
proof -
  have "rel_option same_control (heap w a) (heap w' a)" using assms(1) by (simp add: hook_frame_def)
  with assms(2) that show ?thesis by (cases "heap w a") auto
qed

lemma hook_frame_wf:
  assumes "wf_node w" "hook_frame w w'"
  shows "wf_node w'"
proof (rule wf_nodeI)
  fix n a
  assume "(n, a) \<in> set (blocks w')"
  then have "entry_ok w n a" using wf_nodeD(2) [OF assms(1)] assms(2) by (simp add: hook_frame_def)
  then obtain blk where blk: "heap w a = Some blk" "b_name blk = n" "b_ni blk"
    "b_type blk \<in> {BLOCK_TYPE_COMPUTATION, BLOCK_TYPE_INTERACTION}" by (rule entry_okE)
  from hook_frame_heap [OF assms(2) blk(1)] obtain blk' where "heap w' a = Some blk'" "same_control blk blk'" .
  with blk show "entry_ok w' n a" by (simp add: entry_ok_def same_control_def)
next
  fix a blk
  assume "heap w' a = Some blk"
  from hook_frame_back [OF assms(2) this] obtain b where "heap w a = Some b" .
  then have "a < next_addr w" by (rule wf_nodeD(3) [OF assms(1)])
  with assms(2) show "a < next_addr w'" by (simp add: hook_frame_def)
qed (use assms wf_nodeD(1) in \<open>simp add: hook_frame_def\<close>)

locale block_hooks =
  fixes H :: "'p hooks"
  assumes init_frame: "h_init H f a w = Some (r, w') \<Longrightarrow> hook_frame w w'"
    and start_frame: "h_start H f a w = Some (r, w') \<Longrightarrow> hook_frame w w'"
    and stop_frame: "h_stop H f a w = Some w' \<Longrightarrow> hook_frame w w'"
    and cleanup_frame: "h_cleanup H f a w = Some w' \<Longrightarrow> hook_frame w w'"
    and step_frame: "h_step H f a w = Some w' \<Longrightarrow> hook_frame w w'"
    and read_frame: "h_read H f a d w = Some (r, d', w') \<Longrightarrow> hook_frame w w'"
    and write_frame: "h_write H f a d w = Some (d', w') \<Longrightarrow> hook_frame w w'"

subsection \<open>Printing a state\<close>

text \<open>The bound is the size in bytes of an array of three pointers; the comparison is
  unsigned. An index between the two is out of bounds.\<close>

definition block_states :: "string list" where
  "block_states = [''preinit'', ''inactive'', ''active'']"

definition block_state_tostr :: "int \<Rightarrow> string option" where
  "block_state_tostr st =
     (if 24 \<le> unat (word_of_int st :: u64) then Some ''invalid''
      else if unat (word_of_int st :: u64) < length block_states
           then Some (block_states ! unat (word_of_int st :: u64)) else None)"

subsection \<open>The type check of the typed accessors\<close>

text \<open>\<open>registered\<close> says whether the block has a node; the node is used before it is
  checked. A failed assertion ends the program.\<close>

definition checktype ::
    "'p world \<Rightarrow> bool \<Rightarrow> addr option \<Rightarrow> string option \<Rightarrow> string option \<Rightarrow> int option" where
  "checktype w registered required tcheck_str portname = do {
     guard registered;
     n \<leftarrow> tcheck_str;
     let tcheck = ubx_type_get w n;
     r \<leftarrow> required;
     pn \<leftarrow> portname;
     if Some r \<noteq> tcheck then do { ty \<leftarrow> theap w r; Some (-1) } else Some 0 }"

subsection \<open>The operations\<close>

definition ubx_block_init :: "'p hooks \<Rightarrow> addr option \<Rightarrow> 'p world \<Rightarrow> (int \<times> 'p world) option" where
  "ubx_block_init H b w =
     (case b of None \<Rightarrow> Some (-1, w)
      | Some a \<Rightarrow> do {
          blk \<leftarrow> heap w a;
          if block_state blk \<noteq> BLOCK_STATE_PREINIT
          then do { _ \<leftarrow> block_state_tostr (block_state blk); Some (-1, w) }
          else do {
            (r, w) \<leftarrow> (case b_init blk of None \<Rightarrow> Some (0, w) | Some f \<Rightarrow> h_init H f a w);
            if r \<noteq> 0 then Some (-1, w)
            else do {
              _ \<leftarrow> heap w a;
              Some (0, upd_block w a (\<lambda>b. b\<lparr>block_state := BLOCK_STATE_INACTIVE\<rparr>)) } } })"

definition ubx_block_start :: "'p hooks \<Rightarrow> addr option \<Rightarrow> 'p world \<Rightarrow> (int \<times> 'p world) option" where
  "ubx_block_start H b w =
     (case b of None \<Rightarrow> Some (-1, w)
      | Some a \<Rightarrow> do {
          blk \<leftarrow> heap w a;
          if block_state blk \<noteq> BLOCK_STATE_INACTIVE
          then do { _ \<leftarrow> block_state_tostr (block_state blk); Some (-1, w) }
          else do {
            (r, w) \<leftarrow> (case b_start blk of None \<Rightarrow> Some (0, w) | Some f \<Rightarrow> h_start H f a w);
            if r \<noteq> 0 then Some (-1, w)
            else do {
              _ \<leftarrow> heap w a;
              Some (0, upd_block w a (\<lambda>b. b\<lparr>block_state := BLOCK_STATE_ACTIVE\<rparr>)) } } })"

definition ubx_block_stop :: "'p hooks \<Rightarrow> addr option \<Rightarrow> 'p world \<Rightarrow> (int \<times> 'p world) option" where
  "ubx_block_stop H b w =
     (case b of None \<Rightarrow> Some (-1, w)
      | Some a \<Rightarrow> do {
          blk \<leftarrow> heap w a;
          if block_state blk \<noteq> BLOCK_STATE_ACTIVE
          then do { _ \<leftarrow> block_state_tostr (block_state blk); Some (-1, w) }
          else do {
            w \<leftarrow> (case b_stop blk of None \<Rightarrow> Some w | Some f \<Rightarrow> h_stop H f a w);
            _ \<leftarrow> heap w a;
            Some (0, upd_block w a (\<lambda>b. b\<lparr>block_state := BLOCK_STATE_INACTIVE\<rparr>)) } })"

definition ubx_block_cleanup :: "'p hooks \<Rightarrow> addr option \<Rightarrow> 'p world \<Rightarrow> (int \<times> 'p world) option" where
  "ubx_block_cleanup H b w =
     (case b of None \<Rightarrow> Some (-1, w)
      | Some a \<Rightarrow> do {
          blk \<leftarrow> heap w a;
          if block_state blk \<noteq> BLOCK_STATE_INACTIVE
          then do { _ \<leftarrow> block_state_tostr (block_state blk); Some (-1, w) }
          else do {
            w \<leftarrow> (case b_cleanup blk of None \<Rightarrow> Some w | Some f \<Rightarrow> h_cleanup H f a w);
            _ \<leftarrow> heap w a;
            Some (0, upd_block w a (\<lambda>b. b\<lparr>block_state := BLOCK_STATE_PREINIT\<rparr>)) } })"

definition ubx_cblock_step :: "'p hooks \<Rightarrow> addr option \<Rightarrow> 'p world \<Rightarrow> (int \<times> 'p world) option" where
  "ubx_cblock_step H b w =
     (case b of None \<Rightarrow> Some (-1, w)
      | Some a \<Rightarrow> do {
          blk \<leftarrow> heap w a;
          if b_type blk \<noteq> BLOCK_TYPE_COMPUTATION then Some (-1, w)
          else if block_state blk \<noteq> BLOCK_STATE_ACTIVE then Some (-1, w)
          else case b_step blk of
            None \<Rightarrow> Some (-1, w)
          | Some f \<Rightarrow> do {
              w \<leftarrow> h_step H f a w;
              _ \<leftarrow> heap w a;
              Some (0, upd_block w a (\<lambda>b. b\<lparr>stat_num_steps := stat_num_steps b + 1\<rparr>)) } })"

subsection \<open>The automaton\<close>

datatype life_op = LInit | LStart | LStop | LCleanup | LStep

fun life_exec :: "'p hooks \<Rightarrow> addr \<Rightarrow> life_op \<Rightarrow> 'p world \<Rightarrow> (int \<times> 'p world) option" where
  "life_exec H a LInit w = ubx_block_init H (Some a) w"
| "life_exec H a LStart w = ubx_block_start H (Some a) w"
| "life_exec H a LStop w = ubx_block_stop H (Some a) w"
| "life_exec H a LCleanup w = ubx_block_cleanup H (Some a) w"
| "life_exec H a LStep w = ubx_cblock_step H (Some a) w"

text \<open>Where an operation is allowed, and where it leads.\<close>

fun life_from :: "life_op \<Rightarrow> int" where
  "life_from LInit = BLOCK_STATE_PREINIT"
| "life_from LStart = BLOCK_STATE_INACTIVE"
| "life_from LStop = BLOCK_STATE_ACTIVE"
| "life_from LCleanup = BLOCK_STATE_INACTIVE"
| "life_from LStep = BLOCK_STATE_ACTIVE"

fun life_to :: "life_op \<Rightarrow> int" where
  "life_to LInit = BLOCK_STATE_INACTIVE"
| "life_to LStart = BLOCK_STATE_ACTIVE"
| "life_to LStop = BLOCK_STATE_INACTIVE"
| "life_to LCleanup = BLOCK_STATE_PREINIT"
| "life_to LStep = BLOCK_STATE_ACTIVE"

definition life_next :: "int \<Rightarrow> life_op \<Rightarrow> int option" where
  "life_next s op = (if s = life_from op then Some (life_to op) else None)"

fun life_accepts :: "int \<Rightarrow> life_op list \<Rightarrow> int option" where
  "life_accepts s [] = Some s"
| "life_accepts s (op # ops) = do { s \<leftarrow> life_next s op; life_accepts s ops }"

text \<open>A run: every operation is tried, whatever the ones before returned.\<close>

fun life_run :: "'p hooks \<Rightarrow> addr \<Rightarrow> life_op list \<Rightarrow> 'p world \<Rightarrow> (int list \<times> 'p world) option" where
  "life_run H a [] w = Some ([], w)"
| "life_run H a (op # ops) w = do {
     (r, w) \<leftarrow> life_exec H a op w;
     (rs, w) \<leftarrow> life_run H a ops w;
     Some (r # rs, w) }"

definition succeeded :: "life_op list \<Rightarrow> int list \<Rightarrow> life_op list" where
  "succeeded ops rs = map fst (filter (\<lambda>(op, r). r = 0) (zip ops rs))"

definition state_of :: "'p world \<Rightarrow> addr \<Rightarrow> int option" where
  "state_of w a = map_option block_state (heap w a)"

lemma tostr_valid:
  "s \<in> {BLOCK_STATE_PREINIT, BLOCK_STATE_INACTIVE, BLOCK_STATE_ACTIVE} \<Longrightarrow> block_state_tostr s \<noteq> None"
  by (auto simp: state_defs block_state_tostr_def block_states_def)

lemma upd_block_cong:
  "heap w a = Some b \<Longrightarrow> f b = g b \<Longrightarrow> upd_block w a f = upd_block w a g"
  by (simp add: upd_block_def)

text \<open>What each operation does: refused without a trace, failed in its hook, or carried
  out. The counter of steps moves with the step operation only.\<close>

inductive life_result :: "life_op \<Rightarrow> addr \<Rightarrow> 'p world \<Rightarrow> 'p ubx_block \<Rightarrow> int \<Rightarrow> 'p world \<Rightarrow> bool" where
  life_refused: "block_state blk \<noteq> life_from op
      \<or> op = LStep \<and> (b_type blk \<noteq> BLOCK_TYPE_COMPUTATION \<or> b_step blk = None)
    \<Longrightarrow> r = -1 \<Longrightarrow> w' = w \<Longrightarrow> life_result op a w blk r w'"
| life_failed: "block_state blk = life_from op \<Longrightarrow> op = LInit \<or> op = LStart \<Longrightarrow> hook_frame w w'
    \<Longrightarrow> r = -1 \<Longrightarrow> life_result op a w blk r w'"
| life_moved: "hook_frame w w1 \<Longrightarrow> heap w1 a = Some b1 \<Longrightarrow> block_state blk = life_from op
    \<Longrightarrow> n = stat_num_steps b1 + (if op = LStep then 1 else 0)
    \<Longrightarrow> op = LStep \<longrightarrow> b_type blk = BLOCK_TYPE_COMPUTATION \<and> b_step blk \<noteq> None
    \<Longrightarrow> w' = upd_block w1 a (\<lambda>_. b1\<lparr>block_state := life_to op, stat_num_steps := n\<rparr>)
    \<Longrightarrow> r = 0 \<Longrightarrow> life_result op a w blk r w'"

context block_hooks begin

lemma init_cases:
  assumes "ubx_block_init H (Some a) w = Some (r, w')" "heap w a = Some blk"
  shows "life_result LInit a w blk r w'"
proof (cases "block_state blk = BLOCK_STATE_PREINIT")
  case False
  with assms show ?thesis by (intro life_refused) (auto simp: ubx_block_init_def)
next
  case True
  with assms obtain r1 w1 where h: "(case b_init blk of None \<Rightarrow> Some (0, w) | Some f \<Rightarrow> h_init H f a w) = Some (r1, w1)"
    and rest: "(if r1 \<noteq> 0 then Some (-1, w1) else do { _ \<leftarrow> heap w1 a;
      Some (0, upd_block w1 a (\<lambda>b. b\<lparr>block_state := BLOCK_STATE_INACTIVE\<rparr>)) }) = Some (r, w')"
    by (auto simp: ubx_block_init_def)
  have fr: "hook_frame w w1" using h by (auto split: option.splits dest: init_frame)
  show ?thesis
  proof (cases "r1 = 0")
    case False
    with rest fr True show ?thesis by (intro life_failed) auto
  next
    case t: True
    with rest obtain b1 where "heap w1 a = Some b1" by auto
    with rest t fr True show ?thesis by (intro life_moved [of w w1]) (auto intro: upd_block_cong)
  qed
qed

lemma start_cases:
  assumes "ubx_block_start H (Some a) w = Some (r, w')" "heap w a = Some blk"
  shows "life_result LStart a w blk r w'"
proof (cases "block_state blk = BLOCK_STATE_INACTIVE")
  case False
  with assms show ?thesis by (intro life_refused) (auto simp: ubx_block_start_def)
next
  case True
  with assms obtain r1 w1 where h: "(case b_start blk of None \<Rightarrow> Some (0, w) | Some f \<Rightarrow> h_start H f a w) = Some (r1, w1)"
    and rest: "(if r1 \<noteq> 0 then Some (-1, w1) else do { _ \<leftarrow> heap w1 a;
      Some (0, upd_block w1 a (\<lambda>b. b\<lparr>block_state := BLOCK_STATE_ACTIVE\<rparr>)) }) = Some (r, w')"
    by (auto simp: ubx_block_start_def)
  have fr: "hook_frame w w1" using h by (auto split: option.splits dest: start_frame)
  show ?thesis
  proof (cases "r1 = 0")
    case False
    with rest fr True show ?thesis by (intro life_failed) auto
  next
    case t: True
    with rest obtain b1 where "heap w1 a = Some b1" by auto
    with rest t fr True show ?thesis by (intro life_moved [of w w1]) (auto intro: upd_block_cong)
  qed
qed

lemma stop_cases:
  assumes "ubx_block_stop H (Some a) w = Some (r, w')" "heap w a = Some blk"
  shows "life_result LStop a w blk r w'"
proof (cases "block_state blk = BLOCK_STATE_ACTIVE")
  case False
  with assms show ?thesis by (intro life_refused) (auto simp: ubx_block_stop_def)
next
  case True
  with assms obtain w1 b1 where h: "(case b_stop blk of None \<Rightarrow> Some w | Some f \<Rightarrow> h_stop H f a w) = Some w1"
    "heap w1 a = Some b1" "r = 0" "w' = upd_block w1 a (\<lambda>b. b\<lparr>block_state := BLOCK_STATE_INACTIVE\<rparr>)"
    by (auto simp: ubx_block_stop_def)
  have "hook_frame w w1" using h(1) by (auto split: option.splits dest: stop_frame)
  with h True show ?thesis by (intro life_moved [of w w1]) (auto intro: upd_block_cong)
qed

lemma cleanup_cases:
  assumes "ubx_block_cleanup H (Some a) w = Some (r, w')" "heap w a = Some blk"
  shows "life_result LCleanup a w blk r w'"
proof (cases "block_state blk = BLOCK_STATE_INACTIVE")
  case False
  with assms show ?thesis by (intro life_refused) (auto simp: ubx_block_cleanup_def)
next
  case True
  with assms obtain w1 b1 where h: "(case b_cleanup blk of None \<Rightarrow> Some w | Some f \<Rightarrow> h_cleanup H f a w) = Some w1"
    "heap w1 a = Some b1" "r = 0" "w' = upd_block w1 a (\<lambda>b. b\<lparr>block_state := BLOCK_STATE_PREINIT\<rparr>)"
    by (auto simp: ubx_block_cleanup_def)
  have "hook_frame w w1" using h(1) by (auto split: option.splits dest: cleanup_frame)
  with h True show ?thesis by (intro life_moved [of w w1]) (auto intro: upd_block_cong)
qed

lemma step_cases:
  assumes "ubx_cblock_step H (Some a) w = Some (r, w')" "heap w a = Some blk"
  shows "life_result LStep a w blk r w'"
proof (cases "b_type blk = BLOCK_TYPE_COMPUTATION \<and> block_state blk = BLOCK_STATE_ACTIVE \<and> b_step blk \<noteq> None")
  case False
  with assms show ?thesis
    by (intro life_refused) (auto simp: ubx_cblock_step_def split: if_splits option.splits)
next
  case True
  with assms obtain f w1 b1 where h: "b_step blk = Some f" "h_step H f a w = Some w1"
    "heap w1 a = Some b1" "r = 0" "w' = upd_block w1 a (\<lambda>b. b\<lparr>stat_num_steps := stat_num_steps b + 1\<rparr>)"
    by (auto simp: ubx_cblock_step_def)
  have fr: "hook_frame w w1" by (rule step_frame [OF h(2)])
  from hook_frame_heap [OF fr assms(2)] h(3) True have "block_state b1 = BLOCK_STATE_ACTIVE"
    by (auto simp: same_control_def)
  with h fr True show ?thesis by (intro life_moved [of w w1]) (auto intro: upd_block_cong)
qed

lemmas op_cases = init_cases start_cases stop_cases cleanup_cases step_cases

lemma exec_cases:
  assumes "life_exec H a op w = Some (r, w')" "heap w a = Some blk"
  shows "life_result op a w blk r w'"
  using assms by (cases op) (simp_all add: op_cases)

lemma exec_next:
  assumes "life_exec H a op w = Some (r, w')" "state_of w a = Some s"
  shows "(r = 0 \<and> life_next s op = state_of w' a \<and> state_of w' a \<noteq> None) \<or> (r = -1 \<and> state_of w' a = Some s)"
proof -
  obtain blk where blk: "heap w a = Some blk" "s = block_state blk"
    using assms(2) by (auto simp: state_of_def)
  from exec_cases [OF assms(1) blk(1)] show ?thesis
  proof cases
    case life_refused
    then show ?thesis using assms(2) by simp
  next
    case life_failed
    from hook_frame_heap [OF life_failed(3) blk(1)] obtain b' where "heap w' a = Some b'" "same_control blk b'" .
    then show ?thesis using life_failed(4) blk(2) by (simp add: state_of_def same_control_def)
  next
    case life_moved
    then show ?thesis using blk(2) by (simp add: state_of_def heap_upd_block life_next_def)
  qed
qed

lemma run_accepts:
  assumes "life_run H a ops w = Some (rs, w')" "state_of w a = Some s"
  shows "state_of w' a \<noteq> None \<and> life_accepts s (succeeded ops rs) = state_of w' a \<and> set rs \<subseteq> {0, -1}"
  using assms
proof (induction ops arbitrary: w rs s)
  case Nil
  then show ?case by (simp add: succeeded_def)
next
  case (Cons op ops)
  from Cons.prems(1) obtain r w1 rs' where *: "life_exec H a op w = Some (r, w1)"
    "life_run H a ops w1 = Some (rs', w')" "rs = r # rs'" by auto
  from exec_next [OF *(1) Cons.prems(2)] show ?case
  proof
    assume r: "r = 0 \<and> life_next s op = state_of w1 a \<and> state_of w1 a \<noteq> None"
    then obtain s1 where "state_of w1 a = Some s1" by auto
    with Cons.IH [OF *(2) this] r show ?thesis by (simp add: succeeded_def *(3))
  next
    assume r: "r = -1 \<and> state_of w1 a = Some s"
    with Cons.IH [OF *(2)] show ?thesis by (simp add: succeeded_def *(3))
  qed
qed

end

end
