(* ===== verification/UbxConn.thy ===== *)
theory UbxConn
  imports UbxLife
begin

text \<open>
  Ports and interactions (\<open>src/src/ubx.c\<close>): the arrays of interactions a port is
  connected to, connecting and disconnecting, and reading from and writing to a port.
  A port is pointed to by its block's address and its index there. The accessors that
  \<open>src/src/ubx.h\<close> generates for a type are \<open>typed_read\<close> and \<open>typed_write\<close>.
\<close>

subsection \<open>Arrays of interactions\<close>

text \<open>The array pointer is overwritten by the result of \<open>realloc\<close>: when that fails the
  connections are lost.\<close>

definition array_block_add ::
    "'p world \<Rightarrow> addr list option \<Rightarrow> addr \<Rightarrow> int \<times> addr list option \<times> 'p world" where
  "array_block_add w arr newblock =
     (let xs = (case arr of None \<Rightarrow> [] | Some xs \<Rightarrow> xs)
      in if alloc_ok w then (0, Some (xs @ [newblock]), alloc_step w)
         else (EOUTOFMEM, None, alloc_step w))"

text \<open>The search does not stop at a match: the last one counts.\<close>

fun last_index :: "'a \<Rightarrow> 'a list \<Rightarrow> nat option" where
  "last_index x [] = None"
| "last_index x (y # ys) =
     (case last_index x ys of
        Some i \<Rightarrow> Some (Suc i)
      | None \<Rightarrow> if y = x then Some 0 else None)"

text \<open>A NULL array is dereferenced; not finding the block prints its name.\<close>

definition array_block_rm :: "'p world \<Rightarrow> addr list option \<Rightarrow> addr \<Rightarrow> (int \<times> addr list option) option" where
  "array_block_rm w arr rmblock = do {
     xs \<leftarrow> arr;
     (case last_index rmblock xs of
        None \<Rightarrow> do { _ \<leftarrow> heap w rmblock; Some (-1, arr) }
      | Some i \<Rightarrow> Some (0, Some (swap_remove i xs))) }"

subsection \<open>Connecting\<close>

type_synonym portref = "addr \<times> nat"

definition upd_port :: "'p world \<Rightarrow> portref \<Rightarrow> (ubx_port \<Rightarrow> ubx_port) \<Rightarrow> 'p world" where
  "upd_port w pp f = upd_block w (fst pp)
     (\<lambda>b. b\<lparr>ports := map_option (\<lambda>ps. ps[snd pp := f (ps ! snd pp)]) (ports b)\<rparr>)"

definition ubx_port_connect_out :: "'p world \<Rightarrow> portref \<Rightarrow> addr \<Rightarrow> (int \<times> 'p world) option" where
  "ubx_port_connect_out w pp iblock = do {
     p \<leftarrow> port_at w pp;
     if p_attrs p AND PORT_DIR_OUT = 0 then Some (-1, w)
     else do {
       let (ret, arr, w) = array_block_add w (out_interaction p) iblock;
       let w = upd_port w pp (\<lambda>p. p\<lparr>out_interaction := arr\<rparr>);
       if ret \<noteq> 0 then do { _ \<leftarrow> heap w iblock; Some (ret, w) } else Some (0, w) } }"

definition ubx_port_connect_in :: "'p world \<Rightarrow> portref \<Rightarrow> addr \<Rightarrow> (int \<times> 'p world) option" where
  "ubx_port_connect_in w pp iblock = do {
     p \<leftarrow> port_at w pp;
     if p_attrs p AND PORT_DIR_IN = 0 then Some (-1, w)
     else do {
       let (ret, arr, w) = array_block_add w (in_interaction p) iblock;
       let w = upd_port w pp (\<lambda>p. p\<lparr>in_interaction := arr\<rparr>);
       if ret \<noteq> 0 then do { _ \<leftarrow> heap w iblock; Some (ret, w) } else Some (0, w) } }"

definition ubx_ports_connect_uni ::
    "'p world \<Rightarrow> portref option \<Rightarrow> portref option \<Rightarrow> addr option \<Rightarrow> (int \<times> 'p world) option" where
  "ubx_ports_connect_uni w out_port in_port iblock =
     (case (iblock, out_port, in_port) of
        (Some ib, Some op, Some ip) \<Rightarrow> do {
          blk \<leftarrow> heap w ib;
          if b_type blk \<noteq> BLOCK_TYPE_INTERACTION then Some (-1, w)
          else do {
            (ret, w) \<leftarrow> ubx_port_connect_out w op ib;
            if ret \<noteq> 0 then Some (ret, w) else ubx_port_connect_in w ip ib } }
      | _ \<Rightarrow> Some (-1, w))"

definition ubx_port_disconnect_out :: "'p world \<Rightarrow> portref \<Rightarrow> addr \<Rightarrow> (int \<times> 'p world) option" where
  "ubx_port_disconnect_out w pp iblock = do {
     p \<leftarrow> port_at w pp;
     if p_attrs p AND PORT_DIR_OUT = 0 then Some (-1, w)
     else do {
       (ret, arr) \<leftarrow> array_block_rm w (out_interaction p) iblock;
       Some (ret, upd_port w pp (\<lambda>p. p\<lparr>out_interaction := arr\<rparr>)) } }"

definition ubx_port_disconnect_in :: "'p world \<Rightarrow> portref \<Rightarrow> addr \<Rightarrow> (int \<times> 'p world) option" where
  "ubx_port_disconnect_in w pp iblock = do {
     p \<leftarrow> port_at w pp;
     if p_attrs p AND PORT_DIR_IN = 0 then Some (-1, w)
     else do {
       (ret, arr) \<leftarrow> array_block_rm w (in_interaction p) iblock;
       Some (ret, upd_port w pp (\<lambda>p. p\<lparr>in_interaction := arr\<rparr>)) } }"

definition ubx_ports_disconnect_uni ::
    "'p world \<Rightarrow> portref option \<Rightarrow> portref option \<Rightarrow> addr option \<Rightarrow> (int \<times> 'p world) option" where
  "ubx_ports_disconnect_uni w out_port in_port iblock =
     (case (iblock, out_port, in_port) of
        (Some ib, Some op, Some ip) \<Rightarrow> do {
          blk \<leftarrow> heap w ib;
          if b_type blk \<noteq> BLOCK_TYPE_INTERACTION then Some (-1, w)
          else do {
            (ret, w) \<leftarrow> ubx_port_disconnect_out w op ib;
            if ret \<noteq> 0 then Some (ret, w) else ubx_port_disconnect_in w ip ib } }
      | _ \<Rightarrow> Some (-1, w))"

subsection \<open>Reading and writing\<close>

text \<open>
  The loop walks the port's array; a hook that changes the array under it is outside
  what is modelled (\<open>None\<close>). The hook is taken from the union of an interaction, so the
  block must be one, live, with a read hook. The result is kept in \<open>uint32_t\<close> and tested
  as unsigned: a hook's negative result counts as positive.
\<close>

fun read_loop ::
    "'p hooks \<Rightarrow> portref \<Rightarrow> addr list \<Rightarrow> addr list \<Rightarrow> u32 \<Rightarrow> ubx_data \<Rightarrow> 'p world
     \<Rightarrow> (u32 \<times> ubx_data \<times> 'p world) option" where
  "read_loop H pp arr [] ret d w = Some (ret, d, w)"
| "read_loop H pp arr (ia # ias) ret d w = do {
     ib \<leftarrow> heap w ia;
     if block_state ib \<noteq> BLOCK_STATE_ACTIVE then read_loop H pp arr ias ret d w
     else do {
       guard (b_type ib = BLOCK_TYPE_INTERACTION);
       f \<leftarrow> b_read ib;
       (r, d, w) \<leftarrow> h_read H f ia d w;
       let ret = (word_of_int r :: u32);
       p \<leftarrow> port_at w pp;
       guard (in_interaction p = Some arr);
       if 0 < ret then do {
         let w = upd_port w pp (\<lambda>p. p\<lparr>stat_reades := stat_reades p + 1\<rparr>);
         _ \<leftarrow> heap w ia;
         Some (ret, d, upd_block w ia (\<lambda>b. b\<lparr>stat_num_reads := stat_num_reads b + 1\<rparr>)) }
       else read_loop H pp arr ias ret d w } }"

definition port_read ::
    "'p hooks \<Rightarrow> portref option \<Rightarrow> ubx_data option \<Rightarrow> 'p world \<Rightarrow> (u32 \<times> ubx_data option \<times> 'p world) option" where
  "port_read H port data w =
     (case port of
        None \<Rightarrow> Some (word_of_int EPORT_INVALID, data, w)
      | Some pp \<Rightarrow> (case data of
          None \<Rightarrow> Some (word_of_int (-1), data, w)
        | Some d \<Rightarrow>
            if d_len d \<le> 0 then Some (word_of_int (-1), data, w)
            else do {
              p \<leftarrow> port_at w pp;
              if p_attrs p AND PORT_DIR_IN = 0 then Some (word_of_int EPORT_INVALID_TYPE, data, w)
              else if in_type p \<noteq> d_type d then do {
                _ \<leftarrow> get_typename w data;
                t \<leftarrow> in_type p;
                _ \<leftarrow> theap w t;
                Some (0, data, w) }
              else case in_interaction p of
                None \<Rightarrow> Some (0, data, w)
              | Some ias \<Rightarrow> do {
                  (ret, d, w) \<leftarrow> read_loop H pp ias ias 0 d w;
                  Some (ret, Some d, w) } }))"

fun write_loop ::
    "'p hooks \<Rightarrow> portref \<Rightarrow> addr list \<Rightarrow> addr list \<Rightarrow> ubx_data \<Rightarrow> 'p world \<Rightarrow> (ubx_data \<times> 'p world) option" where
  "write_loop H pp arr [] d w = Some (d, w)"
| "write_loop H pp arr (ia # ias) d w = do {
     ib \<leftarrow> heap w ia;
     if block_state ib \<noteq> BLOCK_STATE_ACTIVE then write_loop H pp arr ias d w
     else do {
       guard (b_type ib = BLOCK_TYPE_INTERACTION);
       f \<leftarrow> b_write ib;
       (d, w) \<leftarrow> h_write H f ia d w;
       p \<leftarrow> port_at w pp;
       guard (out_interaction p = Some arr);
       _ \<leftarrow> heap w ia;
       write_loop H pp arr ias d (upd_block w ia (\<lambda>b. b\<lparr>stat_num_writes := stat_num_writes b + 1\<rparr>)) } }"

definition port_write ::
    "'p hooks \<Rightarrow> portref option \<Rightarrow> ubx_data option \<Rightarrow> 'p world \<Rightarrow> (ubx_data option \<times> 'p world) option" where
  "port_write H port data w =
     (case port of
        None \<Rightarrow> Some (data, w)
      | Some pp \<Rightarrow> do {
          p \<leftarrow> port_at w pp;
          if p_attrs p AND PORT_DIR_OUT = 0 then Some (data, w)
          else do {
            d \<leftarrow> data;
            if out_type p \<noteq> d_type d then do {
              _ \<leftarrow> get_typename w data;
              t \<leftarrow> out_type p;
              _ \<leftarrow> theap w t;
              Some (data, w) }
            else case out_interaction p of
              None \<Rightarrow> Some (data, w)
            | Some ias \<Rightarrow> do {
                (d, w) \<leftarrow> write_loop H pp ias ias d w;
                Some (Some d, upd_port w pp (\<lambda>p. p\<lparr>stat_writes := stat_writes p + 1\<rparr>)) } } })"

text \<open>
  The accessors for a type \<open>tn\<close> (arrays of \<open>n\<close> elements, \<open>n = 1\<close> for a single value): the
  node is looked up through the port's block pointer, the result of the check is not
  used, and the data object is a local that describes the caller's bytes.
\<close>

definition port_registered :: "'p world \<Rightarrow> ubx_port \<Rightarrow> bool option" where
  "port_registered w p = do { b \<leftarrow> p_block p; blk \<leftarrow> heap w b; Some (b_ni blk) }"

definition typed_read ::
    "'p hooks \<Rightarrow> string \<Rightarrow> u64 \<Rightarrow> portref option \<Rightarrow> u8 list \<Rightarrow> 'p world \<Rightarrow> (u32 \<times> cbuf \<times> 'p world) option" where
  "typed_read H tn n port inval w =
     (case port of
        None \<Rightarrow> Some (-1, BLive inval, w)
      | Some pp \<Rightarrow> do {
          p \<leftarrow> port_at w pp;
          reg \<leftarrow> port_registered w p;
          _ \<leftarrow> checktype w reg (in_type p) (Some tn) (Some (p_name p));
          (ret, d, w) \<leftarrow> port_read H port (Some \<lparr>d_type = in_type p, d_len = n, d_data = BLive inval\<rparr>) w;
          Some (ret, (case d of None \<Rightarrow> BNull | Some d \<Rightarrow> d_data d), w) })"

definition typed_write ::
    "'p hooks \<Rightarrow> string \<Rightarrow> u64 \<Rightarrow> portref option \<Rightarrow> u8 list \<Rightarrow> 'p world \<Rightarrow> 'p world option" where
  "typed_write H tn n port outval w =
     (case port of
        None \<Rightarrow> Some w
      | Some pp \<Rightarrow> do {
          p \<leftarrow> port_at w pp;
          reg \<leftarrow> port_registered w p;
          _ \<leftarrow> checktype w reg (out_type p) (Some tn) (Some (p_name p));
          (d, w) \<leftarrow> port_write H port (Some \<lparr>d_type = out_type p, d_len = n, d_data = BLive outval\<rparr>) w;
          Some w })"

subsection \<open>Ports under update\<close>

lemma port_at_upd_port:
  assumes "port_at w pp = Some p"
  shows "port_at (upd_port w pp f) qq = (if qq = pp then Some (f p) else port_at w qq)"
proof -
  obtain blk ps where h: "heap w (fst pp) = Some blk" "ports blk = Some ps" "snd pp < length ps" "p = ps ! snd pp"
    using assms by (auto simp: port_at_def)
  show ?thesis
  proof (cases "fst qq = fst pp")
    case True
    with h show ?thesis
      by (auto simp: port_at_def upd_port_def heap_upd_block nth_list_update prod_eq_iff guard_def)
  next
    case False
    then show ?thesis by (auto simp: port_at_def upd_port_def heap_upd_block)
  qed
qed

lemma port_at_upd_other: "(\<And>b. ports (f b) = ports b) \<Longrightarrow> port_at (upd_block w a f) = port_at w"
proof -
  assume *: "\<And>b. ports (f b) = ports b"
  have "port_at (upd_block w a f) qq = port_at w qq" for qq
    by (cases "heap w (fst qq)") (auto simp: port_at_def heap_upd_block *)
  then show ?thesis ..
qed

lemma port_at_alloc [simp]: "port_at (alloc_step w) pp = port_at w pp"
  by (simp add: port_at_def)

lemma hook_frame_upd_port [intro!]: "hook_frame w (upd_port w pp f)"
  unfolding upd_port_def by (rule hook_frame_upd) (simp add: same_control_def)

lemma upd_port_heap:
  "heap (upd_port w pp f) a =
     (if a = fst pp then map_option (\<lambda>b. b\<lparr>ports := map_option (\<lambda>ps. ps[snd pp := f (ps ! snd pp)]) (ports b)\<rparr>) (heap w a)
      else heap w a)"
  by (simp add: upd_port_def heap_upd_block)

lemma upd_port_live: "(heap (upd_port w pp f) a = None) = (heap w a = None)"
  by (simp add: upd_port_heap)

definition conns :: "addr list option \<Rightarrow> addr list" where
  "conns arr = (case arr of None \<Rightarrow> [] | Some xs \<Rightarrow> xs)"

definition out_conns :: "'p world \<Rightarrow> portref \<Rightarrow> addr list option" where
  "out_conns w pp = map_option (conns \<circ> out_interaction) (port_at w pp)"

definition in_conns :: "'p world \<Rightarrow> portref \<Rightarrow> addr list option" where
  "in_conns w pp = map_option (conns \<circ> in_interaction) (port_at w pp)"

lemma last_index_append: "last_index x (xs @ [x]) = Some (length xs)"
  by (induction xs) simp_all

lemma last_index_None: "last_index x xs = None \<longleftrightarrow> x \<notin> set xs"
  by (induction xs) (auto split: option.splits)

lemma last_index_Some:
  "last_index x xs = Some i \<Longrightarrow> i < length xs \<and> xs ! i = x \<and> (\<forall>j. i < j \<and> j < length xs \<longrightarrow> xs ! j \<noteq> x)"
proof (induction xs arbitrary: i)
  case (Cons y ys)
  show ?case
  proof (cases "last_index x ys")
    case None
    then have "x \<notin> set ys" by (simp add: last_index_None)
    with Cons.prems None show ?thesis by (auto simp: nth_Cons' split: if_splits)
  next
    case (Some k)
    from Cons.IH [OF this] Cons.prems Some show ?thesis
      by (auto simp: nth_Cons split: nat.split)
  qed
qed simp

lemma array_rm_last: "array_block_rm w (Some (xs @ [b])) b = Some (0, Some xs)"
  by (simp add: array_block_rm_def last_index_append swap_remove_last)

definition attrs_of :: "'p world \<Rightarrow> portref \<Rightarrow> u32 option" where
  "attrs_of w pp = map_option p_attrs (port_at w pp)"

definition btype_of :: "'p world \<Rightarrow> addr \<Rightarrow> u32 option" where
  "btype_of w a = map_option b_type (heap w a)"

text \<open>\<open>rewired w w' pp o i\<close>: of all ports and block types, only the connections of
  \<open>pp\<close> may have changed, to \<open>o\<close> (outgoing) and \<open>i\<close> (incoming).\<close>

definition rewired :: "'p world \<Rightarrow> 'p world \<Rightarrow> portref \<Rightarrow> addr list option \<Rightarrow> addr list option \<Rightarrow> bool" where
  "rewired w w' pp os is \<longleftrightarrow>
     attrs_of w' = attrs_of w \<and> btype_of w' = btype_of w
     \<and> out_conns w' = (out_conns w)(pp := os) \<and> in_conns w' = (in_conns w)(pp := is)"

lemma rewired_upd_port:
  assumes "port_at w pp = Some p" "p_attrs (f p) = p_attrs p"
  shows "rewired w (upd_port w pp f) pp (Some (conns (out_interaction (f p)))) (Some (conns (in_interaction (f p))))"
  using assms
  by (auto simp: rewired_def attrs_of_def btype_of_def out_conns_def in_conns_def
      port_at_upd_port [OF assms(1)] upd_port_heap fun_eq_iff option.map_comp comp_def)

lemma conns_step [simp]:
  "attrs_of (alloc_step w) = attrs_of w" "btype_of (alloc_step w) = btype_of w"
  "out_conns (alloc_step w) = out_conns w" "in_conns (alloc_step w) = in_conns w"
  by (simp_all add: attrs_of_def btype_of_def out_conns_def in_conns_def fun_eq_iff)

lemma rewired_step [simp]: "rewired (alloc_step w) w' = rewired w w'"
  by (simp add: rewired_def fun_eq_iff)

lemma connect_out_done:
  assumes "ubx_port_connect_out w pp ib = Some (0, w')"
  shows "\<exists>a xs. attrs_of w pp = Some a \<and> a AND PORT_DIR_OUT \<noteq> 0 \<and> out_conns w pp = Some xs
    \<and> rewired w w' pp (Some (xs @ [ib])) (in_conns w pp)"
proof -
  obtain p where p: "port_at w pp = Some p" "p_attrs p AND PORT_DIR_OUT \<noteq> 0"
    using assms by (auto simp: ubx_port_connect_out_def split: if_splits)
  with assms have w': "w' = upd_port (alloc_step w) pp (\<lambda>q. q\<lparr>out_interaction := Some (conns (out_interaction p) @ [ib])\<rparr>)"
    by (auto simp: ubx_port_connect_out_def array_block_add_def Let_def conns_def err_defs split: if_splits)
  from p show ?thesis
    using rewired_upd_port [of "alloc_step w" pp p "\<lambda>q. q\<lparr>out_interaction := Some (conns (out_interaction p) @ [ib])\<rparr>"]
    by (simp add: w' attrs_of_def out_conns_def in_conns_def conns_def)
qed

lemma connect_in_done:
  assumes "ubx_port_connect_in w pp ib = Some (0, w')"
  shows "\<exists>a xs. attrs_of w pp = Some a \<and> a AND PORT_DIR_IN \<noteq> 0 \<and> in_conns w pp = Some xs
    \<and> rewired w w' pp (out_conns w pp) (Some (xs @ [ib]))"
proof -
  obtain p where p: "port_at w pp = Some p" "p_attrs p AND PORT_DIR_IN \<noteq> 0"
    using assms by (auto simp: ubx_port_connect_in_def split: if_splits)
  with assms have w': "w' = upd_port (alloc_step w) pp (\<lambda>q. q\<lparr>in_interaction := Some (conns (in_interaction p) @ [ib])\<rparr>)"
    by (auto simp: ubx_port_connect_in_def array_block_add_def Let_def conns_def err_defs split: if_splits)
  from p show ?thesis
    using rewired_upd_port [of "alloc_step w" pp p "\<lambda>q. q\<lparr>in_interaction := Some (conns (in_interaction p) @ [ib])\<rparr>"]
    by (simp add: w' attrs_of_def out_conns_def in_conns_def conns_def)
qed

lemma conns_Some: "conns arr = xs @ [b] \<Longrightarrow> arr = Some (xs @ [b])"
  by (auto simp: conns_def split: option.splits)

lemma disconnect_out_done:
  assumes "attrs_of w pp = Some a" "a AND PORT_DIR_OUT \<noteq> 0" "out_conns w pp = Some (xs @ [ib])"
  shows "\<exists>w'. ubx_port_disconnect_out w pp ib = Some (0, w') \<and> rewired w w' pp (Some xs) (in_conns w pp)"
proof -
  obtain p where p: "port_at w pp = Some p" "p_attrs p = a" "out_interaction p = Some (xs @ [ib])"
    using assms by (auto simp: attrs_of_def out_conns_def dest: conns_Some)
  with assms(2) have "ubx_port_disconnect_out w pp ib
      = Some (0, upd_port w pp (\<lambda>p. p\<lparr>out_interaction := Some xs\<rparr>))"
    by (simp add: ubx_port_disconnect_out_def array_rm_last)
  with rewired_upd_port [OF p(1), of "\<lambda>p. p\<lparr>out_interaction := Some xs\<rparr>"] p(1)
  show ?thesis by (auto simp: in_conns_def conns_def)
qed

lemma disconnect_in_done:
  assumes "attrs_of w pp = Some a" "a AND PORT_DIR_IN \<noteq> 0" "in_conns w pp = Some (xs @ [ib])"
  shows "\<exists>w'. ubx_port_disconnect_in w pp ib = Some (0, w') \<and> rewired w w' pp (out_conns w pp) (Some xs)"
proof -
  obtain p where p: "port_at w pp = Some p" "p_attrs p = a" "in_interaction p = Some (xs @ [ib])"
    using assms by (auto simp: attrs_of_def in_conns_def dest: conns_Some)
  with assms(2) have "ubx_port_disconnect_in w pp ib
      = Some (0, upd_port w pp (\<lambda>p. p\<lparr>in_interaction := Some xs\<rparr>))"
    by (simp add: ubx_port_disconnect_in_def array_rm_last)
  with rewired_upd_port [OF p(1), of "\<lambda>p. p\<lparr>in_interaction := Some xs\<rparr>"] p(1)
  show ?thesis by (auto simp: out_conns_def conns_def)
qed

subsection \<open>Reading and writing change what a hook may change\<close>

lemmas post_atoms = post_def [of "heap w a" for w a] post_def [of "theap w a" for w a]
  post_def [of "b_read b" for b] post_def [of "b_write b" for b] post_def [of "port_at w p" for w p]
  post_def [of "h_read H f a d w" for H f a d w] post_def [of "h_write H f a d w" for H f a d w]
  post_def [of "in_type p" for p] post_def [of "out_type p" for p]
  post_def [of "get_typename w d" for w d]

lemma hook_frame_count:
  "hook_frame w w' \<Longrightarrow> hook_frame w (upd_block w' a (\<lambda>b. b\<lparr>stat_num_reads := n b\<rparr>))"
  "hook_frame w w' \<Longrightarrow> hook_frame w (upd_block w' a (\<lambda>b. b\<lparr>stat_num_writes := n b\<rparr>))"
  "hook_frame w w' \<Longrightarrow> hook_frame w (upd_port w' pp f)"
  by (rule hook_frame_trans, assumption, rule hook_frame_upd, simp add: same_control_def)+
    (rule hook_frame_trans [OF _ hook_frame_upd_port])

context block_hooks begin

lemma read_loop_frame:
  "hook_frame w0 w \<Longrightarrow> post (read_loop H pp arr ias ret d w) (\<lambda>(r, d', w'). hook_frame w0 w')"
proof (induction ias arbitrary: ret d w)
  case (Cons ia ias)
  then show ?case
    by (auto simp: wlp post_atoms Let_def intro!: hook_frame_count dest!: read_frame
        intro: hook_frame_trans)
qed (simp add: wlp)

lemma write_loop_frame:
  "hook_frame w0 w \<Longrightarrow> post (write_loop H pp arr ias d w) (\<lambda>(d', w'). hook_frame w0 w')"
proof (induction ias arbitrary: d w)
  case (Cons ia ias)
  then show ?case
    by (auto simp: wlp post_atoms Let_def intro!: hook_frame_count Cons.IH dest!: write_frame
        intro: hook_frame_trans)
qed (simp add: wlp)

lemma port_read_frame: "post (port_read H port data w) (\<lambda>(r, data', w'). hook_frame w w')"
  unfolding port_read_def
  by (auto simp: wlp post_atoms intro!: post_mono [OF read_loop_frame])

lemma port_write_frame: "post (port_write H port data w) (\<lambda>(data', w'). hook_frame w w')"
  unfolding port_write_def
  by (auto simp: wlp post_atoms intro!: post_mono [OF write_loop_frame] hook_frame_count)
    (auto simp: post_def wlp intro!: hook_frame_count dest: postD [OF write_loop_frame [OF hook_frame_refl]])

lemma typed_read_frame: "post (typed_read H tn n port bs w) (\<lambda>(r, b, w'). hook_frame w w')"
proof (cases port)
  case (Some pp)
  have "hook_frame w w'" if "typed_read H tn n (Some pp) bs w = Some (r, b, w')" for r b w'
    using that postD [OF port_read_frame] by (auto simp: typed_read_def)
  then show ?thesis by (auto simp: Some post_def)
qed (simp add: typed_read_def wlp)

lemma typed_write_frame: "post (typed_write H tn n port bs w) (hook_frame w)"
proof (cases port)
  case (Some pp)
  have "hook_frame w w'" if "typed_write H tn n (Some pp) bs w = Some w'" for w'
    using that postD [OF port_write_frame] by (auto simp: typed_write_def)
  then show ?thesis by (auto simp: Some post_def)
qed (simp add: typed_write_def wlp)

end

text \<open>Two states with the same blocks in the same life cycle states.\<close>

lemma hook_frame_states:
  assumes "hook_frame w w'"
  shows "state_of w' a = state_of w a" "(heap w' a = None) = (heap w a = None)"
proof -
  have "rel_option same_control (heap w a) (heap w' a)" using assms by (simp add: hook_frame_def)
  then show "state_of w' a = state_of w a" "(heap w' a = None) = (heap w a = None)"
    by (cases "heap w a"; cases "heap w' a"; simp add: state_of_def same_control_def)+
qed

definition active_only :: "'p world \<Rightarrow> addr list \<Rightarrow> addr list" where
  "active_only w ias = filter (\<lambda>ia. state_of w ia = Some BLOCK_STATE_ACTIVE) ias"

lemma active_only_frame: "hook_frame w w' \<Longrightarrow> active_only w' ias = active_only w ias"
  by (simp add: active_only_def hook_frame_states)

lemma bind_cong_Some:
  "(\<And>x. m = Some x \<Longrightarrow> f x = g x) \<Longrightarrow> Option.bind m f = Option.bind m g"
  by (cases m) simp_all

context block_hooks begin

lemma read_loop_active:
  assumes "\<forall>ia \<in> set ias. heap w ia \<noteq> None"
  shows "read_loop H pp arr ias ret d w = read_loop H pp arr (active_only w ias) ret d w"
  using assms
proof (induction ias arbitrary: ret d w)
  case Nil
  show ?case by (simp add: active_only_def)
next
  case (Cons ia ias)
  from Cons.prems obtain ib where ib: "heap w ia = Some ib" by auto
  have keep: "read_loop H pp arr ias ret' d' w1 = read_loop H pp arr (active_only w ias) ret' d' w1"
    if "hook_frame w w1" for w1 ret' d'
    using Cons.IH [of w1 ret' d'] Cons.prems active_only_frame [OF that]
    by (simp add: hook_frame_states [OF that])
  show ?case
  proof (cases "block_state ib = BLOCK_STATE_ACTIVE")
    case False
    with ib keep [OF hook_frame_refl] show ?thesis by (simp add: state_of_def active_only_def)
  next
    case True
    then have act: "active_only w (ia # ias) = ia # active_only w ias"
      using ib by (simp add: state_of_def active_only_def)
    show ?thesis unfolding act read_loop.simps
      by (intro bind_cong_Some) (use keep in \<open>auto simp: Let_def ib True dest!: read_frame intro!: bind_cong_Some\<close>)
  qed
qed

end

context block_hooks begin

lemma write_loop_active:
  assumes "\<forall>ia \<in> set ias. heap w ia \<noteq> None"
  shows "write_loop H pp arr ias d w = write_loop H pp arr (active_only w ias) d w"
  using assms
proof (induction ias arbitrary: d w)
  case Nil
  show ?case by (simp add: active_only_def)
next
  case (Cons ia ias)
  from Cons.prems obtain ib where ib: "heap w ia = Some ib" by auto
  have keep: "write_loop H pp arr ias d' w1 = write_loop H pp arr (active_only w ias) d' w1"
    if "hook_frame w w1" for w1 d'
    using Cons.IH [of w1 d'] Cons.prems active_only_frame [OF that]
    by (simp add: hook_frame_states [OF that])
  show ?case
  proof (cases "block_state ib = BLOCK_STATE_ACTIVE")
    case False
    with ib keep [OF hook_frame_refl] show ?thesis by (simp add: state_of_def active_only_def)
  next
    case True
    then have act: "active_only w (ia # ias) = ia # active_only w ias"
      using ib by (simp add: state_of_def active_only_def)
    show ?thesis unfolding act write_loop.simps
      by (intro bind_cong_Some)
        (auto simp: Let_def ib True dest!: write_frame intro!: bind_cong_Some keep hook_frame_count(2))
  qed
qed

end

subsection \<open>Properties of connections\<close>

text \<open>C25: Connecting two ports through an interaction appends it to the connections of both,
  and disconnecting them afterwards succeeds and restores the connections of every port.\<close>

theorem connect_disconnect:
  assumes "ubx_ports_connect_uni w (Some op) (Some ip) (Some ib) = Some (0, w1)"
  shows "\<exists>w2 xs ys. ubx_ports_disconnect_uni w1 (Some op) (Some ip) (Some ib) = Some (0, w2)
    \<and> out_conns w op = Some xs \<and> out_conns w1 op = Some (xs @ [ib])
    \<and> in_conns w ip = Some ys \<and> in_conns w1 ip = Some (ys @ [ib])
    \<and> out_conns w2 = out_conns w \<and> in_conns w2 = in_conns w"
proof -
  obtain wa where bt: "btype_of w ib = Some BLOCK_TYPE_INTERACTION"
    and c: "ubx_port_connect_out w op ib = Some (0, wa)" "ubx_port_connect_in wa ip ib = Some (0, w1)"
    using assms by (auto simp: ubx_ports_connect_uni_def btype_of_def split: if_splits)
  obtain a xs where a: "attrs_of w op = Some a" "a AND PORT_DIR_OUT \<noteq> 0" "out_conns w op = Some xs"
    and ra: "rewired w wa op (Some (xs @ [ib])) (in_conns w op)"
    using connect_out_done [OF c(1)] by blast
  obtain b ys where b: "attrs_of wa ip = Some b" "b AND PORT_DIR_IN \<noteq> 0" "in_conns wa ip = Some ys"
    and rb: "rewired wa w1 ip (out_conns wa ip) (Some (ys @ [ib]))"
    using connect_in_done [OF c(2)] by blast
  have o1: "out_conns w1 = (out_conns w)(op := Some (xs @ [ib]))" "in_conns w1 = (in_conns w)(ip := Some (ys @ [ib]))"
    "in_conns w ip = Some ys"
    using ra rb b(3) by (auto simp: rewired_def)
  obtain w2 where d: "ubx_port_disconnect_out w1 op ib = Some (0, w2)"
    and rd: "rewired w1 w2 op (Some xs) (in_conns w1 op)"
    using disconnect_out_done [of w1 op a xs ib] a ra rb o1 by (auto simp: rewired_def)
  obtain w3 where e: "ubx_port_disconnect_in w2 ip ib = Some (0, w3)"
    and re: "rewired w2 w3 ip (out_conns w2 ip) (Some ys)"
  proof -
    have "in_conns w2 = in_conns w1" using rd by (simp add: rewired_def)
    moreover have "attrs_of w2 ip = Some b" using b(1) ra rb rd by (simp add: rewired_def)
    ultimately show ?thesis using disconnect_in_done [of w2 ip b ys ib] b(2) o1 that by auto
  qed
  have "btype_of w1 ib = Some BLOCK_TYPE_INTERACTION" using bt ra rb by (simp add: rewired_def)
  with d e have "ubx_ports_disconnect_uni w1 (Some op) (Some ip) (Some ib) = Some (0, w3)"
    by (auto simp: ubx_ports_disconnect_uni_def btype_of_def)
  moreover have "out_conns w3 = out_conns w" "in_conns w3 = in_conns w"
    using a(3) o1 rd re by (auto simp: rewired_def fun_eq_iff)
  ultimately show ?thesis using a(3) o1 by auto
qed

definition ex_iblock :: "nat ubx_block" where
  "ex_iblock = (ex_block ''fifo1'' (Some ''fifo'') BLOCK_STATE_ACTIVE)
     \<lparr>b_type := BLOCK_TYPE_INTERACTION, b_step := None, b_read := Some 6, b_write := Some 7\<rparr>"

definition ex_net :: "nat world" where
  "ex_net = (ex_world [])\<lparr>heap := (heap (ex_world []))(2 \<mapsto> ex_iblock), next_addr := 3,
     blocks := blocks (ex_world []) @ [(''fifo1'', 2)]\<rparr>"

theorem connect_disconnect_witness:
  "\<exists>w1 w2. ubx_ports_connect_uni ex_net (Some (1, 0)) (Some (1, 0)) (Some 2) = Some (0, w1)
    \<and> out_conns w1 (1, 0) = Some [2]
    \<and> ubx_ports_disconnect_uni w1 (Some (1, 0)) (Some (1, 0)) (Some 2) = Some (0, w2)
    \<and> in_conns w2 (1, 0) = Some []"
proof -
  have "\<exists>w1. ubx_ports_connect_uni ex_net (Some (1, 0)) (Some (1, 0)) (Some 2) = Some (0, w1)"
    by (simp add: ubx_ports_connect_uni_def ubx_port_connect_out_def ubx_port_connect_in_def ex_net_def
        ex_iblock_def ex_defs port_at_def upd_port_def upd_block_def array_block_add_def Let_def
        PORT_DIR_IN_def PORT_DIR_OUT_def btype_defs)
  then obtain w1 where w1: "ubx_ports_connect_uni ex_net (Some (1, 0)) (Some (1, 0)) (Some 2) = Some (0, w1)"
    by blast
  have "out_conns ex_net (1, 0) = Some []" "in_conns ex_net (1, 0) = Some []"
    by (simp_all add: ex_net_def ex_iblock_def ex_defs out_conns_def in_conns_def port_at_def conns_def)
  with connect_disconnect [OF w1] w1 show ?thesis by auto
qed

text \<open>A port that was added to a block cannot be used through the typed accessors: they look
  the node up through the port's block pointer, which is NULL.\<close>

lemma port_add_typed_access:
  assumes "ubx_port_add w (Some a) (Some n) doc ity ilen oty olen st = Some (0, w')"
    and "port_named w a n = None"
  shows "\<exists>i. ubx_port_get w' (Some a) (Some n) = Some (Some (a, i))
    \<and> typed_read H tn len (Some (a, i)) bs w' = None \<and> typed_write H tn len (Some (a, i)) bs w' = None"
  using assms(1)
proof (cases rule: port_add_cases)
  case (added blk w1 p)
  have h: "heap w' a = Some (blk\<lparr>ports := Some (port_list blk @ [p])\<rparr>)"
    using added by (simp add: heap_upd_block mem_only_sel port_list_def)
  then have l: "port_list (blk\<lparr>ports := Some (port_list blk @ [p])\<rparr>) = port_list blk @ [p]"
    by (simp add: port_list_def)
  have "name_index p_name n (port_list blk) = None"
    using assms(2) by (simp add: port_named_list [OF added(2)])
  then have "ubx_port_get w' (Some a) (Some n) = Some (Some (a, length (port_list blk)))"
    using added(5) by (simp add: port_get_list [OF h] l name_index_append)
  moreover have "port_at w' (a, length (port_list blk)) = Some p"
    by (simp add: port_at_list [OF h] l)
  ultimately show ?thesis using added(13)
    by (simp add: typed_read_def typed_write_def port_registered_def)
qed (simp_all add: err_defs)

end
