(* ===== verification/UbxNode.thy ===== *)
theory UbxNode
  imports UbxConn
begin

text \<open>
  The node as a whole (\<open>src/src/ubx.c\<close>): initialising it, loading and unloading modules,
  and cleaning it up. The dynamic linker and the code of the modules are parameters;
  \<open>module_hooks\<close> is what cleaning up relies on. The loops of \<open>ubx_node_cleanup\<close> walk the
  tables with \<open>HASH_ITER\<close>, which fetches the next entry before the body runs.
\<close>

subsection \<open>Walking a table\<close>

fun succ_key :: "string \<Rightarrow> string list \<Rightarrow> string option option" where
  "succ_key k [] = None"
| "succ_key k (x # xs) =
     (if x = k then Some (case xs of [] \<Rightarrow> None | y # _ \<Rightarrow> Some y) else succ_key k xs)"

text \<open>\<open>None\<close> is an entry that is gone when its successor is asked for (a use after free), or
  fuel that is used up: a hook that adds entries for ever.\<close>

fun hash_iter ::
    "nat \<Rightarrow> ('w \<Rightarrow> string list) \<Rightarrow> (string \<Rightarrow> 'w \<Rightarrow> 'w option) \<Rightarrow> string option \<Rightarrow> 'w \<Rightarrow> 'w option" where
  "hash_iter 0 keys body cur w = None"
| "hash_iter (Suc n) keys body None w = Some w"
| "hash_iter (Suc n) keys body (Some k) w = do {
     nxt \<leftarrow> succ_key k (keys w);
     w \<leftarrow> body k w;
     hash_iter n keys body nxt w }"

definition first_key :: "string list \<Rightarrow> string option" where
  "first_key ks = (case ks of [] \<Rightarrow> None | k # _ \<Rightarrow> Some k)"

fun fold_keys :: "(string \<Rightarrow> 'w \<Rightarrow> 'w option) \<Rightarrow> string list \<Rightarrow> 'w \<Rightarrow> 'w option" where
  "fold_keys body [] w = Some w"
| "fold_keys body (k # ks) w = do { w \<leftarrow> body k w; fold_keys body ks w }"

lemma succ_key_at: "k \<notin> set pre \<Longrightarrow> succ_key k (pre @ k # ks) = Some (first_key ks)"
  by (induction pre) (auto simp: first_key_def split: list.split)

text \<open>Where the body leaves the entries that are still to come alone, the loop is a fold over
  the keys at its start.\<close>

lemma hash_iter_fold:
  assumes at: "\<And>k ks w. I w (k # ks) \<Longrightarrow> \<exists>pre. keys w = pre @ k # ks \<and> k \<notin> set pre"
    and step: "\<And>k ks w w'. I w (k # ks) \<Longrightarrow> body k w = Some w' \<Longrightarrow> I w' ks"
  shows "I w ks \<Longrightarrow> length ks < n \<Longrightarrow> hash_iter n keys body (first_key ks) w = fold_keys body ks w"
proof (induction ks arbitrary: w n)
  case Nil
  then show ?case by (cases n) (simp_all add: first_key_def)
next
  case (Cons k ks)
  obtain m where n: "n = Suc m" using Cons.prems(2) by (cases n) simp_all
  obtain pre where pre: "keys w = pre @ k # ks" "k \<notin> set pre" using at [OF Cons.prems(1)] by blast
  have "hash_iter n keys body (first_key (k # ks)) w
      = body k w \<bind> (\<lambda>w. hash_iter m keys body (first_key ks) w)"
    by (simp add: n first_key_def [of "k # ks"] pre(1) succ_key_at [OF pre(2)])
  also have "\<dots> = body k w \<bind> (\<lambda>w. fold_keys body ks w)"
    by (rule bind_cong_Some) (use Cons n step in auto)
  finally show ?case by simp
qed

lemma fold_keys_inv:
  assumes "\<And>k ks w. I w (k # ks) \<Longrightarrow> \<exists>w'. body k w = Some w' \<and> I w' ks"
  shows "I w ks \<Longrightarrow> \<exists>w'. fold_keys body ks w = Some w' \<and> I w' []"
proof (induction ks arbitrary: w)
  case (Cons k ks)
  then obtain w' where "body k w = Some w'" "I w' ks" using assms by blast
  with Cons.IH show ?case by auto
qed simp

text \<open>Both at once: the loop ends, in a state that satisfies the invariant.\<close>

lemma hash_iter_inv:
  assumes at: "\<And>k ks w. I w (k # ks) \<Longrightarrow> \<exists>pre. keys w = pre @ k # ks \<and> k \<notin> set pre"
    and step: "\<And>k ks w. I w (k # ks) \<Longrightarrow> \<exists>w'. body k w = Some w' \<and> I w' ks"
    and init: "I w ks" "length ks < n"
  shows "\<exists>w'. hash_iter n keys body (first_key ks) w = Some w' \<and> I w' []"
proof -
  have "hash_iter n keys body (first_key ks) w = fold_keys body ks w"
  proof (rule hash_iter_fold [where I = I])
    show "I w' ks'" if "I v (k # ks')" "body k v = Some w'" for k ks' v w'
      using step [OF that(1)] that(2) by auto
  qed (use at init in auto)
  moreover have "\<exists>w'. fold_keys body ks w = Some w' \<and> I w' []"
    by (rule fold_keys_inv [where I = I]) (use step init in auto)
  ultimately show ?thesis by simp
qed

subsection \<open>Modules\<close>

record 'p modules_env =
  dl_open :: "string \<Rightarrow> bool"
  dl_init :: "string \<Rightarrow> fid option"
  dl_cleanup :: "string \<Rightarrow> fid option"
  dl_spdx :: "string \<Rightarrow> string option"
  run_init :: "fid \<Rightarrow> 'p world \<Rightarrow> (int \<times> 'p world) option"
  run_cleanup :: "fid \<Rightarrow> 'p world \<Rightarrow> 'p world option"

text \<open>The module is registered after its initialisation ran; a symbol that is missing
  closes the library again.\<close>

definition ubx_module_load :: "'p modules_env \<Rightarrow> string \<Rightarrow> 'p world \<Rightarrow> (int \<times> 'p world) option" where
  "ubx_module_load M lib w =
     (case hash_find (modules w) lib of
        Some _ \<Rightarrow> Some (-1, w)
      | None \<Rightarrow>
          if \<not> alloc_ok w then Some (-1, alloc_step w)
          else let w = alloc_step w in
          if \<not> alloc_ok w then Some (-1, alloc_step w)
          else let w = alloc_step w in
          if \<not> dl_open M lib then Some (-1, w)
          else case dl_init M lib of
            None \<Rightarrow> Some (-1, w)
          | Some ini \<Rightarrow> (case dl_cleanup M lib of
              None \<Rightarrow> Some (-1, w)
            | Some cln \<Rightarrow> do {
                let md = \<lparr>m_id = lib, m_init = ini, m_cleanup = cln, m_spdx = dl_spdx M lib\<rparr>;
                (r, w) \<leftarrow> run_init M ini w;
                if r \<noteq> 0 then Some (-1, w)
                else Some (0, w\<lparr>modules := hash_add (modules w) lib md\<rparr>) }))"

definition ubx_module_unload :: "'p modules_env \<Rightarrow> string \<Rightarrow> 'p world \<Rightarrow> 'p world option" where
  "ubx_module_unload M lib w =
     (case hash_find (modules w) lib of
        None \<Rightarrow> Some w
      | Some md \<Rightarrow> run_cleanup M (m_cleanup md) (w\<lparr>modules := hash_del (modules w) lib\<rparr>))"

subsection \<open>The node\<close>

definition ubx_node_init :: "'p world \<Rightarrow> string option \<Rightarrow> int \<times> 'p world" where
  "ubx_node_init w name =
     (case name of
        None \<Rightarrow> (-1, w)
      | Some n \<Rightarrow>
          if \<not> alloc_ok w then (-1, (alloc_step w)\<lparr>node_name := None\<rparr>)
          else (0, (alloc_step w)\<lparr>node_name := Some n, blocks := [], types := [], modules := [],
                     cur_seqid := 0\<rparr>))"

text \<open>The bodies of the four loops; \<open>n\<close> is the key of the entry.\<close>

definition stop_body :: "'p hooks \<Rightarrow> string \<Rightarrow> 'p world \<Rightarrow> 'p world option" where
  "stop_body H n w = do {
     a \<leftarrow> hash_find (blocks w) n;
     b \<leftarrow> heap w a;
     if block_state b = BLOCK_STATE_ACTIVE
     then do { (r, w) \<leftarrow> ubx_block_stop H (Some a) w; Some w } else Some w }"

definition cleanup_body :: "'p hooks \<Rightarrow> string \<Rightarrow> 'p world \<Rightarrow> 'p world option" where
  "cleanup_body H n w = do {
     a \<leftarrow> hash_find (blocks w) n;
     b \<leftarrow> heap w a;
     if block_state b = BLOCK_STATE_INACTIVE
     then do { (r, w) \<leftarrow> ubx_block_cleanup H (Some a) w; Some w } else Some w }"

definition rm_body :: "string \<Rightarrow> 'p world \<Rightarrow> 'p world option" where
  "rm_body n w = do {
     a \<leftarrow> hash_find (blocks w) n;
     b \<leftarrow> heap w a;
     if block_state b = BLOCK_STATE_PREINIT \<and> prototype b \<noteq> None
     then do { (r, w) \<leftarrow> ubx_block_rm w (b_name b); Some w } else Some w }"

definition block_keys :: "'p world \<Rightarrow> string list" where "block_keys w = map fst (blocks w)"
definition module_keys :: "'p world \<Rightarrow> string list" where "module_keys w = map fst (modules w)"

definition ubx_node_cleanup :: "nat \<Rightarrow> 'p hooks \<Rightarrow> 'p modules_env \<Rightarrow> 'p world \<Rightarrow> 'p world option" where
  "ubx_node_cleanup n H M w = do {
     w \<leftarrow> hash_iter n block_keys (stop_body H) (first_key (block_keys w)) w;
     w \<leftarrow> hash_iter n block_keys (cleanup_body H) (first_key (block_keys w)) w;
     w \<leftarrow> hash_iter n block_keys rm_body (first_key (block_keys w)) w;
     w \<leftarrow> hash_iter n module_keys (ubx_module_unload M) (first_key (module_keys w)) w;
     Some (w\<lparr>node_name := None\<rparr>) }"

subsection \<open>What cleaning up relies on\<close>

text \<open>A module that is unloaded takes blocks out of the table, at most.\<close>

definition unload_frame :: "'p world \<Rightarrow> 'p world \<Rightarrow> bool" where
  "unload_frame w w' \<longleftrightarrow> modules w' = modules w \<and> set (blocks w') \<subseteq> set (blocks w) \<and> heap w' = heap w"

lemma unload_frame_refl [simp, intro!]: "unload_frame w w"
  by (simp add: unload_frame_def)

locale module_hooks =
  fixes M :: "'p modules_env" and known :: "fid \<Rightarrow> bool"
  assumes unload_returns: "known f \<Longrightarrow> \<exists>w'. run_cleanup M f w = Some w' \<and> unload_frame w w'"

text \<open>An invariant \<open>J\<close> under which the stop and cleanup hooks return, and which the
  operations of the clean-up keep.\<close>

locale total_hooks = block_hooks H for H :: "'p hooks" +
  fixes J :: "'p world \<Rightarrow> bool"
  assumes stop_returns: "J w \<Longrightarrow> heap w a = Some b \<Longrightarrow> block_state b = BLOCK_STATE_ACTIVE
      \<Longrightarrow> ubx_block_stop H (Some a) w \<noteq> None"
    and cleanup_returns: "J w \<Longrightarrow> heap w a = Some b \<Longrightarrow> block_state b = BLOCK_STATE_INACTIVE
      \<Longrightarrow> ubx_block_cleanup H (Some a) w \<noteq> None"
    and J_stop: "J w \<Longrightarrow> ubx_block_stop H (Some a) w = Some (r, w') \<Longrightarrow> J w'"
    and J_cleanup: "J w \<Longrightarrow> ubx_block_cleanup H (Some a) w = Some (r, w') \<Longrightarrow> J w'"
    and J_rm: "J w \<Longrightarrow> ubx_block_rm w n = Some (r, w') \<Longrightarrow> J w'"

subsection \<open>One iteration\<close>

definition proto_of :: "'p world \<Rightarrow> addr \<Rightarrow> string option option" where
  "proto_of w a = map_option prototype (heap w a)"

text \<open>\<open>moved w w' a s\<close>: only the state of block \<open>a\<close> is another, \<open>s\<close>.\<close>

definition moved :: "'p world \<Rightarrow> 'p world \<Rightarrow> addr \<Rightarrow> int \<Rightarrow> bool" where
  "moved w w' a s \<longleftrightarrow> blocks w' = blocks w \<and> modules w' = modules w \<and> types w' = types w
     \<and> (\<forall>b. state_of w' b = (if b = a then Some s else state_of w b))
     \<and> (\<forall>b. proto_of w' b = proto_of w b) \<and> (wf_node w \<longrightarrow> wf_node w')"

lemma life_moved_frame:
  assumes "hook_frame w w1" "heap w1 a = Some b1"
  shows "moved w (upd_block w1 a (\<lambda>_. b1\<lparr>block_state := s, stat_num_steps := n\<rparr>)) a s"
proof -
  have "proto_of w1 b = proto_of w b" for b
  proof -
    have "rel_option same_control (heap w b) (heap w1 b)" using assms(1) by (simp add: hook_frame_def)
    then show ?thesis by (cases "heap w b"; cases "heap w1 b") (simp_all add: proto_of_def same_control_def)
  qed
  moreover have "proto_of (upd_block w1 a (\<lambda>_. b1\<lparr>block_state := s, stat_num_steps := n\<rparr>)) b = proto_of w1 b" for b
    using assms(2) by (simp add: proto_of_def heap_upd_block)
  moreover have "wf_node (upd_block w1 a (\<lambda>_. b1\<lparr>block_state := s, stat_num_steps := n\<rparr>))" if "wf_node w"
    using wf_node_update [OF hook_frame_wf [OF that assms(1)] assms(2),
        of "b1\<lparr>block_state := s, stat_num_steps := n\<rparr>"] assms(2)
    by (simp add: upd_block_def)
  moreover have "state_of (upd_block w1 a (\<lambda>_. b1\<lparr>block_state := s, stat_num_steps := n\<rparr>)) b
      = (if b = a then Some s else state_of w b)" for b
    using assms by (simp add: state_of_def heap_upd_block hook_frame_states(1) [OF assms(1), unfolded state_of_def])
  ultimately show ?thesis using assms(1) by (simp add: moved_def hook_frame_def)
qed

lemma life_result_moved:
  assumes "life_result op a w blk 0 w'"
  shows "moved w w' a (life_to op) \<and> block_state blk = life_from op"
  using assms
proof (cases rule: life_result.cases)
  case life_moved
  then show ?thesis by (simp add: life_moved_frame)
qed simp_all

context total_hooks begin

lemma stop_step:
  assumes "J w" "heap w a = Some b" "block_state b = BLOCK_STATE_ACTIVE"
  shows "\<exists>w'. ubx_block_stop H (Some a) w = Some (0, w') \<and> J w' \<and> moved w w' a BLOCK_STATE_INACTIVE"
proof -
  obtain r w' where s: "ubx_block_stop H (Some a) w = Some (r, w')"
    using stop_returns [OF assms] by auto
  have "life_result LStop a w b r w'" by (rule stop_cases [OF s assms(2)])
  moreover from this have "r = 0" using assms(3) by cases simp_all
  ultimately show ?thesis using s J_stop [OF assms(1) s] life_result_moved by fastforce
qed

lemma cleanup_step:
  assumes "J w" "heap w a = Some b" "block_state b = BLOCK_STATE_INACTIVE"
  shows "\<exists>w'. ubx_block_cleanup H (Some a) w = Some (0, w') \<and> J w' \<and> moved w w' a BLOCK_STATE_PREINIT"
proof -
  obtain r w' where s: "ubx_block_cleanup H (Some a) w = Some (r, w')"
    using cleanup_returns [OF assms] by auto
  have "life_result LCleanup a w b r w'" by (rule cleanup_cases [OF s assms(2)])
  moreover from this have "r = 0" using assms(3) by cases simp_all
  ultimately show ?thesis using s J_cleanup [OF assms(1) s] life_result_moved by fastforce
qed

end

text \<open>Progress of a loop over the blocks: those already visited have left the states \<open>S\<close>
  for the states \<open>T\<close>.\<close>

definition visiting :: "('p world \<Rightarrow> bool) \<Rightarrow> (string \<times> ubx_module) list \<times> string list \<Rightarrow> int set \<Rightarrow> int set \<Rightarrow> 'p world \<Rightarrow> string list \<Rightarrow> bool" where
  "visiting J ms S T w ks \<longleftrightarrow> J w \<and> wf_node w \<and> (modules w, block_keys w) = ms
     \<and> (\<exists>pre. block_keys w = pre @ ks
          \<and> (\<forall>n a. (n, a) \<in> set (blocks w) \<longrightarrow> state_of w a \<in> Some ` (if n \<in> set pre then T else S)))"

lemma visitingE:
  assumes "visiting J ms S T w ks"
  obtains pre where "J w" "wf_node w" "(modules w, block_keys w) = ms" "block_keys w = pre @ ks"
    "\<And>n a. (n, a) \<in> set (blocks w) \<Longrightarrow> state_of w a \<in> Some ` (if n \<in> set pre then T else S)"
  using assms unfolding visiting_def by blast

lemma visiting_at:
  assumes "visiting J ms S T w (k # ks)"
  shows "\<exists>pre. block_keys w = pre @ k # ks \<and> k \<notin> set pre"
proof -
  obtain pre where pre: "block_keys w = pre @ k # ks" using assms by (auto simp: visiting_def)
  have "distinct (block_keys w)"
    using assms wf_nodeD(1) by (auto simp: visiting_def block_keys_def hash_ok_def)
  with pre show ?thesis by auto
qed

lemma state_of_entry:
  "wf_node w \<Longrightarrow> (n, a) \<in> set (blocks w) \<Longrightarrow> (m, a) \<in> set (blocks w) \<Longrightarrow> n = m"
proof -
  assume "wf_node w" "(n, a) \<in> set (blocks w)" "(m, a) \<in> set (blocks w)"
  then have "entry_ok w n a" "entry_ok w m a" by (auto intro: wf_nodeD(2))
  then show "n = m" by (auto simp: entry_ok_def split: option.splits)
qed

lemma entry_unique:
  "wf_node w \<Longrightarrow> (n, a) \<in> set (blocks w) \<Longrightarrow> (n, b) \<in> set (blocks w) \<Longrightarrow> a = b"
  using hash_find_iff [OF wf_nodeD(1), of w n] by (metis option.inject)

lemma visiting_step:
  assumes v: "visiting J ms S T w (k # ks)" and k: "(k, a) \<in> set (blocks w)"
    and w': "J w'" "wf_node w'" "modules w' = modules w" "blocks w' = blocks w"
    and st: "\<And>b. b \<noteq> a \<Longrightarrow> state_of w' b = state_of w b" "state_of w' a \<in> Some ` T"
  shows "visiting J ms S T w' ks"
proof -
  obtain pre where wf: "wf_node w" and pre: "block_keys w = pre @ k # ks"
    and old: "\<And>n b. (n, b) \<in> set (blocks w) \<Longrightarrow> state_of w b \<in> Some ` (if n \<in> set pre then T else S)"
    using v by (rule visitingE) blast
  have "state_of w' b \<in> Some ` (if n \<in> set (pre @ [k]) then T else S)" if "(n, b) \<in> set (blocks w)" for n b
  proof (cases "n = k")
    case True
    with that k have "b = a" using entry_unique [OF wf] by blast
    with True st(2) show ?thesis by simp
  next
    case False
    with that k have "b \<noteq> a" using state_of_entry [OF wf] by blast
    with old [OF that] st(1) False show ?thesis by simp
  qed
  moreover have "block_keys w' = (pre @ [k]) @ ks" using pre by (simp add: block_keys_def w')
  ultimately show ?thesis unfolding visiting_def using w' v pre
    by (intro conjI exI [of _ "pre @ [k]"]) (auto simp: visiting_def block_keys_def)
qed

lemma visiting_start:
  assumes "J w" "wf_node w" "(modules w, block_keys w) = ms" "\<And>n a. (n, a) \<in> set (blocks w) \<Longrightarrow> state_of w a \<in> Some ` S"
  shows "visiting J ms S T w (block_keys w)"
  unfolding visiting_def using assms by (intro conjI exI [of _ "[]"]) auto

lemma visiting_end:
  assumes "visiting J ms S T w []"
  shows "J w" "wf_node w" "(modules w, block_keys w) = ms" "(n, a) \<in> set (blocks w) \<Longrightarrow> state_of w a \<in> Some ` T"
proof -
  obtain pre where pre: "block_keys w = pre @ []"
    and all: "\<And>n a. (n, a) \<in> set (blocks w) \<Longrightarrow> state_of w a \<in> Some ` (if n \<in> set pre then T else S)"
    using assms by (rule visitingE) blast
  show "state_of w a \<in> Some ` T" if "(n, a) \<in> set (blocks w)"
  proof -
    have "n \<in> set pre" using that pre by (force simp: block_keys_def)
    with all [OF that] show ?thesis by simp
  qed
qed (use assms in \<open>simp_all add: visiting_def\<close>)

lemma visiting_entry:
  assumes "visiting J ms S T w (k # ks)"
  obtains a blk where "hash_find (blocks w) k = Some a" "(k, a) \<in> set (blocks w)" "heap w a = Some blk"
    "b_name blk = k" "block_state blk \<in> S"
proof -
  obtain pre where pre: "block_keys w = pre @ k # ks" and wf: "wf_node w"
    and all: "\<And>n a. (n, a) \<in> set (blocks w) \<Longrightarrow> state_of w a \<in> Some ` (if n \<in> set pre then T else S)"
    using assms by (rule visitingE) blast
  have "distinct (block_keys w)" using wf_nodeD(1) [OF wf] by (simp add: block_keys_def hash_ok_def)
  then have "k \<notin> set pre" by (simp add: pre)
  have "k \<in> set (block_keys w)" by (simp add: pre)
  then obtain a where a: "(k, a) \<in> set (blocks w)" by (auto simp: block_keys_def)
  from wf_nodeD(2) [OF wf this] obtain blk where blk: "heap w a = Some blk" "b_name blk = k" by (rule entry_okE)
  moreover have "hash_find (blocks w) k = Some a" using a hash_find_iff [OF wf_nodeD(1) [OF wf]] by simp
  moreover have "block_state blk \<in> S" using all [OF a] blk \<open>k \<notin> set pre\<close> by (auto simp: state_of_def)
  ultimately show ?thesis using a that by blast
qed

abbreviation "S0 \<equiv> {BLOCK_STATE_PREINIT, BLOCK_STATE_INACTIVE, BLOCK_STATE_ACTIVE}"
abbreviation "S1 \<equiv> {BLOCK_STATE_PREINIT, BLOCK_STATE_INACTIVE}"
abbreviation "S2 \<equiv> {BLOCK_STATE_PREINIT}"

context total_hooks begin

lemma stop_iteration:
  assumes v: "visiting J ms S0 S1 w (k # ks)"
  shows "\<exists>w'. stop_body H k w = Some w' \<and> visiting J ms S0 S1 w' ks"
proof -
  obtain a blk where a: "hash_find (blocks w) k = Some a" "(k, a) \<in> set (blocks w)" "heap w a = Some blk"
    and st: "block_state blk \<in> S0" using visiting_entry [OF v] by blast
  have J: "J w" "wf_node w" using v by (simp_all add: visiting_def)
  show ?thesis
  proof (cases "block_state blk = BLOCK_STATE_ACTIVE")
    case True
    from stop_step [OF J(1) a(3) True] obtain w' where
      w': "ubx_block_stop H (Some a) w = Some (0, w')" "J w'" "moved w w' a BLOCK_STATE_INACTIVE" by blast
    have "visiting J ms S0 S1 w' ks"
      by (rule visiting_step [OF v a(2) w'(2)]) (use w'(3) J in \<open>auto simp: moved_def\<close>)
    with w' a True show ?thesis by (simp add: stop_body_def)
  next
    case False
    have "visiting J ms S0 S1 w ks"
      by (rule visiting_step [OF v a(2) J refl refl]) (use st False a(3) in \<open>auto simp: state_of_def\<close>)
    with a False show ?thesis by (simp add: stop_body_def)
  qed
qed

lemma cleanup_iteration:
  assumes v: "visiting J ms S1 S2 w (k # ks)"
  shows "\<exists>w'. cleanup_body H k w = Some w' \<and> visiting J ms S1 S2 w' ks"
proof -
  obtain a blk where a: "hash_find (blocks w) k = Some a" "(k, a) \<in> set (blocks w)" "heap w a = Some blk"
    and st: "block_state blk \<in> S1" using visiting_entry [OF v] by blast
  have J: "J w" "wf_node w" using v by (simp_all add: visiting_def)
  show ?thesis
  proof (cases "block_state blk = BLOCK_STATE_INACTIVE")
    case True
    from cleanup_step [OF J(1) a(3) True] obtain w' where
      w': "ubx_block_cleanup H (Some a) w = Some (0, w')" "J w'" "moved w w' a BLOCK_STATE_PREINIT" by blast
    have "visiting J ms S1 S2 w' ks"
      by (rule visiting_step [OF v a(2) w'(2)]) (use w'(3) J in \<open>auto simp: moved_def\<close>)
    with w' a True show ?thesis by (simp add: cleanup_body_def)
  next
    case False
    have "visiting J ms S1 S2 w ks"
      by (rule visiting_step [OF v a(2) J refl refl]) (use st False a(3) in \<open>auto simp: state_of_def\<close>)
    with a False show ?thesis by (simp add: cleanup_body_def)
  qed
qed

end

subsection \<open>Removing the instances\<close>

text \<open>Progress of the third loop: what was visited and is still there is a prototype.\<close>

definition removing :: "('p world \<Rightarrow> bool) \<Rightarrow> (string \<times> ubx_module) list \<Rightarrow> 'p world \<Rightarrow> string list \<Rightarrow> bool" where
  "removing J ms w ks \<longleftrightarrow> J w \<and> wf_node w \<and> modules w = ms
     \<and> (\<forall>n a. (n, a) \<in> set (blocks w) \<longrightarrow> state_of w a = Some BLOCK_STATE_PREINIT)
     \<and> (\<exists>pre. block_keys w = pre @ ks
          \<and> (\<forall>n a. (n, a) \<in> set (blocks w) \<longrightarrow> n \<in> set pre \<longrightarrow> proto_of w a = Some None))"

lemma removingE:
  assumes "removing J ms w ks"
  obtains pre where "J w" "wf_node w" "modules w = ms" "block_keys w = pre @ ks"
    "\<And>n a. (n, a) \<in> set (blocks w) \<Longrightarrow> state_of w a = Some BLOCK_STATE_PREINIT"
    "\<And>n a. (n, a) \<in> set (blocks w) \<Longrightarrow> n \<in> set pre \<Longrightarrow> proto_of w a = Some None"
  using assms unfolding removing_def by blast

lemma block_keys_distinct: "wf_node w \<Longrightarrow> distinct (block_keys w)"
  using wf_nodeD(1) by (simp add: block_keys_def hash_ok_def)

lemma removing_at:
  assumes "removing J ms w (k # ks)"
  shows "\<exists>pre. block_keys w = pre @ k # ks \<and> k \<notin> set pre"
  using assms
proof (rule removingE)
  fix pre
  assume "wf_node w" "block_keys w = pre @ k # ks"
  with block_keys_distinct [of w] show ?thesis by auto
qed

lemma keys_hash_del:
  assumes "distinct (pre @ k # ks)" "map fst t = pre @ k # ks"
  shows "map fst (hash_del t k) = pre @ ks"
proof -
  have "map fst (hash_del t k) = filter (\<lambda>x. x \<noteq> k) (map fst t)"
    by (simp add: hash_del_def filter_map comp_def)
  also have "\<dots> = filter (\<lambda>x. x \<noteq> k) pre @ filter (\<lambda>x. x \<noteq> k) ks"
    by (simp add: assms(2))
  also have "filter (\<lambda>x. x \<noteq> k) pre = pre" by (rule filter_True) (use assms(1) in auto)
  also have "filter (\<lambda>x. x \<noteq> k) ks = ks" by (rule filter_True) (use assms(1) in auto)
  finally show ?thesis .
qed

lemma rm_iteration:
  assumes v: "removing J ms w (k # ks)" and Jrm: "\<And>n r w'. J w \<Longrightarrow> ubx_block_rm w n = Some (r, w') \<Longrightarrow> J w'"
  shows "\<exists>w'. rm_body k w = Some w' \<and> removing J ms w' ks"
  using v
proof (rule removingE)
  fix pre
  assume J: "J w" "wf_node w" "modules w = ms" and pre: "block_keys w = pre @ k # ks"
    and st: "\<And>n a. (n, a) \<in> set (blocks w) \<Longrightarrow> state_of w a = Some BLOCK_STATE_PREINIT"
    and pr: "\<And>n a. (n, a) \<in> set (blocks w) \<Longrightarrow> n \<in> set pre \<Longrightarrow> proto_of w a = Some None"
  have "k \<in> set (block_keys w)" by (simp add: pre)
  then obtain a where a: "(k, a) \<in> set (blocks w)" by (auto simp: block_keys_def)
  obtain blk where blk: "heap w a = Some blk" "b_name blk = k"
    using wf_nodeD(2) [OF J(2) a] by (rule entry_okE)
  have get: "hash_find (blocks w) k = Some a" using a hash_find_iff [OF wf_nodeD(1) [OF J(2)]] by simp
  have p: "block_state blk = BLOCK_STATE_PREINIT" using st [OF a] blk by (simp add: state_of_def)
  show ?thesis
  proof (cases "prototype blk = None")
    case True
    have "removing J ms w ks" unfolding removing_def
    proof (intro conjI exI [of _ "pre @ [k]"] allI impI)
      fix n b
      assume nb: "(n, b) \<in> set (blocks w)" "n \<in> set (pre @ [k])"
      show "proto_of w b = Some None"
      proof (cases "n = k")
        case t: True
        with nb a have "b = a" using entry_unique [OF J(2)] by blast
        with True blk show ?thesis by (simp add: proto_of_def)
      next
        case False
        with nb pr show ?thesis by simp
      qed
    qed (use J pre st in simp_all)
    with get blk True show ?thesis by (simp add: rm_body_def)
  next
    case False
    let ?w = "w\<lparr>blocks := hash_del (blocks w) k, heap := (heap w)(a := None)\<rparr>"
    have rm: "ubx_block_rm w k = Some (0, ?w)"
      using get blk False p
      by (simp add: ubx_block_rm_def ubx_block_get_def ubx_block_unregister_def ubx_block_free_def)
    have other: "b \<noteq> a" if "(n, b) \<in> set (blocks ?w)" for n b
      using that a state_of_entry [OF J(2)] by auto
    have "removing J ms ?w ks" unfolding removing_def
    proof (intro conjI exI [of _ pre] allI impI)
      show "block_keys ?w = pre @ ks"
        using keys_hash_del [of pre k ks "blocks w"] block_keys_distinct [OF J(2)] pre
        by (simp add: block_keys_def)
      show "state_of ?w b = Some BLOCK_STATE_PREINIT" if "(n, b) \<in> set (blocks ?w)" for n b
        using that st other [OF that] by (auto simp: state_of_def)
      show "proto_of ?w b = Some None" if "(n, b) \<in> set (blocks ?w)" "n \<in> set pre" for n b
        using that pr other [OF that(1)] by (auto simp: proto_of_def)
    qed (use Jrm [OF J(1) rm] rm_wf [OF J(2) rm] J(3) in simp_all)
    with get blk False p rm show ?thesis by (simp add: rm_body_def)
  qed
qed

subsection \<open>Unloading the modules\<close>

definition unloading :: "('p world \<Rightarrow> bool) \<Rightarrow> (fid \<Rightarrow> bool) \<Rightarrow> 'p world \<Rightarrow> string list \<Rightarrow> bool" where
  "unloading P known w ks \<longleftrightarrow> P w \<and> hash_ok (modules w) \<and> module_keys w = ks
     \<and> (\<forall>(n, md) \<in> set (modules w). known (m_cleanup md))"

lemma unload_iteration:
  assumes M: "module_hooks M known" and v: "unloading P known w (k # ks)"
    and P: "\<And>w w'. P w \<Longrightarrow> set (blocks w') \<subseteq> set (blocks w) \<Longrightarrow> heap w' = heap w \<Longrightarrow> P w'"
  shows "\<exists>w'. ubx_module_unload M k w = Some w' \<and> unloading P known w' ks"
proof -
  have ok: "P w" "hash_ok (modules w)" "map fst (modules w) = k # ks"
    and known: "\<And>n md. (n, md) \<in> set (modules w) \<Longrightarrow> known (m_cleanup md)"
    using v by (auto simp: unloading_def module_keys_def)
  obtain md rest where md: "modules w = (k, md) # rest" using ok(3) by auto
  then have get: "hash_find (modules w) k = Some md" by (simp add: hash_find_def)
  let ?w = "w\<lparr>modules := hash_del (modules w) k\<rparr>"
  have "known (m_cleanup md)" using known [of k md] md by simp
  then obtain w' where w': "run_cleanup M (m_cleanup md) ?w = Some w'" "unload_frame ?w w'"
    using module_hooks.unload_returns [OF M] by blast
  have "map fst (hash_del (modules w) k) = [] @ ks"
    using ok(2,3) by (intro keys_hash_del) (auto simp: hash_ok_def)
  then have "unloading P known w' ks"
    using w'(2) ok(2) known P [OF ok(1)]
    by (auto simp: unloading_def unload_frame_def module_keys_def ht.ok_del)
  with get w'(1) show ?thesis by (auto simp: ubx_module_unload_def)
qed

text \<open>The four loops together.\<close>

definition clean :: "'p world \<Rightarrow> bool" where
  "clean w \<longleftrightarrow> (\<forall>n a. (n, a) \<in> set (blocks w) \<longrightarrow>
     state_of w a = Some BLOCK_STATE_PREINIT \<and> proto_of w a = Some None)"

lemma unload_loop:
  fixes w :: "'p world"
  assumes "module_hooks M known" "unloading clean known w ks" "length ks < n"
  shows "\<exists>w'. hash_iter n module_keys (ubx_module_unload M) (first_key ks) w = Some w' \<and> unloading clean known w' []"
proof (rule hash_iter_inv [where I = "unloading clean known"])
  show "\<exists>w'. ubx_module_unload M k w = Some w' \<and> unloading clean known w' ks"
    if "unloading clean known w (k # ks)" for k ks and w :: "'p world"
    using assms(1) that by (rule unload_iteration) (auto simp: clean_def state_of_def proto_of_def)
  show "\<exists>pre. module_keys w = pre @ k # ks \<and> k \<notin> set pre" if "unloading clean known w (k # ks)"
    for k ks and w :: "'p world"
    using that by (intro exI [of _ "[]"]) (simp add: unloading_def)
qed (fact assms)+

context total_hooks begin

lemma stop_loop:
  assumes "visiting J ms S0 S1 w ks" "length ks < n"
  shows "\<exists>w'. hash_iter n block_keys (stop_body H) (first_key ks) w = Some w' \<and> visiting J ms S0 S1 w' []"
  by (rule hash_iter_inv [where I = "visiting J ms S0 S1"])
    (fact visiting_at stop_iteration assms)+

lemma cleanup_loop:
  assumes "visiting J ms S1 S2 w ks" "length ks < n"
  shows "\<exists>w'. hash_iter n block_keys (cleanup_body H) (first_key ks) w = Some w' \<and> visiting J ms S1 S2 w' []"
  by (rule hash_iter_inv [where I = "visiting J ms S1 S2"])
    (fact visiting_at cleanup_iteration assms)+

lemma rm_loop:
  assumes "removing J ms w ks" "length ks < n"
  shows "\<exists>w'. hash_iter n block_keys rm_body (first_key ks) w = Some w' \<and> removing J ms w' []"
proof (rule hash_iter_inv [where I = "removing J ms"])
  show "\<exists>w'. rm_body k w = Some w' \<and> removing J ms w' ks" if "removing J ms w (k # ks)" for k ks w
    using that J_rm by (rule rm_iteration)
qed (fact removing_at assms)+

lemma node_cleanup_done:
  assumes M: "module_hooks M known" and J: "J w" and wf: "wf_node w"
    and st: "\<And>n a. (n, a) \<in> set (blocks w) \<Longrightarrow> state_of w a \<in> Some ` S0"
    and ms: "hash_ok (modules w)" "\<And>n md. (n, md) \<in> set (modules w) \<Longrightarrow> known (m_cleanup md)"
    and n: "length (blocks w) < n" "length (modules w) < n"
  shows "\<exists>w'. ubx_node_cleanup n H M w = Some w' \<and> clean w' \<and> modules w' = [] \<and> node_name w' = None"
proof -
  let ?ms = "(modules w, block_keys w)"
  have len: "length (block_keys w) < n" "length (module_keys w) < n"
    using n by (simp_all add: block_keys_def module_keys_def)
  have v0: "visiting J ?ms S0 S1 w (block_keys w)"
    by (rule visiting_start) (use J wf st in blast)+
  obtain w1 where w1: "hash_iter n block_keys (stop_body H) (first_key (block_keys w)) w = Some w1"
    "visiting J ?ms S0 S1 w1 []"
    using stop_loop [OF v0 len(1)] by blast
  note e1 = visiting_end [OF w1(2)]
  have v1: "visiting J ?ms S1 S2 w1 (block_keys w1)" by (rule visiting_start) (use e1 in blast)+
  have len1: "length (block_keys w1) < n" using len(1) e1(3) by simp
  obtain w2 where w2: "hash_iter n block_keys (cleanup_body H) (first_key (block_keys w1)) w1 = Some w2"
    "visiting J ?ms S1 S2 w2 []"
    using cleanup_loop [OF v1 len1] by blast
  note e2 = visiting_end [OF w2(2)]
  have len2: "length (block_keys w2) < n" using len(1) e2(3) by simp
  have v2: "removing J (modules w) w2 (block_keys w2)"
    unfolding removing_def using e2 by (intro conjI exI [of _ "[]"]) auto
  obtain w3 where w3: "hash_iter n block_keys rm_body (first_key (block_keys w2)) w2 = Some w3"
    "removing J (modules w) w3 []"
    using rm_loop [OF v2 len2] by blast
  have "clean w3" "modules w3 = modules w"
    using w3(2) by (auto simp: removing_def clean_def block_keys_def) force
  then have v3: "unloading clean known w3 (module_keys w3)" and len3: "length (module_keys w3) < n"
    using ms len(2) by (auto simp: unloading_def module_keys_def)
  obtain w4 where w4:
    "hash_iter n module_keys (ubx_module_unload M) (first_key (module_keys w3)) w3 = Some w4"
    "unloading clean known w4 []"
    using unload_loop [OF M v3 len3] by blast
  have "ubx_node_cleanup n H M w = Some (w4\<lparr>node_name := None\<rparr>)"
    by (simp add: ubx_node_cleanup_def w1(1) w2(1) w3(1) w4(1))
  with w4(2) show ?thesis
    by (auto simp: unloading_def module_keys_def clean_def state_of_def proto_of_def)
qed

end

end
