(* ===== verification/LfdsFreelist.thy ===== *)
theory LfdsFreelist
  imports Prelude
begin

text \<open>
  The lock-free free list of \<open>src/std_blocks/lfds_buffers/liblfds611/src/lfds611_freelist\<close>, on
  which the queue, the ring buffer and the cyclic interactions are built. \<open>push\<close> and
  \<open>pop\<close> are modelled one access to shared memory at a time, so that other threads can run in
  between; \<open>fl_pc\<close> holds a thread's local variables. Memory is sequentially consistent,
  which the library's barriers ask for. Elements are addresses (\<open>None\<close> is NULL) and \<open>'u\<close> is
  what an element carries. The sequential functions run the same code with nobody in between.
\<close>

subsection \<open>Data and the atomic operations\<close>

record 'u fl_elem =
  fe_next :: "addr option"
  fe_ctr :: u64
  fe_data :: "'u option"

record 'u freelist =
  fl_top :: "addr option"
  fl_topc :: u64
  fl_aba :: u64
  fl_count :: u64
  fl_elems :: "addr \<Rightarrow> 'u fl_elem option"

text \<open>The compare-and-swap of two words: whether it succeeded, the destination, and the
  comparand, into which the old destination is loaded.\<close>

definition lfds_dcas :: "'a \<times> 'b \<Rightarrow> 'a \<times> 'b \<Rightarrow> 'a \<times> 'b \<Rightarrow> bool \<times> ('a \<times> 'b) \<times> ('a \<times> 'b)" where
  "lfds_dcas dest exch cmp = (if dest = cmp then (True, exch, dest) else (False, dest, dest))"

definition lfds_increment :: "u64 \<Rightarrow> u64" where
  "lfds_increment v = v + 1"

subsection \<open>One access of a thread\<close>

text \<open>
  The local variables of a thread in \<open>lfds611_freelist_pop\<close> and \<open>lfds611_freelist_push\<close>,
  named after what comes next: reading the counter and the pointer of the top, the loop
  test, reading the two words of the element's link, the swap; and for a push drawing a
  counter, reading the top, writing the link, the swap.
\<close>

datatype fl_pc =
    Idle
  | PopC
  | PopP u64
  | PopT "addr option" u64
  | PopN addr u64 "addr option"
  | PopX addr u64 "addr option" u64
  | PopDone "addr option"
  | PushA addr
  | PushP addr u64
  | PushC addr u64 "addr option"
  | PushN addr u64 "addr option" u64
  | PushM addr u64 "addr option" u64
  | PushX addr u64 "addr option" u64
  | PushDone

definition set_link :: "'u freelist \<Rightarrow> addr \<Rightarrow> ('u fl_elem \<Rightarrow> 'u fl_elem) \<Rightarrow> 'u freelist option" where
  "set_link l a f = do { e \<leftarrow> fl_elems l a; Some (l\<lparr>fl_elems := (fl_elems l)(a \<mapsto> f e)\<rparr>) }"

fun fl_exec :: "fl_pc \<Rightarrow> 'u freelist \<Rightarrow> (fl_pc \<times> 'u freelist) option" where
  "fl_exec PopC l = Some (PopP (fl_topc l), l)"
| "fl_exec (PopP c) l = Some (PopT (fl_top l) c, l)"
| "fl_exec (PopT None c) l = Some (PopDone None, l)"
| "fl_exec (PopT (Some p) c) l = do { e \<leftarrow> fl_elems l p; Some (PopN p c (fe_next e), l) }"
| "fl_exec (PopN p c n) l = do { e \<leftarrow> fl_elems l p; Some (PopX p c n (fe_ctr e), l) }"
| "fl_exec (PopX p c n k) l =
     (case lfds_dcas (fl_top l, fl_topc l) (n, k) (Some p, c) of
        (ok, (t, tc), (cp, cc)) \<Rightarrow>
          Some (if ok then PopDone (Some p) else PopT cp cc, l\<lparr>fl_top := t, fl_topc := tc\<rparr>))"
| "fl_exec (PushA fe) l =
     (let c = lfds_increment (fl_aba l) in Some (PushP fe c, l\<lparr>fl_aba := c\<rparr>))"
| "fl_exec (PushP fe c) l = Some (PushC fe c (fl_top l), l)"
| "fl_exec (PushC fe c p) l = Some (PushN fe c p (fl_topc l), l)"
| "fl_exec (PushN fe c p k) l = do {
     l \<leftarrow> set_link l fe (\<lambda>e. e\<lparr>fe_next := p\<rparr>); Some (PushM fe c p k, l) }"
| "fl_exec (PushM fe c p k) l = do {
     l \<leftarrow> set_link l fe (\<lambda>e. e\<lparr>fe_ctr := k\<rparr>); Some (PushX fe c p k, l) }"
| "fl_exec (PushX fe c p k) l =
     (case lfds_dcas (fl_top l, fl_topc l) (Some fe, c) (p, k) of
        (ok, (t, tc), (cp, cc)) \<Rightarrow>
          Some (if ok then PushDone else PushN fe c cp cc, l\<lparr>fl_top := t, fl_topc := tc\<rparr>))"
| "fl_exec Idle l = None"
| "fl_exec (PopDone r) l = None"
| "fl_exec PushDone l = None"

subsection \<open>A thread running alone\<close>

fun fl_solo :: "nat \<Rightarrow> fl_pc \<Rightarrow> 'u freelist \<Rightarrow> (fl_pc \<times> 'u freelist) option" where
  "fl_solo n (PopDone r) l = Some (PopDone r, l)"
| "fl_solo n PushDone l = Some (PushDone, l)"
| "fl_solo 0 pc l = None"
| "fl_solo (Suc n) pc l = do { (pc, l) \<leftarrow> fl_exec pc l; fl_solo n pc l }"

definition freelist_pop :: "'u freelist \<Rightarrow> (addr option \<times> 'u freelist) option" where
  "freelist_pop l = do { (pc, l) \<leftarrow> fl_solo 6 PopC l;
     (case pc of PopDone r \<Rightarrow> Some (r, l) | _ \<Rightarrow> None) }"

definition freelist_push :: "addr \<Rightarrow> 'u freelist \<Rightarrow> 'u freelist option" where
  "freelist_push fe l = do { (pc, l) \<leftarrow> fl_solo 6 (PushA fe) l; Some l }"

lemma freelist_pop_eq:
  "freelist_pop l = (case fl_top l of None \<Rightarrow> Some (None, l)
     | Some p \<Rightarrow> do { e \<leftarrow> fl_elems l p; Some (Some p, l\<lparr>fl_top := fe_next e, fl_topc := fe_ctr e\<rparr>) })"
  by (auto simp: freelist_pop_def lfds_dcas_def numeral_eq_Suc split: option.splits Option.bind_splits)

lemma freelist_push_eq:
  "freelist_push a l = do { e \<leftarrow> fl_elems l a;
     Some (l\<lparr>fl_top := Some a, fl_topc := fl_aba l + 1, fl_aba := fl_aba l + 1,
            fl_elems := (fl_elems l)(a \<mapsto> e\<lparr>fe_next := fl_top l, fe_ctr := fl_topc l\<rparr>)\<rparr>) }"
  by (auto simp: freelist_push_def lfds_dcas_def lfds_increment_def set_link_def numeral_eq_Suc Let_def
      split: Option.bind_splits)

subsection \<open>Making and deleting a list\<close>

text \<open>
  The heap a list is made in is a parameter: \<open>mal\<close> allocates an object there, and the function
  that makes an element's data, which may be NULL, gives its result and the data. The links of
  a new element are not initialised; the push that follows writes them before anything reads
  them. When fewer elements were made than asked for, the list is given back and the elements
  that were made are lost.
\<close>

type_synonym ('w, 'u) maker = "('w \<Rightarrow> int \<times> 'u option \<times> 'w) option"

definition freelist_internal_new_element ::
    "('w \<Rightarrow> addr option \<times> 'w) \<Rightarrow> ('w, 'u) maker \<Rightarrow> 'u freelist \<Rightarrow> 'w
     \<Rightarrow> int \<times> addr option \<times> 'u freelist \<times> 'w" where
  "freelist_internal_new_element mal init l w =
     (case mal w of
        (None, w) \<Rightarrow> (0, None, l, w)
      | (Some a, w) \<Rightarrow>
          let (rv, u, w) = (case init of None \<Rightarrow> (1, None, w) | Some f \<Rightarrow> f w) in
          if rv = 0 then (0, None, l, w)
          else (rv, Some a,
                l\<lparr>fl_elems := (fl_elems l)(a \<mapsto> \<lparr>fe_next = None, fe_ctr = 0, fe_data = u\<rparr>),
                  fl_count := (if rv = 1 then lfds_increment (fl_count l) else fl_count l)\<rparr>, w))"

definition freelist_guaranteed_pop where
  "freelist_guaranteed_pop mal init l w =
     (case freelist_internal_new_element mal init l w of (_, fe, l, w) \<Rightarrow> (fe, l, w))"

fun freelist_new_elements ::
    "('w \<Rightarrow> addr option \<times> 'w) \<Rightarrow> ('w, 'u) maker \<Rightarrow> nat \<Rightarrow> 'u freelist \<Rightarrow> 'w
     \<Rightarrow> (u64 \<times> 'u freelist \<times> 'w) option" where
  "freelist_new_elements mal init 0 l w = Some (0, l, w)"
| "freelist_new_elements mal init (Suc n) l w =
     (case freelist_internal_new_element mal init l w of
        (rv, fe, l, w) \<Rightarrow>
          if rv \<noteq> 0 then do {
            fe \<leftarrow> fe;
            l \<leftarrow> freelist_push fe l;
            (count, l, w) \<leftarrow> freelist_new_elements mal init n l w;
            Some (count + 1, l, w) }
          else freelist_new_elements mal init n l w)"

lemma new_elements_numeral:
  "freelist_new_elements mal init (numeral k) l w =
     (case freelist_internal_new_element mal init l w of
        (rv, fe, l, w) \<Rightarrow>
          if rv \<noteq> 0 then do {
            fe \<leftarrow> fe;
            l \<leftarrow> freelist_push fe l;
            (count, l, w) \<leftarrow> freelist_new_elements mal init (pred_numeral k) l w;
            Some (count + 1, l, w) }
          else freelist_new_elements mal init (pred_numeral k) l w)"
  by (simp add: numeral_eq_Suc)

definition empty_freelist :: "'u freelist" where
  "empty_freelist = \<lparr>fl_top = None, fl_topc = 0, fl_aba = 0, fl_count = 0, fl_elems = \<lambda>_. None\<rparr>"

definition freelist_new ::
    "('w \<Rightarrow> addr option \<times> 'w) \<Rightarrow> ('w, 'u) maker \<Rightarrow> u64 \<Rightarrow> 'w
     \<Rightarrow> (int \<times> 'u freelist option \<times> 'w) option" where
  "freelist_new mal init number_elements w =
     (case mal w of
        (None, w) \<Rightarrow> Some (0, None, w)
      | (Some _, w) \<Rightarrow> do {
          (count, l, w) \<leftarrow> freelist_new_elements mal init (unat number_elements) empty_freelist w;
          if count = number_elements then Some (1, Some l, w) else Some (0, None, w) })"

text \<open>Deleting pops every element, hands its data to the caller's function and frees it; the data
  are returned in that order. The loop ends with the list; \<open>n\<close> bounds its length.\<close>

fun freelist_delete :: "nat \<Rightarrow> 'u freelist \<Rightarrow> 'u option list option" where
  "freelist_delete n l = do {
     (fe, l) \<leftarrow> freelist_pop l;
     (case fe of
        None \<Rightarrow> Some []
      | Some a \<Rightarrow> (case n of 0 \<Rightarrow> None | Suc n \<Rightarrow> do {
          e \<leftarrow> fl_elems l a;
          us \<leftarrow> freelist_delete n (l\<lparr>fl_elems := (fl_elems l)(a := None)\<rparr>);
          Some (fe_data e # us) })) }"

declare freelist_delete.simps [simp del]

definition freelist_get_user_data :: "'u freelist \<Rightarrow> addr \<Rightarrow> 'u option option" where
  "freelist_get_user_data l a = do { e \<leftarrow> fl_elems l a; Some (fe_data e) }"

definition freelist_set_user_data :: "'u freelist \<Rightarrow> addr \<Rightarrow> 'u option \<Rightarrow> 'u freelist option" where
  "freelist_set_user_data l a u = set_link l a (\<lambda>e. e\<lparr>fe_data := u\<rparr>)"

subsection \<open>The list without its counters\<close>

fun fl_path :: "(addr \<Rightarrow> 'u fl_elem option) \<Rightarrow> addr option \<Rightarrow> addr list \<Rightarrow> bool" where
  "fl_path m p [] \<longleftrightarrow> p = None"
| "fl_path m p (a # xs) \<longleftrightarrow> p = Some a \<and> (\<exists>e. m a = Some e \<and> fl_path m (fe_next e) xs)"

text \<open>A well-formed list with the elements \<open>xs\<close>; \<open>data l a\<close> is what an element carries.\<close>

definition free_list :: "'u freelist \<Rightarrow> addr list \<Rightarrow> bool" where
  "free_list l xs \<longleftrightarrow> fl_path (fl_elems l) (fl_top l) xs \<and> distinct xs"

definition fl_data :: "'u freelist \<Rightarrow> addr \<Rightarrow> 'u option" where
  "fl_data l a = do { e \<leftarrow> fl_elems l a; fe_data e }"

lemma fl_path_other: "a \<notin> set xs \<Longrightarrow> fl_path (m(a := v)) p xs = fl_path m p xs"
  by (induction xs arbitrary: p) auto

lemma fl_path_dom: "fl_path m p xs \<Longrightarrow> a \<in> set xs \<Longrightarrow> m a \<noteq> None"
  by (induction xs arbitrary: p) auto

lemma pop_empty: "free_list l [] \<Longrightarrow> freelist_pop l = Some (None, l)"
  by (simp add: free_list_def freelist_pop_eq)

lemma pop_first:
  assumes "free_list l (a # xs)"
  shows "\<exists>l'. freelist_pop l = Some (Some a, l') \<and> free_list l' xs \<and> fl_elems l' = fl_elems l
    \<and> fl_count l' = fl_count l"
  using assms by (auto simp: free_list_def freelist_pop_eq)

lemma push_first:
  assumes "free_list l xs" "a \<notin> set xs" "fl_elems l a \<noteq> None"
  shows "\<exists>l'. freelist_push a l = Some l' \<and> free_list l' (a # xs)
    \<and> (\<forall>b. fl_data l' b = fl_data l b) \<and> dom (fl_elems l') = dom (fl_elems l) \<and> fl_count l' = fl_count l"
  using assms by (auto simp: free_list_def freelist_push_eq fl_path_other fl_data_def)

lemma delete_all:
  assumes "free_list l xs" "length xs \<le> n"
  shows "freelist_delete n l = Some (map (fl_data l) xs)"
  using assms
proof (induction xs arbitrary: n l)
  case Nil
  then show ?case using pop_empty [OF Nil(1)] by (subst freelist_delete.simps) simp
next
  case (Cons a xs)
  obtain l' where l': "freelist_pop l = Some (Some a, l')" "free_list l' xs" "fl_elems l' = fl_elems l"
    using pop_first [OF Cons.prems(1)] by blast
  obtain e where e: "fl_elems l a = Some e" using Cons.prems(1) by (auto simp: free_list_def)
  let ?l = "l'\<lparr>fl_elems := (fl_elems l')(a := None)\<rparr>"
  have a: "a \<notin> set xs" using Cons.prems(1) by (simp add: free_list_def)
  then have "free_list ?l xs" using l' by (simp add: free_list_def fl_path_other)
  moreover have "map (fl_data ?l) xs = map (fl_data l) xs" using a l'(3) by (auto simp: fl_data_def)
  ultimately show ?case using Cons.IH [of ?l "n - 1"] Cons.prems(2) l' e
    by (subst freelist_delete.simps) (auto simp: fl_data_def split: nat.splits)
qed

subsection \<open>What making a list gives\<close>

text \<open>
  What the heap and the function that makes the data promise: addresses are new (\<open>nxt\<close> bounds
  the ones in use), the function reports success or failure, and its data belong to the
  addresses between two bounds.
\<close>

locale element_maker =
  fixes mal :: "'w \<Rightarrow> addr option \<times> 'w" and init :: "('w, 'u) maker"
    and nxt :: "'w \<Rightarrow> addr" and within :: "'u option \<Rightarrow> addr \<Rightarrow> addr \<Rightarrow> bool"
  assumes mal_mono: "mal w = (r, w') \<Longrightarrow> nxt w \<le> nxt w'"
    and mal_new: "mal w = (Some a, w') \<Longrightarrow> nxt w \<le> a \<and> a < nxt w'"
    and has_init: "init \<noteq> None"
    and init_ok: "init = Some f \<Longrightarrow> f w = (rv, u, w') \<Longrightarrow>
      nxt w \<le> nxt w' \<and> (rv = 0 \<or> rv = 1 \<and> within u (nxt w) (nxt w'))"
begin

definition made :: "'u freelist \<Rightarrow> addr list \<Rightarrow> addr \<Rightarrow> bool" where
  "made l as bound \<longleftrightarrow> (\<forall>a \<in> set as. \<exists>lo hi. a < lo \<and> lo \<le> hi \<and> hi \<le> bound \<and> within (fl_data l a) lo hi
     \<and> (\<forall>b \<in> set as. b \<le> a \<or> hi \<le> b))"

lemma new_element_cases:
  assumes "freelist_internal_new_element mal init l w = (rv, fe, l', w')"
  shows "(rv = 0 \<and> fe = None \<and> l' = l \<and> nxt w \<le> nxt w') \<or>
    (rv = 1 \<and> (\<exists>a u lo. fe = Some a \<and> nxt w \<le> a \<and> a < lo \<and> lo \<le> nxt w' \<and> within u lo (nxt w')
      \<and> l' = l\<lparr>fl_elems := (fl_elems l)(a \<mapsto> \<lparr>fe_next = None, fe_ctr = 0, fe_data = u\<rparr>),
             fl_count := fl_count l + 1\<rparr>))"
proof -
  obtain f where f: "init = Some f" using has_init by auto
  obtain fe1 w1 where m: "mal w = (fe1, w1)" by (cases "mal w")
  show ?thesis
  proof (cases fe1)
    case None
    with assms m mal_mono [OF m] show ?thesis by (simp add: freelist_internal_new_element_def)
  next
    case (Some a)
    obtain rv1 u w2 where u: "f w1 = (rv1, u, w2)" by (cases "f w1")
    from mal_new [OF m [unfolded Some]] init_ok [OF f u] assms m Some f u show ?thesis
      by (auto simp: freelist_internal_new_element_def lfds_increment_def split: if_splits)
  qed
qed

lemma new_elements_spec:
  assumes "free_list l xs" "dom (fl_elems l) \<subseteq> {..<nxt w}"
  shows "\<exists>new l' w'. freelist_new_elements mal init n l w = Some (of_nat (length new), l', w')
    \<and> free_list l' (new @ xs) \<and> length new \<le> n \<and> (\<forall>a \<in> set new. nxt w \<le> a) \<and> nxt w \<le> nxt w'
    \<and> made l' new (nxt w') \<and> (\<forall>b \<in> dom (fl_elems l). fl_data l' b = fl_data l b)
    \<and> dom (fl_elems l') \<subseteq> {..<nxt w'}"
  using assms
proof (induction n arbitrary: l xs w)
  case 0
  then show ?case by (auto simp: made_def intro!: exI [of _ "[]"])
next
  case (Suc n)
  obtain rv fe l1 w1 where e: "freelist_internal_new_element mal init l w = (rv, fe, l1, w1)"
    by (metis prod_cases4)
  from new_element_cases [OF e] show ?case
  proof (elim disjE conjE exE)
    assume no: "rv = 0" "fe = None" "l1 = l" "nxt w \<le> nxt w1"
    then have "dom (fl_elems l) \<subseteq> {..<nxt w1}" using Suc.prems(2) by auto
    from Suc.IH [OF Suc.prems(1) this] no show ?thesis
      by (elim exE conjE) (intro exI conjI, auto simp: e)
  next
    fix a u lo
    assume yes: "rv = 1" "fe = Some a" "nxt w \<le> a" "a < lo" "lo \<le> nxt w1" "within u lo (nxt w1)"
      and l1: "l1 = l\<lparr>fl_elems := (fl_elems l)(a \<mapsto> \<lparr>fe_next = None, fe_ctr = 0, fe_data = u\<rparr>),
                   fl_count := fl_count l + 1\<rparr>"
    have a: "a \<notin> dom (fl_elems l)" using Suc.prems(2) yes(3) by auto
    have "a \<notin> set xs" using Suc.prems(1) fl_path_dom a by (auto simp: free_list_def)
    moreover from this have "free_list l1 xs" using Suc.prems(1) by (simp add: l1 free_list_def fl_path_other)
    ultimately obtain l2 where l2: "freelist_push a l1 = Some l2" "free_list l2 (a # xs)"
      "\<forall>b. fl_data l2 b = fl_data l1 b" "dom (fl_elems l2) = insert a (dom (fl_elems l))"
      using push_first [of l1 xs a] by (auto simp: l1)
    have "dom (fl_elems l2) \<subseteq> {..<nxt w1}" using l2(4) Suc.prems(2) yes by auto
    from Suc.IH [OF l2(2) this] obtain new l' w' where
      r: "freelist_new_elements mal init n l2 w1 = Some (of_nat (length new), l', w')"
        "free_list l' (new @ a # xs)" "length new \<le> n" "\<forall>b \<in> set new. nxt w1 \<le> b" "nxt w1 \<le> nxt w'"
        "made l' new (nxt w')" "\<forall>b \<in> dom (fl_elems l2). fl_data l' b = fl_data l2 b"
        "dom (fl_elems l') \<subseteq> {..<nxt w'}" by blast
    have data: "fl_data l' a = u" using r(7) l2(3,4) by (auto simp: l1 fl_data_def)
    have "\<exists>lo hi. a < lo \<and> lo \<le> hi \<and> hi \<le> nxt w' \<and> within (fl_data l' a) lo hi \<and> (\<forall>c \<in> set (new @ [a]). c \<le> a \<or> hi \<le> c)"
      using data yes r(4,5) by (intro exI [of _ lo] exI [of _ "nxt w1"]) auto
    moreover have "\<exists>lo hi. b < lo \<and> lo \<le> hi \<and> hi \<le> nxt w' \<and> within (fl_data l' b) lo hi
        \<and> (\<forall>c \<in> set (new @ [a]). c \<le> b \<or> hi \<le> c)" if "b \<in> set new" for b
    proof -
      have "a \<le> b" using r(4) that yes(4,5) by fastforce
      with r(6) that show ?thesis unfolding made_def by fastforce
    qed
    ultimately have "made l' (new @ [a]) (nxt w')" unfolding made_def by auto
    moreover have "\<forall>b \<in> dom (fl_elems l). fl_data l' b = fl_data l b"
      using r(7) l2(3,4) a by (auto simp: l1 fl_data_def split: if_splits)
    moreover have "freelist_new_elements mal init (Suc n) l w = Some (of_nat (length (new @ [a])), l', w')"
      using e yes l2(1) r(1) by (simp add: add.commute)
    ultimately show ?thesis using r yes
      by (intro exI [of _ "new @ [a]"] exI [of _ l'] exI [of _ w']) (auto intro: order_trans)
  qed
qed

lemma freelist_new_spec:
  assumes "freelist_new mal init n w = Some (r, lo, w')"
  shows "(r = 0 \<and> lo = None) \<or> (\<exists>l as. r = 1 \<and> lo = Some l \<and> free_list l as \<and> length as = unat n
    \<and> made l as (nxt w') \<and> (\<forall>a \<in> set as. nxt w \<le> a))"
proof -
  obtain s w1 where m: "mal w = (s, w1)" by (cases "mal w")
  show ?thesis
  proof (cases s)
    case None
    with assms m show ?thesis by (simp add: freelist_new_def)
  next
    case (Some x)
    have e: "free_list (empty_freelist :: 'u freelist) []" "dom (fl_elems (empty_freelist :: 'u freelist)) \<subseteq> {..<nxt w1}"
      by (simp_all add: free_list_def empty_freelist_def)
    from new_elements_spec [OF e, of "unat n"] obtain new l' w2 where
      r: "freelist_new_elements mal init (unat n) empty_freelist w1 = Some (of_nat (length new), l', w2)"
        "free_list l' new" "length new \<le> unat n" "\<forall>a \<in> set new. nxt w1 \<le> a" "made l' new (nxt w2)" by auto
    have "length new = unat n" if "of_nat (length new) = n"
      using le_unat_uoi [OF r(3)] that by simp
    with assms m Some r mal_mono [OF m] show ?thesis
      by (fastforce simp: freelist_new_def split: if_splits)
  qed
qed

lemma freelist_new_total: "freelist_new mal init n w \<noteq> None"
proof -
  obtain s w1 where m: "mal w = (s, w1)" by (cases "mal w")
  have "free_list (empty_freelist :: 'u freelist) []" "dom (fl_elems (empty_freelist :: 'u freelist)) \<subseteq> {..<nxt w1}"
    by (simp_all add: free_list_def empty_freelist_def)
  from new_elements_spec [OF this, of "unat n"] obtain c l' w2 where
    "freelist_new_elements mal init (unat n) empty_freelist w1 = Some (c, l', w2)" by blast
  with m show ?thesis by (cases s; cases "c = n") (simp_all add: freelist_new_def)
qed

end

end
