(* ===== verification/LfdsQueue.thy ===== *)
theory LfdsQueue
  imports LfdsFreelist
begin

text \<open>
  The queue of \<open>liblfds611/src/lfds611_queue\<close>: a linked list with a leading dummy element, whose
  elements come from a free list. As for the free list, enqueueing and dequeueing are given one
  access to shared memory at a time (\<open>q_exec\<close>); the functions run them with no other thread in
  between. \<open>'v\<close> is what is queued.
\<close>

subsection \<open>Data and the heap\<close>

record lfds_heap =
  hp_next :: addr
  hp_plan :: "bool list"

definition lfds_malloc :: "lfds_heap \<Rightarrow> addr option \<times> lfds_heap" where
  "lfds_malloc h = (if (case hp_plan h of [] \<Rightarrow> True | b # _ \<Rightarrow> b)
     then (Some (hp_next h), h\<lparr>hp_next := Suc (hp_next h), hp_plan := tl (hp_plan h)\<rparr>)
     else (None, h\<lparr>hp_plan := tl (hp_plan h)\<rparr>))"

record 'v queue_elem =
  qe_next :: "addr option"
  qe_ctr :: u64
  qe_fe :: addr
  qe_data :: "'v option"

record 'v lqueue =
  lq_enq :: "addr option"
  lq_enqc :: u64
  lq_deq :: "addr option"
  lq_deqc :: u64
  lq_aba :: u64
  lq_fs :: "addr freelist"
  lq_elems :: "addr \<Rightarrow> 'v queue_elem option"

definition upd_elem :: "'v lqueue \<Rightarrow> addr \<Rightarrow> ('v queue_elem \<Rightarrow> 'v queue_elem) \<Rightarrow> 'v lqueue option" where
  "upd_elem q a f = do { e \<leftarrow> lq_elems q a; Some (q\<lparr>lq_elems := (lq_elems q)(a \<mapsto> f e)\<rparr>) }"

subsection \<open>One access of a thread\<close>

text \<open>
  The local variables of \<open>lfds611_queue_internal_queue\<close> and \<open>lfds611_queue_dequeue\<close>: the new
  element, the copies of the two ends and of the link that was followed, and what comes next.
\<close>

datatype 'v q_pc =
    Enq0 addr
  | Enq1 addr "addr option"
  | Enq2 addr "addr option" u64
  | Enq3 addr addr u64 "addr option"
  | Enq4 addr addr u64 "addr option" u64
  | Enq5 addr addr u64 "addr option" u64
  | EnqLink addr addr u64 u64
  | EnqSwing addr addr u64 addr u64
  | EnqTail addr addr u64
  | EnqDone
  | Deq0
  | Deq1 "addr option"
  | Deq2 "addr option" u64
  | Deq3 "addr option" u64 "addr option"
  | Deq4 "addr option" u64 "addr option" u64
  | Deq5 addr u64 "addr option" u64 "addr option"
  | Deq6 addr u64 "addr option" u64 "addr option" u64
  | Deq7 addr u64 "addr option" u64 "addr option" u64
  | DeqSwing "addr option" u64 "addr option"
  | DeqData addr u64 "addr option"
  | DeqSwap addr u64 "addr option" "'v option"
  | DeqEmpty
  | DeqDone addr "'v option"

fun q_exec :: "'v q_pc \<Rightarrow> 'v lqueue \<Rightarrow> ('v q_pc \<times> 'v lqueue) option" where
  "q_exec (Enq0 n) q = Some (Enq1 n (lq_enq q), q)"
| "q_exec (Enq1 n e) q = Some (Enq2 n e (lq_enqc q), q)"
| "q_exec (Enq2 n e ec) q = do { e \<leftarrow> e; x \<leftarrow> lq_elems q e; Some (Enq3 n e ec (qe_next x), q) }"
| "q_exec (Enq3 n e ec nx) q = do { x \<leftarrow> lq_elems q e; Some (Enq4 n e ec nx (qe_ctr x), q) }"
| "q_exec (Enq4 n e ec nx nc) q =
     Some (if lq_enq q = Some e then Enq5 n e ec nx nc else Enq0 n, q)"
| "q_exec (Enq5 n e ec nx nc) q =
     Some (if lq_enqc q \<noteq> ec then Enq0 n
           else (case nx of None \<Rightarrow> EnqLink n e ec nc | Some x \<Rightarrow> EnqSwing n e ec x (ec + 1)), q)"
| "q_exec (EnqLink n e ec nc) q = do {
     x \<leftarrow> lq_elems q e;
     (case lfds_dcas (qe_next x, qe_ctr x) (Some n, nc + 1) (None, nc) of
        (ok, (p, c), _) \<Rightarrow> do {
          q \<leftarrow> upd_elem q e (\<lambda>x. x\<lparr>qe_next := p, qe_ctr := c\<rparr>);
          Some (if ok then EnqTail n e ec else Enq0 n, q) }) }"
| "q_exec (EnqSwing n e ec x xc) q =
     (case lfds_dcas (lq_enq q, lq_enqc q) (Some x, xc) (Some e, ec) of
        (_, (p, c), _) \<Rightarrow> Some (Enq0 n, q\<lparr>lq_enq := p, lq_enqc := c\<rparr>))"
| "q_exec (EnqTail n e ec) q =
     (case lfds_dcas (lq_enq q, lq_enqc q) (Some n, ec + 1) (Some e, ec) of
        (_, (p, c), _) \<Rightarrow> Some (EnqDone, q\<lparr>lq_enq := p, lq_enqc := c\<rparr>))"
| "q_exec EnqDone q = None"
| "q_exec Deq0 q = Some (Deq1 (lq_deq q), q)"
| "q_exec (Deq1 d) q = Some (Deq2 d (lq_deqc q), q)"
| "q_exec (Deq2 d dc) q = Some (Deq3 d dc (lq_enq q), q)"
| "q_exec (Deq3 d dc e) q = Some (Deq4 d dc e (lq_enqc q), q)"
| "q_exec (Deq4 d dc e ec) q = do { d \<leftarrow> d; x \<leftarrow> lq_elems q d; Some (Deq5 d dc e ec (qe_next x), q) }"
| "q_exec (Deq5 d dc e ec nx) q = do { x \<leftarrow> lq_elems q d; Some (Deq6 d dc e ec nx (qe_ctr x), q) }"
| "q_exec (Deq6 d dc e ec nx nc) q = Some (if lq_deq q = Some d then Deq7 d dc e ec nx nc else Deq0, q)"
| "q_exec (Deq7 d dc e ec nx nc) q =
     Some (if lq_deqc q \<noteq> dc then Deq0
           else if e = Some d then (if nx = None then DeqEmpty else DeqSwing e ec nx)
           else DeqData d dc nx, q)"
| "q_exec (DeqSwing e ec nx) q =
     (case lfds_dcas (lq_enq q, lq_enqc q) (nx, ec + 1) (e, ec) of
        (_, (p, c), _) \<Rightarrow> Some (Deq0, q\<lparr>lq_enq := p, lq_enqc := c\<rparr>))"
| "q_exec (DeqData d dc nx) q = do { n \<leftarrow> nx; x \<leftarrow> lq_elems q n; Some (DeqSwap d dc nx (qe_data x), q) }"
| "q_exec (DeqSwap d dc nx u) q =
     (case lfds_dcas (lq_deq q, lq_deqc q) (nx, dc + 1) (Some d, dc) of
        (ok, (p, c), _) \<Rightarrow> Some (if ok then DeqDone d u else Deq0, q\<lparr>lq_deq := p, lq_deqc := c\<rparr>))"
| "q_exec DeqEmpty q = None"
| "q_exec (DeqDone d u) q = None"

fun q_solo :: "nat \<Rightarrow> 'v q_pc \<Rightarrow> 'v lqueue \<Rightarrow> ('v q_pc \<times> 'v lqueue) option" where
  "q_solo n EnqDone q = Some (EnqDone, q)"
| "q_solo n DeqEmpty q = Some (DeqEmpty, q)"
| "q_solo n (DeqDone d u) q = Some (DeqDone d u, q)"
| "q_solo 0 pc q = None"
| "q_solo (Suc n) pc q = do { (pc, q) \<leftarrow> q_exec pc q; q_solo n pc q }"

subsection \<open>The operations\<close>

definition queue_init_element :: "'v lqueue \<Rightarrow> addr \<Rightarrow> 'v option \<Rightarrow> (addr \<times> u64 \<times> 'v lqueue) option" where
  "queue_init_element q fe u = do {
     d \<leftarrow> freelist_get_user_data (lq_fs q) fe;
     n \<leftarrow> d;
     let c = lfds_increment (lq_aba q);
     let nc = lfds_increment c;
     q \<leftarrow> upd_elem (q\<lparr>lq_aba := nc\<rparr>) n (\<lambda>x. x\<lparr>qe_next := None, qe_ctr := nc, qe_fe := fe, qe_data := u\<rparr>);
     Some (n, c, q) }"

definition queue_new_element_from_freelist ::
    "'v lqueue \<Rightarrow> 'v option \<Rightarrow> ((addr \<times> u64) option \<times> 'v lqueue) option" where
  "queue_new_element_from_freelist q u = do {
     (fe, fs) \<leftarrow> freelist_pop (lq_fs q);
     let q = q\<lparr>lq_fs := fs\<rparr>;
     (case fe of
        None \<Rightarrow> Some (None, q)
      | Some fe \<Rightarrow> do { (n, c, q) \<leftarrow> queue_init_element q fe u; Some (Some (n, c), q) }) }"

text \<open>The fuel is the longest way of a thread that runs alone.\<close>

definition queue_enqueue :: "'v option \<Rightarrow> 'v lqueue \<Rightarrow> (int \<times> 'v lqueue) option" where
  "queue_enqueue u q = do {
     (qe, q) \<leftarrow> queue_new_element_from_freelist q u;
     (case qe of
        None \<Rightarrow> Some (0, q)
      | Some (n, c) \<Rightarrow> do { (_, q) \<leftarrow> q_solo 15 (Enq0 n) q; Some (1, q) }) }"

definition queue_dequeue :: "'v lqueue \<Rightarrow> (int \<times> 'v option \<times> 'v lqueue) option" where
  "queue_dequeue q = do {
     (pc, q) \<leftarrow> q_solo 19 Deq0 q;
     (case pc of
        DeqEmpty \<Rightarrow> Some (0, None, q)
      | DeqDone d u \<Rightarrow> do {
          x \<leftarrow> lq_elems q d;
          fs \<leftarrow> freelist_push (qe_fe x) (lq_fs q);
          Some (1, u, q\<lparr>lq_fs := fs\<rparr>) }
      | _ \<Rightarrow> None) }"

subsection \<open>Making and deleting a queue\<close>

text \<open>The elements are made together with the free list's elements, in the same heap.\<close>

definition queue_malloc ::
    "lfds_heap \<times> (addr \<Rightarrow> 'v queue_elem option) \<Rightarrow> addr option \<times> lfds_heap \<times> (addr \<Rightarrow> 'v queue_elem option)" where
  "queue_malloc w = (case w of (h, m) \<Rightarrow> case lfds_malloc h of (r, h) \<Rightarrow> (r, h, m))"

definition queue_internal_freelist_init_function ::
    "lfds_heap \<times> (addr \<Rightarrow> 'v queue_elem option)
     \<Rightarrow> int \<times> addr option \<times> lfds_heap \<times> (addr \<Rightarrow> 'v queue_elem option)" where
  "queue_internal_freelist_init_function w = (case w of (h, m) \<Rightarrow>
     case lfds_malloc h of
       (None, h) \<Rightarrow> (0, None, h, m)
     | (Some a, h) \<Rightarrow> (1, Some a, h, m(a \<mapsto> \<lparr>qe_next = None, qe_ctr = 0, qe_fe = 0, qe_data = None\<rparr>)))"

text \<open>The counter is not set before the dummy element draws from it: \<open>g\<close> is what it holds.\<close>

definition queue_new :: "u64 \<Rightarrow> u64 \<Rightarrow> lfds_heap \<Rightarrow> (int \<times> 'v lqueue option \<times> lfds_heap) option" where
  "queue_new g number_elements h =
     (case lfds_malloc h of
        (None, h) \<Rightarrow> Some (0, None, h)
      | (Some _, h) \<Rightarrow> do {
          (_, fs, h, m) \<leftarrow> freelist_new queue_malloc (Some queue_internal_freelist_init_function)
            (number_elements + 1) (h, \<lambda>_. None);
          (case fs of
             None \<Rightarrow> Some (0, None, h)
           | Some fs \<Rightarrow> do {
               (qe, q) \<leftarrow> queue_new_element_from_freelist
                 \<lparr>lq_enq = None, lq_enqc = 0, lq_deq = None, lq_deqc = 0, lq_aba = g, lq_fs = fs, lq_elems = m\<rparr> None;
               let n = map_option fst qe;
               Some (1, Some (q\<lparr>lq_enq := n, lq_enqc := 0, lq_deq := n, lq_deqc := 0, lq_aba := 0\<rparr>), h) }) })"

text \<open>Deleting dequeues everything, gives the dummy back and deletes the free list; the result are
  the addresses of the queue elements that are freed.\<close>

fun queue_drain :: "nat \<Rightarrow> 'v lqueue \<Rightarrow> 'v lqueue option" where
  "queue_drain n q = do {
     (r, u, q) \<leftarrow> queue_dequeue q;
     (if r = 0 then Some q else case n of 0 \<Rightarrow> None | Suc n \<Rightarrow> queue_drain n q) }"

declare queue_drain.simps [simp del]

definition queue_delete :: "nat \<Rightarrow> 'v lqueue \<Rightarrow> addr option list option" where
  "queue_delete n q = do {
     q \<leftarrow> queue_drain n q;
     d \<leftarrow> lq_enq q;
     x \<leftarrow> lq_elems q d;
     fs \<leftarrow> freelist_push (qe_fe x) (lq_fs q);
     freelist_delete n fs }"

subsection \<open>The queue as a list\<close>

fun q_chain :: "(addr \<Rightarrow> 'v queue_elem option) \<Rightarrow> addr \<Rightarrow> addr list \<Rightarrow> bool" where
  "q_chain m d [] \<longleftrightarrow> (\<exists>x. m d = Some x \<and> qe_next x = None)"
| "q_chain m d (a # as) \<longleftrightarrow> (\<exists>x. m d = Some x \<and> qe_next x = Some a \<and> q_chain m a as)"

definition q_fe :: "'v lqueue \<Rightarrow> addr \<Rightarrow> addr" where
  "q_fe q a = (case lq_elems q a of Some x \<Rightarrow> qe_fe x | None \<Rightarrow> 0)"

definition q_data :: "'v lqueue \<Rightarrow> addr \<Rightarrow> 'v option" where
  "q_data q a = do { x \<leftarrow> lq_elems q a; qe_data x }"

text \<open>
  A well-formed queue with the dummy \<open>d\<close>, the queued elements \<open>as\<close> and the free elements \<open>xs\<close>:
  the links go through the elements in order, the ends are where they should be, and the
  free list's elements are paired with the queue's elements.
\<close>

definition queue_ok :: "'v lqueue \<Rightarrow> addr \<Rightarrow> addr list \<Rightarrow> addr list \<Rightarrow> bool" where
  "queue_ok q d as xs \<longleftrightarrow>
     lq_deq q = Some d \<and> lq_enq q = Some (last (d # as)) \<and> q_chain (lq_elems q) d as
   \<and> free_list (lq_fs q) xs \<and> distinct (d # as)
   \<and> (\<forall>n \<in> set (d # as). fl_data (lq_fs q) (q_fe q n) = Some n \<and> q_fe q n \<notin> set xs)
   \<and> (\<forall>a \<in> set xs. \<exists>n. fl_data (lq_fs q) a = Some n \<and> n \<notin> set (d # as) \<and> lq_elems q n \<noteq> None)
   \<and> inj_on (fl_data (lq_fs q)) (set xs)"

definition queued :: "'v lqueue \<Rightarrow> 'v option list \<Rightarrow> nat \<Rightarrow> bool" where
  "queued q us free \<longleftrightarrow> (\<exists>d as xs. queue_ok q d as xs \<and> us = map (q_data q) as \<and> free = length xs)"

lemma q_chain_other: "a \<notin> set (d # as) \<Longrightarrow> q_chain (m(a := v)) d as = q_chain m d as"
  by (induction as arbitrary: d) auto

lemma q_chain_dom: "q_chain m d as \<Longrightarrow> a \<in> set (d # as) \<Longrightarrow> m a \<noteq> None"
  by (induction as arbitrary: d) fastforce+

lemma q_chain_last: "q_chain m d as \<Longrightarrow> \<exists>x. m (last (d # as)) = Some x \<and> qe_next x = None"
  by (induction as arbitrary: d) auto

lemma q_chain_snoc:
  assumes "q_chain m d as" "distinct (d # as)" "n \<notin> set (d # as)" "m n = Some y" "qe_next y = None"
    and "qe_next x = Some n"
  shows "q_chain (m(last (d # as) \<mapsto> x)) d (as @ [n])"
  using assms
proof (induction as arbitrary: d)
  case (Cons a as)
  then obtain z where z: "m d = Some z" "qe_next z = Some a" "q_chain m a as" by auto
  have "q_chain (m(last (a # as) \<mapsto> x)) a (as @ [n])" using Cons z by (intro Cons.IH) auto
  moreover have "d \<noteq> last (a # as)" using Cons.prems(2) last_in_set [of "a # as"] by auto
  moreover have l: "last (d # a # as) = last (a # as)" by simp
  ultimately show ?case using z unfolding l append_Cons q_chain.simps
    by (intro exI [of _ z]) (simp only: fun_upd_apply if_False simp_thms)
qed simp

text \<open>The two machines alone, on a queue whose ends are in place.\<close>

lemma solo_enqueue:
  assumes "lq_enq q = Some l" "lq_elems q l = Some x" "qe_next x = None"
  shows "q_solo 15 (Enq0 n) q = Some (EnqDone, q\<lparr>lq_enq := Some n, lq_enqc := lq_enqc q + 1,
    lq_elems := (lq_elems q)(l \<mapsto> x\<lparr>qe_next := Some n, qe_ctr := qe_ctr x + 1\<rparr>)\<rparr>)"
  using assms by (simp add: numeral_eq_Suc lfds_dcas_def upd_elem_def)

lemma solo_dequeue_empty:
  assumes "lq_deq q = Some d" "lq_enq q = Some d" "lq_elems q d = Some x" "qe_next x = None"
  shows "queue_dequeue q = Some (0, None, q)"
  using assms by (simp add: queue_dequeue_def numeral_eq_Suc)

lemma solo_dequeue:
  assumes "lq_deq q = Some d" "lq_enq q \<noteq> Some d" "lq_elems q d = Some x" "qe_next x = Some n" "lq_elems q n = Some y"
  shows "queue_dequeue q = do { fs \<leftarrow> freelist_push (qe_fe x) (lq_fs q);
    Some (1, qe_data y, q\<lparr>lq_deq := Some n, lq_deqc := lq_deqc q + 1, lq_fs := fs\<rparr>) }"
  using assms by (simp add: queue_dequeue_def numeral_eq_Suc lfds_dcas_def)

lemma enqueue_ok:
  assumes ok: "queue_ok q d as (a # xs)"
  shows "\<exists>q' n. queue_enqueue u q = Some (1, q') \<and> queue_ok q' d (as @ [n]) xs
    \<and> map (q_data q') as = map (q_data q) as \<and> q_data q' n = u"
proof -
  note D = ok [unfolded queue_ok_def]
  obtain fs where fs: "freelist_pop (lq_fs q) = Some (Some a, fs)" "free_list fs xs" "fl_elems fs = fl_elems (lq_fs q)"
    using D pop_first by blast
  obtain n where n: "fl_data (lq_fs q) a = Some n" "n \<notin> set (d # as)" "lq_elems q n \<noteq> None" using D by auto
  obtain y where y: "lq_elems q n = Some y" using n(3) by auto
  obtain e where e: "fl_elems fs a = Some e" "fe_data e = Some n" using n(1) fs(3) by (auto simp: fl_data_def)
  obtain l where last: "last (d # as) = l" by blast
  obtain x where x: "lq_elems q l = Some x" "qe_next x = None" using q_chain_last D last by blast
  have l: "l \<in> set (d # as)" "l \<noteq> n" using n(2) last_in_set [of "d # as"] last by auto
  let ?n = "y\<lparr>qe_next := None, qe_ctr := lq_aba q + 1 + 1, qe_fe := a, qe_data := u\<rparr>"
  let ?x = "x\<lparr>qe_next := Some n, qe_ctr := qe_ctr x + 1\<rparr>"
  let ?m = "(lq_elems q)(n \<mapsto> ?n)"
  let ?q = "q\<lparr>lq_fs := fs, lq_aba := lq_aba q + 1 + 1, lq_elems := ?m\<rparr>"
  let ?q' = "?q\<lparr>lq_enq := Some n, lq_enqc := lq_enqc q + 1, lq_elems := ?m(l \<mapsto> ?x)\<rparr>"
  have "queue_new_element_from_freelist q u = Some (Some (n, lq_aba q + 1), ?q)"
    using fs(1) e y by (simp add: queue_new_element_from_freelist_def queue_init_element_def
        freelist_get_user_data_def upd_elem_def lfds_increment_def Let_def)
  moreover have "q_solo 15 (Enq0 n) ?q = Some (EnqDone, ?q')"
    using D x l(2) last by (subst solo_enqueue [of _ l x]) auto
  ultimately have r: "queue_enqueue u q = Some (1, ?q')" by (simp add: queue_enqueue_def)
  have "q_chain ?m d as" using D n(2) by (simp add: q_chain_other)
  then have chain: "q_chain (?m(l \<mapsto> ?x)) d (as @ [n])"
    using D n(2) unfolding last [symmetric] by (intro q_chain_snoc [where y = ?n]) auto
  have fe: "q_fe ?q' b = (if b = n then a else q_fe q b)" for b
    using l x by (auto simp: q_fe_def)
  have dat: "fl_data fs = fl_data (lq_fs q)" using fs(3) by (auto simp: fl_data_def)
  have xs: "a \<notin> set xs" "distinct xs" "inj_on (fl_data (lq_fs q)) (set xs)" using D by (auto simp: free_list_def)
  have "queue_ok ?q' d (as @ [n]) xs"
    unfolding queue_ok_def
  proof (intro conjI)
    show "q_chain (lq_elems ?q') d (as @ [n])" using chain by simp
    show "\<forall>b \<in> set (d # as @ [n]). fl_data (lq_fs ?q') (q_fe ?q' b) = Some b \<and> q_fe ?q' b \<notin> set xs"
      using D n xs unfolding fe by (auto simp: dat)
    show "\<forall>b \<in> set xs. \<exists>m. fl_data (lq_fs ?q') b = Some m \<and> m \<notin> set (d # as @ [n]) \<and> lq_elems ?q' m \<noteq> None"
    proof
      fix b
      assume b: "b \<in> set xs"
      then obtain m where m: "fl_data (lq_fs q) b = Some m" "m \<notin> set (d # as)" "lq_elems q m \<noteq> None" using D by auto
      have "m \<noteq> n" using D b m(1) n(1) xs(1) by (auto simp: inj_on_def)
      with m show "\<exists>m. fl_data (lq_fs ?q') b = Some m \<and> m \<notin> set (d # as @ [n]) \<and> lq_elems ?q' m \<noteq> None"
        by (intro exI [of _ m]) (auto simp: dat)
    qed
  qed (use D fs(2) xs n(2) in \<open>auto simp: dat\<close>)
  moreover have "map (q_data ?q') as = map (q_data q) as" using n(2) x by (auto simp: q_data_def)
  moreover have "q_data ?q' n = u" using l by (auto simp: q_data_def)
  ultimately show ?thesis using r by blast
qed

lemma enqueue_full:
  assumes "queue_ok q d as []"
  shows "queue_enqueue u q = Some (0, q)"
  using assms pop_empty [of "lq_fs q"]
  by (simp add: queue_ok_def queue_enqueue_def queue_new_element_from_freelist_def)

lemma dequeue_ok:
  assumes ok: "queue_ok q d (a # as) xs"
  shows "\<exists>q' b. queue_dequeue q = Some (1, q_data q a, q') \<and> queue_ok q' a as (b # xs) \<and> q_data q' = q_data q"
proof -
  note D = ok [unfolded queue_ok_def]
  obtain x where x: "lq_elems q d = Some x" "qe_next x = Some a" "q_chain (lq_elems q) a as" using D by auto
  obtain y where y: "lq_elems q a = Some y" using q_chain_dom [OF x(3), of a] by auto
  have b: "qe_fe x \<notin> set xs" "fl_data (lq_fs q) (qe_fe x) = Some d" using D x by (auto simp: q_fe_def)
  then have "fl_elems (lq_fs q) (qe_fe x) \<noteq> None" by (auto simp: fl_data_def)
  then obtain fs where fs: "freelist_push (qe_fe x) (lq_fs q) = Some fs" "free_list fs (qe_fe x # xs)"
    "\<forall>c. fl_data fs c = fl_data (lq_fs q) c"
    using push_first [OF _ b(1)] D by blast
  let ?q = "q\<lparr>lq_deq := Some a, lq_deqc := lq_deqc q + 1, lq_fs := fs\<rparr>"
  have "last (a # as) \<noteq> d" using D last_in_set [of "a # as"] by auto
  then have "queue_dequeue q = Some (1, q_data q a, ?q)"
    using D x y fs(1) by (subst solo_dequeue [of _ d x a y]) (auto simp: q_data_def)
  moreover have "q_fe ?q = q_fe q" "q_data ?q = q_data q" by (auto simp: q_fe_def q_data_def)
  moreover have "queue_ok ?q a as (qe_fe x # xs)"
  proof -
    have f: "fl_data fs = fl_data (lq_fs q)" using fs(3) by auto
    have other: "q_fe q n \<noteq> qe_fe x" if "n \<in> set (a # as)" for n
      using D b(2) that by (metis distinct.simps(2) list.set_intros(2) option.inject)
    have free: "fl_data (lq_fs q) c \<noteq> Some d" if "c \<in> set xs" for c using D that by fastforce
    show ?thesis
      unfolding queue_ok_def using D x fs(2) b other free
      by (auto simp: f calculation)
  qed
  ultimately show ?thesis by blast
qed

lemma dequeue_none:
  assumes "queue_ok q d [] xs"
  shows "queue_dequeue q = Some (0, None, q)"
  using assms by (auto simp: queue_ok_def intro: solo_dequeue_empty)

subsection \<open>What a queue does\<close>

lemma queued_enqueue:
  assumes "queued q us (Suc k)"
  shows "\<exists>q'. queue_enqueue u q = Some (1, q') \<and> queued q' (us @ [u]) k"
proof -
  obtain d as xs where q: "queue_ok q d as xs" "us = map (q_data q) as" "Suc k = length xs"
    using assms by (auto simp: queued_def)
  then obtain a ys where "xs = a # ys" by (cases xs) auto
  with enqueue_ok [of q d as a ys u] q show ?thesis unfolding queued_def by force
qed

lemma queued_full: "queued q us 0 \<Longrightarrow> queue_enqueue u q = Some (0, q)"
  by (auto simp: queued_def enqueue_full)

lemma queued_dequeue:
  assumes "queued q (u # us) k"
  shows "\<exists>q'. queue_dequeue q = Some (1, u, q') \<and> queued q' us (Suc k)"
proof -
  obtain d as xs where q: "queue_ok q d as xs" "u # us = map (q_data q) as" "k = length xs"
    using assms by (auto simp: queued_def)
  then obtain a bs where as: "as = a # bs" "u = q_data q a" "us = map (q_data q) bs" by (cases as) auto
  from dequeue_ok [OF q(1) [unfolded as(1)]] obtain q' b where
    "queue_dequeue q = Some (1, q_data q a, q')" "queue_ok q' a bs (b # xs)" "q_data q' = q_data q" by blast
  with as q(3) show ?thesis unfolding queued_def by force
qed

lemma queued_none: "queued q [] k \<Longrightarrow> queue_dequeue q = Some (0, None, q)"
  by (auto simp: queued_def dequeue_none)

lemma malloc_mono: "lfds_malloc h = (r, h') \<Longrightarrow> hp_next h \<le> hp_next h'"
  and malloc_new: "lfds_malloc h = (Some a, h') \<Longrightarrow> a = hp_next h \<and> hp_next h' = Suc a"
  by (auto simp: lfds_malloc_def split: if_splits)

text \<open>Each element carries the address of a queue element, made right after it.\<close>

definition q_within :: "addr option \<Rightarrow> addr \<Rightarrow> addr \<Rightarrow> bool" where
  "q_within u lo hi \<longleftrightarrow> (\<exists>n. u = Some n \<and> lo \<le> n \<and> n < hi)"

interpretation qm: element_maker "queue_malloc :: _ \<Rightarrow> _ \<times> _ \<times> (addr \<Rightarrow> 'v queue_elem option)"
    "Some queue_internal_freelist_init_function" "hp_next \<circ> fst" q_within
proof unfold_locales
  fix w w' :: "lfds_heap \<times> (addr \<Rightarrow> 'v queue_elem option)" and r a
  show "queue_malloc w = (r, w') \<Longrightarrow> (hp_next \<circ> fst) w \<le> (hp_next \<circ> fst) w'"
    using malloc_mono by (fastforce simp: queue_malloc_def split: prod.splits)
  show "queue_malloc w = (Some a, w') \<Longrightarrow> (hp_next \<circ> fst) w \<le> a \<and> a < (hp_next \<circ> fst) w'"
    using malloc_new by (fastforce simp: queue_malloc_def split: prod.splits)
next
  fix f and w w' :: "lfds_heap \<times> (addr \<Rightarrow> 'v queue_elem option)" and rv u
  assume "Some queue_internal_freelist_init_function = Some f" "f w = (rv, u, w')"
  then show "(hp_next \<circ> fst) w \<le> (hp_next \<circ> fst) w'
      \<and> (rv = 0 \<or> rv = 1 \<and> q_within u ((hp_next \<circ> fst) w) ((hp_next \<circ> fst) w'))"
    using malloc_mono malloc_new
    by (fastforce simp: queue_internal_freelist_init_function_def q_within_def split: prod.splits option.splits)
qed simp_all

text \<open>The store of queue elements holds one for every element of the free list.\<close>

definition backed :: "addr freelist \<Rightarrow> (addr \<Rightarrow> 'v queue_elem option) \<Rightarrow> bool" where
  "backed l m \<longleftrightarrow> (\<forall>a e n. fl_elems l a = Some e \<longrightarrow> fe_data e = Some n \<longrightarrow> n \<in> dom m)"

lemma backed_new_element:
  assumes "freelist_internal_new_element queue_malloc (Some queue_internal_freelist_init_function) l (h, m) = (rv, fe, l', h', m')"
    and "backed l m"
  shows "backed l' m'"
  using assms
  by (auto simp: freelist_internal_new_element_def queue_malloc_def queue_internal_freelist_init_function_def backed_def
      Let_def dom_def split: prod.splits option.splits if_splits)

lemma backed_push:
  assumes "freelist_push a l = Some l'" "backed l m"
  shows "backed l' m"
  using assms by (fastforce simp: freelist_push_eq backed_def split: if_splits)

lemma backed_new_elements:
  "freelist_new_elements queue_malloc (Some queue_internal_freelist_init_function) n l (h, m) = Some (c, l', h', m')
   \<Longrightarrow> backed l m \<Longrightarrow> backed l' m'"
proof (induction n arbitrary: l h m c)
  case (Suc n)
  obtain rv fe l1 h1 m1 where e: "freelist_internal_new_element queue_malloc
      (Some queue_internal_freelist_init_function) l (h, m) = (rv, fe, l1, h1, m1)"
    by (metis prod_cases5)
  note b = backed_new_element [OF e Suc.prems(2)]
  show ?case
  proof (cases "rv = 0")
    case True
    with Suc.prems(1) e have "freelist_new_elements queue_malloc (Some queue_internal_freelist_init_function) n l1 (h1, m1)
        = Some (c, l', h', m')" by simp
    from Suc.IH [OF this b] show ?thesis .
  next
    case False
    with Suc.prems(1) e obtain a l2 c2 where
      l2: "freelist_push a l1 = Some l2"
        "freelist_new_elements queue_malloc (Some queue_internal_freelist_init_function) n l2 (h1, m1)
          = Some (c2, l', h', m')" by auto
    from Suc.IH [OF l2(2) backed_push [OF l2(1) b]] show ?thesis .
  qed
qed simp

lemma made_inj: "qm.made l as b \<Longrightarrow> inj_on (fl_data l) (set as)"
  unfolding qm.made_def q_within_def
  by (rule inj_onI) (metis leD le_less_trans less_le_trans linorder_neqE_nat nat_less_le option.inject)

lemma made_elem:
  assumes "qm.made fs as b" "backed fs m" "c \<in> set as"
  shows "\<exists>k. fl_data fs c = Some k \<and> m k \<noteq> None"
proof -
  from assms(1,3) obtain k where k: "fl_data fs c = Some k" unfolding qm.made_def q_within_def by blast
  then obtain e where "fl_elems fs c = Some e" "fe_data e = Some k" by (auto simp: fl_data_def split: Option.bind_splits)
  with k assms(2) show ?thesis by (auto simp: backed_def)
qed

text \<open>A queue that was made: its free list, from which the dummy's element \<open>a\<close> was taken.\<close>

lemma queue_new_cases:
  assumes "queue_new g n h = Some (r, qo :: 'v lqueue option, h')" "n + 1 \<noteq> 0"
  obtains (none) "r = 0" "qo = None"
  | (new) h1 r1 fs h2 m2 a xs e k y where
    "freelist_new queue_malloc (Some queue_internal_freelist_init_function) (n + 1)
       (h1, (\<lambda>_. None) :: addr \<Rightarrow> 'v queue_elem option) = Some (r1, Some fs, h2, m2)"
    "free_list fs (a # xs)" "length xs = unat n" "qm.made fs (a # xs) (hp_next h2)" "backed fs m2"
    "fl_elems fs a = Some e" "fe_data e = Some k" "m2 k = Some y" "r = 1"
    "qo = Some \<lparr>lq_enq = Some k, lq_enqc = 0, lq_deq = Some k, lq_deqc = 0, lq_aba = 0,
       lq_fs = fs\<lparr>fl_top := fe_next e, fl_topc := fe_ctr e\<rparr>,
       lq_elems = m2(k \<mapsto> y\<lparr>qe_next := None, qe_ctr := g + 1 + 1, qe_fe := a, qe_data := None\<rparr>)\<rparr>"
proof -
  obtain x h1 where m: "lfds_malloc h = (x, h1)" by (cases "lfds_malloc h")
  show ?thesis
  proof (cases x)
    case None
    with assms m none show ?thesis by (simp add: queue_new_def)
  next
    case (Some b)
    with assms(1) m obtain r1 fo h2 m2 where
      f: "freelist_new queue_malloc (Some queue_internal_freelist_init_function) (n + 1)
        (h1, (\<lambda>_. None) :: addr \<Rightarrow> 'v queue_elem option) = Some (r1, fo, h2, m2)"
      by (auto simp: queue_new_def)
    show ?thesis
    proof (cases fo)
      case None
      with assms(1) m Some f none show ?thesis by (simp add: queue_new_def)
    next
      case fs: (Some fs)
      from qm.freelist_new_spec [OF f] fs obtain as where
        as: "free_list fs as" "length as = unat (n + 1)" "qm.made fs as (hp_next h2)" by auto
      have size: "length as = Suc (unat n)" using as(2) assms(2) by (simp add: add.commute unatSuc)
      have bk: "backed fs m2"
      proof -
        have "backed (empty_freelist :: addr freelist) m" for m :: "addr \<Rightarrow> 'v queue_elem option"
          by (simp add: backed_def empty_freelist_def)
        with f fs show ?thesis
          by (fastforce simp: freelist_new_def queue_malloc_def split: prod.splits option.splits if_splits
              intro: backed_new_elements)
      qed
      from size obtain a xs where xs: "as = a # xs" "length xs = unat n" by (cases as) auto
      from made_elem [OF as(3) bk, of a] xs(1) obtain k y where k: "fl_data fs a = Some k" "m2 k = Some y" by auto
      then obtain e where e: "fl_elems fs a = Some e" "fe_data e = Some k" by (auto simp: fl_data_def split: Option.bind_splits)
      note e = e k(2)
      from as(1) xs(1) have "fl_top fs = Some a" by (simp add: free_list_def)
      with assms(1) m Some f fs e have "r = 1 \<and> qo = Some \<lparr>lq_enq = Some k, lq_enqc = 0, lq_deq = Some k, lq_deqc = 0, lq_aba = 0,
          lq_fs = fs\<lparr>fl_top := fe_next e, fl_topc := fe_ctr e\<rparr>,
          lq_elems = m2(k \<mapsto> y\<lparr>qe_next := None, qe_ctr := g + 1 + 1, qe_fe := a, qe_data := None\<rparr>)\<rparr>"
        by (simp add: queue_new_def queue_new_element_from_freelist_def queue_init_element_def freelist_pop_eq
            freelist_get_user_data_def upd_elem_def lfds_increment_def Let_def)
      with new [OF _ _ xs(2) _ bk e] f as(1,3) fs xs(1) show ?thesis by blast
    qed
  qed
qed

lemma queued_new:
  assumes "queue_new g n h = Some (r, qo :: 'v lqueue option, h')" "n + 1 \<noteq> 0"
  shows "(r = 0 \<and> qo = None) \<or> (\<exists>q. r = 1 \<and> qo = Some q \<and> queued q [] (unat n))"
  using assms
proof (cases rule: queue_new_cases)
  case (new h1 r1 fs h2 m2 a xs e k y)
  let ?fs = "fs\<lparr>fl_top := fe_next e, fl_topc := fe_ctr e\<rparr>"
  let ?q = "\<lparr>lq_enq = Some k, lq_enqc = 0, lq_deq = Some k, lq_deqc = 0, lq_aba = 0, lq_fs = ?fs,
    lq_elems = m2(k \<mapsto> y\<lparr>qe_next := None, qe_ctr := g + 1 + 1, qe_fe := a, qe_data := None\<rparr>)\<rparr>"
  have dat: "fl_data ?fs = fl_data fs" by (auto simp: fl_data_def)
  have inj: "inj_on (fl_data fs) (set (a # xs))" by (rule made_inj [OF new(4)])
  have k: "fl_data fs a = Some k" using new(6,7) by (simp add: fl_data_def)
  have out: "a \<notin> set xs" "inj_on (fl_data fs) (set xs)" using new(2) inj by (auto simp: free_list_def)
  have "\<exists>j. fl_data fs c = Some j \<and> j \<noteq> k \<and> m2 j \<noteq> None" if c: "c \<in> set xs" for c
  proof -
    have "fl_data fs c \<noteq> fl_data fs a" using inj c out(1) by (auto simp: inj_on_def)
    with made_elem [OF new(4,5), of c] c k show ?thesis by auto
  qed
  then have "\<forall>c \<in> set xs. \<exists>j. fl_data (lq_fs ?q) c = Some j \<and> j \<notin> set [k] \<and> lq_elems ?q j \<noteq> None"
    by (fastforce simp: dat)
  moreover have "free_list ?fs xs" using new(2,6) by (simp add: free_list_def)
  ultimately have "queue_ok ?q k [] xs" using k out unfolding queue_ok_def by (simp add: q_fe_def dat)
  with new(3,9,10) show ?thesis unfolding queued_def by force
qed simp

lemma drain_ok:
  assumes "queue_ok q d as xs" "length as \<le> n"
  shows "\<exists>q' ys d'. queue_drain n q = Some q' \<and> queue_ok q' d' [] ys \<and> length ys = length as + length xs"
  using assms
proof (induction as arbitrary: q d xs n)
  case Nil
  then show ?case by (subst queue_drain.simps) (auto simp: dequeue_none)
next
  case (Cons a as)
  obtain q' b where q': "queue_dequeue q = Some (1, q_data q a, q')" "queue_ok q' a as (b # xs)"
    using dequeue_ok [OF Cons.prems(1)] by blast
  obtain m where n: "n = Suc m" "length as \<le> m" using Cons.prems(2) by (cases n) auto
  from Cons.IH [OF q'(2) n(2)] q'(1) n(1) show ?case by (subst queue_drain.simps) auto
qed

text \<open>Deleting a queue frees all its elements, each once.\<close>

lemma queued_delete:
  assumes "queued q us k" "length us + k < n"
  shows "\<exists>ns. queue_delete n q = Some ns \<and> length ns = Suc (length us + k) \<and> distinct ns"
proof -
  obtain d as xs where q: "queue_ok q d as xs" "length as = length us" "length xs = k"
    using assms(1) by (auto simp: queued_def)
  then obtain q' d' ys where q': "queue_drain n q = Some q'" "queue_ok q' d' [] ys" "length ys = length us + k"
    using drain_ok [OF q(1), of n] assms(2) by auto
  note D = q'(2) [unfolded queue_ok_def]
  obtain x where x: "lq_enq q' = Some d'" "lq_elems q' d' = Some x" using D by auto
  have fe: "qe_fe x \<notin> set ys" "fl_data (lq_fs q') (qe_fe x) = Some d'" using D x by (auto simp: q_fe_def)
  then obtain e where e: "fl_elems (lq_fs q') (qe_fe x) \<noteq> None" by (auto simp: fl_data_def)
  from push_first [OF _ fe(1) e] D obtain fs where fs: "freelist_push (qe_fe x) (lq_fs q') = Some fs"
    "free_list fs (qe_fe x # ys)" "\<forall>b. fl_data fs b = fl_data (lq_fs q') b" by blast
  have "freelist_delete n fs = Some (map (fl_data fs) (qe_fe x # ys))"
    using delete_all [OF fs(2)] q'(3) assms(2) by simp
  moreover have "distinct (map (fl_data fs) (qe_fe x # ys))"
  proof -
    have "fl_data (lq_fs q') b \<noteq> Some d'" if "b \<in> set ys" for b using D that by fastforce
    then have "Some d' \<notin> set (map (fl_data (lq_fs q')) ys)" by fastforce
    moreover have "distinct ys" "inj_on (fl_data (lq_fs q')) (set ys)" using D by (auto simp: free_list_def)
    moreover have "fl_data fs = fl_data (lq_fs q')" using fs(3) by auto
    ultimately show ?thesis using fe(2) by (simp add: distinct_map)
  qed
  ultimately show ?thesis using q'(1,3) x fs(1) by (simp add: queue_delete_def)
qed

subsection \<open>The contract of a bounded queue\<close>

text \<open>\<open>rep q us k\<close>: the queue holds \<open>us\<close> and has room for \<open>k\<close> more.\<close>

locale bounded_queue =
  fixes enq :: "'v option \<Rightarrow> 'q \<Rightarrow> (int \<times> 'q) option" and deq :: "'q \<Rightarrow> (int \<times> 'v option \<times> 'q) option"
    and rep :: "'q \<Rightarrow> 'v option list \<Rightarrow> nat \<Rightarrow> bool"
  assumes enq_room: "rep q us (Suc k) \<Longrightarrow> \<exists>q'. enq u q = Some (1, q') \<and> rep q' (us @ [u]) k"
    and enq_full: "rep q us 0 \<Longrightarrow> enq u q = Some (0, q)"
    and deq_first: "rep q (u # us) k \<Longrightarrow> \<exists>q'. deq q = Some (1, u, q') \<and> rep q' us (Suc k)"
    and deq_none: "rep q [] k \<Longrightarrow> deq q = Some (0, None, q)"
begin

fun enq_all :: "'v option list \<Rightarrow> 'q \<Rightarrow> (int list \<times> 'q) option" where
  "enq_all [] q = Some ([], q)"
| "enq_all (u # us) q = do { (r, q) \<leftarrow> enq u q; (rs, q) \<leftarrow> enq_all us q; Some (r # rs, q) }"

fun deq_all :: "nat \<Rightarrow> 'q \<Rightarrow> ((int \<times> 'v option) list \<times> 'q) option" where
  "deq_all 0 q = Some ([], q)"
| "deq_all (Suc n) q = do { (r, u, q) \<leftarrow> deq q; (us, q) \<leftarrow> deq_all n q; Some ((r, u) # us, q) }"

lemma enq_all_spec:
  "rep q us k \<Longrightarrow> \<exists>q'. enq_all vs q = Some (map (\<lambda>i. if i < k then 1 else 0) [0..<length vs], q')
     \<and> rep q' (us @ take k vs) (k - length vs)"
proof (induction vs arbitrary: q us k)
  case (Cons v vs)
  show ?case
  proof (cases k)
    case 0
    with Cons.prems enq_full [of q us v] Cons.IH [of q us 0] show ?thesis
      by (auto simp: map_upt_Suc simp del: upt_Suc)
  next
    case (Suc m)
    with enq_room Cons.prems obtain q1 where "enq v q = Some (1, q1)" "rep q1 (us @ [v]) m" by blast
    with Cons.IH [OF this(2)] Suc show ?thesis by (auto simp: map_upt_Suc simp del: upt_Suc)
  qed
qed auto

lemma deq_all_spec:
  "rep q us k \<Longrightarrow> \<exists>q'. deq_all n q = Some (map (\<lambda>u. (1, u)) (take n us) @ replicate (n - length us) (0, None), q')
     \<and> rep q' (drop n us) (k + min n (length us))"
proof (induction n arbitrary: q us k)
  case (Suc n)
  show ?case
  proof (cases us)
    case Nil
    with Suc.prems deq_none [of q k] Suc.IH [of q "[]" k] show ?thesis by auto
  next
    case (Cons u vs)
    with Suc.prems obtain q1 where "deq q = Some (1, u, q1)" "rep q1 vs (Suc k)" using deq_first by blast
    with Suc.IH [OF this(2)] Cons show ?thesis by auto
  qed
qed simp

end

interpretation lq: bounded_queue queue_enqueue queue_dequeue queued
  by unfold_locales (fact queued_enqueue queued_full queued_dequeue queued_none)+

subsection \<open>Property of the queue\<close>

text \<open>A queue that was made for \<open>n\<close> elements takes the first \<open>n\<close> of any sequence of
  enqueued values and refuses the others; dequeueing gives back the accepted ones in order,
  and then fails.\<close>

lemma queue_fifo:
  assumes "queue_new g n h = Some (1, Some q, h')" "n + 1 \<noteq> 0"
  shows "\<exists>q1 q2. lq.enq_all vs q = Some (map (\<lambda>i. if i < unat n then 1 else 0) [0..<length vs], q1)
    \<and> lq.deq_all m q1 = Some (map (\<lambda>u. (1, u)) (take m (take (unat n) vs))
         @ replicate (m - min (length vs) (unat n)) (0, None), q2)"
proof -
  have "queued q [] (unat n)" using queued_new [OF assms] by auto
  from lq.enq_all_spec [OF this, of vs] obtain q1 where
    "lq.enq_all vs q = Some (map (\<lambda>i. if i < unat n then 1 else 0) [0..<length vs], q1)"
    "queued q1 (take (unat n) vs) (unat n - length vs)" by auto
  with lq.deq_all_spec [OF this(2), of m] show ?thesis by auto
qed

definition ex_heap :: lfds_heap where
  "ex_heap = \<lparr>hp_next = 0, hp_plan = []\<rparr>"

end
