(* ===== verification/LfdsRingbuffer.thy ===== *)
theory LfdsRingbuffer
  imports LfdsQueue
begin

text \<open>
  The ring buffer of \<open>liblfds611/src/lfds611_ringbuffer\<close>: a free list of unused elements and a
  queue of the filled ones. A writer takes an unused element, or the oldest filled one when
  there is none, fills it and puts it into the queue; a reader takes the oldest and gives it
  back. The functions are run by one thread, on top of the linearisable list and queue.
\<close>

record 'u ringbuffer =
  rb_qs :: "addr lqueue"
  rb_fs :: "'u freelist"

definition ringbuffer_get_read_element :: "'u ringbuffer \<Rightarrow> (addr option \<times> 'u ringbuffer) option" where
  "ringbuffer_get_read_element rs = do {
     (_, fe, qs) \<leftarrow> queue_dequeue (rb_qs rs);
     Some (fe, rs\<lparr>rb_qs := qs\<rparr>) }"

text \<open>The result of the loop comes with the overwrite flag; a call that never returns is \<open>None\<close>.\<close>

partial_function (option) ringbuffer_get_write_element ::
    "'u ringbuffer \<Rightarrow> (addr \<times> int \<times> 'u ringbuffer) option" where
  "ringbuffer_get_write_element rs = do {
     (fe, fs) \<leftarrow> freelist_pop (rb_fs rs);
     let rs = rs\<lparr>rb_fs := fs\<rparr>;
     (case fe of
        Some a \<Rightarrow> Some (a, 0, rs)
      | None \<Rightarrow> do {
          (fe, rs) \<leftarrow> ringbuffer_get_read_element rs;
          (case fe of
             Some a \<Rightarrow> Some (a, 1, rs)
           | None \<Rightarrow> ringbuffer_get_write_element rs) }) }"

definition ringbuffer_put_read_element :: "addr \<Rightarrow> 'u ringbuffer \<Rightarrow> 'u ringbuffer option" where
  "ringbuffer_put_read_element a rs = do {
     fs \<leftarrow> freelist_push a (rb_fs rs);
     Some (rs\<lparr>rb_fs := fs\<rparr>) }"

text \<open>The result of enqueueing is not looked at.\<close>

definition ringbuffer_put_write_element :: "addr \<Rightarrow> 'u ringbuffer \<Rightarrow> 'u ringbuffer option" where
  "ringbuffer_put_write_element a rs = do {
     (_, qs) \<leftarrow> queue_enqueue (Some a) (rb_qs rs);
     Some (rs\<lparr>rb_qs := qs\<rparr>) }"

text \<open>When the queue cannot be made, the state is freed and set to NULL, and then its field is
  read: undefined.\<close>

definition ringbuffer_new ::
    "u64 \<Rightarrow> (lfds_heap, 'u) maker \<Rightarrow> u64 \<Rightarrow> lfds_heap \<Rightarrow> (int \<times> 'u ringbuffer option \<times> lfds_heap) option" where
  "ringbuffer_new g init number_elements h =
     (case lfds_malloc h of
        (None, h) \<Rightarrow> Some (0, None, h)
      | (Some _, h) \<Rightarrow> do {
          (_, fs, h) \<leftarrow> freelist_new lfds_malloc init number_elements h;
          (case fs of
             None \<Rightarrow> Some (0, None, h)
           | Some fs \<Rightarrow> do {
               (_, qs, h) \<leftarrow> queue_new g number_elements h;
               qs \<leftarrow> qs;
               Some (1, Some \<lparr>rb_qs = qs, rb_fs = fs\<rparr>, h) }) })"

text \<open>Deleting does not give the queued elements back to the free list first: only the unused
  ones are handed to the caller's function.\<close>

definition ringbuffer_delete :: "nat \<Rightarrow> 'u ringbuffer \<Rightarrow> 'u option list option" where
  "ringbuffer_delete n rs = do {
     _ \<leftarrow> queue_delete n (rb_qs rs);
     freelist_delete n (rb_fs rs) }"

subsection \<open>What a ring buffer holds\<close>

text \<open>
  A well-formed ring buffer: the filled elements \<open>as\<close> are queued, the elements \<open>xs\<close> are free and
  those in \<open>hs\<close> in a client's hands; the queue has room for all of them.
\<close>

definition ring_ok :: "'u ringbuffer \<Rightarrow> addr list \<Rightarrow> addr list \<Rightarrow> addr list \<Rightarrow> bool" where
  "ring_ok rs as xs hs \<longleftrightarrow> free_list (rb_fs rs) xs \<and> queued (rb_qs rs) (map Some as) (length xs + length hs)
     \<and> distinct (as @ xs @ hs) \<and> set (as @ xs @ hs) \<subseteq> dom (fl_elems (rb_fs rs))"

text \<open>What an element carries meets \<open>P\<close>.\<close>

definition ring_holds :: "('u option \<Rightarrow> bool) \<Rightarrow> 'u ringbuffer \<Rightarrow> 'u option list \<Rightarrow> nat \<Rightarrow> bool" where
  "ring_holds P rs us n \<longleftrightarrow> (\<exists>as xs. ring_ok rs as xs [] \<and> us = map (fl_data (rb_fs rs)) as
     \<and> n = length as + length xs \<and> (\<forall>a \<in> set as \<union> set xs. P (fl_data (rb_fs rs) a)))"

definition ring_user_data :: "'u ringbuffer \<Rightarrow> addr \<Rightarrow> 'u option option" where
  "ring_user_data rs a = freelist_get_user_data (rb_fs rs) a"

text \<open>Storing into the buffer that an element carries.\<close>

definition ring_store :: "addr \<Rightarrow> 'u option \<Rightarrow> 'u ringbuffer \<Rightarrow> 'u ringbuffer option" where
  "ring_store a u rs = do { fs \<leftarrow> freelist_set_user_data (rb_fs rs) a u; Some (rs\<lparr>rb_fs := fs\<rparr>) }"

lemma get_read_first:
  assumes "ring_ok rs (a # as) xs hs"
  shows "\<exists>qs. ringbuffer_get_read_element rs = Some (Some a, rs\<lparr>rb_qs := qs\<rparr>)
    \<and> ring_ok (rs\<lparr>rb_qs := qs\<rparr>) as xs (a # hs)"
proof -
  have "queued (rb_qs rs) (Some a # map Some as) (length xs + length hs)" using assms by (simp add: ring_ok_def)
  from lq.deq_first [OF this] obtain qs where
    "queue_dequeue (rb_qs rs) = Some (1, Some a, qs)" "queued qs (map Some as) (Suc (length xs + length hs))" by blast
  with assms show ?thesis by (auto simp: ringbuffer_get_read_element_def ring_ok_def)
qed

lemma get_read_none:
  assumes "ring_ok rs [] xs hs"
  shows "ringbuffer_get_read_element rs = Some (None, rs)"
proof -
  have "queued (rb_qs rs) [] (length xs + length hs)" using assms by (simp add: ring_ok_def)
  from lq.deq_none [OF this] show ?thesis by (simp add: ringbuffer_get_read_element_def)
qed

lemma get_write_free:
  assumes "ring_ok rs as (a # xs) hs"
  shows "\<exists>fs. ringbuffer_get_write_element rs = Some (a, 0, rs\<lparr>rb_fs := fs\<rparr>)
    \<and> ring_ok (rs\<lparr>rb_fs := fs\<rparr>) as xs (a # hs) \<and> fl_elems fs = fl_elems (rb_fs rs)"
proof -
  obtain fs where "freelist_pop (rb_fs rs) = Some (Some a, fs)" "free_list fs xs" "fl_elems fs = fl_elems (rb_fs rs)"
    using pop_first [of "rb_fs rs" a xs] assms by (auto simp: ring_ok_def)
  moreover from this have "ring_ok (rs\<lparr>rb_fs := fs\<rparr>) as xs (a # hs)"
    using assms by (simp add: ring_ok_def)
  ultimately show ?thesis by (subst ringbuffer_get_write_element.simps) auto
qed

lemma get_write_oldest:
  assumes "ring_ok rs (a # as) [] hs"
  shows "\<exists>qs. ringbuffer_get_write_element rs = Some (a, 1, rs\<lparr>rb_qs := qs\<rparr>)
    \<and> ring_ok (rs\<lparr>rb_qs := qs\<rparr>) as [] (a # hs)"
  using get_read_first [OF assms] pop_empty [of "rb_fs rs"] assms
  by (subst ringbuffer_get_write_element.simps) (auto simp: ring_ok_def)

lemma store_held:
  assumes "ring_ok rs as xs (a # hs)"
  shows "\<exists>fs. ring_store a u rs = Some (rs\<lparr>rb_fs := fs\<rparr>) \<and> ring_ok (rs\<lparr>rb_fs := fs\<rparr>) as xs (a # hs)
    \<and> fl_data fs = (fl_data (rb_fs rs))(a := u)"
proof -
  obtain e where e: "fl_elems (rb_fs rs) a = Some e" using assms by (auto simp: ring_ok_def)
  let ?fs = "rb_fs rs\<lparr>fl_elems := (fl_elems (rb_fs rs))(a \<mapsto> e\<lparr>fe_data := u\<rparr>)\<rparr>"
  have "a \<notin> set xs" using assms by (simp add: ring_ok_def)
  then have "free_list ?fs xs" using assms by (simp add: ring_ok_def free_list_def fl_path_other)
  moreover have "fl_data ?fs = (fl_data (rb_fs rs))(a := u)" by (auto simp: fl_data_def)
  ultimately show ?thesis using assms e
    by (auto simp: ring_store_def freelist_set_user_data_def set_link_def ring_ok_def intro!: exI [of _ ?fs])
qed

lemma put_write:
  assumes "ring_ok rs as xs (a # hs)"
  shows "\<exists>qs. ringbuffer_put_write_element a rs = Some (rs\<lparr>rb_qs := qs\<rparr>)
    \<and> ring_ok (rs\<lparr>rb_qs := qs\<rparr>) (as @ [a]) xs hs"
proof -
  have "queued (rb_qs rs) (map Some as) (Suc (length xs + length hs))" using assms by (simp add: ring_ok_def)
  from lq.enq_room [OF this, of "Some a"] obtain qs where
    "queue_enqueue (Some a) (rb_qs rs) = Some (1, qs)" "queued qs (map Some as @ [Some a]) (length xs + length hs)" by blast
  with assms show ?thesis by (auto simp: ringbuffer_put_write_element_def ring_ok_def)
qed

lemma put_read:
  assumes "ring_ok rs as xs (a # hs)"
  shows "\<exists>fs. ringbuffer_put_read_element a rs = Some (rs\<lparr>rb_fs := fs\<rparr>)
    \<and> ring_ok (rs\<lparr>rb_fs := fs\<rparr>) as (a # xs) hs \<and> fl_data fs = fl_data (rb_fs rs)"
proof -
  have "free_list (rb_fs rs) xs" "a \<notin> set xs" "fl_elems (rb_fs rs) a \<noteq> None"
    using assms by (auto simp: ring_ok_def)
  from push_first [OF this] obtain fs where "freelist_push a (rb_fs rs) = Some fs" "free_list fs (a # xs)"
    "\<forall>b. fl_data fs b = fl_data (rb_fs rs) b" "dom (fl_elems fs) = dom (fl_elems (rb_fs rs))" by blast
  moreover from this have "ring_ok (rs\<lparr>rb_fs := fs\<rparr>) as (a # xs) hs" using assms by (simp add: ring_ok_def)
  moreover have "fl_data fs = fl_data (rb_fs rs)" using calculation(3) by auto
  ultimately show ?thesis unfolding ringbuffer_put_read_element_def by auto
qed

text \<open>Reading the oldest element and writing one, as a whole.\<close>

lemma ring_read:
  assumes h: "ring_holds P r (u # us) n"
  shows "\<exists>a r1 r2. ringbuffer_get_read_element r = Some (Some a, r1) \<and> ring_user_data r1 a = Some u \<and> P u
    \<and> ringbuffer_put_read_element a r1 = Some r2 \<and> ring_holds P r2 us n"
proof -
  obtain a as xs where ok: "ring_ok r (a # as) xs []" and u: "u = fl_data (rb_fs r) a" "us = map (fl_data (rb_fs r)) as"
    and n: "n = Suc (length as + length xs)" and P: "\<forall>b \<in> set (a # as) \<union> set xs. P (fl_data (rb_fs r) b)"
    using h by (auto simp: ring_holds_def)
  obtain qs where g: "ringbuffer_get_read_element r = Some (Some a, r\<lparr>rb_qs := qs\<rparr>)"
    "ring_ok (r\<lparr>rb_qs := qs\<rparr>) as xs [a]" using get_read_first [OF ok] by blast
  from put_read [OF g(2)] obtain fs where
    p: "ringbuffer_put_read_element a (r\<lparr>rb_qs := qs\<rparr>) = Some (r\<lparr>rb_qs := qs, rb_fs := fs\<rparr>)"
    "ring_ok (r\<lparr>rb_qs := qs, rb_fs := fs\<rparr>) as (a # xs) []" "fl_data fs = fl_data (rb_fs r)" by auto
  have "ring_user_data (r\<lparr>rb_qs := qs\<rparr>) a = Some u" using ok u(1)
    by (auto simp: ring_user_data_def freelist_get_user_data_def fl_data_def ring_ok_def)
  moreover have "ring_holds P (r\<lparr>rb_qs := qs, rb_fs := fs\<rparr>) us n"
    unfolding ring_holds_def using p u(2) n P by (intro exI [of _ as] exI [of _ "a # xs"]) auto
  ultimately show ?thesis using g p P u by auto
qed

lemma fill_held:
  assumes held: "ring_ok r as xs [a]" and u: "P u" and P: "\<forall>b \<in> set as \<union> set xs. P (fl_data (rb_fs r) b)"
  shows "\<exists>r2 r3. ring_store a u r = Some r2 \<and> ringbuffer_put_write_element a r2 = Some r3
    \<and> ring_holds P r3 (map (fl_data (rb_fs r)) as @ [u]) (Suc (length as + length xs))"
proof -
  obtain fs where s: "ring_store a u r = Some (r\<lparr>rb_fs := fs\<rparr>)" "ring_ok (r\<lparr>rb_fs := fs\<rparr>) as xs [a]"
    "fl_data fs = (fl_data (rb_fs r))(a := u)" using store_held [OF held] by blast
  from put_write [OF s(2)] obtain qs where
    p: "ringbuffer_put_write_element a (r\<lparr>rb_fs := fs\<rparr>) = Some (r\<lparr>rb_fs := fs, rb_qs := qs\<rparr>)"
      "ring_ok (r\<lparr>rb_fs := fs, rb_qs := qs\<rparr>) (as @ [a]) xs []" by auto
  have "a \<notin> set as" "a \<notin> set xs" using held by (simp_all add: ring_ok_def)
  then have "ring_holds P (r\<lparr>rb_fs := fs, rb_qs := qs\<rparr>) (map (fl_data (rb_fs r)) as @ [u]) (Suc (length as + length xs))"
    unfolding ring_holds_def using p(2) s(3) u P
    by (intro exI [of _ "as @ [a]"] exI [of _ xs]) auto
  with s(1) p(1) show ?thesis by blast
qed

lemma ring_write:
  assumes h: "ring_holds P r us n" "0 < n"
  shows "\<exists>a r1 u0. ringbuffer_get_write_element r = Some (a, of_bool (length us = n), r1)
    \<and> ring_user_data r1 a = Some u0 \<and> P u0
    \<and> (\<forall>u. P u \<longrightarrow> (\<exists>r2 r3. ring_store a u r1 = Some r2 \<and> ringbuffer_put_write_element a r2 = Some r3
        \<and> ring_holds P r3 (drop (of_bool (length us = n)) us @ [u]) n))"
proof -
  obtain as xs where ok: "ring_ok r as xs []" and us: "us = map (fl_data (rb_fs r)) as" and n: "n = length as + length xs"
    and P: "\<forall>b \<in> set as \<union> set xs. P (fl_data (rb_fs r) b)"
    using h(1) by (auto simp: ring_holds_def)
  have load: "ring_user_data r1 a = Some (fl_data (rb_fs r1) a)" if "ring_ok r1 bs ys [a]" for r1 bs ys a
    using that by (auto simp: ring_ok_def ring_user_data_def freelist_get_user_data_def fl_data_def)
  show ?thesis
  proof (cases xs)
    case (Cons a ys)
    with ok obtain fs where g: "ringbuffer_get_write_element r = Some (a, 0, r\<lparr>rb_fs := fs\<rparr>)"
      "ring_ok (r\<lparr>rb_fs := fs\<rparr>) as ys [a]" "fl_elems fs = fl_elems (rb_fs r)" using get_write_free by blast
    have d: "fl_data fs = fl_data (rb_fs r)" using g(3) by (auto simp: fl_data_def)
    have "\<exists>r2 r3. ring_store a u (r\<lparr>rb_fs := fs\<rparr>) = Some r2 \<and> ringbuffer_put_write_element a r2 = Some r3
        \<and> ring_holds P r3 (drop (of_bool (length us = n)) us @ [u]) n" if "P u" for u
      using fill_held [where P = P, OF g(2) that] P Cons d us n by simp
    moreover have "ringbuffer_get_write_element r = Some (a, of_bool (length us = n), r\<lparr>rb_fs := fs\<rparr>)"
      using g(1) us n Cons by simp
    moreover have "P (fl_data fs a)" using P Cons d by simp
    moreover have "ring_user_data (r\<lparr>rb_fs := fs\<rparr>) a = Some (fl_data fs a)" using load [OF g(2)] by simp
    ultimately show ?thesis by blast
  next
    case Nil
    then obtain b bs where as: "as = b # bs" using h(2) n by (cases as) auto
    with ok Nil obtain qs where g: "ringbuffer_get_write_element r = Some (b, 1, r\<lparr>rb_qs := qs\<rparr>)"
      "ring_ok (r\<lparr>rb_qs := qs\<rparr>) bs [] [b]" using get_write_oldest by blast
    have "\<exists>r2 r3. ring_store b u (r\<lparr>rb_qs := qs\<rparr>) = Some r2 \<and> ringbuffer_put_write_element b r2 = Some r3
        \<and> ring_holds P r3 (drop (of_bool (length us = n)) us @ [u]) n" if "P u" for u
      using fill_held [where P = P, OF g(2) that] P Nil as us n by simp
    moreover have "ringbuffer_get_write_element r = Some (b, of_bool (length us = n), r\<lparr>rb_qs := qs\<rparr>)"
      using g(1) us n Nil by simp
    moreover have "P (fl_data (rb_fs r) b)" using P as by simp
    moreover have "ring_user_data (r\<lparr>rb_qs := qs\<rparr>) b = Some (fl_data (rb_fs r) b)" using load [OF g(2)] by simp
    ultimately show ?thesis by blast
  qed
qed

subsection \<open>The contract of an overwriting ring\<close>

text \<open>
  What the interactions on top rely on: \<open>holds r us n\<close> is a ring of size \<open>n\<close> with the
  contents \<open>us\<close>, the oldest first.
\<close>

locale overwriting_ring =
  fixes get_w :: "'r \<Rightarrow> (addr \<times> int \<times> 'r) option" and put_w :: "addr \<Rightarrow> 'r \<Rightarrow> 'r option"
    and get_r :: "'r \<Rightarrow> (addr option \<times> 'r) option" and put_r :: "addr \<Rightarrow> 'r \<Rightarrow> 'r option"
    and load :: "'r \<Rightarrow> addr \<Rightarrow> 'u option option" and store :: "addr \<Rightarrow> 'u option \<Rightarrow> 'r \<Rightarrow> 'r option"
    and holds :: "'r \<Rightarrow> 'u option list \<Rightarrow> nat \<Rightarrow> bool" and P :: "'u option \<Rightarrow> bool"
  assumes write_law: "holds r us n \<Longrightarrow> 0 < n \<Longrightarrow> \<exists>a r1 u0. get_w r = Some (a, of_bool (length us = n), r1)
      \<and> load r1 a = Some u0 \<and> P u0
      \<and> (\<forall>u. P u \<longrightarrow> (\<exists>r2 r3. store a u r1 = Some r2 \<and> put_w a r2 = Some r3
           \<and> holds r3 (drop (of_bool (length us = n)) us @ [u]) n))"
    and read_law: "holds r (u # us) n \<Longrightarrow> \<exists>a r1 r2. get_r r = Some (Some a, r1)
      \<and> load r1 a = Some u \<and> P u \<and> put_r a r1 = Some r2 \<and> holds r2 us n"
    and empty_law: "holds r [] n \<Longrightarrow> get_r r = Some (None, r)"
    and size_law: "holds r us n \<Longrightarrow> length us \<le> n"
begin

text \<open>Writing and reading whole sequences.\<close>

definition write1 :: "'u option \<Rightarrow> 'r \<Rightarrow> (int \<times> 'r) option" where
  "write1 u r = do { (a, flag, r) \<leftarrow> get_w r; r \<leftarrow> store a u r; r \<leftarrow> put_w a r; Some (flag, r) }"

fun write_all :: "'u option list \<Rightarrow> 'r \<Rightarrow> (int \<times> 'r) option" where
  "write_all [] r = Some (0, r)"
| "write_all (u # us) r = do { (f, r) \<leftarrow> write1 u r; (k, r) \<leftarrow> write_all us r; Some (f + k, r) }"

lemma write1_spec:
  assumes "holds r us n" "0 < n" "P u"
  shows "\<exists>r'. write1 u r = Some (of_bool (length us = n), r') \<and> holds r' (drop (of_bool (length us = n)) us @ [u]) n"
  using write_law [OF assms(1,2)] assms(3) by (auto simp: write1_def)

text \<open>The newest \<open>n\<close> values survive; the result counts the ones that were overwritten.\<close>

lemma write_all_spec:
  assumes "holds r us n" "0 < n" "\<forall>v \<in> set vs. P v"
  shows "\<exists>r'. write_all vs r = Some (int (length us + length vs - n), r')
    \<and> holds r' (drop (length us + length vs - n) (us @ vs)) n"
  using assms(1,3)
proof (induction vs arbitrary: r us)
  case Nil
  with size_law [OF Nil(1)] show ?case by simp
next
  case (Cons v vs)
  note le = size_law [OF Cons.prems(1)]
  obtain r1 where r1: "write1 v r = Some (of_bool (length us = n), r1)"
    "holds r1 (drop (of_bool (length us = n)) us @ [v]) n"
    using write1_spec [OF Cons.prems(1) assms(2)] Cons.prems(2) by auto
  from Cons.IH [OF r1(2)] Cons.prems(2) r1(1) le assms(2) show ?case
    by (cases "length us = n") (auto simp: Suc_diff_le of_nat_diff)
qed

end

interpretation ring: overwriting_ring ringbuffer_get_write_element ringbuffer_put_write_element
    ringbuffer_get_read_element ringbuffer_put_read_element ring_user_data ring_store "ring_holds P" P for P :: "'u option \<Rightarrow> bool"
proof unfold_locales
  fix r :: "'u ringbuffer" and us n u
  show "length us \<le> n" if "ring_holds P r us n" using that by (auto simp: ring_holds_def)
  show "ringbuffer_get_read_element r = Some (None, r)" if "ring_holds P r [] n"
    using that get_read_none by (auto simp: ring_holds_def)
  show "\<exists>a r1 r2. ringbuffer_get_read_element r = Some (Some a, r1) \<and> ring_user_data r1 a = Some u \<and> P u
      \<and> ringbuffer_put_read_element a r1 = Some r2 \<and> ring_holds P r2 us n" if h: "ring_holds P r (u # us) n"
    by (rule ring_read [OF h])
  show "\<exists>a r1 u0. ringbuffer_get_write_element r = Some (a, of_bool (length us = n), r1) \<and> ring_user_data r1 a = Some u0 \<and> P u0
      \<and> (\<forall>u. P u \<longrightarrow> (\<exists>r2 r3. ring_store a u r1 = Some r2 \<and> ringbuffer_put_write_element a r2 = Some r3
          \<and> ring_holds P r3 (drop (of_bool (length us = n)) us @ [u]) n))" if h: "ring_holds P r us n" "0 < n"
    by (rule ring_write [OF h])
qed

subsection \<open>Making and deleting a ring\<close>

text \<open>A new ring is empty; its elements carry what the client's function made.\<close>

locale ring_maker = element_maker lfds_malloc "Some f" hp_next within
  for f :: "lfds_heap \<Rightarrow> int \<times> 'u option \<times> lfds_heap" and within :: "'u option \<Rightarrow> addr \<Rightarrow> addr \<Rightarrow> bool" +
  fixes P :: "'u option \<Rightarrow> bool"
  assumes within_P: "within u lo hi \<Longrightarrow> P u"
begin

lemma ring_new:
  assumes new: "ringbuffer_new g (Some f) n h = Some (r, ro, h')" and n: "n + 1 \<noteq> 0"
  shows "(r = 0 \<and> ro = None) \<or> (\<exists>rs. r = 1 \<and> ro = Some rs \<and> ring_holds P rs [] (unat n))"
proof -
  obtain x h1 where m: "lfds_malloc h = (x, h1)" by (cases "lfds_malloc h")
  obtain r1 fo h2 where f: "freelist_new lfds_malloc (Some f) n h1 = Some (r1, fo, h2)"
    using freelist_new_total by (metis not_None_eq prod_cases3)
  show ?thesis
  proof (cases "x = None \<or> fo = None")
    case True
    with new m f show ?thesis by (auto simp: ringbuffer_new_def split: option.splits)
  next
    case False
    then obtain fs b where some: "fo = Some fs" "x = Some b" by auto
    from freelist_new_spec [OF f] some(1) obtain as where
      as: "free_list fs as" "length as = unat n" "made fs as (hp_next h2)" by auto
    from new m f some obtain r2 qs h3 where q: "queue_new g n h2 = Some (r2, Some qs, h3)"
      and r: "r = 1" "ro = Some \<lparr>rb_qs = qs, rb_fs = fs\<rparr>"
      by (auto simp: ringbuffer_new_def)
    have "queued qs [] (unat n)" using queued_new [OF q n] by auto
    moreover have "\<forall>a \<in> set as. P (fl_data fs a)" using as(3) within_P unfolding made_def by blast
    moreover have "set as \<subseteq> dom (fl_elems fs)" "distinct as" using as(1) fl_path_dom by (fastforce simp: free_list_def)+
    ultimately have "ring_holds P \<lparr>rb_qs = qs, rb_fs = fs\<rparr> [] (unat n)"
      using as(1,2) unfolding ring_holds_def by (intro exI [of _ "[]"] exI [of _ as]) (simp add: ring_ok_def)
    with r show ?thesis by blast
  qed
qed

end

text \<open>Deleting hands exactly the unused elements back, not the filled ones.\<close>

lemma ring_delete:
  assumes "ring_holds P rs us n" "n < m"
  shows "\<exists>ds. ringbuffer_delete m rs = Some ds \<and> length ds = n - length us \<and> (\<forall>u \<in> set ds. P u)"
proof -
  obtain as xs where ok: "ring_ok rs as xs []" and us: "us = map (fl_data (rb_fs rs)) as" and n: "n = length as + length xs"
    and P: "\<forall>b \<in> set as \<union> set xs. P (fl_data (rb_fs rs) b)"
    using assms(1) by (auto simp: ring_holds_def)
  have "queued (rb_qs rs) (map Some as) (length xs)" using ok by (simp add: ring_ok_def)
  then obtain ns where "queue_delete m (rb_qs rs) = Some ns"
    using queued_delete [of _ "map Some as" "length xs" m] n assms(2) by auto
  moreover have "freelist_delete m (rb_fs rs) = Some (map (fl_data (rb_fs rs)) xs)"
    using delete_all [of "rb_fs rs" xs m] ok n assms(2) by (auto simp: ring_ok_def)
  ultimately show ?thesis using us n P by (auto simp: ringbuffer_delete_def)
qed

end
