(* ===== verification/StdPriv.thy ===== *)
theory StdPriv
  imports UbxNode LfdsRingbuffer
begin

text \<open>
  What the standard blocks under \<open>src/std_blocks\<close> share: their private data, and memory
  accesses at an offset into a buffer. A block whose private data was freed keeps the
  dangling pointer (\<open>PFreed\<close>).
\<close>

record fifo_info =
  fi_size :: u64
  fi_buff :: cbuf
  fi_rd :: nat
  fi_wr :: nat
  fi_type :: "addr option"
  fi_policy :: u32
  fi_overruns :: u64

record random_info =
  ri_min :: u32
  ri_max :: u32

record trig_tstat =
  ts_min :: ubx_timespec
  ts_max :: ubx_timespec
  ts_total :: ubx_timespec
  ts_cnt :: u64

record trig_inf =
  ti_list :: "(addr \<times> nat) option"
  ti_list_len :: u32
  ti_tstats :: trig_tstat
  ti_port :: "(addr \<times> nat) option"

text \<open>An element of the two cyclic buffers: a header with a length, and the data behind it.\<close>

record cyclic_elem =
  ce_len :: u64
  ce_data :: "u8 list"

record cyclic_info =
  cy_type :: addr
  cy_data_len :: u64
  cy_buffer_len :: u64
  cy_rbs :: "cyclic_elem ringbuffer"
  cy_overruns :: u64
  cy_port :: "(addr \<times> nat) option"

record raw_info =
  rw_num :: u64
  rw_size :: u64
  rw_type :: "addr option"
  rw_rbs :: "cyclic_elem ringbuffer"
  rw_overruns :: u64
  rw_port :: "(addr \<times> nat) option"

datatype priv = PFifo fifo_info | PRandom random_info | PTrig trig_inf | PCyclic cyclic_info
  | PRaw raw_info | PFreed

subsection \<open>Accesses at an offset\<close>

definition mem_read :: "cbuf \<Rightarrow> nat \<Rightarrow> nat \<Rightarrow> u8 list option" where
  "mem_read b off n = do {
     bs \<leftarrow> live_bytes b;
     guard (off + n \<le> length bs);
     Some (take n (drop off bs)) }"

definition mem_write :: "cbuf \<Rightarrow> nat \<Rightarrow> u8 list \<Rightarrow> cbuf option" where
  "mem_write b off xs = do {
     bs \<leftarrow> live_bytes b;
     guard (off + length xs \<le> length bs);
     Some (BLive (take off bs @ xs @ drop (off + length xs) bs)) }"

lemma mem_read_Some: "mem_read b off n = Some xs \<Longrightarrow> length xs = n"
  by (auto simp: mem_read_def)

lemma mem_write_nil: "mem_write b off [] = Some b' \<Longrightarrow> b' = b"
  by (cases b) (auto simp: mem_write_def)

lemma mem_write_live:
  "off + length xs \<le> length bs \<Longrightarrow>
   mem_write (BLive bs) off xs = Some (BLive (take off bs @ xs @ drop (off + length xs) bs))"
  by (simp add: mem_write_def)

lemma mem_read_live: "off + n \<le> length bs \<Longrightarrow> mem_read (BLive bs) off n = Some (take n (drop off bs))"
  by (simp add: mem_read_def)

text \<open>Integers of 32 and 64 bits in the machine's byte order.\<close>

definition native32 :: "endian \<Rightarrow> u8 list \<Rightarrow> u32 option" where
  "native32 e bs = (case load32s e bs of [] \<Rightarrow> None | v # _ \<Rightarrow> Some v)"

definition native64 :: "endian \<Rightarrow> u8 list \<Rightarrow> u64 option" where
  "native64 e bs = do {
     a \<leftarrow> native32 e (take 4 bs);
     b \<leftarrow> native32 e (take 4 (drop 4 bs));
     let (lo, hi) = (case e of Little \<Rightarrow> (a, b) | Big \<Rightarrow> (b, a));
     Some (ucast lo + push_bit 32 (ucast hi)) }"

definition store64 :: "endian \<Rightarrow> u64 \<Rightarrow> u8 list" where
  "store64 e v =
     (let lo = store32 e (ucast v); hi = store32 e (ucast (drop_bit 32 v))
      in case e of Little \<Rightarrow> lo @ hi | Big \<Rightarrow> hi @ lo)"

text \<open>The string at the start of a buffer; without a terminator it is read past the end.\<close>

definition c_string :: "cbuf \<Rightarrow> string option" where
  "c_string b = do {
     bs \<leftarrow> live_bytes b;
     guard (0 \<in> set bs);
     Some (map (\<lambda>x. char_of (unat x)) (takeWhile (\<lambda>x. x \<noteq> 0) bs)) }"

text \<open>The first 32 bits of a configuration's value.\<close>

definition config32 :: "priv world \<Rightarrow> addr \<Rightarrow> string \<Rightarrow> u32 option" where
  "config32 w i name = do {
     (p, len) \<leftarrow> ubx_config_get_data_ptr w (Some i) (Some name);
     bs \<leftarrow> mem_read p 0 4;
     native32 (host w) bs }"

text \<open>A block's private data.\<close>

definition set_priv :: "priv world \<Rightarrow> addr \<Rightarrow> priv option \<Rightarrow> priv world" where
  "set_priv w a p = upd_block w a (\<lambda>b. b\<lparr>private_data := p\<rparr>)"

lemma hook_frame_set_priv [intro!]: "hook_frame w w' \<Longrightarrow> hook_frame w (set_priv w' a p)"
  unfolding set_priv_def
  by (erule hook_frame_trans) (rule hook_frame_upd, simp add: same_control_def)

definition priv_of :: "priv world \<Rightarrow> addr \<Rightarrow> priv option" where
  "priv_of w a = do { b \<leftarrow> heap w a; private_data b }"

lemma priv_of_set_priv:
  "priv_of (set_priv w a p) b = (if b = a \<and> heap w a \<noteq> None then p else priv_of w b)"
  by (auto simp: priv_of_def set_priv_def heap_upd_block)

text \<open>The clock's next reading; a clock that fails leaves the caller's variable
  uninitialised.\<close>

definition read_clock :: "priv world \<Rightarrow> (ubx_timespec \<times> priv world) option" where
  "read_clock w = (case clock w of [] \<Rightarrow> None | t # ts \<Rightarrow> Some (t, w\<lparr>clock := ts\<rparr>))"

lemma hook_frame_clock: "read_clock w = Some (t, w') \<Longrightarrow> hook_frame w w'"
  by (auto simp: read_clock_def hook_frame_def intro: option.rel_refl_strong split: list.splits)

end
