(* ===== verification/SimpleFifo.thy ===== *)
theory SimpleFifo
  imports StdPriv
begin

text \<open>
  The interaction \<open>src/std_blocks/simple_fifo/simple_fifo.c\<close>: a byte buffer with a read
  and a write pointer, offsets here. The read and write hooks run under the block's
  mutex, so each is one step. \<open>ptr\<close> gives the machine address of a type object: the size
  of the buffer is read through a pointer to the configuration's header and not to its
  data, so it is the first 32 bits of a type pointer.
\<close>

definition DROP_NEW :: u32 where "DROP_NEW = 1"
definition DROP_OLD :: u32 where "DROP_OLD = 2"

definition first32 :: "endian \<Rightarrow> u64 \<Rightarrow> u32" where
  "first32 e p = (if e = Little then ucast p else ucast (drop_bit 32 p))"

definition fifo_init :: "(addr \<Rightarrow> u64) \<Rightarrow> addr \<Rightarrow> priv world \<Rightarrow> (int \<times> priv world) option" where
  "fifo_init ptr i w = do {
     _ \<leftarrow> heap w i;
     if \<not> alloc_ok w then Some (-1, set_priv (alloc_step w) i None)
     else do {
       let w = alloc_step w;
       d \<leftarrow> ubx_config_get_data w (Some i) (Some ''fifo_size'');
       cfg \<leftarrow> d;
       c \<leftarrow> config_at w cfg;
       let size0 = (ucast (case d_type (c_value c) of None \<Rightarrow> 0 | Some t \<Rightarrow> first32 (host w) (ptr t)) :: u64);
       let size = (if size0 = 0 then 16 else size0);
       if \<not> alloc_ok w then Some (-1, set_priv (alloc_step w) i (Some PFreed))
       else Some (0, set_priv (alloc_step w) i (Some (PFifo
              \<lparr>fi_size = size, fi_buff = BLive (map (garbage w) [0..<unat size]), fi_rd = 0, fi_wr = 0,
               fi_type = None, fi_policy = 0, fi_overruns = 0\<rparr>))) } }"

definition fifo_cleanup :: "addr \<Rightarrow> priv world \<Rightarrow> priv world option" where
  "fifo_cleanup i w =
     (case priv_of w i of
        Some (PFifo bbi) \<Rightarrow> do { _ \<leftarrow> live_bytes (fi_buff bbi); Some (set_priv w i (Some PFreed)) }
      | _ \<Rightarrow> None)"

definition empty_space :: "fifo_info \<Rightarrow> int" where
  "empty_space b = (if fi_wr b \<ge> fi_rd b then int (unat (fi_size b)) - (int (fi_wr b) - int (fi_rd b))
     else int (fi_rd b) - int (fi_wr b))"

definition used_space :: "fifo_info \<Rightarrow> u64" where
  "used_space b = (if fi_wr b < fi_rd b then fi_size b - of_nat (fi_rd b - fi_wr b)
     else of_nat (fi_wr b - fi_rd b))"

text \<open>The policy on a full buffer: \<open>None\<close> gives the new data up.\<close>

definition fifo_make_room :: "fifo_info \<Rightarrow> int \<Rightarrow> fifo_info \<times> bool" where
  "fifo_make_room b len =
     (if empty_space b < len then
        let b = b\<lparr>fi_overruns := fi_overruns b + 1\<rparr> in
        if fi_policy b = DROP_NEW then (b, False)
        else if fi_policy b = DROP_OLD then
          let rd = fi_rd b + nat len;
              rd = (if rd > unat (fi_size b) then rd - unat (fi_size b) else rd)
          in (b\<lparr>fi_rd := rd\<rparr>, True)
        else (b, False)
      else (b, True))"

definition fifo_store :: "fifo_info \<Rightarrow> cbuf \<Rightarrow> int \<Rightarrow> fifo_info option" where
  "fifo_store b src len =
     (let size = int (unat (fi_size b));
          len2 = (if fi_wr b > fi_rd b then
                    let l = len - (size - int (fi_wr b)) in if l > 0 then l else 0
                  else 0);
          len = (if len2 > 0 then len - len2 else len)
      in do {
        xs \<leftarrow> mem_read src 0 (nat len);
        buf \<leftarrow> mem_write (fi_buff b) (fi_wr b) xs;
        let b = b\<lparr>fi_buff := buf, fi_wr := (if int (fi_wr b) + len \<ge> size then 0 else fi_wr b + nat len)\<rparr>;
        if len2 > 0 then do {
          ys \<leftarrow> mem_read src (nat len) (nat len2);
          buf \<leftarrow> mem_write (fi_buff b) 0 ys;
          Some (b\<lparr>fi_buff := buf, fi_wr := nat len2\<rparr>) }
        else Some b })"

definition fifo_write :: "addr \<Rightarrow> ubx_data \<Rightarrow> priv world \<Rightarrow> (ubx_data \<times> priv world) option" where
  "fifo_write i msg w =
     (case priv_of w i of
        Some (PFifo bbi) \<Rightarrow> do {
          n \<leftarrow> data_size w (Some msg);
          let len = int (unat n);
          if len > int (unat (fi_size bbi)) then Some (msg, w)
          else do {
            bbi \<leftarrow> (case fi_type bbi of
                Some _ \<Rightarrow> Some bbi
              | None \<Rightarrow> do { t \<leftarrow> d_type msg; _ \<leftarrow> theap w t; Some (bbi\<lparr>fi_type := Some t\<rparr>) });
            let (bbi, room) = fifo_make_room bbi len;
            if \<not> room then Some (msg, set_priv w i (Some (PFifo bbi)))
            else do {
              bbi \<leftarrow> fifo_store bbi (d_data msg) len;
              Some (msg, set_priv w i (Some (PFifo bbi))) } } }
      | _ \<Rightarrow> None)"

text \<open>The number of bytes to read starts at zero and never grows.\<close>

definition fifo_read :: "addr \<Rightarrow> ubx_data \<Rightarrow> priv world \<Rightarrow> (int \<times> ubx_data \<times> priv world) option" where
  "fifo_read i msg w =
     (case priv_of w i of
        Some (PFifo bbi) \<Rightarrow>
          if fi_rd bbi = fi_wr bbi then Some (0, msg, w)
          else if d_type msg \<noteq> fi_type bbi then do {
            _ \<leftarrow> get_typename w (Some msg);
            t \<leftarrow> fi_type bbi;
            _ \<leftarrow> theap w t;
            Some (EPORT_INVALID_TYPE, msg, w) }
          else do {
            let used = used_space bbi;
            let readsz = (0 :: u64);
            let readsz = (if used < readsz then used else readsz);
            let readsz2 = (if fi_rd bbi > fi_wr bbi
                           then readsz - (fi_size bbi - of_nat (fi_wr bbi)) else 0);
            let readsz1 = (if fi_rd bbi > fi_wr bbi then readsz - readsz2 else 0);
            xs \<leftarrow> mem_read (fi_buff bbi) (fi_rd bbi) (unat readsz1);
            dat \<leftarrow> mem_write (d_data msg) 0 xs;
            t \<leftarrow> fi_type bbi;
            ty \<leftarrow> theap w t;
            guard (ty_size ty \<noteq> 0);
            Some (sint (ucast (readsz div ty_size ty) :: u32), msg\<lparr>d_data := dat\<rparr>,
                  set_priv w i (Some (PFifo (bbi\<lparr>fi_rd := unat readsz1\<rparr>)))) }
      | _ \<Rightarrow> None)"

subsection \<open>The buffer in use\<close>

text \<open>
  The overrun policy is never configured and stays zero, so the read pointer never leaves
  the start of the buffer.
\<close>

definition fifo_ok :: "fifo_info \<Rightarrow> bool" where
  "fifo_ok b \<longleftrightarrow> fi_size b \<noteq> 0 \<and> fi_rd b = 0 \<and> fi_wr b < unat (fi_size b) \<and> fi_policy b = 0
     \<and> (\<exists>bs. fi_buff b = BLive bs \<and> length bs = unat (fi_size b))"

definition fifo_content :: "fifo_info \<Rightarrow> u8 list" where
  "fifo_content b = (case fi_buff b of BLive bs \<Rightarrow> take (fi_wr b) bs | _ \<Rightarrow> [])"

lemma fifo_okE:
  assumes "fifo_ok b"
  obtains bs where "fi_buff b = BLive bs" "length bs = unat (fi_size b)" "fi_rd b = 0"
    "fi_wr b < unat (fi_size b)" "fi_policy b = 0" "fi_size b \<noteq> 0"
  using assms by (auto simp: fifo_ok_def)

lemma fifo_store_ok:
  assumes ok: "fifo_ok b" and fit: "fi_wr b + n \<le> unat (fi_size b)" and n: "length ms = n"
  shows "\<exists>b'. fifo_store b (BLive ms) (int n) = Some b' \<and> fifo_ok b'
    \<and> fifo_content b' = (if fi_wr b + n = unat (fi_size b) then [] else fifo_content b @ ms)"
  using ok
proof (rule fifo_okE)
  fix bs
  assume b: "fi_buff b = BLive bs" "length bs = unat (fi_size b)" "fi_rd b = 0"
    "fi_wr b < unat (fi_size b)" "fi_policy b = 0" "fi_size b \<noteq> 0"
  have "\<not> 0 < int n - (int (unat (fi_size b)) - int (fi_wr b))" using fit by (simp del: of_nat_unat)
  moreover have "mem_read (BLive ms) 0 n = Some ms" using n by (simp add: mem_read_live)
  moreover have "mem_write (BLive bs) (fi_wr b) ms
      = Some (BLive (take (fi_wr b) bs @ ms @ drop (fi_wr b + n) bs))"
    using fit n b(2) by (simp add: mem_write_live)
  ultimately have "fifo_store b (BLive ms) (int n) = Some (b\<lparr>fi_buff := BLive (take (fi_wr b) bs @ ms @ drop (fi_wr b + n) bs),
      fi_wr := (if fi_wr b + n = unat (fi_size b) then 0 else fi_wr b + n)\<rparr>)"
    using fit unfolding fifo_store_def Let_def b(1) by (auto simp: b(1,3) simp del: of_nat_unat)
  then show ?thesis using b fit n
    by (auto simp: fifo_ok_def fifo_content_def)
qed

lemma fifo_room:
  assumes "fifo_ok b"
  shows "fifo_make_room b len =
    (if int (unat (fi_size b)) - int (fi_wr b) < len then (b\<lparr>fi_overruns := fi_overruns b + 1\<rparr>, False) else (b, True))"
  using assms
  by (auto simp: fifo_make_room_def empty_space_def fifo_ok_def Let_def DROP_NEW_def DROP_OLD_def
      simp del: of_nat_unat)

lemma fifo_ok_upd [simp]:
  "fifo_ok (b\<lparr>fi_type := t\<rparr>) = fifo_ok b" "fifo_ok (b\<lparr>fi_overruns := n\<rparr>) = fifo_ok b"
  "fifo_content (b\<lparr>fi_type := t\<rparr>) = fifo_content b" "fifo_content (b\<lparr>fi_overruns := n\<rparr>) = fifo_content b"
  by (simp_all add: fifo_ok_def fifo_content_def split: cbuf.split)

text \<open>What a write leaves in the buffer.\<close>

definition fifo_appended :: "fifo_info \<Rightarrow> u8 list \<Rightarrow> u8 list" where
  "fifo_appended b ms =
     (if fi_wr b + length ms < unat (fi_size b) then fifo_content b @ ms
      else if fi_wr b + length ms = unat (fi_size b) then [] else fifo_content b)"

lemma fifo_write_ok:
  assumes p: "priv_of w i = Some (PFifo b)" and ok: "fifo_ok b"
    and msg: "wf_data w msg" "d_data msg = BLive ms"
  shows "\<exists>w' b'. fifo_write i msg w = Some (msg, w') \<and> hook_frame w w'
    \<and> priv_of w' i = Some (PFifo b') \<and> fifo_ok b' \<and> fi_size b' = fi_size b
    \<and> fifo_content b' = fifo_appended b ms"
proof -
  obtain n where n: "data_size w (Some msg) = Some n" "unat n = length ms"
    using data_size_wf [OF msg] by blast
  obtain t ty where ty: "d_type msg = Some t" "theap w t = Some ty" using msg(1) by (rule wf_dataE)
  obtain bk where live: "heap w i = Some bk" using p by (auto simp: priv_of_def)
  define b1 where "b1 = (case fi_type b of Some _ \<Rightarrow> b | None \<Rightarrow> b\<lparr>fi_type := Some t\<rparr>)"
  have b1: "fifo_ok b1" "fifo_content b1 = fifo_content b" "fi_wr b1 = fi_wr b" "fi_size b1 = fi_size b"
    using ok by (auto simp: b1_def split: option.splits)
  have ty1: "(case fi_type b of Some _ \<Rightarrow> Some b
      | None \<Rightarrow> do { t \<leftarrow> d_type msg; _ \<leftarrow> theap w t; Some (b\<lparr>fi_type := Some t\<rparr>) }) = Some b1"
    using ty by (simp add: b1_def split: option.split)
  consider "unat (fi_size b) < length ms"
    | "length ms \<le> unat (fi_size b)" "unat (fi_size b) < fi_wr b + length ms"
    | "fi_wr b + length ms \<le> unat (fi_size b)" by linarith
  then show ?thesis
  proof cases
    case 1
    then have "fifo_write i msg w = Some (msg, w)"
      using p n by (simp add: fifo_write_def del: of_nat_unat)
    with 1 p ok show ?thesis by (auto simp: fifo_appended_def)
  next
    case 2
    let ?b = "b1\<lparr>fi_overruns := fi_overruns b1 + 1\<rparr>"
    have "fifo_write i msg w = Some (msg, set_priv w i (Some (PFifo ?b)))"
      using 2 p n ty1 fifo_room [OF b1(1)] by (simp add: fifo_write_def b1 del: of_nat_unat)
    with 2 b1 live show ?thesis
      by (auto simp: fifo_appended_def priv_of_set_priv)
  next
    case 3
    have "fi_wr b1 + length ms \<le> unat (fi_size b1)" using 3 b1 by simp
    from fifo_store_ok [OF b1(1) this refl] obtain b' where
      b': "fifo_store b1 (BLive ms) (int (length ms)) = Some b'" "fifo_ok b'"
      "fifo_content b' = (if fi_wr b1 + length ms = unat (fi_size b1) then [] else fifo_content b1 @ ms)" by blast
    have "fi_size b' = fi_size b1" using b'(1)
      by (auto simp: fifo_store_def Let_def split: if_splits)
    moreover have "fifo_write i msg w = Some (msg, set_priv w i (Some (PFifo b')))"
      using 3 p n ty1 b'(1) fifo_room [OF b1(1)] by (simp add: fifo_write_def b1 msg(2) del: of_nat_unat)
    ultimately show ?thesis using 3 b' b1 live
      by (auto simp: fifo_appended_def priv_of_set_priv)
  qed
qed

text \<open>Whatever state the buffer is in, a read that is defined copies nothing.\<close>

lemma fifo_read_nothing:
  assumes "fifo_read i msg w = Some (r, msg', w')"
    and "\<And>b bs. priv_of w i = Some (PFifo b) \<Longrightarrow> fi_buff b = BLive bs \<Longrightarrow>
      length bs = unat (fi_size b) \<and> fi_wr b < unat (fi_size b)"
  shows "msg' = msg \<and> (r = 0 \<or> r = EPORT_INVALID_TYPE)"
proof -
  obtain b where b: "priv_of w i = Some (PFifo b)"
    using assms(1) by (auto simp: fifo_read_def split: option.splits priv.splits)
  show ?thesis
  proof (cases "fi_rd b > fi_wr b \<and> d_type msg = fi_type b")
    case False
    with assms(1) b show ?thesis
      by (auto simp: fifo_read_def Let_def mem_read_def split: if_splits dest!: mem_write_nil)
  next
    case True
    with assms(1) b obtain xs where
      "mem_read (fi_buff b) (fi_rd b) (unat (fi_size b - of_nat (fi_wr b))) = Some xs"
      by (auto simp: fifo_read_def Let_def)
    then obtain bs where bs: "fi_buff b = BLive bs"
      and le: "fi_rd b + unat (fi_size b - of_nat (fi_wr b)) \<le> length bs"
      by (cases "fi_buff b") (auto simp: mem_read_def)
    have wr: "length bs = unat (fi_size b)" "fi_wr b < unat (fi_size b)" using assms(2) [OF b bs] by simp_all
    have "unat (of_nat (fi_wr b) :: u64) = fi_wr b"
      using le_unat_uoi [of "fi_wr b" "fi_size b"] wr(2) by linarith
    then have "unat (fi_size b - of_nat (fi_wr b)) = unat (fi_size b) - fi_wr b"
      using wr(2) by (simp add: unat_sub word_le_nat_alt)
    with le have "fi_rd b + (unat (fi_size b) - fi_wr b) \<le> length bs" by simp
    with wr True have False by arith
    then show ?thesis ..
  qed
qed

end
