(* ===== verification/RandomBlock.thy ===== *)
theory RandomBlock
  imports StdPriv
begin

text \<open>
  The computation block \<open>src/std_blocks/random/random.c\<close>. \<open>prng\<close> is the C library's
  generator: \<open>prng seed n\<close> is the n-th number drawn after seeding, below \<open>2 ^ 31\<close>. The
  comparisons and remainders mix \<open>int\<close> and \<open>unsigned int\<close>, so all are unsigned.
\<close>

definition rnd_init :: "addr \<Rightarrow> priv world \<Rightarrow> (int \<times> priv world) option" where
  "rnd_init b w = do {
     _ \<leftarrow> heap w b;
     if \<not> alloc_ok w then Some (EOUTOFMEM, set_priv (alloc_step w) b None)
     else Some (0, set_priv (alloc_step w) b (Some (PRandom \<lparr>ri_min = 0, ri_max = 0\<rparr>))) }"

definition rnd_cleanup :: "addr \<Rightarrow> priv world \<Rightarrow> priv world option" where
  "rnd_cleanup b w =
     (case priv_of w b of
        Some (PRandom _) \<Rightarrow> Some (set_priv w b (Some PFreed))
      | None \<Rightarrow> do { _ \<leftarrow> heap w b; Some w }
      | _ \<Rightarrow> None)"

definition INT_MAX :: u32 where "INT_MAX = 2147483647"

definition srandom :: "u32 \<Rightarrow> priv world \<Rightarrow> priv world" where
  "srandom s w = w\<lparr>rng_seed := s, rng_count := 0\<rparr>"

definition random :: "(u32 \<Rightarrow> nat \<Rightarrow> u32) \<Rightarrow> priv world \<Rightarrow> u32 \<times> priv world" where
  "random prng w = (prng (rng_seed w) (rng_count w), w\<lparr>rng_count := Suc (rng_count w)\<rparr>)"

text \<open>The seed's variable holds garbage until the port is read; a port that is missing
  makes the typed read return \<open>-1\<close>, which counts as a reading.\<close>

definition rnd_start :: "priv hooks \<Rightarrow> addr \<Rightarrow> priv world \<Rightarrow> (int \<times> priv world) option" where
  "rnd_start H b w = do {
     (conf, clen) \<leftarrow> ubx_config_get_data_ptr w (Some b) (Some ''min_max_config'');
     mn \<leftarrow> mem_read conf 0 4;
     mx \<leftarrow> mem_read conf 4 4;
     mn \<leftarrow> native32 (host w) mn;
     mx \<leftarrow> native32 (host w) mx;
     w \<leftarrow> (case priv_of w b of
            Some (PRandom ri) \<Rightarrow> Some (set_priv w b (Some (PRandom
               (ri\<lparr>ri_min := mn, ri_max := (if mx = 0 then INT_MAX else mx)\<rparr>))))
          | _ \<Rightarrow> None);
     seed_port \<leftarrow> ubx_port_get w (Some b) (Some ''seed'');
     (ret, seed, w) \<leftarrow> typed_read H ''unsigned int'' 1 seed_port (map (garbage w) [0..<4]) w;
     if 0 < ret then do {
       bs \<leftarrow> mem_read seed 0 4;
       s \<leftarrow> native32 (host w) bs;
       Some (0, srandom s w) }
     else Some (0, w) }"

definition rnd_value :: "u32 \<Rightarrow> u32 \<Rightarrow> u32 \<Rightarrow> u32 option" where
  "rnd_value mn mx v = do {
     v \<leftarrow> (if v > mx then if mx = 0 then None else Some (v mod mx) else Some v);
     (if v < mn then if mx = 0 then None else Some ((mn + v) mod mx) else Some v) }"

definition rnd_step :: "(u32 \<Rightarrow> nat \<Rightarrow> u32) \<Rightarrow> priv hooks \<Rightarrow> addr \<Rightarrow> priv world \<Rightarrow> priv world option" where
  "rnd_step prng H b w = do {
     rand_port \<leftarrow> ubx_port_get w (Some b) (Some ''rnd'');
     let (v, w) = random prng w;
     ri \<leftarrow> (case priv_of w b of Some (PRandom ri) \<Rightarrow> Some ri | _ \<Rightarrow> None);
     v \<leftarrow> rnd_value (ri_min ri) (ri_max ri) v;
     typed_write H ''unsigned int'' 1 rand_port (store32 (host w) v) w }"

subsection \<open>The range of the numbers\<close>

text \<open>The documented purpose is a number between the two bounds. The upper one is kept, and
  a number that is drawn in range is passed on.\<close>

lemma rnd_value_le:
  assumes "0 < mx" "rnd_value mn mx v = Some r"
  shows "r \<le> mx"
proof -
  have "x mod mx < mx" for x :: u32 using assms(1) by (simp add: word_mod_less_divisor)
  then show ?thesis using assms
    by (auto simp: rnd_value_def less_imp_le split: if_splits)
qed

lemma rnd_value_in: "mn \<le> v \<Longrightarrow> v \<le> mx \<Longrightarrow> rnd_value mn mx v = Some v"
  by (simp add: rnd_value_def not_less [symmetric])

lemma rnd_value_defined: "0 < mx \<Longrightarrow> rnd_value mn mx v \<noteq> None"
  by (auto simp: rnd_value_def)

subsection \<open>Properties of the numbers\<close>

text \<open>With a positive upper bound every number that is drawn gives a result, at most the
  bound; one that is between the bounds is passed on unchanged.\<close>

lemma rnd_value_bounded:
  assumes "0 < mx"
  shows "\<exists>r. rnd_value mn mx v = Some r \<and> r \<le> mx \<and> (mn \<le> v \<and> v \<le> mx \<longrightarrow> r = v)"
  using rnd_value_defined [OF assms] rnd_value_le [OF assms] rnd_value_in by fastforce

text \<open>The lower bound is not kept: a number below it is shifted up by the bound and reduced
  again, which can leave it below.\<close>

lemma rnd_value_below_min: "rnd_value 5 8 4 = Some 1"
  by (simp add: rnd_value_def)

end
