(* ===== verification/TrigBlock.thy ===== *)
theory TrigBlock
  imports StdPriv
begin

text \<open>
  The trigger block \<open>src/std_blocks/trig/trig.c\<close>: a step of it steps other blocks, each as
  often as its configuration says, and keeps statistics of how long that took. The
  layout of the structures in the configuration and on the port is the compiler's:
  \<open>dec\<close> reads the i-th entry of the list (the block and the number of steps), \<open>enc\<close>
  writes the statistics. \<open>H\<close> are the hooks of the blocks that are stepped.
\<close>

subsection \<open>One trigger\<close>

text \<open>The counter is an \<open>int\<close>: \<open>2 ^ 31\<close> steps or more overflow it.\<close>

fun step_times :: "priv hooks \<Rightarrow> addr option \<Rightarrow> nat \<Rightarrow> priv world \<Rightarrow> (bool \<times> priv world) option" where
  "step_times H b 0 w = Some (True, w)"
| "step_times H b (Suc n) w = do {
     (r, w) \<leftarrow> ubx_cblock_step H b w;
     if r \<noteq> 0 then Some (False, w) else step_times H b n w }"

fun trigger_list :: "priv hooks \<Rightarrow> (addr option \<times> u32) option list \<Rightarrow> priv world \<Rightarrow> (bool \<times> priv world) option" where
  "trigger_list H [] w = Some (True, w)"
| "trigger_list H (e # es) w = do {
     (b, n) \<leftarrow> e;
     guard (unat n < 2 ^ 31);
     (ok, w) \<leftarrow> step_times H b (unat n) w;
     if ok then trigger_list H es w else Some (False, w) }"

definition update_tstats :: "trig_tstat \<Rightarrow> ubx_timespec \<Rightarrow> trig_tstat option" where
  "update_tstats s dur = do {
     let s = (if ubx_ts_cmp dur (ts_min s) = -1 then s\<lparr>ts_min := dur\<rparr> else s);
     let s = (if ubx_ts_cmp dur (ts_max s) = 1 then s\<lparr>ts_max := dur\<rparr> else s);
     t \<leftarrow> ubx_ts_add (ts_total s) dur;
     Some (s\<lparr>ts_total := t, ts_cnt := ts_cnt s + 1\<rparr>) }"

definition trig_entries ::
    "(u8 list \<Rightarrow> nat \<Rightarrow> (addr option \<times> u32) option) \<Rightarrow> priv world \<Rightarrow> trig_inf
     \<Rightarrow> (addr option \<times> u32) option list option" where
  "trig_entries dec w ti =
     (if ti_list_len ti = 0 then Some []
      else do {
        ref \<leftarrow> ti_list ti;
        c \<leftarrow> config_at w ref;
        bs \<leftarrow> live_bytes (d_data (c_value c));
        Some (map (dec bs) [0..<unat (ti_list_len ti)]) })"

definition inf_of :: "priv world \<Rightarrow> addr \<Rightarrow> trig_inf option" where
  "inf_of w b = (case priv_of w b of Some (PTrig ti) \<Rightarrow> Some ti | _ \<Rightarrow> None)"

definition do_trigger ::
    "(u8 list \<Rightarrow> nat \<Rightarrow> (addr option \<times> u32) option) \<Rightarrow> (trig_tstat \<Rightarrow> u8 list)
     \<Rightarrow> priv hooks \<Rightarrow> addr \<Rightarrow> priv world \<Rightarrow> (int \<times> priv world) option" where
  "do_trigger dec enc H b w = do {
     ti \<leftarrow> inf_of w b;
     (ts_start, w) \<leftarrow> read_clock w;
     es \<leftarrow> trig_entries dec w ti;
     (ok, w) \<leftarrow> trigger_list H es w;
     if \<not> ok then Some (-1, w)
     else do {
       (ts_end, w) \<leftarrow> read_clock w;
       ts_dur \<leftarrow> ubx_ts_sub ts_end ts_start;
       ti \<leftarrow> inf_of w b;
       s \<leftarrow> update_tstats (ti_tstats ti) ts_dur;
       let w = set_priv w b (Some (PTrig (ti\<lparr>ti_tstats := s\<rparr>)));
       w \<leftarrow> typed_write H ''struct trig_tstat'' 1 (ti_port ti) (enc s) w;
       Some (0, w) } }"

definition trig_step ::
    "(u8 list \<Rightarrow> nat \<Rightarrow> (addr option \<times> u32) option) \<Rightarrow> (trig_tstat \<Rightarrow> u8 list)
     \<Rightarrow> priv hooks \<Rightarrow> addr \<Rightarrow> priv world \<Rightarrow> priv world option" where
  "trig_step dec enc H b w = do { (r, w) \<leftarrow> do_trigger dec enc H b w; Some w }"

subsection \<open>The other hooks\<close>

definition trig_init :: "addr \<Rightarrow> priv world \<Rightarrow> (int \<times> priv world) option" where
  "trig_init b w = do {
     _ \<leftarrow> heap w b;
     if \<not> alloc_ok w then Some (EOUTOFMEM, set_priv (alloc_step w) b None)
     else Some (0, set_priv (alloc_step w) b (Some (PTrig
            \<lparr>ti_list = None, ti_list_len = 0,
             ti_tstats = \<lparr>ts_min = TS 999999999 999999999, ts_max = TS 0 0, ts_total = TS 0 0, ts_cnt = 0\<rparr>,
             ti_port = None\<rparr>))) }"

text \<open>The list is not copied: the trigger keeps pointing into the configuration.\<close>

definition trig_start :: "addr \<Rightarrow> priv world \<Rightarrow> (int \<times> priv world) option" where
  "trig_start b w = do {
     d \<leftarrow> ubx_config_get_data w (Some b) (Some ''trig_blocks'');
     ref \<leftarrow> d;
     c \<leftarrow> config_at w ref;
     ti \<leftarrow> inf_of w b;
     p \<leftarrow> ubx_port_get w (Some b) (Some ''tstats'');
     port \<leftarrow> p;
     Some (0, set_priv w b (Some (PTrig
        (ti\<lparr>ti_list := Some ref, ti_list_len := ucast (d_len (c_value c)), ti_port := Some port\<rparr>)))) }"

definition trig_cleanup :: "addr \<Rightarrow> priv world \<Rightarrow> priv world option" where
  "trig_cleanup b w =
     (case priv_of w b of
        Some (PTrig _) \<Rightarrow> Some (set_priv w b (Some PFreed))
      | None \<Rightarrow> do { _ \<leftarrow> heap w b; Some w }
      | _ \<Rightarrow> None)"

subsection \<open>Statistics\<close>

text \<open>What a record of durations should look like after the durations \<open>ds\<close>.\<close>

definition tstats_of :: "trig_tstat \<Rightarrow> ubx_timespec list \<Rightarrow> trig_tstat option" where
  "tstats_of s ds = foldl (\<lambda>r d. r \<bind> (\<lambda>s. update_tstats s d)) (Some s) ds"

lemma update_tstats_spec:
  assumes "update_tstats s d = Some s'"
  shows "ts_min s' = min (ts_min s) d \<and> ts_max s' = max (ts_max s) d
    \<and> ts_val (ts_total s') = ts_val (ts_total s) + ts_val d \<and> ts_normal (ts_total s')
    \<and> ts_cnt s' = ts_cnt s + 1"
  using assms
  by (auto simp: update_tstats_def Let_def ts_cmp_order min_def max_def not_less dest!: ts_add_spec)

lemma tstats_of_Cons:
  "tstats_of s (d # ds) = update_tstats s d \<bind> (\<lambda>s. tstats_of s ds)"
proof -
  have "foldl (\<lambda>r d. r \<bind> (\<lambda>s. update_tstats s d)) None xs = None" for xs :: "ubx_timespec list"
    by (induction xs) simp_all
  then show ?thesis by (cases "update_tstats s d") (simp_all add: tstats_of_def)
qed

lemma tstats_of_spec:
  "tstats_of s ds = Some s' \<Longrightarrow>
   ts_min s' = fold min ds (ts_min s) \<and> ts_max s' = fold max ds (ts_max s)
   \<and> ts_val (ts_total s') = ts_val (ts_total s) + sum_list (map ts_val ds)
   \<and> ts_cnt s' = ts_cnt s + of_nat (length ds)"
proof (induction ds arbitrary: s)
  case (Cons d ds)
  from Cons.prems obtain s1 where s1: "update_tstats s d = Some s1" "tstats_of s1 ds = Some s'"
    by (auto simp: tstats_of_Cons)
  from update_tstats_spec [OF s1(1)] Cons.IH [OF s1(2)] show ?case
    by (simp add: min.commute max.commute)
qed (simp add: tstats_of_def)

subsection \<open>Properties of the statistics\<close>

text \<open>After any series of triggers the statistics hold the least and the greatest of the
  durations (and of their initial values), their exact sum, and how many there were.\<close>

lemma trig_statistics:
  assumes "tstats_of s ds = Some s'"
  shows "ts_min s' = fold min ds (ts_min s) \<and> ts_max s' = fold max ds (ts_max s)
    \<and> ts_val (ts_total s') = ts_val (ts_total s) + sum_list (map ts_val ds)
    \<and> ts_cnt s' = ts_cnt s + of_nat (length ds)"
  by (rule tstats_of_spec [OF assms])

end
