(* ===== verification/CyclicBlock.thy ===== *)
theory CyclicBlock
  imports StdPriv
begin

text \<open>
  The two interactions on the ring buffer, \<open>src/std_blocks/lfds_buffers/lfds_cyclic.c\<close> (typed)
  and \<open>lfds_cyclic_raw.c\<close> (any type, the length in bytes). \<open>H\<close> are the hooks behind the port
  on which the overruns are reported. The memory of a ring is its own, with addresses
  from 0, and the allocations draw from the process's plan. The sizes of an element, header
  included, are assumed not to wrap.
\<close>

subsection \<open>The typed buffer\<close>

definition cyclic_data_elem_init :: "u64 \<Rightarrow> lfds_heap \<Rightarrow> int \<times> cyclic_elem option \<times> lfds_heap" where
  "cyclic_data_elem_init sz h =
     (case lfds_malloc h of
        (None, h) \<Rightarrow> (0, None, h)
      | (Some _, h) \<Rightarrow> (1, Some \<lparr>ce_len = 0, ce_data = replicate (unat sz) 0\<rparr>, h))"

text \<open>The counter of the queue is not initialised when its first element is made.\<close>

definition garbage64 :: "priv world \<Rightarrow> u64" where
  "garbage64 w = word_rcat (map (garbage w) [0..<8])"

definition new_ring ::
    "u64 \<Rightarrow> u64 \<Rightarrow> priv world \<Rightarrow> (cyclic_elem ringbuffer option \<times> priv world) option" where
  "new_ring n sz w = do {
     (_, rbs, h) \<leftarrow> ringbuffer_new (garbage64 w) (Some (cyclic_data_elem_init sz)) n
       \<lparr>hp_next = 0, hp_plan = mem w\<rparr>;
     Some (rbs, w\<lparr>mem := hp_plan h\<rparr>) }"

definition cyclic_init :: "addr \<Rightarrow> priv world \<Rightarrow> (int \<times> priv world) option" where
  "cyclic_init i w = do {
     _ \<leftarrow> heap w i;
     if \<not> alloc_ok w then Some (EOUTOFMEM, set_priv (alloc_step w) i None)
     else do {
       let w = alloc_step w;
       buffer_len \<leftarrow> config32 w i ''buffer_len'';
       if buffer_len = 0 then Some (EINVALID_CONFIG, set_priv w i (Some PFreed))
       else do {
         data_len \<leftarrow> config32 w i ''data_len'';
         let data_len = (if data_len = 0 then 1 else ucast data_len);
         (tn, len) \<leftarrow> ubx_config_get_data_ptr w (Some i) (Some ''type_name'');
         if tn = BNull \<or> len = 0 then Some (-1, set_priv w i (Some PFreed))
         else do {
           name \<leftarrow> c_string tn;
           (case ubx_type_get w name of
              None \<Rightarrow> Some (EINVALID_CONFIG, set_priv w i (Some PFreed))
            | Some t \<Rightarrow> do {
                ty \<leftarrow> theap w t;
                (rbs, w) \<leftarrow> new_ring (ucast buffer_len) (data_len * ty_size ty) w;
                (case rbs of
                   None \<Rightarrow> Some (EOUTOFMEM, set_priv w i (Some PFreed))
                 | Some rbs \<Rightarrow> do {
                     port \<leftarrow> ubx_port_get w (Some i) (Some ''overruns'');
                     port \<leftarrow> port;
                     Some (0, set_priv w i (Some (PCyclic
                       \<lparr>cy_type = t, cy_data_len = data_len, cy_buffer_len = ucast buffer_len,
                        cy_rbs = rbs, cy_overruns = 0, cy_port = Some port\<rparr>))) }) }) } } } }"

definition cyclic_cleanup :: "addr \<Rightarrow> priv world \<Rightarrow> priv world option" where
  "cyclic_cleanup i w =
     (case priv_of w i of
        Some (PCyclic bbi) \<Rightarrow> do {
          _ \<leftarrow> ringbuffer_delete (Suc (unat (cy_buffer_len bbi))) (cy_rbs bbi);
          Some (set_priv w i (Some PFreed)) }
      | _ \<Rightarrow> None)"

text \<open>The element is in the writer's hands while the overrun is reported.\<close>

definition cyclic_write :: "priv hooks \<Rightarrow> addr \<Rightarrow> ubx_data \<Rightarrow> priv world \<Rightarrow> (ubx_data \<times> priv world) option" where
  "cyclic_write H i msg w =
     (case priv_of w i of
        Some (PCyclic bbi) \<Rightarrow>
          if d_type msg \<noteq> Some (cy_type bbi) then do { t \<leftarrow> d_type msg; _ \<leftarrow> theap w t; Some (msg, w) }
          else if d_len msg > cy_data_len bbi then Some (msg, w)
          else do {
            (elem, ret, rbs) \<leftarrow> ringbuffer_get_write_element (cy_rbs bbi);
            let bbi = bbi\<lparr>cy_rbs := rbs\<rparr>;
            (bbi, w) \<leftarrow> (if ret \<noteq> 0 then do {
                let bbi = bbi\<lparr>cy_overruns := cy_overruns bbi + 1\<rparr>;
                let w = set_priv w i (Some (PCyclic bbi));
                w \<leftarrow> typed_write H ''unsigned long'' 1 (cy_port bbi) (store64 (host w) (cy_overruns bbi)) w;
                (case priv_of w i of Some (PCyclic bbi) \<Rightarrow> Some (bbi, w) | _ \<Rightarrow> None) }
              else Some (bbi, w));
            hd \<leftarrow> ring_user_data (cy_rbs bbi) elem;
            hd \<leftarrow> hd;
            len \<leftarrow> data_size w (Some msg);
            xs \<leftarrow> mem_read (d_data msg) 0 (unat len);
            guard (unat len \<le> length (ce_data hd));
            rbs \<leftarrow> ring_store elem (Some \<lparr>ce_len = d_len msg, ce_data = xs @ drop (unat len) (ce_data hd)\<rparr>) (cy_rbs bbi);
            rbs \<leftarrow> ringbuffer_put_write_element elem rbs;
            Some (msg, set_priv w i (Some (PCyclic (bbi\<lparr>cy_rbs := rbs\<rparr>)))) }
      | _ \<Rightarrow> None)"

text \<open>On a wrong type the result was never assigned.\<close>

definition cyclic_read :: "addr \<Rightarrow> ubx_data \<Rightarrow> priv world \<Rightarrow> (int \<times> ubx_data \<times> priv world) option" where
  "cyclic_read i msg w =
     (case priv_of w i of
        Some (PCyclic bbi) \<Rightarrow>
          if d_type msg \<noteq> Some (cy_type bbi) then do {
            t \<leftarrow> d_type msg; _ \<leftarrow> theap w t;
            ret \<leftarrow> native32 (host w) (map (garbage w) [0..<4]);
            Some (sint ret, msg, w) }
          else do {
            (elem, rbs) \<leftarrow> ringbuffer_get_read_element (cy_rbs bbi);
            (case elem of
               None \<Rightarrow> Some (0, msg, set_priv w i (Some (PCyclic (bbi\<lparr>cy_rbs := rbs\<rparr>))))
             | Some elem \<Rightarrow> do {
                 hd \<leftarrow> ring_user_data rbs elem;
                 hd \<leftarrow> hd;
                 let readlen = min (d_len msg) (ce_len hd);
                 ty \<leftarrow> theap w (cy_type bbi);
                 let readsz = ty_size ty * readlen;
                 xs \<leftarrow> mem_read (BLive (ce_data hd)) 0 (unat readsz);
                 dat \<leftarrow> mem_write (d_data msg) 0 xs;
                 rbs \<leftarrow> ringbuffer_put_read_element elem rbs;
                 Some (sint (ucast readlen :: u32), msg\<lparr>d_data := dat\<rparr>,
                       set_priv w i (Some (PCyclic (bbi\<lparr>cy_rbs := rbs\<rparr>)))) }) }
      | _ \<Rightarrow> None)"

subsection \<open>The raw buffer\<close>

definition raw_init :: "addr \<Rightarrow> priv world \<Rightarrow> (int \<times> priv world) option" where
  "raw_init i w = do {
     _ \<leftarrow> heap w i;
     if \<not> alloc_ok w then Some (EOUTOFMEM, set_priv (alloc_step w) i None)
     else do {
       let w = alloc_step w;
       num \<leftarrow> config32 w i ''element_num'';
       if num = 0 then Some (EINVALID_CONFIG, set_priv w i (Some PFreed))
       else do {
         size \<leftarrow> config32 w i ''element_size'';
         if size = 0 then Some (EINVALID_CONFIG, set_priv w i (Some PFreed))
         else do {
           (rbs, w) \<leftarrow> new_ring (ucast num) (ucast size) w;
           (case rbs of
              None \<Rightarrow> Some (EOUTOFMEM, set_priv w i (Some PFreed))
            | Some rbs \<Rightarrow> do {
                port \<leftarrow> ubx_port_get w (Some i) (Some ''overruns'');
                port \<leftarrow> port;
                Some (0, set_priv w i (Some (PRaw
                  \<lparr>rw_num = ucast num, rw_size = ucast size, rw_type = None,
                   rw_rbs = rbs, rw_overruns = 0, rw_port = Some port\<rparr>))) }) } } } }"

definition raw_cleanup :: "addr \<Rightarrow> priv world \<Rightarrow> priv world option" where
  "raw_cleanup i w =
     (case priv_of w i of
        Some (PRaw bbi) \<Rightarrow> do {
          _ \<leftarrow> ringbuffer_delete (Suc (unat (rw_num bbi))) (rw_rbs bbi);
          Some (set_priv w i (Some PFreed)) }
      | _ \<Rightarrow> None)"

definition raw_write :: "priv hooks \<Rightarrow> addr \<Rightarrow> ubx_data \<Rightarrow> priv world \<Rightarrow> (ubx_data \<times> priv world) option" where
  "raw_write H i msg w =
     (case priv_of w i of
        Some (PRaw bbi) \<Rightarrow> do {
          len \<leftarrow> data_size w (Some msg);
          if ucast len > rw_size bbi then Some (msg, w)
          else do {
            let bbi = (if rw_type bbi = None then bbi\<lparr>rw_type := d_type msg\<rparr> else bbi);
            (elem, ret, rbs) \<leftarrow> ringbuffer_get_write_element (rw_rbs bbi);
            let bbi = bbi\<lparr>rw_rbs := rbs\<rparr>;
            (bbi, w) \<leftarrow> (if ret \<noteq> 0 then do {
                let bbi = bbi\<lparr>rw_overruns := rw_overruns bbi + 1\<rparr>;
                let w = set_priv w i (Some (PRaw bbi));
                w \<leftarrow> typed_write H ''unsigned long'' 1 (rw_port bbi) (store64 (host w) (rw_overruns bbi)) w;
                (case priv_of w i of Some (PRaw bbi) \<Rightarrow> Some (bbi, w) | _ \<Rightarrow> None) }
              else Some (bbi, w));
            hd \<leftarrow> ring_user_data (rw_rbs bbi) elem;
            hd \<leftarrow> hd;
            xs \<leftarrow> mem_read (d_data msg) 0 (unat len);
            guard (unat len \<le> length (ce_data hd));
            rbs \<leftarrow> ring_store elem (Some \<lparr>ce_len = ucast len, ce_data = xs @ drop (unat len) (ce_data hd)\<rparr>) (rw_rbs bbi);
            rbs \<leftarrow> ringbuffer_put_write_element elem rbs;
            Some (msg, set_priv w i (Some (PRaw (bbi\<lparr>rw_rbs := rbs\<rparr>)))) } }
      | _ \<Rightarrow> None)"

definition raw_read :: "addr \<Rightarrow> ubx_data \<Rightarrow> priv world \<Rightarrow> (int \<times> ubx_data \<times> priv world) option" where
  "raw_read i msg w =
     (case priv_of w i of
        Some (PRaw bbi) \<Rightarrow> do {
          (elem, rbs) \<leftarrow> ringbuffer_get_read_element (rw_rbs bbi);
          (case elem of
             None \<Rightarrow> Some (0, msg, set_priv w i (Some (PRaw (bbi\<lparr>rw_rbs := rbs\<rparr>))))
           | Some elem \<Rightarrow> do {
               hd \<leftarrow> ring_user_data rbs elem;
               hd \<leftarrow> hd;
               n \<leftarrow> data_size w (Some msg);
               let readsz = min (ucast n) (ce_len hd);
               xs \<leftarrow> mem_read (BLive (ce_data hd)) 0 (unat readsz);
               dat \<leftarrow> mem_write (d_data msg) 0 xs;
               rbs \<leftarrow> ringbuffer_put_read_element elem rbs;
               t \<leftarrow> d_type msg;
               ty \<leftarrow> theap w t;
               guard (ty_size ty \<noteq> 0);
               Some (sint (ucast (readsz div ty_size ty) :: u32), msg\<lparr>d_data := dat\<rparr>,
                     set_priv w i (Some (PRaw (bbi\<lparr>rw_rbs := rbs\<rparr>)))) }) }
      | _ \<Rightarrow> None)"

subsection \<open>The elements in use\<close>

definition elem_ok :: "u64 \<Rightarrow> u64 \<Rightarrow> cyclic_elem option \<Rightarrow> bool" where
  "elem_ok dl sz u \<longleftrightarrow> (\<exists>x. u = Some x \<and> ce_len x \<le> dl \<and> length (ce_data x) = unat dl * unat sz)"

lemma elem_okE:
  assumes "elem_ok dl sz u"
  obtains x where "u = Some x" "ce_len x \<le> dl" "length (ce_data x) = unat dl * unat sz"
  using assms by (auto simp: elem_ok_def)

interpretation cyc: ring_maker "cyclic_data_elem_init n" "\<lambda>u lo hi. \<exists>x. u = Some x \<and> ce_len x = 0 \<and> length (ce_data x) = unat n"
    "\<lambda>u. \<exists>x. u = Some x \<and> ce_len x = 0 \<and> length (ce_data x) = unat n" for n
proof unfold_locales
  fix w w' :: lfds_heap and r a
  show "lfds_malloc w = (r, w') \<Longrightarrow> hp_next w \<le> hp_next w'" by (rule malloc_mono)
  show "lfds_malloc w = (Some a, w') \<Longrightarrow> hp_next w \<le> a \<and> a < hp_next w'" using malloc_new by fastforce
next
  fix f and w w' :: lfds_heap and rv u
  assume "Some (cyclic_data_elem_init n) = Some f" "f w = (rv, u, w')"
  then show "hp_next w \<le> hp_next w' \<and> (rv = 0 \<or> rv = 1
      \<and> (\<exists>x. u = Some x \<and> ce_len x = 0 \<and> length (ce_data x) = unat n))"
    using malloc_mono by (fastforce simp: cyclic_data_elem_init_def split: prod.splits option.splits)
qed simp_all

lemma ring_holds_weaken: "ring_holds P r us n \<Longrightarrow> (\<And>u. P u \<Longrightarrow> Q u) \<Longrightarrow> ring_holds Q r us n"
  unfolding ring_holds_def by blast

lemma new_ring_empty:
  assumes "new_ring n (dl * sz) w = Some (Some rs, w')" "n + 1 \<noteq> 0" "unat dl * unat sz < 2 ^ 64"
  shows "ring_holds (elem_ok dl sz) rs [] (unat n)"
proof -
  obtain r h where "ringbuffer_new (garbage64 w) (Some (cyclic_data_elem_init (dl * sz))) n
      \<lparr>hp_next = 0, hp_plan = mem w\<rparr> = Some (r, Some rs, h)"
    using assms(1) by (auto simp: new_ring_def)
  from cyc.ring_new [OF this assms(2)] show ?thesis
    using assms(3) by (auto simp: elem_ok_def unat_word_ariths elim!: ring_holds_weaken)
qed

text \<open>Taking an element, filling it and queueing it.\<close>

lemma ring_fill:
  assumes "ring_holds P rs us n" "0 < n"
  obtains a rs1 u0 where "ringbuffer_get_write_element rs = Some (a, of_bool (length us = n), rs1)"
    "ring_user_data rs1 a = Some u0" "P u0"
    "\<forall>u. P u \<longrightarrow> (\<exists>rs2 rs3. ring_store a u rs1 = Some rs2 \<and> ringbuffer_put_write_element a rs2 = Some rs3
       \<and> ring_holds P rs3 (drop (of_bool (length us = n)) us @ [u]) n)"
  using ring.write_law [OF assms] by blast

subsection \<open>Properties of the typed buffer\<close>

text \<open>C39: A new ring keeps the newest \<open>n\<close> of the elements that are written to it and counts the
  others as overwritten; deleting it then gives back only the elements that are not filled,
  so the buffers of the filled ones are lost.\<close>

theorem ring_lifetime:
  assumes "new_ring n (dl * sz) w = Some (Some rs, w')" "n \<noteq> 0" "n + 1 \<noteq> 0" "unat dl * unat sz < 2 ^ 64"
    and "\<forall>v \<in> set vs. elem_ok dl sz v"
  shows "\<exists>rs' ds. ring.write_all vs rs = Some (int (length vs - unat n), rs')
    \<and> ring_holds (elem_ok dl sz) rs' (drop (length vs - unat n) vs) (unat n)
    \<and> ringbuffer_delete (Suc (unat n)) rs' = Some ds \<and> length ds = unat n - min (unat n) (length vs)"
proof -
  have n: "0 < unat n" using assms(2) by (simp add: unat_gt_0)
  have "ring_holds (elem_ok dl sz) rs [] (unat n)" by (rule new_ring_empty [OF assms(1,3,4)])
  from ring.write_all_spec [OF this n assms(5)] obtain rs' where
    rs': "ring.write_all vs rs = Some (int (length vs - unat n), rs')"
      "ring_holds (elem_ok dl sz) rs' (drop (length vs - unat n) vs) (unat n)" by auto
  from ring_delete [OF rs'(2), of "Suc (unat n)"] rs' show ?thesis by (auto simp: min_def)
qed

text \<open>What the port on which overruns are reported may not do: change the buffer or the types.\<close>

definition quiet_port :: "priv hooks \<Rightarrow> addr \<Rightarrow> (addr \<times> nat) option \<Rightarrow> bool" where
  "quiet_port H i port \<longleftrightarrow> (\<forall>bs w w'. typed_write H ''unsigned long'' 1 port bs w = Some w'
     \<longrightarrow> priv_of w' i = priv_of w i \<and> theap w' = theap w)"

lemma theap_set_priv [simp]: "theap (set_priv w i p) = theap w"
  by (simp add: set_priv_def)

lemma data_size_theap: "theap w' = theap w \<Longrightarrow> data_size w' d = data_size w d"
  by (simp add: data_size_def split: option.split)

text \<open>C13: A message that is not longer than an element is stored as the newest one, in place of
  the oldest when the buffer is full; the overruns count those. With room the write cannot fail.\<close>

theorem cyclic_write_stores:
  assumes p: "priv_of w i = Some (PCyclic b)" and r: "ring_holds (elem_ok (cy_data_len b) (ty_size ty)) (cy_rbs b) us n"
    and n: "0 < n" and ty: "theap w (cy_type b) = Some ty"
    and msg: "wf_data w msg" "d_type msg = Some (cy_type b)" "d_len msg \<le> cy_data_len b" "d_data msg = BLive ms"
    and quiet: "quiet_port H i (cy_port b)"
  shows "(length us < n \<longrightarrow> cyclic_write H i msg w \<noteq> None)
    \<and> (\<forall>msg' w'. cyclic_write H i msg w = Some (msg', w') \<longrightarrow> msg' = msg
        \<and> (\<exists>b' u. priv_of w' i = Some (PCyclic b') \<and> ce_len u = d_len msg \<and> take (length ms) (ce_data u) = ms
            \<and> ring_holds (elem_ok (cy_data_len b) (ty_size ty)) (cy_rbs b')
                (drop (of_bool (length us = n)) us @ [Some u]) n
            \<and> cy_overruns b' = cy_overruns b + of_bool (length us = n)))"
proof -
  obtain len where len: "data_size w (Some msg) = Some len" "unat len = length ms"
    using data_size_wf [OF msg(1,4)] by blast
  have size: "length ms = unat (d_len msg) * unat (ty_size ty)" using msg(1,2,4) ty by (auto elim!: wf_dataE)
  obtain a rs1 u0 where g: "ringbuffer_get_write_element (cy_rbs b) = Some (a, of_bool (length us = n), rs1)"
    "ring_user_data rs1 a = Some u0" "elem_ok (cy_data_len b) (ty_size ty) u0"
    and put: "\<forall>u. elem_ok (cy_data_len b) (ty_size ty) u \<longrightarrow> (\<exists>rs2 rs3. ring_store a u rs1 = Some rs2
       \<and> ringbuffer_put_write_element a rs2 = Some rs3
       \<and> ring_holds (elem_ok (cy_data_len b) (ty_size ty)) rs3 (drop (of_bool (length us = n)) us @ [u]) n)"
    by (rule ring_fill [OF r n])
  obtain hd where hd: "u0 = Some hd" "length (ce_data hd) = unat (cy_data_len b) * unat (ty_size ty)"
    using g(3) by (rule elem_okE)
  have fits: "length ms \<le> length (ce_data hd)" using size hd(2) msg(3) by (simp add: word_le_nat_alt)
  define u where "u = \<lparr>ce_len = d_len msg, ce_data = ms @ drop (length ms) (ce_data hd)\<rparr>"
  have "elem_ok (cy_data_len b) (ty_size ty) (Some u)" using msg(3) fits hd(2) by (simp add: elem_ok_def u_def)
  with put obtain rs2 rs3 where s: "ring_store a (Some u) rs1 = Some rs2"
    "ringbuffer_put_write_element a rs2 = Some rs3"
    "ring_holds (elem_ok (cy_data_len b) (ty_size ty)) rs3 (drop (of_bool (length us = n)) us @ [Some u]) n" by blast
  have u: "ce_len u = d_len msg" "take (length ms) (ce_data u) = ms" by (simp_all add: u_def)
  have live: "heap w i \<noteq> None" using p by (auto simp: priv_of_def)
  have rd: "mem_read (d_data msg) 0 (length ms) = Some ms" using msg(4) by (simp add: mem_read_def)
  have short: "\<not> cy_data_len b < d_len msg" using msg(3) by simp
  show ?thesis
  proof (cases "length us = n")
    case False
    then have "cyclic_write H i msg w = Some (msg, set_priv w i (Some (PCyclic (b\<lparr>cy_rbs := rs3\<rparr>))))"
      using p msg(2) short g hd(1) len rd fits s by (simp add: cyclic_write_def u_def Let_def)
    with s u live False show ?thesis by (fastforce simp: priv_of_set_priv)
  next
    case True
    let ?b = "b\<lparr>cy_rbs := rs1, cy_overruns := cy_overruns b + 1\<rparr>"
    let ?w = "set_priv w i (Some (PCyclic ?b))"
    show ?thesis
    proof (cases "typed_write H ''unsigned long'' 1 (cy_port b) (store64 (host ?w) (cy_overruns ?b)) ?w")
      case None
      with p msg(2) short g(1) True show ?thesis by (simp add: cyclic_write_def Let_def)
    next
      case (Some w2)
      have w2: "priv_of w2 i = Some (PCyclic ?b)" "theap w2 = theap w"
        using quiet Some live by (auto simp: quiet_port_def priv_of_set_priv)
      then have live2: "heap w2 i \<noteq> None" by (auto simp: priv_of_def)
      have "data_size w2 (Some msg) = Some len" using len(1) data_size_theap [OF w2(2)] by simp
      then have "cyclic_write H i msg w = Some (msg, set_priv w2 i (Some (PCyclic (?b\<lparr>cy_rbs := rs3\<rparr>))))"
        using p msg(2) short g hd(1) len(2) rd fits s True Some w2(1)
        by (simp add: cyclic_write_def u_def Let_def)
      with s u live2 True show ?thesis by (fastforce simp: priv_of_set_priv)
    qed
  qed
qed

text \<open>C14: A read takes the oldest message and copies it to the start of the caller's buffer, cut
  to the caller's length; an empty buffer gives 0 and changes nothing.\<close>

theorem cyclic_read_takes:
  assumes p: "priv_of w i = Some (PCyclic b)" and r: "ring_holds (elem_ok (cy_data_len b) (ty_size ty)) (cy_rbs b) us n"
    and ty: "theap w (cy_type b) = Some ty"
    and msg: "wf_data w msg" "d_type msg = Some (cy_type b)" "d_data msg = BLive ms"
  shows "(us = [] \<longrightarrow> cyclic_read i msg w = Some (0, msg, set_priv w i (Some (PCyclic b))))
    \<and> (\<forall>u vs. us = Some u # vs \<longrightarrow> (\<exists>w' b'. cyclic_read i msg w =
        Some (sint (ucast (min (d_len msg) (ce_len u)) :: u32),
          msg\<lparr>d_data := BLive (let k = unat (min (d_len msg) (ce_len u)) * unat (ty_size ty)
            in take k (ce_data u) @ drop k ms)\<rparr>, w')
        \<and> priv_of w' i = Some (PCyclic b') \<and> ring_holds (elem_ok (cy_data_len b) (ty_size ty)) (cy_rbs b') vs n))"
proof (intro conjI impI allI)
  have live: "heap w i \<noteq> None" using p by (auto simp: priv_of_def)
  {
    assume "us = []"
    with ring.empty_law [OF r [unfolded this]] p msg(2) show
      "cyclic_read i msg w = Some (0, msg, set_priv w i (Some (PCyclic b)))"
      by (simp add: cyclic_read_def)
  next
    fix u vs
    assume us: "us = Some u # vs"
    from ring.read_law [OF r [unfolded us]] obtain a rs1 rs2 where
      g: "ringbuffer_get_read_element (cy_rbs b) = Some (Some a, rs1)" "ring_user_data rs1 a = Some (Some u)"
        "elem_ok (cy_data_len b) (ty_size ty) (Some u)" "ringbuffer_put_read_element a rs1 = Some rs2"
        "ring_holds (elem_ok (cy_data_len b) (ty_size ty)) rs2 vs n" by blast
    let ?m = "min (d_len msg) (ce_len u)"
    let ?k = "unat ?m * unat (ty_size ty)"
    have ms: "length ms = unat (d_len msg) * unat (ty_size ty)" "unat (d_len msg) * unat (ty_size ty) < 2 ^ 32"
      using msg ty by (auto elim!: wf_dataE)
    have m: "unat ?m \<le> unat (d_len msg)" "unat ?m \<le> unat (ce_len u)" by (simp_all add: min_def word_le_nat_alt)
    have "?k \<le> length ms" unfolding ms(1) using m(1) by simp
    moreover have "?k \<le> length (ce_data u)"
      using g(3) m(2) by (auto simp: elem_ok_def word_le_nat_alt intro: mult_le_mono1)
    moreover have "unat (ty_size ty * ?m) = ?k"
    proof -
      have "length ms < 2 ^ 64" using ms by simp
      with calculation(1) have "?k < 2 ^ 64" by (rule le_less_trans)
      then show ?thesis by (simp add: unat_word_ariths mult.commute)
    qed
    ultimately have "cyclic_read i msg w = Some (sint (ucast ?m :: u32),
        msg\<lparr>d_data := BLive (take ?k (ce_data u) @ drop ?k ms)\<rparr>, set_priv w i (Some (PCyclic (b\<lparr>cy_rbs := rs2\<rparr>))))"
      using p msg(2,3) g(1,2,4) ty by (simp add: cyclic_read_def Let_def mem_read_def mem_write_def)
    with g(5) live show "\<exists>w' b'. cyclic_read i msg w =
        Some (sint (ucast ?m :: u32), msg\<lparr>d_data := BLive (let k = ?k in take k (ce_data u) @ drop k ms)\<rparr>, w')
        \<and> priv_of w' i = Some (PCyclic b') \<and> ring_holds (elem_ok (cy_data_len b) (ty_size ty)) (cy_rbs b') vs n"
      by (fastforce simp: priv_of_set_priv Let_def)
  }
qed

end
