(* ===== verification/StdHooks.thy ===== *)
theory StdHooks
  imports SimpleFifo RandomBlock TrigBlock CyclicBlock
begin

text \<open>
  The hooks of the standard blocks as one table, and that they keep the framework's
  contract. A trigger steps other blocks through the table, and a full cyclic buffer writes
  to a port, so the table is built in levels: \<open>std_hooks E n\<close> allows such calls to be nested
  \<open>n\<close> deep. \<open>E\<close> are the parameters of
  the blocks' models.
\<close>

record env =
  e_ptr :: "addr \<Rightarrow> u64"
  e_prng :: "u32 \<Rightarrow> nat \<Rightarrow> u32"
  e_dec :: "u8 list \<Rightarrow> nat \<Rightarrow> (addr option \<times> u32) option"
  e_enc :: "trig_tstat \<Rightarrow> u8 list"

definition FIFO :: fid where "FIFO = 1"
definition RANDOM :: fid where "RANDOM = 2"
definition TRIG :: fid where "TRIG = 3"
definition CYCLIC :: fid where "CYCLIC = 4"
definition RAW :: fid where "RAW = 5"

lemmas fids = FIFO_def RANDOM_def TRIG_def CYCLIC_def RAW_def

fun std_hooks :: "env \<Rightarrow> nat \<Rightarrow> priv hooks" where
  "std_hooks E 0 = \<lparr>h_init = \<lambda>f a w. None, h_start = \<lambda>f a w. None, h_stop = \<lambda>f a w. None,
     h_cleanup = \<lambda>f a w. None, h_step = \<lambda>f a w. None, h_read = \<lambda>f a d w. None,
     h_write = \<lambda>f a d w. None\<rparr>"
| "std_hooks E (Suc n) = \<lparr>
     h_init = \<lambda>f a w. if f = FIFO then fifo_init (e_ptr E) a w else if f = RANDOM then rnd_init a w
                else if f = TRIG then trig_init a w else if f = CYCLIC then cyclic_init a w
                else if f = RAW then raw_init a w else None,
     h_start = \<lambda>f a w. if f = RANDOM then rnd_start (std_hooks E n) a w
                else if f = TRIG then trig_start a w else None,
     h_stop = \<lambda>f a w. None,
     h_cleanup = \<lambda>f a w. if f = FIFO then fifo_cleanup a w else if f = RANDOM then rnd_cleanup a w
                else if f = TRIG then trig_cleanup a w else if f = CYCLIC then cyclic_cleanup a w
                else if f = RAW then raw_cleanup a w else None,
     h_step = \<lambda>f a w. if f = RANDOM then rnd_step (e_prng E) (std_hooks E n) a w
                else if f = TRIG then trig_step (e_dec E) (e_enc E) (std_hooks E n) a w else None,
     h_read = \<lambda>f a d w. if f = FIFO then fifo_read a d w else if f = CYCLIC then cyclic_read a d w
                else if f = RAW then raw_read a d w else None,
     h_write = \<lambda>f a d w. if f = FIFO then fifo_write a d w
                else if f = CYCLIC then cyclic_write (std_hooks E n) a d w
                else if f = RAW then raw_write (std_hooks E n) a d w else None\<rparr>"

subsection \<open>Each hook keeps to the contract\<close>

lemma frame_mem [intro!]: "hook_frame w w' \<Longrightarrow> hook_frame w (alloc_step w')"
  by (rule hook_frame_mem)

lemma post_any: "(\<And>x. Q x) \<Longrightarrow> post m Q"
  by (simp add: post_def)

lemma post_priv [wlp]:
  "post (case p of PFifo b \<Rightarrow> f b | PRandom r \<Rightarrow> g r | PTrig t \<Rightarrow> h t | PCyclic c \<Rightarrow> k1 c
       | PRaw d \<Rightarrow> k2 d | PFreed \<Rightarrow> k) Q =
     ((\<forall>b. p = PFifo b \<longrightarrow> post (f b) Q) \<and> (\<forall>r. p = PRandom r \<longrightarrow> post (g r) Q)
      \<and> (\<forall>t. p = PTrig t \<longrightarrow> post (h t) Q) \<and> (\<forall>c. p = PCyclic c \<longrightarrow> post (k1 c) Q)
      \<and> (\<forall>d. p = PRaw d \<longrightarrow> post (k2 d) Q) \<and> (p = PFreed \<longrightarrow> post k Q))"
  by (cases p) simp_all

lemma hook_frame_rng [intro!]:
  "hook_frame w w' \<Longrightarrow> hook_frame w (srandom s w')"
  "hook_frame w w' \<Longrightarrow> hook_frame w (w'\<lparr>rng_count := n\<rparr>)"
  by (simp_all add: hook_frame_def srandom_def)

lemma fifo_init_frame: "post (fifo_init ptr a w) (\<lambda>(r, w'). hook_frame w w')"
  by (auto simp: fifo_init_def Let_def wlp intro!: post_any)

lemma fifo_cleanup_frame: "post (fifo_cleanup a w) (hook_frame w)"
  by (auto simp: fifo_cleanup_def wlp intro!: post_any)

lemma fifo_write_frame: "post (fifo_write a d w) (\<lambda>(d', w'). hook_frame w w')"
  by (auto simp: fifo_write_def Let_def wlp intro!: post_any)

lemma fifo_write_shape: "post (fifo_write a d w) (\<lambda>(d', w'). d' = d \<and> (\<exists>p. w' = w \<or> w' = set_priv w a p))"
  by (auto simp: fifo_write_def Let_def wlp intro!: post_any)

lemma fifo_read_frame: "post (fifo_read a d w) (\<lambda>(r, d', w'). hook_frame w w')"
  by (auto simp: fifo_read_def Let_def wlp intro!: post_any)

lemma rnd_init_frame: "post (rnd_init a w) (\<lambda>(r, w'). hook_frame w w')"
  by (auto simp: rnd_init_def wlp intro!: post_any)

lemma rnd_cleanup_frame: "post (rnd_cleanup a w) (hook_frame w)"
  by (auto simp: rnd_cleanup_def wlp intro!: post_any)

lemma trig_init_frame: "post (trig_init a w) (\<lambda>(r, w'). hook_frame w w')"
  by (auto simp: trig_init_def wlp intro!: post_any)

lemma trig_start_frame: "post (trig_start a w) (\<lambda>(r, w'). hook_frame w w')"
  by (auto simp: trig_start_def wlp intro!: post_any)

lemma trig_cleanup_frame: "post (trig_cleanup a w) (hook_frame w)"
  by (auto simp: trig_cleanup_def wlp intro!: post_any)

lemma hook_frame_plan [intro!]: "hook_frame w w' \<Longrightarrow> hook_frame w (w'\<lparr>mem := p\<rparr>)"
  by (simp add: hook_frame_def)

lemma new_ring_frame: "hook_frame w0 w \<Longrightarrow> post (new_ring n sz w) (\<lambda>(r, w'). hook_frame w0 w')"
  by (auto simp: new_ring_def wlp intro!: post_any)

lemmas init_quiet = post_any [where m = "heap w a" for w a] post_any [where m = "config32 w a n" for w a n]
  post_any [where m = "ubx_config_get_data_ptr w b n" for w b n] post_any [where m = "c_string b" for b]
  post_any [where m = "theap w t" for w t] post_any [where m = "ubx_port_get w b n" for w b n]
  post_any [where 'a = "addr \<times> nat"]

lemma cyclic_init_frame: "post (cyclic_init a w) (\<lambda>(r, w'). hook_frame w w')"
  by (auto simp: cyclic_init_def wlp Let_def intro!: init_quiet post_mono [OF new_ring_frame])

lemma raw_init_frame: "post (raw_init a w) (\<lambda>(r, w'). hook_frame w w')"
  by (auto simp: raw_init_def wlp Let_def intro!: init_quiet post_mono [OF new_ring_frame])

lemma cyclic_cleanup_frame: "post (cyclic_cleanup a w) (hook_frame w)" "post (raw_cleanup a w) (hook_frame w)"
  by (auto simp: cyclic_cleanup_def raw_cleanup_def wlp intro!: post_any)

lemma cyclic_read_frame: "post (cyclic_read a d w) (\<lambda>(r, d', w'). hook_frame w w')"
  by (auto simp: cyclic_read_def Let_def wlp intro!: post_any)

lemma raw_read_frame: "post (raw_read a d w) (\<lambda>(r, d', w'). hook_frame w w')"
  by (auto simp: raw_read_def Let_def wlp intro!: post_any)

text \<open>The contract for hooks of blocks with the private data above.\<close>

locale priv_hooks = block_hooks H for H :: "priv hooks"
begin

lemma typed_read_from:
  "hook_frame w0 w \<Longrightarrow> post (typed_read H tn n port bs w) (\<lambda>(r, b, w'). hook_frame w0 w')"
  by (rule post_mono [OF typed_read_frame]) (auto intro: hook_frame_trans)

lemma typed_write_from:
  "hook_frame w0 w \<Longrightarrow> post (typed_write H tn n port bs w) (hook_frame w0)"
  by (rule post_mono [OF typed_write_frame]) (auto intro: hook_frame_trans)

lemma cblock_step_from:
  assumes "hook_frame w0 w"
  shows "post (ubx_cblock_step H b w) (\<lambda>(r, w'). hook_frame w0 w')"
proof -
  have "hook_frame w (upd_block w1 a (\<lambda>b. b\<lparr>stat_num_steps := n b\<rparr>))" if "h_step H f a w = Some w1" for f a w1 n
    by (rule hook_frame_trans [OF step_frame [OF that] hook_frame_upd]) (simp add: same_control_def)
  with assms show ?thesis
    by (auto simp: ubx_cblock_step_def wlp post_def [of "heap w a" for w a]
        post_def [of "h_step H f a w" for f a w] intro: hook_frame_trans)
qed

lemma step_times_frame:
  "hook_frame w0 w \<Longrightarrow> post (step_times H b n w) (\<lambda>(r, w'). hook_frame w0 w')"
proof (induction n arbitrary: w)
  case (Suc n)
  show ?case unfolding step_times.simps
    by (rule post_seq [OF cblock_step_from [OF Suc.prems]]) (auto simp: wlp Suc.IH)
qed (simp add: wlp)

lemma trigger_list_frame:
  "hook_frame w0 w \<Longrightarrow> post (trigger_list H es w) (\<lambda>(r, w'). hook_frame w0 w')"
proof (induction es arbitrary: w)
  case (Cons e es)
  then show ?case
    by (cases e) (auto simp: wlp intro!: post_mono [OF step_times_frame [OF Cons.prems]] Cons.IH)
qed (simp add: wlp)

lemmas quiet = post_any [where m = "native32 e bs" for e bs] post_any [where m = "mem_read b o' n" for b o' n]
  post_any [where m = "ubx_port_get w b n" for w b n] post_any [where m = "ubx_config_get_data_ptr w b n" for w b n]
  post_any [where m = "rnd_value a b v" for a b v] post_any [where m = "inf_of w a" for w a]
  post_any [where m = "trig_entries dec w ti" for dec w ti] post_any [where m = "ubx_ts_sub a b" for a b]
  post_any [where m = "update_tstats s d" for s d]

lemmas ring_quiet = quiet post_any [where m = "d_type d" for d] post_any [where m = "theap w t" for w t]
  post_any [where m = "ringbuffer_get_write_element r" for r] post_any [where m = "ring_user_data r a" for r a]
  post_any [where m = "data_size w d" for w d] post_any [where m = "ring_store a u r" for a u r]
  post_any [where m = "ringbuffer_put_write_element a r" for a r] post_any [where 'a = cyclic_elem]

lemma rnd_start_frame: "post (rnd_start H a w) (\<lambda>(r, w'). hook_frame w w')"
  unfolding rnd_start_def
  by (auto simp: wlp intro!: quiet post_mono [OF typed_read_from])

lemma rnd_step_frame: "post (rnd_step prng H a w) (hook_frame w)"
  unfolding rnd_step_def
  by (auto simp: wlp random_def Let_def intro!: quiet typed_write_from)

lemma cyclic_write_frame: "post (cyclic_write H a d w) (\<lambda>(d', w'). hook_frame w w')"
  unfolding cyclic_write_def
  by (auto simp: wlp Let_def intro!: ring_quiet post_mono [OF typed_write_from])

lemma raw_write_frame: "post (raw_write H a d w) (\<lambda>(d', w'). hook_frame w w')"
  unfolding raw_write_def
  by (auto simp: wlp Let_def intro!: ring_quiet post_mono [OF typed_write_from])

lemma read_clock_frame: "hook_frame w0 w \<Longrightarrow> post (read_clock w) (\<lambda>(t, w'). hook_frame w0 w')"
  by (auto simp: post_def dest: hook_frame_clock intro: hook_frame_trans)

lemma do_trigger_frame: "post (do_trigger dec enc H a w) (\<lambda>(r, w'). hook_frame w w')"
  unfolding do_trigger_def post_bind
  by (auto simp: wlp intro!: quiet post_mono [OF trigger_list_frame] post_mono [OF read_clock_frame]
      post_mono [OF typed_write_from])

lemma trig_step_frame: "post (trig_step dec enc H a w) (hook_frame w)"
  unfolding trig_step_def
  by (auto simp: wlp intro: post_mono [OF do_trigger_frame])

end

lemma priv_hooksI:
  assumes "\<And>f a w. post (h_init H f a w) (\<lambda>(r, w'). hook_frame w w')"
    "\<And>f a w. post (h_start H f a w) (\<lambda>(r, w'). hook_frame w w')"
    "\<And>f a w. post (h_stop H f a w) (hook_frame w)"
    "\<And>f a w. post (h_cleanup H f a w) (hook_frame w)"
    "\<And>f a w. post (h_step H f a w) (hook_frame w)"
    "\<And>f a d w. post (h_read H f a d w) (\<lambda>(r, d', w'). hook_frame w w')"
    "\<And>f a d w. post (h_write H f a d w) (\<lambda>(d', w'). hook_frame w w')"
  shows "priv_hooks H"
  using assms by unfold_locales (auto simp: post_def)

lemma std_priv_hooks: "priv_hooks (std_hooks E n)"
proof (induction n)
  case 0
  show ?case by (rule priv_hooksI) (simp_all add: wlp)
next
  case (Suc n)
  show ?case
    by (rule priv_hooksI)
      (simp_all add: wlp fifo_init_frame fifo_cleanup_frame fifo_write_frame fifo_read_frame rnd_init_frame
        rnd_cleanup_frame cyclic_init_frame raw_init_frame cyclic_cleanup_frame cyclic_read_frame raw_read_frame
        priv_hooks.cyclic_write_frame [OF Suc] priv_hooks.raw_write_frame [OF Suc] trig_init_frame trig_start_frame trig_cleanup_frame
        priv_hooks.rnd_start_frame [OF Suc] priv_hooks.rnd_step_frame [OF Suc]
        priv_hooks.trig_step_frame [OF Suc])
qed

interpretation std: priv_hooks "std_hooks E n" for E n
  by (rule std_priv_hooks)

subsection \<open>Loading and unloading the standard blocks\<close>

text \<open>
  The static objects of the three libraries, and which library a file name stands for.
  \<open>ubx_type_t\<close> and \<open>ubx_block_t\<close> objects are given by their addresses.
\<close>

record std_libs =
  l_libs :: "string \<Rightarrow> fid option"
  l_fifo_comp :: addr
  l_random_comp :: addr
  l_random_type :: addr
  l_trig_comp :: addr
  l_trig_types :: "addr list"
  l_cyclic_comp :: addr
  l_raw_comp :: addr

definition fifo_mod_init :: "std_libs \<Rightarrow> priv world \<Rightarrow> (int \<times> priv world) option" where
  "fifo_mod_init L w = ubx_block_register w (l_fifo_comp L)"

definition fifo_mod_cleanup :: "priv world \<Rightarrow> priv world" where
  "fifo_mod_cleanup w = snd (ubx_block_unregister w ''examples/simple_fifo'')"

text \<open>The result of registering the type is not looked at.\<close>

definition rnd_module_init :: "std_libs \<Rightarrow> priv world \<Rightarrow> (int \<times> priv world) option" where
  "rnd_module_init L w = do {
     (_, w) \<leftarrow> ubx_type_register w (Some (l_random_type L));
     ubx_block_register w (l_random_comp L) }"

definition rnd_module_cleanup :: "priv world \<Rightarrow> priv world" where
  "rnd_module_cleanup w =
     (let w = snd (ubx_type_unregister w ''struct random_config'')
      in snd (ubx_block_unregister w ''random/random''))"

fun register_types :: "addr list \<Rightarrow> priv world \<Rightarrow> (int \<times> priv world) option" where
  "register_types [] w = Some (0, w)"
| "register_types (t # ts) w = do {
     (r, w) \<leftarrow> ubx_type_register w (Some t);
     if r \<noteq> 0 then Some (r, w) else register_types ts w }"

definition trig_mod_init :: "std_libs \<Rightarrow> priv world \<Rightarrow> (int \<times> priv world) option" where
  "trig_mod_init L w = do {
     (r, w) \<leftarrow> register_types (l_trig_types L) w;
     if r \<noteq> 0 then Some (r, w) else ubx_block_register w (l_trig_comp L) }"

text \<open>The names in the static array of the library's types.\<close>

definition trig_type_names :: "string list" where
  "trig_type_names = [''struct trig_config'', ''struct trig_tstat'']"

fun unregister_types :: "string list \<Rightarrow> priv world \<Rightarrow> priv world" where
  "unregister_types [] w = w"
| "unregister_types (n # ns) w = unregister_types ns (snd (ubx_type_unregister w n))"

definition trig_mod_cleanup :: "priv world \<Rightarrow> priv world" where
  "trig_mod_cleanup w = snd (ubx_block_unregister (unregister_types trig_type_names w) ''std_triggers/trig'')"

definition cyclic_mod_init :: "std_libs \<Rightarrow> priv world \<Rightarrow> (int \<times> priv world) option" where
  "cyclic_mod_init L w = ubx_block_register w (l_cyclic_comp L)"

definition cyclic_mod_cleanup :: "priv world \<Rightarrow> priv world" where
  "cyclic_mod_cleanup w = snd (ubx_block_unregister w ''lfds_buffers/cyclic'')"

definition raw_mod_init :: "std_libs \<Rightarrow> priv world \<Rightarrow> (int \<times> priv world) option" where
  "raw_mod_init L w = ubx_block_register w (l_raw_comp L)"

definition raw_mod_cleanup :: "priv world \<Rightarrow> priv world" where
  "raw_mod_cleanup w = snd (ubx_block_unregister w ''lfds_buffers/cyclic_raw'')"

definition std_modules :: "std_libs \<Rightarrow> priv modules_env" where
  "std_modules L = \<lparr>
     dl_open = \<lambda>lib. l_libs L lib \<noteq> None, dl_init = l_libs L, dl_cleanup = l_libs L,
     dl_spdx = \<lambda>lib. Some ''BSD-3-Clause'',
     run_init = \<lambda>f w. if f = FIFO then fifo_mod_init L w else if f = RANDOM then rnd_module_init L w
                else if f = TRIG then trig_mod_init L w else if f = CYCLIC then cyclic_mod_init L w
                else if f = RAW then raw_mod_init L w else None,
     run_cleanup = \<lambda>f w. if f = FIFO then Some (fifo_mod_cleanup w)
                else if f = RANDOM then Some (rnd_module_cleanup w)
                else if f = TRIG then Some (trig_mod_cleanup w)
                else if f = CYCLIC then Some (cyclic_mod_cleanup w)
                else if f = RAW then Some (raw_mod_cleanup w) else None\<rparr>"

lemma unregister_frame:
  "unload_frame w0 w \<Longrightarrow> unload_frame w0 (snd (ubx_block_unregister w n))"
  "unload_frame w0 w \<Longrightarrow> unload_frame w0 (snd (ubx_type_unregister w n))"
  by (auto simp: ubx_block_unregister_def ubx_type_unregister_def unload_frame_def split: option.splits)

lemma unregister_types_frame: "unload_frame w0 w \<Longrightarrow> unload_frame w0 (unregister_types ns w)"
  by (induction ns arbitrary: w) (simp_all add: unregister_frame)

definition std_module :: "fid \<Rightarrow> bool" where
  "std_module f \<longleftrightarrow> f \<in> {FIFO, RANDOM, TRIG, CYCLIC, RAW}"

interpretation mods: module_hooks "std_modules L" std_module for L
  by unfold_locales
    (auto simp: std_module_def std_modules_def fids fifo_mod_cleanup_def rnd_module_cleanup_def
      trig_mod_cleanup_def cyclic_mod_cleanup_def raw_mod_cleanup_def Let_def intro!: unregister_frame unregister_types_frame)

subsection \<open>Hooks that return\<close>

text \<open>The private data the clean-up hook of an initialised standard block expects.\<close>

definition cleanable :: "fid option \<Rightarrow> priv option \<Rightarrow> bool" where
  "cleanable c p \<longleftrightarrow> (case c of
     None \<Rightarrow> True
   | Some f \<Rightarrow> (case p of
        Some (PFifo i) \<Rightarrow> f = FIFO \<and> live_bytes (fi_buff i) \<noteq> None
      | Some (PRandom _) \<Rightarrow> f = RANDOM
      | Some (PTrig _) \<Rightarrow> f = TRIG
      | Some (PCyclic b) \<Rightarrow> f = CYCLIC
          \<and> ringbuffer_delete (Suc (unat (cy_buffer_len b))) (cy_rbs b) \<noteq> None
      | Some (PRaw b) \<Rightarrow> f = RAW \<and> ringbuffer_delete (Suc (unat (rw_num b))) (rw_rbs b) \<noteq> None
      | Some PFreed \<Rightarrow> False
      | None \<Rightarrow> False))"

definition std_inv :: "priv world \<Rightarrow> bool" where
  "std_inv w \<longleftrightarrow> (\<forall>a b. heap w a = Some b \<longrightarrow>
     b_stop b = None \<and> (block_state b \<noteq> BLOCK_STATE_PREINIT \<longrightarrow> cleanable (b_cleanup b) (private_data b)))"

lemma std_invD:
  "std_inv w \<Longrightarrow> heap w a = Some b \<Longrightarrow> b_stop b = None"
  "std_inv w \<Longrightarrow> heap w a = Some b \<Longrightarrow> block_state b \<noteq> BLOCK_STATE_PREINIT
   \<Longrightarrow> cleanable (b_cleanup b) (private_data b)"
  by (auto simp: std_inv_def)

lemma std_inv_upd:
  assumes "std_inv w" "\<And>b. heap w a = Some b \<Longrightarrow> b_stop (f b) = b_stop b
    \<and> (block_state (f b) \<noteq> BLOCK_STATE_PREINIT \<longrightarrow> cleanable (b_cleanup (f b)) (private_data (f b)))"
  shows "std_inv (upd_block w a f)"
  using assms unfolding std_inv_def by (auto simp: heap_upd_block split: if_splits)

lemma std_cleanup_hook:
  assumes "cleanable (Some f) (private_data b)" "heap w a = Some b"
  shows "h_cleanup (std_hooks E (Suc n)) f a w = Some (set_priv w a (Some PFreed))"
  using assms
  by (auto simp: cleanable_def fids priv_of_def fifo_cleanup_def rnd_cleanup_def trig_cleanup_def
      cyclic_cleanup_def raw_cleanup_def
      split: option.splits priv.splits)

lemma std_stop_result:
  assumes "std_inv w" "heap w a = Some b" "block_state b = BLOCK_STATE_ACTIVE"
  shows "ubx_block_stop H (Some a) w = Some (0, upd_block w a (\<lambda>b. b\<lparr>block_state := BLOCK_STATE_INACTIVE\<rparr>))"
  using assms std_invD(1) [OF assms(1,2)] by (simp add: ubx_block_stop_def)

lemma std_cleanup_result:
  assumes "std_inv w" "heap w a = Some b" "block_state b = BLOCK_STATE_INACTIVE"
  shows "ubx_block_cleanup (std_hooks E (Suc n)) (Some a) w =
    Some (0, upd_block (if b_cleanup b = None then w else set_priv w a (Some PFreed)) a
               (\<lambda>b. b\<lparr>block_state := BLOCK_STATE_PREINIT\<rparr>))"
proof (cases "b_cleanup b")
  case None
  with assms show ?thesis by (simp add: ubx_block_cleanup_def)
next
  case (Some f)
  have "cleanable (Some f) (private_data b)" using std_invD(2) [OF assms(1,2)] assms(3) Some
    by (simp add: state_defs)
  from std_cleanup_hook [OF this assms(2)] Some assms(2,3) show ?thesis
    by (simp add: ubx_block_cleanup_def set_priv_def heap_upd_block)
qed

text \<open>An operation that is refused changes nothing.\<close>

lemma refused_same:
  assumes "life_result op a w blk r w'" "block_state blk \<noteq> life_from op"
  shows "w' = w"
  using assms by cases simp_all

lemma std_stop_inv:
  assumes "std_inv w" "ubx_block_stop (std_hooks E n) (Some a) w = Some (r, w')"
  shows "std_inv w'"
proof -
  obtain b where b: "heap w a = Some b" using assms(2) by (auto simp: ubx_block_stop_def)
  show ?thesis
  proof (cases "block_state b = BLOCK_STATE_ACTIVE")
    case True
    then have "w' = upd_block w a (\<lambda>b. b\<lparr>block_state := BLOCK_STATE_INACTIVE\<rparr>)"
      using assms std_stop_result [OF assms(1) b True, of "std_hooks E n"] by simp
    moreover have "cleanable (b_cleanup b) (private_data b)"
      using std_invD(2) [OF assms(1) b] True by (simp add: state_defs)
    ultimately show ?thesis using b by (auto intro!: std_inv_upd [OF assms(1)])
  next
    case False
    with refused_same [OF std.stop_cases [OF assms(2) b]] assms(1) show ?thesis by simp
  qed
qed

lemma std_cleanup_inv:
  assumes "std_inv w" "ubx_block_cleanup (std_hooks E (Suc n)) (Some a) w = Some (r, w')"
  shows "std_inv w'"
proof -
  obtain b where b: "heap w a = Some b" using assms(2) by (auto simp: ubx_block_cleanup_def)
  show ?thesis
  proof (cases "block_state b = BLOCK_STATE_INACTIVE")
    case True
    with assms(2) std_cleanup_result [OF assms(1) b True, of E n] show ?thesis
      using assms(1) b
      by (auto simp: std_inv_def set_priv_def heap_upd_block split: if_splits)
  next
    case False
    with refused_same [OF std.cleanup_cases [OF assms(2) b]] assms(1) show ?thesis by simp
  qed
qed

lemma std_rm_inv: "std_inv w \<Longrightarrow> ubx_block_rm w n = Some (r, w') \<Longrightarrow> std_inv w'"
  by (auto simp: ubx_block_rm_def ubx_block_unregister_def ubx_block_free_def Let_def std_inv_def
      split: option.splits if_splits)

interpretation std_node: total_hooks "std_hooks E (Suc n)" std_inv for E n
proof unfold_locales
  fix w :: "priv world" and a b
  show "std_inv w \<Longrightarrow> heap w a = Some b \<Longrightarrow> block_state b = BLOCK_STATE_ACTIVE
      \<Longrightarrow> ubx_block_stop (std_hooks E (Suc n)) (Some a) w \<noteq> None"
    by (simp add: std_stop_result del: std_hooks.simps)
  show "std_inv w \<Longrightarrow> heap w a = Some b \<Longrightarrow> block_state b = BLOCK_STATE_INACTIVE
      \<Longrightarrow> ubx_block_cleanup (std_hooks E (Suc n)) (Some a) w \<noteq> None"
    by (simp add: std_cleanup_result del: std_hooks.simps)
qed (fact std_stop_inv std_cleanup_inv std_rm_inv)+

text \<open>The table is unfolded one hook at a time.\<close>

lemma std_sel [simp]:
  "h_write (std_hooks E (Suc n)) FIFO = fifo_write" "h_read (std_hooks E (Suc n)) FIFO = fifo_read"
  "h_init (std_hooks E (Suc n)) FIFO = fifo_init (e_ptr E)" "h_cleanup (std_hooks E (Suc n)) FIFO = fifo_cleanup"
  "h_init (std_hooks E (Suc n)) RANDOM = rnd_init" "h_cleanup (std_hooks E (Suc n)) RANDOM = rnd_cleanup"
  "h_start (std_hooks E (Suc n)) RANDOM = rnd_start (std_hooks E n)"
  "h_step (std_hooks E (Suc n)) RANDOM = rnd_step (e_prng E) (std_hooks E n)"
  "h_init (std_hooks E (Suc n)) TRIG = trig_init" "h_cleanup (std_hooks E (Suc n)) TRIG = trig_cleanup"
  "h_start (std_hooks E (Suc n)) TRIG = trig_start"
  "h_init (std_hooks E (Suc n)) CYCLIC = cyclic_init" "h_cleanup (std_hooks E (Suc n)) CYCLIC = cyclic_cleanup"
  "h_read (std_hooks E (Suc n)) CYCLIC = cyclic_read"
  "h_write (std_hooks E (Suc n)) CYCLIC = cyclic_write (std_hooks E n)"
  "h_init (std_hooks E (Suc n)) RAW = raw_init" "h_cleanup (std_hooks E (Suc n)) RAW = raw_cleanup"
  "h_read (std_hooks E (Suc n)) RAW = raw_read"
  "h_write (std_hooks E (Suc n)) RAW = raw_write (std_hooks E n)"
  "h_step (std_hooks E (Suc n)) TRIG = trig_step (e_dec E) (e_enc E) (std_hooks E n)"
  by (simp_all add: fids fun_eq_iff)

declare std_hooks.simps [simp del]

end
