(* ===== verification/NodeRun.thy ===== *)
theory NodeRun
  imports StdHooks
begin

text \<open>
  Runs of a node: the calls of \<open>src/src/ubx_proto.h\<close> that work on a node or on its blocks are steps, in
  any order and with any arguments, whatever they return. Well-formedness of the node, the
  uniqueness of its modules' names and the validity of all block states are invariants of
  every run whose hooks keep the contract and whose modules work on the node through its interface.
\<close>

subsection \<open>Steps\<close>

text \<open>What the code of a module calls when it is loaded or unloaded.\<close>

inductive module_step :: "'p world \<Rightarrow> 'p world \<Rightarrow> bool" where
  ms_type_register: "ubx_type_register w t = Some (r, w') \<Longrightarrow> module_step w w'"
| ms_type_unregister: "ubx_type_unregister w n = (t, w') \<Longrightarrow> module_step w w'"
| ms_block_register: "ubx_block_register w b = Some (r, w') \<Longrightarrow> module_step w w'"
| ms_block_unregister: "ubx_block_unregister w n = (b, w') \<Longrightarrow> module_step w w'"

locale module_code =
  fixes M :: "'p modules_env"
  assumes init_calls: "run_init M f w = Some (r, w') \<Longrightarrow> module_step\<^sup>*\<^sup>* w w'"
    and cleanup_calls: "run_cleanup M f w = Some w' \<Longrightarrow> module_step\<^sup>*\<^sup>* w w'"

text \<open>Freeing a block is the caller's business once it is out of the table, and only then.\<close>

inductive node_step :: "'p hooks \<Rightarrow> 'p modules_env \<Rightarrow> 'p world \<Rightarrow> 'p world \<Rightarrow> bool" for H M where
  ns_node_init: "ubx_node_init w nm = (r, w') \<Longrightarrow> node_step H M w w'"
| ns_node_cleanup: "ubx_node_cleanup n H M w = Some w' \<Longrightarrow> node_step H M w w'"
| ns_module_load: "ubx_module_load M lib w = Some (r, w') \<Longrightarrow> node_step H M w w'"
| ns_module_unload: "ubx_module_unload M lib w = Some w' \<Longrightarrow> node_step H M w w'"
| ns_module: "module_step w w' \<Longrightarrow> node_step H M w w'"
| ns_resolve: "heap w b = Some blk \<Longrightarrow> ubx_resolve_types w blk = (r, blk') \<Longrightarrow> w' = w\<lparr>heap := (heap w)(b \<mapsto> blk')\<rparr>
    \<Longrightarrow> node_step H M w w'"
| ns_create: "ubx_block_create w ty n = Some (b, w') \<Longrightarrow> node_step H M w w'"
| ns_rm: "ubx_block_rm w n = Some (r, w') \<Longrightarrow> node_step H M w w'"
| ns_free: "ubx_block_free w (Some b) = Some w' \<Longrightarrow> b \<notin> snd ` set (blocks w) \<Longrightarrow> node_step H M w w'"
| ns_life: "life_exec H a op w = Some (r, w') \<Longrightarrow> node_step H M w w'"
| ns_config_add: "ubx_config_add w b n meta ty len = Some (r, w') \<Longrightarrow> node_step H M w w'"
| ns_config_rm: "ubx_config_rm w b n = Some (r, w') \<Longrightarrow> node_step H M w w'"
| ns_port_add: "ubx_port_add w b pn doc it il ot ol st = Some (r, w') \<Longrightarrow> node_step H M w w'"
| ns_port_rm: "ubx_port_rm w b n = Some (r, w') \<Longrightarrow> node_step H M w w'"
| ns_connect: "ubx_ports_connect_uni w p q ib = Some (r, w') \<Longrightarrow> node_step H M w w'"
| ns_connect_out: "ubx_port_connect_out w pr a = Some (r, w') \<Longrightarrow> node_step H M w w'"
| ns_connect_in: "ubx_port_connect_in w pr a = Some (r, w') \<Longrightarrow> node_step H M w w'"
| ns_disconnect: "ubx_ports_disconnect_uni w p q ib = Some (r, w') \<Longrightarrow> node_step H M w w'"
| ns_disconnect_out: "ubx_port_disconnect_out w pr a = Some (r, w') \<Longrightarrow> node_step H M w w'"
| ns_disconnect_in: "ubx_port_disconnect_in w pr a = Some (r, w') \<Longrightarrow> node_step H M w w'"
| ns_read: "port_read H p d w = Some (rr, d', w') \<Longrightarrow> node_step H M w w'"
| ns_write: "port_write H p d w = Some (d', w') \<Longrightarrow> node_step H M w w'"
| ns_data_alloc: "ubx_data_alloc w ni tn len = Some (da, w') \<Longrightarrow> node_step H M w w'"
| ns_data_alloc_typ: "ubx_data_alloc_typ w ty len = Some (da, w') \<Longrightarrow> node_step H M w w'"
| ns_data_resize: "ubx_data_resize w v newlen = Some (r, v', w') \<Longrightarrow> node_step H M w w'"
| ns_data_free: "ubx_data_free w x = Some w' \<Longrightarrow> node_step H M w w'"

definition node_inv :: "'p world \<Rightarrow> bool" where
  "node_inv w \<longleftrightarrow> wf_node w \<and> (\<forall>a b. heap w a = Some b \<longrightarrow> block_state b \<in> S0)"

subsection \<open>Calls that change what a hook may change\<close>

lemma mem_only_frame: "mem_only w w' \<Longrightarrow> hook_frame w w'"
  by (auto simp: mem_only_def hook_frame_def intro: option.rel_refl_strong)

lemma hook_frame_data:
  "hook_frame w w' \<Longrightarrow> hook_frame w (upd_block w' a (\<lambda>b. b\<lparr>configs := cs\<rparr>))"
  "hook_frame w w' \<Longrightarrow> hook_frame w (upd_block w' a (\<lambda>b. b\<lparr>ports := ps\<rparr>))"
  by (rule hook_frame_trans, assumption, rule hook_frame_upd, simp add: same_control_def)+

lemma clone_config_mem: "post (ubx_clone_config_data w n doc t len) (\<lambda>(r, s, w'). mem_only w w')"
proof -
  define c where "c = \<lparr>c_name = n, c_doc = doc, c_type_name = [], c_attrs = 0,
    c_value = \<lparr>d_type = t, d_len = len, d_data = BNull\<rparr>\<rparr>"
  show ?thesis using clone_config_data_spec [of w c]
    by (auto simp: c_def post_def)
qed

lemma clone_port_mem: "post (ubx_clone_port_data w n doc i il t ol st) (\<lambda>(r, s, w'). mem_only w w')"
proof (cases n)
  case None
  then show ?thesis by (simp add: ubx_clone_port_data_def wlp)
next
  case (Some nm)
  define p where "p = \<lparr>p_name = nm, p_doc = doc, p_attrs = 0, p_state = st, in_type_name = None,
    out_type_name = None, in_type = i, out_type = t, in_data_len = il, out_data_len = ol,
    in_interaction = None, out_interaction = None, stat_writes = 0, stat_reades = 0, p_block = None\<rparr>"
  show ?thesis using clone_port_data_spec [of w p]
    by (auto simp: p_def post_def Some)
qed

lemma alloc_frame: "hook_frame w (alloc_step w)"
  by (rule hook_frame_mem [OF hook_frame_refl])

lemma config_add_frame: "post (ubx_config_add w b n meta ty len) (\<lambda>(r, w'). hook_frame w w')"
  unfolding ubx_config_add_def
  by (auto simp: wlp Let_def alloc_frame post_def [of "heap w a" for w a] post_def [of n]
      intro!: post_mono [OF clone_config_mem] hook_frame_data
      intro: hook_frame_trans [OF alloc_frame mem_only_frame])

lemma config_rm_frame: "post (ubx_config_rm w b n) (\<lambda>(r, w'). hook_frame w w')"
  unfolding ubx_config_rm_def
  by (auto simp: wlp Let_def post_def [of "heap w a" for w a] intro!: hook_frame_data)

lemma port_add_frame: "post (ubx_port_add w b n doc it il ot ol st) (\<lambda>(r, w'). hook_frame w w')"
  unfolding ubx_port_add_def
  by (auto simp: wlp Let_def alloc_frame post_def [of "heap w a" for w a]
      intro!: post_mono [OF clone_port_mem] hook_frame_data
      intro: hook_frame_trans [OF alloc_frame mem_only_frame])

lemma port_rm_frame: "post (ubx_port_rm w b n) (\<lambda>(r, w'). hook_frame w w')"
  unfolding ubx_port_rm_def
  by (auto simp: wlp Let_def post_def [of "heap w a" for w a] intro!: hook_frame_data)

lemma connect_half_frame:
  "hook_frame w0 w \<Longrightarrow> post (ubx_port_connect_out w p ib) (\<lambda>(r, w'). hook_frame w0 w')"
  "hook_frame w0 w \<Longrightarrow> post (ubx_port_connect_in w p ib) (\<lambda>(r, w'). hook_frame w0 w')"
  "hook_frame w0 w \<Longrightarrow> post (ubx_port_disconnect_out w p ib) (\<lambda>(r, w'). hook_frame w0 w')"
  "hook_frame w0 w \<Longrightarrow> post (ubx_port_disconnect_in w p ib) (\<lambda>(r, w'). hook_frame w0 w')"
  unfolding ubx_port_connect_out_def ubx_port_connect_in_def ubx_port_disconnect_out_def
    ubx_port_disconnect_in_def array_block_add_def
  by (auto simp: wlp Let_def post_atoms intro!: post_any hook_frame_count(3) hook_frame_mem)

lemma connect_frame: "post (ubx_ports_connect_uni w p q ib) (\<lambda>(r, w'). hook_frame w w')"
  unfolding ubx_ports_connect_uni_def
  by (auto simp: wlp post_atoms split: option.split intro!: post_mono [OF connect_half_frame(1)] connect_half_frame(2))

lemma disconnect_frame: "post (ubx_ports_disconnect_uni w p q ib) (\<lambda>(r, w'). hook_frame w w')"
  unfolding ubx_ports_disconnect_uni_def
  by (auto simp: wlp post_atoms split: option.split intro!: post_mono [OF connect_half_frame(3)] connect_half_frame(4))

lemma data_alloc_typ_frame: "post (ubx_data_alloc_typ w ty len) (\<lambda>(r, w'). hook_frame w w')"
  unfolding ubx_data_alloc_typ_def
  by (auto simp: wlp Let_def post_atoms hook_frame_def intro: option.rel_refl_strong intro!: post_any)

lemma data_alloc_frame: "post (ubx_data_alloc w ni tn len) (\<lambda>(r, w'). hook_frame w w')"
  unfolding ubx_data_alloc_def by (auto simp: wlp data_alloc_typ_frame)

lemma data_resize_frame: "ubx_data_resize w v newlen = Some (r, v', w') \<Longrightarrow> hook_frame w w'"
  by (auto simp: ubx_data_resize_def Let_def alloc_frame split: if_splits)

lemma data_free_frame: "ubx_data_free w x = Some w' \<Longrightarrow> hook_frame w w'"
  by (auto simp: ubx_data_free_def hook_frame_def intro: option.rel_refl_strong)

subsection \<open>The invariant\<close>

lemma inv_frame:
  assumes "node_inv w" "hook_frame w w'"
  shows "node_inv w'"
proof -
  have "block_state b \<in> S0" if "heap w' a = Some b" for a b
  proof -
    from hook_frame_back [OF assms(2) that] obtain b0 where "heap w a = Some b0" "same_control b0 b" .
    with assms(1) show ?thesis by (auto simp: node_inv_def same_control_def)
  qed
  with assms hook_frame_wf show ?thesis by (auto simp: node_inv_def)
qed

lemma inv_life:
  assumes "node_inv w" "heap w a = Some blk" "life_result op a w blk r w'"
  shows "node_inv w'"
  using assms(3)
proof cases
  case (life_moved w1 b1 n)
  have inv1: "node_inv w1" by (rule inv_frame [OF assms(1) life_moved(1)])
  have "life_to op \<in> S0" by (cases op) simp_all
  moreover have "wf_node w'"
    unfolding life_moved(6) upd_block_def life_moved(2) using inv1 life_moved(2)
    by (auto simp: node_inv_def intro!: wf_node_update)
  ultimately show ?thesis using inv1 life_moved(2)
    by (auto simp: node_inv_def life_moved(6) heap_upd_block split: if_splits)
next
  case life_failed
  then show ?thesis using inv_frame [OF assms(1)] by blast
qed (simp add: assms(1))

lemma inv_states:
  assumes "node_inv w" "wf_node w'" "\<And>a b. heap w' a = Some b \<Longrightarrow> \<exists>c b0. heap w c = Some b0 \<and> block_state b = block_state b0 \<or> block_state b = BLOCK_STATE_PREINIT"
  shows "node_inv w'"
  using assms unfolding node_inv_def by (metis insertI1)

lemma inv_register:
  assumes "node_inv w" "ubx_block_register w b = Some (r, w')"
  shows "node_inv w'"
proof (rule inv_states [OF assms(1)])
  show "wf_node w'" using wf_node_register [OF _ assms(2)] assms(1) by (simp add: node_inv_def)
  fix a bk
  assume h: "heap w' a = Some bk"
  show "\<exists>c b0. heap w c = Some b0 \<and> block_state bk = block_state b0 \<or> block_state bk = BLOCK_STATE_PREINIT"
    using assms(2)
  proof (cases rule: register_cases)
    case refused
    with h show ?thesis by blast
  next
    case (unresolved blk blk')
    with h resolve_types_sel(5) [OF unresolved(3)] show ?thesis by (auto split: if_splits)
  next
    case (registered blk blk')
    with h resolve_types_sel(5) [OF registered(5)] show ?thesis by (auto split: if_splits)
  qed
qed

lemma inv_create:
  assumes "node_inv w" "ubx_block_create w ty n = Some (r, w')"
  shows "node_inv w'"
proof (rule inv_states [OF assms(1)])
  have wf: "wf_node w" using assms(1) by (simp add: node_inv_def)
  show "wf_node w'" by (rule create_wf [OF wf assms(2)])
  fix a bk
  assume h: "heap w' a = Some bk"
  show "\<exists>c b0. heap w c = Some b0 \<and> block_state bk = block_state b0 \<or> block_state bk = BLOCK_STATE_PREINIT"
    using wf assms(2)
  proof (cases rule: create_cases)
    case nomem
    with h show ?thesis by (auto simp: cloned_sel)
  next
    case (created nm pa pb blk blk' w1)
    then have "block_state blk' = BLOCK_STATE_PREINIT" "heap w' = (heap w)(next_addr w \<mapsto> blk')"
      by (auto simp: registered_as_def instance_of_def)
    with h show ?thesis by (auto split: if_splits)
  qed (use h in auto)
qed

lemma inv_rm:
  assumes "node_inv w" "ubx_block_rm w n = Some (r, w')"
  shows "node_inv w'"
proof (rule inv_states [OF assms(1)])
  have wf: "wf_node w" using assms(1) by (simp add: node_inv_def)
  show "wf_node w'" by (rule rm_wf [OF wf assms(2)])
  fix a bk
  assume h: "heap w' a = Some bk"
  show "\<exists>c b0. heap w c = Some b0 \<and> block_state bk = block_state b0 \<or> block_state bk = BLOCK_STATE_PREINIT"
    using wf assms(2) by (cases rule: rm_cases) (use h in \<open>auto split: if_splits\<close>)
qed

lemma inv_types:
  assumes "node_inv w" "heap w' = heap w" "blocks w' = blocks w" "next_addr w' = next_addr w"
  shows "node_inv w'"
  using assms wf_node_same [of w w'] by (simp add: node_inv_def)

lemma inv_upd:
  assumes "node_inv w" "heap w a = Some blk" "b_name blk' = b_name blk" "b_ni blk' = b_ni blk" "b_type blk' = b_type blk"
    "block_state blk' = block_state blk"
  shows "node_inv (w\<lparr>heap := (heap w)(a \<mapsto> blk')\<rparr>)"
  using assms wf_node_update [of w a blk blk'] by (auto simp: node_inv_def)

lemma inv_raw_free:
  assumes "node_inv w" "a \<notin> snd ` set (blocks w)"
  shows "node_inv (w\<lparr>heap := (heap w)(a := None)\<rparr>)"
proof (rule inv_states [OF assms(1)])
  have wf: "wf_node w" using assms(1) by (simp add: node_inv_def)
  show "wf_node (w\<lparr>heap := (heap w)(a := None)\<rparr>)"
  proof (rule wf_nodeI)
    fix n x assume "(n, x) \<in> set (blocks (w\<lparr>heap := (heap w)(a := None)\<rparr>))"
    then have "(n, x) \<in> set (blocks w)" by simp
    moreover from this assms(2) have "x \<noteq> a" by force
    ultimately show "entry_ok (w\<lparr>heap := (heap w)(a := None)\<rparr>) n x"
      using wf_nodeD(2) [OF wf] by (simp add: entry_ok_def)
  qed (use wf_nodeD [OF wf] in \<open>auto split: if_splits\<close>)
qed (auto split: if_splits)

lemma inv_unregister: "node_inv w \<Longrightarrow> node_inv (snd (ubx_block_unregister w n))"
  using wf_node_del [of w n] by (auto simp: ubx_block_unregister_def node_inv_def split: option.splits)

text \<open>With the table of modules.\<close>

definition node_ok :: "'p world \<Rightarrow> bool" where
  "node_ok w \<longleftrightarrow> node_inv w \<and> hash_ok (modules w)"

lemma ok_frame: "node_ok w \<Longrightarrow> hook_frame w w' \<Longrightarrow> node_ok w'"
  using inv_frame by (auto simp: node_ok_def hook_frame_def)

lemma register_modules: "ubx_block_register w b = Some (r, w') \<Longrightarrow> modules w' = modules w"
  by (erule register_cases) simp_all

lemma ok_module_step:
  assumes "module_step w w'" "node_ok w"
  shows "node_ok w' \<and> modules w' = modules w"
  using assms(1)
proof cases
  case (ms_type_register t r)
  then have same: "heap w' = heap w" "blocks w' = blocks w" "next_addr w' = next_addr w" "modules w' = modules w"
    by (auto simp: ubx_type_register_def Let_def split: option.splits if_splits)
  with inv_types [OF _ same(1-3)] assms(2) show ?thesis by (simp add: node_ok_def)
next
  case (ms_type_unregister n t)
  then have same: "heap w' = heap w" "blocks w' = blocks w" "next_addr w' = next_addr w" "modules w' = modules w"
    by (auto simp: ubx_type_unregister_def split: option.splits)
  with inv_types [OF _ same(1-3)] assms(2) show ?thesis by (simp add: node_ok_def)
next
  case (ms_block_register b r)
  then have "modules w' = modules w" by (rule register_modules)
  with assms(2) inv_register [OF _ ms_block_register] show ?thesis by (simp add: node_ok_def)
next
  case (ms_block_unregister n b)
  then have "w' = snd (ubx_block_unregister w n)" by simp
  moreover have "modules (snd (ubx_block_unregister w n)) = modules w"
    by (simp add: ubx_block_unregister_def split: option.split)
  ultimately show ?thesis using assms(2) inv_unregister [of w n] by (simp add: node_ok_def)
qed

lemma ok_module_steps:
  "module_step\<^sup>*\<^sup>* w w' \<Longrightarrow> node_ok w \<Longrightarrow> node_ok w' \<and> modules w' = modules w"
  by (induction rule: rtranclp_induct) (use ok_module_step in \<open>fastforce+\<close>)

lemma create_modules:
  assumes "ubx_block_create w ty n = Some (r, w')"
  shows "modules w' = modules w"
proof (cases "n = None \<or> hash_find (blocks w) ty = None \<or> (\<exists>nm. n = Some nm \<and> hash_find (blocks w) nm \<noteq> None)")
  case True
  with assms show ?thesis by (auto simp: ubx_block_create_def split: option.splits)
next
  case False
  then obtain nm pa where n: "n = Some nm" "hash_find (blocks w) ty = Some pa" "hash_find (blocks w) nm = None" by auto
  with assms obtain nb w1 where cl: "ubx_block_clone w pa nm = Some (nb, w1)"
    and rest: "(case nb of None \<Rightarrow> Some (None, w1) | Some b \<Rightarrow> do {
        (ret, w2) \<leftarrow> ubx_block_register w1 b;
        if ret \<noteq> 0 then do { w3 \<leftarrow> ubx_block_free w2 (Some b); Some (Some b, w3) }
        else Some (Some b, w2) }) = Some (r, w')"
    by (auto simp: ubx_block_create_def)
  from postD [OF block_clone_spec cl] have w1: "modules w1 = modules w"
    by (auto simp: clone_result_def cloned_sel)
  show ?thesis
  proof (cases nb)
    case None
    with rest w1 show ?thesis by simp
  next
    case (Some b)
    with rest obtain ret w2 where reg: "ubx_block_register w1 b = Some (ret, w2)" by auto
    with rest Some have "modules w' = modules w2" by (auto simp: ubx_block_free_def split: if_splits)
    with register_modules [OF reg] w1 show ?thesis by simp
  qed
qed

lemma ok_create: "node_ok w \<Longrightarrow> ubx_block_create w ty n = Some (r, w') \<Longrightarrow> node_ok w'"
  using inv_create create_modules by (fastforce simp: node_ok_def)

lemma ok_rm:
  assumes "node_ok w" "ubx_block_rm w n = Some (r, w')"
  shows "node_ok w'"
proof -
  have "wf_node w" using assms(1) by (simp add: node_ok_def node_inv_def)
  then have "modules w' = modules w" using assms(2) by (cases rule: rm_cases) simp_all
  with assms inv_rm [of w n r w'] show ?thesis by (simp add: node_ok_def)
qed

lemma ok_node_init:
  assumes "node_ok w" "ubx_node_init w nm = (r, w')"
  shows "node_ok w'"
proof -
  have inv: "node_inv w" "hash_ok (modules w)" using assms(1) by (simp_all add: node_ok_def)
  from assms(2) consider "heap w' = heap w" "blocks w' = blocks w" "next_addr w' = next_addr w" "modules w' = modules w"
    | "heap w' = heap w" "blocks w' = []" "next_addr w' = next_addr w" "modules w' = []"
    by (auto simp: ubx_node_init_def split: option.splits if_splits)
  then show ?thesis
  proof cases
    case 1
    with inv_types [OF inv(1)] inv(2) show ?thesis by (simp add: node_ok_def)
  next
    case 2
    then have "wf_node w'" by (intro wf_nodeI) (use inv wf_nodeD(3) in \<open>auto simp: hash_ok_def node_inv_def\<close>)
    with 2 inv(1) show ?thesis by (simp add: node_ok_def node_inv_def hash_ok_def)
  qed
qed

text \<open>What a loop over a table keeps, if it ends.\<close>

lemma hash_iter_keeps:
  "hash_iter n keys body cur w = Some w' \<Longrightarrow> I w \<Longrightarrow> (\<And>k w w'. I w \<Longrightarrow> body k w = Some w' \<Longrightarrow> I w') \<Longrightarrow> I w'"
proof (induction n keys body cur w rule: hash_iter.induct)
  case (3 n keys body k w)
  from "3.prems"(1) obtain nxt w1 where "succ_key k (keys w) = Some nxt" "body k w = Some w1"
      "hash_iter n keys body nxt w1 = Some w'" by auto
  with "3.IH" "3.prems" show ?case by metis
qed simp_all

context module_code begin

lemma load_cases:
  assumes "ubx_module_load M lib w = Some (r, w')"
  obtains (early) "w' = w \<or> w' = alloc_step w \<or> w' = alloc_step (alloc_step w)"
  | (ran) f md r2 w2 where "hash_find (modules w) lib = None" "run_init M f (alloc_step (alloc_step w)) = Some (r2, w2)"
      "w' = w2 \<or> w' = w2\<lparr>modules := hash_add (modules w2) lib md\<rparr>"
proof (cases "hash_find (modules w) lib \<noteq> None \<or> \<not> alloc_ok w \<or> \<not> alloc_ok (alloc_step w)
    \<or> \<not> dl_open M lib \<or> dl_init M lib = None \<or> dl_cleanup M lib = None")
  case True
  with assms have "w' = w \<or> w' = alloc_step w \<or> w' = alloc_step (alloc_step w)"
    unfolding ubx_module_load_def Let_def by (elim disjE) (simp_all split: option.splits if_splits)
  then show ?thesis by (rule early)
next
  case False
  then obtain f c where f: "dl_init M lib = Some f" "dl_cleanup M lib = Some c" by auto
  with False assms obtain r2 w2 where i: "run_init M f (alloc_step (alloc_step w)) = Some (r2, w2)"
      and "w' = w2 \<or> w' = w2\<lparr>modules := hash_add (modules w2) lib \<lparr>m_id = lib, m_init = f, m_cleanup = c, m_spdx = dl_spdx M lib\<rparr>\<rparr>"
    by (auto simp: ubx_module_load_def Let_def split: if_splits)
  with False show ?thesis by (intro ran) auto
qed

lemma ok_load:
  assumes "node_ok w" "ubx_module_load M lib w = Some (r, w')"
  shows "node_ok w'"
proof -
  have alloc: "node_ok (alloc_step w)" "node_ok (alloc_step (alloc_step w))"
    using ok_frame [OF assms(1)] hook_frame_mem alloc_frame by blast+
  from assms(2) show ?thesis
  proof (cases rule: load_cases)
    case early
    with assms(1) alloc show ?thesis by blast
  next
    case (ran f md r2 w2)
    then have w2: "node_ok w2" "modules w2 = modules w"
      using ok_module_steps [OF init_calls [OF ran(2)] alloc(2)] by simp_all
    have "node_inv (w2\<lparr>modules := hash_add (modules w2) lib md\<rparr>)"
      by (rule inv_types [of w2]) (use w2 in \<open>simp_all add: node_ok_def\<close>)
    with w2 ran(1,3) show ?thesis by (auto simp: node_ok_def ht.ok_add)
  qed
qed

lemma ok_unload:
  assumes "node_ok w" "ubx_module_unload M lib w = Some w'"
  shows "node_ok w'"
proof -
  have del: "node_ok (w\<lparr>modules := hash_del (modules w) lib\<rparr>)"
    using assms(1) inv_types [of w "w\<lparr>modules := hash_del (modules w) lib\<rparr>"] by (simp add: node_ok_def ht.ok_del)
  with assms show ?thesis
    using ok_module_steps [OF cleanup_calls] by (auto simp: ubx_module_unload_def split: option.splits)
qed

end

context block_hooks begin

lemma ok_life:
  assumes "node_ok w" "life_exec H a op w = Some (r, w')"
  shows "node_ok w'"
proof -
  from assms(2) obtain blk where blk: "heap w a = Some blk"
    by (cases op) (auto simp: ubx_block_init_def ubx_block_start_def ubx_block_stop_def ubx_block_cleanup_def
        ubx_cblock_step_def)
  note res = exec_cases [OF assms(2) blk]
  from res have "modules w' = modules w" by cases (simp_all add: hook_frame_def)
  with inv_life [OF _ blk res] assms(1) show ?thesis by (simp add: node_ok_def)
qed

lemma ok_node_cleanup:
  assumes M: "module_code M" and ok: "node_ok w" and c: "ubx_node_cleanup n H M w = Some w'"
  shows "node_ok w'"
proof -
  obtain w1 w2 w3 w4 where
    1: "hash_iter n block_keys (stop_body H) (first_key (block_keys w)) w = Some w1"
    and 2: "hash_iter n block_keys (cleanup_body H) (first_key (block_keys w1)) w1 = Some w2"
    and 3: "hash_iter n block_keys rm_body (first_key (block_keys w2)) w2 = Some w3"
    and 4: "hash_iter n module_keys (ubx_module_unload M) (first_key (module_keys w3)) w3 = Some w4"
    and w': "w' = w4\<lparr>node_name := None\<rparr>"
    using c by (auto simp: ubx_node_cleanup_def)
  have stop: "node_ok v'" if "node_ok v" "stop_body H k v = Some v'" for k v v'
    using that ok_life [where op = LStop] by (auto simp: stop_body_def split: if_splits)
  have clean: "node_ok v'" if "node_ok v" "cleanup_body H k v = Some v'" for k v v'
    using that ok_life [where op = LCleanup] by (auto simp: cleanup_body_def split: if_splits)
  have rm: "node_ok v'" if "node_ok v" "rm_body k v = Some v'" for k and v v' :: "'p world"
    using that ok_rm by (auto simp: rm_body_def split: if_splits)
  have "node_ok w1" by (rule hash_iter_keeps [where I = node_ok, OF 1 ok stop])
  from hash_iter_keeps [where I = node_ok, OF 2 this clean] have "node_ok w2" .
  from hash_iter_keeps [where I = node_ok, OF 3 this rm] have "node_ok w3" .
  from hash_iter_keeps [where I = node_ok, OF 4 this module_code.ok_unload [OF M]] have "node_ok w4" .
  then show ?thesis using inv_types [of w4 w'] by (simp add: node_ok_def w')
qed

lemma step_ok:
  assumes M: "module_code M" and step: "node_step H M w w'" and ok: "node_ok w"
  shows "node_ok w'"
  using step
proof cases
  case (ns_resolve b blk r blk')
  from resolve_types_sel [OF ns_resolve(2)] inv_upd [OF _ ns_resolve(1), of blk'] ok show ?thesis
    unfolding ns_resolve(3) by (simp add: node_ok_def)
next
  case (ns_free b)
  with ok inv_raw_free [of w b] show ?thesis by (auto simp: ubx_block_free_def node_ok_def)
next
  case ns_config_add
  from ok_frame [OF ok] postD [OF config_add_frame this] show ?thesis by simp
next
  case ns_config_rm
  from ok_frame [OF ok] postD [OF config_rm_frame this] show ?thesis by simp
next
  case ns_port_add
  from ok_frame [OF ok] postD [OF port_add_frame this] show ?thesis by simp
next
  case ns_port_rm
  from ok_frame [OF ok] postD [OF port_rm_frame this] show ?thesis by simp
next
  case ns_connect
  from ok_frame [OF ok] postD [OF connect_frame this] show ?thesis by simp
next
  case ns_connect_out
  from ok_frame [OF ok] postD [OF connect_half_frame(1) [OF hook_frame_refl] this] show ?thesis by simp
next
  case ns_connect_in
  from ok_frame [OF ok] postD [OF connect_half_frame(2) [OF hook_frame_refl] this] show ?thesis by simp
next
  case ns_disconnect
  from ok_frame [OF ok] postD [OF disconnect_frame this] show ?thesis by simp
next
  case ns_disconnect_out
  from ok_frame [OF ok] postD [OF connect_half_frame(3) [OF hook_frame_refl] this] show ?thesis by simp
next
  case ns_disconnect_in
  from ok_frame [OF ok] postD [OF connect_half_frame(4) [OF hook_frame_refl] this] show ?thesis by simp
next
  case ns_read
  from ok_frame [OF ok] postD [OF port_read_frame this] show ?thesis by simp
next
  case ns_write
  from ok_frame [OF ok] postD [OF port_write_frame this] show ?thesis by simp
next
  case ns_data_alloc
  from ok_frame [OF ok] postD [OF data_alloc_frame this] show ?thesis by simp
next
  case ns_data_alloc_typ
  from ok_frame [OF ok] postD [OF data_alloc_typ_frame this] show ?thesis by simp
next
  case ns_data_resize
  from ok_frame [OF ok data_resize_frame [OF this]] show ?thesis .
next
  case ns_data_free
  from ok_frame [OF ok data_free_frame [OF this]] show ?thesis .
next
  case ns_module
  from ok_module_step [OF this ok] show ?thesis ..
next
  case ns_node_init
  from ok_node_init [OF ok this] show ?thesis .
next
  case ns_node_cleanup
  from ok_node_cleanup [OF M ok this] show ?thesis .
next
  case ns_module_load
  from module_code.ok_load [OF M ok this] show ?thesis .
next
  case ns_module_unload
  from module_code.ok_unload [OF M ok this] show ?thesis .
next
  case ns_create
  from ok_create [OF ok this] show ?thesis .
next
  case ns_rm
  from ok_rm [OF ok this] show ?thesis .
next
  case ns_life
  from ok_life [OF ok this] show ?thesis .
qed

lemma run_ok:
  assumes "module_code M" "(node_step H M)\<^sup>*\<^sup>* w w'" "node_ok w"
  shows "node_ok w'"
  using assms(2,3) by (induction rule: rtranclp_induct) (auto intro: step_ok [OF assms(1)])

end

subsection \<open>The standard modules\<close>

lemma std_register: "ubx_block_register w b = Some (r, w') \<Longrightarrow> module_step\<^sup>*\<^sup>* w w'"
  by (rule r_into_rtranclp) (rule ms_block_register)

lemma std_unregister:
  "module_step\<^sup>*\<^sup>* w w1 \<Longrightarrow> module_step\<^sup>*\<^sup>* w (snd (ubx_block_unregister w1 n))"
  "module_step\<^sup>*\<^sup>* w w1 \<Longrightarrow> module_step\<^sup>*\<^sup>* w (snd (ubx_type_unregister w1 n))"
  by (erule rtranclp.rtrancl_into_rtrancl, rule ms_block_unregister ms_type_unregister, rule surjective_pairing)+

lemma std_register_types: "register_types ts w = Some (r, w') \<Longrightarrow> module_step\<^sup>*\<^sup>* w w'"
proof (induction ts arbitrary: w)
  case (Cons t ts)
  then obtain r1 w1 where 1: "ubx_type_register w (Some t) = Some (r1, w1)" by auto
  note step = ms_type_register [OF 1]
  show ?case
  proof (cases "r1 = 0")
    case True
    with Cons 1 have "module_step\<^sup>*\<^sup>* w1 w'" by simp
    with step show ?thesis by (rule converse_rtranclp_into_rtranclp)
  next
    case False
    with Cons.prems 1 step show ?thesis by auto
  qed
qed simp

lemma std_unregister_types: "module_step\<^sup>*\<^sup>* w w1 \<Longrightarrow> module_step\<^sup>*\<^sup>* w (unregister_types ns w1)"
  by (induction ns arbitrary: w1) (simp_all add: std_unregister)

interpretation std_code: module_code "std_modules L" for L
proof
  fix f w r w'
  assume "run_init (std_modules L) f w = Some (r, w')"
  then consider "fifo_mod_init L w = Some (r, w')" | "rnd_module_init L w = Some (r, w')" | "trig_mod_init L w = Some (r, w')"
    | "cyclic_mod_init L w = Some (r, w')" | "raw_mod_init L w = Some (r, w')"
    by (auto simp: std_modules_def split: if_splits)
  then show "module_step\<^sup>*\<^sup>* w w'"
  proof cases
    case 2
    then show ?thesis
      by (auto simp: rnd_module_init_def intro: converse_rtranclp_into_rtranclp ms_type_register std_register)
  next
    case 3
    then show ?thesis
      by (auto simp: trig_mod_init_def split: if_splits intro: std_register_types rtranclp_trans std_register)
  qed (simp_all add: fifo_mod_init_def cyclic_mod_init_def raw_mod_init_def std_register)
next
  fix f w w'
  assume "run_cleanup (std_modules L) f w = Some w'"
  then show "module_step\<^sup>*\<^sup>* w w'"
    by (auto simp: std_modules_def fifo_mod_cleanup_def rnd_module_cleanup_def trig_mod_cleanup_def cyclic_mod_cleanup_def
        raw_mod_cleanup_def Let_def std_unregister std_unregister_types split: if_splits)
qed

subsection \<open>A small network\<close>

text \<open>
  The state at which the theorems about the standard blocks are exercised: an active FIFO,
  and an inactive random block with a port that is connected to it in both directions.
\<close>

definition ex_fifo :: fifo_info where
  "ex_fifo = \<lparr>fi_size = 16, fi_buff = BLive (replicate 16 0), fi_rd = 0, fi_wr = 0, fi_type = None,
     fi_policy = 0, fi_overruns = 0\<rparr>"

definition ex_out_port :: ubx_port where
  "ex_out_port = \<lparr>p_name = ''rnd'', p_doc = None, p_attrs = 3, p_state = 0,
     in_type_name = Some ''double'', out_type_name = Some ''double'', in_type = Some 0, out_type = Some 0,
     in_data_len = 1, out_data_len = 1, in_interaction = Some [1], out_interaction = Some [1],
     stat_writes = 0, stat_reades = 0, p_block = Some 2\<rparr>"

definition ex_std_block :: "string \<Rightarrow> u32 \<Rightarrow> fid \<Rightarrow> int \<Rightarrow> ubx_port list \<Rightarrow> priv option \<Rightarrow> priv ubx_block" where
  "ex_std_block nm ty f st ps pr = \<lparr>b_name = nm, meta_data = Some ''{}'', b_type = ty,
     ports = Some ps, configs = Some [], block_state = st, prototype = Some ''proto'',
     b_ni = True, b_init = Some f, b_start = None, b_stop = None, b_cleanup = Some f,
     b_step = Some f, stat_num_steps = 0, b_read = Some f, b_write = Some f,
     stat_num_reads = 0, stat_num_writes = 0, private_data = pr\<rparr>"

definition ex_std :: "priv world" where
  "ex_std = \<lparr>node_name = Some ''node'', blocks = [(''fifo1'', 1), (''rnd1'', 2)],
     types = [(''double'', (0, 0))],
     modules = [(''fifo.so'', \<lparr>m_id = ''fifo.so'', m_init = FIFO, m_cleanup = FIFO, m_spdx = None\<rparr>)],
     cur_seqid = 1,
     heap = [1 \<mapsto> ex_std_block ''fifo1'' BLOCK_TYPE_INTERACTION FIFO BLOCK_STATE_ACTIVE [] (Some (PFifo ex_fifo)),
             2 \<mapsto> ex_std_block ''rnd1'' BLOCK_TYPE_COMPUTATION RANDOM BLOCK_STATE_INACTIVE [ex_out_port]
                   (Some (PRandom \<lparr>ri_min = 0, ri_max = 9\<rparr>))],
     theap = [0 \<mapsto> ex_type], datas = (\<lambda>_. None), next_addr = 3, mem = [],
     garbage = (\<lambda>_. 0), host = Little, clock = [], rng_seed = 1, rng_count = 0\<rparr>"

definition ex_env :: env where
  "ex_env = \<lparr>e_ptr = \<lambda>_. 0, e_prng = \<lambda>_ _. 7, e_dec = \<lambda>_ _. None, e_enc = \<lambda>_. []\<rparr>"

definition ex_libs :: std_libs where
  "ex_libs = \<lparr>l_libs = [''fifo.so'' \<mapsto> FIFO], l_fifo_comp = 10, l_random_comp = 11, l_random_type = 12,
     l_trig_comp = 13, l_trig_types = [], l_cyclic_comp = 14, l_raw_comp = 15\<rparr>"

lemmas ex_std_defs = ex_std_def ex_std_block_def ex_out_port_def ex_fifo_def ex_type_def

lemma ex_std_inv: "node_inv ex_std" "std_inv ex_std"
proof -
  have "wf_node ex_std"
    by (rule wf_nodeI) (auto simp: ex_std_defs hash_ok_def entry_ok_def split: if_splits)
  then show "node_inv ex_std" by (auto simp: node_inv_def ex_std_defs split: if_splits)
  show "std_inv ex_std"
    by (auto simp: std_inv_def ex_std_defs cleanable_def split: if_splits)
qed

end
