(* ===== verification/PtrigBlock.thy ===== *)
theory PtrigBlock
  imports StdHooks
begin

text \<open>
  The trigger with its own thread, \<open>src/std_blocks/ptrig/ptrig.c\<close>. Two agents work on the
  instance: the thread that calls the life cycle hooks, and the trigger thread that
  \<open>thread_startup\<close> runs. They interleave at their accesses to the shared structure, the mutex
  and the condition variable; the step of a triggered block is one access. The private
  data stands beside the node's state here; \<open>dec\<close> and \<open>enc\<close> are the compiler's layouts as in
  theory \<open>TrigBlock\<close>. What the operating system decides (a wake-up without a signal, a
  clock or sleep that fails, whether a cancellation is noticed in the middle of a round)
  is a choice in the event.
\<close>

subsection \<open>Structures\<close>

record ptrig_period =
  pp_sec :: u64
  pp_usec :: u64

record ptrig_inf =
  pi_state :: int
  pi_list :: "(addr \<times> nat) option"
  pi_list_len :: u32
  pi_period :: ptrig_period
  pi_tstats :: trig_tstat
  pi_port :: "(addr \<times> nat) option"

datatype agent = AMain | AThread

text \<open>
  Where the trigger thread stands in its loop: taking the mutex, checking the state,
  waiting on the condition variable, taking the mutex again, giving it back, reading the
  clock, in \<open>trigger_steps\<close> (reading the start time; at step \<open>k\<close> of the block \<open>i\<close>; reading the end time;
  writing the statistics), sleeping, ended.
\<close>

datatype thread_pc = TLock | TCheck | TWait | TRelock | TUnlock | TClock | TBegin
  | TRun nat nat | TStats | TWrite trig_tstat | TSleep | TEnded

text \<open>The other agent: between calls, and inside \<open>ptrig_start\<close>, \<open>ptrig_stop\<close> and \<open>ptrig_cleanup\<close>.\<close>

datatype main_pc = MIdle | MStartLen "addr \<times> nat" | MStartLock | MStartSet | MStartUnlock | MStartPort
  | MStopLock | MStopSet | MStopUnlock | MCancel | MJoin | MFree | MGone

record ptrig =
  pt_inf :: "ptrig_inf option"
  pt_mutex :: "agent option"
  pt_cancel :: bool
  pt_thread :: thread_pc
  pt_main :: main_pc
  pt_wake :: ubx_timespec
  pt_begin :: ubx_timespec
  pt_rounds :: nat
  pt_world :: "priv world"

record ptrig_env =
  pe_hooks :: "priv hooks"
  pe_dec :: "u8 list \<Rightarrow> nat \<Rightarrow> (addr option \<times> u32) option"
  pe_enc :: "trig_tstat \<Rightarrow> u8 list"
  pe_block :: addr

subsection \<open>The trigger thread\<close>

definition tsnorm :: "ubx_timespec \<Rightarrow> ubx_timespec option" where
  "tsnorm ts =
     (if nsec ts \<ge> NSEC_PER_SEC
      then do {
        s \<leftarrow> ladd (sec ts) (nsec ts sdiv NSEC_PER_SEC);
        Some (TS s (nsec ts smod NSEC_PER_SEC)) }
      else Some ts)"

definition NSEC_PER_USEC :: u64 where "NSEC_PER_USEC = 1000"

text \<open>The sums are of an unsigned and a signed operand, so they wrap.\<close>

definition next_wake :: "ptrig_period \<Rightarrow> ubx_timespec \<Rightarrow> ubx_timespec option" where
  "next_wake p ts =
     tsnorm (TS (sint (word_of_int (sec ts) + pp_sec p))
               (sint (word_of_int (nsec ts) + pp_usec p * NSEC_PER_USEC)))"

text \<open>The entry \<open>i\<close> of the list of blocks; the list lies in the block's configuration.\<close>

definition ptrig_entry :: "ptrig_env \<Rightarrow> priv world \<Rightarrow> ptrig_inf \<Rightarrow> nat \<Rightarrow> (addr option \<times> u32) option" where
  "ptrig_entry E w ti i = do {
     ref \<leftarrow> pi_list ti;
     c \<leftarrow> config_at w ref;
     bs \<leftarrow> live_bytes (d_data (c_value c));
     pe_dec E bs i }"

text \<open>One access of \<open>trigger_steps\<close>. Its two counters are of type \<open>int\<close>.\<close>

fun trigger_access :: "ptrig_env \<Rightarrow> ptrig \<Rightarrow> ptrig option" where
  "trigger_access E s =
     (case pt_thread s of
        TBegin \<Rightarrow> do {
          (t, w) \<leftarrow> read_clock (pt_world s);
          Some (s\<lparr>pt_thread := TRun 0 0, pt_begin := t, pt_rounds := pt_rounds s + 1, pt_world := w\<rparr>) }
      | TRun i k \<Rightarrow> do {
          ti \<leftarrow> pt_inf s;
          if i \<ge> unat (pi_list_len ti) then Some (s\<lparr>pt_thread := TStats\<rparr>)
          else do {
            (b, n) \<leftarrow> ptrig_entry E (pt_world s) ti i;
            if k \<ge> unat n then do {
              guard (i + 1 < 2 ^ 31);
              Some (s\<lparr>pt_thread := TRun (i + 1) 0\<rparr>) }
            else do {
              guard (k + 1 < 2 ^ 31);
              (r, w) \<leftarrow> ubx_cblock_step (pe_hooks E) b (pt_world s);
              Some (s\<lparr>pt_thread := (if r \<noteq> 0 then TSleep else TRun i (k + 1)), pt_world := w\<rparr>) } } }
      | TStats \<Rightarrow> do {
          ti \<leftarrow> pt_inf s;
          (t, w) \<leftarrow> read_clock (pt_world s);
          dur \<leftarrow> ubx_ts_sub t (pt_begin s);
          st \<leftarrow> update_tstats (pi_tstats ti) dur;
          Some (s\<lparr>pt_inf := Some (ti\<lparr>pi_tstats := st\<rparr>), pt_thread := TWrite st, pt_world := w\<rparr>) }
      | TWrite st \<Rightarrow> do {
          ti \<leftarrow> pt_inf s;
          w \<leftarrow> typed_write (pe_hooks E) ''struct ptrig_tstat'' 1 (pi_port ti) (pe_enc E st) (pt_world s);
          Some (s\<lparr>pt_thread := TSleep, pt_world := w\<rparr>) }
      | _ \<Rightarrow> Some s)"

text \<open>
  One access of \<open>thread_startup\<close>. A thread that cannot have the mutex stays where it is. A
  cancelled wait takes the mutex back and ends the thread, as the sleep does; \<open>ok\<close> is the choice.
\<close>

definition thread_access :: "ptrig_env \<Rightarrow> bool \<Rightarrow> ptrig \<Rightarrow> ptrig option" where
  "thread_access E ok s =
     (case pt_thread s of
        TLock \<Rightarrow> Some (if pt_mutex s = None then s\<lparr>pt_mutex := Some AThread, pt_thread := TCheck\<rparr> else s)
      | TCheck \<Rightarrow> do {
          ti \<leftarrow> pt_inf s;
          if pi_state ti \<noteq> BLOCK_STATE_ACTIVE then Some (s\<lparr>pt_mutex := None, pt_thread := TWait\<rparr>)
          else Some (s\<lparr>pt_thread := TUnlock\<rparr>) }
      | TWait \<Rightarrow>
          if pt_cancel s
          then Some (if pt_mutex s = None then s\<lparr>pt_mutex := Some AThread, pt_thread := TEnded\<rparr> else s)
          else Some (if ok then s\<lparr>pt_thread := TRelock\<rparr> else s)
      | TRelock \<Rightarrow>
          Some (if pt_mutex s \<noteq> None then s
                else if pt_cancel s \<and> ok then s\<lparr>pt_mutex := Some AThread, pt_thread := TEnded\<rparr>
                else s\<lparr>pt_mutex := Some AThread, pt_thread := TCheck\<rparr>)
      | TUnlock \<Rightarrow> Some (s\<lparr>pt_mutex := None, pt_thread := TClock\<rparr>)
      | TClock \<Rightarrow>
          if ok
          then do {
            (t, w) \<leftarrow> read_clock (pt_world s);
            Some (s\<lparr>pt_thread := TBegin, pt_wake := t, pt_world := w\<rparr>) }
          else Some (s\<lparr>pt_thread := TEnded\<rparr>)
      | TSleep \<Rightarrow> do {
          ti \<leftarrow> pt_inf s;
          _ \<leftarrow> next_wake (pi_period ti) (pt_wake s);
          Some (s\<lparr>pt_thread := if pt_cancel s \<or> \<not> ok then TEnded else TLock\<rparr>) }
      | TEnded \<Rightarrow> Some s
      | _ \<Rightarrow> if pt_cancel s \<and> \<not> ok then Some (s\<lparr>pt_thread := TEnded\<rparr>) else trigger_access E s)"

subsection \<open>The hooks\<close>

text \<open>The list is taken over before the mutex is locked, its address first and then its length.\<close>

definition ptrig_start :: "ptrig_env \<Rightarrow> ptrig \<Rightarrow> ptrig option" where
  "ptrig_start E s = do {
     d \<leftarrow> ubx_config_get_data (pt_world s) (Some (pe_block E)) (Some ''trig_blocks'');
     ref \<leftarrow> d;
     ti \<leftarrow> pt_inf s;
     Some (s\<lparr>pt_inf := Some (ti\<lparr>pi_list := Some ref\<rparr>), pt_main := MStartLen ref\<rparr>) }"

definition ptrig_stop :: "ptrig \<Rightarrow> ptrig option" where
  "ptrig_stop s = Some (s\<lparr>pt_main := MStopLock\<rparr>)"

text \<open>The clean-up writes the state without the mutex.\<close>

definition ptrig_cleanup :: "ptrig \<Rightarrow> ptrig option" where
  "ptrig_cleanup s = do {
     ti \<leftarrow> pt_inf s;
     Some (s\<lparr>pt_inf := Some (ti\<lparr>pi_state := BLOCK_STATE_PREINIT\<rparr>), pt_main := MCancel\<rparr>) }"

text \<open>The rest of a call, one access at a time. The signal wakes the thread if it waits.\<close>

definition main_access :: "ptrig_env \<Rightarrow> ptrig \<Rightarrow> ptrig option" where
  "main_access E s =
     (case pt_main s of
        MStartLen ref \<Rightarrow> do {
          c \<leftarrow> config_at (pt_world s) ref;
          ti \<leftarrow> pt_inf s;
          Some (s\<lparr>pt_inf := Some (ti\<lparr>pi_list_len := ucast (d_len (c_value c))\<rparr>), pt_main := MStartLock\<rparr>) }
      | MStartLock \<Rightarrow> Some (if pt_mutex s = None then s\<lparr>pt_mutex := Some AMain, pt_main := MStartSet\<rparr> else s)
      | MStartSet \<Rightarrow> do {
          ti \<leftarrow> pt_inf s;
          Some (s\<lparr>pt_inf := Some (ti\<lparr>pi_state := BLOCK_STATE_ACTIVE\<rparr>), pt_main := MStartUnlock,
                  pt_thread := (if pt_thread s = TWait \<and> \<not> pt_cancel s then TRelock else pt_thread s)\<rparr>) }
      | MStartUnlock \<Rightarrow> Some (s\<lparr>pt_mutex := None, pt_main := MStartPort\<rparr>)
      | MStartPort \<Rightarrow> do {
          ti \<leftarrow> pt_inf s;
          p \<leftarrow> ubx_port_get (pt_world s) (Some (pe_block E)) (Some ''tstats'');
          port \<leftarrow> p;
          Some (s\<lparr>pt_inf := Some (ti\<lparr>pi_port := Some port\<rparr>), pt_main := MIdle\<rparr>) }
      | MStopLock \<Rightarrow> Some (if pt_mutex s = None then s\<lparr>pt_mutex := Some AMain, pt_main := MStopSet\<rparr> else s)
      | MStopSet \<Rightarrow> do {
          ti \<leftarrow> pt_inf s;
          Some (s\<lparr>pt_inf := Some (ti\<lparr>pi_state := BLOCK_STATE_INACTIVE\<rparr>), pt_main := MStopUnlock\<rparr>) }
      | MStopUnlock \<Rightarrow> Some (s\<lparr>pt_mutex := None, pt_main := MIdle\<rparr>)
      | MCancel \<Rightarrow> Some (s\<lparr>pt_cancel := True, pt_main := MJoin\<rparr>)
      | MJoin \<Rightarrow> Some (if pt_thread s = TEnded then s\<lparr>pt_main := MFree\<rparr> else s)
      | MFree \<Rightarrow> Some (s\<lparr>pt_inf := None, pt_main := MGone\<rparr>)
      | _ \<Rightarrow> Some s)"

datatype ptrig_event = EThread bool | EMain | EStart | EStop | ECleanup

definition ptrig_exec :: "ptrig_env \<Rightarrow> ptrig_event \<Rightarrow> ptrig \<Rightarrow> ptrig option" where
  "ptrig_exec E ev s =
     (case ev of
        EThread ok \<Rightarrow> thread_access E ok s
      | EMain \<Rightarrow> main_access E s
      | EStart \<Rightarrow> if pt_main s = MIdle then ptrig_start E s else Some s
      | EStop \<Rightarrow> if pt_main s = MIdle then ptrig_stop s else Some s
      | ECleanup \<Rightarrow> if pt_main s = MIdle then ptrig_cleanup s else Some s)"

inductive ptrig_run :: "ptrig_env \<Rightarrow> ptrig \<Rightarrow> ptrig_event list \<Rightarrow> ptrig \<Rightarrow> bool" for E s0 where
  pr_init: "ptrig_run E s0 [] s0"
| pr_step: "ptrig_run E s0 es s \<Longrightarrow> ptrig_exec E ev s = Some s' \<Longrightarrow> ptrig_run E s0 (es @ [ev]) s'"

subsection \<open>Creating an instance\<close>

text \<open>\<open>strncmp(s, t, n) == 0\<close>, which must find a difference, a terminator or its end inside the buffers.\<close>

fun strn_eq :: "u8 list \<Rightarrow> u8 list \<Rightarrow> nat \<Rightarrow> bool option" where
  "strn_eq s t 0 = Some True"
| "strn_eq (a # s) (b # t) (Suc n) = (if a \<noteq> b then Some False else if a = 0 then Some True else strn_eq s t n)"
| "strn_eq _ _ (Suc n) = None"

definition literal :: "string \<Rightarrow> u8 list" where
  "literal s = map of_char s @ [0]"

datatype sched_policy = SCHED_OTHER | SCHED_FIFO | SCHED_RR

definition sched_policy_of :: "u8 list \<Rightarrow> nat \<Rightarrow> sched_policy option" where
  "sched_policy_of bs tmplen = do {
     unset \<leftarrow> strn_eq bs (literal []) tmplen;
     let str = (if unset then literal ''SCHED_OTHER'' else bs);
     other \<leftarrow> strn_eq str (literal ''SCHED_OTHER'') tmplen;
     if other then Some SCHED_OTHER
     else do {
       fifo \<leftarrow> strn_eq str (literal ''SCHED_FIFO'') tmplen;
       if fifo then Some SCHED_FIFO
       else do {
         rr \<leftarrow> strn_eq str (literal ''SCHED_RR'') tmplen;
         Some (if rr then SCHED_RR else SCHED_OTHER) } } }"

text \<open>
  What the thread is created with: a stack size, if one is set, the policy and the
  priority. The stack size is read as an \<open>int\<close> and extended.
\<close>

record ptrig_attr =
  pa_stacksize :: "u64 option"
  pa_policy :: sched_policy
  pa_priority :: int

definition config_bytes :: "priv world \<Rightarrow> addr \<Rightarrow> string \<Rightarrow> (u8 list \<times> nat) option" where
  "config_bytes w b name = do {
     (p, len) \<leftarrow> ubx_config_get_data_ptr w (Some b) (Some name);
     bs \<leftarrow> live_bytes p;
     Some (bs, unat len) }"

definition ptrig_handle_config :: "u64 \<Rightarrow> addr \<Rightarrow> priv world \<Rightarrow> (ptrig_period \<times> ptrig_attr) option" where
  "ptrig_handle_config stack_min b w = do {
     (p, _) \<leftarrow> config_bytes w b ''period'';
     s \<leftarrow> native64 (host w) (take 8 p);
     us \<leftarrow> native64 (host w) (take 8 (drop 8 p));
     (st, _) \<leftarrow> config_bytes w b ''stacksize'';
     v \<leftarrow> native32 (host w) st;
     let stacksize = scast v;
     (pol, len) \<leftarrow> config_bytes w b ''sched_policy'';
     policy \<leftarrow> sched_policy_of pol len;
     (pr, _) \<leftarrow> config_bytes w b ''sched_priority'';
     prio \<leftarrow> native32 (host w) pr;
     Some (\<lparr>pp_sec = s, pp_usec = us\<rparr>,
           \<lparr>pa_stacksize = (if stacksize \<noteq> 0 \<and> \<not> stacksize < stack_min then Some stacksize else None),
            pa_policy = policy, pa_priority = sint prio\<rparr>) }"

text \<open>
  \<open>create\<close> is \<open>pthread_create\<close>: 0, or an error number, which is what the hook then returns. The
  statistics are set after the thread exists, which does not look at them before the first start.
\<close>

definition ptrig_init ::
    "u64 \<Rightarrow> (ptrig_attr \<Rightarrow> int) \<Rightarrow> addr \<Rightarrow> priv world \<Rightarrow> (int \<times> ptrig option \<times> priv world) option" where
  "ptrig_init stack_min create b w =
     (if \<not> alloc_ok w then Some (EOUTOFMEM, None, alloc_step w)
      else do {
        let w = alloc_step w;
        (period, attr) \<leftarrow> ptrig_handle_config stack_min b w;
        if create attr \<noteq> 0 then Some (create attr, None, w)
        else do {
          (nm, len) \<leftarrow> config_bytes w b ''thread_name'';
          _ \<leftarrow> strn_eq nm (literal []) len;
          Some (0, Some \<lparr>pt_inf = Some \<lparr>pi_state = BLOCK_STATE_INACTIVE, pi_list = None, pi_list_len = 0,
                           pi_period = period,
                           pi_tstats = \<lparr>ts_min = TS 999999999 999999999, ts_max = TS 0 0, ts_total = TS 0 0, ts_cnt = 0\<rparr>,
                           pi_port = None\<rparr>,
                 pt_mutex = None, pt_cancel = False, pt_thread = TLock, pt_main = MIdle, pt_wake = TS 0 0,
                 pt_begin = TS 0 0, pt_rounds = 0, pt_world = w\<rparr>, w) } })"

text \<open>Loading and unloading the module.\<close>

definition ptrig_type_names :: "string list" where
  "ptrig_type_names = [''struct ptrig_config'', ''struct ptrig_period'', ''struct ptrig_tstat'']"

definition ptrig_mod_init :: "addr list \<Rightarrow> addr \<Rightarrow> priv world \<Rightarrow> (int \<times> priv world) option" where
  "ptrig_mod_init tys blk w = do {
     (r, w) \<leftarrow> register_types tys w;
     if r \<noteq> 0 then Some (r, w) else ubx_block_register w blk }"

definition ptrig_mod_cleanup :: "priv world \<Rightarrow> priv world" where
  "ptrig_mod_cleanup w = snd (ubx_block_unregister (unregister_types ptrig_type_names w) ''std_triggers/ptrig'')"

subsection \<open>The invariant\<close>

text \<open>Who holds the mutex, when the private data is gone, and that no start is overslept.\<close>

definition inv_on :: "bool \<Rightarrow> bool \<Rightarrow> agent option \<Rightarrow> bool \<Rightarrow> thread_pc \<Rightarrow> main_pc \<Rightarrow> bool" where
  "inv_on gone active mutex cancelled th mn \<longleftrightarrow>
     (gone \<longleftrightarrow> mn = MGone)
     \<and> (mn \<in> {MFree, MGone} \<longrightarrow> th = TEnded)
     \<and> (cancelled \<longrightarrow> mn \<in> {MJoin, MFree, MGone})
     \<and> (mutex = Some AMain \<longleftrightarrow> mn \<in> {MStartSet, MStartUnlock, MStopSet, MStopUnlock})
     \<and> (mutex = Some AThread \<longrightarrow> th \<in> {TCheck, TUnlock, TEnded})
     \<and> (th \<in> {TCheck, TUnlock} \<longrightarrow> mutex = Some AThread)
     \<and> (th = TWait \<longrightarrow> \<not> active \<or> cancelled)"

definition is_active :: "ptrig \<Rightarrow> bool" where
  "is_active s = (case pt_inf s of None \<Rightarrow> False | Some ti \<Rightarrow> pi_state ti = BLOCK_STATE_ACTIVE)"

definition ptrig_inv :: "ptrig \<Rightarrow> bool" where
  "ptrig_inv s \<longleftrightarrow> inv_on (pt_inf s = None) (is_active s) (pt_mutex s) (pt_cancel s) (pt_thread s) (pt_main s)"

text \<open>What a round leaves alone, and where its accesses lead.\<close>

definition same_shared :: "ptrig \<Rightarrow> ptrig \<Rightarrow> bool" where
  "same_shared s s' \<longleftrightarrow> pt_mutex s' = pt_mutex s \<and> pt_cancel s' = pt_cancel s \<and> pt_main s' = pt_main s
     \<and> map_option pi_state (pt_inf s') = map_option pi_state (pt_inf s)"

fun in_round :: "thread_pc \<Rightarrow> bool" where
  "in_round (TRun i k) = True" | "in_round TStats = True" | "in_round (TWrite st) = True"
| "in_round TBegin = True" | "in_round _ = False"

lemma in_round_not: "in_round pc \<Longrightarrow> pc \<noteq> TCheck \<and> pc \<noteq> TUnlock \<and> pc \<noteq> TWait \<and> pc \<noteq> TEnded \<and> pc \<noteq> TSleep"
  by (cases pc) simp_all

lemma trigger_access_frame:
  assumes "trigger_access E s = Some s'" "in_round (pt_thread s)"
  shows "same_shared s s' \<and> pt_thread s' \<noteq> TBegin \<and> (in_round (pt_thread s') \<or> pt_thread s' = TSleep)
    \<and> pt_rounds s' = (if pt_thread s = TBegin then pt_rounds s + 1 else pt_rounds s)"
proof (cases "pt_thread s")
  case (TRun i k)
  from assms(1) obtain ti where ti: "pt_inf s = Some ti" by (auto simp: TRun)
  show ?thesis
  proof (cases "i \<ge> unat (pi_list_len ti)")
    case True then show ?thesis using assms(1) TRun ti by (auto simp: same_shared_def)
  next
    case False
    with assms(1) TRun ti obtain b n where e: "ptrig_entry E (pt_world s) ti i = Some (b, n)" by auto
    show ?thesis
    proof (cases "k \<ge> unat n")
      case True with assms(1) TRun ti False e show ?thesis by (auto simp: same_shared_def)
    next
      case k: False
      with assms(1) TRun ti False e obtain r w where "ubx_cblock_step (pe_hooks E) b (pt_world s) = Some (r, w)" by auto
      with assms(1) TRun ti False e k show ?thesis by (cases "r = 0") (auto simp: same_shared_def)
    qed
  qed
qed (use assms in \<open>auto simp: same_shared_def\<close>)

lemma thread_access_round:
  "in_round (pt_thread s) \<Longrightarrow> thread_access E ok s
     = (if pt_cancel s \<and> \<not> ok then Some (s\<lparr>pt_thread := TEnded\<rparr>) else trigger_access E s)"
  by (cases "pt_thread s") (simp_all add: thread_access_def)

lemma inv_same_shared:
  assumes "ptrig_inv s" "same_shared s s'" "in_round (pt_thread s)" "in_round (pt_thread s') \<or> pt_thread s' = TSleep"
  shows "ptrig_inv s'"
proof -
  have "pt_inf s' = None \<longleftrightarrow> pt_inf s = None" "is_active s' = is_active s"
    using assms(2) by (cases "pt_inf s"; cases "pt_inf s'"; simp add: same_shared_def is_active_def)+
  moreover have "pt_thread s' \<noteq> TWait" "pt_thread s' \<noteq> TCheck" "pt_thread s' \<noteq> TUnlock" "pt_thread s' \<noteq> TEnded"
    using assms(4) in_round_not [of "pt_thread s'"] by auto
  ultimately show ?thesis
    using assms(1,2) in_round_not [OF assms(3)] unfolding ptrig_inv_def same_shared_def by (auto simp: inv_on_def)
qed

text \<open>The accesses outside a round, and those of the other agent.\<close>

lemma thread_access_cases:
  assumes "thread_access E ok s = Some s'" "\<not> in_round (pt_thread s)"
  obtains (stay) "s' = s"
  | (lock) "pt_thread s \<in> {TLock, TRelock}" "pt_mutex s = None" "s' = s\<lparr>pt_mutex := Some AThread, pt_thread := TCheck\<rparr>"
  | (sleep) "pt_thread s = TCheck" "\<not> is_active s" "s' = s\<lparr>pt_mutex := None, pt_thread := TWait\<rparr>"
  | (go) "pt_thread s = TCheck" "is_active s" "s' = s\<lparr>pt_thread := TUnlock\<rparr>"
  | (wake) "pt_thread s = TWait" "s' = s\<lparr>pt_thread := TRelock\<rparr>"
  | (give_up) "pt_thread s \<in> {TWait, TRelock}" "pt_cancel s" "pt_mutex s = None"
      "s' = s\<lparr>pt_mutex := Some AThread, pt_thread := TEnded\<rparr>"
  | (unlock) "pt_thread s = TUnlock" "s' = s\<lparr>pt_mutex := None, pt_thread := TClock\<rparr>"
  | (clock) t w where "pt_thread s = TClock" "read_clock (pt_world s) = Some (t, w)"
      "s' = s\<lparr>pt_thread := TBegin, pt_wake := t, pt_world := w\<rparr>"
  | (leave) "pt_thread s \<in> {TClock, TSleep}" "s' = s\<lparr>pt_thread := TEnded\<rparr>"
  | (again) "pt_thread s = TSleep" "s' = s\<lparr>pt_thread := TLock\<rparr>"
proof (cases "pt_thread s")
  case TLock
  with assms(1) have "s' = (if pt_mutex s = None then s\<lparr>pt_mutex := Some AThread, pt_thread := TCheck\<rparr> else s)"
    by (simp add: thread_access_def)
  then show ?thesis by (cases "pt_mutex s = None") (rule lock, simp_all add: TLock, rule stay)
next
  case TCheck
  with assms(1) obtain ti where ti: "pt_inf s = Some ti"
      "s' = (if pi_state ti \<noteq> BLOCK_STATE_ACTIVE then s\<lparr>pt_mutex := None, pt_thread := TWait\<rparr> else s\<lparr>pt_thread := TUnlock\<rparr>)"
    by (cases "pt_inf s") (simp_all add: thread_access_def split: if_splits)
  show ?thesis
  proof (cases "is_active s")
    case True with ti show ?thesis by (intro go [OF TCheck True]) (simp add: is_active_def)
  next
    case False with ti show ?thesis by (intro sleep [OF TCheck False]) (simp add: is_active_def)
  qed
next
  case TWait
  with assms(1) have "s' = s \<or> s' = s\<lparr>pt_thread := TRelock\<rparr>
      \<or> pt_cancel s \<and> pt_mutex s = None \<and> s' = s\<lparr>pt_mutex := Some AThread, pt_thread := TEnded\<rparr>"
    by (auto simp: thread_access_def split: if_splits)
  then show ?thesis by (elim disjE conjE) (rule stay wake give_up, simp_all add: TWait)+
next
  case TRelock
  with assms(1) have "s' = s \<or> pt_mutex s = None \<and> s' = s\<lparr>pt_mutex := Some AThread, pt_thread := TCheck\<rparr>
      \<or> pt_cancel s \<and> pt_mutex s = None \<and> s' = s\<lparr>pt_mutex := Some AThread, pt_thread := TEnded\<rparr>"
    by (auto simp: thread_access_def split: if_splits)
  then show ?thesis
  proof (elim disjE conjE)
    assume "pt_mutex s = None" "s' = s\<lparr>pt_mutex := Some AThread, pt_thread := TCheck\<rparr>"
    then show ?thesis by (intro lock) (simp_all add: TRelock)
  next
    assume "pt_cancel s" "pt_mutex s = None" "s' = s\<lparr>pt_mutex := Some AThread, pt_thread := TEnded\<rparr>"
    then show ?thesis by (intro give_up) (simp_all add: TRelock)
  qed (rule stay)
next
  case TUnlock with assms(1) show ?thesis by (intro unlock) (simp_all add: thread_access_def)
next
  case TClock
  show ?thesis
  proof (cases ok)
    case True
    with assms(1) TClock obtain t w where "read_clock (pt_world s) = Some (t, w)"
        "s' = s\<lparr>pt_thread := TBegin, pt_wake := t, pt_world := w\<rparr>" by (auto simp: thread_access_def)
    with TClock show ?thesis by (rule clock)
  next
    case False with assms(1) TClock show ?thesis by (intro leave) (simp_all add: thread_access_def)
  qed
next
  case TSleep
  with assms(1) have "s' = s\<lparr>pt_thread := if pt_cancel s \<or> \<not> ok then TEnded else TLock\<rparr>"
    by (auto simp: thread_access_def)
  then show ?thesis using TSleep leave again by (cases "pt_cancel s \<or> \<not> ok") simp_all
next
  case TEnded with assms(1) show ?thesis by (intro stay) (simp add: thread_access_def)
next
  case TBegin with assms(2) show ?thesis by simp
next
  case TStats with assms(2) show ?thesis by simp
next
  case (TRun i k) with assms(2) show ?thesis by simp
next
  case (TWrite st) with assms(2) show ?thesis by simp
qed

lemma main_access_cases:
  assumes "main_access E s = Some s'"
  obtains (stay) "s' = s"
  | (len) ti n ref where "pt_main s = MStartLen ref" "pt_inf s = Some ti"
      "s' = s\<lparr>pt_inf := Some (ti\<lparr>pi_list_len := n\<rparr>), pt_main := MStartLock\<rparr>"
  | (lock) m where "(pt_main s, m) \<in> {(MStartLock, MStartSet), (MStopLock, MStopSet)}" "pt_mutex s = None"
      "s' = s\<lparr>pt_mutex := Some AMain, pt_main := m\<rparr>"
  | (activate) ti where "pt_main s = MStartSet" "pt_inf s = Some ti"
      "s' = s\<lparr>pt_inf := Some (ti\<lparr>pi_state := BLOCK_STATE_ACTIVE\<rparr>), pt_main := MStartUnlock,
         pt_thread := (if pt_thread s = TWait \<and> \<not> pt_cancel s then TRelock else pt_thread s)\<rparr>"
  | (unlock) m where "(pt_main s, m) \<in> {(MStartUnlock, MStartPort), (MStopUnlock, MIdle)}"
      "s' = s\<lparr>pt_mutex := None, pt_main := m\<rparr>"
  | (port) ti p where "pt_main s = MStartPort" "pt_inf s = Some ti"
      "s' = s\<lparr>pt_inf := Some (ti\<lparr>pi_port := Some p\<rparr>), pt_main := MIdle\<rparr>"
  | (deactivate) ti where "pt_main s = MStopSet" "pt_inf s = Some ti"
      "s' = s\<lparr>pt_inf := Some (ti\<lparr>pi_state := BLOCK_STATE_INACTIVE\<rparr>), pt_main := MStopUnlock\<rparr>"
  | (cancel) "pt_main s = MCancel" "s' = s\<lparr>pt_cancel := True, pt_main := MJoin\<rparr>"
  | (join) "pt_main s = MJoin" "pt_thread s = TEnded" "s' = s\<lparr>pt_main := MFree\<rparr>"
  | (free) "pt_main s = MFree" "s' = s\<lparr>pt_inf := None, pt_main := MGone\<rparr>"
proof (cases "pt_main s")
  case (MStartLen ref)
  with assms obtain ti n where "pt_inf s = Some ti" "s' = s\<lparr>pt_inf := Some (ti\<lparr>pi_list_len := n\<rparr>), pt_main := MStartLock\<rparr>"
    by (auto simp: main_access_def)
  with MStartLen show ?thesis by (rule len)
next
  case MStartLock
  with assms have "s' = (if pt_mutex s = None then s\<lparr>pt_mutex := Some AMain, pt_main := MStartSet\<rparr> else s)"
    by (simp add: main_access_def)
  then show ?thesis by (cases "pt_mutex s = None") (rule lock [of MStartSet], simp_all add: MStartLock, rule stay)
next
  case MStartSet
  with assms obtain ti where "pt_inf s = Some ti"
      "s' = s\<lparr>pt_inf := Some (ti\<lparr>pi_state := BLOCK_STATE_ACTIVE\<rparr>), pt_main := MStartUnlock,
         pt_thread := (if pt_thread s = TWait \<and> \<not> pt_cancel s then TRelock else pt_thread s)\<rparr>"
    by (auto simp: main_access_def)
  with MStartSet show ?thesis by (rule activate)
next
  case MStartUnlock with assms show ?thesis by (intro unlock [of MStartPort]) (simp_all add: main_access_def)
next
  case MStartPort
  with assms obtain ti p where "pt_inf s = Some ti" "s' = s\<lparr>pt_inf := Some (ti\<lparr>pi_port := Some p\<rparr>), pt_main := MIdle\<rparr>"
    by (auto simp: main_access_def)
  with MStartPort show ?thesis by (rule port)
next
  case MStopLock
  with assms have "s' = (if pt_mutex s = None then s\<lparr>pt_mutex := Some AMain, pt_main := MStopSet\<rparr> else s)"
    by (simp add: main_access_def)
  then show ?thesis by (cases "pt_mutex s = None") (rule lock [of MStopSet], simp_all add: MStopLock, rule stay)
next
  case MStopSet
  with assms obtain ti where "pt_inf s = Some ti"
      "s' = s\<lparr>pt_inf := Some (ti\<lparr>pi_state := BLOCK_STATE_INACTIVE\<rparr>), pt_main := MStopUnlock\<rparr>"
    by (auto simp: main_access_def)
  with MStopSet show ?thesis by (rule deactivate)
next
  case MStopUnlock with assms show ?thesis by (intro unlock [of MIdle]) (simp_all add: main_access_def)
next
  case MCancel with assms show ?thesis by (intro cancel) (simp_all add: main_access_def)
next
  case MJoin
  with assms have "s' = (if pt_thread s = TEnded then s\<lparr>pt_main := MFree\<rparr> else s)" by (simp add: main_access_def)
  then show ?thesis by (cases "pt_thread s = TEnded") (rule join [OF MJoin], simp_all, rule stay)
next
  case MFree with assms show ?thesis by (intro free) (simp_all add: main_access_def)
next
  case MIdle with assms show ?thesis by (intro stay) (simp add: main_access_def)
next
  case MGone with assms show ?thesis by (intro stay) (simp add: main_access_def)
qed

lemma thread_access_inv:
  assumes "thread_access E ok s = Some s'" "ptrig_inv s"
  shows "ptrig_inv s'"
proof (cases "in_round (pt_thread s)")
  case True
  note out = in_round_not [OF True]
  show ?thesis
  proof (cases "pt_cancel s \<and> \<not> ok")
    case c: True
    with assms(1) True have "s' = s\<lparr>pt_thread := TEnded\<rparr>" by (simp add: thread_access_round)
    with assms(2) out show ?thesis by (simp add: ptrig_inv_def is_active_def) (auto simp: inv_on_def)
  next
    case False
    with assms(1) True have "trigger_access E s = Some s'" by (simp add: thread_access_round)
    from trigger_access_frame [OF this True] show ?thesis using inv_same_shared [OF assms(2)] True by blast
  qed
next
  case False
  note inv = assms(2) [unfolded ptrig_inv_def is_active_def]
  from assms(1) False show ?thesis
    by (cases rule: thread_access_cases) (use inv in \<open>simp_all add: ptrig_inv_def is_active_def, auto simp: inv_on_def\<close>)
qed

lemma held_by_main:
  assumes "ptrig_inv s" "pt_mutex s = Some AMain"
  shows "pt_thread s \<noteq> TCheck" "pt_thread s \<noteq> TUnlock"
proof -
  from assms(1) have "pt_thread s \<in> {TCheck, TUnlock} \<longrightarrow> pt_mutex s = Some AThread"
    unfolding ptrig_inv_def inv_on_def by blast
  with assms(2) show "pt_thread s \<noteq> TCheck" "pt_thread s \<noteq> TUnlock" by auto
qed

lemma main_access_inv:
  assumes "main_access E s = Some s'" "ptrig_inv s"
  shows "ptrig_inv s'"
  using assms(1)
proof (cases rule: main_access_cases)
  case stay with assms(2) show ?thesis by simp
next
  case (len ti n ref)
  then have s': "pt_inf s' = Some (ti\<lparr>pi_list_len := n\<rparr>)" "pt_mutex s' = pt_mutex s" "pt_cancel s' = pt_cancel s"
      "pt_thread s' = pt_thread s" "pt_main s' = MStartLock" "is_active s' = is_active s" by (simp_all add: is_active_def)
  show ?thesis using len(1,2) assms(2) unfolding ptrig_inv_def s' inv_on_def by (simp, blast)
next
  case (lock m)
  then have s': "pt_inf s' = pt_inf s" "pt_mutex s' = Some AMain" "pt_cancel s' = pt_cancel s" "pt_thread s' = pt_thread s"
      "pt_main s' = m" "is_active s' = is_active s" by (simp_all add: is_active_def)
  show ?thesis using lock(1,2) assms(2) unfolding ptrig_inv_def s' inv_on_def by auto
next
  case (activate ti)
  then have s': "pt_inf s' = Some (ti\<lparr>pi_state := BLOCK_STATE_ACTIVE\<rparr>)" "pt_mutex s' = pt_mutex s" "pt_cancel s' = pt_cancel s"
      "pt_main s' = MStartUnlock" by simp_all
  have th: "pt_thread s' = (if pt_thread s = TWait \<and> \<not> pt_cancel s then TRelock else pt_thread s)" using activate by simp
  show ?thesis using activate(1,2) assms(2) unfolding ptrig_inv_def s' inv_on_def
    by (cases "pt_thread s = TWait") (auto simp: th)
next
  case (unlock m)
  then have s': "pt_inf s' = pt_inf s" "pt_mutex s' = None" "pt_cancel s' = pt_cancel s" "pt_thread s' = pt_thread s"
      "pt_main s' = m" "is_active s' = is_active s" by (simp_all add: is_active_def)
  from unlock(1) consider "pt_main s = MStartUnlock" "m = MStartPort" | "pt_main s = MStopUnlock" "m = MIdle" by auto
  then show ?thesis
  proof cases
    case 1
    with assms(2) have "pt_mutex s = Some AMain" by (simp add: ptrig_inv_def inv_on_def)
    from held_by_main [OF assms(2) this] 1 assms(2) show ?thesis unfolding ptrig_inv_def s' inv_on_def by (simp, blast)
  next
    case 2
    with assms(2) have "pt_mutex s = Some AMain" by (simp add: ptrig_inv_def inv_on_def)
    from held_by_main [OF assms(2) this] 2 assms(2) show ?thesis unfolding ptrig_inv_def s' inv_on_def by (simp, blast)
  qed
next
  case (port ti q)
  then have s': "pt_inf s' = Some (ti\<lparr>pi_port := Some q\<rparr>)" "pt_mutex s' = pt_mutex s" "pt_cancel s' = pt_cancel s"
      "pt_thread s' = pt_thread s" "pt_main s' = MIdle" "is_active s' = is_active s" by (simp_all add: is_active_def)
  show ?thesis using port(1,2) assms(2) unfolding ptrig_inv_def s' inv_on_def by (simp, blast)
next
  case (deactivate ti)
  then have s': "pt_inf s' = Some (ti\<lparr>pi_state := BLOCK_STATE_INACTIVE\<rparr>)" "pt_mutex s' = pt_mutex s" "pt_cancel s' = pt_cancel s"
      "pt_thread s' = pt_thread s" "pt_main s' = MStopUnlock" "\<not> is_active s'" by (simp_all add: is_active_def state_defs)
  from deactivate(1) assms(2) have "pt_mutex s = Some AMain" by (simp add: ptrig_inv_def inv_on_def)
  from held_by_main [OF assms(2) this] deactivate(1,2) assms(2) show ?thesis unfolding ptrig_inv_def s' inv_on_def by (simp add: s'(6))
next
  case cancel
  then have s': "pt_inf s' = pt_inf s" "pt_mutex s' = pt_mutex s" "pt_cancel s' = True" "pt_thread s' = pt_thread s"
      "pt_main s' = MJoin" by simp_all
  show ?thesis using cancel(1) assms(2) unfolding ptrig_inv_def s' inv_on_def by simp
next
  case join
  then have s': "pt_inf s' = pt_inf s" "pt_mutex s' = pt_mutex s" "pt_cancel s' = pt_cancel s" "pt_thread s' = TEnded"
      "pt_main s' = MFree" by simp_all
  show ?thesis using join(1,2) assms(2) unfolding ptrig_inv_def s' inv_on_def by simp
next
  case free
  then have s': "pt_inf s' = None" "pt_mutex s' = pt_mutex s" "pt_cancel s' = pt_cancel s" "pt_thread s' = pt_thread s"
      "pt_main s' = MGone" by simp_all
  show ?thesis using free(1) assms(2) unfolding ptrig_inv_def s' inv_on_def by simp
qed

lemma ptrig_exec_inv:
  assumes "ptrig_exec E ev s = Some s'" "ptrig_inv s"
  shows "ptrig_inv s'"
proof (cases ev)
  case EStart
  note inv = assms(2) [unfolded ptrig_inv_def]
  show ?thesis
  proof (cases "pt_main s = MIdle")
    case True
    with EStart assms(1) obtain ti ref where "pt_inf s = Some ti"
        "s' = s\<lparr>pt_inf := Some (ti\<lparr>pi_list := Some ref\<rparr>), pt_main := MStartLen ref\<rparr>"
      by (auto simp: ptrig_exec_def ptrig_start_def)
    with inv True show ?thesis by (simp add: ptrig_inv_def is_active_def) (auto simp: inv_on_def)
  qed (use assms EStart in \<open>simp add: ptrig_exec_def\<close>)
next
  case EStop
  with assms show ?thesis
    by (auto simp: ptrig_exec_def ptrig_stop_def ptrig_inv_def is_active_def inv_on_def split: if_splits)
next
  case ECleanup
  note inv = assms(2) [unfolded ptrig_inv_def]
  show ?thesis
  proof (cases "pt_main s = MIdle")
    case True
    with ECleanup assms(1) obtain ti where "pt_inf s = Some ti"
        "s' = s\<lparr>pt_inf := Some (ti\<lparr>pi_state := BLOCK_STATE_PREINIT\<rparr>), pt_main := MCancel\<rparr>"
      by (auto simp: ptrig_exec_def ptrig_cleanup_def)
    with inv True show ?thesis by (simp add: ptrig_inv_def is_active_def state_defs) (auto simp: inv_on_def)
  qed (use assms ECleanup in \<open>simp add: ptrig_exec_def\<close>)
qed (use assms thread_access_inv main_access_inv in \<open>auto simp: ptrig_exec_def\<close>)

lemma ptrig_run_inv: "ptrig_run E s0 es s \<Longrightarrow> ptrig_inv s0 \<Longrightarrow> ptrig_inv s"
  by (induction rule: ptrig_run.induct) (auto intro: ptrig_exec_inv)

lemma ptrig_init_inv:
  assumes "ptrig_init stack_min create b w = Some (r, Some s0, w')"
  shows "ptrig_inv s0" "r = 0" "pt_thread s0 = TLock" "pt_rounds s0 = 0"
proof -
  from assms obtain p w1 where "r = 0 \<and> s0 = \<lparr>pt_inf = Some \<lparr>pi_state = BLOCK_STATE_INACTIVE, pi_list = None, pi_list_len = 0,
      pi_period = p, pi_tstats = \<lparr>ts_min = TS 999999999 999999999, ts_max = TS 0 0, ts_total = TS 0 0, ts_cnt = 0\<rparr>,
      pi_port = None\<rparr>, pt_mutex = None, pt_cancel = False, pt_thread = TLock, pt_main = MIdle, pt_wake = TS 0 0,
      pt_begin = TS 0 0, pt_rounds = 0, pt_world = w1\<rparr>"
    by (auto simp: ptrig_init_def Let_def split: if_splits)
  then show "ptrig_inv s0" "r = 0" "pt_thread s0 = TLock" "pt_rounds s0 = 0"
    by (simp_all add: ptrig_inv_def is_active_def inv_on_def state_defs)
qed

subsection \<open>Stopping\<close>

text \<open>The thread has seen the state and goes on to a round.\<close>

definition committed :: "ptrig \<Rightarrow> nat" where
  "committed s = (if pt_thread s \<in> {TUnlock, TClock, TBegin} then 1 else 0)"

definition stopped :: "ptrig \<Rightarrow> bool" where
  "stopped s \<longleftrightarrow> \<not> is_active s \<and> pt_main s \<notin> {MStartLock, MStartSet} \<union> range MStartLen"

lemma stopped_thread:
  assumes "thread_access E ok s = Some s'" "stopped s"
  shows "stopped s' \<and> pt_rounds s' + committed s' \<le> pt_rounds s + committed s"
proof (cases "in_round (pt_thread s)")
  case True
  show ?thesis
  proof (cases "pt_cancel s \<and> \<not> ok")
    case c: True
    with assms(1) True have "s' = s\<lparr>pt_thread := TEnded\<rparr>" by (simp add: thread_access_round)
    with assms(2) show ?thesis by (simp add: stopped_def is_active_def committed_def)
  next
    case False
    with assms(1) True have t: "trigger_access E s = Some s'" by (simp add: thread_access_round)
    note f = trigger_access_frame [OF t True]
    then have sh: "same_shared s s'" and pc: "pt_thread s' \<noteq> TBegin" "in_round (pt_thread s') \<or> pt_thread s' = TSleep"
      and r: "pt_rounds s' = (if pt_thread s = TBegin then pt_rounds s + 1 else pt_rounds s)" by blast+
    from sh have "pt_main s' = pt_main s" by (simp add: same_shared_def)
    moreover from sh have "is_active s' = is_active s"
      by (cases "pt_inf s"; cases "pt_inf s'") (simp_all add: same_shared_def is_active_def)
    moreover from pc have "committed s' = 0" by (cases "pt_thread s'") (simp_all add: committed_def)
    moreover from r have "pt_rounds s' \<le> pt_rounds s + committed s"
      by (cases "pt_thread s = TBegin") (simp_all add: committed_def)
    ultimately show ?thesis using assms(2) by (simp add: stopped_def)
  qed
next
  case False
  from assms(1) False show ?thesis
    by (cases rule: thread_access_cases)
       (use assms(2) in \<open>auto simp: stopped_def is_active_def committed_def\<close>)
qed

lemma stopped_exec:
  assumes "ptrig_exec E ev s = Some s'" "stopped s" "ev \<noteq> EStart"
  shows "stopped s' \<and> pt_rounds s' + committed s' \<le> pt_rounds s + committed s"
proof (cases ev)
  case (EThread ok) with assms stopped_thread show ?thesis by (simp add: ptrig_exec_def)
next
  case EMain
  then have "main_access E s = Some s'" using assms(1) by (simp add: ptrig_exec_def)
  then show ?thesis
    by (cases rule: main_access_cases)
       (use assms(2) in \<open>auto simp: stopped_def is_active_def committed_def state_defs\<close>)
next
  case EStop with assms show ?thesis
    by (auto simp: ptrig_exec_def ptrig_stop_def stopped_def is_active_def committed_def split: if_splits)
next
  case ECleanup with assms show ?thesis
    by (auto simp: ptrig_exec_def ptrig_cleanup_def stopped_def is_active_def committed_def state_defs split: if_splits)
qed (use assms in simp)

lemma stopped_run:
  "ptrig_run E s es s' \<Longrightarrow> stopped s \<Longrightarrow> EStart \<notin> set es
   \<Longrightarrow> stopped s' \<and> pt_rounds s' + committed s' \<le> pt_rounds s + committed s"
proof (induction rule: ptrig_run.induct)
  case (pr_step es s1 ev s2)
  then have "stopped s1" "pt_rounds s1 + committed s1 \<le> pt_rounds s + committed s" "ev \<noteq> EStart" by auto
  with stopped_exec [OF pr_step.hyps(2)] show ?case by fastforce
qed simp

subsection \<open>Waking up\<close>

lemma ptrig_run_Cons:
  assumes "ptrig_run E s1 es s2" "ptrig_exec E ev s = Some s1"
  shows "ptrig_run E s (ev # es) s2"
  using assms(1)
proof induction
  case pr_init
  from pr_step [OF ptrig_run.pr_init assms(2)] show ?case by simp
next
  case (pr_step es t ev' t')
  from ptrig_run.pr_step [OF pr_step.IH pr_step.hyps(2)] show ?case by simp
qed

lemma ptrig_run_append:
  assumes "ptrig_run E s0 es s1" "ptrig_run E s1 es' s2"
  shows "ptrig_run E s0 (es @ es') s2"
  using assms(2)
proof induction
  case (pr_step es2 t ev t')
  from ptrig_run.pr_step [OF pr_step.IH pr_step.hyps(2)] show ?case by simp
qed (use assms(1) in simp)

text \<open>The thread alone begins a round within \<open>n\<close> accesses.\<close>

definition begins_within :: "ptrig_env \<Rightarrow> nat \<Rightarrow> ptrig \<Rightarrow> bool" where
  "begins_within E n s \<longleftrightarrow>
     (\<exists>m \<le> n. \<exists>s'. ptrig_run E s (replicate m (EThread True)) s' \<and> pt_rounds s' = pt_rounds s + 1)"

lemma begins_step:
  assumes "thread_access E True s = Some s1" "pt_rounds s1 = pt_rounds s" "begins_within E n s1"
  shows "begins_within E (Suc n) s"
proof -
  from assms(3) obtain m s' where m: "m \<le> n" "ptrig_run E s1 (replicate m (EThread True)) s'" "pt_rounds s' = pt_rounds s1 + 1"
    by (auto simp: begins_within_def)
  from assms(1) have "ptrig_exec E (EThread True) s = Some s1" by (simp add: ptrig_exec_def)
  from ptrig_run_Cons [OF m(2) this] m(1,3) assms(2) show ?thesis
    unfolding begins_within_def by (intro exI [of _ "Suc m"] conjI exI [of _ s']) simp_all
qed

lemma begins_mono: "begins_within E n s \<Longrightarrow> n \<le> n' \<Longrightarrow> begins_within E n' s"
  unfolding begins_within_def by (meson le_trans)

lemma begins_TBegin:
  assumes "pt_thread s = TBegin" "clock (pt_world s) = t # ts"
  shows "begins_within E 1 s"
proof -
  obtain s' where s': "thread_access E True s = Some s'" "pt_rounds s' = pt_rounds s + 1"
    using assms by (auto simp: thread_access_def read_clock_def)
  from s'(1) have "ptrig_exec E (EThread True) s = Some s'" by (simp add: ptrig_exec_def)
  from ptrig_run_Cons [OF pr_init this] s'(2) show ?thesis
    unfolding begins_within_def by (intro exI [of _ 1] conjI exI [of _ s']) simp_all
qed

lemma begins_TClock:
  assumes "pt_thread s = TClock" "clock (pt_world s) = t1 # t2 # ts"
  shows "begins_within E 2 s"
proof -
  from assms obtain s1 where "thread_access E True s = Some s1" "pt_rounds s1 = pt_rounds s" "pt_thread s1 = TBegin"
      "clock (pt_world s1) = t2 # ts"
    by (auto simp: thread_access_def read_clock_def)
  from begins_step [OF this(1,2) begins_TBegin [OF this(3,4)]] show ?thesis by (simp add: numeral_2_eq_2)
qed

lemma begins_TUnlock:
  assumes "pt_thread s = TUnlock" "clock (pt_world s) = t1 # t2 # ts"
  shows "begins_within E 3 s"
proof -
  from assms obtain s1 where "thread_access E True s = Some s1" "pt_rounds s1 = pt_rounds s" "pt_thread s1 = TClock"
      "clock (pt_world s1) = t1 # t2 # ts"
    by (auto simp: thread_access_def)
  from begins_step [OF this(1,2) begins_TClock [OF this(3,4)]] show ?thesis by (simp add: eval_nat_numeral)
qed

lemma begins_TCheck:
  assumes "pt_thread s = TCheck" "is_active s" "clock (pt_world s) = t1 # t2 # ts"
  shows "begins_within E 4 s"
proof -
  from assms obtain s1 where "thread_access E True s = Some s1" "pt_rounds s1 = pt_rounds s" "pt_thread s1 = TUnlock"
      "clock (pt_world s1) = t1 # t2 # ts"
    by (auto simp: thread_access_def is_active_def split: option.splits)
  from begins_step [OF this(1,2) begins_TUnlock [OF this(3,4)]] show ?thesis by (simp add: eval_nat_numeral)
qed

lemma begins_lock:
  assumes "pt_thread s \<in> {TLock, TRelock}" "pt_mutex s = None" "\<not> pt_cancel s" "is_active s"
    "clock (pt_world s) = t1 # t2 # ts"
  shows "begins_within E 5 s"
proof -
  from assms obtain s1 where "thread_access E True s = Some s1" "pt_rounds s1 = pt_rounds s" "pt_thread s1 = TCheck"
      "is_active s1" "clock (pt_world s1) = t1 # t2 # ts"
    by (auto simp: thread_access_def is_active_def)
  from begins_step [OF this(1,2) begins_TCheck [OF this(3-5)]] show ?thesis by (simp add: eval_nat_numeral)
qed

lemma begins_again:
  assumes "pt_thread s = TSleep" "pt_inf s = Some ti" "next_wake (pi_period ti) (pt_wake s) \<noteq> None"
    "pt_mutex s = None" "\<not> pt_cancel s" "is_active s" "clock (pt_world s) = t1 # t2 # ts"
  shows "begins_within E 6 s"
proof -
  from assms obtain s1 where "thread_access E True s = Some s1" "pt_rounds s1 = pt_rounds s" "pt_thread s1 \<in> {TLock, TRelock}"
      "pt_mutex s1 = None" "\<not> pt_cancel s1" "is_active s1" "clock (pt_world s1) = t1 # t2 # ts"
    by (auto simp: thread_access_def is_active_def)
  from begins_step [OF this(1,2) begins_lock [OF this(3-7)]] show ?thesis by (simp add: eval_nat_numeral)
qed

lemma active_begins:
  assumes inv: "ptrig_inv s" and act: "is_active s" "pt_main s = MIdle"
    and th: "\<not> in_round (pt_thread s)" "pt_thread s \<noteq> TEnded"
    and cl: "clock (pt_world s) = t1 # t2 # ts"
    and ti: "pt_inf s = Some ti" "next_wake (pi_period ti) (pt_wake s) \<noteq> None"
  shows "begins_within E 6 s"
proof -
  from inv act have c: "\<not> pt_cancel s" "pt_thread s \<noteq> TWait" "pt_mutex s \<noteq> Some AMain"
    unfolding ptrig_inv_def inv_on_def by auto
  have m: "pt_mutex s = None" if "pt_thread s \<in> {TLock, TRelock, TSleep}"
  proof (rule ccontr)
    assume "pt_mutex s \<noteq> None"
    with c(3) have "pt_mutex s = Some AThread" by (cases "pt_mutex s"; cases "the (pt_mutex s)") simp_all
    with inv that show False unfolding ptrig_inv_def inv_on_def by auto
  qed
  show ?thesis
  proof (cases "pt_thread s")
    case TLock
    then have "begins_within E 5 s" using m by (intro begins_lock [OF _ _ c(1) act(1) cl]) simp_all
    then show ?thesis by (rule begins_mono) simp
  next
    case TRelock
    then have "begins_within E 5 s" using m by (intro begins_lock [OF _ _ c(1) act(1) cl]) simp_all
    then show ?thesis by (rule begins_mono) simp
  next
    case TCheck from begins_TCheck [OF this act(1) cl] show ?thesis by (rule begins_mono) simp
  next
    case TUnlock from begins_TUnlock [OF this cl] show ?thesis by (rule begins_mono) simp
  next
    case TClock from begins_TClock [OF this cl] show ?thesis by (rule begins_mono) simp
  next
    case TSleep with begins_again [OF _ ti _ c(1) act(1) cl] m show ?thesis by simp
  qed (use th c in simp_all)
qed

subsection \<open>An instance\<close>

text \<open>The accesses in a row, to evaluate runs.\<close>

fun ptrig_execs :: "ptrig_env \<Rightarrow> ptrig_event list \<Rightarrow> ptrig \<Rightarrow> ptrig option" where
  "ptrig_execs E [] s = Some s"
| "ptrig_execs E (ev # es) s = do { s \<leftarrow> ptrig_exec E ev s; ptrig_execs E es s }"

lemma ptrig_execs_run: "ptrig_execs E es s = Some s' \<Longrightarrow> ptrig_run E s es s'"
proof (induction es arbitrary: s)
  case Nil then show ?case by (simp add: pr_init)
next
  case (Cons ev es)
  then obtain s1 where "ptrig_exec E ev s = Some s1" "ptrig_execs E es s1 = Some s'" by (auto split: bind_splits)
  with Cons.IH ptrig_run_Cons show ?case by blast
qed

definition ex_pt_config :: "string \<Rightarrow> nat \<Rightarrow> ubx_config" where
  "ex_pt_config nm n = \<lparr>c_name = nm, c_doc = None, c_type_name = ''char'', c_attrs = 0,
     c_value = \<lparr>d_type = None, d_len = 1, d_data = BLive (replicate n 0)\<rparr>\<rparr>"

definition ex_pt_port :: ubx_port where
  "ex_pt_port = \<lparr>p_name = ''tstats'', p_doc = None, p_attrs = 1, p_state = 0,
     in_type_name = None, out_type_name = Some ''struct ptrig_tstat'', in_type = None, out_type = None,
     in_data_len = 1, out_data_len = 1, in_interaction = None, out_interaction = None,
     stat_writes = 0, stat_reades = 0, p_block = Some 1\<rparr>"

definition ex_pt_world :: "priv world" where
  "ex_pt_world = \<lparr>node_name = None, blocks = [(''trig1'', 1)], types = [], modules = [], cur_seqid = 0,
     heap = [1 \<mapsto> \<lparr>b_name = ''trig1'', meta_data = None, b_type = BLOCK_TYPE_COMPUTATION, ports = Some [ex_pt_port],
       configs = Some (map2 ex_pt_config [''period'', ''stacksize'', ''sched_priority'', ''sched_policy'', ''thread_name'',
         ''trig_blocks''] [16, 8, 4, 12, 12, 16]),
       block_state = BLOCK_STATE_INACTIVE, prototype = Some ''std_triggers/ptrig'', b_ni = True, b_init = None,
       b_start = None, b_stop = None, b_cleanup = None, b_step = None, stat_num_steps = 0, b_read = None,
       b_write = None, stat_num_reads = 0, stat_num_writes = 0, private_data = None\<rparr>],
     theap = (\<lambda>_. None), datas = (\<lambda>_. None), next_addr = 2, mem = [], garbage = (\<lambda>_. 0), host = Little,
     clock = [TS 1 0, TS 2 0, TS 3 0, TS 4 0], rng_seed = 0, rng_count = 0\<rparr>"

lemmas ex_pt_defs = ex_pt_world_def ex_pt_config_def ex_pt_port_def

definition ex_pt_env :: ptrig_env where
  "ex_pt_env = \<lparr>pe_hooks = \<lparr>h_init = \<lambda>_ _ _. None, h_start = \<lambda>_ _ _. None, h_stop = \<lambda>_ _ _. None,
     h_cleanup = \<lambda>_ _ _. None, h_step = \<lambda>_ _ _. None, h_read = \<lambda>_ _ _ _. None, h_write = \<lambda>_ _ _ _. None\<rparr>,
     pe_dec = (\<lambda>_ _. None), pe_enc = (\<lambda>_. []), pe_block = 1\<rparr>"

definition ex_pt :: ptrig where
  "ex_pt = \<lparr>pt_inf = Some \<lparr>pi_state = BLOCK_STATE_INACTIVE, pi_list = None, pi_list_len = 0,
       pi_period = \<lparr>pp_sec = 0, pp_usec = 0\<rparr>,
       pi_tstats = \<lparr>ts_min = TS 999999999 999999999, ts_max = TS 0 0, ts_total = TS 0 0, ts_cnt = 0\<rparr>, pi_port = None\<rparr>,
     pt_mutex = None, pt_cancel = False, pt_thread = TLock, pt_main = MIdle, pt_wake = TS 0 0, pt_begin = TS 0 0,
     pt_rounds = 0, pt_world = ex_pt_world\<rparr>"

lemma ex_pt_configs:
  "config_bytes ex_pt_world 1 ''period'' = Some (replicate 16 0, 1)"
  "config_bytes ex_pt_world 1 ''stacksize'' = Some (replicate 8 0, 1)"
  "config_bytes ex_pt_world 1 ''sched_priority'' = Some (replicate 4 0, 1)"
  "config_bytes ex_pt_world 1 ''sched_policy'' = Some (replicate 12 0, 1)"
  "config_bytes ex_pt_world 1 ''thread_name'' = Some (replicate 12 0, 1)"
  by (simp_all add: config_bytes_def ubx_config_get_data_ptr_def ubx_config_get_data_def ubx_config_get_def
      config_at_def ex_pt_defs)

lemma native32_zero: "native32 e (replicate (Suc (Suc (Suc (Suc n)))) 0) = Some 0"
  by (cases e) (simp_all add: native32_def le_word_def)

lemma ex_pt_init: "ptrig_init 16384 (\<lambda>_. 0) 1 ex_pt_world = Some (0, Some ex_pt, ex_pt_world)"
proof -
  have w: "alloc_ok ex_pt_world" "alloc_step ex_pt_world = ex_pt_world"
    by (simp_all add: alloc_ok_def alloc_step_def ex_pt_world_def)
  have n: "native32 e (replicate 8 0) = Some 0" "native32 e (replicate 4 0) = Some 0" for e
    using native32_zero [of e 4] native32_zero [of e 0] by (simp_all add: eval_nat_numeral)
  have q: "native64 e (replicate 8 0) = Some 0" for e
    using n(2) by (cases e) (simp_all add: native64_def)
  have z: "strn_eq (replicate 12 0) (literal []) 1 = Some True" by (simp add: literal_def eval_nat_numeral)
  have p: "sched_policy_of (replicate 12 0) 1 = Some SCHED_OTHER"
    using z by (simp add: sched_policy_of_def literal_def eval_nat_numeral)
  show ?thesis by (simp add: ptrig_init_def w ptrig_handle_config_def ex_pt_configs n q z p ex_pt_def Let_def del: One_nat_def)
qed

lemma ex_pt_start:
  "ubx_config_get_data ex_pt_world (Some 1) (Some ''trig_blocks'') = Some (Some (1, 5))"
  "\<exists>c. config_at ex_pt_world (1, 5) = Some c"
  "ubx_port_get ex_pt_world (Some 1) (Some ''tstats'') = Some (Some (1, 0))"
  "clock ex_pt_world = [TS 1 0, TS 2 0, TS 3 0, TS 4 0]"
  by (simp_all add: ubx_config_get_data_def ubx_config_get_def ubx_port_get_def config_at_def ex_pt_defs)

text \<open>The instance after a start, and that with its thread before its first round.\<close>

definition ex_pt_started :: ptrig where
  "ex_pt_started = the (ptrig_execs ex_pt_env [EStart, EMain, EMain, EMain, EMain, EMain] ex_pt)"

lemma ex_pt_started:
  "ptrig_run ex_pt_env ex_pt [EStart, EMain, EMain, EMain, EMain, EMain] ex_pt_started"
  "is_active ex_pt_started \<and> pt_main ex_pt_started = MIdle \<and> pt_thread ex_pt_started = TLock
    \<and> pt_mutex ex_pt_started = None \<and> pt_world ex_pt_started = ex_pt_world \<and> pt_rounds ex_pt_started = 0
    \<and> pt_wake ex_pt_started = TS 0 0 \<and> map_option pi_period (pt_inf ex_pt_started) = Some \<lparr>pp_sec = 0, pp_usec = 0\<rparr>"
proof -
  obtain c where c: "config_at ex_pt_world (1, 5) = Some c" using ex_pt_start(2) by blast
  have "\<exists>s. ptrig_execs ex_pt_env [EStart, EMain, EMain, EMain, EMain, EMain] ex_pt = Some s
    \<and> is_active s \<and> pt_main s = MIdle \<and> pt_thread s = TLock \<and> pt_mutex s = None \<and> pt_world s = ex_pt_world \<and> pt_rounds s = 0
    \<and> pt_wake s = TS 0 0 \<and> map_option pi_period (pt_inf s) = Some \<lparr>pp_sec = 0, pp_usec = 0\<rparr>"
    by (simp add: ex_pt_def ex_pt_env_def ptrig_exec_def ptrig_start_def main_access_def ex_pt_start c is_active_def
        state_defs del: One_nat_def)
  then obtain s where "ptrig_execs ex_pt_env [EStart, EMain, EMain, EMain, EMain, EMain] ex_pt = Some s"
    "is_active s \<and> pt_main s = MIdle \<and> pt_thread s = TLock \<and> pt_mutex s = None \<and> pt_world s = ex_pt_world \<and> pt_rounds s = 0
    \<and> pt_wake s = TS 0 0 \<and> map_option pi_period (pt_inf s) = Some \<lparr>pp_sec = 0, pp_usec = 0\<rparr>"
    by blast
  note s = this
  then have e: "ex_pt_started = s" unfolding ex_pt_started_def by (simp only: option.sel)
  show "ptrig_run ex_pt_env ex_pt [EStart, EMain, EMain, EMain, EMain, EMain] ex_pt_started"
    unfolding e by (rule ptrig_execs_run [OF s(1)])
  show "is_active ex_pt_started \<and> pt_main ex_pt_started = MIdle \<and> pt_thread ex_pt_started = TLock
    \<and> pt_mutex ex_pt_started = None \<and> pt_world ex_pt_started = ex_pt_world \<and> pt_rounds ex_pt_started = 0
    \<and> pt_wake ex_pt_started = TS 0 0 \<and> map_option pi_period (pt_inf ex_pt_started) = Some \<lparr>pp_sec = 0, pp_usec = 0\<rparr>"
    unfolding e by (rule s(2))
qed

subsection \<open>Properties of the trigger\<close>

text \<open>C33: In every interleaving of the trigger's thread with the calls of its hooks, from its
  creation on, the private data is freed only when the thread has ended, the two are never inside
  the critical section together, and the thread does not sleep on a block that was started.\<close>

theorem ptrig_thread_safe:
  assumes "ptrig_init stack_min create b w = Some (r, Some s0, w')" "ptrig_run E s0 es s"
  shows "(pt_inf s = None \<longrightarrow> pt_thread s = TEnded \<and> thread_access E ok s = Some s)
    \<and> \<not> (pt_main s \<in> {MStartSet, MStartUnlock, MStopSet, MStopUnlock} \<and> pt_thread s \<in> {TCheck, TUnlock})
    \<and> (is_active s \<and> pt_thread s = TWait \<longrightarrow> pt_cancel s)"
proof -
  have inv: "ptrig_inv s" by (rule ptrig_run_inv [OF assms(2) ptrig_init_inv(1) [OF assms(1)]])
  then have "pt_inf s = None \<longrightarrow> pt_thread s = TEnded" "is_active s \<and> pt_thread s = TWait \<longrightarrow> pt_cancel s"
    "pt_main s \<in> {MStartSet, MStartUnlock, MStopSet, MStopUnlock} \<longrightarrow> pt_mutex s = Some AMain"
    unfolding ptrig_inv_def inv_on_def by auto
  moreover from this(1) have "pt_inf s = None \<longrightarrow> thread_access E ok s = Some s" by (auto simp: thread_access_def)
  ultimately show ?thesis using held_by_main [OF inv] by blast
qed

theorem ptrig_thread_safe_witness:
  "\<exists>s. ptrig_run ex_pt_env ex_pt [ECleanup, EMain, EThread True, EThread True, EThread True, EMain, EMain] s
    \<and> pt_inf s = None \<and> pt_thread s = TEnded"
proof -
  let ?es = "[ECleanup, EMain, EThread True, EThread True, EThread True, EMain, EMain]"
  have "\<exists>s. ptrig_execs ex_pt_env ?es ex_pt = Some s \<and> pt_inf s = None"
    by (simp add: ex_pt_def ptrig_exec_def ptrig_cleanup_def main_access_def thread_access_def state_defs)
  then obtain s where s: "ptrig_run ex_pt_env ex_pt ?es s" "pt_inf s = None" by (blast dest: ptrig_execs_run)
  from ptrig_thread_safe [OF ex_pt_init s(1)] s show ?thesis by blast
qed

text \<open>C34: Once a stop has set the state, and until the block is started again, the thread begins at
  most one more round in any interleaving, and none unless it had left the critical section for
  a round when the state was set.\<close>

theorem ptrig_after_stop:
  assumes "ptrig_init stack_min create b w = Some (r, Some s0, w')" "ptrig_run E s0 es s"
    and "pt_main s = MStopSet" "ptrig_exec E EMain s = Some s1"
    and "ptrig_run E s1 es' s2" "EStart \<notin> set es'"
  shows "pt_rounds s2 \<le> pt_rounds s + 1 \<and> (pt_thread s \<notin> {TClock, TBegin} \<longrightarrow> pt_rounds s2 \<le> pt_rounds s)"
proof -
  have inv: "ptrig_inv s" by (rule ptrig_run_inv [OF assms(2) ptrig_init_inv(1) [OF assms(1)]])
  with assms(3) have "pt_mutex s = Some AMain" by (simp add: ptrig_inv_def inv_on_def)
  from held_by_main(2) [OF inv this] have c: "committed s = (if pt_thread s \<in> {TClock, TBegin} then 1 else 0)"
    by (simp add: committed_def)
  from assms(3,4) have "stopped s1" "committed s1 = committed s" "pt_rounds s1 = pt_rounds s"
    by (auto simp: ptrig_exec_def main_access_def stopped_def is_active_def committed_def state_defs)
  with stopped_run [OF assms(5) _ assms(6)] c show ?thesis by (auto split: if_splits)
qed

theorem ptrig_after_stop_witness:
  "\<exists>es s s1 s2. ptrig_run ex_pt_env ex_pt es s \<and> ptrig_exec ex_pt_env EMain s = Some s1
    \<and> ptrig_run ex_pt_env s1 [EThread True] s2 \<and> pt_rounds s = 0 \<and> pt_rounds s2 = 1"
proof -
  let ?es = "[EThread True, EThread True, EThread True, EThread True, EStop, EMain]"
  let ?all = "[EStart, EMain, EMain, EMain, EMain, EMain] @ ?es"
  obtain ti where ti: "pt_inf ex_pt_started = Some ti" "pi_state ti = BLOCK_STATE_ACTIVE"
    using ex_pt_started(2) by (auto simp: is_active_def split: option.splits)
  have "\<exists>s s1 s2. ptrig_execs ex_pt_env ?es ex_pt_started = Some s \<and> pt_main s = MStopSet \<and> pt_rounds s = 0
      \<and> ptrig_exec ex_pt_env EMain s = Some s1 \<and> ptrig_execs ex_pt_env [EThread True] s1 = Some s2 \<and> pt_rounds s2 = 1"
    by (simp add: ptrig_exec_def ptrig_stop_def main_access_def thread_access_def ex_pt_started(2) ti ex_pt_start(4)
        read_clock_def)
  then obtain s s1 s2 where s: "ptrig_execs ex_pt_env ?es ex_pt_started = Some s" "pt_main s = MStopSet" "pt_rounds s = 0"
      "ptrig_exec ex_pt_env EMain s = Some s1" "ptrig_run ex_pt_env s1 [EThread True] s2" "pt_rounds s2 = 1"
    by (blast dest: ptrig_execs_run)
  from ptrig_run_append [OF ex_pt_started(1) ptrig_execs_run [OF s(1)]]
  have r: "ptrig_run ex_pt_env ex_pt ?all s" .
  from ptrig_after_stop [OF ex_pt_init r s(2,4,5)] r s show ?thesis by auto
qed

text \<open>C35: No start is lost: in every reachable state of an active block with no call in progress, the
  thread alone, unless it has ended or is in a round already, begins a round within six accesses,
  provided that the clock answers and the next wake-up time is representable.\<close>

theorem ptrig_wakes:
  assumes "ptrig_init stack_min create b w = Some (r, Some s0, w')" "ptrig_run E s0 es s"
    and "is_active s" "pt_main s = MIdle" "\<not> in_round (pt_thread s)" "pt_thread s \<noteq> TEnded"
    and "clock (pt_world s) = t1 # t2 # ts"
    and "pt_inf s = Some ti" "next_wake (pi_period ti) (pt_wake s) \<noteq> None"
  shows "\<exists>m \<le> 6. \<exists>s'. ptrig_run E s (replicate m (EThread True)) s' \<and> pt_rounds s' = pt_rounds s + 1"
proof -
  have "ptrig_inv s" by (rule ptrig_run_inv [OF assms(2) ptrig_init_inv(1) [OF assms(1)]])
  from active_begins [OF this assms(3-9)] show ?thesis by (simp add: begins_within_def)
qed

theorem ptrig_wakes_witness:
  "\<exists>m \<le> 6. \<exists>s'. ptrig_run ex_pt_env ex_pt_started (replicate m (EThread True)) s' \<and> pt_rounds s' = 1"
proof -
  obtain ti where ti: "pt_inf ex_pt_started = Some ti" using ex_pt_started(2)
    by (auto simp: is_active_def split: option.splits)
  have wake: "next_wake (pi_period ti) (pt_wake ex_pt_started) \<noteq> None"
    using ex_pt_started(2) ti by (simp add: next_wake_def tsnorm_def NSEC_PER_USEC_def NSEC_PER_SEC_def)
  have "clock (pt_world ex_pt_started) = TS 1 0 # TS 2 0 # [TS 3 0, TS 4 0]"
    by (simp add: ex_pt_started(2) ex_pt_start(4))
  from ptrig_wakes [OF ex_pt_init ex_pt_started(1) _ _ _ _ this ti wake] ex_pt_started(2) show ?thesis by simp
qed

end
