(* ===== verification/MqueueBlock.thy ===== *)
theory MqueueBlock
  imports StdPriv
begin

text \<open>
  The interactions \<open>src/std_blocks/mqueue/mqueue.c\<close> and \<open>mqueue_raw.c\<close>, which pass data through a
  POSIX message queue. The queues are the operating system's: the functions of \<open>mqueue.h\<close> are
  the record \<open>mq_sys\<close>, over a state of the system that is left open. What is documented of them
  (\<open>mq_overview(7)\<close>) is the hypothesis \<open>mq_documented\<close>. A block's private data stands beside the
  node's state.
\<close>

subsection \<open>The system's message queues\<close>

text \<open>
  A call that fails yields its error number. Opening takes the name, the number of messages and
  their size; a descriptor below 0 comes with the error number.
\<close>

record 'm mq_sys =
  mq_open :: "string \<Rightarrow> int \<Rightarrow> int \<Rightarrow> 'm \<Rightarrow> (int \<times> int) \<times> 'm"
  mq_close :: "int \<Rightarrow> 'm \<Rightarrow> int option \<times> 'm"
  mq_unlink :: "string \<Rightarrow> 'm \<Rightarrow> int option \<times> 'm"
  mq_send :: "int \<Rightarrow> u8 list \<Rightarrow> nat \<Rightarrow> 'm \<Rightarrow> int option \<times> 'm"
  mq_receive :: "int \<Rightarrow> u64 \<Rightarrow> 'm \<Rightarrow> (int + u8 list) \<times> 'm"

record 'm mq_os =
  os_sys :: 'm
  os_errno :: int

definition EAGAIN :: int where "EAGAIN = 11"

definition EMSGSIZE :: int where "EMSGSIZE = 90"

text \<open>
  What is documented of an open queue with room for \<open>cap\<close> messages of at most \<open>sz\<close> bytes that holds \<open>ms\<close>,
  for messages of one priority and a descriptor that does not block.
\<close>

definition mq_documented :: "'m mq_sys \<Rightarrow> ('m \<Rightarrow> int \<Rightarrow> (nat \<times> nat \<times> u8 list list) option) \<Rightarrow> bool" where
  "mq_documented S Q \<longleftrightarrow>
     (\<forall>m fd cap sz ms. Q m fd = Some (cap, sz, ms) \<longrightarrow>
        (\<forall>bs. case mq_send S fd bs 1 m of (r, m') \<Rightarrow>
           if length bs \<le> sz \<and> length ms < cap then r = None \<and> Q m' fd = Some (cap, sz, ms @ [bs])
           else r \<noteq> None \<and> Q m' fd = Some (cap, sz, ms))
        \<and> (\<forall>n. case mq_receive S fd n m of (r, m') \<Rightarrow>
             if unat n < sz then isl r \<and> Q m' fd = Some (cap, sz, ms)
             else case ms of [] \<Rightarrow> r = Inl EAGAIN \<and> Q m' fd = Some (cap, sz, ms)
                  | x # xs \<Rightarrow> r = Inr x \<and> Q m' fd = Some (cap, sz, xs)))"

subsection \<open>The typed queue\<close>

record mqueue_info =
  mq_mqd :: int
  mq_name :: string
  mq_type :: "addr option"
  mq_data_len :: u64
  mq_buffer_len :: u64
  mq_send_err :: u64
  mq_recv_err :: u64

definition config64 :: "priv world \<Rightarrow> addr \<Rightarrow> string \<Rightarrow> u64 option" where
  "config64 w i name = do {
     (p, len) \<leftarrow> ubx_config_get_data_ptr w (Some i) (Some name);
     bs \<leftarrow> mem_read p 0 8;
     native64 (host w) bs }"

text \<open>
  The number of messages is read as an \<open>unsigned long\<close>, though its configuration is a \<open>uint32_t\<close>. The
  type is dereferenced before it is compared with NULL.
\<close>

definition mqueue_init ::
    "'m mq_sys \<Rightarrow> addr \<Rightarrow> priv world \<Rightarrow> 'm mq_os \<Rightarrow> (int \<times> mqueue_info option \<times> priv world \<times> 'm mq_os) option" where
  "mqueue_init S i w os =
     (if \<not> alloc_ok w then Some (EOUTOFMEM, None, alloc_step w, os)
      else do {
        let w = alloc_step w;
        buffer_len \<leftarrow> config64 w i ''buffer_len'';
        if buffer_len = 0 then Some (EINVALID_CONFIG, None, w, os)
        else do {
          data_len \<leftarrow> config32 w i ''data_len'';
          let data_len = (if data_len = 0 then 1 else ucast data_len);
          (tn, len) \<leftarrow> ubx_config_get_data_ptr w (Some i) (Some ''type_name'');
          if tn = BNull \<or> len = 0 then Some (-1, None, w, os)
          else do {
            tname \<leftarrow> c_string tn;
            t \<leftarrow> ubx_type_get w tname;
            ty \<leftarrow> theap w t;
            let msgsize = sint (data_len * ty_size ty);
            (nm, _) \<leftarrow> ubx_config_get_data_ptr w (Some i) (Some ''mq_name'');
            name \<leftarrow> c_string nm;
            if name = [] \<or> hd name \<noteq> CHR ''/'' then Some (-1, None, w, os)
            else if msgsize \<le> 0 then Some (-1, None, alloc_step w, os)
            else do {
              guard (alloc_ok w);
              let ((fd, e), m) = mq_open S name (sint buffer_len) msgsize (os_sys os);
              if fd < 0 then Some (-1, None, alloc_step w, os\<lparr>os_sys := m, os_errno := e\<rparr>)
              else Some (0, Some \<lparr>mq_mqd = fd, mq_name = name, mq_type = Some t, mq_data_len = data_len,
                               mq_buffer_len = buffer_len, mq_send_err = 0, mq_recv_err = 0\<rparr>,
                         alloc_step w, os\<lparr>os_sys := m\<rparr>) } } } })"

definition set_errno :: "int option \<Rightarrow> 'm mq_os \<Rightarrow> 'm mq_os" where
  "set_errno r os = (case r of None \<Rightarrow> os | Some e \<Rightarrow> os\<lparr>os_errno := e\<rparr>)"

definition mq_destroy :: "'m mq_sys \<Rightarrow> int \<Rightarrow> string \<Rightarrow> 'm mq_os \<Rightarrow> 'm mq_os" where
  "mq_destroy S fd name os =
     (let (r1, m1) = mq_close S fd (os_sys os);
          (r2, m2) = mq_unlink S name m1
      in set_errno r2 (set_errno r1 (os\<lparr>os_sys := m2\<rparr>)))"

definition mqueue_cleanup :: "'m mq_sys \<Rightarrow> mqueue_info \<Rightarrow> 'm mq_os \<Rightarrow> 'm mq_os" where
  "mqueue_cleanup S mqi os = mq_destroy S (mq_mqd mqi) (mq_name mqi) os"

text \<open>
  The size is an \<open>int\<close> that is extended for the call. The error number of a call that received a
  message is that of an earlier one.
\<close>

definition mqueue_read ::
    "'m mq_sys \<Rightarrow> mqueue_info \<Rightarrow> ubx_data \<Rightarrow> 'p world \<Rightarrow> 'm mq_os \<Rightarrow> (int \<times> ubx_data \<times> mqueue_info \<times> 'm mq_os) option" where
  "mqueue_read S mqi data w os = do {
     size \<leftarrow> data_size w (Some data);
     let (r, m) = mq_receive S (mq_mqd mqi) (scast size) (os_sys os);
     let os = set_errno (case r of Inl e \<Rightarrow> Some e | Inr _ \<Rightarrow> None) (os\<lparr>os_sys := m\<rparr>);
     let (ret, msg) = (case r of Inl e \<Rightarrow> (-1, []) | Inr msg \<Rightarrow> (word_of_int (int (length msg)) :: u32, msg));
     dat \<leftarrow> (if isl r then Some (d_data data) else mem_write (d_data data) 0 msg);
     let data = data\<lparr>d_data := dat\<rparr>;
     if sint ret \<le> 0 \<and> os_errno os \<noteq> EAGAIN then Some (sint ret, data, mqi\<lparr>mq_recv_err := mq_recv_err mqi + 1\<rparr>, os)
     else if sint ret \<le> 0 then Some (0, data, mqi, os)
     else do {
       t \<leftarrow> d_type data;
       ty \<leftarrow> theap w t;
       guard (ty_size ty \<noteq> 0);
       Some (sint (ucast (scast ret div ty_size ty) :: u32), data, mqi, os) } }"

definition mqueue_write ::
    "'m mq_sys \<Rightarrow> mqueue_info \<Rightarrow> ubx_data \<Rightarrow> 'p world \<Rightarrow> 'm mq_os \<Rightarrow> (mqueue_info \<times> 'm mq_os) option" where
  "mqueue_write S mqi data w os =
     (if mq_type mqi \<noteq> d_type data then do {
        t \<leftarrow> d_type data;
        _ \<leftarrow> theap w t;
        Some (mqi, os) }
      else do {
        size \<leftarrow> data_size w (Some data);
        bs \<leftarrow> mem_read (d_data data) 0 (unat (scast size :: u64));
        let (r, m) = mq_send S (mq_mqd mqi) bs 1 (os_sys os);
        Some (if r = None then mqi else mqi\<lparr>mq_send_err := mq_send_err mqi + 1\<rparr>,
              set_errno r (os\<lparr>os_sys := m\<rparr>)) })"

definition mqueue_mod_init :: "addr \<Rightarrow> priv world \<Rightarrow> (int \<times> priv world) option" where
  "mqueue_mod_init blk w = ubx_block_register w blk"

definition mqueue_mod_cleanup :: "priv world \<Rightarrow> priv world" where
  "mqueue_mod_cleanup w = snd (ubx_block_unregister w ''mqueue'')"

subsection \<open>The raw queue\<close>

record mqraw_info =
  mr_mqd :: int
  mr_name :: string
  mr_send_err :: u64
  mr_recv_err :: u64

definition mqraw_init ::
    "'m mq_sys \<Rightarrow> addr \<Rightarrow> priv world \<Rightarrow> 'm mq_os \<Rightarrow> (int \<times> mqraw_info option \<times> priv world \<times> 'm mq_os) option" where
  "mqraw_init S i w os =
     (if \<not> alloc_ok w then Some (EOUTOFMEM, None, alloc_step w, os)
      else do {
        let w = alloc_step w;
        (nm, _) \<leftarrow> ubx_config_get_data_ptr w (Some i) (Some ''mq_name'');
        name \<leftarrow> c_string nm;
        if name = [] \<or> hd name \<noteq> CHR ''/'' then Some (-1, None, w, os)
        else do {
          let ok = alloc_ok w;
          let w = alloc_step w;
          maxmsg \<leftarrow> config32 w i ''mq_maxmsg'';
          if maxmsg = 0 then Some (-1, None, w, os)
          else do {
            msgsize \<leftarrow> config32 w i ''mq_msgsize'';
            if msgsize = 0 then Some (-1, None, w, os)
            else do {
              guard ok;
              let ((fd, e), m) = mq_open S name (uint maxmsg) (uint msgsize) (os_sys os);
              if fd < 0 then Some (-1, None, w, os\<lparr>os_sys := m, os_errno := e\<rparr>)
              else Some (0, Some \<lparr>mr_mqd = fd, mr_name = name, mr_send_err = 0, mr_recv_err = 0\<rparr>,
                         w, os\<lparr>os_sys := m\<rparr>) } } } })"

definition mqraw_cleanup :: "'m mq_sys \<Rightarrow> mqraw_info \<Rightarrow> 'm mq_os \<Rightarrow> 'm mq_os" where
  "mqraw_cleanup S mqi os = mq_destroy S (mr_mqd mqi) (mr_name mqi) os"

definition mqraw_read ::
    "'m mq_sys \<Rightarrow> mqraw_info \<Rightarrow> ubx_data \<Rightarrow> 'p world \<Rightarrow> 'm mq_os \<Rightarrow> (int \<times> ubx_data \<times> mqraw_info \<times> 'm mq_os) option" where
  "mqraw_read S mqi data w os = do {
     size \<leftarrow> data_size w (Some data);
     let (r, m) = mq_receive S (mr_mqd mqi) (scast size) (os_sys os);
     let os = set_errno (case r of Inl e \<Rightarrow> Some e | Inr _ \<Rightarrow> None) (os\<lparr>os_sys := m\<rparr>);
     let (ret, msg) = (case r of Inl e \<Rightarrow> (-1, []) | Inr msg \<Rightarrow> (word_of_int (int (length msg)) :: u32, msg));
     dat \<leftarrow> (if isl r then Some (d_data data) else mem_write (d_data data) 0 msg);
     Some (0, data\<lparr>d_data := dat\<rparr>,
           if sint ret \<le> 0 \<and> os_errno os \<noteq> EAGAIN then mqi\<lparr>mr_recv_err := mr_recv_err mqi + 1\<rparr> else mqi, os) }"

text \<open>The type is not checked.\<close>

definition mqraw_write ::
    "'m mq_sys \<Rightarrow> mqraw_info \<Rightarrow> ubx_data \<Rightarrow> 'p world \<Rightarrow> 'm mq_os \<Rightarrow> (mqraw_info \<times> 'm mq_os) option" where
  "mqraw_write S mqi data w os = do {
     size \<leftarrow> data_size w (Some data);
     bs \<leftarrow> mem_read (d_data data) 0 (unat (scast size :: u64));
     let (r, m) = mq_send S (mr_mqd mqi) bs 1 (os_sys os);
     Some (if r = None then mqi else mqi\<lparr>mr_send_err := mr_send_err mqi + 1\<rparr>,
           set_errno r (os\<lparr>os_sys := m\<rparr>)) }"

definition mqraw_mod_init :: "addr \<Rightarrow> priv world \<Rightarrow> (int \<times> priv world) option" where
  "mqraw_mod_init blk w = ubx_block_register w blk"

definition mqraw_mod_cleanup :: "priv world \<Rightarrow> priv world" where
  "mqraw_mod_cleanup w = snd (ubx_block_unregister w ''mqueue'')"

subsection \<open>Series of messages\<close>

fun mqueue_writes ::
    "'m mq_sys \<Rightarrow> 'p world \<Rightarrow> ubx_data list \<Rightarrow> mqueue_info \<Rightarrow> 'm mq_os \<Rightarrow> (mqueue_info \<times> 'm mq_os) option" where
  "mqueue_writes S w [] mqi os = Some (mqi, os)"
| "mqueue_writes S w (d # ds) mqi os = do {
     (mqi, os) \<leftarrow> mqueue_write S mqi d w os;
     mqueue_writes S w ds mqi os }"

text \<open>Reading \<open>n\<close> times into the same buffer: what is returned, and the data.\<close>

fun mqueue_reads ::
    "'m mq_sys \<Rightarrow> 'p world \<Rightarrow> nat \<Rightarrow> ubx_data \<Rightarrow> mqueue_info \<Rightarrow> 'm mq_os \<Rightarrow> ((int \<times> cbuf) list \<times> mqueue_info \<times> 'm mq_os) option" where
  "mqueue_reads S w 0 data mqi os = Some ([], mqi, os)"
| "mqueue_reads S w (Suc n) data mqi os = do {
     (r, data, mqi, os) \<leftarrow> mqueue_read S mqi data w os;
     (rs, mqi, os) \<leftarrow> mqueue_reads S w n data mqi os;
     Some ((r, d_data data) # rs, mqi, os) }"

text \<open>A message of \<open>k\<close> elements of the type \<open>t\<close> of size \<open>sz\<close>.\<close>

definition message_of :: "'p world \<Rightarrow> addr \<Rightarrow> u64 \<Rightarrow> u64 \<Rightarrow> ubx_data \<Rightarrow> u8 list \<Rightarrow> bool" where
  "message_of w t k sz d bs \<longleftrightarrow>
     d_type d = Some t \<and> (\<exists>ty. theap w t = Some ty \<and> ty_size ty = sz) \<and> d_len d = k
     \<and> d_data d = BLive bs \<and> length bs = unat k * unat sz \<and> 0 < unat k * unat sz \<and> unat k * unat sz < 2 ^ 31"

lemma small_int:
  assumes "n < 2 ^ 31"
  shows "sint (of_nat n :: u32) = int n" "(scast (of_nat n :: u32) :: u64) = of_nat n"
    "(ucast (of_nat n :: u64) :: u32) = of_nat n" "unat (of_nat n :: u64) = n"
proof -
  have "(of_nat n :: u32) = word_of_int (int n)" by simp
  then show s: "sint (of_nat n :: u32) = int n"
    using assms by (simp only: sint_sbintrunc') (simp add: signed_take_bit_int_eq_self)
  show "(scast (of_nat n :: u32) :: u64) = of_nat n" unfolding scast_eq s by simp
  show "(ucast (of_nat n :: u64) :: u32) = of_nat n" using assms by (simp add: unsigned_of_nat take_bit_nat_eq_self)
  show "unat (of_nat n :: u64) = n" using assms by (simp add: unsigned_of_nat take_bit_nat_eq_self)
qed

lemma message_length:
  assumes "message_of w t k sz d bs"
  shows "length bs = unat k * unat sz" "0 < length bs" "length bs < 2 ^ 31" "sz \<noteq> 0"
    "k * sz = of_nat (length bs)" "of_nat (length bs) div sz = k"
proof -
  show l: "length bs = unat k * unat sz" "0 < length bs" "length bs < 2 ^ 31" using assms by (simp_all add: message_of_def)
  then have z: "unat sz \<noteq> 0" by auto
  then show "sz \<noteq> 0" by auto
  show kz: "k * sz = of_nat (length bs)" by (simp add: l(1))
  have "unat (of_nat (length bs) div sz) = unat k * unat sz div unat sz"
    by (simp add: unat_div small_int(4) [OF l(3)] l(1) [symmetric])
  with z show "of_nat (length bs) div sz = k" by (simp add: word_unat_eq_iff)
qed

lemma message_size:
  assumes "message_of w t k sz d bs"
  shows "data_size w (Some d) = Some (of_nat (length bs))"
proof -
  have "(ucast (k * sz) :: u32) = of_nat (length bs)"
    unfolding message_length(5) [OF assms] by (rule small_int(3) [OF message_length(3) [OF assms]])
  with assms show ?thesis by (auto simp: data_size_def message_of_def)
qed

lemma mqueue_write_message:
  assumes "message_of w t k sz d bs" "mq_type mqi = Some t"
  shows "mqueue_write S mqi d w os =
    (let (r, m) = mq_send S (mq_mqd mqi) bs 1 (os_sys os)
     in Some (if r = None then mqi else mqi\<lparr>mq_send_err := mq_send_err mqi + 1\<rparr>, set_errno r (os\<lparr>os_sys := m\<rparr>)))"
proof -
  have "d_data d = BLive bs" "d_type d = Some t" using assms(1) by (simp_all add: message_of_def)
  moreover have "unat (scast (of_nat (length bs) :: u32) :: u64) = length bs"
    using message_length(3) [OF assms(1)] by (simp only: small_int)
  ultimately show ?thesis using assms(2) message_size [OF assms(1)]
    by (simp add: mqueue_write_def mem_read_def del: of_nat_mult)
qed

lemma set_errno_sys [simp]: "os_sys (set_errno r os) = os_sys os"
  by (cases r) (simp_all add: set_errno_def)

lemma mqueue_writes_queue:
  assumes "mq_documented S Q"
    and "list_all2 (message_of w t k sz) ds bss" "mq_type mqi = Some t"
    and "Q (os_sys os) (mq_mqd mqi) = Some (cap, unat k * unat sz, ms)"
  shows "\<exists>mqi' os'. mqueue_writes S w ds mqi os = Some (mqi', os')
    \<and> mqi' = mqi\<lparr>mq_send_err := mq_send_err mqi + of_nat (length ds - (cap - length ms))\<rparr>
    \<and> Q (os_sys os') (mq_mqd mqi) = Some (cap, unat k * unat sz, ms @ take (cap - length ms) bss)"
  using assms(2-4)
proof (induction ds bss arbitrary: mqi os ms rule: list_all2_induct)
  case Nil then show ?case by simp
next
  case (Cons d ds bs bss)
  obtain r m where r: "mq_send S (mq_mqd mqi) bs 1 (os_sys os) = (r, m)" by fastforce
  note doc = assms(1) [unfolded mq_documented_def, rule_format, OF Cons.prems(2), THEN conjunct1, rule_format, of bs]
  note len = message_length(1) [OF Cons.hyps(1)]
  note w1 = mqueue_write_message [OF Cons.hyps(1) Cons.prems(1), of S os, unfolded r]
  show ?case
  proof (cases "length ms < cap")
    case True
    with doc r len have m: "r = None" "Q m (mq_mqd mqi) = Some (cap, unat k * unat sz, ms @ [bs])" by simp_all
    let ?os = "os\<lparr>os_sys := m\<rparr>"
    from Cons.IH [of mqi ?os "ms @ [bs]"] Cons.prems(1) m obtain mqi' os' where
      "mqueue_writes S w ds mqi ?os = Some (mqi', os')"
      "mqi' = mqi\<lparr>mq_send_err := mq_send_err mqi + of_nat (length ds - (cap - Suc (length ms)))\<rparr>"
      "Q (os_sys os') (mq_mqd mqi) = Some (cap, unat k * unat sz, (ms @ [bs]) @ take (cap - Suc (length ms)) bss)" by auto
    moreover have "mqueue_write S mqi d w os = Some (mqi, ?os)" using w1 m by (simp add: set_errno_def)
    moreover from True obtain n where "cap - length ms = Suc n" "cap - Suc (length ms) = n"
      by (metis Suc_diff_Suc)
    ultimately show ?thesis by simp
  next
    case False
    with doc r have m: "r \<noteq> None" "Q m (mq_mqd mqi) = Some (cap, unat k * unat sz, ms)" by simp_all
    let ?os = "set_errno r (os\<lparr>os_sys := m\<rparr>)" and ?mqi = "mqi\<lparr>mq_send_err := mq_send_err mqi + 1\<rparr>"
    from Cons.IH [of ?mqi ?os ms] Cons.prems(1) m obtain mqi' os' where
      "mqueue_writes S w ds ?mqi ?os = Some (mqi', os')"
      "mqi' = ?mqi\<lparr>mq_send_err := mq_send_err ?mqi + of_nat (length ds - (cap - length ms))\<rparr>"
      "Q (os_sys os') (mq_mqd mqi) = Some (cap, unat k * unat sz, ms @ take (cap - length ms) bss)" by auto
    moreover have "mqueue_write S mqi d w os = Some (?mqi, ?os)" using w1 m by simp
    ultimately show ?thesis using False by simp
  qed
qed

lemma mqueue_read_message:
  assumes "mq_documented S Q" "message_of w t k sz data old"
    and "Q (os_sys os) (mq_mqd mqi) = Some (cap, length old, bs # ms)" "length bs = length old"
  shows "\<exists>os'. mqueue_read S mqi data w os = Some (sint (ucast k :: u32), data\<lparr>d_data := BLive bs\<rparr>, mqi, os')
    \<and> Q (os_sys os') (mq_mqd mqi) = Some (cap, length old, ms)"
proof -
  note len = message_length [OF assms(2)]
  obtain r m where r: "mq_receive S (mq_mqd mqi) (of_nat (length old)) (os_sys os) = (r, m)" by fastforce
  from assms(1) [unfolded mq_documented_def, rule_format, OF assms(3), THEN conjunct2, rule_format, of "of_nat (length old)"] r
  have m: "r = Inr bs" "Q m (mq_mqd mqi) = Some (cap, length old, ms)" by (simp_all add: small_int(4) [OF len(3)])
  have w: "mem_write (d_data data) 0 bs = Some (BLive bs)"
    using assms(2,4) by (simp add: message_of_def mem_write_live)
  obtain ty where ty: "d_type data = Some t" "theap w t = Some ty" "ty_size ty = sz"
    using assms(2) by (auto simp: message_of_def)
  have n: "(of_nat (length bs) :: u32) = of_nat (length old)" "0 < int (length old)"
    using len(2) assms(4) by simp_all
  show ?thesis
    using m r w message_size [OF assms(2)] ty len(4) len(2)
    by (auto simp: mqueue_read_def Let_def small_int [OF len(3)] n len(6) set_errno_def simp del: of_nat_mult)
qed

lemma mqueue_read_empty:
  assumes "mq_documented S Q" "message_of w t k sz data old"
    and "Q (os_sys os) (mq_mqd mqi) = Some (cap, length old, [])"
  shows "\<exists>os'. mqueue_read S mqi data w os = Some (0, data, mqi, os')
    \<and> Q (os_sys os') (mq_mqd mqi) = Some (cap, length old, [])"
proof -
  note len = message_length [OF assms(2)]
  obtain r m where r: "mq_receive S (mq_mqd mqi) (of_nat (length old)) (os_sys os) = (r, m)" by fastforce
  from assms(1) [unfolded mq_documented_def, rule_format, OF assms(3), THEN conjunct2, rule_format, of "of_nat (length old)"] r
  have m: "r = Inl EAGAIN" "Q m (mq_mqd mqi) = Some (cap, length old, [])" by (simp_all add: small_int(4) [OF len(3)])
  with r message_size [OF assms(2)] show ?thesis
    by (simp add: mqueue_read_def Let_def small_int [OF len(3)] set_errno_def del: of_nat_mult)
qed

lemma message_replace: "message_of w t k sz d old \<Longrightarrow> length bs = length old \<Longrightarrow> message_of w t k sz (d\<lparr>d_data := BLive bs\<rparr>) bs"
  by (simp add: message_of_def)

lemma mqueue_reads_queue:
  assumes "mq_documented S Q" "message_of w t k sz data old" "\<forall>bs \<in> set ms. length bs = length old"
    and "Q (os_sys os) (mq_mqd mqi) = Some (cap, length old, ms @ ms')"
  shows "\<exists>os'. mqueue_reads S w (length ms) data mqi os = Some (map (\<lambda>bs. (sint (ucast k :: u32), BLive bs)) ms, mqi, os')
    \<and> Q (os_sys os') (mq_mqd mqi) = Some (cap, length old, ms')"
  using assms(2-4)
proof (induction ms arbitrary: data old os)
  case Nil then show ?case by simp
next
  case (Cons bs ms)
  from mqueue_read_message [OF assms(1) Cons.prems(1), of os mqi cap bs "ms @ ms'"] Cons.prems(2,3)
  obtain os1 where r: "mqueue_read S mqi data w os = Some (sint (ucast k :: u32), data\<lparr>d_data := BLive bs\<rparr>, mqi, os1)"
    "Q (os_sys os1) (mq_mqd mqi) = Some (cap, length old, ms @ ms')" by auto
  have l: "length bs = length old" using Cons.prems(2) by simp
  from Cons.IH [OF message_replace [OF Cons.prems(1) l], of os1] Cons.prems(2) r(2) l obtain os2 where
    "mqueue_reads S w (length ms) (data\<lparr>d_data := BLive bs\<rparr>) mqi os1
       = Some (map (\<lambda>bs. (sint (ucast k :: u32), BLive bs)) ms, mqi, os2)"
    "Q (os_sys os2) (mq_mqd mqi) = Some (cap, length old, ms')" by auto
  with r(1) show ?case by simp
qed

subsection \<open>Opening\<close>

text \<open>With a configuration of the declared type \<open>uint32_t\<close> the number of messages is read past its end.\<close>

lemma mqueue_init_overreads:
  assumes "ubx_config_get_data_ptr (alloc_step w) (Some i) (Some ''buffer_len'') = Some (BLive bs, len)"
    and "length bs = 4" "alloc_ok w"
  shows "mqueue_init S i w os = None"
  using assms by (simp add: mqueue_init_def config64_def mem_read_def)

text \<open>A queue that was opened has a name that begins with a slash and messages that are not empty.\<close>

lemma mqueue_init_ok:
  assumes "mqueue_init S i w os = Some (0, Some mqi, w', os')"
  shows "mq_mqd mqi \<ge> 0 \<and> (\<exists>rest. mq_name mqi = CHR ''/'' # rest) \<and> mq_buffer_len mqi \<noteq> 0
    \<and> (\<exists>t ty e. mq_type mqi = Some t \<and> theap w t = Some ty \<and> 0 < sint (mq_data_len mqi * ty_size ty)
         \<and> mq_open S (mq_name mqi) (sint (mq_buffer_len mqi)) (sint (mq_data_len mqi * ty_size ty)) (os_sys os)
             = ((mq_mqd mqi, e), os_sys os'))"
proof -
  have slash: "\<exists>rest. xs = CHR ''/'' # rest" if "xs \<noteq> []" "hd xs = CHR ''/''" for xs :: string
    using that by (cases xs) simp_all
  have "post (mqueue_init S i w os) (\<lambda>(r, info, w', os'). \<forall>mqi. r = 0 \<longrightarrow> info = Some mqi \<longrightarrow>
      mq_mqd mqi \<ge> 0 \<and> (\<exists>rest. mq_name mqi = CHR ''/'' # rest) \<and> mq_buffer_len mqi \<noteq> 0
      \<and> (\<exists>t ty e. mq_type mqi = Some t \<and> theap w t = Some ty \<and> 0 < sint (mq_data_len mqi * ty_size ty)
         \<and> mq_open S (mq_name mqi) (sint (mq_buffer_len mqi)) (sint (mq_data_len mqi * ty_size ty)) (os_sys os)
             = ((mq_mqd mqi, e), os_sys os')))"
    unfolding mqueue_init_def Let_def alloc_step_def
    by (simp add: wlp) (auto intro!: postI simp: slash)
  from postD [OF this assms] show ?thesis by simp
qed

text \<open>The raw queue takes a message out and reports that there was none.\<close>

lemma mqraw_read_reports_none:
  assumes "mqraw_read S mqi data w os = Some (r, data', mqi', os')"
  shows "r = 0"
proof -
  have "post (mqraw_read S mqi data w os) (\<lambda>(r, _). r = 0)"
    unfolding mqraw_read_def Let_def by (auto simp: wlp intro!: postI)
  from postD [OF this assms] show ?thesis by simp
qed

subsection \<open>Property of the typed queue\<close>

text \<open>C36: Over a message queue that behaves as documented, writing any number of messages and then
  reading into one buffer yields the first ones that fit the queue, in order and with their number of
  elements, and then nothing; the others are dropped and counted.\<close>

theorem mqueue_in_order:
  assumes "mq_documented S Q" "mq_type mqi = Some t"
    and "list_all2 (message_of w t k sz) ds bss" "message_of w t k sz data old"
    and "Q (os_sys os) (mq_mqd mqi) = Some (cap, unat k * unat sz, [])"
  shows "\<exists>mqi' os1 os2 os3. mqueue_writes S w ds mqi os = Some (mqi', os1)
    \<and> mq_send_err mqi' = mq_send_err mqi + of_nat (length ds - cap)
    \<and> mqueue_reads S w (min cap (length ds)) data mqi' os1
        = Some (map (\<lambda>bs. (int (unat k), BLive bs)) (take cap bss), mqi', os2)
    \<and> mqueue_read S mqi' data w os2 = Some (0, data, mqi', os3)"
proof -
  note len = message_length [OF assms(4)]
  from mqueue_writes_queue [OF assms(1,3,2,5)] obtain os1 where w1:
    "mqueue_writes S w ds mqi os = Some (mqi\<lparr>mq_send_err := mq_send_err mqi + of_nat (length ds - cap)\<rparr>, os1)"
    "Q (os_sys os1) (mq_mqd mqi) = Some (cap, unat k * unat sz, take cap bss)" by auto
  let ?mqi = "mqi\<lparr>mq_send_err := mq_send_err mqi + of_nat (length ds - cap)\<rparr>"
  have l: "length bs = length old" if "bs \<in> set (take cap bss)" for bs
  proof -
    from that obtain i where "i < length bss" "bs = bss ! i" by (auto simp: in_set_conv_nth)
    with assms(3) have "message_of w t k sz (ds ! i) bs" by (auto simp: list_all2_conv_all_nth)
    from message_length(1) [OF this] len(1) show ?thesis by simp
  qed
  have "Q (os_sys os1) (mq_mqd ?mqi) = Some (cap, length old, take cap bss @ [])" using w1(2) len(1) by simp
  from mqueue_reads_queue [OF assms(1,4) _ this] l obtain os2 where r:
    "mqueue_reads S w (length (take cap bss)) data ?mqi os1
       = Some (map (\<lambda>bs. (sint (ucast k :: u32), BLive bs)) (take cap bss), ?mqi, os2)"
    "Q (os_sys os2) (mq_mqd ?mqi) = Some (cap, length old, [])" by blast
  from mqueue_read_empty [OF assms(1,4) r(2)] obtain os3 where e: "mqueue_read S ?mqi data w os2 = Some (0, data, ?mqi, os3)"
    by blast
  have "unat k < 2 ^ 31"
  proof -
    have "1 \<le> unat sz" using len(4) by (simp add: unat_gt_0 Suc_le_eq)
    then have "unat k * 1 \<le> unat k * unat sz" by (rule mult_le_mono2)
    with len(1,3) show ?thesis by linarith
  qed
  from small_int(1,3) [OF this] have "sint (ucast k :: u32) = int (unat k)" by simp
  moreover have "length (take cap bss) = min cap (length ds)" using list_all2_lengthD [OF assms(3)] by simp
  ultimately show ?thesis using w1(1) r(1) e by auto
qed

text \<open>A system with one queue for two messages of eight bytes.\<close>

definition ex_mq :: "u8 list list mq_sys" where
  "ex_mq = \<lparr>mq_open = \<lambda>_ _ _ m. ((3, 0), m), mq_close = \<lambda>_ m. (None, m), mq_unlink = \<lambda>_ m. (None, m),
     mq_send = \<lambda>_ bs _ m. if length bs \<le> 8 \<and> length m < 2 then (None, m @ [bs]) else (Some EAGAIN, m),
     mq_receive = \<lambda>_ n m. if unat n < 8 then (Inl EMSGSIZE, m)
       else case m of [] \<Rightarrow> (Inl EAGAIN, []) | x # xs \<Rightarrow> (Inr x, xs)\<rparr>"

definition ex_queue :: "u8 list list \<Rightarrow> int \<Rightarrow> (nat \<times> nat \<times> u8 list list) option" where
  "ex_queue m fd = (if fd = 3 then Some (2, 8, m) else None)"

definition ex_mqi :: mqueue_info where
  "ex_mqi = \<lparr>mq_mqd = 3, mq_name = ''/q'', mq_type = Some 0, mq_data_len = 1, mq_buffer_len = 2,
     mq_send_err = 0, mq_recv_err = 0\<rparr>"

definition ex_message :: "u8 \<Rightarrow> ubx_data" where
  "ex_message x = \<lparr>d_type = Some 0, d_len = 1, d_data = BLive (replicate 8 x)\<rparr>"

theorem mqueue_in_order_witness:
  "\<exists>mqi' os1 os2. mqueue_writes ex_mq (ex_world []) (map ex_message [1, 2, 3]) ex_mqi \<lparr>os_sys = [], os_errno = 0\<rparr> = Some (mqi', os1)
    \<and> mq_send_err mqi' = 1
    \<and> mqueue_reads ex_mq (ex_world []) 2 (ex_message 0) mqi' os1
        = Some ([(1, BLive (replicate 8 1)), (1, BLive (replicate 8 2))], mqi', os2)"
proof -
  let ?w = "ex_world []" and ?os = "\<lparr>os_sys = [], os_errno = 0\<rparr>"
  have doc: "mq_documented ex_mq ex_queue"
    by (auto simp: mq_documented_def ex_mq_def ex_queue_def split: list.split if_splits)
  have m: "message_of ?w 0 1 8 (ex_message x) (replicate 8 x)" for x
    by (simp add: message_of_def ex_message_def ex_world_def ex_type_def)
  have t: "mq_type ex_mqi = Some 0" by (simp add: ex_mqi_def)
  have q: "ex_queue (os_sys ?os) (mq_mqd ex_mqi) = Some (2, unat (1 :: u64) * unat (8 :: u64), [])"
    by (simp add: ex_queue_def ex_mqi_def)
  have ds: "list_all2 (message_of ?w 0 1 8) (map ex_message [1, 2, 3]) [replicate 8 1, replicate 8 2, replicate 8 3]"
    by (simp add: m)
  let ?r = "\<lambda>bs. (int (unat (1 :: u64)), BLive bs)" and ?bss = "[replicate 8 1, replicate 8 2, replicate 8 (3 :: u8)]"
  from mqueue_in_order [OF doc t ds m [of 0] q] obtain mqi' os1 os2 os3 where r:
    "mqueue_writes ex_mq ?w (map ex_message [1, 2, 3]) ex_mqi ?os = Some (mqi', os1)"
    "mq_send_err mqi' = mq_send_err ex_mqi + of_nat (length (map ex_message [1, 2, 3]) - 2)"
    "mqueue_reads ex_mq ?w (min 2 (length (map ex_message [1, 2, 3]))) (ex_message 0) mqi' os1
       = Some (map ?r (take 2 ?bss), mqi', os2)" by blast
  have n: "min 2 (length (map ex_message [1, 2, 3])) = 2" by simp
  have b: "map ?r (take 2 ?bss) = [(1, BLive (replicate 8 1)), (1, BLive (replicate 8 2))]" by simp
  have "mq_send_err mqi' = 1" using r(2) by (simp add: ex_mqi_def)
  with r(1) r(3) [unfolded n b] show ?thesis by blast
qed

end
