(* ===== verification/HexdumpBlock.thy ===== *)
theory HexdumpBlock
  imports StdPriv
begin

text \<open>
  The interaction \<open>src/std_blocks/hexdump/hexdump.c\<close>, which prints what is written to it. A function
  that prints is modelled by the text it prints.
\<close>

definition hex_digit :: "nat \<Rightarrow> char" where
  "hex_digit n = (if n < 10 then char_of (48 + n) else char_of (87 + n))"

text \<open>\<open>printf("%02x ", b)\<close>.\<close>

definition print_byte :: "u8 \<Rightarrow> string" where
  "print_byte b = [hex_digit (unat b div 16), hex_digit (unat b mod 16), CHR '' '']"

text \<open>The filling takes one blank for each byte that is missing.\<close>

definition hexdump :: "u8 list \<Rightarrow> nat \<Rightarrow> string" where
  "hexdump bs width =
     concat (map print_byte bs) @ replicate (width - length bs) CHR '' '' @ '': ''
     @ map (\<lambda>b. if b < 32 then CHR ''.'' else char_of (unat b)) bs @ [CHR 0x0A]"

definition hexdump_write :: "ubx_data \<Rightarrow> 'p world \<Rightarrow> string option" where
  "hexdump_write data w = do {
     typename \<leftarrow> get_typename w (Some data);
     size \<leftarrow> data_size w (Some data);
     bs \<leftarrow> (if size = 0 then Some [] else mem_read (d_data data) 0 (unat size));
     Some (''hexdump ('' @ (case typename of Some n \<Rightarrow> n | None \<Rightarrow> ''unknown'') @ ''): '' @ hexdump bs 16) }"

definition hexdump_mod_init :: "addr \<Rightarrow> 'p world \<Rightarrow> (int \<times> 'p world) option" where
  "hexdump_mod_init blk w = ubx_block_register w blk"

definition hexdump_mod_cleanup :: "'p world \<Rightarrow> 'p world" where
  "hexdump_mod_cleanup w = snd (ubx_block_unregister w ''hexdump/hexdump'')"

subsection \<open>Reading a dump back\<close>

fun hex_value :: "char \<Rightarrow> nat option" where
  "hex_value c = (let n = of_char c :: nat in
     if 48 \<le> n \<and> n < 58 then Some (n - 48) else if 97 \<le> n \<and> n < 103 then Some (n - 87) else None)"

fun undump :: "string \<Rightarrow> u8 list" where
  "undump (h # l # c # cs) =
     (case (hex_value h, hex_value l) of
        (Some x, Some y) \<Rightarrow> if c = CHR '' '' then of_nat (16 * x + y) # undump cs else []
      | _ \<Rightarrow> [])"
| "undump _ = []"

lemma hex_value_digit:
  assumes "n < 16"
  shows "hex_value (hex_digit n) = Some n"
  using assms by (auto simp: hex_digit_def Let_def)

lemma undump_byte: "undump (print_byte b @ cs) = b # undump cs"
proof -
  have "unat b < 2 ^ 8" using unsigned_less [of b, where ?'a = nat] by simp
  then have "hex_value (hex_digit (unat b div 16)) = Some (unat b div 16)"
    "hex_value (hex_digit (unat b mod 16)) = Some (unat b mod 16)"
    by (intro hex_value_digit; simp add: less_mult_imp_div_less)+
  moreover have "of_nat (16 * (unat b div 16) + unat b mod 16) = b" by simp
  ultimately show ?thesis by (simp only: print_byte_def append.simps undump.simps) simp
qed

lemma undump_bytes: "undump (concat (map print_byte bs) @ cs) = bs @ undump cs"
  by (induction bs) (simp_all add: undump_byte)

lemma undump_stops:
  assumes "hex_value h = None"
  shows "undump (h # cs) = []"
  using assms by (cases cs rule: undump.cases) (cases "(h # cs)" rule: undump.cases, auto)+

lemma undump_fill: "undump (replicate n CHR '' '' @ '': '' @ cs) = []"
  by (cases n) (auto intro!: undump_stops simp: Let_def)

text \<open>C38: The bytes can be read back from what is printed of them, however many they are, so the dumps
  of two different contents differ.\<close>

theorem hexdump_recovers: "undump (hexdump bs width) = bs"
  by (simp only: hexdump_def undump_bytes undump_fill append_Nil2)

end
