(* ===== verification/YoubotModel.thy ===== *)
theory YoubotModel
  imports UbxNode Complex_Main
begin

text \<open>
  The KUKA youBot driver \<open>src/std_blocks/youbot_driver\<close>: its data, its arithmetic and its
  mailbox protocol. What the driver calls and what is not part of the repository (the
  EtherCAT master, the clock) is a record of functions on an abstract environment \<open>'e\<close>;
  so are the ports, whose framework side is theory \<open>UbxConn\<close>. Doubles are values of a type
  \<open>'d\<close> with the operations of \<open>fpu\<close>: the driver's formulas are written with them, and
  how they round is a parameter.
\<close>

type_synonym i32 = "32 word"
type_synonym u16 = "16 word"

subsection \<open>Floating point\<close>

text \<open>\<open>flit m k\<close> is the literal \<open>m / 10 ^ k\<close>, \<open>flt\<close> rounds to single precision, \<open>ftoi\<close> is the
  conversion to \<open>int32_t\<close> and \<open>fpi\<close> is \<open>M_PI\<close>.\<close>

record 'd fpu =
  fadd :: "'d \<Rightarrow> 'd \<Rightarrow> 'd"
  fsub :: "'d \<Rightarrow> 'd \<Rightarrow> 'd"
  fmul :: "'d \<Rightarrow> 'd \<Rightarrow> 'd"
  fdiv :: "'d \<Rightarrow> 'd \<Rightarrow> 'd"
  fneg :: "'d \<Rightarrow> 'd"
  fint :: "int \<Rightarrow> 'd"
  flit :: "int \<Rightarrow> nat \<Rightarrow> 'd"
  fpi :: 'd
  flt :: "'d \<Rightarrow> 'd"
  fcos :: "'d \<Rightarrow> 'd"
  fsin :: "'d \<Rightarrow> 'd"
  fless :: "'d \<Rightarrow> 'd \<Rightarrow> bool"
  ftoi :: "'d \<Rightarrow> i32"

text \<open>Arithmetic of C \<open>int\<close>s; an overflow is undefined.\<close>

definition in_int :: "int \<Rightarrow> bool" where
  "in_int x \<longleftrightarrow> - (2 ^ 31) \<le> x \<and> x < 2 ^ 31"

definition iarith :: "int \<Rightarrow> int option" where
  "iarith x = (if in_int x then Some x else None)"

lemma iarith_Some [simp]: "(iarith x = Some y) = (in_int x \<and> y = x)"
  by (auto simp: iarith_def)

subsection \<open>Constants\<close>

definition YOUBOT_NR_OF_WHEELS :: nat where "YOUBOT_NR_OF_WHEELS = 4"
definition YOUBOT_NR_OF_JOINTS :: nat where "YOUBOT_NR_OF_JOINTS = 5"
definition YOUBOT_NR_OF_BASE_SLAVES :: nat where "YOUBOT_NR_OF_BASE_SLAVES = YOUBOT_NR_OF_WHEELS + 1"
definition YOUBOT_NR_OF_ARM_SLAVES :: nat where "YOUBOT_NR_OF_ARM_SLAVES = YOUBOT_NR_OF_JOINTS + 1"

lemmas youbot_sizes = YOUBOT_NR_OF_WHEELS_def YOUBOT_NR_OF_JOINTS_def
  YOUBOT_NR_OF_BASE_SLAVES_def YOUBOT_NR_OF_ARM_SLAVES_def

definition YOUBOT_CMODE_MOTORSTOP :: u8 where "YOUBOT_CMODE_MOTORSTOP = 0"
definition YOUBOT_CMODE_POSITIONING :: u8 where "YOUBOT_CMODE_POSITIONING = 1"
definition YOUBOT_CMODE_VELOCITY :: u8 where "YOUBOT_CMODE_VELOCITY = 2"
definition YOUBOT_CMODE_SET_POSITION_TO_REFERENCE :: u8 where "YOUBOT_CMODE_SET_POSITION_TO_REFERENCE = 4"
definition YOUBOT_CMODE_CURRENT :: u8 where "YOUBOT_CMODE_CURRENT = 6"
definition YOUBOT_CMODE_INITIALIZE :: u8 where "YOUBOT_CMODE_INITIALIZE = 7"

lemmas cmodes = YOUBOT_CMODE_MOTORSTOP_def YOUBOT_CMODE_POSITIONING_def YOUBOT_CMODE_VELOCITY_def
  YOUBOT_CMODE_SET_POSITION_TO_REFERENCE_def YOUBOT_CMODE_CURRENT_def YOUBOT_CMODE_INITIALIZE_def

definition MVP :: u8 where "MVP = 4"
definition SAP :: u8 where "SAP = 5"
definition GAP :: u8 where "GAP = 6"
definition MAX_CURRENT :: u8 where "MAX_CURRENT = 6"
definition CLEAR_I2T :: u8 where "CLEAR_I2T = 29"
definition CLR_EC_TIMEOUT :: u8 where "CLR_EC_TIMEOUT = 158"
definition YB_MBX_STAT_OK :: u8 where "YB_MBX_STAT_OK = 100"

text \<open>The bits of a motor's error flags; \<open>flag f b\<close> is the test \<open>f & 1<<b\<close>.\<close>

definition OVERCURRENT :: nat where "OVERCURRENT = 0"
definition UNDERVOLTAGE :: nat where "UNDERVOLTAGE = 1"
definition OVERTEMP :: nat where "OVERTEMP = 3"
definition HALL_ERR :: nat where "HALL_ERR = 5"
definition ENCODER_ERR :: nat where "ENCODER_ERR = 6"
definition SINE_COMM_INIT_ERR :: nat where "SINE_COMM_INIT_ERR = 7"
definition EMERGENCY_STOP :: nat where "EMERGENCY_STOP = 12"
definition MODULE_INIT :: nat where "MODULE_INIT = 15"
definition EC_TIMEOUT :: nat where "EC_TIMEOUT = 16"
definition I2T_EXCEEDED :: nat where "I2T_EXCEEDED = 17"

lemmas error_bits = OVERCURRENT_def UNDERVOLTAGE_def OVERTEMP_def HALL_ERR_def ENCODER_ERR_def
  SINE_COMM_INIT_ERR_def EMERGENCY_STOP_def MODULE_INIT_def EC_TIMEOUT_def I2T_EXCEEDED_def

definition flag :: "u32 \<Rightarrow> nat \<Rightarrow> bool" where
  "flag f b \<longleftrightarrow> f AND push_bit b 1 \<noteq> 0"

subsection \<open>The state of the driver\<close>

record in_motor =
  mi_position :: i32
  mi_current :: i32
  mi_velocity :: i32
  mi_error_flags :: u32
  mi_pwm :: i32

record out_motor =
  mo_value :: i32
  mo_controller_mode :: u8

text \<open>What the driver uses of the master's table of slaves.\<close>

record ec_slave =
  es_name :: string
  es_state :: u16
  es_inputs :: in_motor
  es_outputs :: out_motor

record youbot_slave_stats =
  st_overcurrent :: u64
  st_undervoltage :: u64
  st_overvoltage :: u64
  st_overtemp :: u64
  st_hall_err :: u64
  st_encoder_err :: u64
  st_sine_comm_init_err :: u64
  st_emergency_stop :: u64
  st_ec_timeout :: u64
  st_i2t_exceeded :: u64

record youbot_motor_info =
  slave_idx :: u32
  msr_pos :: i32
  msr_vel :: i32
  msr_cur :: i32
  error_flags :: u32
  msr_pwm :: i32
  i2t_ex :: bool
  cmd_val :: i32
  max_cur :: u32
  stats :: youbot_slave_stats

record 'd kdl_vector =
  vec_x :: 'd
  vec_y :: 'd
  vec_z :: 'd

record 'd kdl_twist =
  tw_vel :: "'d kdl_vector"
  tw_rot :: "'d kdl_vector"

type_synonym portptr = "(addr \<times> nat) option"

record 'd youbot_base_info =
  ba_detected :: bool
  ba_mod_init_stat :: u32
  ba_control_mode :: u8
  wheel_inf :: "youbot_motor_info list"
  last_cmd :: ubx_timespec
  cmd_twist :: "'d kdl_twist"
  odom_p :: "'d kdl_vector"
  odom_started :: int
  last_pos :: "int list"
  odom_yaw :: 'd
  msr_twist :: "'d kdl_twist"
  ba_p_control_mode :: portptr
  ba_p_cmd_twist :: portptr
  ba_p_cmd_vel :: portptr
  ba_p_cmd_cur :: portptr
  ba_p_msr_odom :: portptr
  ba_p_msr_twist :: portptr
  ba_p_base_motorinfo :: portptr

record 'd youbot_arm_info =
  ar_detected :: bool
  ar_mod_init_stat :: u32
  ar_control_mode :: u8
  jnt_inf :: "youbot_motor_info list"
  ar_pos :: "'d list"
  ar_vel :: "'d list"
  ar_eff :: "'d list"
  calibrating :: int
  axis_at_limit :: "bool list"
  jntlim_safety_disabled :: bool
  ar_p_msr_pos :: portptr
  ar_p_msr_vel :: portptr
  ar_p_msr_eff :: portptr
  ar_p_control_mode :: portptr
  ar_p_calibrate_cmd :: portptr
  ar_p_cmd_pos :: portptr
  ar_p_cmd_vel :: portptr
  ar_p_cmd_cur :: portptr
  ar_p_cmd_eff :: portptr
  ar_p_arm_motorinfo :: portptr
  ar_p_gripper :: portptr

record 'd youbot_info =
  yi_base :: "'d youbot_base_info"
  yi_arm1 :: "'d youbot_arm_info"
  yi_arm2 :: "'d youbot_arm_info"
  pd_send_err :: u64
  pd_recv_err :: u64

subsection \<open>The environment\<close>

text \<open>What is written to a port.\<close>

datatype 'd ymsg = MInt i32 | MDoubles "'d list" | MTwist "'d kdl_twist"
  | MFrame "'d kdl_vector" | MMotors "i32 list" "i32 list" "i32 list"

text \<open>The calls the driver makes: mailbox transfers (with their result, and the buffer that was
  received), reads from ports (the number of elements, and the buffer), writes, the
  clock (\<open>None\<close> when it fails), the exchange of process data, and the state requests.
  \<open>y_garbage\<close> is what a local variable holds before it is set; the last fields are the
  master's numbers for the states of a slave.\<close>

record ('e, 'd) yenv =
  y_fpu :: "'d fpu"
  y_mbxsend :: "u16 \<Rightarrow> u8 list \<Rightarrow> 'e \<Rightarrow> int \<times> 'e"
  y_mbxreceive :: "u16 \<Rightarrow> 'e \<Rightarrow> int \<times> (nat \<Rightarrow> u8) \<times> 'e"
  y_read_ints :: "addr \<times> nat \<Rightarrow> 'e \<Rightarrow> int \<times> (nat \<Rightarrow> i32) \<times> 'e"
  y_read_doubles :: "addr \<times> nat \<Rightarrow> 'e \<Rightarrow> int \<times> (nat \<Rightarrow> 'd) \<times> 'e"
  y_read_twist :: "addr \<times> nat \<Rightarrow> 'd kdl_twist \<Rightarrow> 'e \<Rightarrow> int \<times> 'd kdl_twist \<times> 'e"
  y_write :: "addr \<times> nat \<Rightarrow> 'd ymsg \<Rightarrow> 'e \<Rightarrow> 'e"
  y_clock :: "'e \<Rightarrow> ubx_timespec option \<times> 'e"
  y_receive_pd :: "(nat \<Rightarrow> ec_slave) \<Rightarrow> 'e \<Rightarrow> int \<times> (nat \<Rightarrow> ec_slave) \<times> 'e"
  y_send_pd :: "(nat \<Rightarrow> ec_slave) \<Rightarrow> 'e \<Rightarrow> int \<times> 'e"
  y_statecheck :: "u16 \<Rightarrow> (nat \<Rightarrow> ec_slave) \<Rightarrow> 'e \<Rightarrow> (nat \<Rightarrow> ec_slave) \<times> 'e"
  y_writestate :: "(nat \<Rightarrow> ec_slave) \<Rightarrow> 'e \<Rightarrow> 'e"
  y_ec_init :: "cbuf \<Rightarrow> 'e \<Rightarrow> int \<times> 'e"
  y_ec_config :: "'e \<Rightarrow> int \<times> int \<times> (nat \<Rightarrow> ec_slave) \<times> 'e"
  y_ec_close :: "'e \<Rightarrow> 'e"
  y_garbage :: i32
  y_PRE_OP :: u16
  y_SAFE_OP :: u16
  y_OPERATIONAL :: u16

text \<open>The generated accessors: a port that is NULL is reported and nothing is read.\<close>

definition read_ints :: "('e, 'd) yenv \<Rightarrow> portptr \<Rightarrow> 'e \<Rightarrow> int \<times> (nat \<Rightarrow> i32) \<times> 'e" where
  "read_ints E p e = (case p of None \<Rightarrow> (-1, \<lambda>_. y_garbage E, e) | Some p \<Rightarrow> y_read_ints E p e)"

definition read_int :: "('e, 'd) yenv \<Rightarrow> portptr \<Rightarrow> 'e \<Rightarrow> int \<times> i32 \<times> 'e" where
  "read_int E p e = (let (n, v, e) = read_ints E p e in (n, v 0, e))"

definition read_doubles :: "('e, 'd) yenv \<Rightarrow> portptr \<Rightarrow> 'e \<Rightarrow> int \<times> (nat \<Rightarrow> 'd) \<times> 'e" where
  "read_doubles E p e =
     (case p of None \<Rightarrow> (-1, \<lambda>_. fint (y_fpu E) 0, e) | Some p \<Rightarrow> y_read_doubles E p e)"

definition read_kdl_twist :: "('e, 'd) yenv \<Rightarrow> portptr \<Rightarrow> 'd kdl_twist \<Rightarrow> 'e \<Rightarrow> int \<times> 'd kdl_twist \<times> 'e" where
  "read_kdl_twist E p t e = (case p of None \<Rightarrow> (-1, t, e) | Some p \<Rightarrow> y_read_twist E p t e)"

definition write_port :: "('e, 'd) yenv \<Rightarrow> portptr \<Rightarrow> 'd ymsg \<Rightarrow> 'e \<Rightarrow> 'e" where
  "write_port E p m e = (case p of None \<Rightarrow> e | Some p \<Rightarrow> y_write E p m e)"

subsection \<open>The mailbox protocol\<close>

text \<open>The request: the value is sent with its most significant byte first.\<close>

definition mbx_request :: "bool \<Rightarrow> u8 \<Rightarrow> u8 \<Rightarrow> u8 \<Rightarrow> i32 \<Rightarrow> u8 list" where
  "mbx_request gripper instr_nr param_nr bank_nr value =
     [if gripper then 1 else 0, instr_nr, param_nr, bank_nr,
      ucast (signed_drop_bit 24 value), ucast (signed_drop_bit 16 value),
      ucast (signed_drop_bit 8 value), ucast (value AND 0xff)]"

definition mbx_value :: "(nat \<Rightarrow> u8) \<Rightarrow> i32" where
  "mbx_value b =
     push_bit 24 (ucast (b 4)) OR push_bit 16 (ucast (b 5)) OR push_bit 8 (ucast (b 6)) OR ucast (b 7)"

definition send_mbx ::
    "('e, 'd) yenv \<Rightarrow> bool \<Rightarrow> u8 \<Rightarrow> u8 \<Rightarrow> u16 \<Rightarrow> u8 \<Rightarrow> i32 \<Rightarrow> 'e \<Rightarrow> int \<times> i32 \<times> 'e" where
  "send_mbx E gripper instr_nr param_nr slave_nr bank_nr value e =
     (let (s, e) = y_mbxsend E slave_nr (mbx_request gripper instr_nr param_nr bank_nr value) e
      in if s \<le> 0 then (-1, value, e)
         else
           let (r, mbx_in, e) = y_mbxreceive E slave_nr e
           in if r \<le> 0 then (-1, value, e)
              else (if mbx_in 2 = YB_MBX_STAT_OK then 0 else -1, mbx_value mbx_in, e))"

text \<open>A parameter is read, written and read back; the slave's number is cut to 16 bits. What
  the first request carries as its value is not initialised.\<close>

definition set_param :: "('e, 'd) yenv \<Rightarrow> u32 \<Rightarrow> u8 \<Rightarrow> i32 \<Rightarrow> 'e \<Rightarrow> int \<times> 'e" where
  "set_param E slave_nr param_nr val e =
     (let (r, rdval, e) = send_mbx E False GAP param_nr (ucast slave_nr) 0 (y_garbage E) e
      in if r \<noteq> 0 then (-1, e)
         else
           let (r, val, e) = send_mbx E False SAP param_nr (ucast slave_nr) 0 val e
           in if r \<noteq> 0 then (-1, e)
              else
                let (r, rdval, e) = send_mbx E False GAP param_nr (ucast slave_nr) 0 rdval e
                in if r \<noteq> 0 then (-1, e)
                   else if rdval \<noteq> val then (-1, e) else (0, e))"

subsection \<open>Encoding\<close>

lemma mbx_value_request:
  assumes "\<And>i. i < 4 \<Longrightarrow> b (4 + i) = mbx_request g c p k v ! (4 + i)"
  shows "mbx_value b = v"
proof -
  have b: "b 4 = ucast (signed_drop_bit 24 v)" "b 5 = ucast (signed_drop_bit 16 v)"
    "b 6 = ucast (signed_drop_bit 8 v)" "b 7 = ucast (v AND 0xff)"
    using assms [of 0] assms [of 1] assms [of 2] assms [of 3] by (simp_all add: mbx_request_def)
  have "(0xff :: i32) = mask 8" by (simp add: mask_eq_exp_minus_1)
  then have b7: "b 7 = ucast (v AND mask 8)" using b(4) by simp
  show ?thesis
  proof (rule bit_word_eqI)
    fix n assume "n < LENGTH(32)"
    then have n: "n < 8 \<or> (8 \<le> n \<and> n < 16) \<or> (16 \<le> n \<and> n < 24) \<or> (24 \<le> n \<and> n < 32)" by auto
    then show "bit (mbx_value b) n = bit v n"
      unfolding mbx_value_def b(1-3) b7
      by (elim disjE) (auto simp: bit_simps)
  qed
qed

text \<open>The mailbox encoding is lossless: when the transfers succeed and the slave answers with
  status 100 and a frame that carries \<open>v\<close> in the layout of a request, then the call
  succeeds and yields \<open>v\<close>, for every 32 bit value.\<close>

lemma mbx_roundtrip:
  assumes "y_mbxsend E sl (mbx_request g c p k value) e = (s, e1)" "0 < s"
    and "y_mbxreceive E sl e1 = (r, rx, e2)" "0 < r" "rx 2 = YB_MBX_STAT_OK"
    and "\<And>i. i < 4 \<Longrightarrow> rx (4 + i) = mbx_request g' c' p' k' v ! (4 + i)"
  shows "send_mbx E g c p sl k value e = (0, v, e2)"
proof -
  have "mbx_value rx = v" by (rule mbx_value_request [OF assms(6)])
  with assms(1-5) show ?thesis by (simp add: send_mbx_def)
qed

subsection \<open>A small environment\<close>

text \<open>
  The environment at which the theorems about the driver are exercised: pending integers
  for some of the ports, the time on the clock, and a log of what was written. Mailbox
  transfers succeed, process data are exchanged without a change, and the arithmetic is
  that of the rationals.
\<close>

record ex_script =
  sc_ints :: "(nat \<times> i32) list"
  sc_clock :: int
  sc_log :: "(nat \<times> rat ymsg) list"

definition ex_fpu :: "rat fpu" where
  "ex_fpu = \<lparr>fadd = (+), fsub = (-), fmul = (*), fdiv = (/), fneg = uminus, fint = of_int,
     flit = (\<lambda>m k. of_int m / 10 ^ k), fpi = 355 / 113, flt = id, fcos = (\<lambda>x. 1 - x * x / 2), fsin = id,
     fless = (<), ftoi = (\<lambda>x. word_of_int (if x < 0 then - \<lfloor>- x\<rfloor> else \<lfloor>x\<rfloor>))\<rparr>"

definition ex_read :: "addr \<times> nat \<Rightarrow> ex_script \<Rightarrow> int \<times> (nat \<Rightarrow> i32) \<times> ex_script" where
  "ex_read p e =
     (case map_of (sc_ints e) (snd p) of
        None \<Rightarrow> (0, \<lambda>_. 0, e)
      | Some v \<Rightarrow> (1, \<lambda>_. v, e\<lparr>sc_ints := filter (\<lambda>(k, _). k \<noteq> snd p) (sc_ints e)\<rparr>))"

definition ex_yenv :: "(ex_script, rat) yenv" where
  "ex_yenv = \<lparr>y_fpu = ex_fpu, y_mbxsend = (\<lambda>s m e. (1, e)),
     y_mbxreceive = (\<lambda>s e. (1, (\<lambda>i. if i = 2 then 100 else 0), e)),
     y_read_ints = ex_read, y_read_doubles = (\<lambda>p e. (0, \<lambda>_. 0, e)),
     y_read_twist = (\<lambda>p t e. (0, t, e)),
     y_write = (\<lambda>p m e. e\<lparr>sc_log := sc_log e @ [(snd p, m)]\<rparr>),
     y_clock = (\<lambda>e. (Some (TS (sc_clock e) 0), e)),
     y_receive_pd = (\<lambda>ec e. (1, ec, e)), y_send_pd = (\<lambda>ec e. (1, e)),
     y_statecheck = (\<lambda>s ec e. (ec(0 := (ec 0)\<lparr>es_state := s\<rparr>), e)), y_writestate = (\<lambda>ec e. e),
     y_ec_init = (\<lambda>i e. (1, e)), y_ec_config = (\<lambda>e. (0, 0, \<lambda>_. undefined, e)), y_ec_close = id,
     y_garbage = 0, y_PRE_OP = 2, y_SAFE_OP = 4, y_OPERATIONAL = 8\<rparr>"

lemma ex_yenv_sel [simp]:
  "y_fpu ex_yenv = ex_fpu" "y_mbxsend ex_yenv = (\<lambda>s m e. (1, e))"
  "y_mbxreceive ex_yenv = (\<lambda>s e. (1, (\<lambda>i. if i = 2 then 100 else 0), e))"
  "y_read_ints ex_yenv = ex_read" "y_read_doubles ex_yenv = (\<lambda>p e. (0, \<lambda>_. 0, e))"
  "y_read_twist ex_yenv = (\<lambda>p t e. (0, t, e))"
  "y_write ex_yenv = (\<lambda>p m e. e\<lparr>sc_log := sc_log e @ [(snd p, m)]\<rparr>)"
  "y_clock ex_yenv = (\<lambda>e. (Some (TS (sc_clock e) 0), e))"
  "y_receive_pd ex_yenv = (\<lambda>ec e. (1, ec, e))" "y_send_pd ex_yenv = (\<lambda>ec e. (1, e))"
  "y_statecheck ex_yenv = (\<lambda>s ec e. (ec(0 := (ec 0)\<lparr>es_state := s\<rparr>), e))"
  "y_writestate ex_yenv = (\<lambda>ec e. e)" "y_ec_init ex_yenv = (\<lambda>i e. (1, e))"
  "y_garbage ex_yenv = 0" "y_PRE_OP ex_yenv = 2" "y_SAFE_OP ex_yenv = 4" "y_OPERATIONAL ex_yenv = 8"
  by (simp_all add: ex_yenv_def)

end
