(* ===== verification/YoubotBase.thy ===== *)
theory YoubotBase
  imports YoubotModel
begin

text \<open>
  The base of the youBot: the error flags of its motors (shared with the arm), the
  conversions between twists and wheel speeds, odometry, the command watchdog, and the
  update that runs in every step. The first lemmas say what the loop over the error
  flags does to a whole group of motors.
\<close>

subsection \<open>Error flags\<close>

text \<open>
  One motor, the \<open>i\<close>-th of its group: count what is flagged, mark the module as
  initialised, clear a time-out, and react to the edges of the I2T bit. In the arm
  (\<open>stop\<close>) the first three errors also stop all motors.
\<close>

definition count_errors :: "u32 \<Rightarrow> youbot_slave_stats \<Rightarrow> youbot_slave_stats" where
  "count_errors f s =
     (let s = (if flag f OVERCURRENT then s\<lparr>st_overcurrent := st_overcurrent s + 1\<rparr> else s);
          s = (if flag f UNDERVOLTAGE then s\<lparr>st_undervoltage := st_undervoltage s + 1\<rparr> else s);
          s = (if flag f OVERTEMP then s\<lparr>st_overtemp := st_overtemp s + 1\<rparr> else s);
          s = (if flag f HALL_ERR then s\<lparr>st_hall_err := st_hall_err s + 1\<rparr> else s);
          s = (if flag f ENCODER_ERR then s\<lparr>st_encoder_err := st_encoder_err s + 1\<rparr> else s);
          s = (if flag f SINE_COMM_INIT_ERR then s\<lparr>st_sine_comm_init_err := st_sine_comm_init_err s + 1\<rparr> else s);
          s = (if flag f EMERGENCY_STOP then s\<lparr>st_emergency_stop := st_emergency_stop s + 1\<rparr> else s)
      in if flag f EC_TIMEOUT then s\<lparr>st_ec_timeout := st_ec_timeout s + 1\<rparr> else s)"

definition critical :: "youbot_motor_info \<Rightarrow> bool" where
  "critical m \<longleftrightarrow> flag (error_flags m) OVERCURRENT \<or> flag (error_flags m) UNDERVOLTAGE
     \<or> flag (error_flags m) OVERTEMP"

definition count_fatal :: "u32 \<Rightarrow> int" where
  "count_fatal f = of_bool (flag f OVERCURRENT) + of_bool (flag f UNDERVOLTAGE) + of_bool (flag f OVERTEMP)"

definition clear_flag :: "('e, 'd) yenv \<Rightarrow> u8 \<Rightarrow> youbot_motor_info \<Rightarrow> 'e \<Rightarrow> int \<times> 'e" where
  "clear_flag E param m e =
     (let (r, dummy, e) = send_mbx E False SAP param (ucast (slave_idx m)) 0 (y_garbage E) e in (r, e))"

definition proc_errflg_motor ::
    "('e, 'd) yenv \<Rightarrow> bool \<Rightarrow> nat \<Rightarrow> youbot_motor_info \<Rightarrow> u8 \<Rightarrow> u32 \<Rightarrow> 'e
     \<Rightarrow> int \<times> youbot_motor_info \<times> u8 \<times> u32 \<times> 'e" where
  "proc_errflg_motor E stop i m mode init e =
     (let f = error_flags m;
          s = count_errors f (stats m);
          mode = (if stop \<and> critical m then YOUBOT_CMODE_MOTORSTOP else mode);
          init = (if flag f MODULE_INIT then init OR push_bit i 1 else init);
          (r, e) = (if flag f EC_TIMEOUT then clear_flag E CLR_EC_TIMEOUT m e else (0, e));
          fatal = count_fatal f + of_bool (r \<noteq> 0)
      in if flag f I2T_EXCEEDED \<and> \<not> i2t_ex m
         then let (r, e) = clear_flag E CLEAR_I2T m e
              in (fatal + 1, m\<lparr>stats := s\<lparr>st_i2t_exceeded := st_i2t_exceeded s + 1\<rparr>, i2t_ex := True\<rparr>,
                  YOUBOT_CMODE_MOTORSTOP, init, e)
         else if \<not> flag f I2T_EXCEEDED \<and> i2t_ex m
         then (fatal, m\<lparr>stats := s, i2t_ex := False\<rparr>, mode, init, e)
         else (fatal, m\<lparr>stats := s\<rparr>, mode, init, e))"

fun proc_errflg ::
    "('e, 'd) yenv \<Rightarrow> bool \<Rightarrow> nat \<Rightarrow> youbot_motor_info list \<Rightarrow> u8 \<Rightarrow> u32 \<Rightarrow> 'e
     \<Rightarrow> int \<times> youbot_motor_info list \<times> u8 \<times> u32 \<times> 'e" where
  "proc_errflg E stop i [] mode init e = (0, [], mode, init, e)"
| "proc_errflg E stop i (m # ms) mode init e =
     (let (n, m, mode, init, e) = proc_errflg_motor E stop i m mode init e;
          (k, ms, mode, init, e) = proc_errflg E stop (Suc i) ms mode init e
      in (n + k, m # ms, mode, init, e))"

definition base_proc_errflg ::
    "('e, 'd) yenv \<Rightarrow> 'd youbot_base_info \<Rightarrow> 'e \<Rightarrow> int \<times> 'd youbot_base_info \<times> 'e" where
  "base_proc_errflg E b e =
     (let (fatal, ms, mode, init, e) =
            proc_errflg E False 0 (wheel_inf b) (ba_control_mode b) (ba_mod_init_stat b) e
      in (fatal, b\<lparr>wheel_inf := ms, ba_control_mode := mode, ba_mod_init_stat := init\<rparr>, e))"

text \<open>What the loop amounts to for a group of motors.\<close>

definition i2t_rising :: "youbot_motor_info \<Rightarrow> bool" where
  "i2t_rising m \<longleftrightarrow> flag (error_flags m) I2T_EXCEEDED \<and> \<not> i2t_ex m"

fun init_bits :: "nat \<Rightarrow> youbot_motor_info list \<Rightarrow> u32" where
  "init_bits i [] = 0"
| "init_bits i (m # ms) =
     (if flag (error_flags m) MODULE_INIT then push_bit i 1 else 0) OR init_bits (Suc i) ms"

definition same_motor :: "youbot_motor_info \<Rightarrow> youbot_motor_info \<Rightarrow> bool" where
  "same_motor m m' \<longleftrightarrow> m' = m\<lparr>stats := stats m', i2t_ex := i2t_ex m'\<rparr>"

lemma count_fatal: "0 \<le> count_fatal (error_flags m)" "count_fatal (error_flags m) = 0 \<longleftrightarrow> \<not> critical m"
  by (simp_all add: count_fatal_def critical_def of_bool_def)

lemma proc_errflg_motor_spec:
  assumes "proc_errflg_motor E stop i m mode init e = (n, m', mode', init', e')"
  shows "same_motor m m' \<and> i2t_ex m' = flag (error_flags m) I2T_EXCEEDED
    \<and> mode' = (if i2t_rising m \<or> stop \<and> critical m then YOUBOT_CMODE_MOTORSTOP else mode)
    \<and> init' = (init OR init_bits i [m])
    \<and> (0 \<le> n) \<and> (n = 0 \<longrightarrow> \<not> i2t_rising m \<and> \<not> critical m)"
proof -
  obtain r1 e1 where 1: "(if flag (error_flags m) EC_TIMEOUT then clear_flag E CLR_EC_TIMEOUT m e else (0, e)) = (r1, e1)"
    by fastforce
  obtain r2 e2 where 2: "clear_flag E CLEAR_I2T m e1 = (r2, e2)" by fastforce
  show ?thesis
    using assms 1 2 count_fatal [of m] unfolding proc_errflg_motor_def Let_def same_motor_def i2t_rising_def
    by (cases "flag (error_flags m) I2T_EXCEEDED"; cases "i2t_ex m") (simp_all, auto simp: of_bool_def split: if_splits)
qed

lemma proc_errflg_spec:
  "proc_errflg E stop i ms mode init e = (n, ms', mode', init', e') \<Longrightarrow>
   list_all2 same_motor ms ms' \<and> map i2t_ex ms' = map (\<lambda>m. flag (error_flags m) I2T_EXCEEDED) ms
   \<and> mode' = (if \<exists>m \<in> set ms. i2t_rising m \<or> stop \<and> critical m then YOUBOT_CMODE_MOTORSTOP else mode)
   \<and> init' = (init OR init_bits i ms)
   \<and> (0 \<le> n) \<and> (n = 0 \<longrightarrow> (\<forall>m \<in> set ms. \<not> i2t_rising m \<and> \<not> critical m))"
proof (induction ms arbitrary: i mode init e n ms' mode' init' e')
  case (Cons m ms)
  obtain n1 m1 mode1 init1 e1 where 1: "proc_errflg_motor E stop i m mode init e = (n1, m1, mode1, init1, e1)"
    by (metis prod_cases5)
  obtain n2 ms2 mode2 init2 e2 where 2: "proc_errflg E stop (Suc i) ms mode1 init1 e1 = (n2, ms2, mode2, init2, e2)"
    by (metis prod_cases5)
  from Cons.prems 1 2 have r: "n = n1 + n2" "ms' = m1 # ms2" "mode' = mode2" "init' = init2" by simp_all
  from proc_errflg_motor_spec [OF 1] Cons.IH [OF 2] show ?case
    unfolding r by (auto simp: or.assoc)
qed simp

subsection \<open>Conversions\<close>

definition wheel_circumference :: "'d fpu \<Rightarrow> 'd" where
  "wheel_circumference F = fmul F (fmul F (flit F 52 3) (fint F 2)) (fpi F)"

definition wheel_distance :: "'d fpu \<Rightarrow> 'd" where
  "wheel_distance F = fadd F (flit F 47 2) (flit F 3 1)"

text \<open>One wheel's speed; the conversion to revolutions per minute is
  \<open>(26 * 60) / circumference\<close>, and both macros expand without parentheses.\<close>

definition wheel_speed :: "'d fpu \<Rightarrow> 'd \<Rightarrow> 'd \<Rightarrow> 'd \<Rightarrow> i32" where
  "wheel_speed F x y z =
     ftoi F (fdiv F (fmul F (fadd F (fadd F x y) (fdiv F (fmul F z (wheel_distance F)) (fint F 2)))
       (fint F (26 * 60))) (wheel_circumference F))"

definition set_cmds :: "(nat \<Rightarrow> i32) \<Rightarrow> youbot_motor_info list \<Rightarrow> youbot_motor_info list" where
  "set_cmds f ms = map2 (\<lambda>i m. m\<lparr>cmd_val := f i\<rparr>) [0..<length ms] ms"

definition twist_to_wheel_val :: "'d fpu \<Rightarrow> 'd youbot_base_info \<Rightarrow> 'd youbot_base_info" where
  "twist_to_wheel_val F b =
     (let x = vec_x (tw_vel (cmd_twist b)); y = vec_y (tw_vel (cmd_twist b)); z = vec_z (tw_rot (cmd_twist b));
          v = [wheel_speed F (fneg F x) y z, wheel_speed F x y z,
               wheel_speed F (fneg F x) (fneg F y) z, wheel_speed F x (fneg F y) z]
      in b\<lparr>wheel_inf := set_cmds (\<lambda>i. v ! i) (wheel_inf b)\<rparr>)"

text \<open>Sums of four wheel speeds are computed in \<open>int\<close>.\<close>

definition isum4 :: "int \<Rightarrow> int \<Rightarrow> int \<Rightarrow> int \<Rightarrow> int option" where
  "isum4 a b c d = do { _ \<leftarrow> iarith a; x \<leftarrow> iarith (a + b); x \<leftarrow> iarith (x + c); iarith (x + d) }"

definition odometry :: "'d fpu \<Rightarrow> 'd youbot_base_info \<Rightarrow> int list \<Rightarrow> int list \<Rightarrow> 'd youbot_base_info option" where
  "odometry F b msr deltas =
     (let dist = map (\<lambda>d. flt F (fdiv F (flt F (fmul F (flt F (fint F d)) (flt F (wheel_circumference F))))
            (flt F (fint F (4096 * 26))))) deltas
      in case dist of
           [d0, d1, d2, d3] \<Rightarrow>
             let sum = (\<lambda>a b. flt F (fadd F a b)); diff = (\<lambda>a b. flt F (fsub F a b));
                 yaw = flt F (fadd F (odom_yaw b) (fdiv F (sum (sum (sum d0 d1) d2) d3)
                         (fdiv F (fmul F (fint F 4) (wheel_distance F)) (fint F 2))));
                 x = flt F (fdiv F (diff (sum (diff d0 d1) d2) d3) (fint F 4));
                 y = flt F (fdiv F (sum (sum (diff (fneg F d0) d1) d2) d3) (fint F 4));
                 p = odom_p b
             in Some (b\<lparr>last_pos := msr, odom_yaw := yaw,
                  odom_p := p\<lparr>vec_x := fadd F (vec_x p)
                       (fneg F (fsub F (fmul F x (fcos F yaw)) (fmul F y (fsin F yaw)))),
                     vec_y := fadd F (vec_y p)
                       (fneg F (fadd F (fmul F x (fsin F yaw)) (fmul F y (fcos F yaw))))\<rparr>\<rparr>)
         | _ \<Rightarrow> None)"

fun idiffs :: "int list \<Rightarrow> int list \<Rightarrow> int list option" where
  "idiffs (x # xs) (y # ys) = do { d \<leftarrow> iarith (x - y); ds \<leftarrow> idiffs xs ys; Some (d # ds) }"
| "idiffs [] [] = Some []"
| "idiffs _ _ = None"

text \<open>The measured twist, the raw motor data, and the odometry, whose first ten samples only
  set the reference.\<close>

definition base_output_msr_data ::
    "('e, 'd) yenv \<Rightarrow> 'd youbot_base_info \<Rightarrow> 'e \<Rightarrow> ('d youbot_base_info \<times> 'e) option" where
  "base_output_msr_data E b e =
     (let F = y_fpu E; ms = wheel_inf b;
          e = write_port E (ba_p_base_motorinfo b) (MMotors (map msr_pos ms) (map msr_vel ms) (map msr_cur ms)) e;
          rpm = fdiv F (fint F (4 * (26 * 60))) (wheel_circumference F)
      in case map (sint \<circ> msr_vel) ms of
           [v0, v1, v2, v3] \<Rightarrow> do {
             sx \<leftarrow> isum4 v0 (- v1) v2 (- v3);
             sy \<leftarrow> isum4 (- v0) (- v1) v2 v3;
             sz \<leftarrow> isum4 (- v0) (- v1) (- v2) (- v3);
             let vel = (tw_vel (msr_twist b))\<lparr>vec_x := fdiv F (fint F sx) rpm, vec_y := fdiv F (fint F sy) rpm\<rparr>;
             let rot = (tw_rot (msr_twist b))\<lparr>vec_z := fdiv F (fint F sz)
                   (fdiv F (fmul F rpm (wheel_distance F)) (fint F 2))\<rparr>;
             let b = b\<lparr>msr_twist := \<lparr>tw_vel = vel, tw_rot = rot\<rparr>\<rparr>;
             let e = write_port E (ba_p_msr_twist b) (MTwist (msr_twist b)) e;
             let msr = map (sint \<circ> msr_pos) ms;
             if odom_started b < 10
             then Some (b\<lparr>last_pos := msr, odom_started := odom_started b + 1\<rparr>, e)
             else do {
               ds \<leftarrow> idiffs msr (last_pos b);
               b \<leftarrow> odometry F b msr ds;
               Some (b, write_port E (ba_p_msr_odom b) (MFrame (odom_p b)) e) } }
         | _ \<Rightarrow> None)"

subsection \<open>The update\<close>

definition base_is_configured :: "'d youbot_base_info \<Rightarrow> bool" where
  "base_is_configured b \<longleftrightarrow> ba_mod_init_stat b = push_bit YOUBOT_NR_OF_WHEELS 1 - 1"

definition BASE_TIMEOUT :: int where "BASE_TIMEOUT = 2"

definition base_check_watchdog ::
    "('e, 'd) yenv \<Rightarrow> 'd youbot_base_info \<Rightarrow> bool \<Rightarrow> 'e \<Rightarrow> ('d youbot_base_info \<times> 'e) option" where
  "base_check_watchdog E b trig e =
     (let (ts, e) = y_clock E e
      in case ts of
           None \<Rightarrow> Some (b, e)
         | Some ts_cur \<Rightarrow>
             if trig then Some (b\<lparr>last_cmd := ts_cur\<rparr>, e)
             else do {
               d \<leftarrow> lsub (sec ts_cur) (sec (last_cmd b));
               Some (if BASE_TIMEOUT \<le> d then b\<lparr>ba_control_mode := YOUBOT_CMODE_MOTORSTOP\<rparr> else b, e) })"

text \<open>Inputs are copied from, and outputs to, the process image of each motor's slave.\<close>

definition copy_inputs :: "(nat \<Rightarrow> ec_slave) \<Rightarrow> youbot_motor_info \<Rightarrow> youbot_motor_info" where
  "copy_inputs ec m =
     (let i = es_inputs (ec (unat (slave_idx m)))
      in m\<lparr>msr_pos := mi_position i, msr_vel := mi_velocity i, msr_cur := mi_current i,
           error_flags := mi_error_flags i, msr_pwm := mi_pwm i\<rparr>)"

fun put_outputs :: "u8 \<Rightarrow> (u32 \<times> i32) list \<Rightarrow> (nat \<Rightarrow> ec_slave) \<Rightarrow> nat \<Rightarrow> ec_slave" where
  "put_outputs mode [] ec = ec"
| "put_outputs mode ((idx, v) # os) ec =
     put_outputs mode os (ec(unat idx := (ec (unat idx))\<lparr>es_outputs := \<lparr>mo_value = v, mo_controller_mode = mode\<rparr>\<rparr>))"

text \<open>Without new data the watchdog is fed while the base is commanded to stand still.\<close>

definition base_no_command :: "('e, 'd) yenv \<Rightarrow> 'd youbot_base_info \<Rightarrow> 'e \<Rightarrow> ('d youbot_base_info \<times> 'e) option" where
  "base_no_command E b e = base_check_watchdog E b (\<forall>m \<in> set (wheel_inf b). cmd_val m = 0) e"

definition base_command :: "('e, 'd) yenv \<Rightarrow> 'd youbot_base_info \<Rightarrow> 'e \<Rightarrow> ('d youbot_base_info \<times> 'e) option" where
  "base_command E b e =
     (let mode = ba_control_mode b
      in if mode = YOUBOT_CMODE_MOTORSTOP \<or> mode = YOUBOT_CMODE_INITIALIZE then Some (b, e)
         else if mode = YOUBOT_CMODE_VELOCITY then
           let (n, v, e) = read_ints E (ba_p_cmd_vel b) e
           in if n = 4 then base_check_watchdog E (b\<lparr>wheel_inf := set_cmds v (wheel_inf b)\<rparr>) True e
              else
                let (n, t, e) = read_kdl_twist E (ba_p_cmd_twist b) (cmd_twist b) e;
                    b = b\<lparr>cmd_twist := t\<rparr>
                in if 0 < n then base_check_watchdog E (twist_to_wheel_val (y_fpu E) b) True e
                   else base_no_command E b e
         else if mode = YOUBOT_CMODE_CURRENT then
           let (n, v, e) = read_ints E (ba_p_cmd_cur b) e
           in if n = 4 then base_check_watchdog E (b\<lparr>wheel_inf := set_cmds v (wheel_inf b)\<rparr>) True e
              else base_no_command E b e
         else Some (b\<lparr>ba_control_mode := YOUBOT_CMODE_MOTORSTOP\<rparr>, e))"

text \<open>A new control mode outside \<open>0 .. 7\<close> stops the base; every switch resets the commands and
  feeds the watchdog.\<close>

definition base_new_mode :: "('e, 'd) yenv \<Rightarrow> 'd youbot_base_info \<Rightarrow> 'e \<Rightarrow> ('d youbot_base_info \<times> 'e) option" where
  "base_new_mode E b e =
     (let (n, cm, e) = read_int E (ba_p_control_mode b) e
      in if 0 < n then
           let mode = (if sint cm < 0 \<or> sint cm > 7 then YOUBOT_CMODE_MOTORSTOP else ucast cm);
               e = write_port E (ba_p_control_mode b) (MInt (ucast mode)) e
           in base_check_watchdog E
                (b\<lparr>ba_control_mode := mode, wheel_inf := set_cmds (\<lambda>_. 0) (wheel_inf b)\<rparr>) True e
         else Some (b, e))"

definition base_proc_update ::
    "('e, 'd) yenv \<Rightarrow> 'd youbot_base_info \<Rightarrow> (nat \<Rightarrow> ec_slave) \<Rightarrow> 'e
     \<Rightarrow> (int \<times> 'd youbot_base_info \<times> (nat \<Rightarrow> ec_slave) \<times> 'e) option" where
  "base_proc_update E b ec e =
     (let b = b\<lparr>wheel_inf := map (copy_inputs ec) (wheel_inf b)\<rparr>;
          (fatal, b, e) = base_proc_errflg E b e
      in do {
        (b, e) \<leftarrow>
          (if \<not> base_is_configured b then Some (b\<lparr>ba_control_mode := YOUBOT_CMODE_INITIALIZE\<rparr>, e)
           else
             let (b, e) = (if ba_control_mode b = YOUBOT_CMODE_INITIALIZE
                  then (b\<lparr>ba_control_mode := YOUBOT_CMODE_MOTORSTOP\<rparr>,
                        write_port E (ba_p_control_mode b) (MInt (ucast YOUBOT_CMODE_MOTORSTOP)) e)
                  else (b, e))
             in do { (b, e) \<leftarrow> base_new_mode E b e; base_output_msr_data E b e });
        (b, e) \<leftarrow> base_command E b e;
        Some (0, b,
          put_outputs (ba_control_mode b) (map (\<lambda>m. (slave_idx m, cmd_val m)) (wheel_inf b)) ec, e) })"

subsection \<open>What the parts of the update preserve\<close>

lemma set_cmds_sel [simp]:
  "length (set_cmds f ms) = length ms" "map slave_idx (set_cmds f ms) = map slave_idx ms"
proof -
  show "map slave_idx (set_cmds f ms) = map slave_idx ms"
    by (rule nth_equalityI) (simp_all add: set_cmds_def)
qed (simp add: set_cmds_def)

lemma cmd_val_set_cmds: "i < length ms \<Longrightarrow> cmd_val (set_cmds f ms ! i) = f i"
  by (simp add: set_cmds_def)

lemma slave_idx_copy_inputs [simp]: "slave_idx (copy_inputs ec m) = slave_idx m"
  by (simp add: copy_inputs_def Let_def)

definition same_slaves :: "'d youbot_base_info \<Rightarrow> 'd youbot_base_info \<Rightarrow> bool" where
  "same_slaves b b' \<longleftrightarrow> map slave_idx (wheel_inf b') = map slave_idx (wheel_inf b)
     \<and> ba_mod_init_stat b' = ba_mod_init_stat b \<and> ba_detected b' = ba_detected b"

lemma same_slaves_refl [simp]: "same_slaves b b"
  by (simp add: same_slaves_def)

lemma watchdog_keeps:
  "post (base_check_watchdog E b trig e) (\<lambda>(b', e'). wheel_inf b' = wheel_inf b
     \<and> ba_mod_init_stat b' = ba_mod_init_stat b \<and> ba_detected b' = ba_detected b \<and> ba_control_mode b' \<in> {ba_control_mode b, YOUBOT_CMODE_MOTORSTOP})"
  by (auto simp: base_check_watchdog_def wlp Let_def lsub_def split: prod.split)

lemma base_new_mode_keeps: "post (base_new_mode E b e) (\<lambda>(b', e'). same_slaves b b')"
  by (auto simp: base_new_mode_def wlp Let_def same_slaves_def intro!: post_mono [OF watchdog_keeps])

lemma odometry_keeps:
  "post (odometry F b msr ds) (\<lambda>b'. wheel_inf b' = wheel_inf b
     \<and> ba_mod_init_stat b' = ba_mod_init_stat b \<and> ba_detected b' = ba_detected b \<and> ba_control_mode b' = ba_control_mode b \<and> last_cmd b' = last_cmd b)"
  unfolding odometry_def Let_def by (auto simp: post_def split: list.splits)

lemma post_list4:
  "(\<And>a b c d. xs = [a, b, c, d] \<Longrightarrow> post (f a b c d) Q) \<Longrightarrow> post (case xs of [a, b, c, d] \<Rightarrow> f a b c d | _ \<Rightarrow> None) Q"
  by (auto simp: post_def split: list.splits)

lemma base_output_keeps:
  "post (base_output_msr_data E b e) (\<lambda>(b', e'). wheel_inf b' = wheel_inf b
     \<and> ba_mod_init_stat b' = ba_mod_init_stat b \<and> ba_detected b' = ba_detected b \<and> ba_control_mode b' = ba_control_mode b \<and> last_cmd b' = last_cmd b)"
  unfolding base_output_msr_data_def Let_def
  by (rule post_list4) (auto simp: wlp intro!: postI dest!: postD [OF odometry_keeps])

lemma twist_keeps [simp]:
  "map slave_idx (wheel_inf (twist_to_wheel_val F b)) = map slave_idx (wheel_inf b)"
  "ba_mod_init_stat (twist_to_wheel_val F b) = ba_mod_init_stat b"
  "ba_detected (twist_to_wheel_val F b) = ba_detected b"
  by (simp_all add: twist_to_wheel_val_def Let_def)

lemma twist_mode [simp]: "ba_control_mode (twist_to_wheel_val F b) = ba_control_mode b"
  by (simp add: twist_to_wheel_val_def Let_def)

text \<open>The modes a base ever commands.\<close>

definition base_modes :: "u8 set" where
  "base_modes = {YOUBOT_CMODE_MOTORSTOP, YOUBOT_CMODE_VELOCITY, YOUBOT_CMODE_CURRENT, YOUBOT_CMODE_INITIALIZE}"

lemma base_no_command_keeps:
  "post (base_no_command E b e) (\<lambda>(b', e'). wheel_inf b' = wheel_inf b
     \<and> ba_mod_init_stat b' = ba_mod_init_stat b \<and> ba_detected b' = ba_detected b \<and> ba_control_mode b' \<in> {ba_control_mode b, YOUBOT_CMODE_MOTORSTOP})"
  unfolding base_no_command_def by (rule watchdog_keeps)

lemma base_command_keeps:
  "post (base_command E b e) (\<lambda>(b', e'). same_slaves b b' \<and> ba_control_mode b' \<in> base_modes
     \<and> (ba_control_mode b = YOUBOT_CMODE_INITIALIZE \<longrightarrow> ba_control_mode b' = YOUBOT_CMODE_INITIALIZE))"
  unfolding base_command_def Let_def
  by (auto simp: wlp same_slaves_def base_modes_def cmodes
      intro!: post_mono [OF watchdog_keeps] post_mono [OF base_no_command_keeps])

lemma put_outputs_other: "j \<notin> (unat \<circ> fst) ` set os \<Longrightarrow> put_outputs mode os ec j = ec j"
  by (induction mode os ec rule: put_outputs.induct) auto

lemma put_outputs_at:
  "distinct (map fst os) \<Longrightarrow> (i, v) \<in> set os \<Longrightarrow>
   es_outputs (put_outputs mode os ec (unat i)) = \<lparr>mo_value = v, mo_controller_mode = mode\<rparr>"
proof (induction mode os ec rule: put_outputs.induct)
  case (2 mode idx u os ec)
  show ?case
  proof (cases "(i, v) = (idx, u)")
    case True
    have "unat idx \<notin> (unat \<circ> fst) ` set os" using 2(2) by (auto simp: rev_image_eqI dest: unsigned_word_eqI)
    with True show ?thesis by (simp add: put_outputs_other)
  next
    case False
    with 2(3) have "(i, v) \<in> set os" by auto
    with 2(1) 2(2) show ?thesis by (simp add: fun_upd_def)
  qed
qed simp

lemma put_outputs_inputs [simp]:
  "es_inputs (put_outputs mode os ec j) = es_inputs (ec j)" "es_name (put_outputs mode os ec j) = es_name (ec j)"
  "es_state (put_outputs mode os ec j) = es_state (ec j)"
  by (induction mode os ec rule: put_outputs.induct) auto

lemma same_motor_idx: "same_motor m m' \<Longrightarrow> slave_idx m' = slave_idx m"
  and same_motor_flags: "same_motor m m' \<Longrightarrow> error_flags m' = error_flags m"
  and same_motor_cmd: "same_motor m m' \<Longrightarrow> cmd_val m' = cmd_val m"
proof -
  assume "same_motor m m'"
  then have eq: "m' = m\<lparr>stats := stats m', i2t_ex := i2t_ex m'\<rparr>" by (simp add: same_motor_def)
  show "slave_idx m' = slave_idx m" "error_flags m' = error_flags m" "cmd_val m' = cmd_val m"
    by (subst eq, simp)+
qed

lemma list_all2_same_motor:
  "list_all2 same_motor ms ms' \<Longrightarrow> map slave_idx ms' = map slave_idx ms \<and> map cmd_val ms' = map cmd_val ms"
  by (induction rule: list_all2_induct) (simp_all add: same_motor_idx same_motor_cmd)

lemma base_errflg_keeps:
  assumes "base_proc_errflg E b e = (n, b', e')"
  shows "map slave_idx (wheel_inf b') = map slave_idx (wheel_inf b)"
    and "map cmd_val (wheel_inf b') = map cmd_val (wheel_inf b)"
    and "ba_detected b' = ba_detected b"
  using assms unfolding base_proc_errflg_def Let_def
  by (auto dest!: proc_errflg_spec list_all2_same_motor split: prod.splits)

lemma base_proc_update_parts:
  assumes "base_proc_update E b ec e = Some (r, b', ec', e')"
  obtains b1 e1 b2 e2 n where
    "base_proc_errflg E (b\<lparr>wheel_inf := map (copy_inputs ec) (wheel_inf b)\<rparr>) e = (n, b1, e1)"
    "same_slaves b1 b2"
    "\<not> base_is_configured b1 \<longrightarrow> b2 = b1\<lparr>ba_control_mode := YOUBOT_CMODE_INITIALIZE\<rparr> \<and> e2 = e1"
    "base_command E b2 e2 = Some (b', e')" "r = 0"
    "ec' = put_outputs (ba_control_mode b') (map (\<lambda>m. (slave_idx m, cmd_val m)) (wheel_inf b')) ec"
proof -
  obtain n b1 e1 where 1: "base_proc_errflg E (b\<lparr>wheel_inf := map (copy_inputs ec) (wheel_inf b)\<rparr>) e = (n, b1, e1)"
    by (metis prod_cases3)
  show thesis
  proof (cases "base_is_configured b1")
    case False
    with assms 1 that [OF 1, of "b1\<lparr>ba_control_mode := YOUBOT_CMODE_INITIALIZE\<rparr>" e1] show thesis
      by (auto simp: base_proc_update_def same_slaves_def)
  next
    case True
    obtain b2 e2 where 2: "(if ba_control_mode b1 = YOUBOT_CMODE_INITIALIZE
                  then (b1\<lparr>ba_control_mode := YOUBOT_CMODE_MOTORSTOP\<rparr>,
                        write_port E (ba_p_control_mode b1) (MInt (ucast YOUBOT_CMODE_MOTORSTOP)) e1)
                  else (b1, e1)) = (b2, e2)" by fastforce
    then have "same_slaves b1 b2" by (auto simp: same_slaves_def split: if_splits)
    moreover obtain b3 e3 b4 e4 where
      "base_new_mode E b2 e2 = Some (b3, e3)" "base_output_msr_data E b3 e3 = Some (b4, e4)"
      "base_command E b4 e4 = Some (b', e')" "r = 0"
      "ec' = put_outputs (ba_control_mode b') (map (\<lambda>m. (slave_idx m, cmd_val m)) (wheel_inf b')) ec"
      using assms 1 2 True by (auto simp: base_proc_update_def)
    moreover from calculation have "same_slaves b1 b4"
      by (auto simp: same_slaves_def dest!: postD [OF base_new_mode_keeps] postD [OF base_output_keeps])
    ultimately show thesis using True by (intro that [OF 1, of b4 e4]) auto
  qed
qed

lemma base_update_detected:
  assumes "base_proc_update E b ec e = Some (r, b', ec', e')"
  shows "map slave_idx (wheel_inf b') = map slave_idx (wheel_inf b) \<and> ba_detected b' = ba_detected b"
proof -
  obtain b1 e1 b2 e2 n where
    1: "base_proc_errflg E (b\<lparr>wheel_inf := map (copy_inputs ec) (wheel_inf b)\<rparr>) e = (n, b1, e1)"
    and 2: "same_slaves b1 b2" and 3: "base_command E b2 e2 = Some (b', e')"
    by (rule base_proc_update_parts [OF assms])
  from postD [OF base_command_keeps 3] 2 base_errflg_keeps(1,3) [OF 1] show ?thesis
    by (simp add: same_slaves_def comp_def)
qed

subsection \<open>Properties of the base\<close>

definition wf_base :: "'d youbot_base_info \<Rightarrow> bool" where
  "wf_base b \<longleftrightarrow> length (wheel_inf b) = YOUBOT_NR_OF_WHEELS \<and> distinct (map slave_idx (wheel_inf b))"

text \<open>Whatever the sensors and the ports deliver, an update leaves the base in one of the modes
  stop, velocity, current and initialise, in initialise unless all wheels have reported
  that they are initialised, and every wheel is sent that mode with its commanded value;
  nothing is written to any other slave.\<close>

lemma base_outputs:
  assumes "wf_base b" "base_proc_update E b ec e = Some (r, b', ec', e')"
  shows "wf_base b' \<and> r = 0 \<and> ba_control_mode b' \<in> base_modes
    \<and> (\<not> base_is_configured b' \<longrightarrow> ba_control_mode b' = YOUBOT_CMODE_INITIALIZE)
    \<and> (\<forall>m \<in> set (wheel_inf b'). es_outputs (ec' (unat (slave_idx m)))
         = \<lparr>mo_value = cmd_val m, mo_controller_mode = ba_control_mode b'\<rparr>)
    \<and> (\<forall>j. j \<notin> unat ` set (map slave_idx (wheel_inf b)) \<longrightarrow> ec' j = ec j)"
proof -
  obtain b1 e1 b2 e2 n where
    1: "base_proc_errflg E (b\<lparr>wheel_inf := map (copy_inputs ec) (wheel_inf b)\<rparr>) e = (n, b1, e1)"
    and 2: "same_slaves b1 b2"
      "\<not> base_is_configured b1 \<longrightarrow> b2 = b1\<lparr>ba_control_mode := YOUBOT_CMODE_INITIALIZE\<rparr> \<and> e2 = e1"
    and 3: "base_command E b2 e2 = Some (b', e')" "r = 0"
      "ec' = put_outputs (ba_control_mode b') (map (\<lambda>m. (slave_idx m, cmd_val m)) (wheel_inf b')) ec"
    by (rule base_proc_update_parts [OF assms(2)])
  have cmd: "same_slaves b2 b' \<and> ba_control_mode b' \<in> base_modes
     \<and> (ba_control_mode b2 = YOUBOT_CMODE_INITIALIZE \<longrightarrow> ba_control_mode b' = YOUBOT_CMODE_INITIALIZE)"
    using postD [OF base_command_keeps 3(1)] by simp
  have "map slave_idx (wheel_inf b1) = map slave_idx (wheel_inf b)"
    using base_errflg_keeps(1) [OF 1] by (simp add: comp_def)
  with 2(1) cmd have idx: "map slave_idx (wheel_inf b') = map slave_idx (wheel_inf b)"
    and init: "ba_mod_init_stat b' = ba_mod_init_stat b1"
    by (simp_all add: same_slaves_def)
  have wf: "wf_base b'"
    using assms(1) idx unfolding wf_base_def by (metis length_map)
  have "ba_control_mode b' = YOUBOT_CMODE_INITIALIZE" if "\<not> base_is_configured b'"
    using that init 2(2) cmd by (simp add: base_is_configured_def)
  moreover have "es_outputs (ec' (unat (slave_idx m)))
      = \<lparr>mo_value = cmd_val m, mo_controller_mode = ba_control_mode b'\<rparr>" if "m \<in> set (wheel_inf b')" for m
    unfolding 3(3) using that wf by (intro put_outputs_at) (auto simp: wf_base_def comp_def)
  moreover have "ec' j = ec j" if "j \<notin> unat ` set (map slave_idx (wheel_inf b))" for j
  proof -
    have "(unat \<circ> fst) ` set (map (\<lambda>m. (slave_idx m, cmd_val m)) (wheel_inf b'))
        = unat ` set (map slave_idx (wheel_inf b'))" by (simp add: image_image)
    with that idx show ?thesis unfolding 3(3) by (intro put_outputs_other) simp
  qed
  ultimately show ?thesis using wf 3(2) cmd by blast
qed

text \<open>The edges of the I2T bits: after the flags are processed a motor is marked exactly when
  its bit is set, and the group is stopped exactly when some bit has risen (or, for the
  arm only, some motor reports overcurrent, undervoltage or overtemperature); the base
  keeps driving in those cases. The initialisation bits accumulate, and the count of
  fatal errors is 0 only if there is none.\<close>

lemma errflg_effect:
  assumes "proc_errflg E stop i ms mode init e = (n, ms', mode', init', e')"
  shows "map i2t_ex ms' = map (\<lambda>m. flag (error_flags m) I2T_EXCEEDED) ms
    \<and> mode' = (if \<exists>m \<in> set ms. i2t_rising m \<or> stop \<and> critical m then YOUBOT_CMODE_MOTORSTOP else mode)
    \<and> init' = (init OR init_bits i ms)
    \<and> (n = 0 \<longrightarrow> (\<forall>m \<in> set ms. \<not> i2t_rising m \<and> \<not> critical m))"
  using proc_errflg_spec [OF assms] by blast

definition ex_motor :: "u32 \<Rightarrow> i32 \<Rightarrow> u32 \<Rightarrow> youbot_motor_info" where
  "ex_motor idx cmd flags = \<lparr>slave_idx = idx, msr_pos = 0, msr_vel = 0, msr_cur = 0, error_flags = flags,
     msr_pwm = 0, i2t_ex = False, cmd_val = cmd, max_cur = 0,
     stats = \<lparr>st_overcurrent = 0, st_undervoltage = 0, st_overvoltage = 0, st_overtemp = 0, st_hall_err = 0,
       st_encoder_err = 0, st_sine_comm_init_err = 0, st_emergency_stop = 0, st_ec_timeout = 0,
       st_i2t_exceeded = 0\<rparr>\<rparr>"

theorem errflg_effect_witness:
  "\<exists>n ms' init' e'. proc_errflg ex_yenv False 0 [ex_motor 2 5 1, ex_motor 3 5 (2 ^ 17)] YOUBOT_CMODE_VELOCITY 0
       \<lparr>sc_ints = [], sc_clock = 0, sc_log = []\<rparr> = (n, ms', YOUBOT_CMODE_MOTORSTOP, init', e')
     \<and> map i2t_ex ms' = [False, True]"
proof -
  let ?ms = "[ex_motor 2 5 1, ex_motor 3 5 (2 ^ 17)]"
  obtain n ms' mode' init' e' where
    r: "proc_errflg ex_yenv False 0 ?ms YOUBOT_CMODE_VELOCITY 0 \<lparr>sc_ints = [], sc_clock = 0, sc_log = []\<rparr>
      = (n, ms', mode', init', e')" by (metis prod_cases5)
  from errflg_effect [OF r] r show ?thesis
    by (auto simp: ex_motor_def flag_def error_bits i2t_rising_def)
qed

lemma base_new_mode_none:
  "fst (read_int E (ba_p_control_mode b) e) \<le> 0 \<Longrightarrow> \<exists>e'. base_new_mode E b e = Some (b, e')"
  by (auto simp: base_new_mode_def split: prod.splits)

lemma base_no_command_moving:
  assumes "base_no_command E b e = Some (b', e')" "fst (y_clock E e) = Some ts" "\<exists>m \<in> set (wheel_inf b). cmd_val m \<noteq> 0"
  shows "ba_control_mode b' = (if BASE_TIMEOUT \<le> sec ts - sec (last_cmd b) then YOUBOT_CMODE_MOTORSTOP else ba_control_mode b)"
proof -
  have moving: "(\<forall>m \<in> set (wheel_inf b). cmd_val m = 0) = False" using assms(3) by blast
  from assms(1,2) show ?thesis
    unfolding base_no_command_def base_check_watchdog_def moving by (auto split: prod.splits)
qed

text \<open>An update in which no port delivers anything.\<close>

definition silent :: "('e, 'd) yenv \<Rightarrow> bool" where
  "silent E \<longleftrightarrow> (\<forall>p e. fst (y_read_ints E p e) \<le> 0) \<and> (\<forall>p t e. fst (y_read_twist E p t e) \<le> 0)"

lemma silentD:
  assumes "silent E"
  shows "fst (read_ints E p e) \<le> 0" "fst (read_int E p e) \<le> 0" "fst (read_kdl_twist E p t e) \<le> 0"
  using assms unfolding silent_def
  by (auto simp: read_int_def read_ints_def read_kdl_twist_def split: option.split prod.split) (metis fst_conv)+

lemma base_command_silent:
  assumes "silent E" "base_command E b e = Some (b', e')" "ba_control_mode b \<in> {YOUBOT_CMODE_VELOCITY, YOUBOT_CMODE_CURRENT}"
    and "\<And>e. fst (y_clock E e) = Some ts" "\<exists>m \<in> set (wheel_inf b). cmd_val m \<noteq> 0"
  shows "ba_control_mode b' =
    (if BASE_TIMEOUT \<le> sec ts - sec (last_cmd b) then YOUBOT_CMODE_MOTORSTOP else ba_control_mode b)"
proof -
  obtain n v e1 where 1: "read_ints E (ba_p_cmd_vel b) e = (n, v, e1)" by (metis prod_cases3)
  obtain n2 t e2 where 2: "read_kdl_twist E (ba_p_cmd_twist b) (cmd_twist b) e1 = (n2, t, e2)" by (metis prod_cases3)
  obtain n3 v3 e3 where 3: "read_ints E (ba_p_cmd_cur b) e = (n3, v3, e3)" by (metis prod_cases3)
  have no: "n \<le> 0" "n2 \<le> 0" "n3 \<le> 0"
    using silentD [OF assms(1)] 1 2 3 by (metis fst_conv)+
  show ?thesis
  proof (cases "ba_control_mode b = YOUBOT_CMODE_VELOCITY")
    case True
    then have "base_no_command E (b\<lparr>cmd_twist := t\<rparr>) e2 = Some (b', e')"
      using assms(2) 1 2 no by (simp add: base_command_def cmodes)
    from base_no_command_moving [OF this assms(4)] assms(5) show ?thesis by simp
  next
    case False
    with assms(3) have "ba_control_mode b = YOUBOT_CMODE_CURRENT" by simp
    then have "base_no_command E b e3 = Some (b', e')"
      using assms(2) 3 no by (simp add: base_command_def cmodes)
    from base_no_command_moving [OF this assms(4)] assms(5) show ?thesis by simp
  qed
qed

lemma base_proc_update_silent:
  assumes "silent E" "base_proc_update E b ec e = Some (r, b', ec', e')"
    and "ba_control_mode b \<noteq> YOUBOT_CMODE_INITIALIZE" "base_is_configured b'"
  obtains b1 e1 b2 e2 n where
    "base_proc_errflg E (b\<lparr>wheel_inf := map (copy_inputs ec) (wheel_inf b)\<rparr>) e = (n, b1, e1)"
    "wheel_inf b2 = wheel_inf b1" "ba_control_mode b2 = ba_control_mode b1" "last_cmd b2 = last_cmd b"
    "base_command E b2 e2 = Some (b', e')"
proof -
  obtain n b1 e1 where 1: "base_proc_errflg E (b\<lparr>wheel_inf := map (copy_inputs ec) (wheel_inf b)\<rparr>) e = (n, b1, e1)"
    by (metis prod_cases3)
  have b1: "last_cmd b1 = last_cmd b" "ba_control_mode b1 \<noteq> YOUBOT_CMODE_INITIALIZE"
    using 1 assms(3) by (auto simp: base_proc_errflg_def cmodes Let_def dest!: proc_errflg_spec split: prod.splits if_splits)
  have conf: "base_is_configured b1"
  proof (rule ccontr)
    assume "\<not> base_is_configured b1"
    with assms(2) 1 have "base_command E (b1\<lparr>ba_control_mode := YOUBOT_CMODE_INITIALIZE\<rparr>) e1 = Some (b', e')"
      by (auto simp: base_proc_update_def)
    from postD [OF base_command_keeps this] \<open>\<not> base_is_configured b1\<close> assms(4) show False
      by (simp add: same_slaves_def base_is_configured_def)
  qed
  obtain e2 where 2: "base_new_mode E b1 e1 = Some (b1, e2)"
    using base_new_mode_none [OF silentD(2) [OF assms(1)]] by blast
  obtain b3 e3 where 3: "base_output_msr_data E b1 e2 = Some (b3, e3)" "base_command E b3 e3 = Some (b', e')"
    using assms(2) 1 2 b1(2) conf by (auto simp: base_proc_update_def)
  from postD [OF base_output_keeps 3(1)] b1(1) show thesis
    by (intro that [OF 1 _ _ _ 3(2)]) simp_all
qed

text \<open>C32: The watchdog: while the base is driven by velocities or currents and moving, an update in
  which no port delivers anything stops it exactly when the last command is at least
  \<open>BASE_TIMEOUT\<close> seconds old (in whole seconds) or an I2T bit has risen; otherwise the mode
  is kept.\<close>

theorem base_watchdog:
  assumes "silent E" "base_proc_update E b ec e = Some (r, b', ec', e')" "base_is_configured b'"
    and "ba_control_mode b \<in> {YOUBOT_CMODE_VELOCITY, YOUBOT_CMODE_CURRENT}"
    and "\<And>e. fst (y_clock E e) = Some ts" "\<exists>m \<in> set (wheel_inf b). cmd_val m \<noteq> 0"
  shows "ba_control_mode b' =
    (if BASE_TIMEOUT \<le> sec ts - sec (last_cmd b) \<or> (\<exists>m \<in> set (wheel_inf b). i2t_rising (copy_inputs ec m))
     then YOUBOT_CMODE_MOTORSTOP else ba_control_mode b)"
proof -
  have driven: "ba_control_mode b \<noteq> YOUBOT_CMODE_INITIALIZE" using assms(4) by (auto simp: cmodes)
  obtain b1 e1 b2 e2 n where
    1: "base_proc_errflg E (b\<lparr>wheel_inf := map (copy_inputs ec) (wheel_inf b)\<rparr>) e = (n, b1, e1)"
    and 2: "wheel_inf b2 = wheel_inf b1" "ba_control_mode b2 = ba_control_mode b1" "last_cmd b2 = last_cmd b"
    and 3: "base_command E b2 e2 = Some (b', e')"
    by (rule base_proc_update_silent [OF assms(1,2) driven assms(3)])
  obtain ms' init' where "proc_errflg E False 0 (map (copy_inputs ec) (wheel_inf b)) (ba_control_mode b)
      (ba_mod_init_stat b) e = (n, ms', ba_control_mode b1, init', e1)"
    using 1 by (auto simp: base_proc_errflg_def split: prod.splits)
  from proc_errflg_spec [OF this]
  have mode: "ba_control_mode b1 = (if \<exists>m \<in> set (wheel_inf b). i2t_rising (copy_inputs ec m)
      then YOUBOT_CMODE_MOTORSTOP else ba_control_mode b)"
    by simp
  have "map cmd_val (wheel_inf b1) = map cmd_val (wheel_inf b)"
    using base_errflg_keeps(2) [OF 1] by (simp add: comp_def copy_inputs_def Let_def)
  then have "cmd_val ` set (wheel_inf b2) = cmd_val ` set (wheel_inf b)"
    unfolding 2(1) by (metis list.set_map)
  moreover from assms(6) obtain m where "m \<in> set (wheel_inf b)" "cmd_val m \<noteq> 0" by blast
  ultimately have cmd: "\<exists>m \<in> set (wheel_inf b2). cmd_val m \<noteq> 0"
    by (auto simp: image_def set_eq_iff) metis
  show ?thesis
  proof (cases "\<exists>m \<in> set (wheel_inf b). i2t_rising (copy_inputs ec m)")
    case True
    with mode 2(2) 3 show ?thesis by (simp add: base_command_def)
  next
    case False
    with mode 2(2) assms(4) have "ba_control_mode b2 \<in> {YOUBOT_CMODE_VELOCITY, YOUBOT_CMODE_CURRENT}" by simp
    from base_command_silent [OF assms(1) 3 this assms(5) cmd] False mode 2(2,3) show ?thesis by simp
  qed
qed

subsection \<open>A moving base\<close>

definition ex_slave :: ec_slave where
  "ex_slave = \<lparr>es_name = ''TMCM-1632'', es_state = 8,
     es_inputs = \<lparr>mi_position = 7, mi_current = 0, mi_velocity = 20, mi_error_flags = 0x8000, mi_pwm = 0\<rparr>,
     es_outputs = \<lparr>mo_value = 0, mo_controller_mode = 0\<rparr>\<rparr>"

definition ex_zero :: "rat kdl_vector" where
  "ex_zero = \<lparr>vec_x = 0, vec_y = 0, vec_z = 0\<rparr>"

definition ex_base :: "rat youbot_base_info" where
  "ex_base = \<lparr>ba_detected = True, ba_mod_init_stat = 15, ba_control_mode = YOUBOT_CMODE_VELOCITY,
     wheel_inf = [ex_motor 2 100 0, ex_motor 3 100 0, ex_motor 4 100 0, ex_motor 5 100 0],
     last_cmd = TS 5 0, cmd_twist = \<lparr>tw_vel = ex_zero, tw_rot = ex_zero\<rparr>, odom_p = ex_zero,
     odom_started = 0, last_pos = [0, 0, 0, 0], odom_yaw = 0,
     msr_twist = \<lparr>tw_vel = ex_zero, tw_rot = ex_zero\<rparr>,
     ba_p_control_mode = Some (0, 1), ba_p_cmd_twist = Some (0, 2), ba_p_cmd_vel = Some (0, 3),
     ba_p_cmd_cur = Some (0, 4), ba_p_msr_odom = Some (0, 5), ba_p_msr_twist = Some (0, 6),
     ba_p_base_motorinfo = Some (0, 7)\<rparr>"

definition ex_script0 :: "int \<Rightarrow> ex_script" where
  "ex_script0 t = \<lparr>sc_ints = [], sc_clock = t, sc_log = []\<rparr>"

lemmas base_eval = base_proc_update_def base_proc_errflg_def copy_inputs_def proc_errflg_motor_def
  flag_def error_bits count_errors_def count_fatal_def critical_def base_is_configured_def youbot_sizes
  cmodes base_new_mode_def read_int_def read_ints_def read_kdl_twist_def write_port_def
  base_output_msr_data_def isum4_def iarith_def in_int_def base_command_def base_no_command_def
  base_check_watchdog_def lsub_def in_long_def BASE_TIMEOUT_def

lemmas ex_base_defs = ex_base_def ex_motor_def ex_slave_def ex_read_def ex_script0_def

lemma ex_base_update:
  "\<exists>b' ec' e'. base_proc_update ex_yenv ex_base (\<lambda>_. ex_slave) (ex_script0 10) = Some (0, b', ec', e')
    \<and> base_is_configured b'"
  by (simp add: base_eval ex_base_defs Let_def)

lemma ex_base_wf: "wf_base ex_base"
  by (simp add: wf_base_def ex_base_defs youbot_sizes)

theorem base_watchdog_witness:
  "\<exists>b' ec' e'. base_proc_update ex_yenv ex_base (\<lambda>_. ex_slave) (ex_script0 10) = Some (0, b', ec', e')
    \<and> ba_control_mode b' = YOUBOT_CMODE_MOTORSTOP"
proof -
  let ?E = "ex_yenv\<lparr>y_clock := \<lambda>e. (Some (TS 10 0), e), y_read_ints := \<lambda>p e. (0, \<lambda>_. 0, e)\<rparr>"
  have same: "base_proc_update ?E ex_base (\<lambda>_. ex_slave) (ex_script0 10)
      = base_proc_update ex_yenv ex_base (\<lambda>_. ex_slave) (ex_script0 10)"
    by (simp add: base_eval ex_base_defs Let_def send_mbx_def)
  have "silent ?E" by (simp add: silent_def)
  moreover obtain b' ec' e' where r: "base_proc_update ?E ex_base (\<lambda>_. ex_slave) (ex_script0 10) = Some (0, b', ec', e')"
      "base_is_configured b'"
    using ex_base_update unfolding same by (elim exE conjE)
  moreover have "ba_control_mode ex_base \<in> {YOUBOT_CMODE_VELOCITY, YOUBOT_CMODE_CURRENT}"
    "\<And>e. fst (y_clock ?E e) = Some (TS 10 0)" "\<exists>m \<in> set (wheel_inf ex_base). cmd_val m \<noteq> 0"
    "BASE_TIMEOUT \<le> sec (TS 10 0) - sec (last_cmd ex_base)"
    by (simp_all add: ex_base_defs BASE_TIMEOUT_def)
  ultimately have "ba_control_mode b' = YOUBOT_CMODE_MOTORSTOP"
    using base_watchdog [of ?E ex_base "\<lambda>_. ex_slave" "ex_script0 10" 0 b' ec' e' "TS 10 0"] by simp
  moreover have "base_proc_update ex_yenv ex_base (\<lambda>_. ex_slave) (ex_script0 10) = Some (0, b', ec', e')"
    using r(1) unfolding same .
  ultimately show ?thesis by (intro exI conjI)
qed

end
