(* ===== verification/YoubotArm.thy ===== *)
theory YoubotArm
  imports YoubotBase
begin

text \<open>
  The arm of the youBot: starting it, scaling commands near the joint limits, the gripper,
  the calibration state machine (drive every joint into its limit, then set the
  reference position), and the update that runs in every step.
\<close>

subsection \<open>Tables of the joints\<close>

definition arm_gear_ratios :: "int list" where
  "arm_gear_ratios = [156, 156, 100, 71, 71]"

definition arm_torque_constants :: "'d fpu \<Rightarrow> 'd list" where
  "arm_torque_constants F = [flit F 335 4, flit F 335 4, flit F 335 4, flit F 51 3, flit F 49 3]"

definition arm_calib_ref_pos :: "'d fpu \<Rightarrow> 'd list" where
  "arm_calib_ref_pos F = [flit F 28793 4, flit F 11414 4, flit F 250552 5, flit F 176662 5, flit F 28767 4]"

definition arm_calib_cur_high :: "int list" where
  "arm_calib_cur_high = [1000, 1500, 1000, 500, 400]"

definition arm_calib_move_in_vel :: "'d fpu \<Rightarrow> 'd list" where
  "arm_calib_move_in_vel F = replicate 5 (flit F 1 1)"

definition arm_lower_limits :: "'d fpu \<Rightarrow> 'd list" where
  "arm_lower_limits F = [flit F (-1652) 1, flit F (-862) 1, flit F (-1446) 1, flit F (-998) 1, flit F (-1634) 1]"

definition arm_upper_limits :: "'d fpu \<Rightarrow> 'd list" where
  "arm_upper_limits F = [flit F 1648 1, flit F 651 1, flit F 1431 1, flit F 1001 1, flit F 1650 1]"

definition ARM_TICKS_TO_POS :: "'d fpu \<Rightarrow> nat \<Rightarrow> 'd" where
  "ARM_TICKS_TO_POS F i = fdiv F (fmul F (fint F 2) (fpi F)) (fint F (arm_gear_ratios ! i * 4096))"

definition ARM_RPM_TO_VEL :: "'d fpu \<Rightarrow> nat \<Rightarrow> 'd" where
  "ARM_RPM_TO_VEL F i = fdiv F (fmul F (fint F 2) (fpi F)) (fint F (60 * arm_gear_ratios ! i))"

definition ARM_CUR_TO_EFF :: "'d fpu \<Rightarrow> nat \<Rightarrow> 'd" where
  "ARM_CUR_TO_EFF F i = fdiv F (fmul F (arm_torque_constants F ! i) (fint F (arm_gear_ratios ! i))) (fint F 1000)"

definition GRIPPER_ENC_WIDTH :: i32 where "GRIPPER_ENC_WIDTH = 67000"

subsection \<open>Starting\<close>

definition base_config_params :: "'d youbot_base_info \<Rightarrow> int \<times> 'd youbot_base_info" where
  "base_config_params b = (0, b\<lparr>ba_control_mode := YOUBOT_CMODE_INITIALIZE\<rparr>)"

definition arm_config_params :: "'d youbot_arm_info \<Rightarrow> int \<times> 'd youbot_arm_info" where
  "arm_config_params a = (0, a\<lparr>ar_control_mode := YOUBOT_CMODE_INITIALIZE\<rparr>)"

text \<open>The variable that carries the value goes from one request to the next.\<close>

fun clear_timeouts :: "('e, 'd) yenv \<Rightarrow> youbot_motor_info list \<Rightarrow> i32 \<Rightarrow> 'e \<Rightarrow> int \<times> 'e" where
  "clear_timeouts E [] val e = (0, e)"
| "clear_timeouts E (m # ms) val e =
     (let (r, val, e) = send_mbx E False SAP CLR_EC_TIMEOUT (ucast (slave_idx m)) 0 val e
      in if r \<noteq> 0 then (-1, e) else clear_timeouts E ms val e)"

fun get_max_currents ::
    "('e, 'd) yenv \<Rightarrow> youbot_motor_info list \<Rightarrow> i32 \<Rightarrow> 'e \<Rightarrow> int \<times> youbot_motor_info list \<times> i32 \<times> 'e" where
  "get_max_currents E [] val e = (0, [], val, e)"
| "get_max_currents E (m # ms) val e =
     (let (r, val, e) = send_mbx E False GAP MAX_CURRENT (ucast (slave_idx m)) 0 val e
      in if r \<noteq> 0 then (-1, m # ms, val, e)
         else let (r, ms, val', e) = get_max_currents E ms val e in (r, m\<lparr>max_cur := val\<rparr> # ms, val', e))"

definition base_prepare_start ::
    "('e, 'd) yenv \<Rightarrow> 'd youbot_base_info \<Rightarrow> 'e \<Rightarrow> int \<times> 'd youbot_base_info \<times> 'e" where
  "base_prepare_start E b e =
     (let ms = set_cmds (\<lambda>_. 0) (wheel_inf b); (r, e) = clear_timeouts E ms (y_garbage E) e
      in (r, b\<lparr>wheel_inf := ms\<rparr>, e))"

definition arm_prepare_start ::
    "('e, 'd) yenv \<Rightarrow> 'd youbot_arm_info \<Rightarrow> 'e \<Rightarrow> int \<times> 'd youbot_arm_info \<times> 'e" where
  "arm_prepare_start E a e =
     (let (r, ms, val, e) = get_max_currents E (set_cmds (\<lambda>_. 0) (jnt_inf a)) (y_garbage E) e;
          a = a\<lparr>jnt_inf := ms\<rparr>
      in if r \<noteq> 0 then (-1, a, e)
         else let (r, e) = clear_timeouts E ms val e in (r, a, e))"

subsection \<open>Commands and measurements\<close>

definition arm_proc_errflg ::
    "('e, 'd) yenv \<Rightarrow> 'd youbot_arm_info \<Rightarrow> 'e \<Rightarrow> int \<times> 'd youbot_arm_info \<times> 'e" where
  "arm_proc_errflg E a e =
     (let (fatal, ms, mode, init, e) =
            proc_errflg E True 0 (jnt_inf a) (ar_control_mode a) (ar_mod_init_stat a) e
      in (fatal, a\<lparr>jnt_inf := ms, ar_control_mode := mode, ar_mod_init_stat := init\<rparr>, e))"

definition deg_limit :: "'d fpu \<Rightarrow> 'd \<Rightarrow> 'd \<Rightarrow> 'd" where
  "deg_limit F x scale = fmul F (fmul F x scale) (fdiv F (fpi F) (fint F 180))"

definition scale_down_cmd_val :: "'d fpu \<Rightarrow> 'd youbot_arm_info \<Rightarrow> nat \<Rightarrow> i32" where
  "scale_down_cmd_val F a i =
     (let v = cmd_val (jnt_inf a ! i)
      in if jntlim_safety_disabled a \<or> ar_control_mode a = YOUBOT_CMODE_POSITIONING then v
         else
           let jntpos = ar_pos a ! i;
               upper_start = deg_limit F (arm_upper_limits F ! i) (flit F 8 1);
               upper_end = deg_limit F (arm_upper_limits F ! i) (flit F 85 2);
               lower_start = deg_limit F (arm_lower_limits F ! i) (flit F 8 1);
               lower_end = deg_limit F (arm_lower_limits F ! i) (flit F 85 2);
               scaled = (\<lambda>s. ftoi F (fmul F (fint F (sint v)) s))
           in if fless F jntpos upper_start \<and> fless F lower_start jntpos then v
              else if fless F upper_start jntpos \<and> 0 < sint v
              then scaled (fdiv F (fsub F upper_end jntpos) (fsub F upper_end upper_start))
              else if fless F jntpos lower_start \<and> sint v < 0
              then scaled (fdiv F (fsub F lower_end jntpos) (fsub F lower_end lower_start))
              else v)"

definition control_gripper :: "('e, 'd) yenv \<Rightarrow> i32 \<Rightarrow> i32 \<Rightarrow> 'e \<Rightarrow> int \<times> 'e" where
  "control_gripper E pos1 pos2 e =
     (let (r, v, e) = send_mbx E True MVP 1 11 0 pos1 e;
          (r, v, e) = send_mbx E True MVP 1 11 1 pos2 e
      in (0, e))"

definition arm_is_configured :: "'d youbot_arm_info \<Rightarrow> bool" where
  "arm_is_configured a \<longleftrightarrow> ar_mod_init_stat a = push_bit YOUBOT_NR_OF_JOINTS 1 - 1"

definition scaled_by :: "'d fpu \<Rightarrow> (nat \<Rightarrow> 'd) \<Rightarrow> i32 list \<Rightarrow> 'd list" where
  "scaled_by F c xs = map2 (\<lambda>i x. fmul F (c i) (fint F (sint x))) [0..<length xs] xs"

definition arm_output_msr_data ::
    "('e, 'd) yenv \<Rightarrow> 'd youbot_arm_info \<Rightarrow> 'e \<Rightarrow> 'd youbot_arm_info \<times> 'e" where
  "arm_output_msr_data E a e =
     (let F = y_fpu E; ms = jnt_inf a;
          a = a\<lparr>ar_pos := scaled_by F (ARM_TICKS_TO_POS F) (map msr_pos ms),
                ar_vel := scaled_by F (ARM_RPM_TO_VEL F) (map msr_vel ms),
                ar_eff := scaled_by F (ARM_CUR_TO_EFF F) (map msr_cur ms)\<rparr>;
          e = write_port E (ar_p_arm_motorinfo a) (MMotors (map msr_pos ms) (map msr_vel ms) (map msr_cur ms)) e;
          e = write_port E (ar_p_msr_pos a) (MDoubles (ar_pos a)) e;
          e = write_port E (ar_p_msr_vel a) (MDoubles (ar_vel a)) e;
          e = write_port E (ar_p_msr_eff a) (MDoubles (ar_eff a)) e
      in (a, e))"

subsection \<open>Calibration\<close>

text \<open>A joint whose current exceeds its threshold has reached its limit.\<close>

definition at_limit :: "nat \<Rightarrow> youbot_motor_info \<Rightarrow> bool" where
  "at_limit i m \<longleftrightarrow> arm_calib_cur_high ! i < sint (msr_cur m)"

definition move_joint :: "'d fpu \<Rightarrow> nat \<Rightarrow> youbot_motor_info \<Rightarrow> bool \<Rightarrow> youbot_motor_info \<times> bool" where
  "move_joint F i m l =
     (if at_limit i m then (m\<lparr>cmd_val := 0\<rparr>, True)
      else if \<not> l then (m\<lparr>cmd_val := ftoi F (fdiv F (arm_calib_move_in_vel F ! i) (ARM_RPM_TO_VEL F i))\<rparr>, l)
      else (m, l))"

fun move_joints ::
    "'d fpu \<Rightarrow> nat \<Rightarrow> youbot_motor_info list \<Rightarrow> bool list \<Rightarrow> youbot_motor_info list \<times> bool list" where
  "move_joints F i (m # ms) (l # ls) =
     (let (m, l) = move_joint F i m l; (ms, ls) = move_joints F (Suc i) ms ls in (m # ms, l # ls))"
| "move_joints F i ms ls = (ms, ls)"

definition arm_move_to_lim :: "'d fpu \<Rightarrow> 'd youbot_arm_info \<Rightarrow> bool \<times> 'd youbot_arm_info" where
  "arm_move_to_lim F a =
     (let (ms, ls) = move_joints F 0 (jnt_inf a) (axis_at_limit a);
          ret = (\<forall>l \<in> set ls. l)
      in (ret, a\<lparr>ar_control_mode := YOUBOT_CMODE_VELOCITY, jnt_inf := ms,
            axis_at_limit := (if ret then map (\<lambda>_. False) ls else ls)\<rparr>))"

text \<open>One step of the calibration; 1 is moving, 2 is setting the reference.\<close>

definition calibration_step :: "'d fpu \<Rightarrow> 'd youbot_arm_info \<Rightarrow> 'd youbot_arm_info" where
  "calibration_step F a =
     (if calibrating a = 1 then
        let (arrived, a) = arm_move_to_lim F a
        in if arrived then a\<lparr>calibrating := 2, ar_control_mode := YOUBOT_CMODE_SET_POSITION_TO_REFERENCE\<rparr> else a
      else if calibrating a = 2 then
        a\<lparr>calibrating := 0, jntlim_safety_disabled := False, ar_control_mode := YOUBOT_CMODE_MOTORSTOP\<rparr>
      else a)"

definition arm_calibrate_cmd ::
    "('e, 'd) yenv \<Rightarrow> 'd youbot_arm_info \<Rightarrow> 'e \<Rightarrow> 'd youbot_arm_info \<times> 'e" where
  "arm_calibrate_cmd E a e =
     (let (n, tmp, e) = read_int E (ar_p_calibrate_cmd a) e
      in (if 0 < n then a\<lparr>calibrating := 1, jntlim_safety_disabled := True\<rparr> else a, e))"

subsection \<open>The update\<close>

definition arm_new_mode :: "('e, 'd) yenv \<Rightarrow> 'd youbot_arm_info \<Rightarrow> 'e \<Rightarrow> 'd youbot_arm_info \<times> 'e" where
  "arm_new_mode E a e =
     (let (n, cm, e) = read_int E (ar_p_control_mode a) e
      in if 0 < n then
           let mode = (if sint cm < 0 \<or> sint cm > 7 then YOUBOT_CMODE_MOTORSTOP else ucast cm);
               e = write_port E (ar_p_control_mode a) (MInt (ucast mode)) e
           in (a\<lparr>ar_control_mode := mode, jnt_inf := set_cmds (\<lambda>_. 0) (jnt_inf a)\<rparr>, e)
         else (a, e))"

definition arm_gripper_cmd :: "('e, 'd) yenv \<Rightarrow> 'd youbot_arm_info \<Rightarrow> 'e \<Rightarrow> 'e" where
  "arm_gripper_cmd E a e =
     (let (n, cmd, e) = read_int E (ar_p_gripper a) e
      in if 0 < n then
           let cmd = (if 0 < sint cmd then - GRIPPER_ENC_WIDTH else GRIPPER_ENC_WIDTH);
               (r, e) = control_gripper E cmd cmd e
           in e
         else e)"

definition arm_command :: "('e, 'd) yenv \<Rightarrow> 'd youbot_arm_info \<Rightarrow> 'e \<Rightarrow> 'd youbot_arm_info \<times> 'e" where
  "arm_command E a e =
     (let F = y_fpu E; mode = ar_control_mode a
      in if mode = YOUBOT_CMODE_MOTORSTOP \<or> mode = YOUBOT_CMODE_INITIALIZE then (a, e)
         else if mode = YOUBOT_CMODE_POSITIONING then
           let (n, v, e) = read_doubles E (ar_p_cmd_pos a) e
           in (if n = 5 then a\<lparr>jnt_inf := set_cmds (\<lambda>i. ftoi F (fdiv F (v i) (ARM_TICKS_TO_POS F i))) (jnt_inf a)\<rparr>
               else a, e)
         else if mode = YOUBOT_CMODE_VELOCITY then
           if calibrating a \<noteq> 0 then (a, e)
           else let (n, v, e) = read_doubles E (ar_p_cmd_vel a) e
           in (if n = 5 then a\<lparr>jnt_inf := set_cmds (\<lambda>i. ftoi F (fdiv F (v i) (ARM_RPM_TO_VEL F i))) (jnt_inf a)\<rparr>
               else a, e)
         else if mode = YOUBOT_CMODE_CURRENT then
           let (n, v, e) = read_doubles E (ar_p_cmd_eff a) e
           in if n = 5 then
                (a\<lparr>jnt_inf := set_cmds (\<lambda>i. ftoi F (fdiv F (v i) (ARM_CUR_TO_EFF F i))) (jnt_inf a)\<rparr>, e)
              else
                let (n, v, e) = read_ints E (ar_p_cmd_cur a) e
                in (if n = 5 then a\<lparr>jnt_inf := set_cmds v (jnt_inf a)\<rparr> else a, e)
         else if mode = YOUBOT_CMODE_SET_POSITION_TO_REFERENCE then
           (a\<lparr>jnt_inf := set_cmds (\<lambda>i. ftoi F (fdiv F (arm_calib_ref_pos F ! i) (ARM_TICKS_TO_POS F i))) (jnt_inf a)\<rparr>, e)
         else (a\<lparr>ar_control_mode := YOUBOT_CMODE_MOTORSTOP\<rparr>, e))"

text \<open>Everything up to the label \<open>handle_cm\<close>.\<close>

definition arm_prepare :: "('e, 'd) yenv \<Rightarrow> 'd youbot_arm_info \<Rightarrow> 'e \<Rightarrow> 'd youbot_arm_info \<times> 'e" where
  "arm_prepare E a e =
     (if \<not> arm_is_configured a then (a\<lparr>ar_control_mode := YOUBOT_CMODE_INITIALIZE\<rparr>, e)
      else
        let (a, e) = (if ar_control_mode a = YOUBOT_CMODE_INITIALIZE
               then (a\<lparr>ar_control_mode := YOUBOT_CMODE_MOTORSTOP\<rparr>,
                     write_port E (ar_p_control_mode a) (MInt (ucast YOUBOT_CMODE_MOTORSTOP)) e)
               else (a, e));
            (a, e) = arm_output_msr_data E a e;
            (a, e) = arm_calibrate_cmd E a e
        in if calibrating a \<noteq> 0 then (calibration_step (y_fpu E) a, e)
           else let (a, e) = arm_new_mode E a e in (a, arm_gripper_cmd E a e))"

definition arm_proc_update ::
    "('e, 'd) yenv \<Rightarrow> 'd youbot_arm_info \<Rightarrow> (nat \<Rightarrow> ec_slave) \<Rightarrow> 'e
     \<Rightarrow> int \<times> 'd youbot_arm_info \<times> (nat \<Rightarrow> ec_slave) \<times> 'e" where
  "arm_proc_update E a ec e =
     (let a = a\<lparr>jnt_inf := map (copy_inputs ec) (jnt_inf a)\<rparr>;
          (fatal, a, e) = arm_proc_errflg E a e;
          (a, e) = arm_prepare E a e;
          (a, e) = arm_command E a e;
          os = map2 (\<lambda>i m. (slave_idx m, scale_down_cmd_val (y_fpu E) a i)) [0..<length (jnt_inf a)] (jnt_inf a)
      in (0, a, put_outputs (ar_control_mode a) os ec, e))"

subsection \<open>What the parts of the update preserve\<close>

definition wf_arm :: "'d youbot_arm_info \<Rightarrow> bool" where
  "wf_arm a \<longleftrightarrow> length (jnt_inf a) = YOUBOT_NR_OF_JOINTS \<and> distinct (map slave_idx (jnt_inf a))
     \<and> length (axis_at_limit a) = YOUBOT_NR_OF_JOINTS"

lemma wf_arm_cong:
  assumes "map slave_idx (jnt_inf a') = map slave_idx (jnt_inf a)" "axis_at_limit a' = axis_at_limit a" "wf_arm a"
  shows "wf_arm a'"
  using assms map_eq_imp_length_eq [OF assms(1)] by (simp add: wf_arm_def)

lemma slave_idx_copied [simp]: "slave_idx \<circ> copy_inputs ec = slave_idx"
  by (simp add: fun_eq_iff)

definition same_joints :: "'d youbot_arm_info \<Rightarrow> 'd youbot_arm_info \<Rightarrow> bool" where
  "same_joints a a' \<longleftrightarrow> map slave_idx (jnt_inf a') = map slave_idx (jnt_inf a)
     \<and> ar_mod_init_stat a' = ar_mod_init_stat a \<and> length (axis_at_limit a') = length (axis_at_limit a)
     \<and> ar_detected a' = ar_detected a"

lemma same_joints_trans: "same_joints a b \<Longrightarrow> same_joints b c \<Longrightarrow> same_joints a c"
  by (simp add: same_joints_def)

lemma same_joints_wf: "same_joints a a' \<Longrightarrow> wf_arm a \<Longrightarrow> wf_arm a'"
  unfolding same_joints_def wf_arm_def by (metis length_map)

lemma same_joints_configured: "same_joints a a' \<Longrightarrow> arm_is_configured a' = arm_is_configured a"
  by (simp add: same_joints_def arm_is_configured_def)

text \<open>The modes an arm ever commands.\<close>

definition arm_modes :: "u8 set" where
  "arm_modes = {YOUBOT_CMODE_MOTORSTOP, YOUBOT_CMODE_POSITIONING, YOUBOT_CMODE_VELOCITY, YOUBOT_CMODE_CURRENT,
     YOUBOT_CMODE_SET_POSITION_TO_REFERENCE, YOUBOT_CMODE_INITIALIZE}"

lemma arm_command_keeps:
  assumes "arm_command E a e = (a', e')"
  shows "same_joints a a' \<and> calibrating a' = calibrating a \<and> axis_at_limit a' = axis_at_limit a
    \<and> jntlim_safety_disabled a' = jntlim_safety_disabled a
    \<and> ar_control_mode a' = (if ar_control_mode a \<in> arm_modes then ar_control_mode a else YOUBOT_CMODE_MOTORSTOP)"
  using assms unfolding arm_command_def Let_def
  by (auto simp: same_joints_def arm_modes_def cmodes split: prod.splits if_splits)

lemma move_joints_spec:
  "move_joints F i ms ls = (ms', ls') \<Longrightarrow> length ls = length ms \<Longrightarrow>
   map slave_idx ms' = map slave_idx ms \<and> length ls' = length ms
   \<and> (\<forall>j < length ms. ls' ! j = (ls ! j \<or> at_limit (i + j) (ms ! j)))"
proof (induction F i ms ls arbitrary: ms' ls' rule: move_joints.induct)
  case (1 F i m ms l ls)
  obtain ms2 ls2 where rec: "move_joints F (Suc i) ms ls = (ms2, ls2)" by fastforce
  obtain m1 l1 where 1: "move_joint F i m l = (m1, l1)" by fastforce
  have m1: "slave_idx m1 = slave_idx m" "l1 = (l \<or> at_limit i m)"
    using 1 by (auto simp: move_joint_def split: if_splits)
  from "1.prems" rec 1 have r: "ms' = m1 # ms2" "ls' = l1 # ls2" by auto
  have "ls' ! j = ((l # ls) ! j \<or> at_limit (i + j) ((m # ms) ! j))" if "j < length (m # ms)" for j
    using that "1.IH" [OF 1 [symmetric] refl rec] "1.prems"(2) m1(2) by (cases j) (simp_all add: r 1)
  with "1.IH" [OF 1 [symmetric] refl rec] "1.prems"(2) m1(1) 1 show ?case by (simp add: r)
qed simp_all

text \<open>A step of the calibration of an arm that is moving, by whether all joints have arrived.\<close>

definition arrived :: "'d youbot_arm_info \<Rightarrow> bool" where
  "arrived a \<longleftrightarrow> (\<forall>j < length (jnt_inf a). axis_at_limit a ! j \<or> at_limit j (jnt_inf a ! j))"

lemma arm_move_spec:
  assumes "wf_arm a" "arm_move_to_lim F a = (b, a')"
  shows "same_joints a a' \<and> b = arrived a \<and> ar_control_mode a' = YOUBOT_CMODE_VELOCITY
    \<and> calibrating a' = calibrating a \<and> jntlim_safety_disabled a' = jntlim_safety_disabled a
    \<and> (\<not> b \<longrightarrow> (\<forall>j < length (jnt_inf a). axis_at_limit a' ! j = (axis_at_limit a ! j \<or> at_limit j (jnt_inf a ! j))))"
proof -
  obtain ms ls where m: "move_joints F 0 (jnt_inf a) (axis_at_limit a) = (ms, ls)" by fastforce
  have len: "length (axis_at_limit a) = length (jnt_inf a)" using assms(1) by (simp add: wf_arm_def)
  note spec = move_joints_spec [OF m len]
  have "(\<forall>l \<in> set ls. l) = arrived a"
    using spec by (simp add: arrived_def all_set_conv_all_nth)
  with assms(2) m spec len show ?thesis
    by (auto simp: arm_move_to_lim_def same_joints_def)
qed

lemma calibration_step_spec:
  assumes "wf_arm a" "a' = calibration_step F a"
  shows "same_joints a a'"
    and "calibrating a = 1 \<Longrightarrow> arrived a \<Longrightarrow> calibrating a' = 2
      \<and> ar_control_mode a' = YOUBOT_CMODE_SET_POSITION_TO_REFERENCE
      \<and> jntlim_safety_disabled a' = jntlim_safety_disabled a"
    and "calibrating a = 1 \<Longrightarrow> \<not> arrived a \<Longrightarrow> calibrating a' = 1 \<and> ar_control_mode a' = YOUBOT_CMODE_VELOCITY
      \<and> jntlim_safety_disabled a' = jntlim_safety_disabled a
      \<and> (\<forall>j < length (jnt_inf a). axis_at_limit a' ! j = (axis_at_limit a ! j \<or> at_limit j (jnt_inf a ! j)))"
    and "calibrating a = 2 \<Longrightarrow> calibrating a' = 0 \<and> ar_control_mode a' = YOUBOT_CMODE_MOTORSTOP
      \<and> \<not> jntlim_safety_disabled a'"
proof -
  obtain b a1 where m: "arm_move_to_lim F a = (b, a1)" by fastforce
  note spec = arm_move_spec [OF assms(1) m]
  have a': "a' = (if calibrating a = 1 then
        if b then a1\<lparr>calibrating := 2, ar_control_mode := YOUBOT_CMODE_SET_POSITION_TO_REFERENCE\<rparr> else a1
      else if calibrating a = 2 then
        a\<lparr>calibrating := 0, jntlim_safety_disabled := False, ar_control_mode := YOUBOT_CMODE_MOTORSTOP\<rparr>
      else a)"
    using assms(2) m by (simp add: calibration_step_def)
  show "same_joints a a'" using spec unfolding a' by (auto simp: same_joints_def)
  show "calibrating a' = 2 \<and> ar_control_mode a' = YOUBOT_CMODE_SET_POSITION_TO_REFERENCE
      \<and> jntlim_safety_disabled a' = jntlim_safety_disabled a" if "calibrating a = 1" "arrived a"
    using that spec unfolding a' by simp
  show "calibrating a' = 1 \<and> ar_control_mode a' = YOUBOT_CMODE_VELOCITY
      \<and> jntlim_safety_disabled a' = jntlim_safety_disabled a
      \<and> (\<forall>j < length (jnt_inf a). axis_at_limit a' ! j = (axis_at_limit a ! j \<or> at_limit j (jnt_inf a ! j)))"
    if "calibrating a = 1" "\<not> arrived a"
    using that spec unfolding a' by simp
  show "calibrating a' = 0 \<and> ar_control_mode a' = YOUBOT_CMODE_MOTORSTOP \<and> \<not> jntlim_safety_disabled a'"
    if "calibrating a = 2"
    using that unfolding a' by simp
qed

subsection \<open>The calibration as an automaton\<close>

text \<open>The joint limits are not watched exactly while the arm is calibrated.\<close>

definition calib_inv :: "'d youbot_arm_info \<Rightarrow> bool" where
  "calib_inv a \<longleftrightarrow> calibrating a \<in> {0, 1, 2} \<and> jntlim_safety_disabled a = (calibrating a \<noteq> 0)"

text \<open>The phases with the mode that is commanded: idle, moving, at the reference.\<close>

inductive calib_next :: "int \<Rightarrow> u8 \<Rightarrow> int \<Rightarrow> bool" where
  stay_idle: "m \<in> arm_modes \<Longrightarrow> calib_next 0 m 0"
| moving: "c \<in> {0, 1, 2} \<Longrightarrow> calib_next c YOUBOT_CMODE_VELOCITY 1"
| reference: "c \<in> {0, 1, 2} \<Longrightarrow> calib_next c YOUBOT_CMODE_SET_POSITION_TO_REFERENCE 2"
| finished: "calib_next 2 YOUBOT_CMODE_MOTORSTOP 0"

inductive_simps calib_next_from: "calib_next c m c'"

lemma arm_output_keeps:
  "arm_output_msr_data E a e = (a', e') \<Longrightarrow>
   jnt_inf a' = jnt_inf a \<and> ar_mod_init_stat a' = ar_mod_init_stat a \<and> axis_at_limit a' = axis_at_limit a
   \<and> calibrating a' = calibrating a \<and> jntlim_safety_disabled a' = jntlim_safety_disabled a
   \<and> ar_control_mode a' = ar_control_mode a \<and> ar_detected a' = ar_detected a"
  by (auto simp: arm_output_msr_data_def Let_def)

lemma arm_calibrate_cmd_keeps:
  "arm_calibrate_cmd E a e = (a', e') \<Longrightarrow>
   jnt_inf a' = jnt_inf a \<and> ar_mod_init_stat a' = ar_mod_init_stat a \<and> axis_at_limit a' = axis_at_limit a
   \<and> ar_control_mode a' = ar_control_mode a \<and> ar_detected a' = ar_detected a
   \<and> (calibrating a' = 1 \<and> jntlim_safety_disabled a' \<or> a' = a) \<and> (silent E \<longrightarrow> a' = a)"
  using silentD(2) [of E "ar_p_calibrate_cmd a" e]
  by (auto simp: arm_calibrate_cmd_def split: prod.splits if_splits)

lemma arm_new_mode_keeps:
  "arm_new_mode E a e = (a', e') \<Longrightarrow> same_joints a a' \<and> calibrating a' = calibrating a
   \<and> axis_at_limit a' = axis_at_limit a \<and> jntlim_safety_disabled a' = jntlim_safety_disabled a"
  by (auto simp: arm_new_mode_def same_joints_def Let_def split: prod.splits if_splits)

text \<open>The state in which the calibration, if it is on, takes its step.\<close>

lemma arm_prepare_configured:
  assumes "arm_prepare E a e = (a', e')" "arm_is_configured a"
  obtains a1 where "jnt_inf a1 = jnt_inf a" "ar_mod_init_stat a1 = ar_mod_init_stat a"
    "axis_at_limit a1 = axis_at_limit a" "ar_detected a1 = ar_detected a"
    "calibrating a1 = 1 \<and> jntlim_safety_disabled a1
      \<or> calibrating a1 = calibrating a \<and> jntlim_safety_disabled a1 = jntlim_safety_disabled a"
    "silent E \<longrightarrow> calibrating a1 = calibrating a \<and> jntlim_safety_disabled a1 = jntlim_safety_disabled a"
    "calibrating a1 \<noteq> 0 \<longrightarrow> a' = calibration_step (y_fpu E) a1"
    "calibrating a1 = 0 \<longrightarrow> same_joints a1 a' \<and> calibrating a' = 0
      \<and> jntlim_safety_disabled a' = jntlim_safety_disabled a1"
proof -
  obtain a0 e0 where 0: "(if ar_control_mode a = YOUBOT_CMODE_INITIALIZE
               then (a\<lparr>ar_control_mode := YOUBOT_CMODE_MOTORSTOP\<rparr>,
                     write_port E (ar_p_control_mode a) (MInt (ucast YOUBOT_CMODE_MOTORSTOP)) e)
               else (a, e)) = (a0, e0)" by fastforce
  obtain a2 e2 where 2: "arm_output_msr_data E a0 e0 = (a2, e2)" by fastforce
  obtain a1 e1 where 1: "arm_calibrate_cmd E a2 e2 = (a1, e1)" by fastforce
  obtain a3 e3 where 3: "arm_new_mode E a1 e1 = (a3, e3)" by fastforce
  have a0: "jnt_inf a0 = jnt_inf a" "ar_mod_init_stat a0 = ar_mod_init_stat a" "axis_at_limit a0 = axis_at_limit a"
    "calibrating a0 = calibrating a" "jntlim_safety_disabled a0 = jntlim_safety_disabled a"
    "ar_detected a0 = ar_detected a"
    using 0 by (auto split: if_splits)
  have a': "a' = (if calibrating a1 \<noteq> 0 then calibration_step (y_fpu E) a1 else a3)"
    using assms 0 1 2 3 by (auto simp: arm_prepare_def split: if_splits)
  show thesis
    using a0 arm_output_keeps [OF 2] arm_calibrate_cmd_keeps [OF 1] arm_new_mode_keeps [OF 3] a'
    by (intro that [of a1]) auto
qed

lemma arm_update_parts:
  assumes "arm_proc_update E a ec e = (r, a', ec', e')"
  obtains n a1 e1 a2 e2 where
    "arm_proc_errflg E (a\<lparr>jnt_inf := map (copy_inputs ec) (jnt_inf a)\<rparr>) e = (n, a1, e1)"
    "arm_prepare E a1 e1 = (a2, e2)" "arm_command E a2 e2 = (a', e')" "r = 0"
    "ec' = put_outputs (ar_control_mode a')
      (map2 (\<lambda>i m. (slave_idx m, scale_down_cmd_val (y_fpu E) a' i)) [0..<length (jnt_inf a')] (jnt_inf a')) ec"
proof -
  obtain n a1 e1 where 1: "arm_proc_errflg E (a\<lparr>jnt_inf := map (copy_inputs ec) (jnt_inf a)\<rparr>) e = (n, a1, e1)"
    by (metis prod_cases3)
  obtain a2 e2 where 2: "arm_prepare E a1 e1 = (a2, e2)" by fastforce
  obtain a3 e3 where 3: "arm_command E a2 e2 = (a3, e3)" by fastforce
  show thesis
    using assms 1 2 3 by (intro that [OF 1 2]) (auto simp: arm_proc_update_def)
qed

lemma arm_errflg_keeps:
  assumes "arm_proc_errflg E a e = (n, a', e')"
  shows "list_all2 same_motor (jnt_inf a) (jnt_inf a')" "map slave_idx (jnt_inf a') = map slave_idx (jnt_inf a)"
    "ar_mod_init_stat a' = ar_mod_init_stat a OR init_bits 0 (jnt_inf a)"
    "axis_at_limit a' = axis_at_limit a" "calibrating a' = calibrating a"
    "jntlim_safety_disabled a' = jntlim_safety_disabled a" "ar_detected a' = ar_detected a"
proof -
  obtain ms mode init where r: "proc_errflg E True 0 (jnt_inf a) (ar_control_mode a) (ar_mod_init_stat a) e
      = (n, ms, mode, init, e')" and a': "a' = a\<lparr>jnt_inf := ms, ar_control_mode := mode, ar_mod_init_stat := init\<rparr>"
    using assms by (auto simp: arm_proc_errflg_def split: prod.splits)
  from proc_errflg_spec [OF r] show "list_all2 same_motor (jnt_inf a) (jnt_inf a')"
    "ar_mod_init_stat a' = ar_mod_init_stat a OR init_bits 0 (jnt_inf a)" by (simp_all add: a')
  then show "map slave_idx (jnt_inf a') = map slave_idx (jnt_inf a)" by (simp add: list_all2_same_motor)
qed (use assms in \<open>auto simp: arm_proc_errflg_def split: prod.splits\<close>)

lemma arm_prepare_keeps:
  assumes "arm_prepare E a e = (a', e')" "wf_arm a"
  shows "same_joints a a'"
proof (cases "arm_is_configured a")
  case True
  from arm_prepare_configured [OF assms(1) True] obtain a1 where a1: "jnt_inf a1 = jnt_inf a"
    "ar_mod_init_stat a1 = ar_mod_init_stat a" "axis_at_limit a1 = axis_at_limit a" "ar_detected a1 = ar_detected a"
    "calibrating a1 \<noteq> 0 \<longrightarrow> a' = calibration_step (y_fpu E) a1"
    "calibrating a1 = 0 \<longrightarrow> same_joints a1 a'" by (metis (no_types))
  have "same_joints a a1" using a1(1-4) by (simp add: same_joints_def)
  moreover have "same_joints a1 a'"
    using a1(5,6) calibration_step_spec(1) [OF same_joints_wf [OF \<open>same_joints a a1\<close> assms(2)]]
    by (cases "calibrating a1 = 0") auto
  ultimately show ?thesis by (rule same_joints_trans)
next
  case False
  with assms(1) show ?thesis by (auto simp: arm_prepare_def same_joints_def)
qed

lemma copy_inputs_joint:
  assumes "list_all2 same_motor (map (copy_inputs ec) ms) ms'" "j < length ms"
  shows "msr_cur (ms' ! j) = mi_current (es_inputs (ec (unat (slave_idx (ms ! j)))))"
proof -
  have "same_motor (copy_inputs ec (ms ! j)) (ms' ! j)"
    using assms by (simp add: list_all2_conv_all_nth)
  then have "ms' ! j = (copy_inputs ec (ms ! j))\<lparr>stats := stats (ms' ! j), i2t_ex := i2t_ex (ms' ! j)\<rparr>"
    by (simp add: same_motor_def)
  then have "msr_cur (ms' ! j) = msr_cur ((copy_inputs ec (ms ! j))\<lparr>stats := stats (ms' ! j), i2t_ex := i2t_ex (ms' ! j)\<rparr>)"
    by (rule arg_cong)
  then show ?thesis by (simp add: copy_inputs_def Let_def)
qed

text \<open>A process image in which the \<open>j\<close>-th joint pushes against its limit.\<close>

definition pushes :: "'d youbot_arm_info \<Rightarrow> (nat \<Rightarrow> ec_slave) \<Rightarrow> nat \<Rightarrow> bool" where
  "pushes a ec j \<longleftrightarrow> arm_calib_cur_high ! j < sint (mi_current (es_inputs (ec (unat (slave_idx (jnt_inf a ! j))))))"

text \<open>One update of a configured arm, as far as the calibration is concerned.\<close>

lemma arm_update_calibration:
  assumes "wf_arm a" "arm_proc_update E a ec e = (r, a', ec', e')" "arm_is_configured a'"
  obtains c where "c = 1 \<or> c = calibrating a" "silent E \<longrightarrow> c = calibrating a"
    "c = 1 \<longrightarrow> (\<forall>j < 5. axis_at_limit a ! j \<or> pushes a ec j) \<longrightarrow> calibrating a' = 2
       \<and> ar_control_mode a' = YOUBOT_CMODE_SET_POSITION_TO_REFERENCE \<and> (calib_inv a \<longrightarrow> jntlim_safety_disabled a')"
    "c = 1 \<longrightarrow> \<not> (\<forall>j < 5. axis_at_limit a ! j \<or> pushes a ec j) \<longrightarrow> calibrating a' = 1
       \<and> ar_control_mode a' = YOUBOT_CMODE_VELOCITY \<and> (calib_inv a \<longrightarrow> jntlim_safety_disabled a')
       \<and> (\<forall>j < 5. axis_at_limit a' ! j = (axis_at_limit a ! j \<or> pushes a ec j))"
    "c = 2 \<longrightarrow> calibrating a' = 0 \<and> ar_control_mode a' = YOUBOT_CMODE_MOTORSTOP \<and> \<not> jntlim_safety_disabled a'"
    "c = 0 \<longrightarrow> calibrating a' = 0 \<and> (calib_inv a \<longrightarrow> \<not> jntlim_safety_disabled a')"
proof -
  obtain n a1 e1 a2 e2 where
    1: "arm_proc_errflg E (a\<lparr>jnt_inf := map (copy_inputs ec) (jnt_inf a)\<rparr>) e = (n, a1, e1)"
    and 2: "arm_prepare E a1 e1 = (a2, e2)" and 3: "arm_command E a2 e2 = (a', e')"
    by (rule arm_update_parts [OF assms(2)])
  note k1 = arm_errflg_keeps [OF 1, simplified]
  note k3 = arm_command_keeps [OF 3]
  have wf1: "wf_arm a1" by (rule wf_arm_cong [OF k1(2,4) assms(1)])
  have k2: "same_joints a1 a2" by (rule arm_prepare_keeps [OF 2 wf1])
  have conf: "arm_is_configured a1"
    using assms(3) same_joints_configured [OF k2] same_joints_configured [of a2 a'] k3 by blast
  obtain b where b: "jnt_inf b = jnt_inf a1" "ar_mod_init_stat b = ar_mod_init_stat a1"
    "axis_at_limit b = axis_at_limit a1" "ar_detected b = ar_detected a1"
    "calibrating b = 1 \<and> jntlim_safety_disabled b
      \<or> calibrating b = calibrating a1 \<and> jntlim_safety_disabled b = jntlim_safety_disabled a1"
    "silent E \<longrightarrow> calibrating b = calibrating a1 \<and> jntlim_safety_disabled b = jntlim_safety_disabled a1"
    "calibrating b \<noteq> 0 \<longrightarrow> a2 = calibration_step (y_fpu E) b"
    "calibrating b = 0 \<longrightarrow> same_joints b a2 \<and> calibrating a2 = 0
      \<and> jntlim_safety_disabled a2 = jntlim_safety_disabled b"
    by (rule arm_prepare_configured [OF 2 conf])
  have wfb: "wf_arm b" using b(1,3) wf1 by (simp add: wf_arm_def)
  have len: "length (jnt_inf a) = 5" "length (jnt_inf b) = 5"
    using assms(1) wfb by (simp_all add: wf_arm_def youbot_sizes)
  have at: "at_limit j (jnt_inf b ! j) = pushes a ec j" if "j < 5" for j
    using copy_inputs_joint [OF k1(1)] that by (simp add: at_limit_def pushes_def b(1) len)
  have arr: "arrived b = (\<forall>j < 5. axis_at_limit a ! j \<or> pushes a ec j)"
    using at by (auto simp: arrived_def len b(3) k1(4))
  have safe: "jntlim_safety_disabled b = (calibrating b \<noteq> 0)" if "calib_inv a"
    using that b(5) k1(5,6) by (auto simp: calib_inv_def)
  show thesis
  proof (rule that [of "calibrating b"])
    show "calibrating b = 1 \<or> calibrating b = calibrating a" using b(5) k1(5) by auto
    show "silent E \<longrightarrow> calibrating b = calibrating a" using b(6) k1(5) by simp
    show "calibrating b = 1 \<longrightarrow> (\<forall>j < 5. axis_at_limit a ! j \<or> pushes a ec j) \<longrightarrow> calibrating a' = 2
       \<and> ar_control_mode a' = YOUBOT_CMODE_SET_POSITION_TO_REFERENCE \<and> (calib_inv a \<longrightarrow> jntlim_safety_disabled a')"
      using calibration_step_spec(2) [OF wfb b(7) [rule_format]] arr k3 safe by (auto simp: arm_modes_def)
    show "calibrating b = 1 \<longrightarrow> \<not> (\<forall>j < 5. axis_at_limit a ! j \<or> pushes a ec j) \<longrightarrow> calibrating a' = 1
       \<and> ar_control_mode a' = YOUBOT_CMODE_VELOCITY \<and> (calib_inv a \<longrightarrow> jntlim_safety_disabled a')
       \<and> (\<forall>j < 5. axis_at_limit a' ! j = (axis_at_limit a ! j \<or> pushes a ec j))"
      using calibration_step_spec(3) [OF wfb b(7) [rule_format]] arr k3 safe at
      by (simp add: arm_modes_def b(3) k1(4) len)
    show "calibrating b = 2 \<longrightarrow> calibrating a' = 0 \<and> ar_control_mode a' = YOUBOT_CMODE_MOTORSTOP
       \<and> \<not> jntlim_safety_disabled a'"
      using calibration_step_spec(4) [OF wfb b(7) [rule_format]] k3 by (simp add: arm_modes_def)
    show "calibrating b = 0 \<longrightarrow> calibrating a' = 0 \<and> (calib_inv a \<longrightarrow> \<not> jntlim_safety_disabled a')"
      using b(8) k3 safe by simp
  qed
qed

lemma arm_update_modes:
  assumes "wf_arm a" "arm_proc_update E a ec e = (r, a', ec', e')"
  shows "wf_arm a' \<and> r = 0 \<and> map slave_idx (jnt_inf a') = map slave_idx (jnt_inf a)
    \<and> ar_detected a' = ar_detected a
    \<and> ar_mod_init_stat a' = ar_mod_init_stat a OR init_bits 0 (map (copy_inputs ec) (jnt_inf a))
    \<and> ar_control_mode a' \<in> arm_modes
    \<and> (\<not> arm_is_configured a' \<longrightarrow> ar_control_mode a' = YOUBOT_CMODE_INITIALIZE \<and> calibrating a' = calibrating a)"
proof -
  obtain n a1 e1 a2 e2 where
    1: "arm_proc_errflg E (a\<lparr>jnt_inf := map (copy_inputs ec) (jnt_inf a)\<rparr>) e = (n, a1, e1)"
    and 2: "arm_prepare E a1 e1 = (a2, e2)" and 3: "arm_command E a2 e2 = (a', e')" and r: "r = 0"
    by (rule arm_update_parts [OF assms(2)])
  note k1 = arm_errflg_keeps [OF 1, simplified]
  note k3 = arm_command_keeps [OF 3]
  have wf1: "wf_arm a1" by (rule wf_arm_cong [OF k1(2,4) assms(1)])
  have k: "same_joints a1 a'" using arm_prepare_keeps [OF 2 wf1] k3 same_joints_trans by blast
  have init: "ar_control_mode a' = YOUBOT_CMODE_INITIALIZE \<and> calibrating a' = calibrating a" if "\<not> arm_is_configured a'"
  proof -
    have "\<not> arm_is_configured a1" using that same_joints_configured [OF k] by simp
    with 2 k1(5) have "ar_control_mode a2 = YOUBOT_CMODE_INITIALIZE" "calibrating a2 = calibrating a"
      by (auto simp: arm_prepare_def)
    with k3 show ?thesis by (simp add: arm_modes_def)
  qed
  have stop: "YOUBOT_CMODE_MOTORSTOP \<in> arm_modes" by (simp add: arm_modes_def)
  show ?thesis
    using same_joints_wf [OF k wf1] r k k1(2,3,7) k3 init stop by (simp add: same_joints_def comp_def)
qed

subsection \<open>Properties of the arm\<close>

text \<open>Whatever the sensors and the ports deliver, an update leaves the arm in a mode it
  supports, in initialise unless all joints have reported that they are initialised, and
  sends every joint that mode with its command as the limit scaling leaves it; nothing is
  written to any other slave.\<close>

lemma arm_outputs:
  assumes "wf_arm a" "arm_proc_update E a ec e = (r, a', ec', e')"
  shows "wf_arm a' \<and> r = 0 \<and> ar_control_mode a' \<in> arm_modes
    \<and> (\<not> arm_is_configured a' \<longrightarrow> ar_control_mode a' = YOUBOT_CMODE_INITIALIZE)
    \<and> (\<forall>j < YOUBOT_NR_OF_JOINTS. es_outputs (ec' (unat (slave_idx (jnt_inf a' ! j))))
         = \<lparr>mo_value = scale_down_cmd_val (y_fpu E) a' j, mo_controller_mode = ar_control_mode a'\<rparr>)
    \<and> (\<forall>j. j \<notin> unat ` set (map slave_idx (jnt_inf a)) \<longrightarrow> ec' j = ec j)"
proof -
  have ec': "ec' = put_outputs (ar_control_mode a')
      (map2 (\<lambda>i m. (slave_idx m, scale_down_cmd_val (y_fpu E) a' i)) [0..<length (jnt_inf a')] (jnt_inf a')) ec"
    by (rule arm_update_parts [OF assms(2)])
  note m = arm_update_modes [OF assms]
  let ?os = "map2 (\<lambda>i m. (slave_idx m, scale_down_cmd_val (y_fpu E) a' i)) [0..<length (jnt_inf a')] (jnt_inf a')"
  have fst_os: "map fst ?os = map slave_idx (jnt_inf a')" by (rule nth_equalityI) simp_all
  have len: "length (jnt_inf a') = YOUBOT_NR_OF_JOINTS" using m by (simp add: wf_arm_def)
  have at: "es_outputs (ec' (unat (slave_idx (jnt_inf a' ! j))))
      = \<lparr>mo_value = scale_down_cmd_val (y_fpu E) a' j, mo_controller_mode = ar_control_mode a'\<rparr>"
    if "j < YOUBOT_NR_OF_JOINTS" for j
    unfolding ec'
  proof (rule put_outputs_at)
    have "distinct (map slave_idx (jnt_inf a'))" using m unfolding wf_arm_def by blast
    then show "distinct (map fst ?os)" unfolding fst_os .
    have "?os ! j \<in> set ?os" using that len by (intro nth_mem) simp
    then show "(slave_idx (jnt_inf a' ! j), scale_down_cmd_val (y_fpu E) a' j) \<in> set ?os"
      using that len by simp
  qed
  have other: "ec' j = ec j" if "j \<notin> unat ` set (map slave_idx (jnt_inf a))" for j
  proof -
    have "(unat \<circ> fst) ` set ?os = unat ` set (map fst ?os)" by (simp add: image_image)
    with that m show ?thesis unfolding ec' fst_os by (intro put_outputs_other) simp
  qed
  from m at other show ?thesis by simp
qed

text \<open>C30: The calibration is the automaton: idle, moving all joints in velocity mode, then one update
  that sets the reference position, then stop. It takes no account of the error flags and
  cannot be left while joints are moving, the reference is set only when every joint has
  pushed against its limit, and the joint limits are watched again exactly when the
  calibration is over.\<close>

theorem arm_calibration:
  assumes "wf_arm a" "calib_inv a" "arm_proc_update E a ec e = (r, a', ec', e')" "arm_is_configured a'"
  shows "calib_inv a' \<and> calib_next (calibrating a) (ar_control_mode a') (calibrating a')
    \<and> (calibrating a' = 2 \<longrightarrow> (\<forall>j < 5. axis_at_limit a ! j \<or> pushes a ec j))"
proof -
  obtain c where c: "c = 1 \<or> c = calibrating a"
    "c = 1 \<longrightarrow> (\<forall>j < 5. axis_at_limit a ! j \<or> pushes a ec j) \<longrightarrow> calibrating a' = 2
       \<and> ar_control_mode a' = YOUBOT_CMODE_SET_POSITION_TO_REFERENCE \<and> (calib_inv a \<longrightarrow> jntlim_safety_disabled a')"
    "c = 1 \<longrightarrow> \<not> (\<forall>j < 5. axis_at_limit a ! j \<or> pushes a ec j) \<longrightarrow> calibrating a' = 1
       \<and> ar_control_mode a' = YOUBOT_CMODE_VELOCITY \<and> (calib_inv a \<longrightarrow> jntlim_safety_disabled a')"
    "c = 2 \<longrightarrow> calibrating a' = 0 \<and> ar_control_mode a' = YOUBOT_CMODE_MOTORSTOP \<and> \<not> jntlim_safety_disabled a'"
    "c = 0 \<longrightarrow> calibrating a' = 0 \<and> (calib_inv a \<longrightarrow> \<not> jntlim_safety_disabled a')"
    by (rule arm_update_calibration [OF assms(1,3,4)]) blast
  have m: "ar_control_mode a' \<in> arm_modes" using arm_update_modes [OF assms(1,3)] by simp
  have range: "calibrating a \<in> {0, 1, 2}" using assms(2) by (simp add: calib_inv_def)
  consider "c = 1" "\<forall>j < 5. axis_at_limit a ! j \<or> pushes a ec j" | "c = 1" "\<not> (\<forall>j < 5. axis_at_limit a ! j \<or> pushes a ec j)"
    | "c = 2" | "c = 0" using c(1) range by blast
  then show ?thesis
  proof cases
    case 1
    with c(2) assms(2) range show ?thesis by (auto simp: calib_inv_def intro: calib_next.intros)
  next
    case 2
    with c(3) assms(2) range show ?thesis by (auto simp: calib_inv_def intro: calib_next.intros)
  next
    case 3
    with c(1,4) show ?thesis by (auto simp: calib_inv_def intro: calib_next.intros)
  next
    case 4
    with c(1,5) assms(2) m show ?thesis by (auto simp: calib_inv_def intro: calib_next.intros)
  qed
qed

subsection \<open>The calibration ends\<close>

fun arm_run ::
    "('e, 'd) yenv \<Rightarrow> 'd youbot_arm_info \<Rightarrow> (nat \<Rightarrow> ec_slave) list \<Rightarrow> 'e \<Rightarrow> 'd youbot_arm_info \<times> 'e" where
  "arm_run E a [] e = (a, e)"
| "arm_run E a (ec # ecs) e = (let (r, a, ec', e) = arm_proc_update E a ec e in arm_run E a ecs e)"

lemma arm_run_append: "arm_run E a (xs @ ys) e = (let (a, e) = arm_run E a xs e in arm_run E a ys e)"
  by (induction xs arbitrary: a e) (simp_all split: prod.split)

lemma init_bits_bound: "bit (init_bits i ms) n \<Longrightarrow> n < i + length ms"
proof (induction ms arbitrary: i)
  case (Cons m ms)
  from Cons.prems have "n = i \<or> bit (init_bits (Suc i) ms) n"
    by (auto simp: bit_or_iff bit_exp_iff split: if_splits)
  with Cons.IH [of "Suc i"] show ?case by auto
qed simp

text \<open>Once all joints are initialised they stay so.\<close>

lemma arm_configured_stays:
  assumes "wf_arm a" "arm_proc_update E a ec e = (r, a', ec', e')" "arm_is_configured a"
  shows "arm_is_configured a'"
proof -
  let ?b = "init_bits 0 (map (copy_inputs ec) (jnt_inf a))"
  have full: "(push_bit YOUBOT_NR_OF_JOINTS 1 - 1 :: u32) = mask 5"
    by (simp add: youbot_sizes mask_eq_exp_minus_1)
  have "n < 5" if "bit ?b n" for n
    using init_bits_bound [OF that] assms(1) by (simp add: wf_arm_def youbot_sizes)
  then have "mask 5 OR ?b = mask 5" by (intro bit_word_eqI) (auto simp: bit_or_iff bit_mask_iff)
  with arm_update_modes [OF assms(1,2)] assms(3) show ?thesis
    unfolding arm_is_configured_def full by metis
qed

lemma pushes_cong:
  assumes "map slave_idx (jnt_inf a') = map slave_idx (jnt_inf a)" "wf_arm a" "j < 5"
  shows "pushes a' ec j = pushes a ec j"
proof -
  have "map slave_idx (jnt_inf a') ! j = map slave_idx (jnt_inf a) ! j" using assms(1) by simp
  moreover have "length (jnt_inf a') = length (jnt_inf a)" using map_eq_imp_length_eq [OF assms(1)] .
  ultimately show ?thesis using assms(2,3) by (simp add: pushes_def wf_arm_def youbot_sizes)
qed

text \<open>The state of an arm in the middle of its calibration.\<close>

definition moving_arm :: "'d youbot_arm_info \<Rightarrow> bool" where
  "moving_arm a \<longleftrightarrow> wf_arm a \<and> arm_is_configured a \<and> calibrating a = 1"

lemma moving_arm_step:
  assumes "moving_arm a" "arm_proc_update E a ec e = (r, a', ec', e')"
  shows "(\<forall>j < 5. axis_at_limit a ! j \<or> pushes a ec j) \<and> wf_arm a' \<and> arm_is_configured a' \<and> calibrating a' = 2
    \<or> \<not> (\<forall>j < 5. axis_at_limit a ! j \<or> pushes a ec j)
      \<and> moving_arm a' \<and> (\<forall>j < 5. axis_at_limit a' ! j = (axis_at_limit a ! j \<or> pushes a ec j))
      \<and> (\<forall>ec. \<forall>j < 5. pushes a' ec j = pushes a ec j)"
proof -
  have wf: "wf_arm a" "calibrating a = 1" using assms(1) by (simp_all add: moving_arm_def)
  have conf: "arm_is_configured a'"
    using arm_configured_stays [OF wf(1) assms(2)] assms(1) by (simp add: moving_arm_def)
  note m = arm_update_modes [OF wf(1) assms(2)]
  have p: "\<forall>ec. \<forall>j < 5. pushes a' ec j = pushes a ec j" using pushes_cong m wf(1) by blast
  show ?thesis
    by (rule arm_update_calibration [OF wf(1) assms(2) conf])
      (use wf(2) m conf p in \<open>auto simp: moving_arm_def\<close>)
qed

lemma arm_run_reaches:
  assumes "moving_arm a" "ecs \<noteq> []" "\<forall>j < 5. axis_at_limit a ! j \<or> (\<exists>ec \<in> set ecs. pushes a ec j)"
  shows "\<exists>k \<le> length ecs. \<exists>a' e'. arm_run E a (take k ecs) e = (a', e')
    \<and> wf_arm a' \<and> arm_is_configured a' \<and> calibrating a' = 2"
  using assms
proof (induction ecs arbitrary: a e)
  case (Cons ec ecs)
  obtain r a1 ec1 e1 where u: "arm_proc_update E a ec e = (r, a1, ec1, e1)" by (metis prod_cases4)
  from moving_arm_step [OF Cons.prems(1) u] show ?case
  proof (elim disjE conjE)
    assume "wf_arm a1" "arm_is_configured a1" "calibrating a1 = 2"
    with u show ?thesis by (intro exI [of _ 1]) simp
  next
    assume 0: "\<not> (\<forall>j < 5. axis_at_limit a ! j \<or> pushes a ec j)"
    assume 1: "moving_arm a1" "\<forall>j < 5. axis_at_limit a1 ! j = (axis_at_limit a ! j \<or> pushes a ec j)"
      "\<forall>ec. \<forall>j < 5. pushes a1 ec j = pushes a ec j"
    have all: "\<forall>j < 5. axis_at_limit a1 ! j \<or> (\<exists>ec \<in> set ecs. pushes a1 ec j)"
      using Cons.prems(3) 1(2,3) by auto
    from Cons.prems(3) 0 have "ecs \<noteq> []" by auto
    from Cons.IH [OF 1(1) this all, of e1] obtain k a' e' where
      "k \<le> length ecs" "arm_run E a1 (take k ecs) e1 = (a', e')" "wf_arm a'" "arm_is_configured a'" "calibrating a' = 2"
      by blast
    with u show ?thesis by (intro exI [of _ "Suc k"]) simp
  qed
qed simp

text \<open>C31: The calibration ends: if in a series of updates every joint pushes against its limit at
  least once, not necessarily at the same time, then the reference is reached within the
  series, and when no new command arrives the update after it stops the arm, ends the
  calibration and turns the limit scaling on again.\<close>

theorem arm_calibration_ends:
  assumes "moving_arm a" "silent E" "ecs \<noteq> []" "\<forall>j < 5. \<exists>ec \<in> set ecs. pushes a ec j"
  shows "\<exists>k \<le> length ecs. \<forall>x. \<exists>a' e'. arm_run E a (take k ecs @ [x]) e = (a', e')
    \<and> calibrating a' = 0 \<and> ar_control_mode a' = YOUBOT_CMODE_MOTORSTOP \<and> \<not> jntlim_safety_disabled a'"
proof -
  obtain k a1 e1 where k: "k \<le> length ecs" and 1: "arm_run E a (take k ecs) e = (a1, e1)"
    "wf_arm a1" "arm_is_configured a1" "calibrating a1 = 2"
    using arm_run_reaches [OF assms(1,3), of E e] assms(4) by blast
  have "\<exists>a' e'. arm_run E a (take k ecs @ [x]) e = (a', e')
      \<and> calibrating a' = 0 \<and> ar_control_mode a' = YOUBOT_CMODE_MOTORSTOP \<and> \<not> jntlim_safety_disabled a'" for x
  proof -
    obtain r a2 ec2 e2 where u: "arm_proc_update E a1 x e1 = (r, a2, ec2, e2)" by (metis prod_cases4)
    have "calibrating a2 = 0 \<and> ar_control_mode a2 = YOUBOT_CMODE_MOTORSTOP \<and> \<not> jntlim_safety_disabled a2"
      by (rule arm_update_calibration [OF 1(2) u arm_configured_stays [OF 1(2) u 1(3)]])
        (use 1(4) assms(2) in auto)
    with 1(1) u show ?thesis by (simp add: arm_run_append)
  qed
  with k show ?thesis by blast
qed

subsection \<open>An arm being calibrated\<close>

definition ex_silent :: "(ex_script, rat) yenv" where
  "ex_silent = ex_yenv\<lparr>y_read_ints := \<lambda>p e. (0, \<lambda>_. 0, e)\<rparr>"

definition ex_arm :: "rat youbot_arm_info" where
  "ex_arm = \<lparr>ar_detected = True, ar_mod_init_stat = 31, ar_control_mode = YOUBOT_CMODE_VELOCITY,
     jnt_inf = [ex_motor 7 0 0, ex_motor 8 0 0, ex_motor 9 0 0, ex_motor 10 0 0, ex_motor 11 0 0],
     ar_pos = [0, 0, 0, 0, 0], ar_vel = [0, 0, 0, 0, 0], ar_eff = [0, 0, 0, 0, 0], calibrating = 1,
     axis_at_limit = [True, False, False, False, False], jntlim_safety_disabled = True,
     ar_p_msr_pos = None, ar_p_msr_vel = None, ar_p_msr_eff = None, ar_p_control_mode = Some (0, 8),
     ar_p_calibrate_cmd = Some (0, 9), ar_p_cmd_pos = None, ar_p_cmd_vel = None, ar_p_cmd_cur = None,
     ar_p_cmd_eff = None, ar_p_arm_motorinfo = None, ar_p_gripper = None\<rparr>"

definition ex_pushing :: ec_slave where
  "ex_pushing = ex_slave\<lparr>es_inputs := (es_inputs ex_slave)\<lparr>mi_current := 2000\<rparr>\<rparr>"

lemma ex_arm_wf: "wf_arm ex_arm" "calib_inv ex_arm" "moving_arm ex_arm" "arm_is_configured ex_arm" "silent ex_silent"
  by (simp_all add: wf_arm_def calib_inv_def moving_arm_def arm_is_configured_def silent_def ex_silent_def
      ex_arm_def ex_motor_def youbot_sizes)

lemma ex_arm_pushes: "j < 5 \<Longrightarrow> pushes ex_arm (\<lambda>_. ex_pushing) j"
  by (auto simp: pushes_def ex_pushing_def ex_slave_def arm_calib_cur_high_def less_Suc_eq numeral_eq_Suc)

theorem arm_calibration_witness:
  "\<exists>r a' ec' e'. arm_proc_update ex_silent ex_arm (\<lambda>_. ex_pushing) (ex_script0 0) = (r, a', ec', e')
    \<and> calib_next 1 (ar_control_mode a') (calibrating a')"
proof -
  obtain r a' ec' e' where u: "arm_proc_update ex_silent ex_arm (\<lambda>_. ex_pushing) (ex_script0 0) = (r, a', ec', e')"
    by (metis prod_cases4)
  from arm_calibration [OF ex_arm_wf(1,2) u arm_configured_stays [OF ex_arm_wf(1) u ex_arm_wf(4)]] u
  show ?thesis by (simp add: ex_arm_def)
qed

theorem arm_calibration_ends_witness:
  "\<exists>k \<le> 1. \<exists>a' e'. arm_run ex_silent ex_arm (take k [\<lambda>_. ex_pushing] @ [\<lambda>_. ex_slave]) (ex_script0 0) = (a', e')
    \<and> calibrating a' = 0"
proof -
  have "\<forall>j < 5. \<exists>ec \<in> set [\<lambda>_. ex_pushing]. pushes ex_arm ec j" using ex_arm_pushes by simp
  from arm_calibration_ends [OF ex_arm_wf(3,5) _ this, of "ex_script0 0"] show ?thesis by fastforce
qed

subsection \<open>Scaling near the joint limits\<close>

text \<open>The bounds of the scaling range, with the limits in degrees.\<close>

abbreviation soft_start :: "'d fpu \<Rightarrow> 'd \<Rightarrow> 'd" where
  "soft_start F x \<equiv> deg_limit F x (flit F 8 1)"

abbreviation soft_end :: "'d fpu \<Rightarrow> 'd \<Rightarrow> 'd" where
  "soft_end F x \<equiv> deg_limit F x (flit F 85 2)"

lemma sint_i32_of_int: "- (2 ^ 31) \<le> x \<Longrightarrow> x < 2 ^ 31 \<Longrightarrow> sint (word_of_int x :: i32) = x"
  by (simp add: sint_sbintrunc' signed_take_bit_int_eq_self)

lemma ex_trunc_nonneg:
  assumes "0 \<le> s" "s \<le> 1" "0 \<le> k" "k < 2 ^ 31"
  shows "0 \<le> sint (ftoi ex_fpu (of_int k * s)) \<and> sint (ftoi ex_fpu (of_int k * s)) \<le> k"
proof -
  let ?x = "of_int k * s"
  have x: "0 \<le> ?x" "?x \<le> of_int k" using assms by (simp_all add: mult_left_le)
  then have f: "0 \<le> \<lfloor>?x\<rfloor>" "\<lfloor>?x\<rfloor> \<le> k" by (simp, metis floor_mono floor_of_int)
  with assms(4) have "sint (word_of_int \<lfloor>?x\<rfloor> :: i32) = \<lfloor>?x\<rfloor>"
    by (intro sint_i32_of_int; linarith)
  with x f show ?thesis by (simp add: ex_fpu_def not_less)
qed

lemma ex_trunc_nonpos:
  assumes "0 \<le> s" "s \<le> 1" "k \<le> 0" "- (2 ^ 31) \<le> k"
  shows "sint (ftoi ex_fpu (of_int k * s)) \<le> 0 \<and> k \<le> sint (ftoi ex_fpu (of_int k * s))"
proof -
  let ?x = "of_int k * s"
  have "0 \<le> of_int (- k) * s" "of_int (- k) * s \<le> of_int (- k)"
    using assms(1-3) by (simp_all only: mult_left_le of_int_0_le_iff neg_0_le_iff_le mult_nonneg_nonneg)
  then have x: "?x \<le> 0" "- ?x \<le> of_int (- k)" by simp_all
  then have f: "0 \<le> \<lfloor>- ?x\<rfloor>" "\<lfloor>- ?x\<rfloor> \<le> - k" by (simp, metis floor_mono floor_of_int)
  have "sint (word_of_int (- q) :: i32) = - q" if "0 \<le> q" "q \<le> - k" for q
    using that assms(4) by (intro sint_i32_of_int) simp_all
  from this [OF f] have "sint (word_of_int (- \<lfloor>- ?x\<rfloor>) :: i32) = - \<lfloor>- ?x\<rfloor>" .
  moreover have "ftoi ex_fpu ?x = word_of_int (- \<lfloor>- ?x\<rfloor>)"
    using x(1) by (cases "?x = 0") (auto simp: ex_fpu_def)
  ultimately show ?thesis using f by simp
qed

lemma ex_limits:
  assumes "i < 5"
  shows "0 < arm_upper_limits ex_fpu ! i" "arm_lower_limits ex_fpu ! i < 0"
  using assms by (auto simp: arm_upper_limits_def arm_lower_limits_def ex_fpu_def less_Suc_eq numeral_eq_Suc)

lemma ex_soft: "soft_start ex_fpu x = x * (355 / 25425) " "soft_end ex_fpu x = x * (6035 / 406800)"
  by (simp_all add: deg_limit_def ex_fpu_def)

text \<open>In exact arithmetic, between the start and the end of the soft range the command of a
  joint that moves towards its limit is scaled down and never reversed or amplified; a
  joint that moves away from the limit, or is not in the range, keeps its command.\<close>

lemma scale_down_bounded:
  assumes "i < 5" "\<not> jntlim_safety_disabled a" "ar_control_mode a \<noteq> YOUBOT_CMODE_POSITIONING"
    and "soft_end ex_fpu (arm_lower_limits ex_fpu ! i) \<le> ar_pos a ! i"
    and "ar_pos a ! i \<le> soft_end ex_fpu (arm_upper_limits ex_fpu ! i)"
  defines "v \<equiv> sint (cmd_val (jnt_inf a ! i))" and "v' \<equiv> sint (scale_down_cmd_val ex_fpu a i)"
  shows "(0 \<le> v \<longrightarrow> 0 \<le> v' \<and> v' \<le> v) \<and> (v \<le> 0 \<longrightarrow> v \<le> v' \<and> v' \<le> 0)
    \<and> (soft_start ex_fpu (arm_lower_limits ex_fpu ! i) < ar_pos a ! i
       \<and> ar_pos a ! i < soft_start ex_fpu (arm_upper_limits ex_fpu ! i) \<longrightarrow> v' = v)"
proof -
  let ?p = "ar_pos a ! i" and ?U = "arm_upper_limits ex_fpu ! i" and ?L = "arm_lower_limits ex_fpu ! i"
  note lim = ex_limits [OF assms(1)]
  let ?us = "soft_start ex_fpu ?U" and ?ue = "soft_end ex_fpu ?U"
  let ?ls = "soft_start ex_fpu ?L" and ?le = "soft_end ex_fpu ?L"
  have ord: "?us < ?ue" "?le < ?ls" "?ls < ?us" using lim unfolding ex_soft by simp_all
  have up: "0 \<le> (?ue - ?p) / (?ue - ?us)" "?us < ?p \<Longrightarrow> (?ue - ?p) / (?ue - ?us) \<le> 1"
    using ord(1) assms(5) by simp_all
  have lo: "0 \<le> (?le - ?p) / (?le - ?ls)" "?p < ?ls \<Longrightarrow> (?le - ?p) / (?le - ?ls) \<le> 1"
    using ord(2) assms(4) by (simp_all add: divide_nonpos_neg divide_le_eq)
  have ops: "fless ex_fpu = (<)" "fint ex_fpu = of_int" "fmul ex_fpu = (*)" "fsub ex_fpu = (-)" "fdiv ex_fpu = (/)"
    by (simp_all add: ex_fpu_def)
  define w where "w = cmd_val (jnt_inf a ! i)"
  have v: "v = sint w" by (simp add: v_def w_def)
  have s: "scale_down_cmd_val ex_fpu a i =
      (if ?p < ?us \<and> ?ls < ?p then w
       else if ?us < ?p \<and> 0 < sint w then ftoi ex_fpu (of_int (sint w) * ((?ue - ?p) / (?ue - ?us)))
       else if ?p < ?ls \<and> sint w < 0 then ftoi ex_fpu (of_int (sint w) * ((?le - ?p) / (?le - ?ls)))
       else w)"
    using assms(2,3) by (simp add: scale_down_cmd_val_def Let_def ops w_def)
  have range: "- (2 ^ 31) \<le> sint w" "sint w < 2 ^ 31" using sint_ge [of w] sint_lt [of w] by simp_all
  have hi: "0 \<le> v' \<and> v' \<le> v" if "?us < ?p" "0 < v" "\<not> (?p < ?us \<and> ?ls < ?p)"
    using ex_trunc_nonneg [OF up(1) up(2) [OF that(1)] _ range(2)] that unfolding v'_def v s by simp
  have low: "v' \<le> 0 \<and> v \<le> v'" if "?p < ?ls" "v < 0" "\<not> (?p < ?us \<and> ?ls < ?p)"
    using ex_trunc_nonpos [OF lo(1) lo(2) [OF that(1)] _ range(1)] that unfolding v'_def v s by simp
  have same: "v' = v" if "(?p < ?us \<and> ?ls < ?p) \<or> \<not> (?us < ?p \<and> 0 < v) \<and> \<not> (?p < ?ls \<and> v < 0)"
    using that unfolding v'_def v s by auto
  show ?thesis using hi low same by fastforce
qed


end
