(* ===== verification/YoubotBlock.thy ===== *)
theory YoubotBlock
  imports YoubotArm
begin

text \<open>
  The youBot driver as a block: detecting the base and the arms among the slaves,
  starting, stepping and cleaning up. The hooks work on the node's state for the
  configuration, the ports and the private data, on the master's table of slaves, and on
  the environment. The lemmas follow one fact through the driver's life: the motors of
  the base and of the arms that were detected are driven through different slaves.
\<close>

datatype 'd ypriv = YInfo "'d youbot_info" | YFreed

text \<open>The master's global variables, with the environment.\<close>

record 'e master =
  ec_slavecount :: int
  ec_slaves :: "nat \<Rightarrow> ec_slave"
  ec_env :: 'e

subsection \<open>Detection\<close>

definition YOUBOT_WHEEL_PWRB_NAME :: string where "YOUBOT_WHEEL_PWRB_NAME = ''KR-845''"
definition YOUBOT_WHEEL_CTRL_NAME :: string where "YOUBOT_WHEEL_CTRL_NAME = ''TMCM-174''"
definition YOUBOT_WHEEL_CTRL_NAME2 :: string where "YOUBOT_WHEEL_CTRL_NAME2 = ''TMCM-1632''"
definition YOUBOT_ARM_PWRB_NAME :: string where "YOUBOT_ARM_PWRB_NAME = ''KR-843''"
definition YOUBOT_ARM_CTRL_NAME :: string where "YOUBOT_ARM_CTRL_NAME = ''TMCM-KR-841''"
definition YOUBOT_ARM_CTRL_NAME2 :: string where "YOUBOT_ARM_CTRL_NAME2 = ''TMCM-1610''"

lemmas slave_names = YOUBOT_WHEEL_PWRB_NAME_def YOUBOT_WHEEL_CTRL_NAME_def YOUBOT_WHEEL_CTRL_NAME2_def
  YOUBOT_ARM_PWRB_NAME_def YOUBOT_ARM_CTRL_NAME_def YOUBOT_ARM_CTRL_NAME2_def

definition validate_base_slaves :: "(nat \<Rightarrow> ec_slave) \<Rightarrow> nat \<Rightarrow> int" where
  "validate_base_slaves ec start_num =
     (if es_name (ec start_num) \<noteq> YOUBOT_WHEEL_PWRB_NAME then -1
      else if \<exists>i \<in> set [start_num + 1..<start_num + YOUBOT_NR_OF_WHEELS + 1].
             es_name (ec i) = YOUBOT_WHEEL_CTRL_NAME \<and> es_name (ec i) = YOUBOT_WHEEL_CTRL_NAME2
      then -1 else 0)"

definition validate_arm_slaves :: "(nat \<Rightarrow> ec_slave) \<Rightarrow> nat \<Rightarrow> int" where
  "validate_arm_slaves ec start_num =
     (if es_name (ec start_num) \<noteq> YOUBOT_ARM_PWRB_NAME then -1
      else if \<exists>i \<in> set [start_num + 1..<start_num + YOUBOT_NR_OF_JOINTS + 1].
             es_name (ec i) = YOUBOT_ARM_CTRL_NAME \<and> es_name (ec i) = YOUBOT_ARM_CTRL_NAME2
      then -1 else 0)"

text \<open>The driver's data as \<open>calloc\<close> leaves them.\<close>

definition zero_motor :: youbot_motor_info where
  "zero_motor = \<lparr>slave_idx = 0, msr_pos = 0, msr_vel = 0, msr_cur = 0, error_flags = 0, msr_pwm = 0,
     i2t_ex = False, cmd_val = 0, max_cur = 0,
     stats = \<lparr>st_overcurrent = 0, st_undervoltage = 0, st_overvoltage = 0, st_overtemp = 0, st_hall_err = 0,
       st_encoder_err = 0, st_sine_comm_init_err = 0, st_emergency_stop = 0, st_ec_timeout = 0,
       st_i2t_exceeded = 0\<rparr>\<rparr>"

definition zero_base :: "'d \<Rightarrow> 'd youbot_base_info" where
  "zero_base z =
     (let v = \<lparr>vec_x = z, vec_y = z, vec_z = z\<rparr>; t = \<lparr>tw_vel = v, tw_rot = v\<rparr>
      in \<lparr>ba_detected = False, ba_mod_init_stat = 0, ba_control_mode = 0,
           wheel_inf = replicate YOUBOT_NR_OF_WHEELS zero_motor, last_cmd = TS 0 0, cmd_twist = t, odom_p = v,
           odom_started = 0, last_pos = replicate YOUBOT_NR_OF_WHEELS 0, odom_yaw = z, msr_twist = t,
           ba_p_control_mode = None, ba_p_cmd_twist = None, ba_p_cmd_vel = None, ba_p_cmd_cur = None,
           ba_p_msr_odom = None, ba_p_msr_twist = None, ba_p_base_motorinfo = None\<rparr>)"

definition zero_arm :: "'d \<Rightarrow> 'd youbot_arm_info" where
  "zero_arm z =
     (let zs = replicate YOUBOT_NR_OF_JOINTS z
      in \<lparr>ar_detected = False, ar_mod_init_stat = 0, ar_control_mode = 0,
           jnt_inf = replicate YOUBOT_NR_OF_JOINTS zero_motor, ar_pos = zs, ar_vel = zs, ar_eff = zs,
           calibrating = 0, axis_at_limit = replicate YOUBOT_NR_OF_JOINTS False, jntlim_safety_disabled = False,
           ar_p_msr_pos = None, ar_p_msr_vel = None, ar_p_msr_eff = None, ar_p_control_mode = None,
           ar_p_calibrate_cmd = None, ar_p_cmd_pos = None, ar_p_cmd_vel = None, ar_p_cmd_cur = None,
           ar_p_cmd_eff = None, ar_p_arm_motorinfo = None, ar_p_gripper = None\<rparr>)"

definition zero_info :: "'d \<Rightarrow> 'd youbot_info" where
  "zero_info z = \<lparr>yi_base = zero_base z, yi_arm1 = zero_arm z, yi_arm2 = zero_arm z, pd_send_err = 0, pd_recv_err = 0\<rparr>"

definition number_slaves :: "nat \<Rightarrow> youbot_motor_info list \<Rightarrow> youbot_motor_info list" where
  "number_slaves n ms = map2 (\<lambda>i m. m\<lparr>slave_idx := of_nat i\<rparr>) [n..<n + length ms] ms"

text \<open>The number of arms is stored through a pointer to \<open>uint32_t\<close>.\<close>

definition store_nr_arms :: "'p world \<Rightarrow> addr \<Rightarrow> u32 \<Rightarrow> 'p world option" where
  "store_nr_arms w b n = do {
     ref \<leftarrow> ubx_config_get_data w (Some b) (Some ''nr_arms'');
     (a, i) \<leftarrow> ref;
     c \<leftarrow> config_at w (a, i);
     bs \<leftarrow> live_bytes (d_data (c_value c));
     let xs = store32 (host w) n;
     guard (length xs \<le> length bs);
     let c = c\<lparr>c_value := (c_value c)\<lparr>d_data := BLive (xs @ drop (length xs) bs)\<rparr>\<rparr>;
     Some (upd_block w a (\<lambda>blk. blk\<lparr>configs := map_option (\<lambda>cs. cs[i := c]) (configs blk)\<rparr>)) }"

text \<open>The first arm's board follows the base, the second arm's the first arm; \<open>cur_slave\<close> runs on
  from what was detected before.\<close>

definition detect_arm :: "int \<Rightarrow> nat \<Rightarrow> (nat \<Rightarrow> ec_slave) \<Rightarrow> int \<Rightarrow> bool" where
  "detect_arm n_slaves board ec needed \<longleftrightarrow> needed \<le> n_slaves \<and> validate_arm_slaves ec board = 0"

definition use_arm :: "nat \<Rightarrow> 'd youbot_arm_info \<Rightarrow> nat \<times> 'd youbot_arm_info" where
  "use_arm cur_slave a =
     (let cur_slave = cur_slave + 1
      in (cur_slave + YOUBOT_NR_OF_JOINTS,
          a\<lparr>ar_detected := True, jnt_inf := number_slaves cur_slave (jnt_inf a)\<rparr>))"

definition detect_arms ::
    "int \<Rightarrow> (nat \<Rightarrow> ec_slave) \<Rightarrow> nat \<Rightarrow> addr \<Rightarrow> 'p world \<Rightarrow> 'd youbot_info \<Rightarrow> ('p world \<times> 'd youbot_info) option" where
  "detect_arms n_slaves ec cur_slave b w yi = do {
     (cur_slave, w, yi) \<leftarrow>
       (if detect_arm n_slaves (1 + YOUBOT_NR_OF_BASE_SLAVES) ec
             (int (YOUBOT_NR_OF_BASE_SLAVES + YOUBOT_NR_OF_ARM_SLAVES)) then do {
          w \<leftarrow> store_nr_arms w b 1;
          let (cur_slave, a) = use_arm cur_slave (yi_arm1 yi);
          Some (cur_slave, w, yi\<lparr>yi_arm1 := a\<rparr>) }
        else Some (cur_slave, w, yi));
     if detect_arm n_slaves (1 + YOUBOT_NR_OF_BASE_SLAVES + YOUBOT_NR_OF_ARM_SLAVES) ec
           (int (YOUBOT_NR_OF_BASE_SLAVES + 2 * YOUBOT_NR_OF_ARM_SLAVES)) then do {
       w \<leftarrow> store_nr_arms w b 2;
       let (cur_slave, a) = use_arm cur_slave (yi_arm2 yi);
       Some (w, yi\<lparr>yi_arm2 := a\<rparr>) }
     else Some (w, yi) }"

subsection \<open>The hooks\<close>

definition yset :: "'d ypriv world \<Rightarrow> addr \<Rightarrow> 'd ypriv \<Rightarrow> 'd ypriv world" where
  "yset w b p = upd_block w b (\<lambda>blk. blk\<lparr>private_data := Some p\<rparr>)"

definition youbot_info_of :: "'d ypriv world \<Rightarrow> addr \<Rightarrow> 'd youbot_info option" where
  "youbot_info_of w b = do {
     blk \<leftarrow> heap w b;
     p \<leftarrow> private_data blk;
     (case p of YInfo yi \<Rightarrow> Some yi | YFreed \<Rightarrow> None) }"

text \<open>Both lengths are stored in the same variable, so it is the number of bytes of the second
  configuration that limits the comparison with the empty string.\<close>

definition ethernet_if_unset :: "cbuf \<Rightarrow> u32 \<Rightarrow> bool option" where
  "ethernet_if_unset interface len =
     (if len = 0 then Some True
      else do { bs \<leftarrow> live_bytes interface; (case bs of [] \<Rightarrow> None | c # _ \<Rightarrow> Some (c = 0)) })"

definition config_detected :: "'d youbot_info \<Rightarrow> 'd youbot_info" where
  "config_detected yi =
     (let yi = (if ba_detected (yi_base yi) then yi\<lparr>yi_base := snd (base_config_params (yi_base yi))\<rparr> else yi);
          yi = (if ar_detected (yi_arm1 yi) then yi\<lparr>yi_arm1 := snd (arm_config_params (yi_arm1 yi))\<rparr> else yi)
      in if ar_detected (yi_arm2 yi) then yi\<lparr>yi_arm2 := snd (arm_config_params (yi_arm2 yi))\<rparr> else yi)"

definition youbot_init ::
    "('e, 'd) yenv \<Rightarrow> addr \<Rightarrow> 'd ypriv world \<Rightarrow> 'e master \<Rightarrow> (int \<times> 'd ypriv world \<times> 'e master) option" where
  "youbot_init E b w g = do {
     (interface, len) \<leftarrow> ubx_config_get_data_ptr w (Some b) (Some ''ethernet_if'');
     (conf_nr_arms, len) \<leftarrow> ubx_config_get_data_ptr w (Some b) (Some ''nr_arms'');
     unset \<leftarrow> ethernet_if_unset interface len;
     if unset then Some (-1, w, g)
     else if \<not> alloc_ok w then Some (-1, alloc_step w, g)
     else do {
       let yi = zero_info (fint (y_fpu E) 0);
       let w = yset (alloc_step w) b (YInfo yi);
       let out_free = (\<lambda>w g. Some (-1, yset w b YFreed, g));
       let (r, e) = y_ec_init E interface (ec_env g);
       let g = g\<lparr>ec_env := e\<rparr>;
       if r \<le> 0 then out_free w g
       else do {
         let (r, n_slaves, ec, e) = y_ec_config E (ec_env g);
         let g = \<lparr>ec_slavecount = n_slaves, ec_slaves = ec, ec_env = e\<rparr>;
         if r \<le> 0 then out_free w g
         else if \<not> (int YOUBOT_NR_OF_BASE_SLAVES \<le> n_slaves \<and> validate_base_slaves ec 1 = 0) then out_free w g
         else do {
           let ba = yi_base yi;
           let yi = yi\<lparr>yi_base := ba\<lparr>ba_detected := True, wheel_inf := number_slaves 2 (wheel_inf ba)\<rparr>\<rparr>;
           (w, yi) \<leftarrow> detect_arms n_slaves ec (2 + YOUBOT_NR_OF_WHEELS) b w yi;
           let w = yset w b (YInfo yi);
           let (ec, e) = y_statecheck E (y_SAFE_OP E) ec e;
           let g = g\<lparr>ec_slaves := ec, ec_env := e\<rparr>;
           if es_state (ec 0) \<noteq> y_SAFE_OP E then out_free w g
           else do {
             let (r, e) = y_send_pd E ec e;
             let g = g\<lparr>ec_env := e\<rparr>;
             if r \<le> 0 then out_free w g
             else do {
               let (r, ec, e) = y_receive_pd E ec e;
               let g = g\<lparr>ec_slaves := ec, ec_env := e\<rparr>;
               if r = 0 then out_free w g
               else Some (0, yset w b (YInfo (config_detected yi)), g) } } } } } }"

text \<open>The ports are looked up when the block starts; an assertion stops the program when one is
  missing. The second arm's ports are never looked up.\<close>

definition cached_port :: "'p world \<Rightarrow> addr \<Rightarrow> string \<Rightarrow> (addr \<times> nat) option" where
  "cached_port w b name = do { p \<leftarrow> ubx_port_get w (Some b) (Some name); p }"

definition cache_base_ports :: "'p world \<Rightarrow> addr \<Rightarrow> 'd youbot_base_info \<Rightarrow> 'd youbot_base_info option" where
  "cache_base_ports w b ba = do {
     p1 \<leftarrow> cached_port w b ''base_control_mode'';
     p2 \<leftarrow> cached_port w b ''base_cmd_twist'';
     p3 \<leftarrow> cached_port w b ''base_cmd_vel'';
     p4 \<leftarrow> cached_port w b ''base_cmd_cur'';
     p5 \<leftarrow> cached_port w b ''base_msr_odom'';
     p6 \<leftarrow> cached_port w b ''base_msr_twist'';
     p7 \<leftarrow> cached_port w b ''base_motorinfo'';
     Some (ba\<lparr>ba_p_control_mode := Some p1, ba_p_cmd_twist := Some p2, ba_p_cmd_vel := Some p3,
       ba_p_cmd_cur := Some p4, ba_p_msr_odom := Some p5, ba_p_msr_twist := Some p6,
       ba_p_base_motorinfo := Some p7\<rparr>) }"

definition cache_arm_ports :: "'p world \<Rightarrow> addr \<Rightarrow> 'd youbot_arm_info \<Rightarrow> 'd youbot_arm_info option" where
  "cache_arm_ports w b a = do {
     p1 \<leftarrow> cached_port w b ''arm1_control_mode'';
     p2 \<leftarrow> cached_port w b ''arm1_calibrate_cmd'';
     p3 \<leftarrow> cached_port w b ''arm1_cmd_pos'';
     p4 \<leftarrow> cached_port w b ''arm1_cmd_vel'';
     p5 \<leftarrow> cached_port w b ''arm1_cmd_cur'';
     p6 \<leftarrow> cached_port w b ''arm1_cmd_eff'';
     p7 \<leftarrow> cached_port w b ''arm1_msr_pos'';
     p8 \<leftarrow> cached_port w b ''arm1_msr_vel'';
     p9 \<leftarrow> cached_port w b ''arm1_msr_eff'';
     p10 \<leftarrow> cached_port w b ''arm1_motorinfo'';
     p11 \<leftarrow> cached_port w b ''arm1_gripper'';
     Some (a\<lparr>ar_p_control_mode := Some p1, ar_p_calibrate_cmd := Some p2, ar_p_cmd_pos := Some p3,
       ar_p_cmd_vel := Some p4, ar_p_cmd_cur := Some p5, ar_p_cmd_eff := Some p6, ar_p_msr_pos := Some p7,
       ar_p_msr_vel := Some p8, ar_p_msr_eff := Some p9, ar_p_arm_motorinfo := Some p10,
       ar_p_gripper := Some p11\<rparr>) }"

text \<open>Preparing what was detected, in this order, up to the first failure.\<close>

definition prepare_detected :: "('e, 'd) yenv \<Rightarrow> 'd youbot_info \<Rightarrow> 'e \<Rightarrow> bool \<times> 'd youbot_info \<times> 'e" where
  "prepare_detected E yi e =
     (let (r, ba, e) = (if ba_detected (yi_base yi) then base_prepare_start E (yi_base yi) e else (0, yi_base yi, e));
          yi = yi\<lparr>yi_base := ba\<rparr>
      in if r \<noteq> 0 then (False, yi, e)
         else
           let (r, a, e) = (if ar_detected (yi_arm1 yi) then arm_prepare_start E (yi_arm1 yi) e else (0, yi_arm1 yi, e));
               yi = yi\<lparr>yi_arm1 := a\<rparr>
           in if r \<noteq> 0 then (False, yi, e)
              else
                let (r, a, e) = (if ar_detected (yi_arm2 yi) then arm_prepare_start E (yi_arm2 yi) e else (0, yi_arm2 yi, e));
                    yi = yi\<lparr>yi_arm2 := a\<rparr>
                in (r = 0, yi, e))"

definition youbot_start ::
    "('e, 'd) yenv \<Rightarrow> addr \<Rightarrow> 'd ypriv world \<Rightarrow> 'e master \<Rightarrow> (int \<times> 'd ypriv world \<times> 'e master) option" where
  "youbot_start E b w g = do {
     yi \<leftarrow> youbot_info_of w b;
     let (ok, yi, e) = prepare_detected E yi (ec_env g);
     if \<not> ok then Some (-1, yset w b (YInfo yi), g\<lparr>ec_env := e\<rparr>)
     else do {
       let ec = (ec_slaves g)(0 := (ec_slaves g 0)\<lparr>es_state := y_OPERATIONAL E\<rparr>);
       let e = y_writestate E ec e;
       let (ec, e) = y_statecheck E (y_OPERATIONAL E) ec e;
       let g = g\<lparr>ec_slaves := ec, ec_env := e\<rparr>;
       if es_state (ec 0) \<noteq> y_OPERATIONAL E then Some (-1, yset w b (YInfo yi), g)
       else do {
         let (r, e) = y_send_pd E ec e;
         let yi = (if r \<le> 0 then yi\<lparr>pd_send_err := pd_send_err yi + 1\<rparr> else yi);
         ba \<leftarrow> cache_base_ports w b (yi_base yi);
         a \<leftarrow> cache_arm_ports w b (yi_arm1 yi);
         Some (0, yset w b (YInfo (yi\<lparr>yi_base := ba, yi_arm1 := a\<rparr>)), g\<lparr>ec_env := e\<rparr>) } } }"

text \<open>The parts that were detected are updated one after the other.\<close>

definition update_detected ::
    "('e, 'd) yenv \<Rightarrow> 'd youbot_info \<Rightarrow> (nat \<Rightarrow> ec_slave) \<Rightarrow> 'e
     \<Rightarrow> ('d youbot_info \<times> (nat \<Rightarrow> ec_slave) \<times> 'e) option" where
  "update_detected E yi ec e = do {
     (r, ba, ec, e) \<leftarrow> (if ba_detected (yi_base yi) then base_proc_update E (yi_base yi) ec e
                       else Some (0, yi_base yi, ec, e));
     let (r, a1, ec, e) = (if ar_detected (yi_arm1 yi) then arm_proc_update E (yi_arm1 yi) ec e
                           else (0, yi_arm1 yi, ec, e));
     let (r, a2, ec, e) = (if ar_detected (yi_arm2 yi) then arm_proc_update E (yi_arm2 yi) ec e
                           else (0, yi_arm2 yi, ec, e));
     Some (yi\<lparr>yi_base := ba, yi_arm1 := a1, yi_arm2 := a2\<rparr>, ec, e) }"

definition youbot_step ::
    "('e, 'd) yenv \<Rightarrow> addr \<Rightarrow> 'd ypriv world \<Rightarrow> 'e master \<Rightarrow> ('d ypriv world \<times> 'e master) option" where
  "youbot_step E b w g = do {
     yi \<leftarrow> youbot_info_of w b;
     let (r, ec, e) = y_receive_pd E (ec_slaves g) (ec_env g);
     (yi, ec, e) \<leftarrow> (if r = 0 then Some (yi\<lparr>pd_recv_err := pd_recv_err yi + 1\<rparr>, ec, e)
                     else update_detected E yi ec e);
     let (r, e) = y_send_pd E ec e;
     let yi = (if r \<le> 0 then yi\<lparr>pd_send_err := pd_send_err yi + 1\<rparr> else yi);
     Some (yset w b (YInfo yi), g\<lparr>ec_slaves := ec, ec_env := e\<rparr>) }"

definition youbot_stop :: "addr \<Rightarrow> 'd ypriv world \<Rightarrow> 'd ypriv world option" where
  "youbot_stop b w = Some w"

definition youbot_cleanup ::
    "('e, 'd) yenv \<Rightarrow> addr \<Rightarrow> 'd ypriv world \<Rightarrow> 'e master \<Rightarrow> ('d ypriv world \<times> 'e master) option" where
  "youbot_cleanup E b w g = do {
     let ec = (ec_slaves g)(0 := (ec_slaves g 0)\<lparr>es_state := y_PRE_OP E\<rparr>);
     let e = y_ec_close E (y_writestate E ec (ec_env g));
     blk \<leftarrow> heap w b;
     (case private_data blk of
        None \<Rightarrow> Some (w, g\<lparr>ec_slaves := ec, ec_env := e\<rparr>)
      | Some YFreed \<Rightarrow> None
      | Some (YInfo yi) \<Rightarrow> Some (yset w b YFreed, g\<lparr>ec_slaves := ec, ec_env := e\<rparr>)) }"

text \<open>Loading the module: the results of registering the types are not looked at.\<close>

fun register_all :: "addr list \<Rightarrow> 'p world \<Rightarrow> 'p world option" where
  "register_all [] w = Some w"
| "register_all (t # ts) w = do { (r, w) \<leftarrow> ubx_type_register w (Some t); register_all ts w }"

definition youbot_mod_init :: "addr list \<Rightarrow> addr \<Rightarrow> 'p world \<Rightarrow> (int \<times> 'p world) option" where
  "youbot_mod_init youbot_types youbot_comp w = do {
     w \<leftarrow> register_all youbot_types w;
     ubx_block_register w youbot_comp }"

definition youbot_mod_cleanup :: "'p world \<Rightarrow> 'p world" where
  "youbot_mod_cleanup w =
     (let w = snd (ubx_type_unregister w ''struct youbot_base_motorinfo'');
          w = snd (ubx_type_unregister w ''struct youbot_arm_motorinfo'')
      in snd (ubx_block_unregister w ''youbot/youbot_driver''))"

subsection \<open>Slave numbers\<close>

text \<open>The slaves of the parts that are in use, and that no two motors share one.\<close>

definition slaves_of :: "'d youbot_info \<Rightarrow> u32 list" where
  "slaves_of yi =
     (if ba_detected (yi_base yi) then map slave_idx (wheel_inf (yi_base yi)) else [])
     @ (if ar_detected (yi_arm1 yi) then map slave_idx (jnt_inf (yi_arm1 yi)) else [])
     @ (if ar_detected (yi_arm2 yi) then map slave_idx (jnt_inf (yi_arm2 yi)) else [])"

definition arm_size :: "'d youbot_arm_info \<Rightarrow> bool" where
  "arm_size a \<longleftrightarrow> length (jnt_inf a) = YOUBOT_NR_OF_JOINTS \<and> length (axis_at_limit a) = YOUBOT_NR_OF_JOINTS"

definition wf_info :: "'d youbot_info \<Rightarrow> bool" where
  "wf_info yi \<longleftrightarrow> length (wheel_inf (yi_base yi)) = YOUBOT_NR_OF_WHEELS
     \<and> arm_size (yi_arm1 yi) \<and> arm_size (yi_arm2 yi) \<and> distinct (slaves_of yi)"

lemma wf_info_parts:
  assumes "wf_info yi"
  shows "ba_detected (yi_base yi) \<Longrightarrow> wf_base (yi_base yi)"
    "ar_detected (yi_arm1 yi) \<Longrightarrow> wf_arm (yi_arm1 yi)" "ar_detected (yi_arm2 yi) \<Longrightarrow> wf_arm (yi_arm2 yi)"
  using assms by (simp_all add: wf_info_def slaves_of_def wf_base_def wf_arm_def arm_size_def)

lemma slave_idx_number_slaves:
  "map slave_idx (number_slaves n ms) = map of_nat [n..<n + length ms]"
  by (rule nth_equalityI) (simp_all add: number_slaves_def)

lemma length_number_slaves [simp]: "length (number_slaves n ms) = length ms"
  by (simp add: number_slaves_def)

lemma upt_numbers: "[2..<6] = [2, 3, 4, 5::nat]" "[7..<12] = [7, 8, 9, 10, 11::nat]" "[13..<18] = [13, 14, 15, 16, 17::nat]"
  by (simp_all add: upt_rec)

lemma zero_info_sel [simp]:
  "length (wheel_inf (yi_base (zero_info z))) = YOUBOT_NR_OF_WHEELS" "\<not> ar_detected (yi_arm1 (zero_info z))"
  "\<not> ar_detected (yi_arm2 (zero_info z))" "arm_size (yi_arm1 (zero_info z))" "arm_size (yi_arm2 (zero_info z))"
  by (simp_all add: zero_info_def zero_base_def zero_arm_def arm_size_def Let_def)

text \<open>Which arms are found, and the numbers the base and the arms get. An arm that is not detected is not counted, so a
  second arm behind it would be given the numbers of the first.\<close>

definition on_bus :: "int \<Rightarrow> (nat \<Rightarrow> ec_slave) \<Rightarrow> 'd youbot_info \<Rightarrow> bool" where
  "on_bus n ec yi \<longleftrightarrow> (ar_detected (yi_arm1 yi) \<longleftrightarrow> 11 \<le> n \<and> validate_arm_slaves ec 6 = 0)
     \<and> (ar_detected (yi_arm2 yi) \<longleftrightarrow> 17 \<le> n \<and> validate_arm_slaves ec 12 = 0)"

definition numbered :: "'d youbot_info \<Rightarrow> bool" where
  "numbered yi \<longleftrightarrow> ba_detected (yi_base yi) \<and> map slave_idx (wheel_inf (yi_base yi)) = [2, 3, 4, 5]
     \<and> arm_size (yi_arm1 yi) \<and> arm_size (yi_arm2 yi)
     \<and> (ar_detected (yi_arm1 yi) \<longrightarrow> map slave_idx (jnt_inf (yi_arm1 yi)) = [7, 8, 9, 10, 11])
     \<and> (ar_detected (yi_arm2 yi) \<longrightarrow> map slave_idx (jnt_inf (yi_arm2 yi)) =
          (if ar_detected (yi_arm1 yi) then [13, 14, 15, 16, 17] else [7, 8, 9, 10, 11]))"

lemma numbered_wf:
  assumes "numbered yi"
  shows "wf_info yi"
proof -
  have "length (map slave_idx (wheel_inf (yi_base yi))) = 4" using assms by (simp add: numbered_def)
  with assms show ?thesis
    by (auto simp: numbered_def wf_info_def slaves_of_def youbot_sizes)
qed

lemma detect_arms_numbered:
  assumes "detect_arms n ec 6 b w yi = Some (w', yi')" "ba_detected (yi_base yi)"
    "map slave_idx (wheel_inf (yi_base yi)) = [2, 3, 4, 5]" "\<not> ar_detected (yi_arm1 yi)" "\<not> ar_detected (yi_arm2 yi)"
    "arm_size (yi_arm1 yi)" "arm_size (yi_arm2 yi)"
  shows "numbered yi' \<and> on_bus n ec yi'"
proof -
  have len: "length (jnt_inf (yi_arm1 yi)) = 5" "length (jnt_inf (yi_arm2 yi)) = 5"
    using assms(6,7) by (simp_all add: arm_size_def youbot_sizes)
  show ?thesis
    using assms len unfolding detect_arms_def use_arm_def Let_def detect_arm_def
    by (cases "11 \<le> n \<and> validate_arm_slaves ec 6 = 0"; cases "17 \<le> n \<and> validate_arm_slaves ec 12 = 0")
       (auto simp: numbered_def on_bus_def slave_idx_number_slaves youbot_sizes upt_numbers arm_size_def)
qed

subsection \<open>The private data\<close>

lemma yset_sel [simp]: "heap (yset w b p) c = None \<longleftrightarrow> heap w c = None"
  by (auto simp: yset_def heap_upd_block)

lemma youbot_info_yset [simp]:
  "heap w b \<noteq> None \<Longrightarrow> youbot_info_of (yset w b (YInfo yi)) b = Some yi"
  by (auto simp: youbot_info_of_def yset_def heap_upd_block)

lemma store_nr_arms_heap: "store_nr_arms w b n = Some w' \<Longrightarrow> heap w' c = None \<longleftrightarrow> heap w c = None"
  by (auto simp: store_nr_arms_def heap_upd_block Let_def split: if_splits)

lemma detect_arms_heap: "detect_arms n ec k b w yi = Some (w', yi') \<Longrightarrow> heap w' c = None \<longleftrightarrow> heap w c = None"
  by (auto simp: detect_arms_def use_arm_def Let_def dest!: store_nr_arms_heap [of _ _ _ _ c] split: if_splits)

lemma config_ptr_live: "ubx_config_get_data_ptr w (Some b) n = Some r \<Longrightarrow> heap w b \<noteq> None"
  by (auto simp: ubx_config_get_data_ptr_def ubx_config_get_data_def ubx_config_get_def)

lemma config_detected_keeps:
  "numbered yi \<Longrightarrow> numbered (config_detected yi)" "on_bus n ec (config_detected yi) = on_bus n ec yi"
  by (auto simp: numbered_def on_bus_def config_detected_def base_config_params_def arm_config_params_def Let_def arm_size_def)

text \<open>A successful initialisation, with the state after the detection.\<close>

definition detected_base :: "'d \<Rightarrow> 'd youbot_info" where
  "detected_base z =
     (let ba = yi_base (zero_info z)
      in (zero_info z)\<lparr>yi_base := ba\<lparr>ba_detected := True, wheel_inf := number_slaves 2 (wheel_inf ba)\<rparr>\<rparr>)"

lemma youbot_init_post:
  "post (youbot_init E b w g) (\<lambda>(r, w', g'). r = 0 \<longrightarrow>
     heap w b \<noteq> None
     \<and> (\<exists>interface r n ec e w2 yi. y_ec_config E (snd (y_ec_init E interface (ec_env g))) = (r, n, ec, e)
          \<and> int YOUBOT_NR_OF_BASE_SLAVES \<le> n \<and> validate_base_slaves ec 1 = 0
          \<and> detect_arms n ec (2 + YOUBOT_NR_OF_WHEELS) b
            (yset (alloc_step w) b (YInfo (zero_info (fint (y_fpu E) 0)))) (detected_base (fint (y_fpu E) 0)) = Some (w2, yi)
          \<and> w' = yset (yset w2 b (YInfo yi)) b (YInfo (config_detected yi))))"
  unfolding youbot_init_def Let_def
  by (auto simp: wlp detected_base_def Let_def dest: config_ptr_live intro!: postI) (metis snd_conv)

lemma youbot_init_result:
  assumes "youbot_init E b w g = Some (0, w', g')"
  obtains interface r n ec e w2 yi where
    "heap w b \<noteq> None"
    "y_ec_config E (snd (y_ec_init E interface (ec_env g))) = (r, n, ec, e)"
    "int YOUBOT_NR_OF_BASE_SLAVES \<le> n" "validate_base_slaves ec 1 = 0"
    "detect_arms n ec (2 + YOUBOT_NR_OF_WHEELS) b (yset (alloc_step w) b (YInfo (zero_info (fint (y_fpu E) 0))))
       (detected_base (fint (y_fpu E) 0)) = Some (w2, yi)"
    "youbot_info_of w' b = Some (config_detected yi)"
proof -
  from postD [OF youbot_init_post assms] obtain interface r n ec e w2 yi where live: "heap w b \<noteq> None"
    and c: "y_ec_config E (snd (y_ec_init E interface (ec_env g))) = (r, n, ec, e)"
      "int YOUBOT_NR_OF_BASE_SLAVES \<le> n" "validate_base_slaves ec 1 = 0"
    and d: "detect_arms n ec (2 + YOUBOT_NR_OF_WHEELS) b (yset (alloc_step w) b (YInfo (zero_info (fint (y_fpu E) 0))))
       (detected_base (fint (y_fpu E) 0)) = Some (w2, yi)"
    and w': "w' = yset (yset w2 b (YInfo yi)) b (YInfo (config_detected yi))" by auto
  have "heap w2 b \<noteq> None" using detect_arms_heap [OF d, of b] live by simp
  then have "youbot_info_of w' b = Some (config_detected yi)" unfolding w' by simp
  with live c d show thesis by (rule that)
qed

lemma detected_base_sel:
  "ba_detected (yi_base (detected_base z))" "map slave_idx (wheel_inf (yi_base (detected_base z))) = [2, 3, 4, 5]"
  "\<not> ar_detected (yi_arm1 (detected_base z))" "\<not> ar_detected (yi_arm2 (detected_base z))"
  "arm_size (yi_arm1 (detected_base z))" "arm_size (yi_arm2 (detected_base z))"
proof -
  have "[2..<2 + YOUBOT_NR_OF_WHEELS] = [2, 3, 4, 5]" by (simp add: youbot_sizes upt_rec)
  then show "map slave_idx (wheel_inf (yi_base (detected_base z))) = [2, 3, 4, 5]"
    by (simp add: detected_base_def Let_def slave_idx_number_slaves)
qed (simp_all add: detected_base_def Let_def)

lemma youbot_init_slaves:
  assumes "youbot_init E b w g = Some (0, w', g')"
  shows "\<exists>interface r n ec e yi. y_ec_config E (snd (y_ec_init E interface (ec_env g))) = (r, n, ec, e)
    \<and> 5 \<le> n \<and> validate_base_slaves ec 1 = 0
    \<and> youbot_info_of w' b = Some yi \<and> numbered yi \<and> on_bus n ec yi"
proof -
  obtain interface r n ec e w2 yi where c: "y_ec_config E (snd (y_ec_init E interface (ec_env g))) = (r, n, ec, e)"
      "int YOUBOT_NR_OF_BASE_SLAVES \<le> n" "validate_base_slaves ec 1 = 0"
    and d: "detect_arms n ec (2 + YOUBOT_NR_OF_WHEELS) b (yset (alloc_step w) b (YInfo (zero_info (fint (y_fpu E) 0))))
       (detected_base (fint (y_fpu E) 0)) = Some (w2, yi)"
    and yi: "youbot_info_of w' b = Some (config_detected yi)"
    by (rule youbot_init_result [OF assms])
  have "numbered yi \<and> on_bus n ec yi"
    using detect_arms_numbered [OF _ detected_base_sel] d by (simp add: youbot_sizes)
  then have "numbered (config_detected yi)" "on_bus n ec (config_detected yi)"
    by (simp_all add: config_detected_keeps)
  moreover have "5 \<le> n" using c(2) by (simp add: youbot_sizes)
  ultimately show ?thesis using c(1,3) yi by blast
qed

text \<open>The bytes of the configuration \<open>nr_arms\<close>.\<close>

definition nr_arms_bytes :: "'p world \<Rightarrow> addr \<Rightarrow> u8 list option" where
  "nr_arms_bytes w b = do {
     (ptr, len) \<leftarrow> ubx_config_get_data_ptr w (Some b) (Some ''nr_arms'');
     live_bytes ptr }"

lemma store_nr_arms_bytes:
  "store_nr_arms w b n = Some w' \<Longrightarrow> \<exists>bs. nr_arms_bytes w b = Some bs \<and> 4 \<le> length bs"
  by (auto simp: store_nr_arms_def nr_arms_bytes_def ubx_config_get_data_ptr_def Let_def length_store32)

lemma nr_arms_bytes_yset [simp]: "nr_arms_bytes (yset (alloc_step w) b p) b = nr_arms_bytes w b"
proof (cases "heap w b")
  case (Some blk)
  then show ?thesis
    by (cases "configs blk"; cases "name_index c_name ''nr_arms'' (the (configs blk))")
      (simp_all add: nr_arms_bytes_def ubx_config_get_data_ptr_def ubx_config_get_data_def ubx_config_get_def
        config_at_def yset_def heap_upd_block)
qed (simp add: nr_arms_bytes_def ubx_config_get_data_ptr_def ubx_config_get_data_def ubx_config_get_def
    yset_def heap_upd_block)

lemma detect_arms_bytes:
  assumes "detect_arms n ec k b w yi = Some (w', yi')" "\<not> ar_detected (yi_arm1 yi)" "\<not> ar_detected (yi_arm2 yi)"
    "ar_detected (yi_arm1 yi') \<or> ar_detected (yi_arm2 yi')"
  shows "\<exists>bs. nr_arms_bytes w b = Some bs \<and> 4 \<le> length bs"
  using assms unfolding detect_arms_def use_arm_def Let_def
  by (auto split: if_splits dest: store_nr_arms_bytes)

text \<open>Detecting an arm needs four bytes in the configuration \<open>nr_arms\<close>, because the count is
  stored through a pointer to \<open>uint32_t\<close>: an initialisation that finds an arm is defined
  only if the buffer is that long, although the block declares it as \<open>char\<close>.\<close>

lemma arm_needs_four_bytes:
  assumes "youbot_init E b w g = Some (0, w', g')" "youbot_info_of w' b = Some yi"
    and "ar_detected (yi_arm1 yi) \<or> ar_detected (yi_arm2 yi)"
  shows "\<exists>bs. nr_arms_bytes w b = Some bs \<and> 4 \<le> length bs"
proof -
  obtain interface r n ec e w2 yi2 where
    d: "detect_arms n ec (2 + YOUBOT_NR_OF_WHEELS) b (yset (alloc_step w) b (YInfo (zero_info (fint (y_fpu E) 0))))
       (detected_base (fint (y_fpu E) 0)) = Some (w2, yi2)"
    and yi: "youbot_info_of w' b = Some (config_detected yi2)"
    by (rule youbot_init_result [OF assms(1)])
  have "ar_detected (yi_arm1 yi2) \<or> ar_detected (yi_arm2 yi2)"
    using assms(2,3) yi by (auto simp: config_detected_def arm_config_params_def Let_def split: if_splits)
  from detect_arms_bytes [OF d detected_base_sel(3,4) this] show ?thesis by simp
qed

text \<open>The names of the motor controllers are never looked at: a base, and an arm, is accepted by
  the name of its power board alone.\<close>

lemma validate_board_only:
  "validate_base_slaves ec n = (if es_name (ec n) = YOUBOT_WHEEL_PWRB_NAME then 0 else -1)"
  "validate_arm_slaves ec n = (if es_name (ec n) = YOUBOT_ARM_PWRB_NAME then 0 else -1)"
  by (auto simp: validate_base_slaves_def validate_arm_slaves_def slave_names)

subsection \<open>Stepping\<close>

definition base_commanded :: "'d youbot_base_info \<Rightarrow> (nat \<Rightarrow> ec_slave) \<Rightarrow> bool" where
  "base_commanded b ec \<longleftrightarrow> ba_control_mode b \<in> base_modes
     \<and> (\<not> base_is_configured b \<longrightarrow> ba_control_mode b = YOUBOT_CMODE_INITIALIZE)
     \<and> (\<forall>m \<in> set (wheel_inf b). es_outputs (ec (unat (slave_idx m)))
          = \<lparr>mo_value = cmd_val m, mo_controller_mode = ba_control_mode b\<rparr>)"

definition arm_commanded :: "'d fpu \<Rightarrow> 'd youbot_arm_info \<Rightarrow> (nat \<Rightarrow> ec_slave) \<Rightarrow> bool" where
  "arm_commanded F a ec \<longleftrightarrow> ar_control_mode a \<in> arm_modes
     \<and> (\<not> arm_is_configured a \<longrightarrow> ar_control_mode a = YOUBOT_CMODE_INITIALIZE)
     \<and> (\<forall>j < YOUBOT_NR_OF_JOINTS. es_outputs (ec (unat (slave_idx (jnt_inf a ! j))))
          = \<lparr>mo_value = scale_down_cmd_val F a j, mo_controller_mode = ar_control_mode a\<rparr>)"

lemma base_commanded_cong:
  "(\<And>m. m \<in> set (wheel_inf b) \<Longrightarrow> ec' (unat (slave_idx m)) = ec (unat (slave_idx m))) \<Longrightarrow>
   base_commanded b ec \<Longrightarrow> base_commanded b ec'"
  by (simp add: base_commanded_def)

lemma arm_commanded_cong:
  "(\<And>j. j < YOUBOT_NR_OF_JOINTS \<Longrightarrow> ec' (unat (slave_idx (jnt_inf a ! j))) = ec (unat (slave_idx (jnt_inf a ! j)))) \<Longrightarrow>
   arm_commanded F a ec \<Longrightarrow> arm_commanded F a ec'"
  by (simp add: arm_commanded_def)

text \<open>One part of the robot: what its update does, whether it is in use or not.\<close>

lemma base_part:
  assumes "(if ba_detected b then base_proc_update E b ec e else Some (0, b, ec, e)) = Some (r, b', ec', e')"
    "ba_detected b \<Longrightarrow> wf_base b" "length (wheel_inf b) = YOUBOT_NR_OF_WHEELS"
  shows "ba_detected b' = ba_detected b \<and> map slave_idx (wheel_inf b') = map slave_idx (wheel_inf b)
    \<and> (ba_detected b \<longrightarrow> base_commanded b' ec')
    \<and> (\<forall>j. \<not> ba_detected b \<or> j \<notin> unat ` set (map slave_idx (wheel_inf b)) \<longrightarrow> ec' j = ec j)"
proof (cases "ba_detected b")
  case True
  with assms(1) have u: "base_proc_update E b ec e = Some (r, b', ec', e')" by simp
  from base_outputs [OF assms(2) [OF True] u] base_update_detected [OF u] True show ?thesis
    by (simp add: base_commanded_def)
qed (use assms in auto)

lemma arm_part:
  assumes "(if ar_detected a then arm_proc_update E a ec e else (0, a, ec, e)) = (r, a', ec', e')"
    "ar_detected a \<Longrightarrow> wf_arm a" "arm_size a"
  shows "ar_detected a' = ar_detected a \<and> map slave_idx (jnt_inf a') = map slave_idx (jnt_inf a) \<and> arm_size a'
    \<and> (ar_detected a \<longrightarrow> arm_commanded (y_fpu E) a' ec')
    \<and> (\<forall>j. \<not> ar_detected a \<or> j \<notin> unat ` set (map slave_idx (jnt_inf a)) \<longrightarrow> ec' j = ec j)"
proof (cases "ar_detected a")
  case True
  with assms(1) have u: "arm_proc_update E a ec e = (r, a', ec', e')" by simp
  from arm_outputs [OF assms(2) [OF True] u] have "wf_arm a'" by simp
  then have "arm_size a'" by (simp add: wf_arm_def arm_size_def)
  with arm_outputs [OF assms(2) [OF True] u] arm_update_modes [OF assms(2) [OF True] u] True show ?thesis
    by (simp add: arm_commanded_def)
qed (use assms in auto)

definition commanded :: "'d fpu \<Rightarrow> 'd youbot_info \<Rightarrow> (nat \<Rightarrow> ec_slave) \<Rightarrow> bool" where
  "commanded F yi ec \<longleftrightarrow> (ba_detected (yi_base yi) \<longrightarrow> base_commanded (yi_base yi) ec)
     \<and> (ar_detected (yi_arm1 yi) \<longrightarrow> arm_commanded F (yi_arm1 yi) ec)
     \<and> (ar_detected (yi_arm2 yi) \<longrightarrow> arm_commanded F (yi_arm2 yi) ec)"

lemma joint_slave:
  "map slave_idx (jnt_inf a') = map slave_idx (jnt_inf a) \<Longrightarrow> arm_size a' \<Longrightarrow> j < YOUBOT_NR_OF_JOINTS \<Longrightarrow>
   slave_idx (jnt_inf a' ! j) \<in> set (map slave_idx (jnt_inf a))"
  unfolding arm_size_def by (metis length_map nth_map nth_mem)

lemma unat_mem: "unat (x :: u32) \<in> unat ` A \<longleftrightarrow> x \<in> A"
  by (auto dest: unsigned_word_eqI)

lemma update_detected_spec:
  assumes "wf_info yi" "update_detected E yi ec e = Some (yi', ec', e')"
  shows "wf_info yi' \<and> slaves_of yi' = slaves_of yi \<and> commanded (y_fpu E) yi' ec'"
proof -
  obtain r0 b1 ec1 e1 where 1: "(if ba_detected (yi_base yi) then base_proc_update E (yi_base yi) ec e
      else Some (0, yi_base yi, ec, e)) = Some (r0, b1, ec1, e1)"
    using assms(2) by (auto simp: update_detected_def)
  obtain r2 a1 ec2 e2 where 2: "(if ar_detected (yi_arm1 yi) then arm_proc_update E (yi_arm1 yi) ec1 e1
      else (0, yi_arm1 yi, ec1, e1)) = (r2, a1, ec2, e2)" by (metis prod_cases4)
  obtain r3 a2 ec3 e3 where 3: "(if ar_detected (yi_arm2 yi) then arm_proc_update E (yi_arm2 yi) ec2 e2
      else (0, yi_arm2 yi, ec2, e2)) = (r3, a2, ec3, e3)" by (metis prod_cases4)
  have r: "yi' = yi\<lparr>yi_base := b1, yi_arm1 := a1, yi_arm2 := a2\<rparr>" "ec' = ec3"
    using assms(2) 1 2 3 unfolding update_detected_def by simp_all
  have size: "length (wheel_inf (yi_base yi)) = YOUBOT_NR_OF_WHEELS" "arm_size (yi_arm1 yi)" "arm_size (yi_arm2 yi)"
    using assms(1) by (simp_all add: wf_info_def)
  note p1 = base_part [OF 1 wf_info_parts(1) [OF assms(1)] size(1)]
  note p2 = arm_part [OF 2 wf_info_parts(2) [OF assms(1)] size(2)]
  note p3 = arm_part [OF 3 wf_info_parts(3) [OF assms(1)] size(3)]
  have sl: "slaves_of yi' = slaves_of yi" using p1 p2 p3 by (simp add: slaves_of_def r)
  have "length (wheel_inf b1) = length (wheel_inf (yi_base yi))" using p1 map_eq_imp_length_eq by metis
  then have wf: "wf_info yi'" using assms(1) sl p2 p3 by (simp add: wf_info_def r)
  let ?S = "\<lambda>ms. unat ` set (map slave_idx ms)"
  have dis: "distinct (slaves_of yi)" using assms(1) by (simp add: wf_info_def)
  have base: "base_commanded b1 ec3" if "ba_detected (yi_base yi)"
  proof (rule base_commanded_cong [where ec = ec1])
    show "base_commanded b1 ec1" using p1 that by simp
    fix m assume "m \<in> set (wheel_inf b1)"
    then have m: "slave_idx m \<in> set (map slave_idx (wheel_inf (yi_base yi)))" using p1 by (metis imageI list.set_map)
    then have "ar_detected (yi_arm1 yi) \<Longrightarrow> slave_idx m \<notin> set (map slave_idx (jnt_inf (yi_arm1 yi)))"
      "ar_detected (yi_arm2 yi) \<Longrightarrow> slave_idx m \<notin> set (map slave_idx (jnt_inf (yi_arm2 yi)))"
      using dis that by (auto simp: slaves_of_def)
    then show "ec3 (unat (slave_idx m)) = ec1 (unat (slave_idx m))"
      using p2 p3 by (metis unat_mem)
  qed
  have arm: "arm_commanded (y_fpu E) a1 ec3" if "ar_detected (yi_arm1 yi)"
  proof (rule arm_commanded_cong [where ec = ec2])
    show "arm_commanded (y_fpu E) a1 ec2" using p2 that by simp
    fix j assume j: "j < YOUBOT_NR_OF_JOINTS"
    have "slave_idx (jnt_inf a1 ! j) \<in> set (map slave_idx (jnt_inf (yi_arm1 yi)))"
      using joint_slave p2 j by blast
    then have "ar_detected (yi_arm2 yi) \<Longrightarrow> slave_idx (jnt_inf a1 ! j) \<notin> set (map slave_idx (jnt_inf (yi_arm2 yi)))"
      using dis that by (auto simp: slaves_of_def)
    then show "ec3 (unat (slave_idx (jnt_inf a1 ! j))) = ec2 (unat (slave_idx (jnt_inf a1 ! j)))"
      using p3 by (metis unat_mem)
  qed
  have "commanded (y_fpu E) yi' ec'" using base arm p1 p2 p3 by (simp add: commanded_def r)
  with wf sl show ?thesis by blast
qed

text \<open>Which parts are in use, and through which slaves.\<close>

definition same_drive :: "'d youbot_info \<Rightarrow> 'd youbot_info \<Rightarrow> bool" where
  "same_drive yi yi' \<longleftrightarrow> ba_detected (yi_base yi') = ba_detected (yi_base yi)
     \<and> map slave_idx (wheel_inf (yi_base yi')) = map slave_idx (wheel_inf (yi_base yi))
     \<and> (\<forall>(a, a') \<in> {(yi_arm1 yi, yi_arm1 yi'), (yi_arm2 yi, yi_arm2 yi')}.
          ar_detected a' = ar_detected a \<and> map slave_idx (jnt_inf a') = map slave_idx (jnt_inf a))"

lemma same_drive_refl [simp]: "same_drive yi yi"
  by (simp add: same_drive_def)

lemma same_drive_trans: "same_drive yi yi' \<Longrightarrow> same_drive yi' yi'' \<Longrightarrow> same_drive yi yi''"
  by (simp add: same_drive_def)

lemma same_drive_counters [simp]:
  "same_drive yi (yi'\<lparr>pd_send_err := n\<rparr>) = same_drive yi yi'"
  "same_drive yi (yi'\<lparr>pd_recv_err := n\<rparr>) = same_drive yi yi'"
  by (simp_all add: same_drive_def)

lemma update_detected_slaves:
  assumes "wf_info yi" "update_detected E yi ec e = Some (yi', ec', e')"
  shows "same_drive yi yi'"
proof -
  obtain r0 b1 ec1 e1 where 1: "(if ba_detected (yi_base yi) then base_proc_update E (yi_base yi) ec e
      else Some (0, yi_base yi, ec, e)) = Some (r0, b1, ec1, e1)"
    using assms(2) by (auto simp: update_detected_def)
  obtain r2 a1 ec2 e2 where 2: "(if ar_detected (yi_arm1 yi) then arm_proc_update E (yi_arm1 yi) ec1 e1
      else (0, yi_arm1 yi, ec1, e1)) = (r2, a1, ec2, e2)" by (metis prod_cases4)
  obtain r3 a2 ec3 e3 where 3: "(if ar_detected (yi_arm2 yi) then arm_proc_update E (yi_arm2 yi) ec2 e2
      else (0, yi_arm2 yi, ec2, e2)) = (r3, a2, ec3, e3)" by (metis prod_cases4)
  have "yi' = yi\<lparr>yi_base := b1, yi_arm1 := a1, yi_arm2 := a2\<rparr>"
    using assms(2) 1 2 3 unfolding update_detected_def by simp_all
  moreover have "length (wheel_inf (yi_base yi)) = YOUBOT_NR_OF_WHEELS" "arm_size (yi_arm1 yi)" "arm_size (yi_arm2 yi)"
    using assms(1) by (simp_all add: wf_info_def)
  ultimately show ?thesis
    using base_part [OF 1 wf_info_parts(1) [OF assms(1)]] arm_part [OF 2 wf_info_parts(2) [OF assms(1)]]
      arm_part [OF 3 wf_info_parts(3) [OF assms(1)]]
    by (simp add: same_drive_def)
qed

lemma yset_live: "youbot_info_of w b = Some yi \<Longrightarrow> heap w b \<noteq> None"
  by (auto simp: youbot_info_of_def)

lemma wf_info_counters [simp]:
  "wf_info (yi\<lparr>pd_send_err := n\<rparr>) = wf_info yi" "wf_info (yi\<lparr>pd_recv_err := n\<rparr>) = wf_info yi"
  "slaves_of (yi\<lparr>pd_send_err := n\<rparr>) = slaves_of yi" "slaves_of (yi\<lparr>pd_recv_err := n\<rparr>) = slaves_of yi"
  "commanded F (yi\<lparr>pd_send_err := n\<rparr>) ec = commanded F yi ec"
  by (simp_all add: wf_info_def slaves_of_def commanded_def)

lemma youbot_step_spec:
  assumes "youbot_info_of w b = Some yi" "wf_info yi" "youbot_step E b w g = Some (w', g')"
    and "y_receive_pd E (ec_slaves g) (ec_env g) = (r, ec, e)"
  shows "\<exists>yi'. youbot_info_of w' b = Some yi' \<and> wf_info yi' \<and> slaves_of yi' = slaves_of yi
    \<and> (if r = 0 then ec_slaves g' = ec \<and> yi_base yi' = yi_base yi \<and> yi_arm1 yi' = yi_arm1 yi
         \<and> yi_arm2 yi' = yi_arm2 yi \<and> pd_recv_err yi' = pd_recv_err yi + 1
       else commanded (y_fpu E) yi' (ec_slaves g'))"
proof -
  obtain yi1 ec1 e1 where 1: "(if r = 0 then Some (yi\<lparr>pd_recv_err := pd_recv_err yi + 1\<rparr>, ec, e)
      else update_detected E yi ec e) = Some (yi1, ec1, e1)"
    using assms(1,3,4) by (auto simp: youbot_step_def)
  obtain r2 e2 where 2: "y_send_pd E ec1 e1 = (r2, e2)" by fastforce
  let ?yi = "if r2 \<le> 0 then yi1\<lparr>pd_send_err := pd_send_err yi1 + 1\<rparr> else yi1"
  have r: "w' = yset w b (YInfo ?yi)" "ec_slaves g' = ec1"
    using assms(1,3,4) 1 2 by (auto simp: youbot_step_def Let_def)
  have i: "youbot_info_of w' b = Some ?yi"
    unfolding r(1) using yset_live [OF assms(1)] by simp
  show ?thesis
  proof (cases "r = 0")
    case True
    with 1 assms(2) i show ?thesis by (intro exI [of _ ?yi]) (auto simp: r(2))
  next
    case False
    with 1 have "update_detected E yi ec e = Some (yi1, ec1, e1)" by simp
    from update_detected_spec [OF assms(2) this] False i show ?thesis
      by (intro exI [of _ ?yi]) (auto simp: r(2))
  qed
qed

text \<open>Starting keeps the data well formed, too, so that the driver's whole life does.\<close>

lemma get_max_currents_keeps:
  "get_max_currents E ms v e = (r, ms', v', e') \<Longrightarrow> map slave_idx ms' = map slave_idx ms"
  by (induction E ms v e arbitrary: r ms' v' e' rule: get_max_currents.induct) (auto split: prod.splits if_splits)

lemma base_prepare_keeps:
  "base_prepare_start E ba e = (r, b', e') \<Longrightarrow> map slave_idx (wheel_inf b') = map slave_idx (wheel_inf ba)
   \<and> ba_detected b' = ba_detected ba"
  by (auto simp: base_prepare_start_def Let_def split: prod.splits)

lemma arm_start_keeps:
  "arm_prepare_start E a e = (r, a', e') \<Longrightarrow> map slave_idx (jnt_inf a') = map slave_idx (jnt_inf a)
   \<and> ar_detected a' = ar_detected a \<and> axis_at_limit a' = axis_at_limit a"
  by (auto simp: arm_prepare_start_def Let_def dest!: get_max_currents_keeps split: prod.splits if_splits)

definition same_parts :: "'d youbot_info \<Rightarrow> 'd youbot_info \<Rightarrow> bool" where
  "same_parts yi yi' \<longleftrightarrow> ba_detected (yi_base yi') = ba_detected (yi_base yi)
     \<and> map slave_idx (wheel_inf (yi_base yi')) = map slave_idx (wheel_inf (yi_base yi))
     \<and> (\<forall>(a, a') \<in> {(yi_arm1 yi, yi_arm1 yi'), (yi_arm2 yi, yi_arm2 yi')}.
          ar_detected a' = ar_detected a \<and> map slave_idx (jnt_inf a') = map slave_idx (jnt_inf a)
          \<and> axis_at_limit a' = axis_at_limit a)"

lemma same_parts_wf:
  assumes "same_parts yi yi'"
  shows "wf_info yi' = wf_info yi" "slaves_of yi' = slaves_of yi"
proof -
  show s: "slaves_of yi' = slaves_of yi" using assms by (simp add: same_parts_def slaves_of_def)
  have "length (wheel_inf (yi_base yi')) = length (wheel_inf (yi_base yi))"
    "length (jnt_inf (yi_arm1 yi')) = length (jnt_inf (yi_arm1 yi))"
    "length (jnt_inf (yi_arm2 yi')) = length (jnt_inf (yi_arm2 yi))"
    using assms unfolding same_parts_def by (auto dest: map_eq_imp_length_eq)
  with assms s show "wf_info yi' = wf_info yi"
    by (simp add: same_parts_def wf_info_def arm_size_def)
qed

lemma prepare_detected_keeps:
  assumes "prepare_detected E yi e = (ok, yi', e')"
  shows "same_parts yi yi'"
proof -
  obtain r1 ba e1 where 1: "(if ba_detected (yi_base yi) then base_prepare_start E (yi_base yi) e else (0, yi_base yi, e))
      = (r1, ba, e1)" by (metis prod_cases3)
  obtain r2 a1 e2 where 2: "(if ar_detected (yi_arm1 yi) then arm_prepare_start E (yi_arm1 yi) e1 else (0, yi_arm1 yi, e1))
      = (r2, a1, e2)" by (metis prod_cases3)
  obtain r3 a2 e3 where 3: "(if ar_detected (yi_arm2 yi) then arm_prepare_start E (yi_arm2 yi) e2 else (0, yi_arm2 yi, e2))
      = (r3, a2, e3)" by (metis prod_cases3)
  have k: "map slave_idx (wheel_inf ba) = map slave_idx (wheel_inf (yi_base yi)) \<and> ba_detected ba = ba_detected (yi_base yi)"
    using 1 by (auto dest!: base_prepare_keeps split: if_splits)
  have k1: "map slave_idx (jnt_inf a1) = map slave_idx (jnt_inf (yi_arm1 yi)) \<and> ar_detected a1 = ar_detected (yi_arm1 yi)
      \<and> axis_at_limit a1 = axis_at_limit (yi_arm1 yi)"
    using 2 by (auto dest!: arm_start_keeps split: if_splits)
  have k2: "map slave_idx (jnt_inf a2) = map slave_idx (jnt_inf (yi_arm2 yi)) \<and> ar_detected a2 = ar_detected (yi_arm2 yi)
      \<and> axis_at_limit a2 = axis_at_limit (yi_arm2 yi)"
    using 3 by (auto dest!: arm_start_keeps split: if_splits)
  have "yi' = yi\<lparr>yi_base := ba\<rparr> \<or> yi' = yi\<lparr>yi_base := ba, yi_arm1 := a1\<rparr>
      \<or> yi' = yi\<lparr>yi_base := ba, yi_arm1 := a1, yi_arm2 := a2\<rparr>"
    using assms 1 2 3 unfolding prepare_detected_def by (auto simp: Let_def split: if_splits)
  with k k1 k2 show ?thesis by (elim disjE) (simp_all add: same_parts_def)
qed

lemma youbot_start_keeps:
  assumes "youbot_info_of w b = Some yi" "youbot_start E b w g = Some (r, w', g')"
  shows "\<exists>yi'. youbot_info_of w' b = Some yi' \<and> same_parts yi yi'"
proof -
  obtain ok yi1 e1 where 1: "prepare_detected E yi (ec_env g) = (ok, yi1, e1)" by (metis prod_cases3)
  note k = prepare_detected_keeps [OF 1]
  have "\<exists>yi'. w' = yset w b (YInfo yi') \<and> same_parts yi1 yi'"
    using assms 1 unfolding youbot_start_def Let_def
    by (auto simp: same_parts_def cache_base_ports_def cache_arm_ports_def split: if_splits prod.splits)
  then obtain yi' where "w' = yset w b (YInfo yi')" "same_parts yi1 yi'" by blast
  with k yset_live [OF assms(1)] show ?thesis
    by (intro exI [of _ yi']) (auto simp: same_parts_def)
qed

lemma youbot_step_slaves:
  assumes "youbot_info_of w b = Some yi" "wf_info yi" "youbot_step E b w g = Some (w', g')"
  shows "\<exists>yi'. youbot_info_of w' b = Some yi' \<and> same_drive yi yi'"
proof -
  obtain r ec e where pd: "y_receive_pd E (ec_slaves g) (ec_env g) = (r, ec, e)" by (metis prod_cases3)
  obtain yi1 ec1 e1 where 1: "(if r = 0 then Some (yi\<lparr>pd_recv_err := pd_recv_err yi + 1\<rparr>, ec, e)
      else update_detected E yi ec e) = Some (yi1, ec1, e1)"
    using assms(1,3) pd by (auto simp: youbot_step_def)
  obtain r2 e2 where 2: "y_send_pd E ec1 e1 = (r2, e2)" by fastforce
  let ?yi = "if r2 \<le> 0 then yi1\<lparr>pd_send_err := pd_send_err yi1 + 1\<rparr> else yi1"
  have "w' = yset w b (YInfo ?yi)" using assms(1,3) pd 1 2 by (auto simp: youbot_step_def Let_def)
  then have "youbot_info_of w' b = Some ?yi" using yset_live [OF assms(1)] by simp
  moreover have "same_drive yi yi1"
    using 1 update_detected_slaves [OF assms(2)] by (auto split: if_splits)
  ultimately show ?thesis by auto
qed

subsection \<open>The driver's life\<close>

datatype yop = YStart | YStep

fun youbot_run ::
    "('e, 'd) yenv \<Rightarrow> addr \<Rightarrow> yop list \<Rightarrow> 'd ypriv world \<Rightarrow> 'e master \<Rightarrow> ('d ypriv world \<times> 'e master) option" where
  "youbot_run E b [] w g = Some (w, g)"
| "youbot_run E b (YStart # ops) w g = do { (r, w, g) \<leftarrow> youbot_start E b w g; youbot_run E b ops w g }"
| "youbot_run E b (YStep # ops) w g = do { (w, g) \<leftarrow> youbot_step E b w g; youbot_run E b ops w g }"

lemma youbot_run_keeps:
  "youbot_run E b ops w g = Some (w', g') \<Longrightarrow> youbot_info_of w b = Some yi \<Longrightarrow> wf_info yi \<Longrightarrow>
   \<exists>yi'. youbot_info_of w' b = Some yi' \<and> wf_info yi' \<and> same_drive yi yi'"
proof (induction E b ops w g arbitrary: yi rule: youbot_run.induct)
  case (2 E b ops w g)
  from "2.prems"(1) obtain r w1 g1 where s: "youbot_start E b w g = Some (r, w1, g1)" "youbot_run E b ops w1 g1 = Some (w', g')"
    by auto
  from youbot_start_keeps [OF "2.prems"(2) s(1)] obtain yi1 where
    yi1: "youbot_info_of w1 b = Some yi1" "same_parts yi yi1" by blast
  then have "wf_info yi1" "same_drive yi yi1"
    using "2.prems"(3) same_parts_wf(1) [OF yi1(2)] by (simp_all add: same_parts_def same_drive_def)
  with "2.IH" [OF s(1) refl refl s(2) yi1(1)] same_drive_trans show ?case by blast
next
  case (3 E b ops w g)
  from "3.prems"(1) obtain w1 g1 where s: "youbot_step E b w g = Some (w1, g1)" "youbot_run E b ops w1 g1 = Some (w', g')"
    by auto
  obtain r ec e where pd: "y_receive_pd E (ec_slaves g) (ec_env g) = (r, ec, e)" by (metis prod_cases3)
  from youbot_step_spec [OF "3.prems"(2,3) s(1) pd] youbot_step_slaves [OF "3.prems"(2,3) s(1)] obtain yi1 where
    "youbot_info_of w1 b = Some yi1" "wf_info yi1" "same_drive yi yi1" by auto
  with "3.IH" [OF s(1) refl s(2)] same_drive_trans show ?case by blast
qed auto

text \<open>C29: When the initialisation succeeds, a base is first on the bus, and each arm is in use exactly when
  enough slaves answered and its power board is where the driver looks, behind the base and behind the
  first arm. In every series of starts and steps from there on the same parts stay in use, each through
  the same slaves: the base through 2 to 5, the first arm through 7 to 11, the second arm
  through 13 to 17. The exception is a second arm whose board is in its place when the first
  arm's is not: it is driven through 7 to 11, which are not the slaves behind its board.\<close>

theorem youbot_life:
  assumes "youbot_init E b w g = Some (0, w1, g1)" "youbot_run E b ops w1 g1 = Some (w', g')"
  shows "\<exists>interface r n ec e yi. y_ec_config E (snd (y_ec_init E interface (ec_env g))) = (r, n, ec, e)
    \<and> 5 \<le> n \<and> validate_base_slaves ec 1 = 0
    \<and> youbot_info_of w' b = Some yi \<and> wf_info yi
    \<and> (ar_detected (yi_arm1 yi) \<longleftrightarrow> 11 \<le> n \<and> validate_arm_slaves ec 6 = 0)
    \<and> (ar_detected (yi_arm2 yi) \<longleftrightarrow> 17 \<le> n \<and> validate_arm_slaves ec 12 = 0)
    \<and> ba_detected (yi_base yi) \<and> map slave_idx (wheel_inf (yi_base yi)) = [2, 3, 4, 5]
    \<and> (ar_detected (yi_arm1 yi) \<longrightarrow> map slave_idx (jnt_inf (yi_arm1 yi)) = [7, 8, 9, 10, 11])
    \<and> (ar_detected (yi_arm2 yi) \<longrightarrow> map slave_idx (jnt_inf (yi_arm2 yi)) =
         (if ar_detected (yi_arm1 yi) then [13, 14, 15, 16, 17] else [7, 8, 9, 10, 11]))"
proof -
  from youbot_init_slaves [OF assms(1)] obtain interface r n ec e yi where
    c: "y_ec_config E (snd (y_ec_init E interface (ec_env g))) = (r, n, ec, e)" "5 \<le> n" "validate_base_slaves ec 1 = 0"
    and yi: "youbot_info_of w1 b = Some yi" "numbered yi" "on_bus n ec yi" by blast
  from youbot_run_keeps [OF assms(2) yi(1) numbered_wf [OF yi(2)]] obtain yi' where
    yi': "youbot_info_of w' b = Some yi'" "wf_info yi'" "same_drive yi yi'" by blast
  from yi(2,3) yi'(3) have
    "ar_detected (yi_arm1 yi') \<longleftrightarrow> 11 \<le> n \<and> validate_arm_slaves ec 6 = 0"
    "ar_detected (yi_arm2 yi') \<longleftrightarrow> 17 \<le> n \<and> validate_arm_slaves ec 12 = 0"
    "ba_detected (yi_base yi') \<and> map slave_idx (wheel_inf (yi_base yi')) = [2, 3, 4, 5]"
    "ar_detected (yi_arm1 yi') \<longrightarrow> map slave_idx (jnt_inf (yi_arm1 yi')) = [7, 8, 9, 10, 11]"
    "ar_detected (yi_arm2 yi') \<longrightarrow> map slave_idx (jnt_inf (yi_arm2 yi')) =
       (if ar_detected (yi_arm1 yi') then [13, 14, 15, 16, 17] else [7, 8, 9, 10, 11])"
    unfolding numbered_def on_bus_def same_drive_def by simp_all
  with yi'(1,2) c(2,3) show ?thesis by (intro exI conjI) (rule c(1), (erule conjunct1 conjunct2 | assumption)+)
qed

text \<open>C28: A step of the driver keeps its data well formed and the slaves where they are. When
  process data arrive, every motor in use is sent its own command and the mode of its
  part, whatever the other parts are sent; when they do not, nothing is recomputed (the
  watchdog included): the old commands go out again and the failure is counted.\<close>

theorem youbot_step_commands:
  assumes "youbot_info_of w b = Some yi" "wf_info yi" "youbot_step E b w g = Some (w', g')"
    and "y_receive_pd E (ec_slaves g) (ec_env g) = (r, ec, e)"
  shows "\<exists>yi'. youbot_info_of w' b = Some yi' \<and> wf_info yi' \<and> slaves_of yi' = slaves_of yi
    \<and> (if r = 0 then ec_slaves g' = ec \<and> yi_base yi' = yi_base yi \<and> yi_arm1 yi' = yi_arm1 yi
         \<and> yi_arm2 yi' = yi_arm2 yi \<and> pd_recv_err yi' = pd_recv_err yi + 1
       else commanded (y_fpu E) yi' (ec_slaves g'))"
  by (rule youbot_step_spec [OF assms])

text \<open>A robot with a base and two arms, on whose ports nothing arrives.\<close>

definition ex_bus :: "nat \<Rightarrow> ec_slave" where
  "ex_bus i = ex_slave\<lparr>es_inputs := (es_inputs ex_slave)\<lparr>mi_error_flags := 0\<rparr>, es_name := (if i = 1 then ''KR-845'' else if i \<in> {6, 12} then ''KR-843'' else ''TMCM-1632'')\<rparr>"

definition ex_robot :: "(ex_script, rat) yenv" where
  "ex_robot = ex_silent\<lparr>y_ec_config := \<lambda>e. (17, 17, ex_bus, e)\<rparr>"

definition ex_port :: "string \<Rightarrow> ubx_port" where
  "ex_port n = \<lparr>p_name = n, p_doc = None, p_attrs = 0, p_state = 0, in_type_name = None, out_type_name = None,
     in_type = None, out_type = None, in_data_len = 1, out_data_len = 1, in_interaction = None,
     out_interaction = None, stat_writes = 0, stat_reades = 0, p_block = None\<rparr>"

definition ex_text :: "string \<Rightarrow> u8 list \<Rightarrow> ubx_config" where
  "ex_text name bs = \<lparr>c_name = name, c_doc = None, c_type_name = ''char'', c_attrs = 0,
     c_value = \<lparr>d_type = Some 0, d_len = of_nat (length bs), d_data = BLive bs\<rparr>\<rparr>"

definition ex_youbot_block :: "rat ypriv ubx_block" where
  "ex_youbot_block = \<lparr>b_name = ''youbot1'', meta_data = None, b_type = BLOCK_TYPE_COMPUTATION,
     ports = Some (map ex_port [''base_control_mode'', ''base_cmd_twist'', ''base_cmd_vel'', ''base_cmd_cur'', ''base_msr_odom'',
       ''base_msr_twist'', ''base_motorinfo'', ''arm1_control_mode'', ''arm1_calibrate_cmd'', ''arm1_cmd_pos'', ''arm1_cmd_vel'',
       ''arm1_cmd_cur'', ''arm1_cmd_eff'', ''arm1_msr_pos'', ''arm1_msr_vel'', ''arm1_msr_eff'', ''arm1_motorinfo'', ''arm1_gripper'']),
     configs = Some [ex_text ''ethernet_if'' [101, 116, 104, 48], ex_text ''nr_arms'' [0, 0, 0, 0]],
     block_state = BLOCK_STATE_PREINIT, prototype = Some ''youbot/youbot_driver'',
     b_ni = True, b_init = None, b_start = None, b_stop = None, b_cleanup = None,
     b_step = None, stat_num_steps = 0, b_read = None, b_write = None,
     stat_num_reads = 0, stat_num_writes = 0, private_data = None\<rparr>"

definition ex_yworld :: "rat ypriv world" where
  "ex_yworld = \<lparr>node_name = Some ''node'', blocks = [(''youbot1'', 0)], types = [], modules = [], cur_seqid = 0,
     heap = [0 \<mapsto> ex_youbot_block], theap = (\<lambda>_. None), datas = (\<lambda>_. None), next_addr = 1, mem = [],
     garbage = (\<lambda>_. 0), host = Little, clock = [], rng_seed = 1, rng_count = 0\<rparr>"

definition ex_master :: "ex_script master" where
  "ex_master = \<lparr>ec_slavecount = 0, ec_slaves = ex_bus, ec_env = ex_script0 10\<rparr>"

text \<open>What the driver knows after its initialisation.\<close>

definition ex_found :: "rat youbot_info" where
  "ex_found =
     (let z = zero_info (fint ex_fpu 0); ba = yi_base z; a = yi_arm1 z
      in z\<lparr>yi_base := ba\<lparr>ba_detected := True, wheel_inf := number_slaves 2 (wheel_inf ba)\<rparr>,
           yi_arm1 := a\<lparr>ar_detected := True, jnt_inf := number_slaves 7 (jnt_inf a)\<rparr>,
           yi_arm2 := a\<lparr>ar_detected := True, jnt_inf := number_slaves 13 (jnt_inf a)\<rparr>\<rparr>)"

lemma ex_youbot_init:
  "\<exists>w' g'. youbot_init ex_robot 0 ex_yworld ex_master = Some (0, w', g')
    \<and> youbot_info_of w' 0 = Some (config_detected ex_found)
    \<and> (\<exists>blk. heap w' 0 = Some blk \<and> ports blk = ports ex_youbot_block)
    \<and> ec_env g' = ex_script0 10 \<and> ec_slaves g' = ex_bus(0 := (ex_bus 0)\<lparr>es_state := 4\<rparr>)"
  by (simp add: youbot_init_def ubx_config_get_data_ptr_def ubx_config_get_data_def ubx_config_get_def config_at_def
      ethernet_if_unset_def ex_yworld_def ex_youbot_block_def ex_text_def ex_master_def ex_robot_def ex_bus_def
      ex_slave_def detect_arms_def detect_arm_def validate_board_only slave_names youbot_sizes store_nr_arms_def
      use_arm_def Let_def yset_def heap_upd_block length_store32 youbot_info_of_def ex_found_def ex_silent_def
      zero_info_def zero_base_def zero_arm_def)

lemma ex_mbx: "\<exists>v. send_mbx ex_robot c p k sl n val e = (0, v, e)"
  by (simp add: send_mbx_def ex_robot_def ex_silent_def Let_def YB_MBX_STAT_OK_def)

lemma ex_clear: "clear_timeouts ex_robot ms val e = (0, e)"
proof (induction ms arbitrary: val)
  case (Cons m ms)
  obtain v where "send_mbx ex_robot False SAP CLR_EC_TIMEOUT (ucast (slave_idx m)) 0 val e = (0, v, e)" using ex_mbx by blast
  then show ?case using Cons.IH by simp
qed simp

lemma ex_currents: "\<exists>ms' val'. get_max_currents ex_robot ms val e = (0, ms', val', e)"
proof (induction ms arbitrary: val)
  case (Cons m ms)
  obtain v where "send_mbx ex_robot False GAP MAX_CURRENT (ucast (slave_idx m)) 0 val e = (0, v, e)" using ex_mbx by blast
  then show ?case using Cons.IH [of v] by auto
qed simp

lemma ex_prepared:
  "\<exists>yi'. prepare_detected ex_robot yi e = (True, yi', e) \<and> ba_mod_init_stat (yi_base yi') = ba_mod_init_stat (yi_base yi)"
proof -
  have base: "base_prepare_start ex_robot b e = (0, b\<lparr>wheel_inf := set_cmds (\<lambda>_. 0) (wheel_inf b)\<rparr>, e)" for b
    by (simp add: base_prepare_start_def ex_clear)
  have arm: "\<exists>a'. arm_prepare_start ex_robot a e = (0, a', e)" for a
  proof -
    obtain ms' val' where "get_max_currents ex_robot (set_cmds (\<lambda>_. 0) (jnt_inf a)) (y_garbage ex_robot) e = (0, ms', val', e)"
      using ex_currents by blast
    then show ?thesis by (simp add: arm_prepare_start_def ex_clear)
  qed
  obtain a1 a2 where "arm_prepare_start ex_robot (yi_arm1 yi) e = (0, a1, e)"
      "arm_prepare_start ex_robot (yi_arm2 yi) e = (0, a2, e)" using arm by blast
  then show ?thesis unfolding prepare_detected_def by (simp add: base Let_def)
qed

lemma ex_youbot_start:
  assumes "heap w 0 = Some blk" "ports blk = ports ex_youbot_block" "youbot_info_of w 0 = Some yi"
  shows "\<exists>w' g' yi'. youbot_start ex_robot 0 w g = Some (0, w', g') \<and> youbot_info_of w' 0 = Some yi'
    \<and> ba_mod_init_stat (yi_base yi') = ba_mod_init_stat (yi_base yi)
    \<and> (\<forall>i. es_inputs (ec_slaves g' i) = es_inputs (ec_slaves g i))"
proof -
  obtain yi' where p: "prepare_detected ex_robot yi (ec_env g) = (True, yi', ec_env g)"
    "ba_mod_init_stat (yi_base yi') = ba_mod_init_stat (yi_base yi)" using ex_prepared by blast
  have "\<exists>ba. cache_base_ports w 0 (yi_base yi') = Some ba \<and> ba_mod_init_stat ba = ba_mod_init_stat (yi_base yi')"
    "\<exists>a. cache_arm_ports w 0 (yi_arm1 yi') = Some a"
    using assms(1,2)
    by (simp_all add: cache_base_ports_def cache_arm_ports_def cached_port_def ubx_port_get_def ex_youbot_block_def ex_port_def)
  with p assms(1,3) show ?thesis
    by (auto simp: youbot_start_def Let_def ex_robot_def ex_silent_def)
qed

lemma init_bits_none: "(\<And>m. m \<in> set ms \<Longrightarrow> \<not> flag (error_flags m) MODULE_INIT) \<Longrightarrow> init_bits i ms = 0"
  by (induction ms arbitrary: i) simp_all

text \<open>A base that was not configured yet is only initialised.\<close>

lemma ex_youbot_step:
  assumes "youbot_info_of w 0 = Some yi" "ba_mod_init_stat (yi_base yi) = 0"
    "\<And>i. mi_error_flags (es_inputs (ec_slaves g i)) = 0"
  shows "\<exists>w' g'. youbot_step ex_robot 0 w g = Some (w', g')"
proof -
  let ?ms = "map (copy_inputs (ec_slaves g)) (wheel_inf (yi_base yi))"
  obtain n ms' mode init e where u: "proc_errflg ex_robot False 0 ?ms (ba_control_mode (yi_base yi)) 0 (ec_env g)
      = (n, ms', mode, init, e)" by (metis prod_cases5)
  have "init_bits 0 ?ms = 0"
    by (rule init_bits_none) (auto simp: copy_inputs_def assms(3) flag_def Let_def)
  with proc_errflg_spec [OF u] have "init = 0" by simp
  with u have "\<exists>r. base_proc_update ex_robot (yi_base yi) (ec_slaves g) (ec_env g) = Some r"
    by (simp add: base_proc_update_def base_proc_errflg_def assms(2) base_is_configured_def youbot_sizes base_command_def Let_def)
  then obtain r b ec e where "base_proc_update ex_robot (yi_base yi) (ec_slaves g) (ec_env g) = Some (r, b, ec, e)" by auto
  then have "\<exists>r. update_detected ex_robot yi (ec_slaves g) (ec_env g) = Some r"
    by (auto simp: update_detected_def split: prod.split)
  then obtain yi' ec e where "update_detected ex_robot yi (ec_slaves g) (ec_env g) = Some (yi', ec, e)" by auto
  with assms(1) show ?thesis
    by (auto simp: youbot_step_def ex_robot_def ex_silent_def split: prod.split)
qed

theorem youbot_life_witness:
  "\<exists>w1 g1 w' g' yi. youbot_init ex_robot 0 ex_yworld ex_master = Some (0, w1, g1)
    \<and> youbot_run ex_robot 0 [YStart, YStep] w1 g1 = Some (w', g')
    \<and> youbot_info_of w' 0 = Some yi \<and> wf_info yi
    \<and> map slave_idx (wheel_inf (yi_base yi)) = [2, 3, 4, 5]
    \<and> map slave_idx (jnt_inf (yi_arm1 yi)) = [7, 8, 9, 10, 11]
    \<and> map slave_idx (jnt_inf (yi_arm2 yi)) = [13, 14, 15, 16, 17]"
proof -
  obtain w1 g1 blk where i: "youbot_init ex_robot 0 ex_yworld ex_master = Some (0, w1, g1)"
      "youbot_info_of w1 0 = Some (config_detected ex_found)" "heap w1 0 = Some blk" "ports blk = ports ex_youbot_block"
      "ec_slaves g1 = ex_bus(0 := (ex_bus 0)\<lparr>es_state := 4\<rparr>)"
    using ex_youbot_init by blast
  obtain w2 g2 yi2 where s: "youbot_start ex_robot 0 w1 g1 = Some (0, w2, g2)" "youbot_info_of w2 0 = Some yi2"
      "ba_mod_init_stat (yi_base yi2) = ba_mod_init_stat (yi_base (config_detected ex_found))"
      "\<forall>i. es_inputs (ec_slaves g2 i) = es_inputs (ec_slaves g1 i)"
    using ex_youbot_start [OF i(3,4,2)] by blast
  have "ba_mod_init_stat (yi_base yi2) = 0"
    by (simp add: s(3) ex_found_def config_detected_def base_config_params_def arm_config_params_def zero_info_def
        zero_base_def zero_arm_def Let_def)
  moreover have "mi_error_flags (es_inputs (ec_slaves g2 i)) = 0" for i by (simp add: s(4) i(5) ex_bus_def)
  ultimately obtain w' g' where t: "youbot_step ex_robot 0 w2 g2 = Some (w', g')" using ex_youbot_step [OF s(2)] by blast
  have run: "youbot_run ex_robot 0 [YStart, YStep] w1 g1 = Some (w', g')" by (simp add: s(1) t)
  have "y_ec_config ex_robot x = (17, 17, ex_bus, x)" for x by (simp add: ex_robot_def)
  moreover have "validate_arm_slaves ex_bus 6 = 0" "validate_arm_slaves ex_bus 12 = 0"
    by (simp_all add: validate_board_only ex_bus_def slave_names)
  ultimately show ?thesis using youbot_life [OF i(1) run] i(1) run by auto
qed

definition ex_running :: "rat youbot_info" where
  "ex_running = (zero_info 0)\<lparr>yi_arm1 := ex_arm\<rparr>"

lemma ex_running_wf: "wf_info ex_running"
  by (simp add: wf_info_def slaves_of_def ex_running_def zero_info_def zero_base_def zero_arm_def arm_size_def
      ex_arm_def ex_motor_def youbot_sizes Let_def)

theorem youbot_step_commands_witness:
  "\<exists>w' g' yi. youbot_step ex_silent 0 (yset ex_yworld 0 (YInfo ex_running)) ex_master = Some (w', g')
    \<and> youbot_info_of w' 0 = Some yi \<and> commanded ex_fpu yi (ec_slaves g')"
proof -
  let ?w = "yset ex_yworld 0 (YInfo ex_running)"
  have i: "youbot_info_of ?w 0 = Some ex_running" by (simp add: ex_yworld_def)
  have pd: "y_receive_pd ex_silent (ec_slaves ex_master) (ec_env ex_master) = (1, ec_slaves ex_master, ec_env ex_master)"
    by (simp add: ex_silent_def)
  have "\<exists>r. update_detected ex_silent ex_running (ec_slaves ex_master) (ec_env ex_master) = Some r"
    by (simp add: update_detected_def ex_running_def zero_info_def zero_base_def zero_arm_def Let_def split: prod.split)
  then obtain yi ec e where "update_detected ex_silent ex_running (ec_slaves ex_master) (ec_env ex_master) = Some (yi, ec, e)"
    by auto
  with i pd have "\<exists>w' g'. youbot_step ex_silent 0 ?w ex_master = Some (w', g')"
    by (auto simp: youbot_step_def split: prod.split)
  then obtain w' g' where s: "youbot_step ex_silent 0 ?w ex_master = Some (w', g')" by blast
  have "y_fpu ex_silent = ex_fpu" by (simp add: ex_silent_def)
  with youbot_step_commands [OF i ex_running_wf s pd] s show ?thesis by auto
qed

end
