(* ===== verification/LfdsThreads.thy ===== *)
theory LfdsThreads
  imports LfdsFreelist
begin

text \<open>
  The free list under any number of threads, which take turns at single accesses to shared
  memory in any order. The clients' protocol is part of the machine: a thread pushes only
  elements that are in its hands (\<open>held\<close>), because it allocated or popped them. Steps are
  labelled with the operation that takes effect in them. The counters are machine words, so
  the theorems hold for runs of fewer than \<open>2 ^ 64\<close> steps, after which the counter that
  guards against the reuse of an element comes round.
\<close>

record 'u fl_state =
  lst :: "'u freelist"
  pcs :: "nat \<Rightarrow> fl_pc"
  held :: "addr set"

datatype fl_event = ETau | EPush addr | EPop "addr option"

text \<open>Where an operation takes effect: a push and a pop in their successful swap, a pop of an
  empty list where it loads the NULL pointer.\<close>

fun fl_effect :: "fl_pc \<Rightarrow> fl_pc \<Rightarrow> fl_event" where
  "fl_effect (PopP c) (PopT None c') = EPop None"
| "fl_effect (PopX p c n k) (PopT None c') = EPop None"
| "fl_effect (PopX p c n k) (PopDone r) = EPop r"
| "fl_effect (PushX fe c p k) PushDone = EPush fe"
| "fl_effect _ _ = ETau"

inductive fl_step :: "'u fl_state \<Rightarrow> fl_event \<Rightarrow> 'u fl_state \<Rightarrow> bool" where
  fs_pop: "pcs s t = Idle \<Longrightarrow> fl_step s ETau (s\<lparr>pcs := (pcs s)(t := PopC)\<rparr>)"
| fs_push: "pcs s t = Idle \<Longrightarrow> fe \<in> held s
    \<Longrightarrow> fl_step s ETau (s\<lparr>pcs := (pcs s)(t := PushA fe), held := held s - {fe}\<rparr>)"
| fs_exec: "fl_exec (pcs s t) (lst s) = Some (pc, l)
    \<Longrightarrow> fl_step s (fl_effect (pcs s t) pc) (s\<lparr>pcs := (pcs s)(t := pc), lst := l\<rparr>)"
| fs_popped: "pcs s t = PopDone r
    \<Longrightarrow> fl_step s ETau (s\<lparr>pcs := (pcs s)(t := Idle), held := held s \<union> set_option r\<rparr>)"
| fs_pushed: "pcs s t = PushDone \<Longrightarrow> fl_step s ETau (s\<lparr>pcs := (pcs s)(t := Idle)\<rparr>)"
| fs_new: "fl_elems (lst s) a = None
    \<Longrightarrow> fl_step s ETau (s\<lparr>lst := (lst s)\<lparr>fl_elems := (fl_elems (lst s))(a \<mapsto> e)\<rparr>, held := insert a (held s)\<rparr>)"

inductive fl_run :: "'u fl_state \<Rightarrow> fl_event list \<Rightarrow> 'u fl_state \<Rightarrow> bool" for s0 where
  fr_init: "fl_run s0 [] s0"
| fr_step: "fl_run s0 es s \<Longrightarrow> fl_step s ev s' \<Longrightarrow> fl_run s0 (es @ [ev]) s'"

definition fl_initial :: "'u fl_state \<Rightarrow> bool" where
  "fl_initial s \<longleftrightarrow> fl_top (lst s) = None \<and> fl_topc (lst s) = 0 \<and> fl_aba (lst s) = 0
     \<and> (\<forall>a. fl_elems (lst s) a = None) \<and> (\<forall>t. pcs s t = Idle) \<and> held s = {}"

subsection \<open>What a thread owns\<close>

fun owns :: "fl_pc \<Rightarrow> addr option" where
  "owns (PopDone r) = r"
| "owns (PushA fe) = Some fe"
| "owns (PushP fe c) = Some fe"
| "owns (PushC fe c p) = Some fe"
| "owns (PushN fe c p k) = Some fe"
| "owns (PushM fe c p k) = Some fe"
| "owns (PushX fe c p k) = Some fe"
| "owns _ = None"

text \<open>The counter a push has drawn, and the one a pop compares with.\<close>

fun draws :: "fl_pc \<Rightarrow> u64 option" where
  "draws (PushP fe c) = Some c"
| "draws (PushC fe c p) = Some c"
| "draws (PushN fe c p k) = Some c"
| "draws (PushM fe c p k) = Some c"
| "draws (PushX fe c p k) = Some c"
| "draws _ = None"

fun saw :: "fl_pc \<Rightarrow> u64 option" where
  "saw (PopP c) = Some c"
| "saw (PopT p c) = Some c"
| "saw (PopN p c n) = Some c"
| "saw (PopX p c n k) = Some c"
| "saw _ = None"

text \<open>The list: the addresses with the counters of the pushes that put them there.\<close>

fun chain :: "(addr \<Rightarrow> 'u fl_elem option) \<Rightarrow> addr option \<Rightarrow> u64 \<Rightarrow> (addr \<times> u64) list \<Rightarrow> bool" where
  "chain m p c [] \<longleftrightarrow> p = None \<and> c = 0"
| "chain m p c ((a, k) # xs) \<longleftrightarrow> p = Some a \<and> c = k
     \<and> (\<exists>e. m a = Some e \<and> chain m (fe_next e) (fe_ctr e) xs)"

text \<open>What a thread knows of the element it works on.\<close>

fun knows :: "'u freelist \<Rightarrow> (addr \<times> u64) list \<Rightarrow> fl_pc \<Rightarrow> bool" where
  "knows l xs (PopT p c) \<longleftrightarrow> (\<forall>a. p = Some a \<longrightarrow> fl_elems l a \<noteq> None)"
| "knows l xs (PopN p c n) \<longleftrightarrow> (\<exists>e. fl_elems l p = Some e \<and> ((p, c) \<in> set xs \<longrightarrow> fe_next e = n))"
| "knows l xs (PopX p c n k) \<longleftrightarrow>
     (\<exists>e. fl_elems l p = Some e \<and> ((p, c) \<in> set xs \<longrightarrow> fe_next e = n \<and> fe_ctr e = k))"
| "knows l xs (PushM fe c p k) \<longleftrightarrow> (\<exists>e. fl_elems l fe = Some e \<and> fe_next e = p)"
| "knows l xs (PushX fe c p k) \<longleftrightarrow> (\<exists>e. fl_elems l fe = Some e \<and> fe_next e = p \<and> fe_ctr e = k)"
| "knows l xs _ \<longleftrightarrow> True"

definition fl_inv :: "'u fl_state \<Rightarrow> (addr \<times> u64) list \<Rightarrow> bool" where
  "fl_inv s xs \<longleftrightarrow>
     chain (fl_elems (lst s)) (fl_top (lst s)) (fl_topc (lst s)) xs
   \<and> distinct (map fst xs)
   \<and> fst ` set xs \<inter> held s = {}
   \<and> (\<forall>a \<in> held s. fl_elems (lst s) a \<noteq> None)
   \<and> (\<forall>t a. owns (pcs s t) = Some a \<longrightarrow> a \<notin> fst ` set xs \<and> a \<notin> held s \<and> fl_elems (lst s) a \<noteq> None)
   \<and> (\<forall>t u a. owns (pcs s t) = Some a \<longrightarrow> owns (pcs s u) = Some a \<longrightarrow> t = u)
   \<and> (\<forall>c \<in> snd ` set xs. c \<le> fl_aba (lst s))
   \<and> (\<forall>t c. draws (pcs s t) = Some c \<longrightarrow> 0 < c \<and> c \<le> fl_aba (lst s) \<and> c \<notin> snd ` set xs)
   \<and> (\<forall>t u c. draws (pcs s t) = Some c \<longrightarrow> draws (pcs s u) = Some c \<longrightarrow> t = u)
   \<and> (\<forall>t u c. saw (pcs s t) = Some c \<longrightarrow> c \<le> fl_aba (lst s) \<and> draws (pcs s u) \<noteq> Some c)
   \<and> (\<forall>t. knows (lst s) xs (pcs s t))"


lemma fl_invI:
  assumes "chain (fl_elems l) (fl_top l) (fl_topc l) xs" "distinct (map fst xs)" "fst ` set xs \<inter> H = {}"
    "\<And>a. a \<in> H \<Longrightarrow> fl_elems l a \<noteq> None"
    "\<And>t a. owns (P t) = Some a \<Longrightarrow> a \<notin> fst ` set xs \<and> a \<notin> H \<and> fl_elems l a \<noteq> None"
    "\<And>t u a. owns (P t) = Some a \<Longrightarrow> owns (P u) = Some a \<Longrightarrow> t = u"
    "\<And>c. c \<in> snd ` set xs \<Longrightarrow> c \<le> fl_aba l"
    "\<And>t c. draws (P t) = Some c \<Longrightarrow> 0 < c \<and> c \<le> fl_aba l \<and> c \<notin> snd ` set xs"
    "\<And>t u c. draws (P t) = Some c \<Longrightarrow> draws (P u) = Some c \<Longrightarrow> t = u"
    "\<And>t u c. saw (P t) = Some c \<Longrightarrow> c \<le> fl_aba l \<and> draws (P u) \<noteq> Some c"
    "\<And>t. knows l xs (P t)"
  shows "fl_inv \<lparr>lst = l, pcs = P, held = H\<rparr> xs"
  unfolding fl_inv_def fl_state.simps
  apply (intro conjI)
  subgoal using assms(1) by blast
  subgoal using assms(2) by blast
  subgoal using assms(3) by blast
  subgoal using assms(4) by blast
  subgoal using assms(5) by blast
  subgoal using assms(6) by blast
  subgoal using assms(7) by blast
  subgoal using assms(8) by blast
  subgoal using assms(9) by blast
  subgoal using assms(10) by blast
  subgoal using assms(11) by blast
  done

lemma fl_invD:
  assumes "fl_inv \<lparr>lst = l, pcs = P, held = H\<rparr> xs"
  shows "chain (fl_elems l) (fl_top l) (fl_topc l) xs" "distinct (map fst xs)" "fst ` set xs \<inter> H = {}"
    "\<And>a. a \<in> H \<Longrightarrow> fl_elems l a \<noteq> None"
    "\<And>t a. owns (P t) = Some a \<Longrightarrow> a \<notin> fst ` set xs \<and> a \<notin> H \<and> fl_elems l a \<noteq> None"
    "\<And>t u a. owns (P t) = Some a \<Longrightarrow> owns (P u) = Some a \<Longrightarrow> t = u"
    "\<And>c. c \<in> snd ` set xs \<Longrightarrow> c \<le> fl_aba l"
    "\<And>t c. draws (P t) = Some c \<Longrightarrow> 0 < c \<and> c \<le> fl_aba l \<and> c \<notin> snd ` set xs"
    "\<And>t u c. draws (P t) = Some c \<Longrightarrow> draws (P u) = Some c \<Longrightarrow> t = u"
    "\<And>t u c. saw (P t) = Some c \<Longrightarrow> c \<le> fl_aba l \<and> draws (P u) \<noteq> Some c"
    "\<And>t. knows l xs (P t)"
  using assms unfolding fl_inv_def fl_state.simps by blast+

text \<open>A step that only moves one thread on.\<close>

lemma fl_inv_pc:
  assumes inv: "fl_inv \<lparr>lst = l, pcs = P, held = H\<rparr> xs"
    and owns: "\<And>a. owns pc = Some a \<Longrightarrow> owns (P t) = Some a"
    and draws: "\<And>c. draws pc = Some c \<Longrightarrow> draws (P t) = Some c"
    and saw: "\<And>c. saw pc = Some c \<Longrightarrow> draws pc = None \<and> (saw (P t) = Some c \<or> c = fl_topc l)"
    and knows: "knows l xs pc"
  shows "fl_inv \<lparr>lst = l, pcs = P(t := pc), held = H\<rparr> xs"
proof -
  note I = fl_invD [OF inv]
  have top: "fl_topc l \<le> fl_aba l \<and> draws (P u) \<noteq> Some (fl_topc l)" for u
    using I(1,7) I(8) [of u "fl_topc l"] by (cases xs) auto
  show ?thesis
    apply (rule fl_invI)
    subgoal by (rule I(1))
    subgoal by (rule I(2))
    subgoal by (rule I(3))
    subgoal by (rule I(4))
    subgoal for u a using I(5) [of u a] I(5) [of t a] owns by (auto split: if_splits)
    subgoal for u v a using I(6) [of u a v] I(6) [of t a v] I(6) [of u a t] owns by (auto split: if_splits)
    subgoal by (rule I(7))
    subgoal for u c using I(8) [of u c] I(8) [of t c] draws by (auto split: if_splits)
    subgoal for u v c using I(9) [of u c v] I(9) [of t c v] I(9) [of u c t] draws by (auto split: if_splits)
    subgoal for u v c using I(10) [of u c v] I(10) [of t c v] I(10) [of u c t] saw [of c] draws top [of v] top [of t]
      by (auto split: if_splits)
    subgoal for u using I(11) [of u] knows by auto
    done
qed

subsection \<open>Every access keeps the invariant\<close>

text \<open>The list that is promised: a stack.\<close>

fun stack_step :: "fl_event \<Rightarrow> addr list \<Rightarrow> addr list option" where
  "stack_step ETau xs = Some xs"
| "stack_step (EPush a) xs = Some (a # xs)"
| "stack_step (EPop (Some a)) [] = None"
| "stack_step (EPop (Some a)) (x # xs) = (if a = x then Some xs else None)"
| "stack_step (EPop None) xs = (if xs = [] then Some [] else None)"

fun stack_run :: "fl_event list \<Rightarrow> addr list \<Rightarrow> addr list option" where
  "stack_run [] xs = Some xs"
| "stack_run (e # es) xs = do { xs \<leftarrow> stack_step e xs; stack_run es xs }"

lemma stack_run_snoc: "stack_run (es @ [e]) xs = do { ys \<leftarrow> stack_run es xs; stack_step e ys }"
  by (induction es arbitrary: xs) (auto split: Option.bind_splits)

lemma chain_other: "a \<notin> fst ` set xs \<Longrightarrow> chain (m(a := v)) p c xs = chain m p c xs"
  by (induction xs arbitrary: p c) (auto split: if_splits)

lemma chain_dom: "chain m p c xs \<Longrightarrow> a \<in> fst ` set xs \<Longrightarrow> m a \<noteq> None"
  by (induction xs arbitrary: p c) force+

lemma chain_top: "chain m p c xs \<Longrightarrow> p = (case xs of [] \<Rightarrow> None | x # _ \<Rightarrow> Some (fst x))"
  by (cases xs) auto

lemma knows_link:
  assumes "knows l xs pc" "a \<notin> fst ` set xs" "owns pc \<noteq> Some a"
  shows "knows (l\<lparr>fl_elems := (fl_elems l)(a \<mapsto> e)\<rparr>) xs pc"
  using assms by (cases pc) (auto simp: image_iff)

lemma knows_top:
  "knows (l\<lparr>fl_top := p\<rparr>) xs pc = knows l xs pc" "knows (l\<lparr>fl_topc := c\<rparr>) xs pc = knows l xs pc"
  "knows (l\<lparr>fl_aba := c\<rparr>) xs pc = knows l xs pc"
  by (cases pc; simp)+

lemma knows_fewer: "knows l xs pc \<Longrightarrow> set ys \<subseteq> set xs \<Longrightarrow> knows l ys pc"
  by (cases pc) auto

lemma knows_more: "knows l xs pc \<Longrightarrow> saw pc \<noteq> Some c \<Longrightarrow> knows l ((a, c) # xs) pc"
  by (cases pc) auto

lemma inv_link:
  assumes inv: "fl_inv \<lparr>lst = l, pcs = P, held = H\<rparr> xs" and own: "owns (P t) = Some a"
    and pc: "owns pc = Some a" "draws pc = draws (P t)" "saw pc = None"
    and knows: "knows (l\<lparr>fl_elems := (fl_elems l)(a \<mapsto> e)\<rparr>) xs pc"
  shows "fl_inv \<lparr>lst = l\<lparr>fl_elems := (fl_elems l)(a \<mapsto> e)\<rparr>, pcs = P(t := pc), held = H\<rparr> xs"
proof -
  note I = fl_invD [OF inv]
  have a: "a \<notin> fst ` set xs" using I(5) [OF own] by blast
  have "fl_inv \<lparr>lst = l\<lparr>fl_elems := (fl_elems l)(a \<mapsto> e)\<rparr>, pcs = P(t := PushDone), held = H\<rparr> xs"
    (is "fl_inv \<lparr>lst = ?l, pcs = ?P, held = H\<rparr> xs")
  proof -
    show ?thesis
      apply (rule fl_invI)
      subgoal using I(1) a by (simp add: chain_other)
      subgoal by (rule I(2))
      subgoal by (rule I(3))
      subgoal for b using I(4) [of b] by simp
      subgoal for u b using I(5) [of u b] by (auto split: if_splits)
      subgoal for u v b using I(6) [of u b v] by (auto split: if_splits)
      subgoal using I(7) by simp
      subgoal for u c using I(8) [of u c] by (auto split: if_splits)
      subgoal for u v c using I(9) [of u c v] by (auto split: if_splits)
      subgoal for u v c using I(10) [of u c v] by (auto split: if_splits)
      subgoal for u using knows_link [OF I(11) [of u] a] I(6) [OF own, of u] by auto
      done
  qed
  note J = fl_invD [OF this]
  show ?thesis
    apply (rule fl_invI)
    subgoal by (rule J(1))
    subgoal by (rule J(2))
    subgoal by (rule J(3))
    subgoal by (rule J(4))
    subgoal for u b using J(5) [of u b] I(5) [OF own] pc by (auto split: if_splits)
    subgoal for u v b using J(6) [of u b v] I(6) [OF own, of u] I(6) [OF own, of v] pc by (auto split: if_splits)
    subgoal by (rule J(7))
    subgoal for u c using I(8) [of u c] I(8) [of t c] pc by (auto split: if_splits)
    subgoal for u v c using I(9) [of u c v] I(9) [of t c v] I(9) [of u c t] pc by (auto split: if_splits)
    subgoal for u v c using I(10) [of u c v] I(10) [of u c t] pc by (auto split: if_splits)
    subgoal for u using J(11) [of u] knows by (auto split: if_splits)
    done
qed

lemma inv_swap_pop:
  assumes inv: "fl_inv \<lparr>lst = l, pcs = P, held = H\<rparr> xs" and pc: "P t = PopX p c n k"
    and top: "fl_top l = Some p" "fl_topc l = c"
  shows "\<exists>ys. xs = (p, c) # ys
    \<and> fl_inv \<lparr>lst = l\<lparr>fl_top := n, fl_topc := k\<rparr>, pcs = P(t := PopDone (Some p)), held = H\<rparr> ys"
proof -
  note I = fl_invD [OF inv]
  from I(1) top obtain ys e where xs: "xs = (p, c) # ys" and e: "fl_elems l p = Some e"
    and ch: "chain (fl_elems l) (fe_next e) (fe_ctr e) ys"
    by (cases xs) auto
  have nk: "fe_next e = n" "fe_ctr e = k" using I(11) [of t] pc xs e by auto
  have "fl_inv \<lparr>lst = l\<lparr>fl_top := n, fl_topc := k\<rparr>, pcs = P(t := PopDone (Some p)), held = H\<rparr> ys"
    apply (rule fl_invI)
    subgoal using ch nk by simp
    subgoal using I(2) xs by simp
    subgoal using I(3) xs by auto
    subgoal for b using I(4) [of b] by simp
    subgoal for u b using I(5) [of u b] I(2,3) xs e by (auto split: if_splits)
    subgoal for u v b using I(6) [of u b v] I(5) [of u b] I(5) [of v b] xs by (auto split: if_splits)
    subgoal using I(7) xs by auto
    subgoal for u d using I(8) [of u d] xs by (auto split: if_splits)
    subgoal for u v d using I(9) [of u d v] by (auto split: if_splits)
    subgoal for u v d using I(10) [of u d v] by (auto split: if_splits)
    subgoal for u using knows_fewer [OF I(11) [of u], of ys] xs by (auto simp: knows_top)
    done
  with xs show ?thesis by blast
qed

lemma inv_swap_push:
  assumes inv: "fl_inv \<lparr>lst = l, pcs = P, held = H\<rparr> xs" and pc: "P t = PushX fe c p k"
    and top: "fl_top l = p" "fl_topc l = k"
  shows "fl_inv \<lparr>lst = l\<lparr>fl_top := Some fe, fl_topc := c\<rparr>, pcs = P(t := PushDone), held = H\<rparr> ((fe, c) # xs)"
proof -
  note I = fl_invD [OF inv]
  have own: "owns (P t) = Some fe" "draws (P t) = Some c" using pc by simp_all
  obtain e where e: "fl_elems l fe = Some e" "fe_next e = p" "fe_ctr e = k" using I(11) [of t] pc by auto
  show ?thesis
    apply (rule fl_invI)
    subgoal using I(1) e top by simp
    subgoal using I(2) I(5) [OF own(1)] by simp
    subgoal using I(3) I(5) [OF own(1)] by simp
    subgoal for b using I(4) [of b] by simp
    subgoal for u b using I(5) [of u b] I(6) [OF own(1), of u] by (auto split: if_splits)
    subgoal for u v b using I(6) [of u b v] by (auto split: if_splits)
    subgoal using I(7) I(8) [OF own(2)] by auto
    subgoal for u d using I(8) [of u d] I(9) [OF own(2), of u] by (auto split: if_splits)
    subgoal for u v d using I(9) [of u d v] by (auto split: if_splits)
    subgoal for u v d using I(10) [of u d v] by (auto split: if_splits)
    subgoal for u using knows_more [OF I(11) [of u], of c fe] I(10) [of u c t] own(2) by (auto simp: knows_top)
    done
qed

lemma inv_draw:
  assumes inv: "fl_inv \<lparr>lst = l, pcs = P, held = H\<rparr> xs" and pc: "P t = PushA fe"
    and room: "fl_aba l < fl_aba l + 1"
  shows "fl_inv \<lparr>lst = l\<lparr>fl_aba := fl_aba l + 1\<rparr>, pcs = P(t := PushP fe (fl_aba l + 1)), held = H\<rparr> xs"
proof -
  note I = fl_invD [OF inv]
  have own: "owns (P t) = Some fe" using pc by simp
  have up: "d \<le> fl_aba l \<Longrightarrow> d \<le> fl_aba l + 1 \<and> d \<noteq> fl_aba l + 1" for d using room by auto
  show ?thesis
    apply (rule fl_invI)
    subgoal using I(1) by simp
    subgoal by (rule I(2))
    subgoal by (rule I(3))
    subgoal for b using I(4) [of b] by simp
    subgoal for u b using I(5) [of u b] I(5) [OF own] by (auto split: if_splits)
    subgoal for u v b using I(6) [of u b v] I(6) [OF own, of u] I(6) [OF own, of v] by (auto split: if_splits)
    subgoal using I(7) up by auto
    subgoal for u d using I(8) [of u d] up I(7) room by (auto split: if_splits simp: word_neq_0_conv [symmetric])
    subgoal for u v d using I(9) [of u d v] I(8) [of u d] I(8) [of v d] up by (auto split: if_splits)
    subgoal for u v d using I(10) [of u d v] I(10) [of u d u] up by (auto split: if_splits)
    subgoal for u using I(11) [of u] by (auto simp: knows_top)
    done
qed

text \<open>One access of any thread.\<close>

lemma inv_exec:
  assumes inv: "fl_inv \<lparr>lst = l, pcs = P, held = H\<rparr> xs" and ex: "fl_exec (P t) l = Some (pc, l')"
    and room: "fl_aba l < fl_aba l + 1"
  shows "\<exists>ys. fl_inv \<lparr>lst = l', pcs = P(t := pc), held = H\<rparr> ys
    \<and> stack_step (fl_effect (P t) pc) (map fst xs) = Some (map fst ys)"
proof -
  note I = fl_invD [OF inv] and stay = fl_inv_pc [OF inv, of pc t]
  have top: "fl_top l = Some a \<Longrightarrow> fl_elems l a \<noteq> None" "fl_top l = None \<Longrightarrow> xs = []" for a
    using I(1) by (cases xs; auto)+
  show ?thesis
  proof (cases "P t")
    case PopC
    then show ?thesis using ex stay by auto
  next
    case (PopP c)
    with ex have pc: "pc = PopT (fl_top l) c" "l' = l" by auto
    have "fl_inv \<lparr>lst = l, pcs = P(t := pc), held = H\<rparr> xs" using PopP pc top by (intro stay) auto
    then show ?thesis using PopP pc top by (cases "fl_top l") auto
  next
    case (PopT p c)
    then show ?thesis using inv ex I(11) [of t] by (cases p) (auto intro!: exI [of _ xs] fl_inv_pc)
  next
    case (PopN p c n)
    then show ?thesis using inv ex I(11) [of t] by (auto intro!: exI [of _ xs] fl_inv_pc)
  next
    case (PopX p c n k)
    show ?thesis
    proof (cases "fl_top l = Some p \<and> fl_topc l = c")
      case True
      then show ?thesis using inv_swap_pop [OF inv PopX] PopX ex by (auto simp: lfds_dcas_def)
    next
      case False
      with PopX ex have pc: "pc = PopT (fl_top l) (fl_topc l)" "l' = l" by (auto simp: lfds_dcas_def)
      have "fl_inv \<lparr>lst = l, pcs = P(t := pc), held = H\<rparr> xs" using PopX pc top by (intro stay) auto
      then show ?thesis using PopX pc top by (cases "fl_top l") auto
    qed
  next
    case (PushA fe)
    then show ?thesis using inv_draw [OF inv PushA room] ex
      by (auto simp: lfds_increment_def Let_def)
  next
    case (PushP fe c)
    then show ?thesis using inv ex by (auto intro!: exI [of _ xs] fl_inv_pc)
  next
    case (PushC fe c p)
    then show ?thesis using inv ex by (auto intro!: exI [of _ xs] fl_inv_pc)
  next
    case (PushN fe c p k)
    then show ?thesis using inv ex by (auto simp: set_link_def intro!: exI [of _ xs] inv_link)
  next
    case (PushM fe c p k)
    then show ?thesis using inv ex I(11) [of t] by (auto simp: set_link_def intro!: exI [of _ xs] inv_link)
  next
    case (PushX fe c p k)
    show ?thesis
    proof (cases "fl_top l = p \<and> fl_topc l = k")
      case True
      then show ?thesis using inv_swap_push [OF inv PushX] PushX ex
        by (auto simp: lfds_dcas_def intro!: exI [of _ "(fe, c) # xs"])
    next
      case False
      with PushX ex have "pc = PushN fe c (fl_top l) (fl_topc l)" "l' = l" by (auto simp: lfds_dcas_def)
      with PushX show ?thesis using inv by (auto intro!: exI [of _ xs] fl_inv_pc)
    qed
  qed (use ex in simp_all)
qed

subsection \<open>Runs\<close>

lemma inv_step:
  assumes inv: "fl_inv s xs" and step: "fl_step s ev s'" and room: "fl_aba (lst s) < fl_aba (lst s) + 1"
  shows "\<exists>ys. fl_inv s' ys \<and> stack_step ev (map fst xs) = Some (map fst ys)"
proof -
  obtain l P H where s: "s = \<lparr>lst = l, pcs = P, held = H\<rparr>" by (cases s)
  note inv = inv [unfolded s] and I = fl_invD [OF inv [unfolded s]]
  from step show ?thesis
  proof (cases rule: fl_step.cases)
    case (fs_pop t)
    then show ?thesis using inv s by (auto intro!: exI [of _ xs] fl_inv_pc)
  next
    case (fs_push t fe)
    have "fl_inv \<lparr>lst = l, pcs = P(t := PushA fe), held = H - {fe}\<rparr> xs"
      apply (rule fl_invI)
      subgoal by (rule I(1))
      subgoal by (rule I(2))
      subgoal using I(3) by auto
      subgoal for a using I(4) [of a] by auto
      subgoal for u a using I(5) [of u a] I(3) I(4) [of fe] fs_push s by (auto split: if_splits)
      subgoal for u v a using I(6) [of u a v] I(5) [of u a] I(5) [of v a] fs_push s by (auto split: if_splits)
      subgoal by (rule I(7))
      subgoal for u c using I(8) [of u c] by (auto split: if_splits)
      subgoal for u v c using I(9) [of u c v] by (auto split: if_splits)
      subgoal for u v c using I(10) [of u c v] by (auto split: if_splits)
      subgoal for u using I(11) [of u] by auto
      done
    with fs_push s show ?thesis by auto
  next
    case (fs_exec t pc l')
    with s have ex: "fl_exec (P t) l = Some (pc, l')" by simp
    from inv_exec [OF inv ex] room fs_exec s show ?thesis by auto
  next
    case (fs_popped t r)
    have "fl_inv \<lparr>lst = l, pcs = P(t := Idle), held = H \<union> set_option r\<rparr> xs"
      apply (rule fl_invI)
      subgoal by (rule I(1))
      subgoal by (rule I(2))
      subgoal using I(3) I(5) [of t] fs_popped s by (cases r) auto
      subgoal for a using I(4) [of a] I(5) [of t a] fs_popped s by (cases r) auto
      subgoal for u a using I(5) [of u a] I(6) [of u a t] fs_popped s by (auto split: if_splits)
      subgoal for u v a using I(6) [of u a v] by (auto split: if_splits)
      subgoal by (rule I(7))
      subgoal for u c using I(8) [of u c] by (auto split: if_splits)
      subgoal for u v c using I(9) [of u c v] by (auto split: if_splits)
      subgoal for u v c using I(10) [of u c v] by (auto split: if_splits)
      subgoal for u using I(11) [of u] by auto
      done
    with fs_popped s show ?thesis by auto
  next
    case (fs_pushed t)
    then show ?thesis using inv s by (auto intro!: exI [of _ xs] fl_inv_pc)
  next
    case (fs_new a e)
    have fresh: "a \<notin> fst ` set xs" "a \<notin> H" "owns (P t) \<noteq> Some a" for t
    proof -
      show "a \<notin> H" "owns (P t) \<noteq> Some a" using I(4) [of a] I(5) [of t a] fs_new s by auto
      show "a \<notin> fst ` set xs" using chain_dom [OF I(1), of a] fs_new s by auto
    qed
    have "fl_inv \<lparr>lst = l\<lparr>fl_elems := (fl_elems l)(a \<mapsto> e)\<rparr>, pcs = P, held = insert a H\<rparr> xs"
      apply (rule fl_invI)
      subgoal using I(1) fresh by (simp add: chain_other)
      subgoal by (rule I(2))
      subgoal using I(3) fresh by auto
      subgoal for b using I(4) [of b] by auto
      subgoal for u b using I(5) [of u b] fresh by auto
      subgoal for u v b using I(6) [of u b v] by auto
      subgoal using I(7) by simp
      subgoal for u c using I(8) [of u c] by auto
      subgoal for u v c using I(9) [of u c v] by auto
      subgoal for u v c using I(10) [of u c v] by auto
      subgoal for u using knows_link [OF I(11) [of u]] fresh by auto
      done
    with fs_new s show ?thesis by auto
  qed
qed

lemma step_aba:
  assumes "fl_step s ev s'"
  shows "unat (fl_aba (lst s')) \<le> unat (fl_aba (lst s)) + 1"
proof -
  have word: "unat (fl_aba l + 1) \<le> unat (fl_aba l) + 1" for l :: "'a freelist"
    by (cases "1 + fl_aba l = 0") (simp_all add: add.commute [of _ 1] unatSuc)
  have exec: "fl_aba l' = fl_aba l \<or> fl_aba l' = fl_aba l + 1" if "fl_exec pc l = Some (pc', l')"
    for pc pc' and l l' :: "'a freelist"
    using that
    by (cases "(pc, l)" rule: fl_exec.cases)
      (auto simp: lfds_dcas_def lfds_increment_def set_link_def Let_def split: if_splits)
  from assms show ?thesis
  proof cases
    case (fs_exec t pc l)
    with exec [OF fs_exec(3)] word [of "lst s"] show ?thesis by auto
  qed simp_all
qed

lemma chain_unique: "chain m p c xs \<Longrightarrow> chain m p c' ys \<Longrightarrow> map fst xs = map fst ys"
proof (induction xs arbitrary: p c c' ys)
  case Nil
  then show ?case by (cases ys) auto
next
  case (Cons x xs)
  obtain a k where x: "x = (a, k)" by (cases x)
  with Cons.prems(1) obtain e where p: "p = Some a" and e: "m a = Some e" "chain m (fe_next e) (fe_ctr e) xs" by auto
  with Cons.prems(2) obtain l ys' where ys: "ys = (a, l) # ys'" "chain m (fe_next e) (fe_ctr e) ys'"
    by (cases ys) auto
  from Cons.IH [OF e(2) ys(2)] show ?case by (simp add: x ys)
qed

lemma fl_run_inv:
  assumes "fl_initial s0" "fl_run s0 es s" "length es < 2 ^ 64"
  shows "\<exists>xs. fl_inv s xs \<and> stack_run es [] = Some (map fst xs) \<and> unat (fl_aba (lst s)) \<le> length es"
  using assms(2,3)
proof (induction rule: fl_run.induct)
  case fr_init
  obtain l P H where s: "s0 = \<lparr>lst = l, pcs = P, held = H\<rparr>" by (cases s0)
  from assms(1) have "fl_inv s0 []"
    unfolding s fl_initial_def by (intro fl_invI) simp_all
  with assms(1) show ?case by (auto simp: fl_initial_def)
next
  case (fr_step es s ev s')
  then obtain xs where xs: "fl_inv s xs" "stack_run es [] = Some (map fst xs)"
    and aba: "unat (fl_aba (lst s)) \<le> length es" by auto
  have "unat (fl_aba (lst s)) + 1 < 2 ^ 64" using aba fr_step.prems by simp
  then have room: "fl_aba (lst s) < fl_aba (lst s) + 1"
    by (simp add: word_less_nat_alt unat_word_ariths)
  from inv_step [OF xs(1) fr_step.hyps(2) this] xs(2) step_aba [OF fr_step.hyps(2)] aba
  show ?case by (auto simp: stack_run_snoc)
qed

subsection \<open>Running alone\<close>

text \<open>Whatever other threads left half done, one that runs alone finishes: at most one swap fails,
  because it loads the current top.\<close>

lemma solo_finishes:
  assumes inv: "fl_inv \<lparr>lst = l, pcs = P, held = H\<rparr> xs" and busy: "P t \<noteq> Idle"
  shows "fl_solo 7 (P t) l \<noteq> None"
proof -
  note I = fl_invD [OF inv]
  have top: "fl_top l = Some a \<Longrightarrow> \<exists>e. fl_elems l a = Some e" for a using I(1) by (cases xs) auto
  have own: "owns (P t) = Some a \<Longrightarrow> \<exists>e. fl_elems l a = Some e" for a using I(5) [of t a] by auto
  show ?thesis
  proof (cases "P t")
    case (PopP c)
    then show ?thesis using top by (cases "fl_top l"; cases "fl_topc l = c") (auto simp: lfds_dcas_def numeral_eq_Suc)
  next
    case PopC
    then show ?thesis using top by (cases "fl_top l") (auto simp: lfds_dcas_def numeral_eq_Suc)
  next
    case (PopT p c)
    then show ?thesis using top I(11) [of t]
      by (cases "fl_top l"; cases p; cases "fl_topc l = c"; cases "p = fl_top l") (auto simp: lfds_dcas_def numeral_eq_Suc)
  next
    case (PopN p c n)
    then show ?thesis using top I(11) [of t]
      by (cases "fl_top l"; cases "fl_topc l = c"; cases "fl_top l = Some p") (auto simp: lfds_dcas_def numeral_eq_Suc)
  next
    case (PopX p c n k)
    then show ?thesis using top by (cases "fl_top l"; cases "fl_topc l = c") (auto simp: lfds_dcas_def numeral_eq_Suc)
  qed (use own busy in \<open>auto simp: lfds_dcas_def lfds_increment_def set_link_def Let_def numeral_eq_Suc\<close>)
qed

subsection \<open>Properties of the free list\<close>

text \<open>C1: Linearisability. However threads interleave, the operations that took effect so far are
  those of a stack, in that order and with these results, and the links form exactly that
  stack, as long as the counter cannot have come round.\<close>

theorem freelist_linearizable:
  assumes "fl_initial s0" "fl_run s0 es s" "length es < 2 ^ 64"
  shows "\<exists>xs. stack_run es [] = Some (map fst xs) \<and> distinct (map fst xs)
    \<and> chain (fl_elems (lst s)) (fl_top (lst s)) (fl_topc (lst s)) xs"
  using fl_run_inv [OF assms] by (auto simp: fl_inv_def)

definition ex_fl :: "unit fl_state" where
  "ex_fl = \<lparr>lst = \<lparr>fl_top = None, fl_topc = 0, fl_aba = 0, fl_count = 0, fl_elems = \<lambda>_. None\<rparr>,
     pcs = \<lambda>_. Idle, held = {}\<rparr>"

text \<open>A scheduler, to compute runs: which thread does what next.\<close>

datatype fl_cmd = CPop nat | CPush nat addr | CRun nat | CRet nat | CNew addr

fun fl_do :: "fl_cmd \<Rightarrow> unit fl_state \<Rightarrow> (fl_event \<times> unit fl_state) option" where
  "fl_do (CPop t) s = (if pcs s t = Idle then Some (ETau, s\<lparr>pcs := (pcs s)(t := PopC)\<rparr>) else None)"
| "fl_do (CPush t a) s = (if pcs s t = Idle \<and> a \<in> held s
     then Some (ETau, s\<lparr>pcs := (pcs s)(t := PushA a), held := held s - {a}\<rparr>) else None)"
| "fl_do (CRun t) s = do { (pc, l) \<leftarrow> fl_exec (pcs s t) (lst s);
     Some (fl_effect (pcs s t) pc, s\<lparr>pcs := (pcs s)(t := pc), lst := l\<rparr>) }"
| "fl_do (CRet t) s = (case pcs s t of
     PopDone r \<Rightarrow> Some (ETau, s\<lparr>pcs := (pcs s)(t := Idle), held := held s \<union> set_option r\<rparr>)
   | PushDone \<Rightarrow> Some (ETau, s\<lparr>pcs := (pcs s)(t := Idle)\<rparr>)
   | _ \<Rightarrow> None)"
| "fl_do (CNew a) s = (if fl_elems (lst s) a = None
     then Some (ETau, s\<lparr>lst := (lst s)\<lparr>fl_elems := (fl_elems (lst s))(a \<mapsto> \<lparr>fe_next = None, fe_ctr = 0, fe_data = None\<rparr>)\<rparr>,
                          held := insert a (held s)\<rparr>) else None)"

fun fl_drive :: "fl_cmd list \<Rightarrow> unit fl_state \<Rightarrow> (fl_event list \<times> unit fl_state) option" where
  "fl_drive [] s = Some ([], s)"
| "fl_drive (c # cs) s = do { (e, s) \<leftarrow> fl_do c s; (es, s) \<leftarrow> fl_drive cs s; Some (e # es, s) }"

lemma fl_do_step: "fl_do c s = Some (e, s') \<Longrightarrow> fl_step s e s'"
  by (cases c) (auto split: if_splits fl_pc.splits intro: fl_step.intros)

lemma fl_drive_run: "fl_drive cs s = Some (es, s') \<Longrightarrow> fl_run s0 es0 s \<Longrightarrow> fl_run s0 (es0 @ es) s'"
proof (induction cs arbitrary: s es es0)
  case (Cons c cs)
  then obtain e s1 es1 where "fl_do c s = Some (e, s1)" "fl_drive cs s1 = Some (es1, s')" "es = e # es1"
    by auto
  with Cons.IH [of s1 es1 "es0 @ [e]"] fr_step [OF Cons.prems(2) fl_do_step] show ?case by simp
qed simp

text \<open>A run in which one thread reads the top and is overtaken: another pops both elements and
  pushes the first back, so that the same address is on top again with another successor.\<close>

definition ex_cmds :: "fl_cmd list" where
  "ex_cmds = [CNew 5, CNew 6, CPush 0 5] @ replicate 6 (CRun 0) @ [CRet 0, CPush 0 6] @ replicate 6 (CRun 0)
     @ [CRet 0, CPop 1] @ replicate 4 (CRun 1) @ [CPop 0] @ replicate 5 (CRun 0) @ [CRet 0, CPop 0]
     @ replicate 5 (CRun 0) @ [CRet 0, CPush 0 6] @ replicate 6 (CRun 0) @ replicate 4 (CRun 1)
     @ [CRet 0, CPush 0 5] @ replicate 6 (CRun 0)"

definition ex_events :: "fl_event list" where
  "ex_events = replicate 8 ETau @ [EPush 5] @ replicate 7 ETau @ [EPush 6] @ replicate 11 ETau @ [EPop (Some 6)]
     @ replicate 6 ETau @ [EPop (Some 5)] @ replicate 7 ETau @ [EPush 6] @ replicate 3 ETau @ [EPop (Some 6)]
     @ replicate 7 ETau @ [EPush 5]"

lemma ex_drive: "\<exists>s. fl_drive ex_cmds ex_fl = Some (ex_events, s) \<and> pcs s 1 = PopDone (Some 6)"
  by (simp add: ex_events_def ex_cmds_def ex_fl_def numeral_eq_Suc lfds_dcas_def lfds_increment_def set_link_def Let_def)

theorem freelist_linearizable_witness:
  "\<exists>s xs. fl_run ex_fl ex_events s \<and> stack_run ex_events [] = Some (map fst xs)
     \<and> chain (fl_elems (lst s)) (fl_top (lst s)) (fl_topc (lst s)) xs \<and> map fst xs = [5]"
proof -
  obtain s where d: "fl_drive ex_cmds ex_fl = Some (ex_events, s)" using ex_drive by blast
  from fl_drive_run [OF this fr_init] have run: "fl_run ex_fl ex_events s" by simp
  have init: "fl_initial ex_fl" by (simp add: fl_initial_def ex_fl_def)
  have "length ex_events < 2 ^ 64" by (simp add: ex_events_def)
  moreover have "stack_run ex_events [] = Some [5]" by (simp add: ex_events_def numeral_eq_Suc)
  moreover obtain xs where "stack_run ex_events [] = Some (map fst xs)"
      "chain (fl_elems (lst s)) (fl_top (lst s)) (fl_topc (lst s)) xs"
    using freelist_linearizable [OF init run calculation(1)] by blast
  ultimately have "map fst xs = [5]" by simp
  with \<open>chain _ _ _ xs\<close> run \<open>stack_run ex_events [] = Some [5]\<close> show ?thesis by metis
qed

text \<open>C2: Exclusive use. In every reachable state an element is in the list, in the hands of a
  client, or with one thread that is returning or pushing it, and never in two of these
  places; and no thread is about to follow a pointer that leads nowhere.\<close>

theorem freelist_exclusive:
  assumes "fl_initial s0" "fl_run s0 es s" "length es < 2 ^ 64"
    and "chain (fl_elems (lst s)) (fl_top (lst s)) (fl_topc (lst s)) xs"
  shows "fst ` set xs \<inter> held s = {}
    \<and> (\<forall>t a. owns (pcs s t) = Some a \<longrightarrow> a \<notin> fst ` set xs \<and> a \<notin> held s
         \<and> (\<forall>u. owns (pcs s u) = Some a \<longrightarrow> u = t))
    \<and> (\<forall>t. fl_exec (pcs s t) (lst s) = None \<longrightarrow> pcs s t \<in> {Idle, PushDone} \<union> range PopDone)"
proof -
  obtain ys where inv: "fl_inv s ys" using fl_run_inv [OF assms(1-3)] by blast
  obtain l P H where s: "s = \<lparr>lst = l, pcs = P, held = H\<rparr>" by (cases s)
  note I = fl_invD [OF inv [unfolded s]]
  have "map fst ys = map fst xs" using I(1) assms(4) unfolding s by (auto intro: chain_unique)
  then have same: "fst ` set ys = fst ` set xs" by (metis set_map)
  have go: "P t \<in> {Idle, PushDone} \<union> range PopDone" if "fl_exec (P t) l = None" for t
    using that I(11) [of t] I(5) [of t]
    by (cases "(P t, l)" rule: fl_exec.cases) (auto simp: lfds_dcas_def set_link_def Let_def split: if_splits)
  show ?thesis unfolding s fl_state.simps
    using I(3) I(5,6) go unfolding same by blast
qed

theorem freelist_exclusive_witness:
  "\<exists>s. fl_run ex_fl ex_events s \<and> fl_exec (pcs s 1) (lst s) = None \<and> 6 \<notin> held s"
proof -
  obtain s where d: "fl_drive ex_cmds ex_fl = Some (ex_events, s)" and pc: "pcs s 1 = PopDone (Some 6)"
    using ex_drive by blast
  from fl_drive_run [OF d fr_init] have run: "fl_run ex_fl ex_events s" by simp
  have init: "fl_initial ex_fl" by (simp add: fl_initial_def ex_fl_def)
  have "length ex_events < 2 ^ 64" by (simp add: ex_events_def)
  note reached = init run this
  obtain xs where "chain (fl_elems (lst s)) (fl_top (lst s)) (fl_topc (lst s)) xs"
    using fl_run_inv [OF reached] by (auto simp: fl_inv_def)
  from freelist_exclusive [OF reached this] have "owns (pcs s 1) = Some 6 \<longrightarrow> 6 \<notin> held s" by blast
  with run pc show ?thesis by auto
qed

text \<open>C40: Progress. From every reachable state a thread in the middle of an operation completes it
  within seven accesses if it runs alone, whatever the others left half done.\<close>

theorem freelist_obstruction_free:
  assumes "fl_initial s0" "fl_run s0 es s" "length es < 2 ^ 64" "pcs s t \<noteq> Idle"
  shows "\<exists>l'. fl_solo 7 (pcs s t) (lst s) = Some (PushDone, l')
    \<or> (\<exists>r. fl_solo 7 (pcs s t) (lst s) = Some (PopDone r, l'))"
proof -
  obtain l P H where s: "s = \<lparr>lst = l, pcs = P, held = H\<rparr>" by (cases s)
  obtain xs where "fl_inv s xs" using fl_run_inv [OF assms(1-3)] by blast
  then have "fl_solo 7 (P t) l \<noteq> None" using solo_finishes assms(4) unfolding s by fastforce
  then obtain pc l' where r: "fl_solo 7 (P t) l = Some (pc, l')" by auto
  have "fl_solo n pc0 k = Some (pc, l') \<Longrightarrow> pc = PushDone \<or> (\<exists>r. pc = PopDone r)" for n pc0 k
    by (induction n pc0 k rule: fl_solo.induct) auto
  from this [OF r] r show ?thesis unfolding s by auto
qed

theorem freelist_obstruction_free_witness:
  "\<exists>s l'. fl_run ex_fl [ETau] s \<and> fl_solo 7 (pcs s 3) (lst s) = Some (PopDone None, l')"
proof -
  let ?s = "ex_fl\<lparr>pcs := (pcs ex_fl)(3 := PopC)\<rparr>"
  have init: "fl_initial ex_fl" by (simp add: fl_initial_def ex_fl_def)
  have "fl_drive [CPop 3] ex_fl = Some ([ETau], ?s)" by (simp add: ex_fl_def)
  from fl_drive_run [OF this fr_init] have run: "fl_run ex_fl [ETau] ?s" by simp
  have "length [ETau] < 2 ^ 64" "pcs ?s 3 \<noteq> Idle" by simp_all
  from freelist_obstruction_free [OF init run this] obtain l' where
    "fl_solo 7 PopC (lst ex_fl) = Some (PushDone, l') \<or> (\<exists>r. fl_solo 7 PopC (lst ex_fl) = Some (PopDone r, l'))"
    by auto
  moreover have "fl_solo 7 PopC (lst ex_fl) = Some (PopDone None, lst ex_fl)"
    by (simp add: ex_fl_def numeral_eq_Suc)
  ultimately show ?thesis using run by force
qed

end
