(* ===== verification/QueueThreads.thy ===== *)
theory QueueThreads
  imports LfdsQueue LfdsThreads
begin

text \<open>
  The queue of \<open>liblfds611\<close> under any number of threads, which take turns at single accesses to
  shared memory: the queue's own, those of the free list its elements come from, and the
  initialisation of an element. Steps are labelled with the operation that takes effect in them.
\<close>

subsection \<open>Threads\<close>

text \<open>
  Where a thread stands: taking an element from the free list, initialising it (before the access
  that reads its address, draws a counter, clears the link, draws the link's counter, sets it,
  stores the free list's element, stores the data), in the accesses of \<open>q_exec\<close>, and giving an
  element back.
\<close>

datatype 'v qt_pc = QIdle | QPop "'v option" | QInit0 addr "'v option"
  | QInit1 addr addr "'v option" | QInit2 addr addr "'v option" | QInit3 addr addr "'v option"
  | QInit4 addr addr "'v option" u64 | QInit5 addr addr "'v option" | QInit6 addr addr "'v option"
  | QOp "'v q_pc" | QPush

record 'v qt_state =
  qt_q :: "'v lqueue"
  qt_pcs :: "nat \<Rightarrow> 'v qt_pc"
  qt_fpcs :: "nat \<Rightarrow> fl_pc"
  qt_held :: "addr set"

datatype 'v qt_event = QTau | QStart nat | QEnq "'v option" | QDeq "'v option" | QEmpty nat

text \<open>Where an operation takes effect: an enqueue when its element is linked, a dequeue in its swap.
  A dequeue that finds nothing reports so.\<close>

definition q_effect :: "nat \<Rightarrow> 'v lqueue \<Rightarrow> 'v q_pc \<Rightarrow> 'v q_pc \<Rightarrow> 'v qt_event" where
  "q_effect t q pc pc' = (case pc of
       EnqLink n e ec nc \<Rightarrow> (case pc' of EnqTail _ _ _ \<Rightarrow> QEnq (q_data q n) | _ \<Rightarrow> QTau)
     | DeqSwap d dc nx u \<Rightarrow> (case pc' of DeqDone _ _ \<Rightarrow> QDeq u | _ \<Rightarrow> QTau)
     | _ \<Rightarrow> (case pc' of DeqEmpty \<Rightarrow> QEmpty t | _ \<Rightarrow> QTau))"

definition qt_pc_to :: "nat \<Rightarrow> 'v qt_pc \<Rightarrow> 'v lqueue \<Rightarrow> 'v qt_state \<Rightarrow> ('v qt_event \<times> 'v qt_state) option" where
  "qt_pc_to t pc q s = Some (QTau, s\<lparr>qt_q := q, qt_pcs := (qt_pcs s)(t := pc)\<rparr>)"

definition fl_access :: "nat \<Rightarrow> 'v qt_state \<Rightarrow> ('v qt_event \<times> 'v qt_state) option" where
  "fl_access t s = do {
     (pc, l) \<leftarrow> fl_exec (qt_fpcs s t) (lq_fs (qt_q s));
     Some (QTau, s\<lparr>qt_q := (qt_q s)\<lparr>lq_fs := l\<rparr>, qt_fpcs := (qt_fpcs s)(t := pc)\<rparr>) }"

text \<open>What the two calls of the free list come to when they are done.\<close>

definition qt_popped :: "nat \<Rightarrow> 'v option \<Rightarrow> addr option \<Rightarrow> 'v qt_state \<Rightarrow> 'v qt_state" where
  "qt_popped t u r s = s\<lparr>qt_fpcs := (qt_fpcs s)(t := Idle), qt_held := qt_held s \<union> set_option r,
     qt_pcs := (qt_pcs s)(t := (case r of None \<Rightarrow> QIdle | Some fe \<Rightarrow> QInit0 fe u))\<rparr>"

definition qt_free :: "nat \<Rightarrow> addr \<Rightarrow> 'v qt_state \<Rightarrow> 'v qt_state" where
  "qt_free t fe s = s\<lparr>qt_fpcs := (qt_fpcs s)(t := PushA fe), qt_held := qt_held s - {fe},
     qt_pcs := (qt_pcs s)(t := QPush)\<rparr>"

definition qt_exec :: "nat \<Rightarrow> 'v qt_state \<Rightarrow> ('v qt_event \<times> 'v qt_state) option" where
  "qt_exec t s = (let q = qt_q s in
     case qt_pcs s t of
       QIdle \<Rightarrow> None
     | QPop u \<Rightarrow> (case qt_fpcs s t of PopDone r \<Rightarrow> Some (QTau, qt_popped t u r s) | _ \<Rightarrow> fl_access t s)
     | QInit0 fe u \<Rightarrow> do { d \<leftarrow> freelist_get_user_data (lq_fs q) fe; n \<leftarrow> d; qt_pc_to t (QInit1 n fe u) q s }
     | QInit1 n fe u \<Rightarrow> qt_pc_to t (QInit2 n fe u) (q\<lparr>lq_aba := lfds_increment (lq_aba q)\<rparr>) s
     | QInit2 n fe u \<Rightarrow> do { q \<leftarrow> upd_elem q n (\<lambda>x. x\<lparr>qe_next := None\<rparr>); qt_pc_to t (QInit3 n fe u) q s }
     | QInit3 n fe u \<Rightarrow> let c = lfds_increment (lq_aba q) in qt_pc_to t (QInit4 n fe u c) (q\<lparr>lq_aba := c\<rparr>) s
     | QInit4 n fe u c \<Rightarrow> do { q \<leftarrow> upd_elem q n (\<lambda>x. x\<lparr>qe_ctr := c\<rparr>); qt_pc_to t (QInit5 n fe u) q s }
     | QInit5 n fe u \<Rightarrow> do { q \<leftarrow> upd_elem q n (\<lambda>x. x\<lparr>qe_fe := fe\<rparr>); qt_pc_to t (QInit6 n fe u) q s }
     | QInit6 n fe u \<Rightarrow> do { q \<leftarrow> upd_elem q n (\<lambda>x. x\<lparr>qe_data := u\<rparr>); qt_pc_to t (QOp (Enq0 n)) q s }
     | QOp EnqDone \<Rightarrow> qt_pc_to t QIdle q s
     | QOp DeqEmpty \<Rightarrow> qt_pc_to t QIdle q s
     | QOp (DeqDone d u) \<Rightarrow> do { x \<leftarrow> lq_elems q d; Some (QTau, qt_free t (qe_fe x) s) }
     | QOp pc \<Rightarrow> do {
         (pc', q') \<leftarrow> q_exec pc q;
         Some (q_effect t q pc pc', s\<lparr>qt_q := q', qt_pcs := (qt_pcs s)(t := QOp pc')\<rparr>) }
     | QPush \<Rightarrow> (case qt_fpcs s t of
         PushDone \<Rightarrow> Some (QTau, s\<lparr>qt_fpcs := (qt_fpcs s)(t := Idle), qt_pcs := (qt_pcs s)(t := QIdle)\<rparr>)
       | _ \<Rightarrow> fl_access t s))"

text \<open>Runs in which the threads of \<open>W\<close> may enqueue and all may dequeue.\<close>

definition start_enqueue :: "nat \<Rightarrow> 'v option \<Rightarrow> 'v qt_state \<Rightarrow> 'v qt_state" where
  "start_enqueue t u s = s\<lparr>qt_pcs := (qt_pcs s)(t := QPop u), qt_fpcs := (qt_fpcs s)(t := PopC)\<rparr>"

definition start_dequeue :: "nat \<Rightarrow> 'v qt_state \<Rightarrow> 'v qt_state" where
  "start_dequeue t s = s\<lparr>qt_pcs := (qt_pcs s)(t := QOp Deq0)\<rparr>"

inductive qt_run :: "(nat \<Rightarrow> bool) \<Rightarrow> 'v qt_state \<Rightarrow> 'v qt_event list \<Rightarrow> 'v qt_state \<Rightarrow> bool" for W s0 where
  qr_init: "qt_run W s0 [] s0"
| qr_enqueue: "qt_run W s0 es s \<Longrightarrow> qt_pcs s t = QIdle \<Longrightarrow> W t \<Longrightarrow> qt_run W s0 (es @ [QTau]) (start_enqueue t u s)"
| qr_dequeue: "qt_run W s0 es s \<Longrightarrow> qt_pcs s t = QIdle \<Longrightarrow> qt_run W s0 (es @ [QStart t]) (start_dequeue t s)"
| qr_exec: "qt_run W s0 es s \<Longrightarrow> qt_exec t s = Some (ev, s') \<Longrightarrow> qt_run W s0 (es @ [ev]) s'"

text \<open>
  What is promised: a queue, with for each thread whether the queue was empty at some time since it
  began to dequeue. Only then may it report that there is nothing.
\<close>

fun queue_step :: "'v qt_event \<Rightarrow> 'v option list \<times> (nat \<Rightarrow> bool) \<Rightarrow> ('v option list \<times> (nat \<Rightarrow> bool)) option" where
  "queue_step QTau (us, sn) = Some (us, sn)"
| "queue_step (QStart t) (us, sn) = Some (us, sn(t := (us = [])))"
| "queue_step (QEnq v) (us, sn) = Some (us @ [v], sn)"
| "queue_step (QDeq v) (us, sn) =
     (case us of [] \<Rightarrow> None | x # xs \<Rightarrow> if x = v then Some (xs, \<lambda>t. sn t \<or> xs = []) else None)"
| "queue_step (QEmpty t) (us, sn) = (if sn t then Some (us, sn) else None)"

fun queue_run :: "'v qt_event list \<Rightarrow> 'v option list \<times> (nat \<Rightarrow> bool) \<Rightarrow> ('v option list \<times> (nat \<Rightarrow> bool)) option" where
  "queue_run [] a = Some a"
| "queue_run (e # es) a = do { a \<leftarrow> queue_step e a; queue_run es a }"

lemma queue_run_snoc: "queue_run (es @ [e]) a = do { b \<leftarrow> queue_run es a; queue_step e b }"
  by (induction es arbitrary: a) (auto split: Option.bind_splits)

subsection \<open>Two threads that enqueue\<close>

text \<open>A scheduler, to compute runs.\<close>

datatype 'v qt_cmd = CEnq nat "'v option" | CDeq nat | CAcc nat nat

fun qt_accs :: "nat \<Rightarrow> nat \<Rightarrow> 'v qt_state \<Rightarrow> ('v qt_event list \<times> 'v qt_state) option" where
  "qt_accs t 0 s = Some ([], s)"
| "qt_accs t (Suc n) s = do { (e, s) \<leftarrow> qt_exec t s; (es, s) \<leftarrow> qt_accs t n s; Some (e # es, s) }"

fun qt_drive :: "'v qt_cmd list \<Rightarrow> 'v qt_state \<Rightarrow> ('v qt_event list \<times> 'v qt_state) option" where
  "qt_drive [] s = Some ([], s)"
| "qt_drive (CEnq t u # cs) s =
     (if qt_pcs s t = QIdle then do { (es, s) \<leftarrow> qt_drive cs (start_enqueue t u s); Some (QTau # es, s) } else None)"
| "qt_drive (CDeq t # cs) s =
     (if qt_pcs s t = QIdle then do { (es, s) \<leftarrow> qt_drive cs (start_dequeue t s); Some (QStart t # es, s) } else None)"
| "qt_drive (CAcc t n # cs) s = do { (es, s) \<leftarrow> qt_accs t n s; (es', s) \<leftarrow> qt_drive cs s; Some (es @ es', s) }"

text \<open>All threads idle; the dummy's element of the free list is the one that is out of it.\<close>

definition qt_of :: "'v lqueue \<Rightarrow> 'v qt_state" where
  "qt_of q = \<lparr>qt_q = q, qt_pcs = \<lambda>_. QIdle, qt_fpcs = \<lambda>_. Idle,
     qt_held = (case lq_deq q of Some d \<Rightarrow> {q_fe q d} | None \<Rightarrow> {})\<rparr>"

text \<open>A queue made for three elements.\<close>

definition ex_qe :: "u64 \<Rightarrow> addr \<Rightarrow> nat queue_elem" where
  "ex_qe c fe = \<lparr>qe_next = None, qe_ctr = c, qe_fe = fe, qe_data = None\<rparr>"

definition ex_lqueue :: "nat lqueue" where
  "ex_lqueue = \<lparr>lq_enq = Some 11, lq_enqc = 0, lq_deq = Some 11, lq_deqc = 0, lq_aba = 0,
     lq_fs = \<lparr>fl_top = Some 8, fl_topc = 3, fl_aba = 4, fl_count = 4,
       fl_elems = [4 \<mapsto> \<lparr>fe_next = None, fe_ctr = 0, fe_data = Some 5\<rparr>,
         6 \<mapsto> \<lparr>fe_next = Some 4, fe_ctr = 1, fe_data = Some 7\<rparr>,
         8 \<mapsto> \<lparr>fe_next = Some 6, fe_ctr = 2, fe_data = Some 9\<rparr>,
         10 \<mapsto> \<lparr>fe_next = Some 8, fe_ctr = 3, fe_data = Some 11\<rparr>]\<rparr>,
     lq_elems = [5 \<mapsto> ex_qe 0 0, 7 \<mapsto> ex_qe 0 0, 9 \<mapsto> ex_qe 0 0, 11 \<mapsto> ex_qe 2 10]\<rparr>"

lemma ex_queue_new: "queue_new 0 3 \<lparr>hp_next = 2, hp_plan = []\<rparr> = Some (1, Some ex_lqueue, \<lparr>hp_next = 12, hp_plan = []\<rparr>)"
  by (simp add: queue_new_def lfds_malloc_def freelist_new_def new_elements_numeral freelist_internal_new_element_def
      queue_malloc_def queue_internal_freelist_init_function_def freelist_push_eq queue_new_element_from_freelist_def
      queue_init_element_def freelist_pop_eq lfds_increment_def upd_elem_def empty_freelist_def
      freelist_get_user_data_def Let_def ex_lqueue_def ex_qe_def)

text \<open>
  One thread has read the empty link of the dummy and then, after another has linked its element,
  the link's new counter; the dummy is dequeued, given back and taken again, and its link is cleared
  before its counter is set. So the first thread's swap succeeds on an element that is in no queue.
\<close>

definition ex_two_cmds :: "nat qt_cmd list" where
  "ex_two_cmds = [CEnq 0 (Some 1), CAcc 0 16, CEnq 1 (Some 2), CAcc 1 20, CAcc 0 3, CAcc 1 2, CDeq 2, CAcc 2 18,
     CEnq 2 (Some 3), CAcc 2 9, CAcc 0 3, CDeq 1, CAcc 1 8]"

lemmas qt_eval = qt_exec_def qt_pc_to_def fl_access_def qt_popped_def qt_free_def start_enqueue_def start_dequeue_def
  freelist_get_user_data_def lfds_increment_def upd_elem_def lfds_dcas_def set_link_def q_effect_def q_data_def

lemma ex_two_drive:
  "\<exists>es s. qt_drive ex_two_cmds (qt_of ex_lqueue) = Some (es, s) \<and> length es < 200 \<and> queue_run es ([], \<lambda>_. True) = None"
  by (simp add: ex_two_cmds_def qt_of_def ex_lqueue_def ex_qe_def numeral_eq_Suc Let_def qt_eval)

lemma qt_accs_run: "qt_accs t n s = Some (es, s') \<Longrightarrow> qt_run W s0 es0 s \<Longrightarrow> qt_run W s0 (es0 @ es) s'"
proof (induction n arbitrary: s es es0)
  case (Suc n)
  then obtain e s1 es1 where e: "qt_exec t s = Some (e, s1)" "qt_accs t n s1 = Some (es1, s')" "es = e # es1" by auto
  from Suc.IH [OF e(2) qr_exec [OF Suc.prems(2) e(1)]] show ?case by (simp add: e(3))
qed simp

fun qt_writer :: "'v qt_cmd \<Rightarrow> nat option" where
  "qt_writer (CEnq t u) = Some t" | "qt_writer _ = None"

lemma qt_drive_run:
  "qt_drive cs s = Some (es, s') \<Longrightarrow> \<forall>c \<in> set cs. pred_option W (qt_writer c) \<Longrightarrow> qt_run W s0 es0 s \<Longrightarrow> qt_run W s0 (es0 @ es) s'"
proof (induction cs s arbitrary: es es0 rule: qt_drive.induct)
  case (2 t u cs s)
  then obtain es1 where e: "qt_pcs s t = QIdle" "W t" "qt_drive cs (start_enqueue t u s) = Some (es1, s')" "es = QTau # es1"
    by (auto split: if_splits)
  from "2.IH" [OF e(1,3) _ qr_enqueue [OF "2.prems"(3) e(1,2)]] "2.prems"(2) show ?case by (simp add: e(4))
next
  case (3 t cs s)
  then obtain es1 where e: "qt_pcs s t = QIdle" "qt_drive cs (start_dequeue t s) = Some (es1, s')" "es = QStart t # es1"
    by (auto split: if_splits)
  from "3.IH" [OF e(1,2) _ qr_dequeue [OF "3.prems"(3) e(1)]] "3.prems"(2) show ?case by (simp add: e(3))
next
  case (4 t n cs s)
  then obtain es1 s1 es2 where e: "qt_accs t n s = Some (es1, s1)" "qt_drive cs s1 = Some (es2, s')" "es = es1 @ es2" by auto
  from "4.IH" [OF e(1) refl e(2) _ qt_accs_run [OF e(1) "4.prems"(3)]] "4.prems"(2) show ?case by (simp add: e(3))
qed simp

end
