(* ===== verification/QueueInv.thy ===== *)
theory QueueInv
  imports QueueThreads
begin

text \<open>
  The invariant of the queue when one thread enqueues and any number dequeue: the shape of the list,
  what each thread knows of it, and who holds which element. Each access of a thread keeps it.
\<close>

subsection \<open>What is known of the queue\<close>

definition nxt :: "'v lqueue \<Rightarrow> addr \<Rightarrow> addr option" where
  "nxt q a = do { x \<leftarrow> lq_elems q a; qe_next x }"

definition lctr :: "'v lqueue \<Rightarrow> addr \<Rightarrow> u64 option" where
  "lctr q a = map_option qe_ctr (lq_elems q a)"

definition live :: "'v lqueue \<Rightarrow> addr \<Rightarrow> bool" where
  "live q a \<longleftrightarrow> lq_elems q a \<noteq> None"

definition fresh :: "'v lqueue \<Rightarrow> addr \<Rightarrow> bool" where
  "fresh q a \<longleftrightarrow> live q a \<and> nxt q a = None"

definition alive :: "'v lqueue \<Rightarrow> addr option \<Rightarrow> bool" where
  "alive q p \<longleftrightarrow> (\<exists>a. p = Some a \<and> live q a)"

text \<open>A swing of the tail that succeeds goes to the next element.\<close>

definition swing :: "'v lqueue \<Rightarrow> addr option \<Rightarrow> u64 \<Rightarrow> addr option \<Rightarrow> bool" where
  "swing q e ec x \<longleftrightarrow> ec \<le> lq_enqc q \<and> (lq_enq q = e \<and> lq_enqc q = ec \<longrightarrow> nxt q (the e) = x)"

text \<open>What a dequeuer that has read both ends, and the link, may rely on while the head stays.\<close>

definition ends :: "'v lqueue \<Rightarrow> u64 \<Rightarrow> addr option \<Rightarrow> bool" where
  "ends q dc e \<longleftrightarrow> dc \<le> lq_deqc q \<and> (dc = lq_deqc q \<longrightarrow> e \<noteq> lq_deq q \<longrightarrow> lq_enq q \<noteq> lq_deq q)"

definition followed :: "'v lqueue \<Rightarrow> bool \<Rightarrow> addr \<Rightarrow> u64 \<Rightarrow> addr option \<Rightarrow> u64 \<Rightarrow> addr option \<Rightarrow> bool" where
  "followed q sn d dc e ec nx \<longleftrightarrow> live q d \<and> ends q dc e \<and> ec \<le> lq_enqc q
     \<and> (dc = lq_deqc q \<and> lq_deq q = Some d \<longrightarrow> (if nx = None then e = Some d \<and> sn else nxt q d = nx))
     \<and> (nx \<noteq> None \<longrightarrow> alive q nx \<and> (e = Some d \<longrightarrow> swing q e ec nx))"

definition first_of :: "'v lqueue \<Rightarrow> addr \<Rightarrow> u64 \<Rightarrow> addr option \<Rightarrow> bool" where
  "first_of q d dc nx \<longleftrightarrow> alive q nx \<and> dc \<le> lq_deqc q
     \<and> (dc = lq_deqc q \<longrightarrow> lq_deq q = Some d \<and> nxt q d = nx \<and> lq_enq q \<noteq> lq_deq q)"

text \<open>\<open>L\<close> are the elements in the queue, the dummy among them; \<open>sn\<close> whether it was empty since the start.\<close>

fun qknows :: "'v lqueue \<Rightarrow> addr set \<Rightarrow> bool \<Rightarrow> 'v q_pc \<Rightarrow> bool" where
  "qknows q L sn (Enq0 n) \<longleftrightarrow> fresh q n"
| "qknows q L sn (Enq1 n e) \<longleftrightarrow> fresh q n \<and> alive q e"
| "qknows q L sn (Enq2 n e ec) \<longleftrightarrow> fresh q n \<and> alive q e \<and> ec \<le> lq_enqc q"
| "qknows q L sn (Enq3 n e ec nx) \<longleftrightarrow> fresh q n \<and> live q e \<and> ec \<le> lq_enqc q \<and> nxt q e = nx"
| "qknows q L sn (Enq4 n e ec nx nc) \<longleftrightarrow> fresh q n \<and> live q e \<and> ec \<le> lq_enqc q \<and> nxt q e = nx \<and> lctr q e = Some nc"
| "qknows q L sn (Enq5 n e ec nx nc) \<longleftrightarrow> fresh q n \<and> live q e \<and> ec \<le> lq_enqc q \<and> nxt q e = nx \<and> lctr q e = Some nc
     \<and> (ec = lq_enqc q \<longrightarrow> lq_enq q = Some e)"
| "qknows q L sn (EnqLink n e ec nc) \<longleftrightarrow> fresh q n \<and> e \<in> L \<and> ec \<le> lq_enqc q \<and> nxt q e = None \<and> lctr q e = Some nc"
| "qknows q L sn (EnqSwing n e ec x xc) \<longleftrightarrow> fresh q n \<and> xc = ec + 1 \<and> swing q (Some e) ec (Some x)"
| "qknows q L sn (EnqTail n e ec) \<longleftrightarrow> swing q (Some e) ec (Some n)"
| "qknows q L sn EnqDone \<longleftrightarrow> True"
| "qknows q L sn Deq0 \<longleftrightarrow> True"
| "qknows q L sn (Deq1 d) \<longleftrightarrow> alive q d"
| "qknows q L sn (Deq2 d dc) \<longleftrightarrow> alive q d \<and> dc \<le> lq_deqc q"
| "qknows q L sn (Deq3 d dc e) \<longleftrightarrow> alive q d \<and> ends q dc e"
| "qknows q L sn (Deq4 d dc e ec) \<longleftrightarrow> alive q d \<and> ends q dc e \<and> ec \<le> lq_enqc q"
| "qknows q L sn (Deq5 d dc e ec nx) \<longleftrightarrow> followed q sn d dc e ec nx"
| "qknows q L sn (Deq6 d dc e ec nx nc) \<longleftrightarrow> followed q sn d dc e ec nx"
| "qknows q L sn (Deq7 d dc e ec nx nc) \<longleftrightarrow> followed q sn d dc e ec nx \<and> (dc = lq_deqc q \<longrightarrow> lq_deq q = Some d)"
| "qknows q L sn (DeqSwing e ec nx) \<longleftrightarrow> e \<noteq> None \<and> nx \<noteq> None \<and> swing q e ec nx"
| "qknows q L sn (DeqData d dc nx) \<longleftrightarrow> first_of q d dc nx"
| "qknows q L sn (DeqSwap d dc nx u) \<longleftrightarrow> first_of q d dc nx \<and> (dc = lq_deqc q \<longrightarrow> u = q_data q (the nx))"
| "qknows q L sn DeqEmpty \<longleftrightarrow> True"
| "qknows q L sn (DeqDone d u) \<longleftrightarrow> live q d"

fun enqueues :: "'v q_pc \<Rightarrow> bool" where
  "enqueues (Enq0 n) = True" | "enqueues (Enq1 n e) = True" | "enqueues (Enq2 n e ec) = True"
| "enqueues (Enq3 n e ec nx) = True" | "enqueues (Enq4 n e ec nx nc) = True" | "enqueues (Enq5 n e ec nx nc) = True"
| "enqueues (EnqLink n e ec nc) = True" | "enqueues (EnqSwing n e ec x xc) = True" | "enqueues (EnqTail n e ec) = True"
| "enqueues EnqDone = True" | "enqueues _ = False"

text \<open>How the queue may change under a thread.\<close>

definition later :: "'v lqueue \<Rightarrow> 'v lqueue \<Rightarrow> bool" where
  "later q q' \<longleftrightarrow> lq_deqc q \<le> lq_deqc q' \<and> lq_enqc q \<le> lq_enqc q'
     \<and> (lq_deqc q' = lq_deqc q \<longrightarrow> lq_deq q' = lq_deq q \<and> (lq_enq q \<noteq> lq_deq q \<longrightarrow> lq_enq q' \<noteq> lq_deq q'))
     \<and> (lq_enqc q' = lq_enqc q \<longrightarrow> lq_enq q' = lq_enq q)
     \<and> (\<forall>a. live q a \<longrightarrow> live q' a)
     \<and> (\<forall>a b. lq_deq q = Some a \<or> lq_enq q = Some a \<longrightarrow> nxt q a = Some b \<longrightarrow> nxt q' a = Some b)
     \<and> (\<forall>a b. lq_deq q = Some a \<longrightarrow> nxt q a = Some b \<longrightarrow> q_data q' b = q_data q b)"

lemma later_alive: "later q q' \<Longrightarrow> alive q p \<Longrightarrow> alive q' p"
  by (auto simp: later_def alive_def)

lemma later_swing:
  assumes "later q q'" "swing q e ec (Some b)" "e \<noteq> None"
  shows "swing q' e ec (Some b)"
proof -
  have ec: "ec \<le> lq_enqc q" "lq_enqc q \<le> lq_enqc q'" using assms(1,2) by (auto simp: later_def swing_def)
  show ?thesis unfolding swing_def
  proof (intro conjI impI)
    show "ec \<le> lq_enqc q'" using ec by (rule order_trans)
    assume a: "lq_enq q' = e \<and> lq_enqc q' = ec"
    with ec have "lq_enqc q = ec" by simp
    with a assms(1) have "lq_enq q = e" by (simp add: later_def)
    with \<open>lq_enqc q = ec\<close> assms(2) have "nxt q (the e) = Some b" by (simp add: swing_def)
    with \<open>lq_enq q = e\<close> assms(1,3) show "nxt q' (the e) = Some b" by (auto simp: later_def)
  qed
qed

lemma later_ends:
  assumes "later q q'" "ends q dc e"
  shows "ends q' dc e"
proof -
  have dc: "dc \<le> lq_deqc q" "lq_deqc q \<le> lq_deqc q'" using assms by (auto simp: later_def ends_def)
  show ?thesis unfolding ends_def
  proof (intro conjI impI)
    show "dc \<le> lq_deqc q'" using dc by (rule order_trans)
    assume a: "dc = lq_deqc q'" "e \<noteq> lq_deq q'"
    with dc have "lq_deqc q = dc" by simp
    with a assms show "lq_enq q' \<noteq> lq_deq q'" by (auto simp: later_def ends_def)
  qed
qed

lemma later_followed:
  assumes "later q q'" "followed q sn d dc e ec nx" "sn \<longrightarrow> sn'"
  shows "followed q' sn' d dc e ec nx"
proof -
  note f = assms(2) [unfolded followed_def]
  have dc: "dc \<le> lq_deqc q" "lq_deqc q \<le> lq_deqc q'" "ec \<le> lq_enqc q" "lq_enqc q \<le> lq_enqc q'"
    using assms(1) f by (auto simp: later_def ends_def)
  show ?thesis unfolding followed_def
  proof (intro conjI impI)
    show "live q' d" using assms(1) f by (simp add: later_def)
    show "ends q' dc e" using later_ends assms(1) f by blast
    show "ec \<le> lq_enqc q'" using dc(3,4) by (rule order_trans)
  next
    assume a: "dc = lq_deqc q' \<and> lq_deq q' = Some d"
    with dc(1,2) have c: "lq_deqc q = dc" by simp
    with a assms(1) have "lq_deq q = Some d" by (simp add: later_def)
    with c f assms(1,3) show "if nx = None then e = Some d \<and> sn' else nxt q' d = nx"
      by (auto simp: later_def split: if_splits)
  next
    assume "nx \<noteq> None"
    with f later_alive [OF assms(1)] show "alive q' nx" by blast
  next
    assume "nx \<noteq> None" "e = Some d"
    with f later_swing [OF assms(1)] show "swing q' e ec nx" by auto
  qed
qed

lemma later_first_of:
  assumes "later q q'" "first_of q d dc nx"
  shows "first_of q' d dc nx"
    and "dc = lq_deqc q' \<Longrightarrow> dc = lq_deqc q \<and> q_data q' (the nx) = q_data q (the nx)"
proof -
  note f = assms(2) [unfolded first_of_def]
  obtain b where b: "nx = Some b" using f by (auto simp: alive_def)
  have dc: "dc \<le> lq_deqc q" "lq_deqc q \<le> lq_deqc q'" using assms(1) f by (auto simp: later_def)
  have c: "dc = lq_deqc q' \<Longrightarrow> lq_deqc q = dc" using dc by simp
  show "first_of q' d dc nx" unfolding first_of_def
  proof (intro conjI impI)
    show "alive q' nx" using f later_alive [OF assms(1)] by blast
    show "dc \<le> lq_deqc q'" using dc by (rule order_trans)
    assume a: "dc = lq_deqc q'"
    note s = c [OF a]
    show "lq_deq q' = Some d" "nxt q' d = nx" "lq_enq q' \<noteq> lq_deq q'"
      using a s f assms(1) b by (auto simp: later_def)
  qed
  show "dc = lq_deqc q \<and> q_data q' (the nx) = q_data q (the nx)" if "dc = lq_deqc q'"
    using c [OF that] f assms(1) b by (auto simp: later_def)
qed

lemma later_dequeuer:
  assumes "later q q'" "qknows q L sn pc" "\<not> enqueues pc" "sn \<longrightarrow> sn'"
  shows "qknows q' L' sn' pc"
proof (cases pc)
  case (DeqSwap d dc nx u)
  with assms(2) have "first_of q d dc nx" "dc = lq_deqc q \<longrightarrow> u = q_data q (the nx)" by simp_all
  with later_first_of(1) [OF assms(1) this(1)] later_first_of(2) [OF assms(1) this(1)] DeqSwap
  show ?thesis by auto
next
  case (Deq7 d dc e ec nx nc)
  with assms(2) have f: "followed q sn d dc e ec nx" "dc = lq_deqc q \<longrightarrow> lq_deq q = Some d" by simp_all
  have "dc \<le> lq_deqc q" using f(1) by (simp add: followed_def ends_def)
  with f(2) assms(1) have "dc = lq_deqc q' \<longrightarrow> lq_deq q' = Some d" by (auto simp: later_def)
  with later_followed [OF assms(1) f(1) assms(4)] Deq7 show ?thesis by simp
next
  case (DeqSwing e ec nx)
  with assms later_swing [OF assms(1)] show ?thesis by auto
next
  case (DeqDone d u)
  with assms show ?thesis by (simp add: later_def)
next
  case (Deq2 d dc)
  with assms later_alive [OF assms(1)] show ?thesis by (auto simp: later_def)
next
  case (Deq4 d dc e ec)
  with assms later_alive [OF assms(1)] later_ends [OF assms(1)] show ?thesis by (auto simp: later_def)
qed (use assms later_alive [OF assms(1)] later_ends [OF assms(1)] later_followed [OF assms(1)]
     later_first_of(1) [OF assms(1)] in simp_all)

lemma later_enqueuer:
  assumes "later q q'" "qknows q L sn pc" "enqueues pc" "lq_elems q' = lq_elems q"
    and "\<And>a. a \<in> L \<Longrightarrow> nxt q a = None \<Longrightarrow> a \<in> L'"
  shows "qknows q' L' sn' pc"
proof -
  have same: "nxt q' = nxt q" "lctr q' = lctr q" "live q' = live q" "fresh q' = fresh q" "alive q' = alive q"
    using assms(4) by (auto simp: nxt_def lctr_def live_def fresh_def alive_def fun_eq_iff)
  have ec: "ec \<le> lq_enqc q \<Longrightarrow> ec \<le> lq_enqc q'" for ec using assms(1) by (auto simp: later_def)
  show ?thesis
  proof (cases pc)
    case (Enq5 n e ec nx nc)
    have "ec = lq_enqc q' \<longrightarrow> lq_enq q' = Some e" if "ec \<le> lq_enqc q" "ec = lq_enqc q \<longrightarrow> lq_enq q = Some e"
      using that assms(1) by (auto simp: later_def)
    with Enq5 assms(2) same ec show ?thesis by auto
  next
    case (EnqSwing n e ec x xc)
    with assms(2) same later_swing [OF assms(1), of "Some e" ec x] show ?thesis by auto
  next
    case (EnqTail n e ec)
    with assms(2) same later_swing [OF assms(1), of "Some e" ec n] show ?thesis by auto
  qed (use assms(2,3,5) same ec in auto)
qed

subsection \<open>The invariant\<close>

definition queue_shape :: "'v lqueue \<Rightarrow> addr \<Rightarrow> addr list \<Rightarrow> bool" where
  "queue_shape q d as \<longleftrightarrow> lq_deq q = Some d \<and> q_chain (lq_elems q) d as \<and> distinct (d # as)
     \<and> (\<exists>e \<in> set (d # as). lq_enq q = Some e) \<and> (\<forall>a b. nxt q a = Some b \<longrightarrow> live q b)"

text \<open>The element, and the free list's element it belongs to, that are in the hands of a thread.\<close>

fun op_node :: "'v q_pc \<Rightarrow> addr option" where
  "op_node (Enq0 n) = Some n" | "op_node (Enq1 n e) = Some n" | "op_node (Enq2 n e ec) = Some n"
| "op_node (Enq3 n e ec nx) = Some n" | "op_node (Enq4 n e ec nx nc) = Some n" | "op_node (Enq5 n e ec nx nc) = Some n"
| "op_node (EnqLink n e ec nc) = Some n" | "op_node (EnqSwing n e ec x xc) = Some n" | "op_node (DeqDone d u) = Some d"
| "op_node _ = None"

fun qnode :: "'v qt_pc \<Rightarrow> addr option" where
  "qnode (QInit1 n fe u) = Some n" | "qnode (QInit2 n fe u) = Some n" | "qnode (QInit3 n fe u) = Some n"
| "qnode (QInit4 n fe u c) = Some n" | "qnode (QInit5 n fe u) = Some n" | "qnode (QInit6 n fe u) = Some n"
| "qnode (QOp pc) = op_node pc" | "qnode _ = None"

fun qowns :: "'v lqueue \<Rightarrow> 'v qt_pc \<Rightarrow> addr option" where
  "qowns q (QInit0 fe u) = Some fe" | "qowns q (QInit1 n fe u) = Some fe" | "qowns q (QInit2 n fe u) = Some fe"
| "qowns q (QInit3 n fe u) = Some fe" | "qowns q (QInit4 n fe u c) = Some fe" | "qowns q (QInit5 n fe u) = Some fe"
| "qowns q (QInit6 n fe u) = Some (q_fe q n)" | "qowns q (QOp pc) = map_option (q_fe q) (op_node pc)"
| "qowns q _ = None"

definition paired :: "'v lqueue \<Rightarrow> bool" where
  "paired q \<longleftrightarrow> (\<forall>a b n. fl_data (lq_fs q) a = Some n \<longrightarrow> fl_data (lq_fs q) b = Some n \<longrightarrow> a = b)
     \<and> (\<forall>a n. fl_data (lq_fs q) a = Some n \<longrightarrow> live q n)
     \<and> (\<forall>a. fl_elems (lq_fs q) a \<noteq> None \<longrightarrow> fl_data (lq_fs q) a \<noteq> None)"

definition owned :: "'v lqueue \<Rightarrow> (nat \<Rightarrow> 'v qt_pc) \<Rightarrow> addr set \<Rightarrow> addr set \<Rightarrow> bool" where
  "owned q P H L \<longleftrightarrow> (\<forall>n \<in> L. q_fe q n \<in> H \<and> fl_data (lq_fs q) (q_fe q n) = Some n)
     \<and> (\<forall>t fe. qowns q (P t) = Some fe \<longrightarrow> fe \<in> H \<and> fe \<notin> q_fe q ` L)
     \<and> (\<forall>t n. qnode (P t) = Some n \<longrightarrow> (\<exists>fe. qowns q (P t) = Some fe \<and> fl_data (lq_fs q) fe = Some n))
     \<and> (\<forall>t u fe. qowns q (P t) = Some fe \<longrightarrow> qowns q (P u) = Some fe \<longrightarrow> t = u)"

fun tknows :: "'v lqueue \<Rightarrow> addr set \<Rightarrow> bool \<Rightarrow> 'v qt_pc \<Rightarrow> bool" where
  "tknows q L sn (QInit3 n fe u) = fresh q n" | "tknows q L sn (QInit4 n fe u c) = fresh q n"
| "tknows q L sn (QInit5 n fe u) = fresh q n" | "tknows q L sn (QInit6 n fe u) = fresh q n"
| "tknows q L sn (QOp pc) = qknows q L sn pc" | "tknows q L sn _ = True"

fun enq_thread :: "'v qt_pc \<Rightarrow> bool" where
  "enq_thread QIdle = False" | "enq_thread QPush = False" | "enq_thread (QOp pc) = enqueues pc" | "enq_thread _ = True"

fun pop_pc :: "fl_pc \<Rightarrow> bool" where
  "pop_pc PopC = True" | "pop_pc (PopP c) = True" | "pop_pc (PopT p c) = True" | "pop_pc (PopN p c n) = True"
| "pop_pc (PopX p c n k) = True" | "pop_pc (PopDone r) = True" | "pop_pc _ = False"

fun fl_pc_ok :: "'v qt_pc \<Rightarrow> fl_pc \<Rightarrow> bool" where
  "fl_pc_ok (QPop u) f \<longleftrightarrow> pop_pc f"
| "fl_pc_ok QPush f \<longleftrightarrow> \<not> pop_pc f \<and> f \<noteq> Idle"
| "fl_pc_ok _ f \<longleftrightarrow> f = Idle"

definition qt_inv :: "nat \<Rightarrow> 'v lqueue \<Rightarrow> (nat \<Rightarrow> 'v qt_pc) \<Rightarrow> (nat \<Rightarrow> fl_pc) \<Rightarrow> addr set \<Rightarrow> addr \<Rightarrow> addr list
    \<Rightarrow> (nat \<Rightarrow> bool) \<Rightarrow> bool" where
  "qt_inv wr q P F H d as sn \<longleftrightarrow>
     (\<exists>ys. fl_inv \<lparr>lst = lq_fs q, pcs = F, held = H\<rparr> ys) \<and> queue_shape q d as \<and> paired q
     \<and> owned q P H (set (d # as)) \<and> (\<forall>t. fl_pc_ok (P t) (F t)) \<and> (\<forall>t. enq_thread (P t) \<longrightarrow> t = wr)
     \<and> (\<forall>t. tknows q (set (d # as)) (sn t) (P t)) \<and> (as = [] \<longrightarrow> (\<forall>t. sn t))"

lemma qt_invD:
  assumes "qt_inv wr q P F H d as sn"
  shows "\<exists>ys. fl_inv \<lparr>lst = lq_fs q, pcs = F, held = H\<rparr> ys" "queue_shape q d as" "paired q"
    "owned q P H (set (d # as))" "fl_pc_ok (P t) (F t)" "enq_thread (P t) \<Longrightarrow> t = wr"
    "tknows q (set (d # as)) (sn t) (P t)" "as = [] \<Longrightarrow> sn t"
  using assms unfolding qt_inv_def by blast+

lemma ownedD:
  assumes "owned q P H L"
  shows "\<And>n. n \<in> L \<Longrightarrow> q_fe q n \<in> H \<and> fl_data (lq_fs q) (q_fe q n) = Some n"
    "\<And>t fe. qowns q (P t) = Some fe \<Longrightarrow> fe \<in> H \<and> fe \<notin> q_fe q ` L"
    "\<And>t n. qnode (P t) = Some n \<Longrightarrow> \<exists>fe. qowns q (P t) = Some fe \<and> fl_data (lq_fs q) fe = Some n"
    "\<And>t u fe. qowns q (P t) = Some fe \<Longrightarrow> qowns q (P u) = Some fe \<Longrightarrow> t = u"
  using assms unfolding owned_def by blast+

lemma ownedI:
  assumes "\<And>n. n \<in> L \<Longrightarrow> q_fe q n \<in> H \<and> fl_data (lq_fs q) (q_fe q n) = Some n"
    "\<And>t fe. qowns q (P t) = Some fe \<Longrightarrow> fe \<in> H \<and> fe \<notin> q_fe q ` L"
    "\<And>t n. qnode (P t) = Some n \<Longrightarrow> \<exists>fe. qowns q (P t) = Some fe \<and> fl_data (lq_fs q) fe = Some n"
    "\<And>t u fe. qowns q (P t) = Some fe \<Longrightarrow> qowns q (P u) = Some fe \<Longrightarrow> t = u"
  shows "owned q P H L"
  using assms unfolding owned_def by blast

lemma qowns_cong: "(\<And>n. qnode pc = Some n \<Longrightarrow> q_fe q' n = q_fe q n) \<Longrightarrow> qowns q' pc = qowns q pc"
  by (cases pc) (auto simp: map_option_case split: option.splits)

lemma node_not_queued:
  assumes "owned q P H L" "paired q" "qnode (P t) = Some n"
  shows "n \<notin> L"
proof
  assume "n \<in> L"
  with ownedD(1) [OF assms(1)] have "fl_data (lq_fs q) (q_fe q n) = Some n" by blast
  moreover obtain fe where "qowns q (P t) = Some fe" "fl_data (lq_fs q) fe = Some n" using ownedD(3) [OF assms(1,3)] by blast
  ultimately have "qowns q (P t) = Some (q_fe q n)" using assms(2) by (auto simp: paired_def)
  with ownedD(2) [OF assms(1)] \<open>n \<in> L\<close> show False by blast
qed

lemma node_other:
  assumes "owned q P H L" "qnode (P t) = Some n" "qnode (P u) = Some n" "paired q"
  shows "t = u"
proof -
  obtain fe fe' where "qowns q (P t) = Some fe" "fl_data (lq_fs q) fe = Some n"
      "qowns q (P u) = Some fe'" "fl_data (lq_fs q) fe' = Some n"
    using ownedD(3) [OF assms(1)] assms(2,3) by blast
  moreover from this assms(4) have "fe = fe'" by (auto simp: paired_def)
  ultimately show ?thesis using ownedD(4) [OF assms(1)] by blast
qed

text \<open>A thread that enqueues is not disturbed by one that does not, and no other one does.\<close>

lemma tknows_later:
  assumes "later q q'" "tknows q L sn pc" "sn \<longrightarrow> sn'"
    and "enq_thread pc \<Longrightarrow> lq_elems q' = lq_elems q \<and> (\<forall>a \<in> L. nxt q a = None \<longrightarrow> a \<in> L')"
  shows "tknows q' L' sn' pc"
proof (cases pc)
  case (QOp op)
  show ?thesis
  proof (cases "enqueues op")
    case True
    with assms(4) QOp have "lq_elems q' = lq_elems q" "\<forall>a \<in> L. nxt q a = None \<longrightarrow> a \<in> L'" by simp_all
    with later_enqueuer [OF assms(1) _ True] assms(2) QOp show ?thesis by auto
  next
    case False
    with later_dequeuer [OF assms(1) _ False assms(3)] assms(2) QOp show ?thesis by auto
  qed
qed (use assms(2,4) in \<open>auto simp: fresh_def live_def nxt_def\<close>)

text \<open>What a step of one thread on the queue must do to keep the invariant.\<close>

lemma qt_update:
  assumes inv: "qt_inv wr q P F H d as sn"
    and fs: "lq_fs q' = lq_fs q" and fe: "\<And>n. q_fe q' n = q_fe q n \<or> qnode (P t) = Some n"
    and shape: "queue_shape q' d' as'" and later: "later q q'"
    and elems: "lq_elems q' = lq_elems q \<or> t = wr"
    and kept: "\<And>a. t \<noteq> wr \<Longrightarrow> a \<in> set (d # as) \<Longrightarrow> nxt q a = None \<Longrightarrow> a \<in> set (d' # as')"
    and sn: "\<And>u. u \<noteq> t \<Longrightarrow> sn u \<Longrightarrow> sn' u" "\<And>u. as' = [] \<Longrightarrow> sn' u"
    and pc: "tknows q' (set (d' # as')) (sn' t) pc" "fl_pc_ok pc (F t)" "enq_thread pc \<Longrightarrow> t = wr"
    and L: "\<And>n. n \<in> set (d' # as') \<Longrightarrow> n \<in> set (d # as) \<or> qnode (P t) = Some n \<and> qowns q' (P t) = Some (q_fe q' n)"
    and own: "\<And>a. qowns q' pc = Some a \<Longrightarrow>
        (\<exists>n. a = q_fe q n \<and> n \<in> set (d # as) - set (d' # as'))
        \<or> qowns q (P t) = Some a \<and> a \<notin> q_fe q' ` set (d' # as')"
    and node: "\<And>n. qnode pc = Some n \<Longrightarrow> \<exists>a. qowns q' pc = Some a \<and> fl_data (lq_fs q) a = Some n"
    and qo: "qowns q' (P t) = qowns q (P t)"
  shows "qt_inv wr q' (P(t := pc)) F H d' as' sn'"
proof -
  note I = qt_invD [OF inv]
  note O = ownedD [OF I(4)]
  let ?L = "set (d # as)" and ?L' = "set (d' # as')"
  have feL: "q_fe q' n = q_fe q n" if "n \<in> ?L" for n
    using fe [of n] node_not_queued [OF I(4,3)] that by blast
  have fe': "fl_data (lq_fs q) (q_fe q' n) = Some n \<and> q_fe q' n \<in> H" if "n \<in> ?L'" for n
  proof (cases "n \<in> ?L")
    case True with O(1) [OF True] feL [OF True] show ?thesis by simp
  next
    case False
    with L [OF that] have n: "qnode (P t) = Some n" "qowns q (P t) = Some (q_fe q' n)" using qo by auto
    from O(3) [OF n(1)] O(2) [OF n(2)] n(2) show ?thesis by auto
  qed
  have other: "qowns q' (P u) = qowns q (P u)" if "u \<noteq> t" for u
    using fe node_other [OF I(4) _ _ I(3)] that by (intro qowns_cong) blast
  have free: "a \<notin> q_fe q' ` ?L'" if "u \<noteq> t" "qowns q (P u) = Some a" for u a
  proof
    assume "a \<in> q_fe q' ` ?L'"
    then obtain n where n: "n \<in> ?L'" "a = q_fe q' n" by blast
    show False
    proof (cases "n \<in> ?L")
      case True with feL O(2) [OF that(2)] n show False by auto
    next
      case False
      with L [OF n(1)] have "qowns q (P t) = Some a" using n(2) qo by auto
      with O(4) that show False by blast
    qed
  qed
  have mine: "a \<in> H \<and> a \<notin> q_fe q' ` ?L' \<and> (\<forall>u. u \<noteq> t \<longrightarrow> qowns q (P u) \<noteq> Some a)" if "qowns q' pc = Some a" for a
    using own [OF that]
  proof
    assume "\<exists>n. a = q_fe q n \<and> n \<in> ?L - ?L'"
    then obtain n where n: "a = q_fe q n" "n \<in> ?L" "n \<notin> ?L'" by blast
    then have "a \<in> H" "fl_data (lq_fs q) a = Some n" using O(1) by blast+
    moreover have "a \<notin> q_fe q' ` ?L'" using fe' calculation(2) n(3) by force
    moreover have "\<forall>u. qowns q (P u) \<noteq> Some a" using O(2) n by blast
    ultimately show ?thesis by blast
  next
    assume "qowns q (P t) = Some a \<and> a \<notin> q_fe q' ` ?L'"
    then show ?thesis using O(2,4) by blast
  qed
  have ow: "owned q' (P(t := pc)) H ?L'"
  proof (rule ownedI)
    fix n assume "n \<in> ?L'" then show "q_fe q' n \<in> H \<and> fl_data (lq_fs q') (q_fe q' n) = Some n" using fe' fs by simp
  next
    fix u a assume "qowns q' ((P(t := pc)) u) = Some a"
    then show "a \<in> H \<and> a \<notin> q_fe q' ` ?L'" using mine free other O(2) by (cases "u = t") auto
  next
    fix u n assume "qnode ((P(t := pc)) u) = Some n"
    then show "\<exists>a. qowns q' ((P(t := pc)) u) = Some a \<and> fl_data (lq_fs q') a = Some n"
      using node O(3) other fs by (cases "u = t") auto
  next
    fix u v a assume a: "qowns q' ((P(t := pc)) u) = Some a" "qowns q' ((P(t := pc)) v) = Some a"
    have m: False if "qowns q' pc = Some a" "x \<noteq> t" "qowns q' (P x) = Some a" for x
    proof -
      from mine [OF that(1)] that(2) have "qowns q (P x) \<noteq> Some a" by blast
      with other [OF that(2)] that(3) show False by simp
    qed
    show "u = v"
    proof (cases "u = t")
      case True then show ?thesis using a m [of v] by (cases "v = t") simp_all
    next
      case False
      then show ?thesis using a m [of u] other [OF False] other [of v] O(4) [of u a v] by (cases "v = t") simp_all
    qed
  qed
  have kn: "tknows q' ?L' (sn' u) ((P(t := pc)) u)" for u
  proof (cases "u = t")
    case False
    have "tknows q' ?L' (sn' u) (P u)"
    proof (rule tknows_later [OF later I(7)])
      show "sn u \<longrightarrow> sn' u" using sn(1) False by blast
      assume "enq_thread (P u)"
      then have "t \<noteq> wr" using I(6) False by blast
      with elems kept show "lq_elems q' = lq_elems q \<and> (\<forall>a \<in> ?L. nxt q a = None \<longrightarrow> a \<in> ?L')" by blast
    qed
    with False show ?thesis by simp
  qed (use pc(1) in simp)
  show ?thesis unfolding qt_inv_def
  proof (intro conjI allI impI)
    show "\<exists>ys. fl_inv \<lparr>lst = lq_fs q', pcs = F, held = H\<rparr> ys" using I(1) unfolding fs .
    show "paired q'" using I(3) later fs by (auto simp: paired_def later_def)
    show "fl_pc_ok ((P(t := pc)) u) (F u)" for u using I(5) pc(2) by simp
    show "u = wr" if "enq_thread ((P(t := pc)) u)" for u using I(6) pc(3) that by (cases "u = t") simp_all
  qed (rule shape ow kn sn(2), assumption?)+
qed

subsection \<open>Accesses to the queue\<close>

lemma q_chain_nxt:
  "q_chain (lq_elems q) d as \<Longrightarrow> a \<in> set (d # as) \<Longrightarrow>
   live q a \<and> (nxt q a = None \<longrightarrow> a = last (d # as)) \<and> (\<forall>b. nxt q a = Some b \<longrightarrow> b \<in> set as)"
proof (induction as arbitrary: d)
  case Nil then show ?case by (auto simp: nxt_def live_def)
next
  case (Cons c as)
  show ?case
  proof (cases "a = d")
    case True with Cons.prems show ?thesis by (auto simp: nxt_def live_def)
  next
    case False
    with Cons.prems have "q_chain (lq_elems q) c as" "a \<in> set (c # as)" by auto
    from Cons.IH [OF this] show ?thesis by auto
  qed
qed

lemma shapeD:
  assumes "queue_shape q d as"
  shows "lq_deq q = Some d" "q_chain (lq_elems q) d as" "distinct (d # as)"
    "a \<in> set (d # as) \<Longrightarrow> live q a" "a \<in> set (d # as) \<Longrightarrow> nxt q a = None \<Longrightarrow> a = last (d # as)"
    "a \<in> set (d # as) \<Longrightarrow> nxt q a = Some b \<Longrightarrow> b \<in> set as"
    "nxt q d = (case as of [] \<Rightarrow> None | c # _ \<Rightarrow> Some c)"
    "\<exists>e \<in> set (d # as). lq_enq q = Some e" "nxt q a = Some b \<Longrightarrow> live q b"
proof -
  show c: "q_chain (lq_elems q) d as" and "lq_deq q = Some d" "distinct (d # as)" "\<exists>e \<in> set (d # as). lq_enq q = Some e"
    "nxt q a = Some b \<Longrightarrow> live q b"
    using assms unfolding queue_shape_def by blast+
  show "a \<in> set (d # as) \<Longrightarrow> live q a" "a \<in> set (d # as) \<Longrightarrow> nxt q a = None \<Longrightarrow> a = last (d # as)"
    "a \<in> set (d # as) \<Longrightarrow> nxt q a = Some b \<Longrightarrow> b \<in> set as"
    using q_chain_nxt [OF c] by blast+
  show "nxt q d = (case as of [] \<Rightarrow> None | c # _ \<Rightarrow> Some c)" using c by (cases as) (auto simp: nxt_def)
qed

lemma shape_enq_alive: "queue_shape q d as \<Longrightarrow> alive q (lq_enq q)"
  using shapeD(4,8) unfolding alive_def by blast

lemma shape_deq_alive: "queue_shape q d as \<Longrightarrow> alive q (lq_deq q)"
  using shapeD(1,4) unfolding alive_def by fastforce

lemma later_refl: "later q q"
  by (simp add: later_def)

text \<open>A thread that goes on with what it has in its hands, or without anything.\<close>

definition goes_on :: "nat \<Rightarrow> 'v lqueue \<Rightarrow> 'v qt_pc \<Rightarrow> 'v qt_pc \<Rightarrow> bool" where
  "goes_on wr q pc pc' \<longleftrightarrow> (enq_thread pc' \<longrightarrow> enq_thread pc)
     \<and> (qnode pc' = None \<and> qowns q pc' = None \<or> qnode pc' = qnode pc \<and> qowns q pc' = qowns q pc)"

lemma qt_go_on:
  assumes inv: "qt_inv wr q P F H d as sn" and q': "lq_fs q' = lq_fs q" "lq_elems q' = lq_elems q"
    and shape: "queue_shape q' d as" and later: "later q q'"
    and pc: "tknows q' (set (d # as)) (sn t) pc" "fl_pc_ok pc (F t)" "goes_on wr q (P t) pc"
  shows "qt_inv wr q' (P(t := pc)) F H d as sn"
proof -
  have fe: "q_fe q' = q_fe q" using q'(2) by (simp add: q_fe_def fun_eq_iff)
  then have qo: "qowns q' x = qowns q x" for x by (intro qowns_cong) simp
  note I = qt_invD [OF inv]
  note O = ownedD [OF I(4)]
  show ?thesis
  proof (rule qt_update [OF inv q'(1) _ shape later])
    show "qowns q' pc = Some a \<Longrightarrow> (\<exists>n. a = q_fe q n \<and> n \<in> set (d # as) - set (d # as))
        \<or> qowns q (P t) = Some a \<and> a \<notin> q_fe q' ` set (d # as)" for a
      using pc(3) O(2) [of t a] by (auto simp: goes_on_def qo fe)
    show "qnode pc = Some n \<Longrightarrow> \<exists>a. qowns q' pc = Some a \<and> fl_data (lq_fs q) a = Some n" for n
      using pc(3) O(3) [of t n] by (auto simp: goes_on_def qo)
    show "enq_thread pc \<Longrightarrow> t = wr" using pc(3) I(6) by (auto simp: goes_on_def)
  qed (use q' pc I(8) fe qo in simp_all)
qed

lemma qt_stay:
  assumes inv: "qt_inv wr q P F H d as sn"
    and pc: "tknows q (set (d # as)) (sn t) pc" "fl_pc_ok pc (F t)" "goes_on wr q (P t) pc"
  shows "qt_inv wr q (P(t := pc)) F H d as sn"
  by (rule qt_go_on [OF inv refl refl qt_invD(2) [OF inv] later_refl pc])

lemma swing_later:
  assumes shape: "queue_shape q d as" and e: "lq_enq q = Some e" "nxt q e = Some x" and room: "lq_enqc q < lq_enqc q + 1"
    and q': "q' = q\<lparr>lq_enq := Some x, lq_enqc := lq_enqc q + 1\<rparr>"
  shows "queue_shape q' d as" "later q q'"
proof -
  have same: "nxt q' = nxt q" "live q' = live q" "q_data q' = q_data q" "lq_elems q' = lq_elems q"
    by (simp_all add: q' nxt_def live_def q_data_def fun_eq_iff)
  note S = shapeD [OF shape]
  from S(8) e(1) have "e \<in> set (d # as)" by simp
  from S(6) [OF this e(2)] have x: "x \<in> set as" .
  with S(3) have "x \<noteq> d" by auto
  show "queue_shape q' d as" using shape x unfolding queue_shape_def same by (simp add: q')
  show "later q q'" using room S(1) \<open>x \<noteq> d\<close> unfolding later_def same by (simp add: q' less_imp_le) 
qed

lemma inv_swing:
  assumes inv: "qt_inv wr q P F H d as sn" and e: "lq_enq q = Some e" "nxt q e = Some x" and room: "lq_enqc q < lq_enqc q + 1"
    and pc: "\<And>q'. lq_elems q' = lq_elems q \<Longrightarrow> tknows q' (set (d # as)) (sn t) pc" "fl_pc_ok pc (F t)" "goes_on wr q (P t) pc"
  shows "qt_inv wr (q\<lparr>lq_enq := Some x, lq_enqc := lq_enqc q + 1\<rparr>) (P(t := pc)) F H d as sn"
  by (rule qt_go_on [OF inv _ _ swing_later [OF qt_invD(2) [OF inv] e room refl] pc]) simp_all

lemma inv_swap:
  assumes inv: "qt_inv wr q P F H d as sn" and a: "nxt q d = Some a" "lq_enq q \<noteq> lq_deq q"
    and room: "lq_deqc q < lq_deqc q + 1" and t: "\<not> enq_thread (P t)" "F t = Idle" "qnode (P t) = None"
  shows "\<exists>as'. as = a # as' \<and> qt_inv wr (q\<lparr>lq_deq := Some a, lq_deqc := lq_deqc q + 1\<rparr>) (P(t := QOp (DeqDone d u))) F H a as'
    (\<lambda>t. sn t \<or> as' = [])"
proof -
  note I = qt_invD [OF inv]
  note S = shapeD [OF I(2)]
  note O = ownedD [OF I(4)]
  from a(1) S(7) obtain as' where as: "as = a # as'" by (cases as) auto
  let ?q = "q\<lparr>lq_deq := Some a, lq_deqc := lq_deqc q + 1\<rparr>"
  have same: "nxt ?q = nxt q" "live ?q = live q" "q_data ?q = q_data q" "lq_elems ?q = lq_elems q" "q_fe ?q = q_fe q"
    by (simp_all add: nxt_def live_def q_data_def q_fe_def fun_eq_iff)
  then have qo: "qowns ?q x = qowns q x" for x by (intro qowns_cong) simp
  obtain e where e: "e \<in> set (d # as)" "lq_enq q = Some e" using S(8) by blast
  have "e \<noteq> d" using a(2) e(2) S(1) by auto
  then have shape: "queue_shape ?q a as'"
    using I(2) e unfolding queue_shape_def same as by auto
  have later: "later q ?q" unfolding later_def same using room by (simp add: less_imp_le)
  have d: "d \<notin> set (a # as')" using S(3) as by simp
  have "qt_inv wr ?q (P(t := QOp (DeqDone d u))) F H a as' (\<lambda>t. sn t \<or> as' = [])"
  proof (rule qt_update [OF inv _ _ shape later])
    show "b \<in> set (a # as')" if "b \<in> set (d # as)" "nxt q b = None" for b using that a(1) as by auto
    show "n \<in> set (d # as) \<or> qnode (P t) = Some n \<and> qowns ?q (P t) = Some (q_fe ?q n)" if "n \<in> set (a # as')" for n
      using that as by auto
    show "(\<exists>n. b = q_fe q n \<and> n \<in> set (d # as) - set (a # as')) \<or> qowns q (P t) = Some b \<and> b \<notin> q_fe ?q ` set (a # as')"
      if "qowns ?q (QOp (DeqDone d u)) = Some b" for b
      using that d same by (intro disjI1 exI [of _ d]) auto
    show "\<exists>b. qowns ?q (QOp (DeqDone d u)) = Some b \<and> fl_data (lq_fs q) b = Some n" if "qnode (QOp (DeqDone d u)) = Some n" for n
      using that O(1) [of d] same by auto
  qed (use t qo same S(4) [of d] in simp_all)
  with as show ?thesis by blast
qed

lemma inv_link_new:
  assumes inv: "qt_inv wr q P F H d as sn" and pc: "P t = QOp (EnqLink n e ec nc)" and x: "lq_elems q e = Some x"
    and q': "q' = q\<lparr>lq_elems := (lq_elems q)(e \<mapsto> x\<lparr>qe_next := Some n, qe_ctr := c\<rparr>)\<rparr>"
  shows "qt_inv wr q' (P(t := QOp (EnqTail n e ec))) F H d (as @ [n]) sn \<and> map (q_data q') (as @ [n]) = map (q_data q) as @ [q_data q n]"
proof -
  note I = qt_invD [OF inv]
  note S = shapeD [OF I(2)]
  note O = ownedD [OF I(4)]
  from I(7) [of t] pc have k: "fresh q n" "e \<in> set (d # as)" "ec \<le> lq_enqc q" "nxt q e = None" by simp_all
  from S(5) [OF k(2,4)] have last: "e = last (d # as)" .
  have n: "n \<notin> set (d # as)" using node_not_queued [OF I(4,3), of t n] pc by simp
  have dat: "q_data q' = q_data q" and fe: "q_fe q' = q_fe q" and live: "live q' = live q"
    using x by (auto simp: q' q_data_def q_fe_def live_def fun_eq_iff)
  have nx: "nxt q' a = (if a = e then Some n else nxt q a)" for a using x by (simp add: q' nxt_def)
  have qo: "qowns q' p = qowns q p" for p using fe by (intro qowns_cong) simp
  obtain y where y: "lq_elems q n = Some y" "qe_next y = None" using k(1) by (auto simp: fresh_def live_def nxt_def)
  have shape: "queue_shape q' d (as @ [n])" unfolding queue_shape_def
  proof (intro conjI allI impI)
    show "q_chain (lq_elems q') d (as @ [n])"
      using q_chain_snoc [OF S(2,3) n y, of "x\<lparr>qe_next := Some n, qe_ctr := c\<rparr>"] by (simp add: q' last)
    show "distinct (d # as @ [n])" using S(3) n by auto
    show "\<exists>e \<in> set (d # as @ [n]). lq_enq q' = Some e" using S(8) by (auto simp: q')
    show "live q' b" if "nxt q' a = Some b" for a b
      using that S(9) k(1) unfolding nx live fresh_def by (auto split: if_splits)
  qed (simp add: q' S(1))
  have later: "later q q'" unfolding later_def live dat nx using k(4) by (simp add: q')
  have "t = wr" using I(6) [of t] pc by simp
  have "qt_inv wr q' (P(t := QOp (EnqTail n e ec))) F H d (as @ [n]) sn"
  proof (rule qt_update [OF inv _ _ shape later])
    show "tknows q' (set (d # as @ [n])) (sn t) (QOp (EnqTail n e ec))" using k(3) by (simp add: swing_def nx) (simp add: q')
    show "m \<in> set (d # as) \<or> qnode (P t) = Some m \<and> qowns q' (P t) = Some (q_fe q' m)" if "m \<in> set (d # as @ [n])" for m
      using that pc by auto
    show "fl_pc_ok (QOp (EnqTail n e ec)) (F t)" using I(5) [of t] pc by simp
  qed (use \<open>t = wr\<close> q' fe qo in simp_all)
  with dat show ?thesis by simp
qed

text \<open>Reading the ends and the links, and the two checks.\<close>

lemma read_ends:
  assumes "queue_shape q d as"
  shows "ends q (lq_deqc q) (lq_enq q)"
  by (simp add: ends_def)

lemma read_link:
  assumes shape: "queue_shape q d as" and sn: "as = [] \<Longrightarrow> sn" and x: "lq_elems q h = Some x"
    and ends: "ends q dc e" "ec \<le> lq_enqc q"
  shows "followed q sn h dc e ec (qe_next x)"
proof -
  note S = shapeD [OF shape]
  have nx: "nxt q h = qe_next x" using x by (simp add: nxt_def)
  show ?thesis unfolding followed_def
  proof (intro conjI impI)
    show "live q h" using x by (simp add: live_def)
    show "if qe_next x = None then e = Some h \<and> sn else nxt q h = qe_next x" if a: "dc = lq_deqc q \<and> lq_deq q = Some h"
    proof (cases "qe_next x")
      case None
      with a nx S(1,7) have "as = []" by (cases as) auto
      with S(1,8) have "lq_enq q = lq_deq q" by auto
      with ends a have "e = lq_deq q" by (auto simp: ends_def)
      with a None sn [OF \<open>as = []\<close>] show ?thesis by simp
    qed (use nx in simp)
    show "alive q (qe_next x)" if "qe_next x \<noteq> None" using that S(9) nx by (auto simp: alive_def)
    show "swing q e ec (qe_next x)" if "e = Some h" using that nx ends(2) by (simp add: swing_def)
  qed (rule ends)+
qed

lemma followed_next:
  assumes f: "followed q sn h dc e ec nx" and h: "lq_deq q = Some h" and dc: "dc = lq_deqc q"
  shows "e = Some h \<Longrightarrow> nx = None \<Longrightarrow> sn" "e = Some h \<Longrightarrow> nx \<noteq> None \<Longrightarrow> swing q e ec nx"
    "e \<noteq> Some h \<Longrightarrow> first_of q h dc nx"
proof -
  note F = f [unfolded followed_def ends_def]
  show "e = Some h \<Longrightarrow> nx = None \<Longrightarrow> sn" using F h dc by (auto split: if_splits)
  show "e = Some h \<Longrightarrow> nx \<noteq> None \<Longrightarrow> swing q e ec nx" using F by blast
  assume e: "e \<noteq> Some h"
  with F h dc have "nx \<noteq> None" by (auto split: if_splits)
  with F h dc e show "first_of q h dc nx" by (auto simp: first_of_def split: if_splits)
qed

text \<open>The state after an access, and that its effect is allowed.\<close>

definition qt_done :: "nat \<Rightarrow> nat \<Rightarrow> 'v lqueue \<Rightarrow> (nat \<Rightarrow> 'v qt_pc) \<Rightarrow> (nat \<Rightarrow> fl_pc) \<Rightarrow> addr set \<Rightarrow> addr list \<Rightarrow> (nat \<Rightarrow> bool)
    \<Rightarrow> 'v q_pc \<Rightarrow> 'v q_pc \<Rightarrow> 'v lqueue \<Rightarrow> bool" where
  "qt_done wr t q P F H as sn op op' q' \<longleftrightarrow> (\<exists>d' as' sn'. qt_inv wr q' (P(t := QOp op')) F H d' as' sn'
     \<and> queue_step (q_effect t q op op') (map (q_data q) as, sn) = Some (map (q_data q') as', sn'))"

lemma done_stay:
  assumes inv: "qt_inv wr q P F H d as sn" and P: "P t = QOp op" and eff: "q_effect t q op op' = QTau"
    and pc: "qknows q (set (d # as)) (sn t) op'" "goes_on wr q (QOp op) (QOp op')"
  shows "qt_done wr t q P F H as sn op op' q"
proof -
  have "F t = Idle" using qt_invD(5) [OF inv, of t] P by simp
  with qt_stay [OF inv, of t "QOp op'"] pc P have "qt_inv wr q (P(t := QOp op')) F H d as sn" by simp
  with eff show ?thesis unfolding qt_done_def by (intro exI conjI) simp_all
qed

text \<open>Moving the tail on, whether or not somebody else did.\<close>

lemma done_swing:
  assumes inv: "qt_inv wr q P F H d as sn" and P: "P t = QOp op" and eff: "q_effect t q op op' = QTau"
    and room: "lq_enqc q < lq_enqc q + 1" and sw: "swing q (Some e) ec (Some x)"
    and pc: "\<And>q'. lq_elems q' = lq_elems q \<Longrightarrow> qknows q' (set (d # as)) (sn t) op'" "goes_on wr q (QOp op) (QOp op')"
    and r: "lfds_dcas (lq_enq q, lq_enqc q) (Some x, ec + 1) (Some e, ec) = (ok, (a, c), old)"
  shows "qt_done wr t q P F H as sn op op' (q\<lparr>lq_enq := a, lq_enqc := c\<rparr>)"
proof (cases "lq_enq q = Some e \<and> lq_enqc q = ec")
  case True
  with r have r': "a = Some x" "c = lq_enqc q + 1" by (auto simp: lfds_dcas_def)
  from sw True have "nxt q e = Some x" by (auto simp: swing_def)
  moreover have "F t = Idle" using qt_invD(5) [OF inv, of t] P by simp
  ultimately have "qt_inv wr (q\<lparr>lq_enq := Some x, lq_enqc := lq_enqc q + 1\<rparr>) (P(t := QOp op')) F H d as sn"
    using True P pc by (intro inv_swing [OF inv _ _ room]) simp_all
  moreover have "q_data (q\<lparr>lq_enq := Some x, lq_enqc := lq_enqc q + 1\<rparr>) = q_data q" by (simp add: q_data_def fun_eq_iff)
  ultimately show ?thesis unfolding r' qt_done_def using eff by (intro exI conjI) simp_all
next
  case False
  with r have "a = lq_enq q" "c = lq_enqc q" by (auto simp: lfds_dcas_def split: if_splits)
  then have "q\<lparr>lq_enq := a, lq_enqc := c\<rparr> = q" by simp
  with done_stay [OF inv P eff _ pc(2)] pc(1) [of q] show ?thesis by simp
qed

lemma inv_enqueuer:
  assumes inv: "qt_inv wr q P F H d as sn" and P: "P t = QOp op" and ex: "q_exec op q = Some (op', q')" and enq: "enqueues op"
    and room: "lq_enqc q < lq_enqc q + 1"
  shows "qt_done wr t q P F H as sn op op' q'"
proof -
  note I = qt_invD [OF inv]
  note S = shapeD [OF I(2)]
  have stay: "qt_done wr t q P F H as sn op op' q'" if "q' = q" "q_effect t q op op' = QTau"
      "qknows q (set (d # as)) (sn t) op'" "goes_on wr q (QOp op) (QOp op')"
    using done_stay [OF inv P that(2-4)] that(1) by simp
  note sw = done_swing [OF inv P _ room]
  have k: "qknows q (set (d # as)) (sn t) op" using I(7) [of t] P by simp
  show ?thesis
  proof (cases op)
    case (Enq0 n)
    show ?thesis by (rule stay) (use Enq0 ex k shape_enq_alive [OF I(2)] in \<open>auto simp: q_effect_def goes_on_def\<close>)
  next
    case (Enq1 n e)
    show ?thesis by (rule stay) (use Enq1 ex k in \<open>auto simp: q_effect_def goes_on_def\<close>)
  next
    case (Enq2 n e ec)
    show ?thesis by (rule stay) (use Enq2 ex k in \<open>auto simp: q_effect_def goes_on_def live_def nxt_def\<close>)
  next
    case (Enq3 n e ec nx)
    show ?thesis by (rule stay) (use Enq3 ex k in \<open>auto simp: q_effect_def goes_on_def lctr_def\<close>)
  next
    case (Enq4 n e ec nx nc)
    show ?thesis by (rule stay) (use Enq4 ex k in \<open>auto simp: q_effect_def goes_on_def split: if_splits\<close>)
  next
    case (Enq5 n e ec nx nc)
    show ?thesis
    proof (cases "lq_enqc q = ec")
      case True
      with k Enq5 S(8) have e: "lq_enq q = Some e" "e \<in> set (d # as)" by auto
      show ?thesis by (rule stay) (use True ex k Enq5 e in \<open>auto simp: q_effect_def goes_on_def swing_def split: option.splits\<close>)
    next
      case False show ?thesis by (rule stay) (use False ex k Enq5 in \<open>auto simp: q_effect_def goes_on_def\<close>)
    qed
  next
    case (EnqLink n e ec nc)
    then have e: "nxt q e = None" "lctr q e = Some nc" using k by simp_all
    from k EnqLink S(4) [of e] obtain x where x: "lq_elems q e = Some x" by (auto simp: live_def)
    with e have "(qe_next x, qe_ctr x) = (None, nc)" by (simp add: nxt_def lctr_def)
    with ex EnqLink x have r: "op' = EnqTail n e ec"
        "q' = q\<lparr>lq_elems := (lq_elems q)(e \<mapsto> x\<lparr>qe_next := Some n, qe_ctr := nc + 1\<rparr>)\<rparr>"
      by (auto simp: lfds_dcas_def upd_elem_def)
    from inv_link_new [OF inv P [unfolded EnqLink] x r(2)] show ?thesis
      unfolding qt_done_def EnqLink r(1) by (intro exI [of _ d] exI [of _ "as @ [n]"] exI [of _ sn]) (simp add: q_effect_def)
  next
    case (EnqSwing n e ec x xc)
    obtain ok a c old where r: "lfds_dcas (lq_enq q, lq_enqc q) (Some x, ec + 1) (Some e, ec) = (ok, (a, c), old)"
      by (metis prod.exhaust)
    from k EnqSwing have "fresh q n" "xc = ec + 1" "swing q (Some e) ec (Some x)" by simp_all
    with ex EnqSwing r have "op' = Enq0 n" "q' = q\<lparr>lq_enq := a, lq_enqc := c\<rparr>" by simp_all
    with sw [OF _ \<open>swing q (Some e) ec (Some x)\<close> _ _ r] EnqSwing \<open>fresh q n\<close> show ?thesis
      by (simp add: q_effect_def goes_on_def fresh_def live_def nxt_def)
  next
    case (EnqTail n e ec)
    obtain ok a c old where r: "lfds_dcas (lq_enq q, lq_enqc q) (Some n, ec + 1) (Some e, ec) = (ok, (a, c), old)"
      by (metis prod.exhaust)
    from k EnqTail have w: "swing q (Some e) ec (Some n)" by simp
    from ex EnqTail r have "op' = EnqDone" "q' = q\<lparr>lq_enq := a, lq_enqc := c\<rparr>" by simp_all
    with sw [OF _ w _ _ r] EnqTail show ?thesis by (simp add: q_effect_def goes_on_def)
  qed (use ex enq in simp_all)
qed

lemma inv_dequeuer:
  assumes inv: "qt_inv wr q P F H d as sn" and P: "P t = QOp op" and ex: "q_exec op q = Some (op', q')" and deq: "\<not> enqueues op"
    and room: "lq_enqc q < lq_enqc q + 1" "lq_deqc q < lq_deqc q + 1"
  shows "qt_done wr t q P F H as sn op op' q'"
proof -
  note I = qt_invD [OF inv]
  note S = shapeD [OF I(2)]
  have stay: "qt_done wr t q P F H as sn op op' q'" if "q' = q" "q_effect t q op op' = QTau"
      "qknows q (set (d # as)) (sn t) op'" "goes_on wr q (QOp op) (QOp op')"
    using done_stay [OF inv P that(2-4)] that(1) by simp
  note sw = done_swing [OF inv P _ room(1)]
  have k: "qknows q (set (d # as)) (sn t) op" using I(7) [of t] P by simp
  have idle: "F t = Idle" using I(5) [of t] P by simp
  show ?thesis
  proof (cases op)
    case Deq0
    show ?thesis by (rule stay) (use Deq0 ex k shape_deq_alive [OF I(2)] in \<open>auto simp: q_effect_def goes_on_def\<close>)
  next
    case (Deq1 h)
    show ?thesis by (rule stay) (use Deq1 ex k in \<open>auto simp: q_effect_def goes_on_def\<close>)
  next
    case (Deq2 h dc)
    show ?thesis by (rule stay) (use Deq2 ex k in \<open>auto simp: q_effect_def goes_on_def ends_def\<close>)
  next
    case (Deq3 h dc e)
    show ?thesis by (rule stay) (use Deq3 ex k in \<open>auto simp: q_effect_def goes_on_def\<close>)
  next
    case (Deq4 h dc e ec)
    with ex obtain h' x where x: "h = Some h'" "lq_elems q h' = Some x" "op' = Deq5 h' dc e ec (qe_next x)" "q' = q" by auto
    from k Deq4 read_link [OF I(2,8) x(2)] have f: "followed q (sn t) h' dc e ec (qe_next x)" by simp
    show ?thesis by (rule stay) (use Deq4 x f in \<open>auto simp: q_effect_def goes_on_def\<close>)
  next
    case (Deq5 h dc e ec nx)
    show ?thesis by (rule stay) (use Deq5 ex k in \<open>auto simp: q_effect_def goes_on_def\<close>)
  next
    case (Deq6 h dc e ec nx nc)
    show ?thesis by (rule stay) (use Deq6 ex k in \<open>auto simp: q_effect_def goes_on_def split: if_splits\<close>)
  next
    case (Deq7 h dc e ec nx nc)
    show ?thesis
    proof (cases "lq_deqc q = dc")
      case True
      with k Deq7 have f: "followed q (sn t) h dc e ec nx" "lq_deq q = Some h" by simp_all
      note nxf = followed_next [OF f True [symmetric]]
      show ?thesis
      proof (cases "e = Some h")
        case e: True
        show ?thesis
        proof (cases nx)
          case None
          with ex Deq7 True e have r: "op' = DeqEmpty" "q' = q" by auto
          have "qt_inv wr q (P(t := QOp DeqEmpty)) F H d as sn" using idle by (intro qt_stay [OF inv]) (simp_all add: goes_on_def)
          then show ?thesis unfolding qt_done_def r Deq7 using nxf(1) [OF e None]
            by (intro exI [of _ d] exI [of _ as] exI [of _ sn]) (simp add: q_effect_def)
        next
          case (Some b)
          show ?thesis by (rule stay) (use Some ex Deq7 True e nxf(2) [OF e] in \<open>auto simp: q_effect_def goes_on_def\<close>)
        qed
      next
        case False
        show ?thesis by (rule stay) (use False ex Deq7 True nxf(3) in \<open>auto simp: q_effect_def goes_on_def\<close>)
      qed
    next
      case False show ?thesis by (rule stay) (use False ex k Deq7 in \<open>auto simp: q_effect_def goes_on_def\<close>)
    qed
  next
    case (DeqSwing e ec nx)
    with k obtain e' x where e: "e = Some e'" "nx = Some x" "swing q (Some e') ec (Some x)" by auto
    obtain ok a c old where r: "lfds_dcas (lq_enq q, lq_enqc q) (Some x, ec + 1) (Some e', ec) = (ok, (a, c), old)"
      by (metis prod.exhaust)
    from ex DeqSwing e r have "op' = Deq0" "q' = q\<lparr>lq_enq := a, lq_enqc := c\<rparr>" by simp_all
    with sw [OF _ e(3) _ _ r] DeqSwing show ?thesis by (simp add: q_effect_def goes_on_def)
  next
    case (DeqData h dc nx)
    show ?thesis by (rule stay) (use DeqData ex k in \<open>auto simp: q_effect_def goes_on_def q_data_def\<close>)
  next
    case (DeqSwap h dc nx u)
    from k DeqSwap have f: "first_of q h dc nx" "dc = lq_deqc q \<longrightarrow> u = q_data q (the nx)" by simp_all
    show ?thesis
    proof (cases "lq_deq q = Some h \<and> lq_deqc q = dc")
      case True
      with f obtain a where a: "nx = Some a" "nxt q h = Some a" "lq_enq q \<noteq> lq_deq q" "u = q_data q a"
        by (auto simp: first_of_def alive_def)
      from True S(1) have h: "h = d" by simp
      from ex DeqSwap True a have r: "op' = DeqDone d u" "q' = q\<lparr>lq_deq := Some a, lq_deqc := lq_deqc q + 1\<rparr>"
        by (simp_all add: lfds_dcas_def h)
      obtain as' where as: "as = a # as'" "qt_inv wr q' (P(t := QOp op')) F H a as' (\<lambda>t. sn t \<or> as' = [])"
        using inv_swap [OF inv _ a(3) room(2), of a t] a(2) P DeqSwap idle h r by auto
      have "q_data q' = q_data q" by (simp add: r q_data_def fun_eq_iff)
      with as show ?thesis unfolding qt_done_def DeqSwap r(1)
        by (intro exI [of _ a] exI [of _ as'] exI [of _ "\<lambda>t. sn t \<or> as' = []"]) (simp add: q_effect_def a r(1))
    next
      case False
      with ex DeqSwap have r: "op' = Deq0" "q' = q\<lparr>lq_deq := lq_deq q, lq_deqc := lq_deqc q\<rparr>" by (auto simp: lfds_dcas_def)
      show ?thesis by (rule stay) (use r DeqSwap in \<open>auto simp: q_effect_def goes_on_def\<close>)
    qed
  qed (use ex deq in simp_all)
qed

subsection \<open>Accesses to the free list\<close>

lemma exec_pool:
  assumes "fl_exec f l = Some (f', l')"
  shows "fl_data l' = fl_data l" "fl_elems l' a = None \<longleftrightarrow> fl_elems l a = None" "pop_pc f' = pop_pc f" "f' \<noteq> Idle" "f \<noteq> Idle"
  using assms
  by (cases "(f, l)" rule: fl_exec.cases;
      auto simp: lfds_dcas_def lfds_increment_def set_link_def Let_def fl_data_def fun_eq_iff split: if_splits)+

text \<open>What a step of one thread on the free list must do to keep the invariant.\<close>

lemma qt_pool:
  assumes inv: "qt_inv wr q P F H d as sn"
    and step: "fl_step \<lparr>lst = lq_fs q, pcs = F, held = H\<rparr> ev \<lparr>lst = l, pcs = F(t := f), held = H'\<rparr>"
    and room: "fl_aba (lq_fs q) < fl_aba (lq_fs q) + 1"
    and l: "fl_data l = fl_data (lq_fs q)" "\<And>a. fl_elems l a = None \<longleftrightarrow> fl_elems (lq_fs q) a = None"
    and pc: "fl_pc_ok pc f" "enq_thread pc \<Longrightarrow> t = wr" "tknows q (set (d # as)) (sn t) pc" "qnode pc = None"
    and H: "\<And>n. n \<in> set (d # as) \<Longrightarrow> q_fe q n \<in> H'" "\<And>u a. u \<noteq> t \<Longrightarrow> qowns q (P u) = Some a \<Longrightarrow> a \<in> H'"
    and own: "\<And>a. qowns q pc = Some a \<Longrightarrow> a \<in> H' \<and> a \<notin> q_fe q ` set (d # as) \<and> (\<forall>u. u \<noteq> t \<longrightarrow> qowns q (P u) \<noteq> Some a)"
  shows "qt_inv wr (q\<lparr>lq_fs := l\<rparr>) (P(t := pc)) (F(t := f)) H' d as sn"
proof -
  let ?q = "q\<lparr>lq_fs := l\<rparr>"
  note I = qt_invD [OF inv]
  note O = ownedD [OF I(4)]
  have same: "nxt ?q = nxt q" "live ?q = live q" "q_data ?q = q_data q" "q_fe ?q = q_fe q"
    by (simp_all add: nxt_def live_def q_data_def q_fe_def fun_eq_iff)
  then have qo: "qowns ?q x = qowns q x" for x by (intro qowns_cong) simp
  have later: "later q ?q" unfolding later_def same by simp
  from I(1) obtain ys where ys: "fl_inv \<lparr>lst = lq_fs q, pcs = F, held = H\<rparr> ys" by blast
  from inv_step [OF this step] room obtain zs where zs: "fl_inv \<lparr>lst = l, pcs = F(t := f), held = H'\<rparr> zs" by auto
  have kn: "tknows ?q (set (d # as)) (sn u) pc" if "tknows q (set (d # as)) (sn u) pc" for u pc
    by (rule tknows_later [OF later that]) simp_all
  have ow: "owned ?q (P(t := pc)) H' (set (d # as))"
  proof (rule ownedI)
    fix n assume "n \<in> set (d # as)"
    with O(1) H(1) show "q_fe ?q n \<in> H' \<and> fl_data (lq_fs ?q) (q_fe ?q n) = Some n" using l(1) same by simp
  next
    fix u a assume "qowns ?q ((P(t := pc)) u) = Some a"
    then show "a \<in> H' \<and> a \<notin> q_fe ?q ` set (d # as)" using own H(2) O(2) by (cases "u = t") (simp_all add: qo same)
  next
    fix u n assume "qnode ((P(t := pc)) u) = Some n"
    then show "\<exists>a. qowns ?q ((P(t := pc)) u) = Some a \<and> fl_data (lq_fs ?q) a = Some n"
      using O(3) [of u] pc(4) l(1) by (cases "u = t") (simp_all add: qo)
  next
    fix u v a assume a: "qowns ?q ((P(t := pc)) u) = Some a" "qowns ?q ((P(t := pc)) v) = Some a"
    then show "u = v" using own [of a] O(4) [of u a v] unfolding qo fun_upd_apply by (cases "u = t"; cases "v = t") simp_all
  qed
  show ?thesis unfolding qt_inv_def
  proof (intro conjI allI impI)
    show "\<exists>ys. fl_inv \<lparr>lst = lq_fs ?q, pcs = F(t := f), held = H'\<rparr> ys" using zs by auto
    show "queue_shape ?q d as" using I(2) unfolding queue_shape_def same by simp
    show "paired ?q" using I(3) l unfolding paired_def same by simp
    show "fl_pc_ok ((P(t := pc)) u) ((F(t := f)) u)" for u using I(5) pc(1) by simp
    show "u = wr" if "enq_thread ((P(t := pc)) u)" for u using I(6) pc(2) that by (cases "u = t") simp_all
    show "tknows ?q (set (d # as)) (sn u) ((P(t := pc)) u)" for u using kn [OF I(7)] kn [of t pc] pc(3) by (cases "u = t") simp_all
    show "sn u" if "as = []" for u using I(8) that .
  qed (rule ow)
qed

lemma inv_fl_access:
  assumes inv: "qt_inv wr q P F H d as sn" and ex: "fl_exec (F t) (lq_fs q) = Some (f, l)"
    and room: "fl_aba (lq_fs q) < fl_aba (lq_fs q) + 1"
  shows "qt_inv wr (q\<lparr>lq_fs := l\<rparr>) P (F(t := f)) H d as sn"
proof -
  note I = qt_invD [OF inv]
  note O = ownedD [OF I(4)]
  note E = exec_pool [OF ex]
  from I(5) [of t] E(5) have pc: "P t = QPush \<or> (\<exists>u. P t = QPop u)" by (cases "P t") simp_all
  have "fl_step \<lparr>lst = lq_fs q, pcs = F, held = H\<rparr> (fl_effect (F t) f) \<lparr>lst = l, pcs = F(t := f), held = H\<rparr>"
    using fs_exec [of "\<lparr>lst = lq_fs q, pcs = F, held = H\<rparr>" t f l] ex by simp
  from qt_pool [OF inv this room E(1,2), of "P t"] have "qt_inv wr (q\<lparr>lq_fs := l\<rparr>) (P(t := P t)) (F(t := f)) H d as sn"
    using I(5) [of t] I(6,7) O(1,2) pc E(3,4) by auto
  then show ?thesis by simp
qed

end
