(* ===== verification/QueueRefine.thy ===== *)
theory QueueRefine
  imports QueueInv
begin

text \<open>
  The queue under any number of threads of which one enqueues: every step keeps the invariant of
  \<open>QueueInv\<close> and does to the elements what its label says, so a run does what a queue does.
\<close>

subsection \<open>The calls of the free list\<close>

lemma inv_start_enqueue:
  assumes inv: "qt_inv wr q P F H d as sn" and P: "P wr = QIdle" and room: "fl_aba (lq_fs q) < fl_aba (lq_fs q) + 1"
  shows "qt_inv wr q (P(wr := QPop u)) (F(wr := PopC)) H d as sn"
proof -
  note I = qt_invD [OF inv]
  note O = ownedD [OF I(4)]
  from I(5) [of wr] P have "F wr = Idle" by simp
  then have "fl_step \<lparr>lst = lq_fs q, pcs = F, held = H\<rparr> ETau \<lparr>lst = lq_fs q, pcs = F(wr := PopC), held = H\<rparr>"
    using fs_pop [of "\<lparr>lst = lq_fs q, pcs = F, held = H\<rparr>" wr] by simp
  from qt_pool [OF inv this room, of "QPop u"] show ?thesis using O(1,2) by simp
qed

lemma inv_start_dequeue:
  assumes inv: "qt_inv wr q P F H d as sn" and P: "P t = QIdle"
  shows "qt_inv wr q (P(t := QOp Deq0)) F H d as (sn(t := as = []))"
proof -
  note I = qt_invD [OF inv]
  show ?thesis
    by (rule qt_update [OF inv refl _ I(2) later_refl]) (use I(5) [of t] I(8) P in auto)
qed

lemma inv_popped:
  assumes inv: "qt_inv wr q P F H d as sn" and P: "P t = QPop u" "F t = PopDone r"
    and room: "fl_aba (lq_fs q) < fl_aba (lq_fs q) + 1"
  shows "qt_inv wr q (P(t := case r of None \<Rightarrow> QIdle | Some fe \<Rightarrow> QInit0 fe u)) (F(t := Idle)) (H \<union> set_option r) d as sn"
    (is "qt_inv wr q (P(t := ?pc)) _ _ _ _ _")
proof -
  note I = qt_invD [OF inv]
  note O = ownedD [OF I(4)]
  from I(1) obtain ys where "fl_inv \<lparr>lst = lq_fs q, pcs = F, held = H\<rparr> ys" by blast
  note fr = fl_invD(5) [OF this, of t]
  have step: "fl_step \<lparr>lst = lq_fs q, pcs = F, held = H\<rparr> ETau \<lparr>lst = lq_fs q, pcs = F(t := Idle), held = H \<union> set_option r\<rparr>"
    using fs_popped [of "\<lparr>lst = lq_fs q, pcs = F, held = H\<rparr>" t r] P by simp
  have wr: "t = wr" using I(6) [of t] P(1) by simp
  have own: "a \<in> H \<union> set_option r \<and> a \<notin> q_fe q ` set (d # as) \<and> (\<forall>v. v \<noteq> t \<longrightarrow> qowns q (P v) \<noteq> Some a)"
    if "qowns q ?pc = Some a" for a
  proof -
    from that have r: "r = Some a" by (cases r) simp_all
    with fr P(2) have "a \<notin> H" by simp
    then show ?thesis using r O(1,2) by auto
  qed
  have pc: "fl_pc_ok ?pc Idle" "tknows q (set (d # as)) (sn t) ?pc" "qnode ?pc = None" by (cases r; simp)+
  have H: "q_fe q n \<in> H \<union> set_option r" if "n \<in> set (d # as)" for n using O(1) [OF that] by simp
  have H': "a \<in> H \<union> set_option r" if "qowns q (P v) = Some a" for v a using O(2) [OF that] by simp
  from qt_pool [OF inv step room refl refl pc(1) _ pc(2,3) H H' own] wr show ?thesis by simp
qed

lemma inv_free:
  assumes inv: "qt_inv wr q P F H d as sn" and P: "P t = QOp (DeqDone h u)" and room: "fl_aba (lq_fs q) < fl_aba (lq_fs q) + 1"
  shows "qt_inv wr q (P(t := QPush)) (F(t := PushA (q_fe q h))) (H - {q_fe q h}) d as sn"
proof -
  note I = qt_invD [OF inv]
  note O = ownedD [OF I(4)]
  have F: "F t = Idle" using I(5) [of t] P by simp
  have own: "qowns q (P t) = Some (q_fe q h)" using P by simp
  note o = O(2) [OF own]
  have "fl_step \<lparr>lst = lq_fs q, pcs = F, held = H\<rparr> ETau
      \<lparr>lst = lq_fs q, pcs = F(t := PushA (q_fe q h)), held = H - {q_fe q h}\<rparr>"
    using fs_push [of "\<lparr>lst = lq_fs q, pcs = F, held = H\<rparr>" t "q_fe q h"] F o by simp
  moreover have "q_fe q n \<in> H - {q_fe q h}" if "n \<in> set (d # as)" for n using O(1) [OF that] o imageI [OF that, of "q_fe q"] by (metis Diff_iff singletonD)
  moreover have "a \<in> H - {q_fe q h}" if "v \<noteq> t" "qowns q (P v) = Some a" for v a
    using O(2) [OF that(2)] O(4) [OF that(2), of t] own that(1) by auto
  ultimately have "qt_inv wr (q\<lparr>lq_fs := lq_fs q\<rparr>) (P(t := QPush)) (F(t := PushA (q_fe q h))) (H - {q_fe q h}) d as sn"
    by (intro qt_pool [OF inv _ room refl refl]) simp_all
  then show ?thesis by simp
qed

lemma inv_pushed:
  assumes inv: "qt_inv wr q P F H d as sn" and P: "P t = QPush" "F t = PushDone" and room: "fl_aba (lq_fs q) < fl_aba (lq_fs q) + 1"
  shows "qt_inv wr q (P(t := QIdle)) (F(t := Idle)) H d as sn"
proof -
  note I = qt_invD [OF inv]
  note O = ownedD [OF I(4)]
  have "fl_step \<lparr>lst = lq_fs q, pcs = F, held = H\<rparr> ETau \<lparr>lst = lq_fs q, pcs = F(t := Idle), held = H\<rparr>"
    using fs_pushed [of "\<lparr>lst = lq_fs q, pcs = F, held = H\<rparr>" t] P by simp
  from qt_pool [OF inv this room, of QIdle] show ?thesis using O(1,2) by simp
qed

subsection \<open>Initialising an element\<close>

lemma inv_node:
  assumes inv: "qt_inv wr q P F H d as sn" and P: "P t = QInit0 fe u" and n: "fl_data (lq_fs q) fe = Some n"
  shows "qt_inv wr q (P(t := QInit1 n fe u)) F H d as sn"
proof -
  note I = qt_invD [OF inv]
  note O = ownedD [OF I(4)]
  have wr: "t = wr" using I(6) [of t] P by simp
  show ?thesis
    by (rule qt_update [OF inv refl _ I(2) later_refl]) (use I(5) [of t] I(8) P n wr O(2) [of t fe] in auto)
qed

lemma inv_count:
  assumes inv: "qt_inv wr q P F H d as sn"
    and pc: "tknows q (set (d # as)) (sn t) pc" "fl_pc_ok pc (F t)" "goes_on wr q (P t) pc"
  shows "qt_inv wr (q\<lparr>lq_aba := c\<rparr>) (P(t := pc)) F H d as sn"
proof -
  let ?q = "q\<lparr>lq_aba := c\<rparr>"
  have same: "nxt ?q = nxt q" "live ?q = live q" "q_data ?q = q_data q"
    by (simp_all add: nxt_def live_def q_data_def fun_eq_iff)
  have later: "later q ?q" unfolding later_def same by simp
  have "queue_shape ?q d as" using qt_invD(2) [OF inv] unfolding queue_shape_def same by simp
  moreover have "tknows ?q (set (d # as)) (sn t) pc" by (rule tknows_later [OF later pc(1)]) simp_all
  ultimately show ?thesis by (intro qt_go_on [OF inv _ _ _ later _ pc(2,3)]) simp_all
qed

text \<open>A write to an element that is in the hands of the thread, which leaves or makes its link empty.\<close>

lemma inv_own:
  assumes inv: "qt_inv wr q P F H d as sn" and n: "qnode (P t) = Some n" "lq_elems q n = Some x" and y: "qe_next y = None"
    and q': "q' = q\<lparr>lq_elems := (lq_elems q)(n \<mapsto> y)\<rparr>"
    and pc: "tknows q' (set (d # as)) (sn t) pc" "fl_pc_ok pc (F t)" "enq_thread (P t)" "qnode pc = Some n"
      "qowns q' pc = qowns q (P t)" "qowns q' (P t) = qowns q (P t)"
  shows "qt_inv wr q' (P(t := pc)) F H d as sn \<and> map (q_data q') as = map (q_data q) as"
proof -
  note I = qt_invD [OF inv]
  note O = ownedD [OF I(4)]
  note S = shapeD [OF I(2)]
  have out: "n \<notin> set (d # as)" by (rule node_not_queued [of q P H _ t, OF I(4,3) n(1)])
  have nx: "nxt q' a = (if a = n then None else nxt q a)" for a using y by (simp add: q' nxt_def)
  have live: "live q' = live q" using n by (auto simp: q' live_def fun_eq_iff)
  have dat: "q_data q' a = q_data q a" and fe: "q_fe q' a = q_fe q a" if "a \<noteq> n" for a using that by (simp_all add: q' q_data_def q_fe_def)
  have shape: "queue_shape q' d as" unfolding queue_shape_def
  proof (intro conjI allI impI)
    show "q_chain (lq_elems q') d as" using S(2) by (simp add: q' q_chain_other [OF out])
    show "live q' b" if "nxt q' a = Some b" for a b using that S(9) [of a b] unfolding nx live by (simp split: if_splits)
  qed (use S(1,3,8) in \<open>simp_all add: q'\<close>)
  have later: "later q q'" unfolding later_def live
  proof (intro conjI allI impI)
    fix a b
    assume a: "lq_deq q = Some a" "nxt q a = Some b"
    then have "b \<in> set as" using S(1) S(6) [of a b] by simp
    then show "q_data q' b = q_data q b" using out by (intro dat) auto
  next
    fix a b
    assume "lq_deq q = Some a \<or> lq_enq q = Some a"
    then have "a \<in> set (d # as)" using S(1,8) by auto
    moreover assume "nxt q a = Some b"
    ultimately show "nxt q' a = Some b" using out unfolding nx by auto
  qed (simp_all add: q')
  have wr: "t = wr" using I(6) pc(3) .
  have "qt_inv wr q' (P(t := pc)) F H d as sn"
  proof (rule qt_update [OF inv _ _ shape later])
    show "lq_fs q' = lq_fs q" by (simp add: q')
    show "q_fe q' m = q_fe q m \<or> qnode (P t) = Some m" for m using fe [of m] n(1) by (cases "m = n") simp_all
    fix a assume a: "qowns q' pc = Some a"
    have "q_fe q' ` set (d # as) = q_fe q ` set (d # as)" using out by (intro image_cong refl fe) auto
    with a O(2) [of t a] pc(5) show "(\<exists>n. a = q_fe q n \<and> n \<in> set (d # as) - set (d # as)) \<or> qowns q (P t) = Some a \<and> a \<notin> q_fe q' ` set (d # as)"
      by simp
  next
    show "\<exists>a. qowns q' pc = Some a \<and> fl_data (lq_fs q) a = Some m" if "qnode pc = Some m" for m
      using O(3) [of t m] that pc(4,5) n(1) by simp
  qed (use pc wr I(8) in simp_all)
  moreover have "map (q_data q') as = map (q_data q) as" using out by (intro map_cong refl dat) auto
  ultimately show ?thesis by simp
qed

subsection \<open>Every step\<close>

text \<open>The invariant of a state, and one step's effect on the elements.\<close>

definition qs_inv :: "nat \<Rightarrow> 'v qt_state \<Rightarrow> 'v option list \<times> (nat \<Rightarrow> bool) \<Rightarrow> bool" where
  "qs_inv wr s a \<longleftrightarrow> (\<exists>d as. qt_inv wr (qt_q s) (qt_pcs s) (qt_fpcs s) (qt_held s) d as (snd a)
     \<and> fst a = map (q_data (qt_q s)) as)"

definition qs_goes :: "nat \<Rightarrow> 'v qt_event \<Rightarrow> 'v option list \<times> (nat \<Rightarrow> bool) \<Rightarrow> 'v qt_state \<Rightarrow> bool" where
  "qs_goes wr ev a s \<longleftrightarrow> (\<exists>b. queue_step ev a = Some b \<and> qs_inv wr s b)"

lemma goes_tau:
  assumes "qt_inv wr q P F H d as sn" "map (q_data q) as = us"
  shows "qs_goes wr QTau (us, sn) \<lparr>qt_q = q, qt_pcs = P, qt_fpcs = F, qt_held = H\<rparr>"
  using assms by (auto simp: qs_goes_def qs_inv_def)

lemma goes_op:
  assumes inv: "qt_inv wr q P F H d as sn" and P: "P t = QOp op" and ex: "q_exec op q = Some (op', q')"
    and room: "lq_enqc q < lq_enqc q + 1" "lq_deqc q < lq_deqc q + 1"
  shows "qs_goes wr (q_effect t q op op') (map (q_data q) as, sn) \<lparr>qt_q = q', qt_pcs = P(t := QOp op'), qt_fpcs = F, qt_held = H\<rparr>"
proof -
  have "qt_done wr t q P F H as sn op op' q'"
    using inv_enqueuer [OF inv P ex _ room(1)] inv_dequeuer [OF inv P ex _ room] by blast
  then show ?thesis unfolding qt_done_def qs_goes_def qs_inv_def by fastforce
qed

lemma goes_fl_access:
  assumes inv: "qt_inv wr q P F H d as sn" and room: "fl_aba (lq_fs q) < fl_aba (lq_fs q) + 1"
    and ex: "fl_access t \<lparr>qt_q = q, qt_pcs = P, qt_fpcs = F, qt_held = H\<rparr> = Some (ev, s')"
  shows "qs_goes wr ev (map (q_data q) as, sn) s'"
proof -
  from ex obtain f l where f: "fl_exec (F t) (lq_fs q) = Some (f, l)" "ev = QTau"
      "s' = \<lparr>qt_q = q\<lparr>lq_fs := l\<rparr>, qt_pcs = P, qt_fpcs = F(t := f), qt_held = H\<rparr>"
    by (auto simp: fl_access_def)
  have "q_data (q\<lparr>lq_fs := l\<rparr>) = q_data q" by (simp add: q_data_def fun_eq_iff)
  with goes_tau [OF inv_fl_access [OF inv f(1) room]] show ?thesis by (simp add: f)
qed

lemma goes_init:
  assumes inv: "qt_inv wr q P F H d as sn" and t: "P t = pc" "enq_thread pc" "qnode pc = Some n"
    and ex: "upd_elem q n f = Some q'" and f: "\<And>x. lq_elems q n = Some x \<Longrightarrow> qe_next (f x) = None"
    and pc: "fl_pc_ok pc' Idle" "fl_pc_ok pc (F t) \<Longrightarrow> F t = Idle" "fresh q' n \<Longrightarrow> tknows q' (set (d # as)) (sn t) pc'"
      "qnode pc' = Some n" "qowns q' pc' = qowns q pc" "qowns q' pc = qowns q pc"
  shows "qs_goes wr QTau (map (q_data q) as, sn) \<lparr>qt_q = q', qt_pcs = P(t := pc'), qt_fpcs = F, qt_held = H\<rparr>"
proof -
  from ex obtain x where x: "lq_elems q n = Some x" "q' = q\<lparr>lq_elems := (lq_elems q)(n \<mapsto> f x)\<rparr>" by (auto simp: upd_elem_def)
  with f have "fresh q' n" by (simp add: fresh_def live_def nxt_def)
  with pc t qt_invD(5) [OF inv, of t] have "tknows q' (set (d # as)) (sn t) pc'" "fl_pc_ok pc' (F t)" by simp_all
  from inv_own [OF inv _ x(1) f [OF x(1)] x(2) this] t pc(4-6)
  have "qt_inv wr q' (P(t := pc')) F H d as sn" "map (q_data q') as = map (q_data q) as" by simp_all
  then show ?thesis by (rule goes_tau)
qed

lemma goes_exec:
  assumes inv: "qt_inv wr q P F H d as sn"
    and ex: "qt_exec t \<lparr>qt_q = q, qt_pcs = P, qt_fpcs = F, qt_held = H\<rparr> = Some (ev, s')"
    and room: "lq_enqc q < lq_enqc q + 1" "lq_deqc q < lq_deqc q + 1" "fl_aba (lq_fs q) < fl_aba (lq_fs q) + 1"
  shows "qs_goes wr ev (map (q_data q) as, sn) s'"
proof -
  note I = qt_invD [OF inv]
  note access = goes_fl_access [OF inv room(3)]
  note ex = ex [unfolded qt_exec_def Let_def qt_pc_to_def, simplified]
  show ?thesis
  proof (cases "P t")
    case QIdle with ex show ?thesis by simp
  next
    case (QPop u)
    show ?thesis
    proof (cases "\<exists>r. F t = PopDone r")
      case True
      then obtain r where r: "F t = PopDone r" by blast
      with ex QPop goes_tau [OF inv_popped [OF inv QPop r room(3)]] show ?thesis by (auto simp: qt_popped_def)
    next
      case False
      with ex QPop access show ?thesis by (cases "F t") simp_all
    qed
  next
    case (QInit0 fe u)
    with ex goes_tau [OF inv_node [OF inv QInit0]] show ?thesis
      by (auto simp: freelist_get_user_data_def fl_data_def split: Option.bind_splits)
  next
    case (QInit1 n fe u)
    have "qt_inv wr (q\<lparr>lq_aba := lfds_increment (lq_aba q)\<rparr>) (P(t := QInit2 n fe u)) F H d as sn"
      by (rule inv_count [OF inv]) (use QInit1 I(5) [of t] in \<open>simp_all add: goes_on_def\<close>)
    moreover have "q_data (q\<lparr>lq_aba := lfds_increment (lq_aba q)\<rparr>) = q_data q" by (simp add: q_data_def fun_eq_iff)
    ultimately show ?thesis using ex QInit1 by (auto intro: goes_tau)
  next
    case (QInit2 n fe u)
    with ex obtain q' where u: "upd_elem q n (\<lambda>x. x\<lparr>qe_next := None\<rparr>) = Some q'" "ev = QTau"
        "s' = \<lparr>qt_q = q', qt_pcs = P(t := QInit3 n fe u), qt_fpcs = F, qt_held = H\<rparr>" by auto
    show ?thesis unfolding u(2,3) by (rule goes_init [OF inv QInit2 _ _ u(1)]) simp_all
  next
    case (QInit3 n fe u)
    let ?c = "lfds_increment (lq_aba q)"
    have "qt_inv wr (q\<lparr>lq_aba := ?c\<rparr>) (P(t := QInit4 n fe u ?c)) F H d as sn"
      by (rule inv_count [OF inv]) (use QInit3 I(5,7) [of t] in \<open>simp_all add: goes_on_def\<close>)
    moreover have "q_data (q\<lparr>lq_aba := ?c\<rparr>) = q_data q" by (simp add: q_data_def fun_eq_iff)
    ultimately show ?thesis using ex QInit3 by (auto intro: goes_tau)
  next
    case (QInit4 n fe u c)
    with ex obtain q' where u: "upd_elem q n (\<lambda>x. x\<lparr>qe_ctr := c\<rparr>) = Some q'" "ev = QTau"
        "s' = \<lparr>qt_q = q', qt_pcs = P(t := QInit5 n fe u), qt_fpcs = F, qt_held = H\<rparr>" by auto
    show ?thesis unfolding u(2,3) by (rule goes_init [OF inv QInit4 _ _ u(1)]) (use I(7) [of t] QInit4 in \<open>simp_all add: fresh_def nxt_def\<close>)
  next
    case (QInit5 n fe u)
    with ex obtain q' where u: "upd_elem q n (\<lambda>x. x\<lparr>qe_fe := fe\<rparr>) = Some q'" "ev = QTau"
        "s' = \<lparr>qt_q = q', qt_pcs = P(t := QInit6 n fe u), qt_fpcs = F, qt_held = H\<rparr>" by auto
    then have "q_fe q' n = fe" by (auto simp: upd_elem_def q_fe_def split: Option.bind_splits)
    then show ?thesis unfolding u(2,3) by (intro goes_init [OF inv QInit5 _ _ u(1)]) (use I(7) [of t] QInit5 in \<open>simp_all add: fresh_def nxt_def\<close>)
  next
    case (QInit6 n fe u)
    with ex obtain q' where u: "upd_elem q n (\<lambda>x. x\<lparr>qe_data := u\<rparr>) = Some q'" "ev = QTau"
        "s' = \<lparr>qt_q = q', qt_pcs = P(t := QOp (Enq0 n)), qt_fpcs = F, qt_held = H\<rparr>" by auto
    then have "q_fe q' n = q_fe q n" by (auto simp: upd_elem_def q_fe_def split: Option.bind_splits)
    then show ?thesis unfolding u(2,3) by (intro goes_init [OF inv QInit6 _ _ u(1)]) (use I(7) [of t] QInit6 in \<open>simp_all add: fresh_def nxt_def\<close>)
  next
    case (QOp op)
    show ?thesis
    proof (cases "op = EnqDone \<or> op = DeqEmpty \<or> (\<exists>h u. op = DeqDone h u)")
      case True
      then consider "op = EnqDone \<or> op = DeqEmpty" | h u where "op = DeqDone h u" by blast
      then show ?thesis
      proof cases
        case 1
        have "qt_inv wr q (P(t := QIdle)) F H d as sn" by (rule qt_stay [OF inv]) (use 1 QOp I(5) [of t] in \<open>auto simp: goes_on_def\<close>)
        with 1 ex QOp goes_tau [OF this refl] show ?thesis by auto
      next
        case 2
        with ex QOp obtain x where "lq_elems q h = Some x" "Some (ev, s') = Some (QTau, qt_free t (qe_fe x) \<lparr>qt_q = q, qt_pcs = P, qt_fpcs = F, qt_held = H\<rparr>)"
          by auto
        with goes_tau [OF inv_free [OF inv QOp [unfolded 2] room(3)]] show ?thesis by (simp add: qt_free_def q_fe_def)
      qed
    next
      case False
      with ex QOp obtain op' q' where o: "q_exec op q = Some (op', q')" "ev = q_effect t q op op'"
          "s' = \<lparr>qt_q = q', qt_pcs = P(t := QOp op'), qt_fpcs = F, qt_held = H\<rparr>"
        by (cases op) (auto split: Option.bind_splits)
      show ?thesis unfolding o(2,3) by (rule goes_op [OF inv QOp o(1) room(1,2)])
    qed
  next
    case QPush
    show ?thesis
    proof (cases "F t = PushDone")
      case True
      with ex QPush goes_tau [OF inv_pushed [OF inv QPush True room(3)]] show ?thesis by auto
    next
      case False
      with ex QPush access show ?thesis by (cases "F t") simp_all
    qed
  qed
qed

subsection \<open>The counters\<close>

lemma plus_one_le: "unat (c + 1 :: u64) \<le> unat c + 1"
  by (cases "1 + c = 0") (simp_all add: add.commute [of _ 1] unatSuc)

definition qs_used :: "'v qt_state \<Rightarrow> nat \<Rightarrow> bool" where
  "qs_used s k \<longleftrightarrow> unat (lq_enqc (qt_q s)) \<le> k \<and> unat (lq_deqc (qt_q s)) \<le> k \<and> unat (fl_aba (lq_fs (qt_q s))) \<le> k"

lemma q_exec_counters:
  assumes ex: "q_exec op q = Some (op', q')" and xc: "\<And>n e ec x xc. op = EnqSwing n e ec x xc \<Longrightarrow> xc = ec + 1"
  shows "lq_enqc q' = lq_enqc q \<or> lq_enqc q' = lq_enqc q + 1" "lq_deqc q' = lq_deqc q \<or> lq_deqc q' = lq_deqc q + 1"
    "lq_fs q' = lq_fs q"
proof -
  have "(lq_enqc q' = lq_enqc q \<or> lq_enqc q' = lq_enqc q + 1) \<and> (lq_deqc q' = lq_deqc q \<or> lq_deqc q' = lq_deqc q + 1)
      \<and> lq_fs q' = lq_fs q"
    using ex xc
    by (cases op) (auto simp: lfds_dcas_def upd_elem_def split: if_splits option.splits Option.bind_splits)
  then show "lq_enqc q' = lq_enqc q \<or> lq_enqc q' = lq_enqc q + 1" "lq_deqc q' = lq_deqc q \<or> lq_deqc q' = lq_deqc q + 1"
    "lq_fs q' = lq_fs q" by blast+
qed

lemma qt_exec_used:
  assumes "qt_exec t s = Some (ev, s')" "qs_used s k"
    and xc: "\<And>n e ec x xc. qt_pcs s t = QOp (EnqSwing n e ec x xc) \<Longrightarrow> xc = ec + 1"
  shows "qs_used s' (Suc k)"
proof -
  have access: "qs_used s2 (Suc k)" if "fl_access t s = Some (e2, s2)" for e2 s2
  proof -
    from that obtain f l where f: "fl_exec (qt_fpcs s t) (lq_fs (qt_q s)) = Some (f, l)"
        "s2 = s\<lparr>qt_q := (qt_q s)\<lparr>lq_fs := l\<rparr>, qt_fpcs := (qt_fpcs s)(t := f)\<rparr>" by (auto simp: fl_access_def)
    from fs_exec [of "\<lparr>lst = lq_fs (qt_q s), pcs = qt_fpcs s, held = {}\<rparr>" t] f(1)
    have "unat (fl_aba l) \<le> unat (fl_aba (lq_fs (qt_q s))) + 1" by (fastforce dest: step_aba)
    with assms(2) show ?thesis by (simp add: qs_used_def f(2))
  qed
  have op: "qs_used (s\<lparr>qt_q := q2, qt_pcs := P\<rparr>) (Suc k)" if "qt_pcs s t = QOp op" "q_exec op (qt_q s) = Some (op2, q2)"
    for op op2 q2 P
    using q_exec_counters [OF that(2)] xc that(1) plus_one_le [of "lq_enqc (qt_q s)"] plus_one_le [of "lq_deqc (qt_q s)"] assms(2)
    by (auto simp: qs_used_def)
  have elem: "lq_fs q2 = lq_fs q \<and> lq_enqc q2 = lq_enqc q \<and> lq_deqc q2 = lq_deqc q" if "upd_elem q n f = Some q2" for q n f and q2 :: "'a lqueue"
    using that by (auto simp: upd_elem_def)
  have rest: "qs_used s2 (Suc k)" if "lq_fs (qt_q s2) = lq_fs (qt_q s)" "lq_enqc (qt_q s2) = lq_enqc (qt_q s)"
    "lq_deqc (qt_q s2) = lq_deqc (qt_q s)" for s2 using that assms(2) by (simp add: qs_used_def)
  note ex = assms(1) [unfolded qt_exec_def Let_def qt_pc_to_def]
  show ?thesis
  proof (cases "qt_pcs s t")
    case (QPop u) with ex access show ?thesis by (cases "qt_fpcs s t") (auto simp: qt_popped_def intro!: rest)
  next
    case (QOp pc)
    show ?thesis
    proof (cases "pc = EnqDone \<or> pc = DeqEmpty \<or> (\<exists>h u. pc = DeqDone h u)")
      case True with ex QOp show ?thesis by (auto simp: qt_free_def intro!: rest)
    next
      case False with ex QOp op show ?thesis by (cases pc) (auto simp del: q_exec.simps)
    qed
  next
    case QPush with ex access show ?thesis by (cases "qt_fpcs s t") (auto intro!: rest)
  qed (use ex in \<open>auto dest: elem intro!: rest\<close>)
qed

subsection \<open>Runs\<close>

lemma room_less: "unat (c :: u64) \<le> k \<Longrightarrow> k + 1 < 2 ^ 64 \<Longrightarrow> c < c + 1"
  by (simp add: word_less_nat_alt unat_word_ariths)

lemma qt_run_inv:
  assumes run: "qt_run (\<lambda>t. t = wr) s0 es s" and init: "qs_inv wr s0 a" "qs_used s0 k" and len: "length es + k < 2 ^ 64"
  shows "\<exists>b. queue_run es a = Some b \<and> qs_inv wr s b \<and> qs_used s (length es + k)"
  using run len
proof (induction rule: qt_run.induct)
  case qr_init then show ?case using init by simp
next
  case (qr_enqueue es s t u)
  then obtain us sn where b: "queue_run es a = Some (us, sn)" "qs_inv wr s (us, sn)" and used: "qs_used s (length es + k)" by auto
  from b(2) obtain d as where inv: "qt_inv wr (qt_q s) (qt_pcs s) (qt_fpcs s) (qt_held s) d as sn" "us = map (q_data (qt_q s)) as"
    by (auto simp: qs_inv_def)
  have "fl_aba (lq_fs (qt_q s)) < fl_aba (lq_fs (qt_q s)) + 1"
    using used qr_enqueue.prems by (intro room_less [of _ "length es + k"]) (simp_all add: qs_used_def)
  from inv_start_enqueue [OF inv(1) _ this, of u] qr_enqueue.hyps have "qs_inv wr (start_enqueue t u s) (us, sn)"
    using inv(2) by (auto simp: qs_inv_def start_enqueue_def)
  with b used show ?case by (simp add: queue_run_snoc qs_used_def start_enqueue_def)
next
  case (qr_dequeue es s t)
  then obtain us sn where b: "queue_run es a = Some (us, sn)" "qs_inv wr s (us, sn)" and used: "qs_used s (length es + k)" by auto
  from b(2) obtain d as where inv: "qt_inv wr (qt_q s) (qt_pcs s) (qt_fpcs s) (qt_held s) d as sn" "us = map (q_data (qt_q s)) as"
    by (auto simp: qs_inv_def)
  from inv_start_dequeue [OF inv(1) qr_dequeue.hyps(2)] have "qs_inv wr (start_dequeue t s) (us, sn(t := us = []))"
    using inv(2) by (auto simp: qs_inv_def start_dequeue_def)
  with b used show ?case by (simp add: queue_run_snoc qs_used_def start_dequeue_def)
next
  case (qr_exec es s t ev s')
  then obtain us sn where b: "queue_run es a = Some (us, sn)" "qs_inv wr s (us, sn)" and used: "qs_used s (length es + k)" by auto
  from b(2) obtain d as where inv: "qt_inv wr (qt_q s) (qt_pcs s) (qt_fpcs s) (qt_held s) d as sn" "us = map (q_data (qt_q s)) as"
    by (auto simp: qs_inv_def)
  have room: "lq_enqc (qt_q s) < lq_enqc (qt_q s) + 1" "lq_deqc (qt_q s) < lq_deqc (qt_q s) + 1"
      "fl_aba (lq_fs (qt_q s)) < fl_aba (lq_fs (qt_q s)) + 1"
    using used qr_exec.prems by (auto intro!: room_less [of _ "length es + k"] simp: qs_used_def)
  have "qt_exec t \<lparr>qt_q = qt_q s, qt_pcs = qt_pcs s, qt_fpcs = qt_fpcs s, qt_held = qt_held s\<rparr> = Some (ev, s')"
    using qr_exec.hyps(2) by (cases s) simp
  from goes_exec [OF inv(1) this room] inv(2) obtain c where "queue_step ev (us, sn) = Some c" "qs_inv wr s' c"
    by (auto simp: qs_goes_def)
  moreover have "xc = ec + 1" if "qt_pcs s t = QOp (EnqSwing n e ec x xc)" for n e ec x xc
    using qt_invD(7) [OF inv(1), of t] that by simp
  then have "qs_used s' (length (es @ [ev]) + k)" using qt_exec_used [OF qr_exec.hyps(2) used] by simp
  ultimately show ?case using b(1) by (simp add: queue_run_snoc)
qed

subsection \<open>The queue that is made\<close>

text \<open>The free list of a new queue, with the counters of its links, while its elements are made.\<close>

definition pool_ok :: "nat \<Rightarrow> addr freelist \<Rightarrow> (addr \<Rightarrow> 'v queue_elem option) \<Rightarrow> bool" where
  "pool_ok k l m \<longleftrightarrow> (\<exists>zs. chain (fl_elems l) (fl_top l) (fl_topc l) zs \<and> dom (fl_elems l) \<subseteq> fst ` set zs
       \<and> (\<forall>c \<in> snd ` set zs. c \<le> fl_aba l))
     \<and> unat (fl_aba l) \<le> k \<and> (\<forall>a x. m a = Some x \<longrightarrow> qe_next x = None)"

lemma pool_new_elements:
  "freelist_new_elements queue_malloc (Some queue_internal_freelist_init_function) n l (h, m) = Some (c, l', h', m')
   \<Longrightarrow> pool_ok k l m \<Longrightarrow> dom (fl_elems l) \<subseteq> {..<hp_next h} \<Longrightarrow> k + n < 2 ^ 64 \<Longrightarrow> pool_ok (k + n) l' m'"
proof (induction n arbitrary: l h m c k)
  case 0 then show ?case by simp
next
  case (Suc n)
  obtain rv fe l1 h1 m1 where e: "freelist_internal_new_element queue_malloc
      (Some queue_internal_freelist_init_function) l (h, m) = (rv, fe, l1, h1, m1)"
    by (metis prod_cases5)
  have m1: "\<forall>a x. m1 a = Some x \<longrightarrow> qe_next x = None" using e Suc.prems(2)
    by (auto simp: freelist_internal_new_element_def queue_malloc_def queue_internal_freelist_init_function_def pool_ok_def
        Let_def split: prod.splits option.splits if_splits)
  from qm.new_element_cases [OF e] consider "rv = 0" "l1 = l" "hp_next h \<le> hp_next h1"
    | a u lo where "rv = 1" "fe = Some a" "hp_next h \<le> a" "a < lo" "lo \<le> hp_next h1"
      "l1 = l\<lparr>fl_elems := (fl_elems l)(a \<mapsto> \<lparr>fe_next = None, fe_ctr = 0, fe_data = u\<rparr>), fl_count := fl_count l + 1\<rparr>"
    by auto
  then show ?case
  proof cases
    case 1
    have "pool_ok (Suc k) l1 m1" using Suc.prems(2) m1 1(2) by (auto simp: pool_ok_def)
    moreover have "dom (fl_elems l1) \<subseteq> {..<hp_next h1}" using Suc.prems(3) 1(2,3) by auto
    moreover have "freelist_new_elements queue_malloc (Some queue_internal_freelist_init_function) n l1 (h1, m1) = Some (c, l', h', m')"
      using Suc.prems(1) e 1(1) by simp
    ultimately show ?thesis using Suc.IH [of l1 h1 m1 c "Suc k"] Suc.prems(4) by simp
  next
    case 2
    have a: "a \<notin> dom (fl_elems l)" using Suc.prems(3) 2(3) by auto
    from Suc.prems(2) obtain zs where zs: "chain (fl_elems l) (fl_top l) (fl_topc l) zs" "dom (fl_elems l) \<subseteq> fst ` set zs"
        "\<forall>c \<in> snd ` set zs. c \<le> fl_aba l" "unat (fl_aba l) \<le> k" by (auto simp: pool_ok_def)
    have out: "a \<notin> fst ` set zs" using chain_dom [OF zs(1)] a by auto
    have room: "fl_aba l < fl_aba l + 1" by (rule room_less [OF zs(4)]) (use Suc.prems(4) in simp)
    let ?l2 = "l1\<lparr>fl_top := Some a, fl_topc := fl_aba l + 1, fl_aba := fl_aba l + 1,
      fl_elems := (fl_elems l)(a \<mapsto> \<lparr>fe_next = fl_top l, fe_ctr = fl_topc l, fe_data = u\<rparr>)\<rparr>"
    from Suc.prems(1) e 2 obtain c2 where l2:
      "freelist_new_elements queue_malloc (Some queue_internal_freelist_init_function) n ?l2 (h1, m1) = Some (c2, l', h', m')"
      by (auto simp: freelist_push_eq)
    have "chain (fl_elems ?l2) (fl_top ?l2) (fl_topc ?l2) ((a, fl_aba l + 1) # zs)" using zs(1) out by (simp add: chain_other)
    moreover have "\<forall>c \<in> snd ` set ((a, fl_aba l + 1) # zs). c \<le> fl_aba ?l2"
      using zs(3) room by (auto intro: order_trans less_imp_le)
    moreover have "unat (fl_aba ?l2) \<le> Suc k" using zs(4) plus_one_le [of "fl_aba l"] by simp
    moreover have "dom (fl_elems ?l2) \<subseteq> fst ` set ((a, fl_aba l + 1) # zs)" using zs(2) by auto
    ultimately have "pool_ok (Suc k) ?l2 m1" using m1 unfolding pool_ok_def by blast
    note pool = this
    have "dom (fl_elems ?l2) \<subseteq> {..<hp_next h1}" using Suc.prems(3) 2 by auto
    from Suc.IH [OF l2 pool this] Suc.prems(4) have "pool_ok (Suc k + n) l' m'" by simp
    then show ?thesis by simp
  qed
qed

lemma chain_path: "chain m p c zs \<Longrightarrow> fl_path m p xs \<Longrightarrow> xs = map fst zs"
  by (induction zs arbitrary: p c xs) (auto elim: fl_path.elims)

lemma new_inv:
  assumes new: "queue_new g n h = Some (1, Some q, h')" and n: "unat n + 1 < 2 ^ 64"
  shows "qs_inv wr (qt_of q) ([], \<lambda>_. True) \<and> qs_used (qt_of q) (unat n + 1)"
proof -
  have n1: "n + 1 \<noteq> 0" "unat (n + 1) = unat n + 1" using n by (auto simp: unat_word_ariths dest: arg_cong [of _ _ unat])
  from new n1(1) show ?thesis
  proof (cases rule: queue_new_cases)
    case (new h1 r1 fs h2 m2 a xs e k y)
    have "pool_ok (0 + unat (n + 1)) fs m2"
    proof -
      have p: "pool_ok 0 (empty_freelist :: addr freelist) (\<lambda>_. None :: 'a queue_elem option)"
        by (auto simp: pool_ok_def empty_freelist_def intro: exI [of _ "[]"])
      from new(1) obtain h3 c where "freelist_new_elements queue_malloc (Some queue_internal_freelist_init_function)
          (unat (n + 1)) empty_freelist (h3, (\<lambda>_. None) :: addr \<Rightarrow> 'a queue_elem option) = Some (c, fs, h2, m2)"
        by (auto simp: freelist_new_def queue_malloc_def split: prod.splits option.splits if_splits)
      from pool_new_elements [OF this p] n n1(2) show ?thesis by (simp add: empty_freelist_def)
    qed
    then obtain zs where zs: "chain (fl_elems fs) (fl_top fs) (fl_topc fs) zs" "dom (fl_elems fs) \<subseteq> fst ` set zs"
        "\<forall>c \<in> snd ` set zs. c \<le> fl_aba fs" and aba: "unat (fl_aba fs) \<le> unat n + 1"
        and none: "\<forall>a x. m2 a = Some x \<longrightarrow> qe_next x = None" by (auto simp: pool_ok_def n1(2))
    have as: "map fst zs = a # xs" using chain_path [OF zs(1), of "a # xs"] new(2) unfolding free_list_def by metis
    then obtain c ys where ys: "zs = (a, c) # ys" "map fst ys = xs" by (cases zs) auto
    let ?fs = "fs\<lparr>fl_top := fe_next e, fl_topc := fe_ctr e\<rparr>"
    let ?q = "\<lparr>lq_enq = Some k, lq_enqc = 0, lq_deq = Some k, lq_deqc = 0, lq_aba = 0, lq_fs = ?fs,
      lq_elems = m2(k \<mapsto> y\<lparr>qe_next := None, qe_ctr := g + 1 + 1, qe_fe := a, qe_data := None\<rparr>)\<rparr>"
    have q: "q = ?q" using new(10) by simp
    have dat: "fl_data ?fs = fl_data fs" by (auto simp: fl_data_def)
    have k: "fl_data fs a = Some k" using new(6,7) by (simp add: fl_data_def)
    have fe: "q_fe ?q k = a" by (simp add: q_fe_def)
    have nx: "nxt ?q b = None" for b using none by (auto simp: nxt_def split: Option.bind_splits)
    have "fl_inv \<lparr>lst = ?fs, pcs = \<lambda>_. Idle, held = {a}\<rparr> ys"
    proof (rule fl_invI)
      show "chain (fl_elems ?fs) (fl_top ?fs) (fl_topc ?fs) ys" using zs(1) ys(1) new(6) by auto
      show "distinct (map fst ys)" "fst ` set ys \<inter> {a} = {}" using new(2) ys(2) by (force simp: free_list_def)+
      show "fl_elems ?fs b \<noteq> None" if "b \<in> {a}" for b using that new(6) by simp
      show "c \<le> fl_aba ?fs" if "c \<in> snd ` set ys" for c using that zs(3) ys(1) by auto
    qed simp_all
    moreover have "queue_shape ?q k []" using nx unfolding queue_shape_def by simp
    moreover have "paired ?q" unfolding paired_def
    proof (intro conjI allI impI)
      have mem: "b \<in> set (a # xs)" if "fl_elems fs b \<noteq> None" for b
        using that zs(2) unfolding as [symmetric] by auto
      have mem': "b \<in> set (a # xs)" if "fl_data fs b = Some j" for b j
        using that by (intro mem) (auto simp: fl_data_def)
      show "b = c" if "fl_data (lq_fs ?q) b = Some j" "fl_data (lq_fs ?q) c = Some j" for b c j
        using that mem' made_inj [OF new(4)] by (simp add: dat inj_on_def) metis
      show "live ?q j" if "fl_data (lq_fs ?q) b = Some j" for b j
        using made_elem [OF new(4,5) mem', of b] that by (simp add: dat live_def)
      show "fl_data (lq_fs ?q) b \<noteq> None" if "fl_elems (lq_fs ?q) b \<noteq> None" for b
        using made_elem [OF new(4,5) mem, of b] that by (auto simp: dat)
    qed
    moreover have "owned ?q (\<lambda>_. QIdle) {a} {k}" using k fe by (intro ownedI) (simp_all add: dat)
    ultimately have "qt_inv wr ?q (\<lambda>_. QIdle) (\<lambda>_. Idle) {a} k [] (\<lambda>_. True)" unfolding qt_inv_def by auto
    then show ?thesis using fe aba unfolding q by (auto simp: qs_inv_def qs_used_def qt_of_def)
  qed simp
qed

subsection \<open>Properties of the queue\<close>

lemma one_writer_inv:
  assumes "queue_new g n h = Some (1, Some q, h')" "qt_run (\<lambda>t. t = w) (qt_of q) es s" "length es + unat n + 1 < 2 ^ 64"
  shows "\<exists>us sn. queue_run es ([], \<lambda>_. True) = Some (us, sn) \<and> qs_inv w s (us, sn)"
proof -
  have "unat n + 1 < 2 ^ 64" using assms(3) by simp
  from new_inv [OF assms(1) this, of w] qt_run_inv [OF assms(2), of "([], \<lambda>_. True)" "unat n + 1"] assms(3)
  show ?thesis by fastforce
qed

text \<open>A state in which a thread cannot go on has it idle: no access follows a pointer that leads nowhere.\<close>

lemma inv_not_stuck:
  assumes inv: "qt_inv wr q P F H d as sn" and stuck: "qt_exec t \<lparr>qt_q = q, qt_pcs = P, qt_fpcs = F, qt_held = H\<rparr> = None"
  shows "P t = QIdle"
proof -
  note I = qt_invD [OF inv]
  note O = ownedD [OF I(4)]
  from I(1) obtain ys where fl: "fl_inv \<lparr>lst = lq_fs q, pcs = F, held = H\<rparr> ys" by blast
  note fl = fl_invD(5) [OF fl, of t] fl_invD(11) [OF fl, of t]
  have access: "fl_access t \<lparr>qt_q = q, qt_pcs = P, qt_fpcs = F, qt_held = H\<rparr> \<noteq> None"
    if "F t \<noteq> Idle" "F t \<noteq> PushDone" "\<forall>r. F t \<noteq> PopDone r"
    using that fl by (cases "(F t, lq_fs q)" rule: fl_exec.cases)
      (auto simp: fl_access_def lfds_dcas_def set_link_def Let_def split: if_splits)
  have node: "lq_elems q n \<noteq> None" if n: "qnode (P t) = Some n" for n
  proof -
    from O(3) [OF n] obtain fe where "fl_data (lq_fs q) fe = Some n" by blast
    with I(3) show ?thesis by (auto simp: paired_def live_def)
  qed
  note stuck = stuck [unfolded qt_exec_def Let_def qt_pc_to_def]
  show ?thesis
  proof (cases "P t")
    case (QPop u)
    with stuck access I(5) [of t] show ?thesis by (cases "F t") simp_all
  next
    case QPush
    with stuck access I(5) [of t] show ?thesis by (cases "F t") simp_all
  next
    case (QInit0 fe u)
    with O(2) [of t fe] have "fe \<in> H" by simp
    moreover from I(1) obtain zs where "fl_inv \<lparr>lst = lq_fs q, pcs = F, held = H\<rparr> zs" by blast
    ultimately have "fl_elems (lq_fs q) fe \<noteq> None" using fl_invD(4) by blast
    moreover from this I(3) have "fl_data (lq_fs q) fe \<noteq> None" by (auto simp: paired_def)
    ultimately show ?thesis using stuck QInit0
      by (auto simp: freelist_get_user_data_def fl_data_def split: Option.bind_splits)
  next
    case (QOp op)
    from I(7) [of t] QOp have k: "qknows q (set (d # as)) (sn t) op" by simp
    note L = shapeD(4) [OF I(2)]
    show ?thesis
    proof (cases op)
      case (EnqLink n e ec nc)
      with k L have "live q e" by auto
      with stuck QOp EnqLink show ?thesis by (auto simp: live_def upd_elem_def split: prod.splits)
    qed (use stuck QOp k node in \<open>auto simp: live_def alive_def followed_def first_of_def split: prod.splits option.splits if_splits\<close>)
  qed (use stuck node in \<open>auto simp: upd_elem_def\<close>)
qed

text \<open>C3: Refinement. From a queue that was made, if only one thread enqueues and any number dequeue,
  then however they interleave, the operations that took effect are those of a queue, in that order
  and with these results; one that finds nothing has seen the queue empty after it began; and the
  elements that are linked carry exactly what is queued.\<close>

theorem queue_one_writer:
  assumes "queue_new g n h = Some (1, Some q, h')" "qt_run (\<lambda>t. t = w) (qt_of q) es s" "length es + unat n + 1 < 2 ^ 64"
  shows "\<exists>us sn d as. queue_run es ([], \<lambda>_. True) = Some (us, sn) \<and> lq_deq (qt_q s) = Some d
    \<and> q_chain (lq_elems (qt_q s)) d as \<and> us = map (q_data (qt_q s)) as"
proof -
  from one_writer_inv [OF assms] obtain us sn d as where "queue_run es ([], \<lambda>_. True) = Some (us, sn)"
      "qt_inv w (qt_q s) (qt_pcs s) (qt_fpcs s) (qt_held s) d as sn" "us = map (q_data (qt_q s)) as"
    by (auto simp: qs_inv_def)
  with shapeD(1,2) [OF qt_invD(2)] show ?thesis by metis
qed

text \<open>A run in which a dequeuer finds the element that an enqueuer has linked and not yet made the tail.\<close>

definition ex_one_cmds :: "nat qt_cmd list" where
  "ex_one_cmds = [CDeq 1, CAcc 1 2, CEnq 0 (Some 1), CAcc 0 20, CAcc 1 17, CDeq 2, CAcc 2 8]"

lemma ex_one_drive:
  "\<exists>es s. qt_drive ex_one_cmds (qt_of ex_lqueue) = Some (es, s) \<and> length es < 100 \<and> QDeq (Some 1) \<in> set es \<and> QEmpty 2 \<in> set es
     \<and> qt_pcs s 0 \<noteq> QIdle"
  by (simp add: ex_one_cmds_def qt_of_def ex_lqueue_def ex_qe_def numeral_eq_Suc Let_def qt_eval)

lemma ex_one_run:
  "\<exists>es s. qt_run (\<lambda>t. t = 0) (qt_of ex_lqueue) es s \<and> length es + unat (3 :: u64) + 1 < 2 ^ 64
     \<and> QDeq (Some 1) \<in> set es \<and> QEmpty 2 \<in> set es \<and> qt_pcs s 0 \<noteq> QIdle"
proof -
  obtain es s where d: "qt_drive ex_one_cmds (qt_of ex_lqueue) = Some (es, s)" "length es < 100" "QDeq (Some 1) \<in> set es"
      "QEmpty 2 \<in> set es" "qt_pcs s 0 \<noteq> QIdle" using ex_one_drive by blast
  have "\<forall>c \<in> set ex_one_cmds. pred_option (\<lambda>t. t = 0) (qt_writer c)" by (simp add: ex_one_cmds_def)
  from qt_drive_run [OF d(1) this qr_init] have "qt_run (\<lambda>t. t = 0) (qt_of ex_lqueue) es s" by simp
  moreover have "length es + unat (3 :: u64) + 1 < 2 ^ 64" using d(2) by simp
  ultimately show ?thesis using d(3-5) by blast
qed

theorem queue_one_writer_witness:
  "\<exists>es s us sn d as. qt_run (\<lambda>t. t = 0) (qt_of ex_lqueue) es s \<and> QDeq (Some 1) \<in> set es \<and> QEmpty 2 \<in> set es
     \<and> queue_run es ([], \<lambda>_. True) = Some (us, sn) \<and> q_chain (lq_elems (qt_q s)) d as \<and> us = map (q_data (qt_q s)) as"
proof -
  obtain es s where r: "qt_run (\<lambda>t. t = 0) (qt_of ex_lqueue) es s" "length es + unat (3 :: u64) + 1 < 2 ^ 64"
      "QDeq (Some 1) \<in> set es" "QEmpty 2 \<in> set es" using ex_one_run by blast
  from queue_one_writer [OF ex_queue_new r(1,2)] r(1,3,4) show ?thesis by blast
qed

text \<open>C4: Safety. In such a run no thread is ever about to follow a NULL pointer, or one to an element
  that does not exist: one that is in the middle of an operation can always make its next access.\<close>

theorem queue_no_wild_access:
  assumes "queue_new g n h = Some (1, Some q, h')" "qt_run (\<lambda>t. t = w) (qt_of q) es s" "length es + unat n + 1 < 2 ^ 64"
    and "qt_pcs s t \<noteq> QIdle"
  shows "\<exists>ev s'. qt_exec t s = Some (ev, s')"
proof -
  from one_writer_inv [OF assms(1-3)] obtain d as sn where
    "qt_inv w (qt_q s) (qt_pcs s) (qt_fpcs s) (qt_held s) d as sn" by (auto simp: qs_inv_def)
  moreover have "\<lparr>qt_q = qt_q s, qt_pcs = qt_pcs s, qt_fpcs = qt_fpcs s, qt_held = qt_held s\<rparr> = s" by (cases s) simp
  ultimately have "qt_exec t s \<noteq> None" using inv_not_stuck assms(4) by metis
  then show ?thesis by auto
qed

theorem queue_no_wild_access_witness:
  "\<exists>es s ev s'. qt_run (\<lambda>t. t = 0) (qt_of ex_lqueue) es s \<and> QDeq (Some 1) \<in> set es \<and> qt_exec 0 s = Some (ev, s')"
proof -
  obtain es s where r: "qt_run (\<lambda>t. t = 0) (qt_of ex_lqueue) es s" "length es + unat (3 :: u64) + 1 < 2 ^ 64"
      "QDeq (Some 1) \<in> set es" "qt_pcs s 0 \<noteq> QIdle" using ex_one_run by blast
  from queue_no_wild_access [OF ex_queue_new r(1,2,4)] r(1,3) show ?thesis by blast
qed

text \<open>C5: More than one writer. When several threads enqueue, the queue is not one: there is a short run
  from a new queue in which what took effect is not what a queue does, because a link was read in two
  parts and the element it is in was given back and taken again in between.\<close>

theorem queue_many_writers:
  "\<exists>n h (q :: nat lqueue) h' es s. queue_new 0 n h = Some (1, Some q, h') \<and> qt_run (\<lambda>t. t < 3) (qt_of q) es s
     \<and> length es + unat n + 1 < 2 ^ 64 \<and> queue_run es ([], \<lambda>_. True) = None"
proof -
  obtain es s where d: "qt_drive ex_two_cmds (qt_of ex_lqueue) = Some (es, s)" "length es < 200" "queue_run es ([], \<lambda>_. True) = None"
    using ex_two_drive by blast
  have "\<forall>c \<in> set ex_two_cmds. pred_option (\<lambda>t. t < 3) (qt_writer c)" by (simp add: ex_two_cmds_def)
  from qt_drive_run [OF d(1) this qr_init] have "qt_run (\<lambda>t. t < 3) (qt_of ex_lqueue) es s" by simp
  moreover have "length es + unat (3 :: u64) + 1 < 2 ^ 64" using d(2) by simp
  ultimately show ?thesis using ex_queue_new d(3) by blast
qed

end
