(* ===== verification/UtHash.thy ===== *)
theory UtHash
  imports Table
begin

text \<open>
  The hash table of \<open>src/src/uthash.h\<close>, pointer by pointer: an element carries a handle
  with the links of two doubly linked lists, the order of insertion and the chain of its
  bucket; the table itself is reached from the handle of the first element. The
  handle sits at the same offset \<open>hho\<close> in every element of a table, so the address of an
  element stands for the address of its handle. A key is given by the bytes it points
  to, which nobody changes while the element is in the table. The array of buckets
  belongs to its table only and is kept inside it. \<open>M\<close> is \<open>malloc\<close>, for one table; where it
  fails, \<open>uthash_fatal\<close> ends the process, which is a call that does not return.
  The bloom filter, the debug checks and the other hash functions are not compiled in.
\<close>

subsection \<open>Structures\<close>

record UT_hash_handle =
  hh_tbl :: addr
  hh_prv :: "addr option"
  hh_nxt :: "addr option"
  hh_prev :: "addr option"
  hh_next :: "addr option"
  hh_key :: string
  hh_keylen :: u32
  hh_hashv :: u32

record UT_hash_bucket =
  hh_head :: "addr option"
  bkt_count :: u32
  expand_mult :: u32

record UT_hash_table =
  tbl_buckets :: "UT_hash_bucket list"
  num_buckets :: u32
  log2_num_buckets :: u32
  num_items :: u32
  tbl_tail :: addr
  ideal_chain_maxlen :: u32
  nonideal_items :: u32
  ineff_expands :: u32
  noexpand :: u32

record ut_heap =
  hhs :: "addr \<rightharpoonup> UT_hash_handle"
  tbls :: "addr \<rightharpoonup> UT_hash_table"

definition HASH_INITIAL_NUM_BUCKETS :: u32 where "HASH_INITIAL_NUM_BUCKETS = 32"
definition HASH_INITIAL_NUM_BUCKETS_LOG2 :: u32 where "HASH_INITIAL_NUM_BUCKETS_LOG2 = 5"
definition HASH_BKT_CAPACITY_THRESH :: u32 where "HASH_BKT_CAPACITY_THRESH = 10"

definition upd_hh :: "addr \<Rightarrow> (UT_hash_handle \<Rightarrow> UT_hash_handle) \<Rightarrow> ut_heap \<Rightarrow> ut_heap option" where
  "upd_hh a f s = do { h \<leftarrow> hhs s a; Some (s\<lparr>hhs := (hhs s)(a \<mapsto> f h)\<rparr>) }"

definition upd_tbl :: "addr \<Rightarrow> (UT_hash_table \<Rightarrow> UT_hash_table) \<Rightarrow> ut_heap \<Rightarrow> ut_heap option" where
  "upd_tbl t f s = do { h \<leftarrow> tbls s t; Some (s\<lparr>tbls := (tbls s)(t \<mapsto> f h)\<rparr>) }"

text \<open>\<open>(head)->hh.tbl\<close>.\<close>

definition tbl_of :: "ut_heap \<Rightarrow> addr option \<Rightarrow> addr option" where
  "tbl_of s head = do { a \<leftarrow> head; h \<leftarrow> hhs s a; Some (hh_tbl h) }"

subsection \<open>Jenkins' hash function\<close>


unbundle bit_operations_syntax

definition HASH_JEN_MIX :: "u32 \<times> u32 \<times> u32 \<Rightarrow> u32 \<times> u32 \<times> u32" where
  "HASH_JEN_MIX = (\<lambda>(a, b, c).
     let a = a - b; a = a - c; a = a XOR drop_bit 13 c;
         b = b - c; b = b - a; b = b XOR push_bit 8 a;
         c = c - a; c = c - b; c = c XOR drop_bit 13 b;
         a = a - b; a = a - c; a = a XOR drop_bit 12 c;
         b = b - c; b = b - a; b = b XOR push_bit 16 a;
         c = c - a; c = c - b; c = c XOR drop_bit 5 b;
         a = a - b; a = a - c; a = a XOR drop_bit 3 c;
         b = b - c; b = b - a; b = b XOR push_bit 10 a;
         c = c - a; c = c - b; c = c XOR drop_bit 15 b
     in (a, b, c))"

text \<open>\<open>key ! n\<close> as an \<open>unsigned\<close>, moved into the byte \<open>k\<close>.\<close>

definition key_byte :: "string \<Rightarrow> nat \<Rightarrow> nat \<Rightarrow> u32" where
  "key_byte key n k = push_bit (8 * k) (of_char (key ! n))"

definition key_word :: "string \<Rightarrow> nat \<Rightarrow> u32" where
  "key_word key n = key_byte key n 0 + key_byte key (n + 1) 1 + key_byte key (n + 2) 2 + key_byte key (n + 3) 3"

fun HASH_JEN_blocks :: "u32 \<times> u32 \<times> u32 \<Rightarrow> string \<Rightarrow> (u32 \<times> u32 \<times> u32) \<times> string" where
  "HASH_JEN_blocks (i, j, hashv) key =
     (if length key < 12 then ((i, j, hashv), key)
      else HASH_JEN_blocks
             (HASH_JEN_MIX (i + key_word key 0, j + key_word key 4, hashv + key_word key 8)) (drop 12 key))"

declare HASH_JEN_blocks.simps [simp del]

text \<open>The cases of the switch fall through.\<close>

definition HASH_JEN_tail :: "u32 \<times> u32 \<times> u32 \<Rightarrow> string \<Rightarrow> u32 \<times> u32 \<times> u32" where
  "HASH_JEN_tail = (\<lambda>(i, j, hashv) key.
     let k = length key; add = (\<lambda>x n b. if k > n then x + key_byte key n b else x);
         hashv = add hashv 10 3; hashv = add hashv 9 2; hashv = add hashv 8 1;
         j = add j 7 3; j = add j 6 2; j = add j 5 1; j = add j 4 0;
         i = add i 3 3; i = add i 2 2; i = add i 1 1; i = add i 0 0
     in (i, j, hashv))"

definition HASH_JEN :: "string \<Rightarrow> u32" where
  "HASH_JEN key =
     (let ((i, j, hashv), rest) = HASH_JEN_blocks (0x9e3779b9, 0x9e3779b9, 0xfeedbeef) key;
          hashv = hashv + of_nat (length key);
          (i, j, hashv) = HASH_JEN_MIX (HASH_JEN_tail (i, j, hashv) rest)
      in hashv)"

definition HASH_TO_BKT :: "u32 \<Rightarrow> u32 \<Rightarrow> nat" where
  "HASH_TO_BKT hashv num_bkts = unat (hashv AND (num_bkts - 1))"

subsection \<open>Finding\<close>

text \<open>Walking a chain ends only if the chain does.\<close>

partial_function (option) HASH_FIND_IN_BKT :: "ut_heap \<Rightarrow> addr option \<Rightarrow> string \<Rightarrow> addr option option" where
  "HASH_FIND_IN_BKT s out key =
     (case out of
        None \<Rightarrow> Some None
      | Some a \<Rightarrow> do {
          h \<leftarrow> hhs s a;
          if unat (hh_keylen h) = length key \<and> hh_key h = key then Some (Some a)
          else HASH_FIND_IN_BKT s (hh_next h) key })"

definition HASH_FIND :: "ut_heap \<Rightarrow> addr option \<Rightarrow> string \<Rightarrow> addr option option" where
  "HASH_FIND s head key =
     (case head of
        None \<Rightarrow> Some None
      | Some _ \<Rightarrow> do {
          t \<leftarrow> tbl_of s head;
          tb \<leftarrow> tbls s t;
          let i = HASH_TO_BKT (HASH_JEN key) (num_buckets tb);
          guard (i < length (tbl_buckets tb));
          HASH_FIND_IN_BKT s (hh_head (tbl_buckets tb ! i)) key })"

subsection \<open>Adding\<close>

definition HASH_MAKE_TABLE :: "(ut_heap \<Rightarrow> addr option) \<Rightarrow> addr \<Rightarrow> ut_heap \<Rightarrow> ut_heap option" where
  "HASH_MAKE_TABLE M head s = do {
     t \<leftarrow> M s;
     s \<leftarrow> upd_hh head (\<lambda>h. h\<lparr>hh_tbl := t\<rparr>) s;
     _ \<leftarrow> M s;
     Some (s\<lparr>tbls := (tbls s)(t \<mapsto>
       \<lparr>tbl_buckets = replicate (unat HASH_INITIAL_NUM_BUCKETS) \<lparr>hh_head = None, bkt_count = 0, expand_mult = 0\<rparr>,
        num_buckets = HASH_INITIAL_NUM_BUCKETS, log2_num_buckets = HASH_INITIAL_NUM_BUCKETS_LOG2,
        num_items = 0, tbl_tail = head, ideal_chain_maxlen = 0, nonideal_items = 0,
        ineff_expands = 0, noexpand = 0\<rparr>)\<rparr>) }"

text \<open>\<open>hh\<close> is put in front of a chain: the links that both the insertion and the expansion set.\<close>

definition chain_push :: "addr \<Rightarrow> addr option \<Rightarrow> ut_heap \<Rightarrow> ut_heap option" where
  "chain_push a first s = do {
     s \<leftarrow> upd_hh a (\<lambda>h. h\<lparr>hh_next := first, hh_prev := None\<rparr>) s;
     case first of None \<Rightarrow> Some s | Some x \<Rightarrow> upd_hh x (\<lambda>h. h\<lparr>hh_prev := Some a\<rparr>) s }"

text \<open>One handle of an old bucket goes to the bucket of the new array it belongs to.\<close>

definition expand_item ::
    "u32 \<Rightarrow> u32 \<Rightarrow> addr \<Rightarrow> ut_heap \<times> UT_hash_bucket list \<times> u32
     \<Rightarrow> (ut_heap \<times> UT_hash_bucket list \<times> u32) option" where
  "expand_item nb ideal thh = (\<lambda>(s, bs, nonideal). do {
     h \<leftarrow> hhs s thh;
     let i = HASH_TO_BKT (hh_hashv h) nb;
     guard (i < length bs);
     let b = (bs ! i)\<lparr>bkt_count := bkt_count (bs ! i) + 1\<rparr>;
     (b, nonideal) \<leftarrow>
       (if bkt_count b > ideal
        then do { guard (ideal \<noteq> 0);
                  Some (b\<lparr>expand_mult := bkt_count b div ideal\<rparr>, nonideal + 1) }
        else Some (b, nonideal));
     s \<leftarrow> chain_push thh (hh_head b) s;
     Some (s, bs[i := b\<lparr>hh_head := Some thh\<rparr>], nonideal) })"

partial_function (option) expand_chain ::
    "u32 \<Rightarrow> u32 \<Rightarrow> addr option \<Rightarrow> ut_heap \<times> UT_hash_bucket list \<times> u32
     \<Rightarrow> (ut_heap \<times> UT_hash_bucket list \<times> u32) option" where
  "expand_chain nb ideal thh st =
     (case thh of
        None \<Rightarrow> Some st
      | Some a \<Rightarrow> do {
          h \<leftarrow> hhs (fst st) a;
          let nxt = hh_next h;
          st \<leftarrow> expand_item nb ideal a st;
          expand_chain nb ideal nxt st })"

fun expand_all ::
    "u32 \<Rightarrow> u32 \<Rightarrow> UT_hash_bucket list \<Rightarrow> ut_heap \<times> UT_hash_bucket list \<times> u32
     \<Rightarrow> (ut_heap \<times> UT_hash_bucket list \<times> u32) option" where
  "expand_all nb ideal [] st = Some st"
| "expand_all nb ideal (b # bs) st = do {
     st \<leftarrow> expand_chain nb ideal (hh_head b) st;
     expand_all nb ideal bs st }"

text \<open>The number of buckets doubles at width 32.\<close>

definition HASH_EXPAND_BUCKETS :: "(ut_heap \<Rightarrow> addr option) \<Rightarrow> addr \<Rightarrow> ut_heap \<Rightarrow> ut_heap option" where
  "HASH_EXPAND_BUCKETS M t s = do {
     tb \<leftarrow> tbls s t;
     _ \<leftarrow> M s;
     let nb = 2 * num_buckets tb;
     guard (unat (log2_num_buckets tb + 1) < 32);
     let ideal = drop_bit (unat (log2_num_buckets tb + 1)) (num_items tb)
                 + (if num_items tb AND (nb - 1) \<noteq> 0 then 1 else 0);
     guard (unat (num_buckets tb) \<le> length (tbl_buckets tb));
     (s, bs, nonideal) \<leftarrow>
       expand_all nb ideal (take (unat (num_buckets tb)) (tbl_buckets tb))
         (s, replicate (unat nb) \<lparr>hh_head = None, bkt_count = 0, expand_mult = 0\<rparr>, 0);
     let ineff = (if nonideal > drop_bit 1 (num_items tb) then ineff_expands tb + 1 else 0);
     upd_tbl t (\<lambda>tb. tb\<lparr>tbl_buckets := bs, num_buckets := nb,
         log2_num_buckets := log2_num_buckets tb + 1, ideal_chain_maxlen := ideal,
         nonideal_items := nonideal, ineff_expands := ineff,
         noexpand := (if ineff > 1 then 1 else noexpand tb)\<rparr>) s }"

definition HASH_ADD_TO_BKT :: "(ut_heap \<Rightarrow> addr option) \<Rightarrow> addr \<Rightarrow> nat \<Rightarrow> addr \<Rightarrow> ut_heap \<Rightarrow> ut_heap option" where
  "HASH_ADD_TO_BKT M t i addhh s = do {
     tb \<leftarrow> tbls s t;
     guard (i < length (tbl_buckets tb));
     let b = (tbl_buckets tb ! i)\<lparr>bkt_count := bkt_count (tbl_buckets tb ! i) + 1\<rparr>;
     s \<leftarrow> chain_push addhh (hh_head b) s;
     let b = b\<lparr>hh_head := Some addhh\<rparr>;
     s \<leftarrow> upd_tbl t (\<lambda>tb. tb\<lparr>tbl_buckets := (tbl_buckets tb)[i := b]\<rparr>) s;
     h \<leftarrow> hhs s addhh;
     tb \<leftarrow> tbls s (hh_tbl h);
     if bkt_count b \<ge> (expand_mult b + 1) * HASH_BKT_CAPACITY_THRESH \<and> noexpand tb \<noteq> 1
     then HASH_EXPAND_BUCKETS M (hh_tbl h) s else Some s }"

definition HASH_ADD_KEYPTR ::
    "(ut_heap \<Rightarrow> addr option) \<Rightarrow> addr option \<Rightarrow> string \<Rightarrow> addr \<Rightarrow> ut_heap \<Rightarrow> (ut_heap \<times> addr option) option" where
  "HASH_ADD_KEYPTR M head key a s = do {
     s \<leftarrow> upd_hh a (\<lambda>h. h\<lparr>hh_nxt := None, hh_key := key, hh_keylen := of_nat (length key)\<rparr>) s;
     (s, head) \<leftarrow>
       (case head of
          None \<Rightarrow> do {
            s \<leftarrow> upd_hh a (\<lambda>h. h\<lparr>hh_prv := None\<rparr>) s;
            s \<leftarrow> HASH_MAKE_TABLE M a s;
            Some (s, Some a) }
        | Some _ \<Rightarrow> do {
            t \<leftarrow> tbl_of s head;
            tb \<leftarrow> tbls s t;
            s \<leftarrow> upd_hh (tbl_tail tb) (\<lambda>h. h\<lparr>hh_nxt := Some a\<rparr>) s;
            s \<leftarrow> upd_hh a (\<lambda>h. h\<lparr>hh_prv := Some (tbl_tail tb)\<rparr>) s;
            s \<leftarrow> upd_tbl t (\<lambda>tb. tb\<lparr>tbl_tail := a\<rparr>) s;
            Some (s, head) });
     t \<leftarrow> tbl_of s head;
     s \<leftarrow> upd_tbl t (\<lambda>tb. tb\<lparr>num_items := num_items tb + 1\<rparr>) s;
     s \<leftarrow> upd_hh a (\<lambda>h. h\<lparr>hh_tbl := t\<rparr>) s;
     tb \<leftarrow> tbls s t;
     let hashv = HASH_JEN key;
     s \<leftarrow> upd_hh a (\<lambda>h. h\<lparr>hh_hashv := hashv\<rparr>) s;
     s \<leftarrow> HASH_ADD_TO_BKT M t (HASH_TO_BKT hashv (num_buckets tb)) a s;
     Some (s, head) }"

subsection \<open>Deleting, counting, iterating\<close>

definition HASH_DEL_IN_BKT :: "addr \<Rightarrow> nat \<Rightarrow> addr \<Rightarrow> ut_heap \<Rightarrow> ut_heap option" where
  "HASH_DEL_IN_BKT t i del s = do {
     tb \<leftarrow> tbls s t;
     guard (i < length (tbl_buckets tb));
     d \<leftarrow> hhs s del;
     let b = tbl_buckets tb ! i;
     s \<leftarrow> upd_tbl t (\<lambda>tb. tb\<lparr>tbl_buckets := (tbl_buckets tb)[i := b\<lparr>bkt_count := bkt_count b - 1,
             hh_head := if hh_head b = Some del then hh_next d else hh_head b\<rparr>]\<rparr>) s;
     s \<leftarrow> (case hh_prev d of None \<Rightarrow> Some s | Some p \<Rightarrow> upd_hh p (\<lambda>h. h\<lparr>hh_next := hh_next d\<rparr>) s);
     d \<leftarrow> hhs s del;
     case hh_next d of None \<Rightarrow> Some s | Some n \<Rightarrow> upd_hh n (\<lambda>h. h\<lparr>hh_prev := hh_prev d\<rparr>) s }"

definition HASH_DELETE :: "addr option \<Rightarrow> addr \<Rightarrow> ut_heap \<Rightarrow> (ut_heap \<times> addr option) option" where
  "HASH_DELETE head del s = do {
     d \<leftarrow> hhs s del;
     if hh_prv d = None \<and> hh_nxt d = None
     then do {
       t \<leftarrow> tbl_of s head;
       _ \<leftarrow> tbls s t;
       Some (s\<lparr>tbls := (tbls s)(t := None)\<rparr>, None) }
     else do {
       t \<leftarrow> tbl_of s head;
       tb \<leftarrow> tbls s t;
       s \<leftarrow> (if del = tbl_tail tb
             then do { p \<leftarrow> hh_prv d; upd_tbl t (\<lambda>tb. tb\<lparr>tbl_tail := p\<rparr>) s }
             else Some s);
       (s, head) \<leftarrow>
         (case hh_prv d of
            Some p \<Rightarrow> do { s \<leftarrow> upd_hh p (\<lambda>h. h\<lparr>hh_nxt := hh_nxt d\<rparr>) s; Some (s, head) }
          | None \<Rightarrow> Some (s, hh_nxt d));
       d \<leftarrow> hhs s del;
       s \<leftarrow> (case hh_nxt d of
              Some n \<Rightarrow> upd_hh n (\<lambda>h. h\<lparr>hh_prv := hh_prv d\<rparr>) s
            | None \<Rightarrow> Some s);
       t \<leftarrow> tbl_of s head;
       tb \<leftarrow> tbls s t;
       s \<leftarrow> HASH_DEL_IN_BKT t (HASH_TO_BKT (hh_hashv d) (num_buckets tb)) del s;
       s \<leftarrow> upd_tbl t (\<lambda>tb. tb\<lparr>num_items := num_items tb - 1\<rparr>) s;
       Some (s, head) } }"

definition HASH_CNT :: "ut_heap \<Rightarrow> addr option \<Rightarrow> u32 option" where
  "HASH_CNT s head =
     (case head of
        None \<Rightarrow> Some 0
      | Some _ \<Rightarrow> do { t \<leftarrow> tbl_of s head; tb \<leftarrow> tbls s t; Some (num_items tb) })"

text \<open>The elements \<open>HASH_ITER\<close> visits, when its body leaves the table alone.\<close>

partial_function (option) HASH_ITER :: "ut_heap \<Rightarrow> addr option \<Rightarrow> addr list option" where
  "HASH_ITER s el =
     (case el of
        None \<Rightarrow> Some []
      | Some a \<Rightarrow> do { h \<leftarrow> hhs s a; as \<leftarrow> HASH_ITER s (hh_nxt h); Some (a # as) })"

end
