(* ===== verification/Dll.thy ===== *)
theory Dll
  imports Prelude
begin

text \<open>
  Doubly linked lists in a store, as the two orders of \<open>src/src/uthash.h\<close> use them: \<open>N\<close>
  and \<open>P\<close> are the fields with the successor and the predecessor of every node (\<open>None\<close>
  where there is no node at that address, \<open>Some None\<close> for a NULL pointer). The lemmas say
  what the usual patch-ups do to the list that the fields represent.
\<close>

type_synonym link = "addr \<Rightarrow> addr option option"

definition hdo :: "'a list \<Rightarrow> 'a option \<Rightarrow> 'a option" where
  "hdo xs q = (case xs of [] \<Rightarrow> q | x # _ \<Rightarrow> Some x)"

definition lasto :: "'a list \<Rightarrow> 'a option \<Rightarrow> 'a option" where
  "lasto xs p = (if xs = [] then p else Some (last xs))"

lemma hdo_simps [simp]: "hdo [] q = q" "hdo (x # xs) q = Some x"
  and lasto_simps [simp]: "lasto [] p = p" "lasto (x # xs) p = lasto xs (Some x)"
  by (simp_all add: hdo_def lasto_def)

lemma hdo_append [simp]: "hdo (xs @ ys) q = hdo xs (hdo ys q)"
  and lasto_append [simp]: "lasto (xs @ ys) p = lasto ys (lasto xs p)"
  by (cases xs; simp) (simp add: lasto_def)

lemma hdo_None_iff: "(hdo xs None = None) = (xs = [])"
  by (cases xs) auto

lemma hdo_Some_iff: "(hdo xs None = Some a) = (\<exists>ys. xs = a # ys)"
  by (cases xs) auto

lemma lasto_None_iff: "(lasto xs None = None) = (xs = [])"
  by (simp add: lasto_def)

lemma lasto_Some_iff: "(lasto xs None = Some a) = (\<exists>ys. xs = ys @ [a])"
  by (cases xs rule: rev_cases) auto

lemma lasto_in: "lasto xs None = Some x \<Longrightarrow> x \<in> set xs"
  and hdo_in: "hdo xs None = Some x \<Longrightarrow> x \<in> set xs"
  by (auto simp: lasto_Some_iff hdo_Some_iff)

fun dll :: "link \<Rightarrow> link \<Rightarrow> addr option \<Rightarrow> addr list \<Rightarrow> addr option \<Rightarrow> bool" where
  "dll N P p [] q \<longleftrightarrow> True"
| "dll N P p (x # xs) q \<longleftrightarrow> P x = Some p \<and> N x = Some (hdo xs q) \<and> dll N P (Some x) xs q"

lemma dll_append:
  "dll N P p (xs @ ys) q \<longleftrightarrow> dll N P p xs (hdo ys q) \<and> dll N P (lasto xs p) ys q"
  by (induction xs arbitrary: p) auto

lemma dll_cong:
  "(\<And>x. x \<in> set xs \<Longrightarrow> N x = N' x) \<Longrightarrow> (\<And>x. x \<in> set xs \<Longrightarrow> P x = P' x)
   \<Longrightarrow> dll N P p xs q = dll N' P' p xs q"
  by (induction xs arbitrary: p) auto

lemma dll_split:
  "dll N P p (xs @ x # ys) q \<longleftrightarrow>
   dll N P p xs (Some x) \<and> P x = Some (lasto xs p) \<and> N x = Some (hdo ys q) \<and> dll N P (Some x) ys q"
  by (simp add: dll_append)

text \<open>Retargeting the two ends.\<close>

lemma dll_retarget_end:
  assumes "dll N P p xs q" "distinct xs"
    "\<And>x. x \<in> set xs \<Longrightarrow> N' x = (if lasto xs None = Some x then Some q' else N x)"
    "\<And>x. x \<in> set xs \<Longrightarrow> P' x = P x"
  shows "dll N' P' p xs q'"
proof (cases xs rule: rev_cases)
  case (snoc ys y)
  from assms(1) snoc have "dll N P p ys (Some y)" "P y = Some (lasto ys p)" by (simp_all add: dll_append)
  moreover have "dll N' P' p ys (Some y) = dll N P p ys (Some y)"
    by (rule dll_cong) (use assms snoc in auto)
  ultimately show ?thesis using assms(3,4) snoc by (simp add: dll_append)
qed simp

lemma dll_retarget_start:
  assumes "dll N P p xs q" "distinct xs"
    "\<And>x. x \<in> set xs \<Longrightarrow> P' x = (if hdo xs None = Some x then Some p' else P x)"
    "\<And>x. x \<in> set xs \<Longrightarrow> N' x = N x"
  shows "dll N' P' p' xs q"
proof (cases xs)
  case (Cons y ys)
  have "dll N' P' (Some y) ys q = dll N P (Some y) ys q"
    by (rule dll_cong) (use assms Cons in auto)
  with assms Cons show ?thesis by simp
qed simp

text \<open>Appending, putting in front, and taking out.\<close>

lemma dll_snoc:
  assumes "dll N P p xs None" "distinct xs" "y \<notin> set xs"
    "\<And>x. x \<in> set xs \<Longrightarrow> N' x = (if lasto xs None = Some x then Some (Some y) else N x)"
    "\<And>x. x \<in> set xs \<Longrightarrow> P' x = P x"
    "N' y = Some None" "P' y = Some (lasto xs p)"
  shows "dll N' P' p (xs @ [y]) None"
  using dll_retarget_end [OF assms(1,2,4,5)] assms(6,7) by (simp add: dll_append)

lemma dll_push:
  assumes "dll N P None xs q" "distinct xs" "y \<notin> set xs"
    "\<And>x. x \<in> set xs \<Longrightarrow> P' x = (if hdo xs None = Some x then Some (Some y) else P x)"
    "\<And>x. x \<in> set xs \<Longrightarrow> N' x = N x"
    "P' y = Some None" "N' y = Some (hdo xs q)"
  shows "dll N' P' None (y # xs) q"
  using dll_retarget_start [OF assms(1,2,4,5)] assms(6,7) by simp

lemma dll_remove:
  assumes "dll N P None (xs @ y # ys) None" "distinct (xs @ y # ys)"
    "\<And>x. x \<in> set (xs @ ys) \<Longrightarrow> N' x = (if lasto xs None = Some x then Some (hdo ys None) else N x)"
    "\<And>x. x \<in> set (xs @ ys) \<Longrightarrow> P' x = (if hdo ys None = Some x then Some (lasto xs None) else P x)"
  shows "dll N' P' None (xs @ ys) None"
proof -
  have "dll N' P' None xs (hdo ys None)"
  proof (rule dll_retarget_end [where N = N and P = P and q = "Some y"])
    show "P' x = P x" if "x \<in> set xs" for x
      using that assms(2,4) by (auto simp: hdo_Some_iff)
  qed (use assms in \<open>auto simp: dll_split\<close>)
  moreover have "dll N' P' (lasto xs None) ys None"
  proof (rule dll_retarget_start [where N = N and P = P and p = "Some y"])
    show "N' x = N x" if "x \<in> set ys" for x
      using that assms(2,3) by (auto simp: lasto_Some_iff)
  qed (use assms in \<open>auto simp: dll_split\<close>)
  ultimately show ?thesis by (simp add: dll_append)
qed

lemma dll_hd: "dll N P p (x # xs) q \<Longrightarrow> P x = Some p"
  by simp

lemma dll_dom: "dll N P p xs q \<Longrightarrow> x \<in> set xs \<Longrightarrow> N x \<noteq> None \<and> P x \<noteq> None"
  by (induction xs arbitrary: p) auto

end
