(* ===== verification/UtHashSpec.thy ===== *)
theory UtHashSpec
  imports UtHash Dll
begin

text \<open>
  The hash table with its pointers implements the association list of theory \<open>Table\<close>: the
  invariant of the representation, and what finding, adding (with the expansion of
  the buckets) and deleting do to the list that is represented.
\<close>

subsection \<open>Links and frames\<close>

definition lnk :: "(UT_hash_handle \<Rightarrow> addr option) \<Rightarrow> ut_heap \<Rightarrow> link" where
  "lnk f s a = map_option f (hhs s a)"

abbreviation app_dll :: "ut_heap \<Rightarrow> addr list \<Rightarrow> bool" where
  "app_dll s es \<equiv> dll (lnk hh_nxt s) (lnk hh_prv s) None es None"

abbreviation bkt_dll :: "ut_heap \<Rightarrow> addr option \<Rightarrow> addr list \<Rightarrow> bool" where
  "bkt_dll s p c \<equiv> dll (lnk hh_next s) (lnk hh_prev s) p c None"

definition app_part :: "UT_hash_handle \<Rightarrow> addr \<times> addr option \<times> addr option \<times> string \<times> u32 \<times> u32" where
  "app_part h = (hh_tbl h, hh_prv h, hh_nxt h, hh_key h, hh_keylen h, hh_hashv h)"

text \<open>\<open>s'\<close> differs from \<open>s\<close> in the bucket links of elements of \<open>A\<close> only.\<close>

definition relinked :: "addr set \<Rightarrow> ut_heap \<Rightarrow> ut_heap \<Rightarrow> bool" where
  "relinked A s s' \<longleftrightarrow> tbls s' = tbls s \<and> (\<forall>a. a \<notin> A \<longrightarrow> hhs s' a = hhs s a)
     \<and> (\<forall>a. map_option app_part (hhs s' a) = map_option app_part (hhs s a))"

lemma relinked_refl [simp]: "relinked A s s"
  by (simp add: relinked_def)

lemma relinked_trans: "relinked A s s' \<Longrightarrow> relinked B s' s'' \<Longrightarrow> A \<subseteq> C \<Longrightarrow> B \<subseteq> C \<Longrightarrow> relinked C s s''"
  unfolding relinked_def by (metis subsetD)

lemma relinked_out: "relinked A s s' \<Longrightarrow> a \<notin> A \<Longrightarrow> hhs s' a = hhs s a"
  by (simp add: relinked_def)

lemma relinked_tbls: "relinked A s s' \<Longrightarrow> tbls s' = tbls s"
  by (simp add: relinked_def)

lemma relinked_Some:
  assumes "relinked A s s'" "hhs s a = Some h"
  obtains h' where "hhs s' a = Some h'" "app_part h' = app_part h"
  using assms unfolding relinked_def by (metis map_option_eq_Some)

lemma relinked_None:
  assumes "relinked A s s'" shows "(hhs s' a = None) = (hhs s a = None)"
proof -
  have "map_option app_part (hhs s' a) = map_option app_part (hhs s a)"
    using assms by (simp add: relinked_def)
  then show ?thesis by (cases "hhs s a"; cases "hhs s' a"; simp)
qed

lemma relinked_lnk:
  assumes "relinked A s s'" "\<And>h h'. app_part h' = app_part h \<Longrightarrow> f h' = f h"
  shows "map_option f (hhs s' a) = map_option f (hhs s a)"
proof (cases "hhs s a")
  case None then show ?thesis using relinked_None [OF assms(1)] by simp
next
  case (Some h)
  obtain h' where "hhs s' a = Some h'" "app_part h' = app_part h"
    by (rule relinked_Some [OF assms(1) Some])
  then show ?thesis using assms(2) [of h' h] Some by simp
qed

lemma relinked_app:
  assumes "relinked A s s'"
  shows "lnk hh_nxt s' = lnk hh_nxt s" "lnk hh_prv s' = lnk hh_prv s"
proof -
  show "lnk hh_nxt s' = lnk hh_nxt s"
    by (rule ext, unfold lnk_def, rule relinked_lnk [OF assms]) (simp add: app_part_def)
  show "lnk hh_prv s' = lnk hh_prv s"
    by (rule ext, unfold lnk_def, rule relinked_lnk [OF assms]) (simp add: app_part_def)
qed

lemma bkt_dll_out: "relinked A s s' \<Longrightarrow> set c \<inter> A = {} \<Longrightarrow> bkt_dll s' p c = bkt_dll s p c"
  by (rule dll_cong) (auto simp: lnk_def relinked_def)

subsection \<open>The invariant\<close>

definition key_of :: "ut_heap \<Rightarrow> addr \<Rightarrow> string" where
  "key_of s a = hh_key (the (hhs s a))"

definition item_ok :: "ut_heap \<Rightarrow> addr \<Rightarrow> addr \<Rightarrow> bool" where
  "item_ok s t a \<longleftrightarrow> (\<exists>h. hhs s a = Some h \<and> hh_tbl h = t \<and> unat (hh_keylen h) = length (hh_key h)
     \<and> hh_hashv h = HASH_JEN (hh_key h))"

definition bkt_of :: "u32 \<Rightarrow> ut_heap \<Rightarrow> addr \<Rightarrow> nat" where
  "bkt_of nb s a = HASH_TO_BKT (hh_hashv (the (hhs s a))) nb"

definition bucket_ok :: "ut_heap \<Rightarrow> UT_hash_bucket \<Rightarrow> addr list \<Rightarrow> bool" where
  "bucket_ok s b c \<longleftrightarrow> bkt_dll s None c \<and> hh_head b = hdo c None \<and> unat (bkt_count b) = length c \<and> distinct c"

text \<open>The buckets hold exactly the elements \<open>D\<close>, each in the chain its hash value selects.\<close>

definition buckets_ok :: "u32 \<Rightarrow> ut_heap \<Rightarrow> UT_hash_bucket list \<Rightarrow> addr set \<Rightarrow> bool" where
  "buckets_ok nb s bs D \<longleftrightarrow> length bs = unat nb
     \<and> (\<forall>i < length bs. \<exists>c. bucket_ok s (bs ! i) c \<and> set c = {a \<in> D. bkt_of nb s a = i})"

text \<open>In the middle of an insertion the buckets hold \<open>D\<close> only.\<close>

definition table_rep :: "ut_heap \<Rightarrow> addr \<Rightarrow> UT_hash_table \<Rightarrow> addr list \<Rightarrow> addr set \<Rightarrow> bool" where
  "table_rep s t tb es D \<longleftrightarrow> tbls s t = Some tb
     \<and> unat (log2_num_buckets tb) < 32 \<and> num_buckets tb = 2 ^ unat (log2_num_buckets tb)
     \<and> distinct es \<and> app_dll s es \<and> Some (tbl_tail tb) = lasto es None \<and> unat (num_items tb) = length es
     \<and> (\<forall>a \<in> set es. item_ok s t a) \<and> buckets_ok (num_buckets tb) s (tbl_buckets tb) D"

abbreviation table_ok :: "ut_heap \<Rightarrow> addr \<Rightarrow> UT_hash_table \<Rightarrow> addr list \<Rightarrow> bool" where
  "table_ok s t tb es \<equiv> table_rep s t tb es (set es)"

definition ut_rel :: "ut_heap \<Rightarrow> addr option \<Rightarrow> (string \<times> addr) list \<Rightarrow> bool" where
  "ut_rel s head al \<longleftrightarrow> head = hdo (map snd al) None \<and> hash_ok al
     \<and> (\<forall>(k, a) \<in> set al. key_of s a = k)
     \<and> (al \<noteq> [] \<longrightarrow> (\<exists>t tb. table_ok s t tb (map snd al)))"

lemma item_ok_alloc: "item_ok s t a \<Longrightarrow> hhs s a \<noteq> None"
  by (auto simp: item_ok_def)

lemma relinked_elem: "relinked A s s' \<Longrightarrow> item_ok s' t a = item_ok s t a"
  and relinked_key: "relinked A s s' \<Longrightarrow> key_of s' a = key_of s a"
  and relinked_bkt: "relinked A s s' \<Longrightarrow> bkt_of nb s' a = bkt_of nb s a"
proof -
  assume r: "relinked A s s'"
  have eq: "map_option app_part (hhs s' a) = map_option app_part (hhs s a)"
    using r by (simp add: relinked_def)
  show "item_ok s' t a = item_ok s t a" "key_of s' a = key_of s a" "bkt_of nb s' a = bkt_of nb s a"
    using eq by (cases "hhs s a"; cases "hhs s' a"; auto simp: item_ok_def key_of_def bkt_of_def app_part_def)+
qed

lemma unat_exp: "n < 32 \<Longrightarrow> unat (2 ^ n :: u32) = 2 ^ n"
  using unat_of_nat [where 'a = 32, of "2 ^ n"] power_strict_increasing [of n 32 "2 :: nat"] by simp

lemma bkt_less: "n < 32 \<Longrightarrow> HASH_TO_BKT h (2 ^ n) < 2 ^ n"
proof -
  have "h AND (2 ^ n - 1) = take_bit n h"
    by (simp add: take_bit_eq_mask mask_eq_exp_minus_1)
  then show ?thesis by (simp add: HASH_TO_BKT_def unsigned_take_bit_eq)
qed

lemma table_bkt: "table_rep s t tb es D \<Longrightarrow> HASH_TO_BKT h (num_buckets tb) < length (tbl_buckets tb)"
  using bkt_less [of "unat (log2_num_buckets tb)" h]
  by (auto simp: table_rep_def buckets_ok_def unat_exp)

lemma table_okD:
  assumes "table_rep s t tb es D"
  shows "tbls s t = Some tb" "distinct es" "app_dll s es" "Some (tbl_tail tb) = lasto es None"
    "unat (num_items tb) = length es" "a \<in> set es \<Longrightarrow> item_ok s t a"
    "buckets_ok (num_buckets tb) s (tbl_buckets tb) D"
    "unat (log2_num_buckets tb) < 32" "num_buckets tb = 2 ^ unat (log2_num_buckets tb)"
  using assms unfolding table_rep_def by blast+

subsection \<open>Finding\<close>

lemma find_in_chain:
  assumes "bkt_dll s p c" "\<And>a. a \<in> set c \<Longrightarrow> item_ok s t a"
  shows "HASH_FIND_IN_BKT s (hdo c None) k = Some (List.find (\<lambda>a. key_of s a = k) c)"
  using assms
proof (induction c arbitrary: p)
  case (Cons a c)
  then obtain h where h: "hhs s a = Some h" "unat (hh_keylen h) = length (hh_key h)"
    by (fastforce simp: item_ok_def)
  with Cons show ?case
    by (subst HASH_FIND_IN_BKT.simps) (auto simp: key_of_def lnk_def)
qed (simp add: HASH_FIND_IN_BKT.simps)

lemma find_unique:
  assumes "a \<in> set c" "Q a" "\<And>x. x \<in> set c \<Longrightarrow> Q x \<Longrightarrow> x = a"
  shows "List.find Q c = Some a"
  using assms by (metis find_None_iff find_Some_iff not_Some_eq nth_mem)

lemma rel_find:
  assumes r: "ut_rel s head al"
  shows "HASH_FIND s head k = Some (hash_find al k)"
proof (cases "al = []")
  case True with r show ?thesis by (simp add: ut_rel_def HASH_FIND_def hash_find_def)
next
  case False
  with r obtain t tb where T: "table_ok s t tb (map snd al)" and hd: "head = Some (snd (hd al))"
    by (cases al) (auto simp: ut_rel_def)
  have el: "item_ok s t a" if "(k', a) \<in> set al" for k' a using table_okD(6) [OF T, of a] that by force
  have ky: "key_of s a = k'" if "(k', a) \<in> set al" for k' a using r that by (auto simp: ut_rel_def)
  have t: "tbl_of s head = Some t" using el [of "fst (hd al)" "snd (hd al)"] False
    by (auto simp: hd tbl_of_def item_ok_def)
  define i where "i = HASH_TO_BKT (HASH_JEN k) (num_buckets tb)"
  have i: "i < length (tbl_buckets tb)" using table_bkt [OF T] by (simp add: i_def)
  then obtain c where c: "bucket_ok s (tbl_buckets tb ! i) c"
      "set c = {a \<in> snd ` set al. bkt_of (num_buckets tb) s a = i}"
    using table_okD(7) [OF T] by (force simp: buckets_ok_def)
  have "item_ok s t a" if "a \<in> set c" for a using that c(2) el by auto
  then have "HASH_FIND s head k = Some (List.find (\<lambda>a. key_of s a = k) c)"
    using find_in_chain [of s None c t k] c(1) table_okD(1) [OF T] i t
    by (simp add: HASH_FIND_def hd bucket_ok_def Let_def flip: i_def)
  moreover have "List.find (\<lambda>a. key_of s a = k) c = map_of al k"
  proof (cases "map_of al k")
    case None
    then have "key_of s a \<noteq> k" if "a \<in> set c" for a
      using that c(2) ky by (force simp: map_of_eq_None_iff)
    then show ?thesis using None by (simp add: find_None_iff)
  next
    case (Some a)
    then have in_al: "(k, a) \<in> set al" by (rule map_of_SomeD)
    have "bkt_of (num_buckets tb) s a = i"
      using el [OF in_al] ky [OF in_al] by (auto simp: bkt_of_def item_ok_def key_of_def i_def)
    with in_al c(2) have ac: "a \<in> set c" by force
    have "x = a" if x: "x \<in> set c" "key_of s x = k" for x
    proof -
      obtain k' where k': "(k', x) \<in> set al" using x(1) c(2) by auto
      with ky [OF k'] x(2) have "map_of al k = Some x" using r
        by (auto simp: ut_rel_def hash_ok_def)
      with Some show ?thesis by simp
    qed
    then show ?thesis unfolding Some by (rule find_unique [where Q = "\<lambda>a. key_of s a = k", OF ac ky [OF in_al]])
  qed
  ultimately show ?thesis by (simp add: hash_find_def)
qed

subsection \<open>Pushing onto a chain\<close>

lemma upd_hh_Some [simp]:
  "(upd_hh a f s = Some s') = (\<exists>h. hhs s a = Some h \<and> s' = s\<lparr>hhs := (hhs s)(a \<mapsto> f h)\<rparr>)"
  by (auto simp: upd_hh_def)

lemma upd_tbl_Some [simp]:
  "(upd_tbl t f s = Some s') = (\<exists>tb. tbls s t = Some tb \<and> s' = s\<lparr>tbls := (tbls s)(t \<mapsto> f tb)\<rparr>)"
  by (auto simp: upd_tbl_def)

lemma chain_push_spec:
  assumes "bkt_dll s None c" "distinct c" "a \<notin> set c" "hhs s a = Some h"
  obtains s' where "chain_push a (hdo c None) s = Some s'" "bkt_dll s' None (a # c)"
    "relinked (insert a (set c)) s s'"
proof (cases c)
  case Nil
  have "chain_push a (hdo c None) s = Some (s\<lparr>hhs := (hhs s)(a \<mapsto> h\<lparr>hh_next := None, hh_prev := None\<rparr>)\<rparr>)"
    by (simp add: Nil chain_push_def assms(4))
  then show ?thesis
    by (rule that) (simp_all add: Nil lnk_def relinked_def assms(4) app_part_def)
next
  case (Cons x xs)
  from assms(1) Cons obtain hx where hx: "hhs s x = Some hx" by (auto simp: lnk_def)
  define s' where "s' = s\<lparr>hhs := (hhs s)(a \<mapsto> h\<lparr>hh_next := Some x, hh_prev := None\<rparr>,
                              x \<mapsto> hx\<lparr>hh_prev := Some a\<rparr>)\<rparr>"
  have "chain_push a (hdo c None) s = Some s'"
    using assms(3) Cons hx by (simp add: chain_push_def s'_def assms(4))
  moreover have "bkt_dll s' None (a # c)"
    by (rule dll_push [OF assms(1,2,3)])
       (use assms(3) Cons hx in \<open>auto simp: s'_def lnk_def\<close>)
  moreover have "relinked (insert a (set c)) s s'"
    using assms(3,4) Cons hx by (auto simp: s'_def relinked_def app_part_def)
  ultimately show ?thesis by (rule that)
qed

lemma buckets_relinked:
  assumes r: "relinked A s s'" and "bucket_ok s b c" "set c \<inter> A = {}"
  shows "bucket_ok s' b c"
  using assms bkt_dll_out [OF r assms(3)] by (simp add: bucket_ok_def)

text \<open>The element \<open>a\<close> enters the bucket that its hash value selects; \<open>m\<close> is free.\<close>

lemma buckets_push:
  assumes B: "buckets_ok nb s bs D" and a: "a \<notin> D" "hhs s a = Some h" "bkt_of nb s a = i" "i < length bs"
    and fin: "finite D" "card D + 1 < 2 ^ 32"
  obtains s' where "chain_push a (hh_head (bs ! i)) s = Some s'" "relinked (insert a D) s s'"
    "buckets_ok nb s' (bs[i := (bs ! i)\<lparr>bkt_count := bkt_count (bs ! i) + 1, expand_mult := m, hh_head := Some a\<rparr>])
       (insert a D)"
    "unat (bkt_count (bs ! i) + 1) \<noteq> 0"
proof -
  from B a(4) obtain c where c: "bucket_ok s (bs ! i) c" "set c = {a \<in> D. bkt_of nb s a = i}"
    by (auto simp: buckets_ok_def)
  then have "a \<notin> set c" "bkt_dll s None c" "distinct c" and hd: "hh_head (bs ! i) = hdo c None"
    using a(1) by (auto simp: bucket_ok_def)
  then obtain s' where s': "chain_push a (hdo c None) s = Some s'" "bkt_dll s' None (a # c)"
      "relinked (insert a (set c)) s s'"
    using chain_push_spec a(2) by blast
  have r: "relinked (insert a D) s s'"
    by (rule relinked_trans [OF s'(3) relinked_refl [where A = D]]) (use c(2) in auto)
  have "length c = card (set c)" using c(1) by (simp add: bucket_ok_def distinct_card)
  also have "\<dots> \<le> card D" by (rule card_mono) (use fin c(2) in auto)
  finally have len: "Suc (length c) < 2 ^ 32" using fin by simp
  have cnt: "unat (bkt_count (bs ! i) + 1) = Suc (length c)"
    using len c(1) by (simp add: bucket_ok_def unat_word_ariths)
  let ?b = "(bs ! i)\<lparr>bkt_count := bkt_count (bs ! i) + 1, expand_mult := m, hh_head := Some a\<rparr>"
  have "buckets_ok nb s' (bs[i := ?b]) (insert a D)"
    unfolding buckets_ok_def
  proof (intro conjI allI impI)
    fix j assume j: "j < length (bs[i := ?b])"
    show "\<exists>c. bucket_ok s' (bs[i := ?b] ! j) c \<and> set c = {x \<in> insert a D. bkt_of nb s' x = j}"
    proof (cases "j = i")
      case True
      have "bucket_ok s' ?b (a # c)" using s'(2) cnt \<open>a \<notin> set c\<close> \<open>distinct c\<close> by (simp add: bucket_ok_def)
      moreover have "set (a # c) = {x \<in> insert a D. bkt_of nb s' x = j}"
        using c(2) a(3) True by (auto simp: relinked_bkt [OF r])
      ultimately show ?thesis using True a(4) by auto
    next
      case False
      with B j obtain d where d: "bucket_ok s (bs ! j) d" "set d = {a \<in> D. bkt_of nb s a = j}"
        by (auto simp: buckets_ok_def)
      have "set d \<inter> insert a (set c) = {}" using d(2) c(2) a(1) False by auto
      with d(1) have "bucket_ok s' (bs ! j) d" by (rule buckets_relinked [OF s'(3)])
      with d(2) False a(3) show ?thesis by (intro exI [of _ d]) (auto simp: relinked_bkt [OF r])
    qed
  qed (use B in \<open>simp add: buckets_ok_def\<close>)
  with s'(1) r show ?thesis using that cnt by (simp add: hd)
qed

subsection \<open>Expanding the buckets\<close>

lemma expand_item_spec:
  assumes B: "buckets_ok nb s bs D" and a: "a \<notin> D" "hhs s a \<noteq> None" "bkt_of nb s a < length bs"
    and fin: "finite D" "card D + 1 < 2 ^ 32" and ideal: "ideal \<noteq> 0"
  shows "\<exists>s' bs' n'. expand_item nb ideal a (s, bs, n) = Some (s', bs', n')
    \<and> buckets_ok nb s' bs' (insert a D) \<and> relinked (insert a D) s s'"
proof -
  obtain h where h: "hhs s a = Some h" using a(2) by auto
  define i where "i = bkt_of nb s a"
  then have i: "HASH_TO_BKT (hh_hashv h) nb = i" using h by (simp add: bkt_of_def)
  have il: "i < length bs" using a(3) by (simp add: i_def)
  define m where "m = (if bkt_count (bs ! i) + 1 > ideal then (bkt_count (bs ! i) + 1) div ideal
                       else expand_mult (bs ! i))"
  obtain s' where s': "chain_push a (hh_head (bs ! i)) s = Some s'" "relinked (insert a D) s s'"
    "buckets_ok nb s' (bs[i := (bs ! i)\<lparr>bkt_count := bkt_count (bs ! i) + 1, expand_mult := m, hh_head := Some a\<rparr>])
       (insert a D)"
    using buckets_push [OF B a(1) h i_def [symmetric] il fin, of m] by blast
  show ?thesis
  proof (cases "bkt_count (bs ! i) + 1 > ideal")
    case True
    then have "m = (bkt_count (bs ! i) + 1) div ideal" by (simp add: m_def)
    then show ?thesis using True s' h i il ideal by (simp add: expand_item_def Let_def)
  next
    case False
    then have "m = expand_mult (bs ! i)" by (simp add: m_def)
    then have "(bs ! i)\<lparr>bkt_count := bkt_count (bs ! i) + 1, expand_mult := m, hh_head := Some a\<rparr>
      = (bs ! i)\<lparr>bkt_count := bkt_count (bs ! i) + 1, hh_head := Some a\<rparr>"
      by (cases "bs ! i") simp
    then show ?thesis using False s' h i il by (simp add: expand_item_def Let_def)
  qed
qed

lemma bkt_of_bound: "nb = 2 ^ k \<Longrightarrow> k < 32 \<Longrightarrow> bkt_of nb s a < unat nb"
  using bkt_less [of k] by (simp add: bkt_of_def unat_exp)

lemma expand_chain_spec:
  assumes "buckets_ok nb s bs D" "bkt_dll s p c" "distinct c" "set c \<inter> D = {}"
    "nb = 2 ^ k" "k < 32" "finite D" "card D + length c < 2 ^ 32" "ideal \<noteq> 0"
  shows "\<exists>s' bs' n'. expand_chain nb ideal (hdo c None) (s, bs, n) = Some (s', bs', n')
    \<and> buckets_ok nb s' bs' (D \<union> set c) \<and> relinked (D \<union> set c) s s'"
  using assms
proof (induction c arbitrary: s bs n D p)
  case (Cons a c)
  from Cons.prems(2) obtain h where h: "hhs s a = Some h" "hh_next h = hdo c None"
    by (auto simp: lnk_def)
  have "bkt_of nb s a < length bs"
    using bkt_of_bound [OF Cons.prems(5,6)] Cons.prems(1) by (simp add: buckets_ok_def)
  then obtain s1 bs1 n1 where 1: "expand_item nb ideal a (s, bs, n) = Some (s1, bs1, n1)"
      "buckets_ok nb s1 bs1 (insert a D)" "relinked (insert a D) s s1"
    using expand_item_spec [OF Cons.prems(1), of a ideal n] Cons.prems(4,7,8,9) h(1) by auto
  have "bkt_dll s1 (Some a) c"
    using bkt_dll_out [OF 1(3), of c "Some a"] Cons.prems(2,3,4) by auto
  then obtain s2 bs2 n2 where 2: "expand_chain nb ideal (hdo c None) (s1, bs1, n1) = Some (s2, bs2, n2)"
      "buckets_ok nb s2 bs2 (insert a D \<union> set c)" "relinked (insert a D \<union> set c) s1 s2"
    using Cons.IH [OF 1(2), of "Some a" n1] Cons.prems(3-9) by auto
  have "relinked (D \<union> set (a # c)) s s2"
    by (rule relinked_trans [OF 1(3) 2(3)]) auto
  then show ?case using 1(1) 2(1,2) h by (subst expand_chain.simps) auto
qed (simp add: expand_chain.simps)

lemma expand_all_spec:
  assumes old: "buckets_ok nb0 s0 bs0 E" "nb0 = 2 ^ k0" "k0 < 32" and E: "finite E" "card E < 2 ^ 32"
    and new: "nb = 2 ^ k" "k < 32" "ideal \<noteq> 0"
    and i: "i + length bl = length bs0" "bl = drop i bs0"
    and st: "buckets_ok nb s bs {a \<in> E. bkt_of nb0 s0 a < i}" "relinked {a \<in> E. bkt_of nb0 s0 a < i} s0 s"
  shows "\<exists>s' bs' n'. expand_all nb ideal bl (s, bs, n) = Some (s', bs', n')
    \<and> buckets_ok nb s' bs' E \<and> relinked E s0 s'"
  using i st
proof (induction bl arbitrary: i s bs n)
  case Nil
  have "{a \<in> E. bkt_of nb0 s0 a < i} = E"
    using bkt_of_bound [OF old(2,3)] old(1) Nil.prems(1) by (auto simp: buckets_ok_def)
  with Nil.prems show ?case by simp
next
  case (Cons b bl)
  let ?D = "{a \<in> E. bkt_of nb0 s0 a < i}"
  have i: "i < length bs0" using Cons.prems(1) by simp
  have b: "bs0 ! i = b" "bl = drop (Suc i) bs0"
    using Cons.prems(2) unfolding Cons_nth_drop_Suc [OF i, symmetric] by simp_all
  obtain c where c: "bucket_ok s0 b c" "set c = {a \<in> E. bkt_of nb0 s0 a = i}"
    using old(1) i unfolding b(1) [symmetric] buckets_ok_def by blast
  have disj: "set c \<inter> ?D = {}" using c(2) by auto
  have un: "?D \<union> set c = {a \<in> E. bkt_of nb0 s0 a < Suc i}"
    unfolding c(2) less_Suc_eq by blast
  have "card ?D + length c = card (?D \<union> set c)"
    using c(1) disj E(1) by (subst card_Un_disjoint) (auto simp: bucket_ok_def distinct_card)
  also have "\<dots> \<le> card E" by (rule card_mono) (use E(1) c(2) in auto)
  finally have len: "card ?D + length c < 2 ^ 32" using E(2) by simp
  have "bucket_ok s b c" by (rule buckets_relinked [OF Cons.prems(4) c(1) disj])
  then have ch: "bkt_dll s None c" "distinct c" "hh_head b = hdo c None" by (auto simp: bucket_ok_def)
  have "finite ?D" using E(1) by simp
  then obtain s1 bs1 n1 where 1: "expand_chain nb ideal (hh_head b) (s, bs, n) = Some (s1, bs1, n1)"
      "buckets_ok nb s1 bs1 (?D \<union> set c)" "relinked (?D \<union> set c) s s1"
    using expand_chain_spec [OF Cons.prems(3) ch(1,2) disj new(1,2) _ len new(3), of n] ch(3) by auto
  have "relinked (?D \<union> set c) s0 s1"
    by (rule relinked_trans [OF Cons.prems(4) 1(3)]) auto
  with Cons.IH [of "Suc i" s1 bs1 n1] 1 b Cons.prems(1) un show ?case by auto
qed

lemma add_one_nz: "unat (x :: u32) < 2 ^ 31 \<Longrightarrow> x + 1 \<noteq> 0"
proof
  assume x: "unat x < 2 ^ 31" "x + 1 = 0"
  have "unat (x + 1) = Suc (unat x)" using x(1) by (simp add: unat_word_ariths)
  with x(2) show False by simp
qed

lemma ideal_pos:
  fixes n :: u32
  assumes "n \<noteq> 0" "k < 32"
  shows "drop_bit k n + (if n AND (2 ^ k - 1) \<noteq> 0 then 1 else 0) \<noteq> 0"
proof (cases "k = 0")
  case True with assms show ?thesis by simp
next
  case False
  have m: "n AND (2 ^ k - 1) = take_bit k n" by (simp add: take_bit_eq_mask mask_eq_exp_minus_1)
  have "unat (drop_bit k n) < 2 ^ 31"
  proof -
    have "unat (drop_bit k n) = unat n div 2 ^ k" by (metis unat_drop_bit_eq drop_bit_eq_div)
    also have "\<dots> \<le> unat n div 2 ^ 1" by (rule div_le_mono2) (use False power_increasing [of 1 k "2 :: nat"] in auto)
    also have "\<dots> < 2 ^ 31" using unsigned_less [of n, where ?'a = nat] by simp
    finally show ?thesis .
  qed
  then have "drop_bit k n + 1 \<noteq> 0" by (rule add_one_nz)
  moreover have "drop_bit k n \<noteq> 0" if "take_bit k n = 0"
    using that assms(1) by (metis bits_ident add_0 push_bit_of_0)
  ultimately show ?thesis by (simp add: m)
qed

lemma tbls_irrelevant [simp]:
  "lnk f (s\<lparr>tbls := T\<rparr>) = lnk f s" "item_ok (s\<lparr>tbls := T\<rparr>) t a = item_ok s t a"
  "key_of (s\<lparr>tbls := T\<rparr>) = key_of s" "bkt_of nb (s\<lparr>tbls := T\<rparr>) = bkt_of nb s"
  "bucket_ok (s\<lparr>tbls := T\<rparr>) b c = bucket_ok s b c"
proof -
  show *: "lnk f (s\<lparr>tbls := T\<rparr>) = lnk f s" for f by (rule ext) (simp add: lnk_def)
  show "bucket_ok (s\<lparr>tbls := T\<rparr>) b c = bucket_ok s b c" by (simp add: bucket_ok_def *)
  show "bkt_of nb (s\<lparr>tbls := T\<rparr>) = bkt_of nb s" "key_of (s\<lparr>tbls := T\<rparr>) = key_of s"
    by (rule ext, simp add: bkt_of_def key_of_def)+
qed (simp add: item_ok_def)

lemma tbls_irrelevant_buckets [simp]: "buckets_ok nb (s\<lparr>tbls := T\<rparr>) bs D = buckets_ok nb s bs D"
  by (simp add: buckets_ok_def)

lemma table_rep_relinked:
  assumes T: "table_rep s t tb es D" and r: "relinked A s s1"
    and tb': "tbl_tail tb' = tbl_tail tb" "num_items tb' = num_items tb" "unat (log2_num_buckets tb') < 32"
      "num_buckets tb' = 2 ^ unat (log2_num_buckets tb')"
    and B: "buckets_ok (num_buckets tb') s1 (tbl_buckets tb') D'"
  shows "table_rep (s1\<lparr>tbls := (tbls s)(t \<mapsto> tb')\<rparr>) t tb' es D'"
proof -
  have "app_dll s1 es" using table_okD(3) [OF T] by (simp add: relinked_app [OF r])
  moreover have "\<forall>a \<in> set es. item_ok s1 t a" using table_okD(6) [OF T] relinked_elem [OF r] by blast
  ultimately show ?thesis unfolding table_rep_def
    using table_okD(2,4,5) [OF T]
    by (intro conjI) (use tb'(1,2,3) B in simp_all, rule tb'(4))
qed

text \<open>Where \<open>malloc\<close> does not fail.\<close>

definition malloc_ok :: "(ut_heap \<Rightarrow> addr option) \<Rightarrow> bool" where
  "malloc_ok M \<longleftrightarrow> (\<forall>s. finite (dom (tbls s)) \<longrightarrow> (\<exists>t. M s = Some t \<and> tbls s t = None))"

definition ut_step :: "addr set \<Rightarrow> addr \<Rightarrow> ut_heap \<Rightarrow> ut_heap \<Rightarrow> UT_hash_table \<Rightarrow> bool" where
  "ut_step A t s s' tb' \<longleftrightarrow> (\<exists>s1. relinked A s s1 \<and> s' = s1\<lparr>tbls := (tbls s)(t \<mapsto> tb')\<rparr>)"

lemma expand_spec:
  assumes T: "table_ok s t tb es" and es: "es \<noteq> []" and room: "unat (log2_num_buckets tb) + 1 < 32"
    and M: "malloc_ok M" "finite (dom (tbls s))"
  shows "\<exists>s' tb'. HASH_EXPAND_BUCKETS M t s = Some s' \<and> table_ok s' t tb' es \<and> ut_step (set es) t s s' tb'
    \<and> unat (log2_num_buckets tb') = Suc (unat (log2_num_buckets tb))"
proof -
  define k where "k = unat (log2_num_buckets tb)"
  define nb where "nb = 2 * num_buckets tb"
  define ideal where "ideal = drop_bit (Suc k) (num_items tb) + (if num_items tb AND (nb - 1) \<noteq> 0 then 1 else 0)"
  have nb: "nb = 2 ^ Suc k" using table_okD(9) [OF T] by (simp add: nb_def k_def)
  have k: "Suc k < 32" using room by (simp add: k_def)
  have lg: "unat (log2_num_buckets tb + 1) = Suc k" using k by (simp add: k_def unat_word_ariths)
  have items: "unat (num_items tb) = length es" by (rule table_okD(5) [OF T])
  have "num_items tb \<noteq> 0" using items es by auto
  then have ideal: "ideal \<noteq> 0" using ideal_pos [OF _ k] unfolding ideal_def nb by blast
  have len: "card (set es) < 2 ^ 32"
    using items unsigned_less [of "num_items tb", where ?'a = nat] distinct_card [OF table_okD(2) [OF T]] by simp
  have bl: "length (tbl_buckets tb) = unat (num_buckets tb)"
    using table_okD(7) [OF T] by (simp add: buckets_ok_def)
  let ?new = "replicate (unat nb) \<lparr>hh_head = None, bkt_count = 0, expand_mult = 0\<rparr>"
  have new: "buckets_ok nb s ?new {a \<in> set es. bkt_of (num_buckets tb) s a < 0}"
    by (auto simp: buckets_ok_def bucket_ok_def)
  obtain s1 bs n where 1: "expand_all nb ideal (tbl_buckets tb) (s, ?new, 0) = Some (s1, bs, n)"
      "buckets_ok nb s1 bs (set es)" "relinked (set es) s s1"
    using expand_all_spec [OF table_okD(7,9,8) [OF T] _ len nb k ideal, of 0 "tbl_buckets tb" s ?new 0] new
    by auto
  define ineff where "ineff = (if n > drop_bit 1 (num_items tb) then ineff_expands tb + 1 else 0)"
  define tb' where "tb' = tb\<lparr>tbl_buckets := bs, num_buckets := nb,
         log2_num_buckets := log2_num_buckets tb + 1, ideal_chain_maxlen := ideal,
         nonideal_items := n, ineff_expands := ineff, noexpand := (if ineff > 1 then 1 else noexpand tb)\<rparr>"
  let ?s' = "s1\<lparr>tbls := (tbls s)(t \<mapsto> tb')\<rparr>"
  have t: "tbls s t = Some tb" by (rule table_okD(1) [OF T])
  obtain x where x: "M s = Some x" using M by (auto simp: malloc_ok_def)
  have "tbls s1 = tbls s" by (rule relinked_tbls [OF 1(3)])
  then have "HASH_EXPAND_BUCKETS M t s = Some ?s'"
    using 1(1) t k lg bl x
    by (simp add: HASH_EXPAND_BUCKETS_def Let_def tb'_def ineff_def flip: nb_def ideal_def)
  moreover have "table_ok ?s' t tb' es"
    by (rule table_rep_relinked [OF T 1(3)]) (use 1(2) lg k nb in \<open>simp_all add: tb'_def\<close>)
  moreover have "ut_step (set es) t s ?s' tb'" using 1(3) by (auto simp: ut_step_def)
  ultimately show ?thesis using lg by (auto simp: tb'_def k_def)
qed

subsection \<open>Adding\<close>

lemma ut_step_trans: "ut_step A t s s' tb1 \<Longrightarrow> ut_step A t s' s'' tb2 \<Longrightarrow> ut_step A t s s'' tb2"
proof -
  assume "ut_step A t s s' tb1" "ut_step A t s' s'' tb2"
  then obtain s1 s2 where 1: "relinked A s s1" "s' = s1\<lparr>tbls := (tbls s)(t \<mapsto> tb1)\<rparr>"
    and 2: "relinked A s' s2" "s'' = s2\<lparr>tbls := (tbls s')(t \<mapsto> tb2)\<rparr>" by (auto simp: ut_step_def)
  have "relinked A s (s2\<lparr>tbls := tbls s\<rparr>)" using 1 2 by (simp add: relinked_def)
  moreover have "s'' = (s2\<lparr>tbls := tbls s\<rparr>)\<lparr>tbls := (tbls s)(t \<mapsto> tb2)\<rparr>" using 1(2) 2(2) by simp
  ultimately show ?thesis unfolding ut_step_def by blast
qed

lemma ut_step_tbls: "ut_step A t s s' tb' \<Longrightarrow> tbls s' = (tbls s)(t \<mapsto> tb')"
  by (auto simp: ut_step_def)

lemma add_to_bkt_spec:
  assumes T: "table_rep s t tb es D" and a: "a \<notin> D" "insert a D = set es"
    and room: "unat (log2_num_buckets tb) + 1 < 32" and M: "malloc_ok M" "finite (dom (tbls s))"
  shows "\<exists>s' tb'. HASH_ADD_TO_BKT M t (bkt_of (num_buckets tb) s a) a s = Some s' \<and> table_ok s' t tb' es
    \<and> ut_step (set es) t s s' tb' \<and> unat (log2_num_buckets tb') \<le> Suc (unat (log2_num_buckets tb))"
proof -
  define i where "i = bkt_of (num_buckets tb) s a"
  let ?b = "tbl_buckets tb ! i"
  have t: "tbls s t = Some tb" by (rule table_okD(1) [OF T])
  have ael: "item_ok s t a" using table_okD(6) [OF T] a(2) by blast
  then obtain h where h: "hhs s a = Some h" "hh_tbl h = t" by (auto simp: item_ok_def)
  have il: "i < length (tbl_buckets tb)" using table_bkt [OF T] by (simp add: i_def bkt_of_def)
  have len: "card (set es) < 2 ^ 32"
    using table_okD(5) [OF T] unsigned_less [of "num_items tb", where ?'a = nat]
      distinct_card [OF table_okD(2) [OF T]] by simp
  have fin: "finite D" using a(2) by (metis finite_insert finite_set)
  have "card (set es) = Suc (card D)" unfolding a(2) [symmetric] by (rule card_insert_disjoint [OF fin a(1)])
  with len have card: "card D + 1 < 2 ^ 32" by simp
  obtain s1 where s1: "chain_push a (hh_head ?b) s = Some s1" "relinked (insert a D) s s1"
    "buckets_ok (num_buckets tb) s1 ((tbl_buckets tb)[i := ?b\<lparr>bkt_count := bkt_count ?b + 1,
        expand_mult := expand_mult ?b, hh_head := Some a\<rparr>]) (insert a D)"
    using buckets_push [OF table_okD(7) [OF T] a(1) h(1) i_def [symmetric] il fin card, of "expand_mult ?b"] by blast
  define b where "b = ?b\<lparr>bkt_count := bkt_count ?b + 1, hh_head := Some a\<rparr>"
  have b: "?b\<lparr>bkt_count := bkt_count ?b + 1, expand_mult := expand_mult ?b, hh_head := Some a\<rparr> = b"
    by (cases ?b) (simp add: b_def)
  define tb2 where "tb2 = tb\<lparr>tbl_buckets := (tbl_buckets tb)[i := b]\<rparr>"
  define s2 where "s2 = s1\<lparr>tbls := (tbls s)(t \<mapsto> tb2)\<rparr>"
  have T2: "table_ok s2 t tb2 es" unfolding s2_def
    by (rule table_rep_relinked [OF T s1(2)])
       (use s1(3) b a(2) table_okD(8,9) [OF T] in \<open>simp_all add: tb2_def\<close>)
  have step2: "ut_step (set es) t s s2 tb2"
    using s1(2) a(2) by (auto simp: ut_step_def s2_def)
  have lg: "log2_num_buckets tb2 = log2_num_buckets tb" by (simp add: tb2_def)
  obtain h1 where h1: "hhs s1 a = Some h1" "hh_tbl h1 = t"
    using relinked_Some [OF s1(2) h(1)] h(2) by (metis app_part_def fst_conv)
  have eq: "HASH_ADD_TO_BKT M t i a s =
      (if bkt_count b \<ge> (expand_mult b + 1) * HASH_BKT_CAPACITY_THRESH \<and> noexpand tb2 \<noteq> 1
       then HASH_EXPAND_BUCKETS M t s2 else Some s2)"
    using t il s1(1) h1 relinked_tbls [OF s1(2)]
    by (simp add: HASH_ADD_TO_BKT_def Let_def upd_tbl_def b_def tb2_def s2_def)
  have "finite (dom (tbls s2))" using M(2) by (simp add: s2_def)
  with expand_spec [OF T2 _ _ M(1)] room lg a(2)
  obtain s' tb' where e: "HASH_EXPAND_BUCKETS M t s2 = Some s'" "table_ok s' t tb' es"
      "ut_step (set es) t s2 s' tb'" "unat (log2_num_buckets tb') = Suc (unat (log2_num_buckets tb))"
    by fastforce
  have "ut_step (set es) t s s' tb'" by (rule ut_step_trans [OF step2 e(3)])
  with e T2 step2 lg show ?thesis unfolding i_def [symmetric] eq by auto
qed

text \<open>What the buckets say does not depend on the other order.\<close>

lemma buckets_cong:
  assumes "buckets_ok nb s bs D"
    "\<And>x. x \<in> D \<Longrightarrow> lnk hh_next s' x = lnk hh_next s x \<and> lnk hh_prev s' x = lnk hh_prev s x \<and> bkt_of nb s' x = bkt_of nb s x"
  shows "buckets_ok nb s' bs D"
  unfolding buckets_ok_def
proof (intro conjI allI impI)
  fix i assume "i < length bs"
  with assms(1) obtain c where c: "bucket_ok s (bs ! i) c" "set c = {a \<in> D. bkt_of nb s a = i}"
    by (auto simp: buckets_ok_def)
  have "bkt_dll s' None c = bkt_dll s None c"
    by (rule dll_cong) (use assms(2) c(2) in auto)
  with c(1) have "bucket_ok s' (bs ! i) c" by (simp add: bucket_ok_def)
  moreover have "set c = {a \<in> D. bkt_of nb s' a = i}" using c(2) assms(2) by auto
  ultimately show "\<exists>c. bucket_ok s' (bs ! i) c \<and> set c = {a \<in> D. bkt_of nb s' a = i}" by blast
qed (use assms(1) in \<open>simp add: buckets_ok_def\<close>)

end
