(* ===== verification/UtHashRefine.thy ===== *)
theory UtHashRefine
  imports UtHashSpec
begin

text \<open>
  Every operation of the hash table acts on the association list it represents as the
  operation of theory \<open>Table\<close> does, touches no element and no table but its own, and is
  defined wherever \<open>malloc\<close> does not fail.
\<close>

lemma malloc_okE:
  assumes "malloc_ok M" "finite (dom (tbls s))"
  obtains t where "M s = Some t" "tbls s t = None"
  using assms by (auto simp: malloc_ok_def)

subsection \<open>Adding\<close>

text \<open>How often the buckets have been doubled, from 1 to 32 of them on.\<close>

definition levels :: "ut_heap \<Rightarrow> addr option \<Rightarrow> nat" where
  "levels s head = (case tbl_of s head of None \<Rightarrow> 5
     | Some t \<Rightarrow> (case tbls s t of None \<Rightarrow> 5 | Some tb \<Rightarrow> unat (log2_num_buckets tb)))"

definition ut_frame :: "addr set \<Rightarrow> ut_heap \<Rightarrow> ut_heap \<Rightarrow> bool" where
  "ut_frame A s s' \<longleftrightarrow> (\<forall>x. x \<notin> A \<longrightarrow> hhs s' x = hhs s x)"

lemma ut_step_frame: "ut_step A t s s' tb \<Longrightarrow> ut_frame A s s'"
  by (auto simp: ut_step_def ut_frame_def relinked_def)

lemma ut_step_key: "ut_step A t s s' tb \<Longrightarrow> key_of s' x = key_of s x"
  by (auto simp: ut_step_def relinked_key)

lemma ut_step_tbl_of: "ut_step A t s s' tb \<Longrightarrow> item_ok s t' x \<Longrightarrow> tbl_of s' (Some x) = Some t'"
proof -
  assume "ut_step A t s s' tb" "item_ok s t' x"
  then have "item_ok s' t' x" by (auto simp: ut_step_def relinked_elem)
  then show ?thesis by (auto simp: item_ok_def tbl_of_def)
qed

text \<open>The last step of an insertion: the prepared element \<open>a\<close> goes to its bucket.\<close>

lemma add_finish:
  assumes T: "table_rep P t tb (map snd al @ [a]) (snd ` set al)" and ok: "hash_ok al" "hash_find al k = None"
    and ks: "\<forall>(k, a) \<in> set al. key_of P a = k" "key_of P a = k"
    and room: "unat (log2_num_buckets tb) + 1 < 32" and M: "malloc_ok M" "finite (dom (tbls P))"
  shows "\<exists>s'. HASH_ADD_TO_BKT M t (bkt_of (num_buckets tb) P a) a P = Some s'
    \<and> ut_rel s' (hdo (map snd al @ [a]) None) (hash_add al k a) \<and> ut_frame (insert a (snd ` set al)) P s'
    \<and> (\<forall>t'. t' \<noteq> t \<longrightarrow> tbls s' t' = tbls P t') \<and> levels s' (hdo (map snd al @ [a]) None) \<le> Suc (unat (log2_num_buckets tb))
    \<and> tbl_of s' (hdo (map snd al @ [a]) None) = Some t"
proof -
  have a: "a \<notin> snd ` set al" using table_okD(2) [OF T] by simp
  have un: "insert a (snd ` set al) = set (map snd al @ [a])" by simp
  obtain s' tb' where s': "HASH_ADD_TO_BKT M t (bkt_of (num_buckets tb) P a) a P = Some s'"
      "table_ok s' t tb' (map snd al @ [a])" "ut_step (insert a (snd ` set al)) t P s' tb'"
      "unat (log2_num_buckets tb') \<le> Suc (unat (log2_num_buckets tb))"
    using add_to_bkt_spec [OF T a un room M] unfolding un by blast
  have rel: "ut_rel s' (hdo (map snd al @ [a]) None) (hash_add al k a)"
    unfolding ut_rel_def
  proof (intro conjI impI)
    show "hash_ok (hash_add al k a)" using ok by (rule ht.ok_add)
    show "\<forall>(k', a') \<in> set (hash_add al k a). key_of s' a' = k'"
      using ks by (auto simp: ut_step_key [OF s'(3)])
    show "\<exists>t tb. table_ok s' t tb (map snd (hash_add al k a))"
      using s'(2) by (auto simp: hash_add_def)
  qed (simp add: hash_add_def)
  obtain x where x: "hdo (map snd al @ [a]) None = Some x" "x \<in> set (map snd al @ [a])"
    by (cases al) auto
  have tb: "tbl_of s' (Some x) = Some t"
    using table_okD(6) [OF s'(2) x(2)] by (auto simp: item_ok_def tbl_of_def)
  have lev: "levels s' (Some x) = unat (log2_num_buckets tb')"
    using tb table_okD(1) [OF s'(2)] by (simp add: levels_def)
  have hx: "hdo (map snd al) (Some a) = Some x" using x(1) by simp
  show ?thesis
    using s'(1,4) rel ut_step_frame [OF s'(3)] tb lev ut_step_tbls [OF s'(3)] by (auto simp: hx)
qed

lemma rel_add_first:
  assumes al: "al = []" "head = None" and a: "hhs s a = Some h" and k: "length k < 2 ^ 32"
    and M: "malloc_ok M" "finite (dom (tbls s))"
  shows "\<exists>s' t. HASH_ADD_KEYPTR M head k a s = Some (s', Some a) \<and> ut_rel s' (Some a) (hash_add al k a)
    \<and> ut_frame {a} s s' \<and> tbl_of s' (Some a) = Some t \<and> tbls s t = None
    \<and> (\<forall>t'. t' \<noteq> t \<longrightarrow> tbls s' t' = tbls s t') \<and> levels s' (Some a) \<le> 6"
proof -
  define h1 where "h1 = h\<lparr>hh_nxt := None, hh_key := k, hh_keylen := of_nat (length k), hh_prv := None\<rparr>"
  define s1 where "s1 = s\<lparr>hhs := (hhs s)(a \<mapsto> h1)\<rparr>"
  have "finite (dom (tbls s1))" using M(2) by (simp add: s1_def)
  then obtain t where t: "M s1 = Some t" "tbls s1 t = None" by (rule malloc_okE [OF M(1)])
  define s2 where "s2 = s\<lparr>hhs := (hhs s)(a \<mapsto> h1\<lparr>hh_tbl := t\<rparr>)\<rparr>"
  have "finite (dom (tbls s2))" using M(2) by (simp add: s2_def)
  then obtain t2 where t2: "M s2 = Some t2" by (rule malloc_okE [OF M(1)])
  define tb where "tb = \<lparr>tbl_buckets = replicate 32 \<lparr>hh_head = None, bkt_count = 0, expand_mult = 0\<rparr>,
        num_buckets = 32, log2_num_buckets = 5, num_items = 1, tbl_tail = a, ideal_chain_maxlen = 0,
        nonideal_items = 0, ineff_expands = 0, noexpand = 0\<rparr>"
  define P where "P = s\<lparr>tbls := (tbls s)(t \<mapsto> tb), hhs := (hhs s)(a \<mapsto> h1\<lparr>hh_tbl := t, hh_hashv := HASH_JEN k\<rparr>)\<rparr>"
  have eq: "HASH_ADD_KEYPTR M head k a s =
      map_option (\<lambda>s'. (s', Some a)) (HASH_ADD_TO_BKT M t (HASH_TO_BKT (HASH_JEN k) 32) a P)"
    using a t t2 unfolding al
    by (simp add: HASH_ADD_KEYPTR_def upd_hh_def upd_tbl_def HASH_MAKE_TABLE_def tbl_of_def Let_def
        HASH_INITIAL_NUM_BUCKETS_def HASH_INITIAL_NUM_BUCKETS_LOG2_def
        map_option_case P_def tb_def h1_def s1_def s2_def split: option.split)
  have T: "table_rep P t tb (map snd al @ [a]) (snd ` set al)"
    using k by (simp add: al table_rep_def P_def tb_def lnk_def h1_def item_ok_def buckets_ok_def
        bucket_ok_def unat_of_nat)
  have key: "key_of P a = k" by (simp add: key_of_def P_def h1_def)
  have bk: "bkt_of (num_buckets tb) P a = HASH_TO_BKT (HASH_JEN k) 32" by (simp add: bkt_of_def P_def tb_def)
  have fin: "finite (dom (tbls P))" using M(2) by (simp add: P_def)
  obtain s' where s': "HASH_ADD_TO_BKT M t (HASH_TO_BKT (HASH_JEN k) 32) a P = Some s'"
      "ut_rel s' (Some a) (hash_add al k a)" "ut_frame {a} P s'"
      "\<forall>t'. t' \<noteq> t \<longrightarrow> tbls s' t' = tbls P t'" "levels s' (Some a) \<le> 6" "tbl_of s' (Some a) = Some t"
    using add_finish [OF T _ _ _ key _ M(1) fin] unfolding bk
    by (auto simp: al hash_ok_def hash_find_def tb_def)
  have "ut_frame {a} s s'" using s'(3) by (simp add: ut_frame_def P_def)
  moreover have "\<forall>t'. t' \<noteq> t \<longrightarrow> tbls s' t' = tbls s t'" using s'(4) by (simp add: P_def)
  moreover have "tbls s t = None" using t(2) by (simp add: s1_def)
  ultimately show ?thesis using eq s'(1,2,5,6) by auto
qed

text \<open>What an insertion into a table with elements has done before it comes to the buckets.\<close>

lemma add_prepared:
  assumes T: "table_ok s t tb es" and es: "es \<noteq> []" "a \<notin> set es" "Suc (length es) < 2 ^ 32"
    and a: "hhs s a = Some h" and k: "length k < 2 ^ 32"
    and l: "hhs s (tbl_tail tb) = Some hl"
    and P: "P = s\<lparr>tbls := (tbls s)(t \<mapsto> tb\<lparr>tbl_tail := a, num_items := num_items tb + 1\<rparr>),
       hhs := (hhs s)(a \<mapsto> h1, tbl_tail tb \<mapsto> hl\<lparr>hh_nxt := Some a\<rparr>,
         a \<mapsto> h\<lparr>hh_nxt := None, hh_key := k, hh_keylen := of_nat (length k), hh_prv := Some (tbl_tail tb),
                  hh_tbl := t, hh_hashv := HASH_JEN k\<rparr>)\<rparr>"
  shows "table_rep P t (tb\<lparr>tbl_tail := a, num_items := num_items tb + 1\<rparr>) (es @ [a]) (set es)"
    "\<And>x. x \<in> set es \<Longrightarrow> key_of P x = key_of s x" "key_of P a = k" "bkt_of nb P a = HASH_TO_BKT (HASH_JEN k) nb"
proof -
  let ?l = "tbl_tail tb"
  have tl: "lasto es None = Some ?l" using table_okD(4) [OF T] by simp
  then have lin: "?l \<in> set es" by (rule lasto_in)
  then have la: "?l \<noteq> a" using es(2) by auto
  have other: "hhs P x = hhs s x" if "x \<in> set es" "x \<noteq> ?l" for x using that es(2) by (auto simp: P)
  have last: "hhs P ?l = Some (hl\<lparr>hh_nxt := Some a\<rparr>)" using la by (simp add: P)
  have links: "lnk hh_next P x = lnk hh_next s x \<and> lnk hh_prev P x = lnk hh_prev s x
      \<and> bkt_of nb P x = bkt_of nb s x \<and> lnk hh_prv P x = lnk hh_prv s x \<and> key_of P x = key_of s x
      \<and> item_ok P t x" if "x \<in> set es" for x nb
    using that table_okD(6) [OF T that] l other [OF that] last
    by (cases "x = ?l") (auto simp: lnk_def bkt_of_def key_of_def item_ok_def)
  show "key_of P x = key_of s x" if "x \<in> set es" for x using links [OF that] by simp
  show "key_of P a = k" "bkt_of nb P a = HASH_TO_BKT (HASH_JEN k) nb" by (simp_all add: key_of_def bkt_of_def P)
  have "app_dll P (es @ [a])"
  proof (rule dll_snoc [OF table_okD(3,2) [OF T] es(2)])
    show "lnk hh_nxt P x = (if lasto es None = Some x then Some (Some a) else lnk hh_nxt s x)"
      if "x \<in> set es" for x
      using other [OF that] last by (auto simp: tl lnk_def)
    show "lnk hh_prv P x = lnk hh_prv s x" if "x \<in> set es" for x using links [OF that] by simp
    show "lnk hh_prv P a = Some (lasto es None)" by (simp add: tl) (simp add: lnk_def P)
    show "lnk hh_nxt P a = Some None" by (simp add: lnk_def P)
  qed
  moreover have "item_ok P t a" using k by (simp add: item_ok_def P unat_of_nat)
  then have "item_ok P t x" if "x \<in> set (es @ [a])" for x
    using that links [of x] by auto
  moreover have "unat (num_items tb + 1) = length (es @ [a])"
    using table_okD(5) [OF T] es(3) by (simp add: unat_word_ariths)
  moreover have "buckets_ok (num_buckets tb) P (tbl_buckets tb) (set es)"
    by (rule buckets_cong [OF table_okD(7) [OF T]]) (use links in blast)
  moreover have "tbls P t = Some (tb\<lparr>tbl_tail := a, num_items := num_items tb + 1\<rparr>)" by (simp add: P)
  moreover have "distinct (es @ [a])" "Some a = lasto (es @ [a]) None" using table_okD(2) [OF T] es(2) by simp_all
  ultimately show "table_rep P t (tb\<lparr>tbl_tail := a, num_items := num_items tb + 1\<rparr>) (es @ [a]) (set es)"
    unfolding table_rep_def using table_okD(8,9) [OF T] by (intro conjI ballI) simp_all
qed

lemma add_unfold:
  assumes x: "head = Some x" "x \<noteq> a" "item_ok s t x" and t: "tbls s t = Some tb" and a: "hhs s a = Some h"
    and l: "hhs s (tbl_tail tb) = Some hl" "hh_tbl hl = t" "tbl_tail tb \<noteq> a"
  shows "HASH_ADD_KEYPTR M head k a s =
      map_option (\<lambda>s'. (s', head)) (HASH_ADD_TO_BKT M t (HASH_TO_BKT (HASH_JEN k) (num_buckets tb)) a
        (s\<lparr>tbls := (tbls s)(t \<mapsto> tb\<lparr>tbl_tail := a, num_items := num_items tb + 1\<rparr>),
           hhs := (hhs s)(a \<mapsto> h\<lparr>hh_nxt := None, hh_key := k, hh_keylen := of_nat (length k)\<rparr>,
             tbl_tail tb \<mapsto> hl\<lparr>hh_nxt := Some a\<rparr>,
             a \<mapsto> h\<lparr>hh_nxt := None, hh_key := k, hh_keylen := of_nat (length k), hh_prv := Some (tbl_tail tb),
                  hh_tbl := t, hh_hashv := HASH_JEN k\<rparr>)\<rparr>))"
proof -
  define l where "l = tbl_tail tb"
  define h1 where "h1 = h\<lparr>hh_nxt := None, hh_key := k, hh_keylen := of_nat (length k)\<rparr>"
  define s1 where "s1 = s\<lparr>hhs := (hhs s)(a \<mapsto> h1)\<rparr>"
  define s2 where "s2 = s\<lparr>hhs := (hhs s)(a \<mapsto> h1, l \<mapsto> hl\<lparr>hh_nxt := Some a\<rparr>)\<rparr>"
  define s3 where "s3 = s\<lparr>hhs := (hhs s)(a \<mapsto> h1, l \<mapsto> hl\<lparr>hh_nxt := Some a\<rparr>, a \<mapsto> h1\<lparr>hh_prv := Some l\<rparr>)\<rparr>"
  define s4 where "s4 = s3\<lparr>tbls := (tbls s)(t \<mapsto> tb\<lparr>tbl_tail := a\<rparr>)\<rparr>"
  define tb1 where "tb1 = tb\<lparr>tbl_tail := a, num_items := num_items tb + 1\<rparr>"
  define s5 where "s5 = s3\<lparr>tbls := (tbls s)(t \<mapsto> tb1)\<rparr>"
  define s6 where "s6 = s\<lparr>tbls := (tbls s)(t \<mapsto> tb1),
     hhs := (hhs s)(a \<mapsto> h1, l \<mapsto> hl\<lparr>hh_nxt := Some a\<rparr>, a \<mapsto> h1\<lparr>hh_prv := Some l, hh_tbl := t\<rparr>)\<rparr>"
  define P where "P = s\<lparr>tbls := (tbls s)(t \<mapsto> tb1),
     hhs := (hhs s)(a \<mapsto> h1, l \<mapsto> hl\<lparr>hh_nxt := Some a\<rparr>,
       a \<mapsto> h1\<lparr>hh_prv := Some l, hh_tbl := t, hh_hashv := HASH_JEN k\<rparr>)\<rparr>"
  note la = assms(8) [folded l_def]
  have e: "upd_hh a (\<lambda>h. h\<lparr>hh_nxt := None, hh_key := k, hh_keylen := of_nat (length k)\<rparr>) s = Some s1"
      "upd_hh l (\<lambda>h. h\<lparr>hh_nxt := Some a\<rparr>) s1 = Some s2" "upd_hh a (\<lambda>h. h\<lparr>hh_prv := Some l\<rparr>) s2 = Some s3"
      "upd_tbl t (\<lambda>tb. tb\<lparr>tbl_tail := a\<rparr>) s3 = Some s4"
      "upd_tbl t (\<lambda>tb. tb\<lparr>num_items := num_items tb + 1\<rparr>) s4 = Some s5"
      "upd_hh a (\<lambda>h. h\<lparr>hh_tbl := t\<rparr>) s5 = Some s6" "upd_hh a (\<lambda>h. h\<lparr>hh_hashv := HASH_JEN k\<rparr>) s6 = Some P"
      "tbls s1 t = Some tb" "tbls s6 t = Some tb1"
    using a l(1) t la
    by (simp_all add: upd_hh_def upd_tbl_def s1_def s2_def s3_def s4_def s5_def s6_def P_def h1_def tb1_def l_def)
  have tof: "tbl_of s1 (Some x) = Some t" "tbl_of s4 (Some x) = Some t"
    using x(2,3) l(2) by (auto simp: tbl_of_def s1_def s4_def s3_def item_ok_def)
  have P: "P = s\<lparr>tbls := (tbls s)(t \<mapsto> tb\<lparr>tbl_tail := a, num_items := num_items tb + 1\<rparr>),
           hhs := (hhs s)(a \<mapsto> h\<lparr>hh_nxt := None, hh_key := k, hh_keylen := of_nat (length k)\<rparr>,
             tbl_tail tb \<mapsto> hl\<lparr>hh_nxt := Some a\<rparr>,
             a \<mapsto> h\<lparr>hh_nxt := None, hh_key := k, hh_keylen := of_nat (length k), hh_prv := Some (tbl_tail tb),
                  hh_tbl := t, hh_hashv := HASH_JEN k\<rparr>)\<rparr>"
    by (simp add: P_def h1_def tb1_def l_def)
  have nb: "num_buckets tb1 = num_buckets tb" by (simp add: tb1_def)
  show ?thesis
    unfolding HASH_ADD_KEYPTR_def x(1) P [symmetric] e(1)
    by (simp add: e tof Let_def map_option_case nb l_def [symmetric] split: option.split)
qed

lemma rel_add_more:
  assumes r: "ut_rel s head al" "al \<noteq> []" and k: "hash_find al k = None" "length k < 2 ^ 32"
    and a: "hhs s a = Some h" "a \<notin> snd ` set al" and len: "Suc (length al) < 2 ^ 32"
    and room: "levels s head < 31" and M: "malloc_ok M" "finite (dom (tbls s))"
  shows "\<exists>s'. HASH_ADD_KEYPTR M head k a s = Some (s', head) \<and> ut_rel s' head (hash_add al k a)
    \<and> ut_frame (insert a (snd ` set al)) s s' \<and> tbl_of s' head = tbl_of s head
    \<and> (\<forall>t'. Some t' \<noteq> tbl_of s head \<longrightarrow> tbls s' t' = tbls s t') \<and> levels s' head \<le> Suc (levels s head)"
proof -
  let ?es = "map snd al"
  from r obtain t tb where T: "table_ok s t tb ?es" and hd: "head = hdo ?es None" by (auto simp: ut_rel_def)
  obtain x where x: "head = Some x" "x \<in> set ?es" using hd r(2) by (cases al) auto
  have tof: "tbl_of s head = Some t" using table_okD(6) [OF T x(2)] by (auto simp: x(1) item_ok_def tbl_of_def)
  have lev: "levels s head = unat (log2_num_buckets tb)" using tof table_okD(1) [OF T] by (simp add: levels_def)
  have "tbl_tail tb \<in> set ?es" by (rule lasto_in [OF table_okD(4) [OF T, symmetric]])
  then obtain hl where l: "hhs s (tbl_tail tb) = Some hl" "hh_tbl hl = t" "tbl_tail tb \<noteq> a"
    using table_okD(6) [OF T] a(2) by (force simp: item_ok_def)
  have xa: "x \<noteq> a" using x(2) a(2) by auto
  define h1 where "h1 = h\<lparr>hh_nxt := None, hh_key := k, hh_keylen := of_nat (length k)\<rparr>"
  define tb1 where "tb1 = tb\<lparr>tbl_tail := a, num_items := num_items tb + 1\<rparr>"
  define P where "P = s\<lparr>tbls := (tbls s)(t \<mapsto> tb1),
       hhs := (hhs s)(a \<mapsto> h1, tbl_tail tb \<mapsto> hl\<lparr>hh_nxt := Some a\<rparr>,
         a \<mapsto> h\<lparr>hh_nxt := None, hh_key := k, hh_keylen := of_nat (length k), hh_prv := Some (tbl_tail tb),
                  hh_tbl := t, hh_hashv := HASH_JEN k\<rparr>)\<rparr>"
  have el: "item_ok s t x" by (rule table_okD(6) [OF T x(2)])
  have eq: "HASH_ADD_KEYPTR M head k a s =
      map_option (\<lambda>s'. (s', head)) (HASH_ADD_TO_BKT M t (HASH_TO_BKT (HASH_JEN k) (num_buckets tb)) a P)"
    unfolding P_def tb1_def h1_def
    by (rule add_unfold [OF x(1) xa el table_okD(1) [OF T] a(1) l(1,2,3)])
  have "a \<notin> set ?es" "?es \<noteq> []" "Suc (length ?es) < 2 ^ 32" using a(2) r(2) len by auto
  note prep = add_prepared [OF T this(2,1,3) a(1) k(2) l(1) P_def [unfolded tb1_def], folded tb1_def]
  have keys: "\<forall>(k, a) \<in> set al. key_of P a = k"
  proof clarify
    fix k' a' assume el: "(k', a') \<in> set al"
    then have "a' \<in> set ?es" by force
    with r(1) el show "key_of P a' = k'" unfolding ut_rel_def by (simp only: prep(2)) blast
  qed
  have ok: "hash_ok al" using r(1) by (simp add: ut_rel_def)
  have nb: "num_buckets tb1 = num_buckets tb" "log2_num_buckets tb1 = log2_num_buckets tb" by (simp_all add: tb1_def)
  have fin: "finite (dom (tbls P))" using M(2) by (simp add: P_def)
  have hx': "hdo (?es @ [a]) None = head" using hd r(2) by (cases al) simp_all
  have T1: "table_rep P t tb1 (?es @ [a]) (snd ` set al)" using prep(1) by simp
  obtain s' where s': "HASH_ADD_TO_BKT M t (HASH_TO_BKT (HASH_JEN k) (num_buckets tb)) a P = Some s'"
      "ut_rel s' head (hash_add al k a)" "ut_frame (insert a (snd ` set al)) P s'"
      "\<forall>t'. t' \<noteq> t \<longrightarrow> tbls s' t' = tbls P t'" "levels s' head \<le> Suc (levels s head)" "tbl_of s' head = Some t"
    using add_finish [OF T1 ok k(1) keys prep(3) _ M(1) fin] room unfolding prep(4) hx' nb lev by auto
  have "ut_frame (insert a (snd ` set al)) s s'"
    using s'(3) \<open>tbl_tail tb \<in> set ?es\<close> by (auto simp: ut_frame_def P_def)
  moreover have "\<forall>t'. t' \<noteq> t \<longrightarrow> tbls s' t' = tbls s t'" using s'(4) by (simp add: P_def)
  ultimately show ?thesis using eq s'(1,2,5,6) tof by auto
qed

end
