(* ===== verification/UtHashDel.thy ===== *)
theory UtHashDel
  imports UtHashRefine
begin

text \<open>Deleting from the hash table: the two unlinkings, and the list that is left.\<close>

lemma upd_opt_spec:
  assumes "\<forall>x. p = Some x \<longrightarrow> hhs s x \<noteq> None"
  shows "\<exists>s'. (case p of None \<Rightarrow> Some s | Some x \<Rightarrow> upd_hh x g s) = Some s' \<and> tbls s' = tbls s
    \<and> (\<forall>x. hhs s' x = (if p = Some x then map_option g (hhs s x) else hhs s x))"
proof (cases p)
  case (Some x)
  with assms obtain h where "hhs s x = Some h" by auto
  with Some show ?thesis by auto
qed simp

text \<open>The neighbours \<open>p\<close> and \<open>n\<close> of an element are linked to each other.\<close>

lemma unlink_pair:
  assumes "\<forall>x. p = Some x \<longrightarrow> hhs s x \<noteq> None" "\<forall>x. n = Some x \<longrightarrow> hhs s x \<noteq> None"
  obtains s1 s2 where "(case p of None \<Rightarrow> Some s | Some x \<Rightarrow> upd_hh x f s) = Some s1"
    "(case n of None \<Rightarrow> Some s1 | Some x \<Rightarrow> upd_hh x g s1) = Some s2" "tbls s2 = tbls s" "tbls s1 = tbls s"
    "\<And>x. p \<noteq> Some x \<Longrightarrow> hhs s1 x = hhs s x"
    "\<And>x. hhs s2 x = map_option (\<lambda>h. (if n = Some x then g else id) ((if p = Some x then f else id) h)) (hhs s x)"
proof -
  from upd_opt_spec [OF assms(1), of f] obtain s1 where 1: "(case p of None \<Rightarrow> Some s | Some x \<Rightarrow> upd_hh x f s) = Some s1"
      "tbls s1 = tbls s" "\<forall>x. hhs s1 x = (if p = Some x then map_option f (hhs s x) else hhs s x)" by blast
  then have "\<forall>x. n = Some x \<longrightarrow> hhs s1 x \<noteq> None" using assms(2) by simp
  from upd_opt_spec [OF this, of g] obtain s2 where 2: "(case n of None \<Rightarrow> Some s1 | Some x \<Rightarrow> upd_hh x g s1) = Some s2"
      "tbls s2 = tbls s1" "\<forall>x. hhs s2 x = (if n = Some x then map_option g (hhs s1 x) else hhs s1 x)" by blast
  have "hhs s2 x = map_option (\<lambda>h. (if n = Some x then g else id) ((if p = Some x then f else id) h)) (hhs s x)" for x
    using 1(3) 2(3) by (cases "hhs s x") simp_all
  with 1 2 show ?thesis by (intro that [of s1 s2]) simp_all
qed

subsection \<open>The bucket order\<close>

lemma buckets_drop:
  assumes B: "buckets_ok nb s bs D" and i: "i < length bs"
    and c: "set (us @ a # vs) = {x \<in> D. bkt_of nb s x = i}" "a \<notin> set (us @ vs)"
    and r: "relinked (set (us @ vs)) s s'" and b: "bucket_ok s' b (us @ vs)"
  shows "buckets_ok nb s' (bs[i := b]) (D - {a})"
  unfolding buckets_ok_def
proof (intro conjI allI impI)
  fix j assume j: "j < length (bs[i := b])"
  note bk_eq = relinked_bkt [OF r]
  show "\<exists>c. bucket_ok s' (bs[i := b] ! j) c \<and> set c = {x \<in> D - {a}. bkt_of nb s' x = j}"
  proof (cases "j = i")
    case True
    have "set (us @ vs) = {x \<in> D - {a}. bkt_of nb s' x = j}" using c True by (auto simp: bk_eq)
    with b True i show ?thesis by auto
  next
    case False
    with B j obtain e where e: "bucket_ok s (bs ! j) e" "set e = {a \<in> D. bkt_of nb s a = j}"
      by (auto simp: buckets_ok_def)
    have "set e \<inter> set (us @ vs) = {}" using e(2) c False by auto
    then have "bucket_ok s' (bs ! j) e" by (rule buckets_relinked [OF r e(1)])
    moreover have "bkt_of nb s a = i" using c(1) by auto
    ultimately show ?thesis using e(2) False by (intro exI [of _ e]) (auto simp: bk_eq)
  qed
qed (use B in \<open>simp add: buckets_ok_def\<close>)

lemma del_in_bkt_spec:
  assumes B: "buckets_ok nb s (tbl_buckets tb) D" and t: "tbls s t = Some tb"
    and a: "a \<in> D" "bkt_of nb s a = i" "i < length (tbl_buckets tb)"
  obtains s1 bs where "HASH_DEL_IN_BKT t i a s = Some (s1\<lparr>tbls := (tbls s)(t \<mapsto> tb\<lparr>tbl_buckets := bs\<rparr>)\<rparr>)"
    "relinked D s s1" "buckets_ok nb s1 bs (D - {a})"
proof -
  let ?b = "tbl_buckets tb ! i"
  from B a(3) obtain c where c: "bucket_ok s ?b c" "set c = {a \<in> D. bkt_of nb s a = i}"
    by (auto simp: buckets_ok_def)
  then have "a \<in> set c" using a by simp
  then obtain us vs where uv: "c = us @ a # vs" by (auto simp: in_set_conv_decomp)
  have dl: "bkt_dll s None (us @ a # vs)" and dist: "distinct (us @ a # vs)"
    and hd: "hh_head ?b = hdo c None" and cnt: "unat (bkt_count ?b) = length c"
    using c(1) uv by (auto simp: bucket_ok_def)
  obtain d where d: "hhs s a = Some d" "hh_prev d = lasto us None" "hh_next d = hdo vs None"
    using dl by (auto simp: dll_split lnk_def)
  have alloc: "hhs s x \<noteq> None" if "x \<in> set c" for x
    using dll_dom [OF dl] that uv by (auto simp: lnk_def)
  define b where "b = ?b\<lparr>bkt_count := bkt_count ?b - 1, hh_head := if hh_head ?b = Some a then hh_next d else hh_head ?b\<rparr>"
  define s0 where "s0 = s\<lparr>tbls := (tbls s)(t \<mapsto> tb\<lparr>tbl_buckets := (tbl_buckets tb)[i := b]\<rparr>)\<rparr>"
  have s0: "hhs s0 = hhs s" by (simp add: s0_def)
  have al1: "\<forall>x. hh_prev d = Some x \<longrightarrow> hhs s0 x \<noteq> None" using alloc uv by (auto simp: s0 d dest!: lasto_in)
  have al2: "\<forall>x. hh_next d = Some x \<longrightarrow> hhs s0 x \<noteq> None" using alloc uv by (auto simp: s0 d dest!: hdo_in)
  obtain s1 s2 where u: "(case hh_prev d of None \<Rightarrow> Some s0 | Some x \<Rightarrow> upd_hh x (\<lambda>h. h\<lparr>hh_next := hh_next d\<rparr>) s0) = Some s1"
      "(case hh_next d of None \<Rightarrow> Some s1 | Some x \<Rightarrow> upd_hh x (\<lambda>h. h\<lparr>hh_prev := hh_prev d\<rparr>) s1) = Some s2"
      "tbls s2 = tbls s0" "tbls s1 = tbls s0" "\<And>x. hh_prev d \<noteq> Some x \<Longrightarrow> hhs s1 x = hhs s0 x"
      "\<And>x. hhs s2 x = map_option (\<lambda>h. (if hh_next d = Some x then \<lambda>h. h\<lparr>hh_prev := hh_prev d\<rparr> else id)
         ((if hh_prev d = Some x then \<lambda>h. h\<lparr>hh_next := hh_next d\<rparr> else id) h)) (hhs s0 x)"
    by (rule unlink_pair [OF al1 al2, where f = "\<lambda>h. h\<lparr>hh_next := hh_next d\<rparr>" and g = "\<lambda>h. h\<lparr>hh_prev := hh_prev d\<rparr>"]) blast
  have d1: "hhs s1 a = Some d" using u(5) [of a] dist d by (auto simp: s0 dest!: lasto_in)
  let ?s = "s2\<lparr>tbls := tbls s\<rparr>" and ?bs = "(tbl_buckets tb)[i := b]"
  have ub: "upd_tbl t (\<lambda>tb'. tb'\<lparr>tbl_buckets := (tbl_buckets tb')[i := ?b\<lparr>bkt_count := bkt_count ?b - 1,
      hh_head := if hh_head ?b = Some a then hh_next d else hh_head ?b\<rparr>]\<rparr>) s = Some s0"
    using t by (simp add: s0_def b_def)
  have step: "HASH_DEL_IN_BKT t i a s = Some s2"
    using t a(3) d(1) u(1,2) d1 by (simp add: HASH_DEL_IN_BKT_def Let_def ub split del: if_split)
  have "s2 = ?s\<lparr>tbls := (tbls s)(t \<mapsto> tb\<lparr>tbl_buckets := ?bs\<rparr>)\<rparr>" using u(3) by (simp add: s0_def)
  with step have eq: "HASH_DEL_IN_BKT t i a s = Some (?s\<lparr>tbls := (tbls s)(t \<mapsto> tb\<lparr>tbl_buckets := ?bs\<rparr>)\<rparr>)" by simp
  have r: "relinked (set (us @ vs)) s ?s"
    unfolding relinked_def by (auto simp: u(6) s0 d option.map_comp app_part_def comp_def dest!: lasto_in hdo_in
        intro!: option.map_cong0 map_option_idI)
  have "bkt_dll ?s None (us @ vs)"
    by (rule dll_remove [OF dl dist])
       (use alloc uv in \<open>fastforce simp: lnk_def u(6) s0 d\<close>)+
  moreover have "unat (bkt_count ?b - 1) = length (us @ vs)"
    using cnt uv by (simp add: unat_sub_if' unat_eq_0 word_neq_0_conv)
  moreover have "hh_head b = hdo (us @ vs) None"
    using hd uv d dist by (cases us) (auto simp: b_def)
  ultimately have bk: "bucket_ok ?s b (us @ vs)" using dist by (simp add: bucket_ok_def b_def)
  have "buckets_ok nb ?s ?bs (D - {a})"
    by (rule buckets_drop [OF B a(3) _ _ r bk]) (use c(2) uv dist in auto)
  moreover have "relinked D s ?s"
    by (rule relinked_trans [OF r relinked_refl [where A = D]]) (use c(2) uv in auto)
  ultimately show ?thesis using that [OF eq] by simp
qed

subsection \<open>The order of insertion\<close>

definition bkt_part :: "UT_hash_handle \<Rightarrow> addr \<times> addr option \<times> addr option \<times> string \<times> u32 \<times> u32" where
  "bkt_part h = (hh_tbl h, hh_prev h, hh_next h, hh_key h, hh_keylen h, hh_hashv h)"

text \<open>The rest of a deletion once the element is out of the order of insertion.\<close>

definition del_rest :: "addr \<Rightarrow> nat \<Rightarrow> addr \<Rightarrow> addr option \<Rightarrow> ut_heap \<Rightarrow> (ut_heap \<times> addr option) option" where
  "del_rest t i a head s = do {
     s \<leftarrow> HASH_DEL_IN_BKT t i a s;
     s \<leftarrow> upd_tbl t (\<lambda>tb. tb\<lparr>num_items := num_items tb - 1\<rparr>) s;
     Some (s, head) }"

lemma unlink_app:
  assumes T: "table_ok s t tb (xs @ a # ys)" and ne: "xs @ ys \<noteq> []"
  obtains S l where "HASH_DELETE (hdo (xs @ a # ys) None) a s
      = del_rest t (bkt_of (num_buckets tb) s a) a (hdo (xs @ ys) None) S"
    "tbls S = (tbls s)(t \<mapsto> tb\<lparr>tbl_tail := l\<rparr>)" "lasto (xs @ ys) None = Some l" "app_dll S (xs @ ys)"
    "\<And>x. map_option bkt_part (hhs S x) = map_option bkt_part (hhs s x)"
    "ut_frame (set (xs @ ys)) s S"
proof -
  have dl: "app_dll s (xs @ a # ys)" and dist: "distinct (xs @ a # ys)"
    using table_okD(2,3) [OF T] by blast+
  have t: "tbls s t = Some tb" by (rule table_okD(1) [OF T])
  have el: "item_ok s t x" if "x \<in> set (xs @ a # ys)" for x by (rule table_okD(6) [OF T that])
  obtain d where d: "hhs s a = Some d" "hh_prv d = lasto xs None" "hh_nxt d = hdo ys None"
    using dl by (auto simp: dll_split lnk_def)
  obtain l where l: "lasto (xs @ ys) None = Some l" using ne by (auto simp: lasto_def split: if_splits)
  have tail: "Some (tbl_tail tb) = lasto ys (Some a)" using table_okD(4) [OF T] by simp
  define s1 where "s1 = s\<lparr>tbls := (tbls s)(t \<mapsto> tb\<lparr>tbl_tail := l\<rparr>)\<rparr>"
  have s1: "hhs s1 = hhs s" by (simp add: s1_def)
  have 1: "(if a = tbl_tail tb then do { p \<leftarrow> hh_prv d; upd_tbl t (\<lambda>tb. tb\<lparr>tbl_tail := p\<rparr>) s } else Some s) = Some s1"
  proof (cases "ys = []")
    case True then show ?thesis using tail l d t by (simp add: s1_def)
  next
    case False
    then have "tbl_tail tb = l" "l \<in> set ys" using tail l last_in_set [OF False] by (auto simp: lasto_def)
    moreover from this have "l \<noteq> a" using dist by auto
    moreover from calculation have "s1 = s" using t by (simp add: s1_def map_upd_triv)
    ultimately show ?thesis by simp
  qed
  have al1: "\<forall>x. hh_prv d = Some x \<longrightarrow> hhs s1 x \<noteq> None" using el by (auto simp: s1 d dest!: lasto_in item_ok_alloc)
  have al2: "\<forall>x. hh_nxt d = Some x \<longrightarrow> hhs s1 x \<noteq> None" using el by (auto simp: s1 d dest!: hdo_in item_ok_alloc)
  obtain s2 s3 where u: "(case hh_prv d of None \<Rightarrow> Some s1 | Some x \<Rightarrow> upd_hh x (\<lambda>h. h\<lparr>hh_nxt := hh_nxt d\<rparr>) s1) = Some s2"
      "(case hh_nxt d of None \<Rightarrow> Some s2 | Some x \<Rightarrow> upd_hh x (\<lambda>h. h\<lparr>hh_prv := hh_prv d\<rparr>) s2) = Some s3"
      "tbls s3 = tbls s1" "tbls s2 = tbls s1" "\<And>x. hh_prv d \<noteq> Some x \<Longrightarrow> hhs s2 x = hhs s1 x"
      "\<And>x. hhs s3 x = map_option (\<lambda>h. (if hh_nxt d = Some x then \<lambda>h. h\<lparr>hh_prv := hh_prv d\<rparr> else id)
         ((if hh_prv d = Some x then \<lambda>h. h\<lparr>hh_nxt := hh_nxt d\<rparr> else id) h)) (hhs s1 x)"
    by (rule unlink_pair [OF al1 al2, where f = "\<lambda>h. h\<lparr>hh_nxt := hh_nxt d\<rparr>" and g = "\<lambda>h. h\<lparr>hh_prv := hh_prv d\<rparr>"]) blast
  have d2: "hhs s2 a = Some d" using u(5) [of a] dist d by (auto simp: s1 dest!: lasto_in)
  have bp: "map_option bkt_part (hhs s3 x) = map_option bkt_part (hhs s x)" for x
    by (cases "hhs s x") (auto simp: u(6) s1 bkt_part_def)
  have tb3: "tbls s3 = (tbls s)(t \<mapsto> tb\<lparr>tbl_tail := l\<rparr>)" using u(3) by (simp add: s1_def)
  obtain x where x: "hdo (xs @ ys) None = Some x" "x \<in> set (xs @ ys)"
    using ne by (cases xs; cases ys) auto
  have tof: "tbl_of s3 (Some x) = Some t"
    using el [of x] x(2) bp [of x] by (auto simp: item_ok_def tbl_of_def bkt_part_def)
  obtain y where y: "hdo (xs @ a # ys) None = Some y" "y \<in> set (xs @ a # ys)" by (cases xs) auto
  have tofh: "tbl_of s (Some y) = Some t" using el [OF y(2)] by (auto simp: item_ok_def tbl_of_def)
  have hd': "(case hh_prv d of None \<Rightarrow> hh_nxt d | Some p \<Rightarrow> Some y) = Some x"
    using y(1) x(1) by (cases xs) (auto simp: d lasto_def)
  have not_single: "(hh_prv d = None \<and> hh_nxt d = None) = False" using ne by (auto simp: d lasto_None_iff hdo_None_iff)
  have bk: "HASH_TO_BKT (hh_hashv d) (num_buckets tb) = bkt_of (num_buckets tb) s a" by (simp add: bkt_of_def d(1))
  have step2: "(case hh_prv d of Some p \<Rightarrow> do { s \<leftarrow> upd_hh p (\<lambda>h. h\<lparr>hh_nxt := hh_nxt d\<rparr>) s1; Some (s, Some y) }
          | None \<Rightarrow> Some (s1, hh_nxt d)) = Some (s2, Some x)"
    using u(1) hd' by (cases "hh_prv d") auto
  have eq: "HASH_DELETE (Some y) a s = del_rest t (bkt_of (num_buckets tb) s a) a (Some x) s3"
    unfolding HASH_DELETE_def
    by (simp add: d(1) not_single tofh t 1 step2 d2 u(2) tof tb3 bk del_rest_def
        del: upd_hh_Some upd_tbl_Some)
  have "app_dll s3 (xs @ ys)"
  proof (rule dll_remove [OF dl dist])
    show "lnk hh_nxt s3 z = (if lasto xs None = Some z then Some (hdo ys None) else lnk hh_nxt s z)"
      if "z \<in> set (xs @ ys)" for z
      using el [of z] that by (cases "hhs s z") (auto simp: lnk_def u(6) s1 d item_ok_def)
    show "lnk hh_prv s3 z = (if hdo ys None = Some z then Some (lasto xs None) else lnk hh_prv s z)"
      if "z \<in> set (xs @ ys)" for z
      using el [of z] that by (cases "hhs s z") (auto simp: lnk_def u(6) s1 d item_ok_def)
  qed
  moreover have "ut_frame (set (xs @ ys)) s s3"
    by (auto simp: ut_frame_def u(6) s1 d option.map_id0 dest!: lasto_in hdo_in)
  ultimately show ?thesis using that [of s3 l] eq tb3 l bp x(1) y(1) by simp
qed

text \<open>Changes to the order of insertion alone.\<close>

lemma bkt_part_same:
  assumes "\<And>x. map_option bkt_part (hhs s' x) = map_option bkt_part (hhs s x)"
  shows "lnk hh_next s' x = lnk hh_next s x" "lnk hh_prev s' x = lnk hh_prev s x"
    "bkt_of nb s' x = bkt_of nb s x" "item_ok s' t x = item_ok s t x" "key_of s' x = key_of s x"
  using assms [of x]
  by (cases "hhs s x"; cases "hhs s' x"; auto simp: lnk_def bkt_of_def item_ok_def key_of_def bkt_part_def)+

lemma del_table:
  assumes T: "table_ok s t tb (xs @ a # ys)" and ne: "xs @ ys \<noteq> []"
  obtains s' tb' where "HASH_DELETE (hdo (xs @ a # ys) None) a s = Some (s', hdo (xs @ ys) None)"
    "table_ok s' t tb' (xs @ ys)" "log2_num_buckets tb' = log2_num_buckets tb"
    "\<And>x. key_of s' x = key_of s x" "ut_frame (set (xs @ a # ys)) s s'" "\<And>t'. t' \<noteq> t \<Longrightarrow> tbls s' t' = tbls s t'"
    "\<And>x. (hhs s' x = None) = (hhs s x = None)"
proof -
  let ?es = "xs @ a # ys"
  obtain S l where S: "HASH_DELETE (hdo ?es None) a s = del_rest t (bkt_of (num_buckets tb) s a) a (hdo (xs @ ys) None) S"
    "tbls S = (tbls s)(t \<mapsto> tb\<lparr>tbl_tail := l\<rparr>)" "lasto (xs @ ys) None = Some l" "app_dll S (xs @ ys)"
    "\<And>x. map_option bkt_part (hhs S x) = map_option bkt_part (hhs s x)" "ut_frame (set (xs @ ys)) s S"
    by (rule unlink_app [OF T ne]) blast
  note same = bkt_part_same [OF S(5)]
  let ?tb = "tb\<lparr>tbl_tail := l\<rparr>" and ?i = "bkt_of (num_buckets tb) s a"
  have "buckets_ok (num_buckets tb) S (tbl_buckets tb) (set ?es)"
    by (rule buckets_cong [OF table_okD(7) [OF T]]) (simp add: same)
  then have B: "buckets_ok (num_buckets tb) S (tbl_buckets ?tb) (set ?es)" by simp
  have i: "bkt_of (num_buckets tb) S a = ?i" by (rule same)
  have il: "?i < length (tbl_buckets ?tb)" using table_bkt [OF T] by (simp add: bkt_of_def)
  have St: "tbls S t = Some ?tb" by (simp add: S(2))
  obtain s1 bs where 1: "HASH_DEL_IN_BKT t ?i a S = Some (s1\<lparr>tbls := (tbls S)(t \<mapsto> ?tb\<lparr>tbl_buckets := bs\<rparr>)\<rparr>)"
      "relinked (set ?es) S s1" "buckets_ok (num_buckets tb) s1 bs (set ?es - {a})"
    by (rule del_in_bkt_spec [OF B St _ i il]) auto
  define tb' where "tb' = tb\<lparr>tbl_tail := l, tbl_buckets := bs, num_items := num_items tb - 1\<rparr>"
  define s' where "s' = s1\<lparr>tbls := (tbls s)(t \<mapsto> tb')\<rparr>"
  have eq: "HASH_DELETE (hdo ?es None) a s = Some (s', hdo (xs @ ys) None)"
    by (simp only: S(1)) (simp add: del_rest_def 1(1) upd_tbl_def S(2) s'_def tb'_def)
  have dist: "distinct ?es" by (rule table_okD(2) [OF T])
  then have un: "set ?es - {a} = set (xs @ ys)" by auto
  have items: "unat (num_items tb') = length (xs @ ys)"
    using table_okD(5) [OF T] by (simp add: tb'_def unat_sub_if' unat_eq_0 word_neq_0_conv)
  have "app_dll s' (xs @ ys)" using S(4) by (simp add: s'_def relinked_app [OF 1(2)])
  moreover have "item_ok s' t x" if "x \<in> set (xs @ ys)" for x
    using that table_okD(6) [OF T, of x] by (auto simp: s'_def relinked_elem [OF 1(2)] same)
  moreover have "buckets_ok (num_buckets tb') s' (tbl_buckets tb') (set (xs @ ys))"
    using 1(3) un by (simp add: s'_def tb'_def)
  ultimately have T': "table_ok s' t tb' (xs @ ys)"
    unfolding table_rep_def using items dist S(3) table_okD(8,9) [OF T]
    by (intro conjI ballI) (simp_all add: s'_def tb'_def)
  have fr: "ut_frame (set ?es) s s'"
    using S(6) 1(2) by (auto simp: ut_frame_def relinked_def s'_def)
  have alloc: "(hhs s' x = None) = (hhs s x = None)" for x
    using relinked_None [OF 1(2), of x] S(5) [of x] by (cases "hhs s x"; cases "hhs S x"; simp add: s'_def)
  show ?thesis
    by (rule that [OF eq T' _ _ fr _ alloc]) (simp_all add: tb'_def s'_def relinked_key [OF 1(2)] same)
qed

lemma rel_del:
  assumes r: "ut_rel s head al" and k: "hash_find al k = Some a"
  shows "\<exists>s' head'. HASH_DELETE head a s = Some (s', head') \<and> ut_rel s' head' (hash_del al k)
    \<and> ut_frame (snd ` set al) s s' \<and> (\<forall>t'. Some t' \<noteq> tbl_of s head \<longrightarrow> tbls s' t' = tbls s t')
    \<and> (head' \<noteq> None \<longrightarrow> levels s' head' = levels s head \<and> tbl_of s' head' = tbl_of s head) \<and> (\<forall>x. (hhs s' x = None) = (hhs s x = None))"
proof -
  from k obtain us vs where al: "al = us @ (k, a) # vs"
    using hash_find_in split_list by metis
  have "distinct (map fst al)" using r by (simp add: ut_rel_def hash_ok_def)
  then have kn: "k \<notin> fst ` set us" "k \<notin> fst ` set vs" by (auto simp: al)
  have "filter (\<lambda>e. fst e \<noteq> k) us = us" "filter (\<lambda>e. fst e \<noteq> k) vs = vs"
    using kn by (intro filter_True ballI, auto)+
  then have del: "hash_del al k = us @ vs" by (simp add: hash_del_def al)
  let ?xs = "map snd us" and ?ys = "map snd vs"
  from r obtain t tb where T: "table_ok s t tb (?xs @ a # ?ys)" and hd: "head = hdo (?xs @ a # ?ys) None"
    unfolding ut_rel_def al by auto
  obtain x where x: "head = Some x" "x \<in> set (?xs @ a # ?ys)" using hd by (cases us) auto
  have tof: "tbl_of s head = Some t" using table_okD(6) [OF T x(2)] by (auto simp: x(1) item_ok_def tbl_of_def)
  show ?thesis
  proof (cases "?xs @ ?ys = []")
    case True
    have "lnk hh_prv s a = Some None" "lnk hh_nxt s a = Some None" using table_okD(3) [OF T] True by auto
    then have "HASH_DELETE head a s = Some (s\<lparr>tbls := (tbls s)(t := None)\<rparr>, None)"
      using tof table_okD(1) [OF T] by (auto simp: HASH_DELETE_def lnk_def)
    then show ?thesis using True tof del by (auto simp: ut_rel_def ut_frame_def hash_ok_def)
  next
    case False
    obtain s' tb' where s': "HASH_DELETE (hdo (?xs @ a # ?ys) None) a s = Some (s', hdo (?xs @ ?ys) None)"
      "table_ok s' t tb' (?xs @ ?ys)" "log2_num_buckets tb' = log2_num_buckets tb"
      "\<And>x. key_of s' x = key_of s x" "ut_frame (set (?xs @ a # ?ys)) s s'" "\<And>t'. t' \<noteq> t \<Longrightarrow> tbls s' t' = tbls s t'"
      "\<And>x. (hhs s' x = None) = (hhs s x = None)"
      by (rule del_table [OF T False]) blast
    have "ut_rel s' (hdo (?xs @ ?ys) None) (us @ vs)"
      using r s'(2) unfolding ut_rel_def al by (auto simp: s'(4) hash_ok_def)
    moreover have "levels s' (hdo (?xs @ ?ys) None) = levels s head \<and> tbl_of s' (hdo (?xs @ ?ys) None) = tbl_of s head"
    proof -
      obtain y where y: "hdo (?xs @ ?ys) None = Some y" "y \<in> set (?xs @ ?ys)" using False by (cases us; cases vs) auto
      have "tbl_of s' (Some y) = Some t" using table_okD(6) [OF s'(2) y(2)] by (auto simp: item_ok_def tbl_of_def)
      then show ?thesis using tof table_okD(1) [OF s'(2)] table_okD(1) [OF T] s'(3)
        unfolding y(1) by (simp add: levels_def)
    qed
    moreover have "ut_frame (snd ` set al) s s'" using s'(5) by (simp add: al image_Un)
    ultimately show ?thesis using s'(1,6,7) tof unfolding hd del by auto
  qed
qed

subsection \<open>Counting and iterating\<close>

lemma rel_cnt:
  assumes r: "ut_rel s head al"
  shows "HASH_CNT s head = Some (of_nat (hash_count al))"
proof (cases al)
  case (Cons e al')
  with r obtain t tb where T: "table_ok s t tb (map snd al)" and hd: "head = Some (snd e)"
    unfolding ut_rel_def by auto
  have "tbl_of s head = Some t" using table_okD(6) [OF T, of "snd e"] Cons hd by (auto simp: item_ok_def tbl_of_def)
  moreover have "of_nat (length (map snd al)) = num_items tb"
    unfolding table_okD(5) [OF T, symmetric] by simp
  ultimately show ?thesis using table_okD(1) [OF T] hd by (simp add: HASH_CNT_def hash_count_def)
qed (use r in \<open>simp add: ut_rel_def HASH_CNT_def hash_count_def\<close>)

lemma iter_dll: "dll (lnk hh_nxt s) P p es None \<Longrightarrow> HASH_ITER s (hdo es None) = Some es"
proof (induction es arbitrary: p)
  case (Cons a es)
  then obtain h where "hhs s a = Some h" "hh_nxt h = hdo es None" by (auto simp: lnk_def)
  with Cons.IH [of "Some a"] Cons.prems show ?case by (subst HASH_ITER.simps) simp
qed (simp add: HASH_ITER.simps)

lemma rel_iter:
  assumes r: "ut_rel s head al"
  shows "HASH_ITER s head = Some (map snd al)"
proof (cases "al = []")
  case False
  with r obtain t tb where T: "table_ok s t tb (map snd al)" and hd: "head = hdo (map snd al) None"
    unfolding ut_rel_def by auto
  show ?thesis unfolding hd by (rule iter_dll [OF table_okD(3) [OF T]])
qed (use r in \<open>simp add: ut_rel_def HASH_ITER.simps\<close>)

text \<open>An insertion, into an empty table or not.\<close>

lemma rel_add:
  assumes r: "ut_rel s head al" and k: "hash_find al k = None" "length k < 2 ^ 32"
    and a: "hhs s a \<noteq> None" "a \<notin> snd ` set al" and len: "Suc (length al) < 2 ^ 32"
    and room: "levels s head < 31" and M: "malloc_ok M" "finite (dom (tbls s))"
  shows "\<exists>s' head' t. HASH_ADD_KEYPTR M head k a s = Some (s', head') \<and> ut_rel s' head' (hash_add al k a)
    \<and> ut_frame (insert a (snd ` set al)) s s' \<and> tbl_of s' head' = Some t
    \<and> (head \<noteq> None \<longrightarrow> tbl_of s head = Some t) \<and> (head = None \<longrightarrow> tbls s t = None)
    \<and> (\<forall>t'. t' \<noteq> t \<longrightarrow> tbls s' t' = tbls s t') \<and> levels s' head' \<le> Suc (levels s head)"
proof -
  obtain h where h: "hhs s a = Some h" using a(1) by auto
  show ?thesis
  proof (cases "al = []")
    case True
    then have hd: "head = None" using r by (simp add: ut_rel_def)
    obtain s' t where s': "HASH_ADD_KEYPTR M head k a s = Some (s', Some a)" "ut_rel s' (Some a) (hash_add al k a)"
        "ut_frame {a} s s'" "tbl_of s' (Some a) = Some t" "tbls s t = None"
        "\<forall>t'. t' \<noteq> t \<longrightarrow> tbls s' t' = tbls s t'" "levels s' (Some a) \<le> 6"
      using rel_add_first [OF True hd h k(2) M] by blast
    have "levels s head = 5" by (simp add: hd levels_def tbl_of_def)
    with s' True hd show ?thesis by (intro exI [of _ s'] exI [of _ "Some a"] exI [of _ t]) simp
  next
    case False
    obtain s' where s': "HASH_ADD_KEYPTR M head k a s = Some (s', head)" "ut_rel s' head (hash_add al k a)"
        "ut_frame (insert a (snd ` set al)) s s'" "tbl_of s' head = tbl_of s head"
        "\<forall>t'. Some t' \<noteq> tbl_of s head \<longrightarrow> tbls s' t' = tbls s t'" "levels s' head \<le> Suc (levels s head)"
      using rel_add_more [OF r False k h a(2) len room M] by blast
    from r False obtain t tb e es where T: "table_ok s t tb (map snd al)" and hd: "head = Some e" "map snd al = e # es"
      unfolding ut_rel_def by (cases al) auto
    have "tbl_of s head = Some t" using table_okD(6) [OF T, of e] hd by (auto simp: item_ok_def tbl_of_def)
    with s' hd(1) show ?thesis by auto
  qed
qed

text \<open>A table of other elements is not affected.\<close>

lemma rel_frame:
  assumes r: "ut_rel s head al" and f: "ut_frame A s s'" "snd ` set al \<inter> A = {}"
    and t: "\<And>t. tbl_of s head = Some t \<Longrightarrow> tbls s' t = tbls s t"
  shows "ut_rel s' head al"
proof -
  have same: "hhs s' a = hhs s a" if "(k, a) \<in> set al" for k a
    using that f by (force simp: ut_frame_def)
  have keys: "\<forall>(k, a) \<in> set al. key_of s' a = k" using r same by (auto simp: ut_rel_def key_of_def)
  have "\<exists>t tb. table_ok s' t tb (map snd al)" if ne: "al \<noteq> []"
  proof -
    from r ne obtain t tb where T: "table_ok s t tb (map snd al)" and hd: "head = hdo (map snd al) None"
      unfolding ut_rel_def by auto
    obtain x where x: "head = Some x" "x \<in> set (map snd al)" using hd ne by (cases al) auto
    have tof: "tbl_of s head = Some t" using table_okD(6) [OF T x(2)] by (auto simp: x(1) item_ok_def tbl_of_def)
    have eq: "hhs s' y = hhs s y" if "y \<in> set (map snd al)" for y using that same by auto
    have "app_dll s' (map snd al) = app_dll s (map snd al)" by (rule dll_cong) (simp_all add: lnk_def eq)
    moreover have "buckets_ok (num_buckets tb) s' (tbl_buckets tb) (set (map snd al))"
      by (rule buckets_cong [OF table_okD(7) [OF T]]) (simp add: lnk_def bkt_of_def eq)
    moreover have "item_ok s' t y" if "y \<in> set (map snd al)" for y
      using table_okD(6) [OF T that] by (simp add: item_ok_def eq [OF that])
    ultimately have "table_ok s' t tb (map snd al)"
      unfolding table_rep_def using T t [OF tof] unfolding table_rep_def by auto
    then show ?thesis by blast
  qed
  with r keys show ?thesis by (simp add: ut_rel_def)
qed

end
