(* ===== verification/UtHashRun.thy ===== *)
theory UtHashRun
  imports UtHashDel
begin

text \<open>
  The hash table as the framework uses it: look a name up, enter an element unless its
  name is taken (\<open>ubx_block_register\<close>, \<open>ubx_type_register\<close>), take the element of a name out
  (\<open>ubx_block_unregister\<close>). Sequences of these calls do on the pointers what they do on the
  association list the node's model works with.
\<close>

subsection \<open>Refinement of the association list\<close>

datatype table_call = Lookup string | Enter string addr | Take string

fun table_run :: "table_call list \<Rightarrow> (string \<times> addr) list \<Rightarrow> addr option list \<times> (string \<times> addr) list" where
  "table_run [] al = ([], al)"
| "table_run (c # cs) al =
     (let found = hash_find al (case c of Lookup k \<Rightarrow> k | Enter k _ \<Rightarrow> k | Take k \<Rightarrow> k);
          al = (case c of
                  Lookup _ \<Rightarrow> al
                | Enter k a \<Rightarrow> if found = None then hash_add al k a else al
                | Take k \<Rightarrow> if found = None then al else hash_del al k);
          (rs, al) = table_run cs al
      in (found # rs, al))"

fun entered :: "table_call list \<Rightarrow> (string \<times> addr) list" where
  "entered [] = []"
| "entered (Enter k a # cs) = (k, a) # entered cs"
| "entered (_ # cs) = entered cs"

lemma entered_append: "entered (cs @ ds) = entered cs @ entered ds"
  by (induction cs rule: entered.induct) simp_all

text \<open>The calls on any implementation: \<open>look\<close> finds, \<open>ins\<close> enters, \<open>rem\<close> takes out.\<close>

fun call_run :: "('s \<Rightarrow> string \<Rightarrow> addr option option) \<Rightarrow> (string \<Rightarrow> addr \<Rightarrow> 's \<Rightarrow> 's option) \<Rightarrow> (addr \<Rightarrow> 's \<Rightarrow> 's option)
    \<Rightarrow> table_call list \<Rightarrow> 's \<Rightarrow> (addr option list \<times> 's) option" where
  "call_run look ins rem [] s = Some ([], s)"
| "call_run look ins rem (c # cs) s = do {
     found \<leftarrow> look s (case c of Lookup k \<Rightarrow> k | Enter k _ \<Rightarrow> k | Take k \<Rightarrow> k);
     s \<leftarrow> (case c of
            Lookup _ \<Rightarrow> Some s
          | Enter k a \<Rightarrow> if found = None then ins k a s else Some s
          | Take k \<Rightarrow> (case found of None \<Rightarrow> Some s | Some a \<Rightarrow> rem a s));
     (rs, s) \<leftarrow> call_run look ins rem cs s;
     Some (found # rs, s) }"

text \<open>
  What a run is given: an element that is entered is not in the table at that time, and the
  number of elements stays below \<open>2 ^ 32\<close>. Elements may come back after they were taken out.
\<close>

fun calls_ok :: "(string \<times> addr) list \<Rightarrow> table_call list \<Rightarrow> bool" where
  "calls_ok al [] = True"
| "calls_ok al (Lookup k # cs) = calls_ok al cs"
| "calls_ok al (Enter k a # cs) =
     (if hash_find al k = None
      then a \<notin> snd ` set al \<and> Suc (length al) < 2 ^ 32 \<and> calls_ok (hash_add al k a) cs
      else calls_ok al cs)"
| "calls_ok al (Take k # cs) = calls_ok (hash_del al k) cs"

lemma hash_del_absent: "hash_find al k = None \<Longrightarrow> hash_del al k = al"
  by (force simp: hash_del_def hash_find_None filter_id_conv)

lemma calls_ok_append: "calls_ok al (did @ rest) \<Longrightarrow> calls_ok (snd (table_run did al)) rest"
proof (induction did arbitrary: al)
  case (Cons c did)
  then show ?case
    by (cases c) (auto simp: Let_def hash_del_absent split: prod.splits if_splits dest!: Cons.IH)
qed simp

text \<open>
  What an implementation has to promise: \<open>R s al\<close> says that the state \<open>s\<close> represents \<open>al\<close>;
  \<open>fit\<close> are the elements that may be entered; \<open>load\<close> grows by one at most with an insertion, and \<open>full\<close>
  is where an insertion may come to nothing.
\<close>

locale table_impl =
  fixes R :: "'s \<Rightarrow> (string \<times> addr) list \<Rightarrow> bool"
    and fit :: "'s \<Rightarrow> string \<times> addr \<Rightarrow> bool"
    and find :: "'s \<Rightarrow> string \<Rightarrow> addr option option"
    and add :: "string \<Rightarrow> addr \<Rightarrow> 's \<Rightarrow> 's option"
    and del :: "addr \<Rightarrow> 's \<Rightarrow> 's option"
    and load :: "'s \<Rightarrow> nat"
    and full :: "string \<Rightarrow> addr \<Rightarrow> 's \<Rightarrow> bool"
  assumes find_ok: "R s al \<Longrightarrow> find s k = Some (hash_find al k)"
    and add_ok: "R s al \<Longrightarrow> hash_find al k = None \<Longrightarrow> fit s (k, a) \<Longrightarrow> a \<notin> snd ` set al
      \<Longrightarrow> Suc (length al) < 2 ^ 32 \<Longrightarrow> \<not> full k a s
      \<Longrightarrow> \<exists>s'. add k a s = Some s' \<and> R s' (hash_add al k a) \<and> load s' \<le> Suc (load s) \<and> (\<forall>e. fit s e \<longrightarrow> fit s' e)"
    and del_ok: "R s al \<Longrightarrow> hash_find al k = Some a
      \<Longrightarrow> \<exists>s'. del a s = Some s' \<and> R s' (hash_del al k) \<and> load s' \<le> load s \<and> (\<forall>e. fit s e \<longrightarrow> fit s' e)"
begin

text \<open>The calls \<open>did\<close> were answered; the next one, if there is one, finds no room.\<close>

definition ran :: "table_call list \<Rightarrow> table_call list \<Rightarrow> 's \<Rightarrow> (string \<times> addr) list \<Rightarrow> 's \<Rightarrow> bool" where
  "ran did rest s al s' \<longleftrightarrow> call_run find add del did s = Some (fst (table_run did al), s')
     \<and> R s' (snd (table_run did al)) \<and> load s' \<le> load s + length (entered did)
     \<and> (\<forall>e. fit s e \<longrightarrow> fit s' e)
     \<and> (rest \<noteq> [] \<longrightarrow> (\<exists>k a. hd rest = Enter k a \<and> hash_find (snd (table_run did al)) k = None \<and> full k a s'))"

lemma ran_first:
  assumes "ran did rest s1 al1 s'" "call_run find add del [c] s = Some ([f], s1)" "table_run [c] al = ([f], al1)"
    and "load s1 \<le> load s + length (entered [c])" "\<forall>e. fit s e \<longrightarrow> fit s1 e"
  shows "ran (c # did) rest s al s'"
proof -
  have "length (entered (c # did)) = length (entered [c]) + length (entered did)" by (cases c) simp_all
  moreover from assms(3) have "table_run (c # did) al = (f # fst (table_run did al1), snd (table_run did al1))"
    by (cases c) (auto simp: Let_def split: prod.splits)
  moreover from assms(1,2) have "call_run find add del (c # did) s = Some (f # fst (table_run did al1), s')"
    by (cases c) (auto simp: ran_def Option.bind_eq_Some_conv split: prod.splits option.splits if_splits)
  ultimately show ?thesis using assms(1,4,5) by (auto simp: ran_def)
qed

lemma run_refines:
  assumes "R s al" "calls_ok al cs" "\<forall>e \<in> set (entered cs). fit s e"
  shows "\<exists>did rest s'. cs = did @ rest \<and> ran did rest s al s'"
  using assms
proof (induction cs arbitrary: s al)
  case Nil
  then show ?case by (intro exI [of _ "[]"] exI [of _ s]) (simp add: ran_def)
next
  case (Cons c cs)
  let ?k = "case c of Lookup k \<Rightarrow> k | Enter k _ \<Rightarrow> k | Take k \<Rightarrow> k" and ?goal = "\<exists>did rest s'. c # cs = did @ rest \<and> ran did rest s al s'"
  have f: "find s ?k = Some (hash_find al ?k)" by (rule find_ok [OF Cons.prems(1)])
  have go: ?goal if "R s1 al1" "calls_ok al1 cs" "\<forall>e. fit s e \<longrightarrow> fit s1 e" "load s1 \<le> load s + length (entered [c])"
    "call_run find add del [c] s = Some ([hash_find al ?k], s1)" "table_run [c] al = ([hash_find al ?k], al1)" for s1 al1
  proof -
    have "\<forall>e \<in> set (entered cs). fit s1 e" using Cons.prems(3) that(3) by (cases c) auto
    from Cons.IH [OF that(1,2) this] obtain did rest s' where d: "cs = did @ rest" "ran did rest s1 al1 s'" by blast
    from ran_first [OF d(2) that(5,6,4,3)] d(1) show ?goal by (intro exI [of _ "c # did"] exI [of _ rest] exI [of _ s']) simp
  qed
  show ?case
  proof (cases c)
    case (Lookup k)
    show ?thesis by (rule go [of s al]) (use Cons.prems f Lookup in \<open>simp_all add: Let_def\<close>)
  next
    case (Enter k a)
    show ?thesis
    proof (cases "hash_find al k")
      case None
      with Cons.prems Enter have e: "a \<notin> snd ` set al" "Suc (length al) < 2 ^ 32" "calls_ok (hash_add al k a) cs" "fit s (k, a)"
        by simp_all
      show ?thesis
      proof (cases "full k a s")
        case True
        with None Enter Cons.prems(1) have "ran [] (c # cs) s al s" by (simp add: ran_def)
        then show ?thesis by (intro exI [of _ "[]"] exI [of _ "c # cs"] exI [of _ s]) simp
      next
        case False
        then obtain s1 where s1: "add k a s = Some s1" "R s1 (hash_add al k a)" "load s1 \<le> Suc (load s)" "\<forall>e. fit s e \<longrightarrow> fit s1 e"
          using add_ok [OF Cons.prems(1) None e(4,1,2)] by blast
        show ?thesis by (rule go [OF s1(2) e(3) s1(4)]) (use f s1(1,3) None Enter in \<open>simp_all add: Let_def\<close>)
      qed
    next
      case (Some b)
      show ?thesis by (rule go [of s al]) (use Cons.prems f Some Enter in \<open>simp_all add: Let_def\<close>)
    qed
  next
    case (Take k)
    show ?thesis
    proof (cases "hash_find al k")
      case None
      show ?thesis
        by (rule go [of s al]) (use Cons.prems f None Take in \<open>simp_all add: Let_def hash_del_absent\<close>)
    next
      case (Some a)
      obtain s1 where s1: "del a s = Some s1" "R s1 (hash_del al k)" "load s1 \<le> load s" "\<forall>e. fit s e \<longrightarrow> fit s1 e"
        using del_ok [OF Cons.prems(1) Some] by blast
      show ?thesis by (rule go [OF s1(2) _ s1(4)]) (use Cons.prems(2) f s1(1,3) Some Take in \<open>simp_all add: Let_def\<close>)
    qed
  qed
qed

end

subsection \<open>The pointers implement it\<close>

definition ut_find :: "ut_heap \<times> addr option \<Rightarrow> string \<Rightarrow> addr option option" where
  "ut_find = (\<lambda>(s, head) k. HASH_FIND s head k)"

definition ut_add :: "(ut_heap \<Rightarrow> addr option) \<Rightarrow> string \<Rightarrow> addr \<Rightarrow> ut_heap \<times> addr option \<Rightarrow> (ut_heap \<times> addr option) option" where
  "ut_add M k a = (\<lambda>(s, head). HASH_ADD_KEYPTR M head k a s)"

definition ut_del :: "addr \<Rightarrow> ut_heap \<times> addr option \<Rightarrow> (ut_heap \<times> addr option) option" where
  "ut_del a = (\<lambda>(s, head). HASH_DELETE head a s)"

definition ut_rep :: "ut_heap \<times> addr option \<Rightarrow> (string \<times> addr) list \<Rightarrow> bool" where
  "ut_rep = (\<lambda>(s, head) al. ut_rel s head al \<and> finite (dom (tbls s)))"

text \<open>The logarithm of the number of buckets.\<close>

definition ut_load :: "ut_heap \<times> addr option \<Rightarrow> nat" where
  "ut_load = (\<lambda>(s, head). max 5 (levels s head))"

definition ut_fit :: "ut_heap \<times> addr option \<Rightarrow> string \<times> addr \<Rightarrow> bool" where
  "ut_fit = (\<lambda>(s, head) (k, a). hhs s a \<noteq> None \<and> length k < 2 ^ 32)"

lemma rel_alloc: "ut_rel s head al \<Longrightarrow> a \<in> snd ` set al \<Longrightarrow> hhs s a \<noteq> None"
proof -
  assume "ut_rel s head al" and a: "a \<in> snd ` set al"
  moreover from a have "al \<noteq> []" by auto
  ultimately obtain t tb where "table_ok s t tb (map snd al)" by (auto simp: ut_rel_def)
  from table_okD(6) [OF this, of a] a show ?thesis by (simp add: item_ok_alloc)
qed

lemma finite_dom_but: "finite (dom m) \<Longrightarrow> (\<And>t'. t' \<noteq> t \<Longrightarrow> m' t' = m t') \<Longrightarrow> finite (dom m')"
  by (rule finite_subset [of _ "insert t (dom m)"]) (auto simp: dom_def)

text \<open>A \<open>malloc\<close> that does not fail.\<close>

definition next_table :: "ut_heap \<Rightarrow> addr option" where
  "next_table s = Some (Suc (Max (insert 0 (dom (tbls s)))))"

lemma next_table_ok: "malloc_ok next_table"
proof -
  have "tbls s (Suc (Max (insert 0 (dom (tbls s))))) = None" if "finite (dom (tbls s))" for s
  proof (rule ccontr)
    assume "\<not> ?thesis"
    then have "Suc (Max (insert 0 (dom (tbls s)))) \<in> insert 0 (dom (tbls s))" by auto
    then have "Suc (Max (insert 0 (dom (tbls s)))) \<le> Max (insert 0 (dom (tbls s)))" using that by (simp add: Max_ge)
    then show False by simp
  qed
  then show ?thesis by (auto simp: malloc_ok_def next_table_def)
qed

text \<open>
  A \<open>malloc\<close> that may fail, but whose tables are new. An insertion that does not come back because of
  it, in \<open>uthash_fatal\<close>, is one that would have come back with a \<open>malloc\<close> that fails less.
\<close>

definition malloc_fresh :: "(ut_heap \<Rightarrow> addr option) \<Rightarrow> bool" where
  "malloc_fresh M \<longleftrightarrow> (\<forall>s t. finite (dom (tbls s)) \<longrightarrow> M s = Some t \<longrightarrow> tbls s t = None)"

definition no_memory :: "(ut_heap \<Rightarrow> addr option) \<Rightarrow> string \<Rightarrow> addr \<Rightarrow> ut_heap \<times> addr option \<Rightarrow> bool" where
  "no_memory M k a st \<longleftrightarrow> ut_add M k a st = None
     \<and> (\<exists>M'. (\<forall>s t. M s = Some t \<longrightarrow> M' s = Some t) \<and> ut_add M' k a st \<noteq> None)"

definition never_fails :: "(ut_heap \<Rightarrow> addr option) \<Rightarrow> ut_heap \<Rightarrow> addr option" where
  "never_fails M s = (case M s of None \<Rightarrow> next_table s | Some t \<Rightarrow> Some t)"

lemma never_fails_ok: "malloc_fresh M \<Longrightarrow> malloc_ok (never_fails M)"
  using next_table_ok by (auto simp: malloc_fresh_def malloc_ok_def never_fails_def split: option.split)

text \<open>A \<open>malloc\<close> that fails less lets a call return what it returned before.\<close>

definition extends :: "'b option \<Rightarrow> 'b option \<Rightarrow> bool" where
  "extends m m' \<longleftrightarrow> (\<forall>r. m = Some r \<longrightarrow> m' = Some r)"

lemma extends_refl: "extends m m"
  by (simp add: extends_def)

lemma extends_bind: "extends m m' \<Longrightarrow> (\<And>x. extends (f x) (f' x)) \<Longrightarrow> extends (Option.bind m f) (Option.bind m' f')"
  by (auto simp: extends_def Option.bind_eq_Some_conv)

lemma extends_if: "extends m n \<Longrightarrow> extends m' n' \<Longrightarrow> extends (if b then m else m') (if b then n else n')"
  by simp

lemma extends_option:
  "extends m n \<Longrightarrow> (\<And>x. extends (f x) (f' x)) \<Longrightarrow>
   extends (case z of None \<Rightarrow> m | Some x \<Rightarrow> f x) (case z of None \<Rightarrow> n | Some x \<Rightarrow> f' x)"
  by (simp split: option.split)

lemma extends_prod: "(\<And>x y. extends (g x y) (g' x y)) \<Longrightarrow> extends (case p of (x, y) \<Rightarrow> g x y) (case p of (x, y) \<Rightarrow> g' x y)"
  by (simp split: prod.split)

lemmas extends_rules = extends_bind extends_if extends_option extends_prod extends_refl

lemma ut_add_mono:
  assumes "ut_add M k a st = Some r" and M: "\<And>s t. M s = Some t \<Longrightarrow> M' s = Some t"
  shows "ut_add M' k a st = Some r"
proof -
  have m: "extends (M s) (M' s)" for s using M by (simp add: extends_def)
  have make: "extends (HASH_MAKE_TABLE M b s) (HASH_MAKE_TABLE M' b s)" for b s
    unfolding HASH_MAKE_TABLE_def by (rule m extends_rules)+
  have expand: "extends (HASH_EXPAND_BUCKETS M t s) (HASH_EXPAND_BUCKETS M' t s)" for t s
    unfolding HASH_EXPAND_BUCKETS_def Let_def by (rule m extends_rules)+
  have bkt: "extends (HASH_ADD_TO_BKT M t i b s) (HASH_ADD_TO_BKT M' t i b s)" for t i b s
    unfolding HASH_ADD_TO_BKT_def Let_def by (rule expand extends_rules)+
  have "extends (ut_add M k a st) (ut_add M' k a st)"
    unfolding ut_add_def HASH_ADD_KEYPTR_def Let_def by (rule make bkt extends_rules)+
  with assms(1) show ?thesis by (simp add: extends_def)
qed

lemma levels_less: "ut_rel s head al \<Longrightarrow> levels s head < 32"
proof (cases "head = None")
  case False
  assume r: "ut_rel s head al"
  with False have "al \<noteq> []" by (auto simp: ut_rel_def)
  with r obtain t tb where T: "table_ok s t tb (map snd al)" and hd: "head = hdo (map snd al) None"
    unfolding ut_rel_def by auto
  obtain x where x: "head = Some x" "x \<in> set (map snd al)" using hd \<open>al \<noteq> []\<close> by (cases al) auto
  have "tbl_of s head = Some t" using table_okD(6) [OF T x(2)] by (auto simp: x(1) item_ok_def tbl_of_def)
  with T show ?thesis by (simp add: levels_def table_rep_def)
qed (simp add: levels_def tbl_of_def)

text \<open>Another table of the node: other elements, its own array of buckets.\<close>

definition ut_apart :: "addr option \<Rightarrow> (string \<times> addr) list \<Rightarrow> ut_heap \<times> addr option \<Rightarrow> (string \<times> addr) list \<Rightarrow> bool" where
  "ut_apart head2 al2 = (\<lambda>(s, head) al. ut_rel s head2 al2 \<and> snd ` set al2 \<inter> snd ` set al = {}
     \<and> (\<forall>t. tbl_of s head2 = Some t \<longrightarrow> tbl_of s head \<noteq> Some t))"

lemma rel_tbl_of:
  assumes r: "ut_rel s head al" "head \<noteq> None"
  obtains t x where "tbl_of s head = Some t" "tbls s t \<noteq> None" "head = Some x" "x \<in> snd ` set al"
proof -
  from r have "al \<noteq> []" by (auto simp: ut_rel_def)
  with r(1) obtain t tb where T: "table_ok s t tb (map snd al)" and hd: "head = hdo (map snd al) None"
    unfolding ut_rel_def by auto
  obtain x where x: "head = Some x" "x \<in> set (map snd al)" using hd \<open>al \<noteq> []\<close> by (cases al) auto
  have "tbl_of s head = Some t" using table_okD(6) [OF T x(2)] by (auto simp: x(1) item_ok_def tbl_of_def)
  with table_okD(1) [OF T] x show ?thesis by (intro that [of t x]) auto
qed

lemma apart_step:
  assumes a: "ut_apart head2 al2 (s, head) al" and f: "ut_frame A s s'" "snd ` set al2 \<inter> A = {}"
    and al: "snd ` set al' \<subseteq> A"
    and t: "\<And>t. tbls s t \<noteq> None \<Longrightarrow> tbl_of s head \<noteq> Some t \<Longrightarrow> tbls s' t = tbls s t \<and> tbl_of s' head' \<noteq> Some t"
  shows "ut_apart head2 al2 (s', head') al'"
proof -
  have r: "ut_rel s head2 al2" using a by (simp add: ut_apart_def)
  have keep: "tbl_of s' head2 = tbl_of s head2"
  proof (cases head2)
    case (Some x)
    with rel_tbl_of [OF r] have "x \<in> snd ` set al2" by auto
    with f have "hhs s' x = hhs s x" by (auto simp: ut_frame_def)
    then show ?thesis by (simp add: Some tbl_of_def)
  qed (simp add: tbl_of_def)
  have own: "tbls s' t = tbls s t \<and> tbl_of s' head' \<noteq> Some t" if "tbl_of s head2 = Some t" for t
  proof (rule t)
    have "head2 \<noteq> None" using that by (auto simp: tbl_of_def)
    then show "tbls s t \<noteq> None" using rel_tbl_of [OF r] that by (metis option.inject)
    show "tbl_of s head \<noteq> Some t" using a that by (simp add: ut_apart_def)
  qed
  have "ut_rel s' head2 al2" by (rule rel_frame [OF r f]) (use own in blast)
  then show ?thesis using f(2) al own by (auto simp: ut_apart_def keep)
qed

lemma ut_add_ok:
  assumes M: "malloc_ok M" and R: "ut_rep s al" and k: "hash_find al k = None" "ut_fit s (k, a)" "a \<notin> snd ` set al"
    and len: "Suc (length al) < 2 ^ 32" and room: "levels (fst s) (snd s) \<noteq> 31"
  shows "\<exists>s'. ut_add M k a s = Some s' \<and> ut_rep s' (hash_add al k a) \<and> ut_load s' \<le> Suc (ut_load s) \<and> (\<forall>e. ut_fit s e \<longrightarrow> ut_fit s' e)
    \<and> (\<forall>head2 al2. ut_apart head2 al2 s al \<and> a \<notin> snd ` set al2 \<longrightarrow> ut_apart head2 al2 s' (hash_add al k a))"
proof (cases s)
  case (Pair h head)
  have r: "ut_rel h head al" "finite (dom (tbls h))" "levels h head < 31"
    using R levels_less [of h head al] room by (auto simp: ut_rep_def Pair)
  obtain h' head' t where 1: "HASH_ADD_KEYPTR M head k a h = Some (h', head')" "ut_rel h' head' (hash_add al k a)"
      "ut_frame (insert a (snd ` set al)) h h'" "\<forall>t'. t' \<noteq> t \<longrightarrow> tbls h' t' = tbls h t'"
      "levels h' head' \<le> Suc (levels h head)" "tbl_of h' head' = Some t"
      "head \<noteq> None \<longrightarrow> tbl_of h head = Some t" "head = None \<longrightarrow> tbls h t = None"
    using rel_add [OF r(1) k(1) _ _ k(3) _ _ M r(2)] k(2) r(3) len by (auto simp: ut_fit_def Pair)
  have fin: "finite (dom (tbls h'))" by (rule finite_dom_but [OF r(2)]) (use 1(4) in auto)
  have alloc: "hhs h' x \<noteq> None" if "hhs h x \<noteq> None" for x
  proof (cases "x \<in> insert a (snd ` set al)")
    case True
    then have "x \<in> snd ` set (hash_add al k a)" by auto
    then show ?thesis by (rule rel_alloc [OF 1(2)])
  next
    case False
    with 1(3) that show ?thesis by (simp add: ut_frame_def)
  qed
  have "ut_rep (h', head') (hash_add al k a)" "ut_load (h', head') \<le> Suc (ut_load s)"
    using 1(2,5) fin by (auto simp: ut_rep_def ut_load_def Pair)
  moreover have "\<forall>e. ut_fit s e \<longrightarrow> ut_fit (h', head') e" using alloc by (auto simp: ut_fit_def Pair)
  moreover have "ut_apart head2 al2 (h', head') (hash_add al k a)"
    if "ut_apart head2 al2 (h, head) al" "a \<notin> snd ` set al2" for head2 al2
  proof (rule apart_step [OF that(1) 1(3)])
    show "tbls h' u = tbls h u \<and> tbl_of h' head' \<noteq> Some u" if "tbls h u \<noteq> None" "tbl_of h head \<noteq> Some u" for u
    proof -
      have "u \<noteq> t" using that 1(7,8) by (cases head) auto
      then show ?thesis using 1(4,6) by simp
    qed
  qed (use that in \<open>auto simp: ut_apart_def\<close>)
  ultimately show ?thesis using 1(1) by (auto simp: ut_add_def Pair)
qed

lemma ut_del_ok:
  assumes R: "ut_rep s al" and k: "hash_find al k = Some a"
  shows "\<exists>s'. ut_del a s = Some s' \<and> ut_rep s' (hash_del al k) \<and> ut_load s' \<le> ut_load s \<and> (\<forall>e. ut_fit s e \<longrightarrow> ut_fit s' e)
    \<and> (\<forall>head2 al2. ut_apart head2 al2 s al \<longrightarrow> ut_apart head2 al2 s' (hash_del al k))"
proof (cases s)
  case (Pair h head)
  have r: "ut_rel h head al" "finite (dom (tbls h))"
    using R by (auto simp: ut_rep_def Pair)
  obtain h' head' where 1: "HASH_DELETE head a h = Some (h', head')" "ut_rel h' head' (hash_del al k)"
      "\<forall>t'. Some t' \<noteq> tbl_of h head \<longrightarrow> tbls h' t' = tbls h t'"
      "head' \<noteq> None \<longrightarrow> levels h' head' = levels h head \<and> tbl_of h' head' = tbl_of h head" "\<forall>x. (hhs h' x = None) = (hhs h x = None)"
      "ut_frame (snd ` set al) h h'"
    using rel_del [OF r(1) k] by blast
  have fin: "finite (dom (tbls h'))"
    by (rule finite_dom_but [OF r(2), where t = "the (tbl_of h head)"]) (use 1(3) in \<open>cases "tbl_of h head"; auto\<close>)
  have "ut_load (h', head') \<le> ut_load s"
    using 1(4) by (cases head') (auto simp: ut_load_def Pair levels_def tbl_of_def)
  moreover have "ut_rep (h', head') (hash_del al k)" using 1(2) fin by (simp add: ut_rep_def)
  moreover have "\<forall>e. ut_fit s e \<longrightarrow> ut_fit (h', head') e" using 1(5) by (auto simp: ut_fit_def Pair simp del: not_None_eq)
  moreover have "ut_apart head2 al2 (h', head') (hash_del al k)" if ap: "ut_apart head2 al2 (h, head) al" for head2 al2
  proof (rule apart_step [OF ap 1(6)])
    show "tbls h' t = tbls h t \<and> tbl_of h' head' \<noteq> Some t" if "tbls h t \<noteq> None" "tbl_of h head \<noteq> Some t" for t
      using that 1(3,4) by (cases head') (auto simp: tbl_of_def)
  qed (use ap in \<open>auto simp: ut_apart_def\<close>)
  ultimately show ?thesis using 1(1) by (auto simp: ut_del_def Pair)
qed

text \<open>An insertion with a \<open>malloc\<close> that may fail.\<close>

definition ut_full :: "(ut_heap \<Rightarrow> addr option) \<Rightarrow> string \<Rightarrow> addr \<Rightarrow> ut_heap \<times> addr option \<Rightarrow> bool" where
  "ut_full M k a st \<longleftrightarrow> levels (fst st) (snd st) = 31 \<or> no_memory M k a st"

lemma ut_add_ok2:
  assumes M: "malloc_fresh M" and "ut_rep s al" "hash_find al k = None" "ut_fit s (k, a)" "a \<notin> snd ` set al"
    and "Suc (length al) < 2 ^ 32" and full: "\<not> ut_full M k a s"
  shows "\<exists>s'. ut_add M k a s = Some s' \<and> ut_rep s' (hash_add al k a) \<and> ut_load s' \<le> Suc (ut_load s)
    \<and> (\<forall>e. ut_fit s e \<longrightarrow> ut_fit s' e)
    \<and> (\<forall>head2 al2. ut_apart head2 al2 s al \<and> a \<notin> snd ` set al2 \<longrightarrow> ut_apart head2 al2 s' (hash_add al k a))"
proof -
  have le: "never_fails M s = Some t" if "M s = Some t" for s t using that by (simp add: never_fails_def)
  have "levels (fst s) (snd s) \<noteq> 31" using full by (simp add: ut_full_def)
  from ut_add_ok [OF never_fails_ok [OF M] assms(2-6) this] obtain s' where
    s': "ut_add (never_fails M) k a s = Some s'" "ut_rep s' (hash_add al k a)" "ut_load s' \<le> Suc (ut_load s)"
      "\<forall>e. ut_fit s e \<longrightarrow> ut_fit s' e"
      "\<forall>head2 al2. ut_apart head2 al2 s al \<and> a \<notin> snd ` set al2 \<longrightarrow> ut_apart head2 al2 s' (hash_add al k a)" by blast
  have "\<exists>M'. (\<forall>s t. M s = Some t \<longrightarrow> M' s = Some t) \<and> ut_add M' k a s \<noteq> None"
    by (rule exI [of _ "never_fails M"]) (simp add: le s'(1))
  moreover have "\<not> no_memory M k a s" using full by (simp add: ut_full_def)
  ultimately have "ut_add M k a s \<noteq> None" unfolding no_memory_def by (simp only: not_False_eq_True simp_thms)
  then obtain r where r: "ut_add M k a s = Some r" by blast
  from ut_add_mono [OF r le] s'(1) have "r = s'" by simp
  with r s' show ?thesis by blast
qed

lemma table_impl_ut:
  assumes M: "malloc_fresh M"
  shows "table_impl ut_rep ut_fit ut_find (ut_add M) ut_del ut_load (ut_full M)"
proof unfold_locales
  show "ut_find s k = Some (hash_find al k)" if "ut_rep s al" for s al k
    using that rel_find by (auto simp: ut_rep_def ut_find_def)
qed (use ut_add_ok2 [OF M] ut_del_ok in blast)+

text \<open>The same in the presence of another table.\<close>

definition ut_rep2 :: "addr option \<Rightarrow> (string \<times> addr) list \<Rightarrow> ut_heap \<times> addr option \<Rightarrow> (string \<times> addr) list \<Rightarrow> bool" where
  "ut_rep2 head2 al2 s al \<longleftrightarrow> ut_rep s al \<and> ut_apart head2 al2 s al"

definition ut_fit2 :: "(string \<times> addr) list \<Rightarrow> ut_heap \<times> addr option \<Rightarrow> string \<times> addr \<Rightarrow> bool" where
  "ut_fit2 al2 s e \<longleftrightarrow> ut_fit s e \<and> snd e \<notin> snd ` set al2"

lemma table_impl_ut2:
  assumes M: "malloc_fresh M"
  shows "table_impl (ut_rep2 head2 al2) (ut_fit2 al2) ut_find (ut_add M) ut_del ut_load (ut_full M)"
proof unfold_locales
  fix s al k a
  show "ut_find s k = Some (hash_find al k)" if "ut_rep2 head2 al2 s al"
    using that table_impl.find_ok [OF table_impl_ut [OF M]] unfolding ut_rep2_def by blast
  show "\<exists>s'. ut_add M k a s = Some s' \<and> ut_rep2 head2 al2 s' (hash_add al k a) \<and> ut_load s' \<le> Suc (ut_load s)
      \<and> (\<forall>e. ut_fit2 al2 s e \<longrightarrow> ut_fit2 al2 s' e)"
    if "ut_rep2 head2 al2 s al" "hash_find al k = None" "ut_fit2 al2 s (k, a)" "a \<notin> snd ` set al"
      "Suc (length al) < 2 ^ 32" "\<not> ut_full M k a s"
  proof -
    from that(1,3) have "ut_rep s al" "ut_fit s (k, a)" by (simp_all add: ut_rep2_def ut_fit2_def)
    from ut_add_ok2 [OF M this(1) that(2) this(2) that(4-6)] that(1,3) show ?thesis
      unfolding ut_rep2_def ut_fit2_def by auto
  qed
  show "\<exists>s'. ut_del a s = Some s' \<and> ut_rep2 head2 al2 s' (hash_del al k) \<and> ut_load s' \<le> ut_load s
      \<and> (\<forall>e. ut_fit2 al2 s e \<longrightarrow> ut_fit2 al2 s' e)"
    if "ut_rep2 head2 al2 s al" "hash_find al k = Some a"
    using ut_del_ok [OF _ that(2), of s] that(1) unfolding ut_rep2_def ut_fit2_def by auto
qed

lemma next_table_fresh: "malloc_fresh next_table"
  using next_table_ok by (auto simp: malloc_ok_def malloc_fresh_def)

interpretation ut: table_impl ut_rep ut_fit ut_find "ut_add next_table" ut_del ut_load "ut_full next_table"
  by (rule table_impl_ut [OF next_table_fresh])

subsection \<open>Runs\<close>

text \<open>Where a run may stop: \<open>did\<close> was answered, \<open>rest\<close> was not.\<close>

definition stops_at :: "(ut_heap \<Rightarrow> addr option) \<Rightarrow> (string \<times> addr) list \<Rightarrow> table_call list \<Rightarrow> ut_heap \<times> addr option \<Rightarrow> bool" where
  "stops_at M al rest st \<longleftrightarrow> (\<exists>k a. hd rest = Enter k a \<and> hash_find al k = None
     \<and> (levels (fst st) (snd st) = 31 \<or> no_memory M k a st))"

lemma ut_run:
  assumes rel: "ut_rel s head al" "finite (dom (tbls s))" and M: "malloc_fresh M" and cs: "calls_ok al cs"
    and ent: "\<forall>(k, a) \<in> set (entered cs). hhs s a \<noteq> None \<and> length k < 2 ^ 32 \<and> a \<notin> snd ` set al2"
    and ap: "ut_apart head2 al2 (s, head) al"
  obtains did rest s' head' where "cs = did @ rest"
    "call_run (\<lambda>(s, head) k. HASH_FIND s head k) (\<lambda>k a (s, head). HASH_ADD_KEYPTR M head k a s)
       (\<lambda>a (s, head). HASH_DELETE head a s) did (s, head) = Some (fst (table_run did al), (s', head'))"
    "ut_rel s' head' (snd (table_run did al))" "finite (dom (tbls s'))" "ut_apart head2 al2 (s', head') (snd (table_run did al))"
    "levels s' head' \<le> max 5 (levels s head) + length (entered did)"
    "\<forall>(k, a) \<in> set (entered rest). hhs s' a \<noteq> None"
    "rest = [] \<or> stops_at M (snd (table_run did al)) rest (s', head')"
    "malloc_ok M \<and> max 5 (levels s head) + length (entered cs) \<le> 31 \<longrightarrow> rest = []"
proof -
  have rep: "ut_rep2 head2 al2 (s, head) al" using rel ap by (simp add: ut_rep2_def ut_rep_def)
  have fit0: "\<forall>e \<in> set (entered cs). ut_fit2 al2 (s, head) e" using ent by (simp add: ut_fit_def ut_fit2_def case_prod_unfold)
  from table_impl.run_refines [OF table_impl_ut2 [OF M] rep cs fit0]
  obtain did rest s' head' where d: "cs = did @ rest"
      "table_impl.ran (ut_rep2 head2 al2) (ut_fit2 al2) ut_find (ut_add M) ut_del ut_load (ut_full M) did rest (s, head) al (s', head')"
    by auto
  let ?al = "snd (table_run did al)"
  note ran = d(2) [unfolded table_impl.ran_def [OF table_impl_ut2 [OF M]]]
  then have call: "call_run ut_find (ut_add M) ut_del did (s, head) = Some (fst (table_run did al), (s', head'))"
    and rep': "ut_rep (s', head') ?al" and ap': "ut_apart head2 al2 (s', head') ?al"
    and keep: "\<And>e. ut_fit2 al2 (s, head) e \<Longrightarrow> ut_fit2 al2 (s', head') e" by (simp_all add: ut_rep2_def split_paired_all)
  have lev: "levels s' head' \<le> max 5 (levels s head) + length (entered did)" using ran by (simp add: ut_load_def)
  have ent': "entered cs = entered did @ entered rest" unfolding d(1) by (rule entered_append)
  have fit: "ut_fit (s', head') e" if "e \<in> set (entered rest)" for e
    using keep fit0 that by (simp add: ent' ut_fit2_def)
  have stop: "rest = [] \<or> (\<exists>k a. hd rest = Enter k a \<and> hash_find ?al k = None \<and> ut_full M k a (s', head'))"
    using ran by blast
  have "rest = []" if M: "malloc_ok M" and lim: "max 5 (levels s head) + length (entered cs) \<le> 31"
  proof (rule ccontr)
    assume "rest \<noteq> []"
    with stop obtain k a r where c: "rest = Enter k a # r" "hash_find ?al k = None" "ut_full M k a (s', head')"
      by (cases rest) auto
    have "levels s' head' \<noteq> 31" using lev lim by (simp add: ent' c(1))
    with c fit [of "(k, a)"] calls_ok_append [of al did rest] cs d(1) ut_add_ok [OF M rep' c(2), of a]
    show False by (auto simp: ut_full_def no_memory_def)
  qed
  moreover have "\<forall>(k, a) \<in> set (entered rest). hhs s' a \<noteq> None" using fit by (auto simp: ut_fit_def)
  moreover have "rest = [] \<or> stops_at M ?al rest (s', head')" using stop by (simp add: stops_at_def ut_full_def)
  moreover have "ut_rel s' head' ?al" "finite (dom (tbls s'))" using rep' by (simp_all add: ut_rep_def)
  ultimately show ?thesis using that [OF d(1)] call ap' lev unfolding ut_find_def ut_add_def ut_del_def by blast
qed

subsection \<open>Properties\<close>

text \<open>C6: The calls on the pointers of the hash table, lookups, insertions and deletions in any order and
  any number, buckets expanding on the way, are answered like calls on the association list in which
  the node's model keeps its entries, and lead to a table that represents that list, from which the run
  can go on. It stops short at one kind of call only: the insertion of a new name, when \<open>malloc\<close>
  fails, or when the table has \<open>2 ^ 31\<close> buckets, whose number cannot be doubled once more. An insertion
  doubles it at most once, so a run with a \<open>malloc\<close> that does not fail and with too few insertions
  to get there is answered to its end. An element must not be entered while it is in the table (it
  may come back later), and fewer than \<open>2 ^ 32\<close> may be in the table.\<close>

theorem uthash_runs:
  assumes "ut_rel s head al" "finite (dom (tbls s))" "malloc_fresh M" "calls_ok al cs"
    "\<forall>(k, a) \<in> set (entered cs). hhs s a \<noteq> None \<and> length k < 2 ^ 32"
  shows "\<exists>did rest s' head'. cs = did @ rest
    \<and> call_run (\<lambda>(s, head) k. HASH_FIND s head k) (\<lambda>k a (s, head). HASH_ADD_KEYPTR M head k a s)
        (\<lambda>a (s, head). HASH_DELETE head a s) did (s, head)
      = Some (fst (table_run did al), (s', head'))
    \<and> ut_rel s' head' (snd (table_run did al))
    \<and> HASH_ITER s' head' = Some (map snd (snd (table_run did al)))
    \<and> HASH_CNT s' head' = Some (of_nat (hash_count (snd (table_run did al))))
    \<and> finite (dom (tbls s')) \<and> (\<forall>(k, a) \<in> set (entered rest). hhs s' a \<noteq> None)
    \<and> levels s' head' \<le> max 5 (levels s head) + length (entered did)
    \<and> (rest = [] \<or> stops_at M (snd (table_run did al)) rest (s', head'))
    \<and> (malloc_ok M \<and> max 5 (levels s head) + length (entered cs) \<le> 31 \<longrightarrow> rest = [])"
proof -
  have ap: "ut_apart None [] (s, head) al" by (simp add: ut_apart_def tbl_of_def ut_rel_def hash_ok_def)
  have ent: "\<forall>(k, a) \<in> set (entered cs). hhs s a \<noteq> None \<and> length k < 2 ^ 32 \<and> a \<notin> snd ` set []"
    using assms(5) by simp
  show ?thesis
  proof (rule ut_run [OF assms(1-4) ent ap], goal_cases)
    case (1 did rest s' head')
    note d = this
    show ?case
      by (intro exI [of _ did] exI [of _ rest] exI [of _ s'] exI [of _ head'] conjI) (fact d rel_iter [OF d(3)] rel_cnt [OF d(3)])+
  qed
qed

definition spare :: UT_hash_handle where
  "spare = \<lparr>hh_tbl = 0, hh_prv = None, hh_nxt = None, hh_prev = None, hh_next = None,
     hh_key = [], hh_keylen = 0, hh_hashv = 0\<rparr>"

definition spares :: ut_heap where
  "spares = \<lparr>hhs = [1 \<mapsto> spare, 2 \<mapsto> spare, 3 \<mapsto> spare], tbls = Map.empty\<rparr>"

lemma empty_rel: "ut_rel s None []"
  by (simp add: ut_rel_def hash_ok_def)

theorem uthash_runs_witness:
  "\<exists>s' head'. call_run (\<lambda>(s, head) k. HASH_FIND s head k) (\<lambda>k a (s, head). HASH_ADD_KEYPTR next_table head k a s)
        (\<lambda>a (s, head). HASH_DELETE head a s)
        [Enter ''f'' 1, Enter ''t'' 2, Take ''f'', Enter ''t'' 3, Enter ''g'' 1, Lookup ''f''] (spares, None)
      = Some ([None, None, Some 1, Some 2, None, None], (s', head'))
    \<and> ut_rel s' head' [(''t'', 2), (''g'', 1)] \<and> HASH_ITER s' head' = Some [2, 1] \<and> HASH_CNT s' head' = Some 2"
proof -
  let ?cs = "[Enter ''f'' 1, Enter ''t'' 2, Take ''f'', Enter ''t'' 3, Enter ''g'' 1, Lookup ''f'']"
  have run: "table_run ?cs [] = ([None, None, Some 1, Some 2, None, None], [(''t'', 2), (''g'', 1)])"
    by code_simp
  have ok: "calls_ok [] ?cs" by (simp add: hash_find_def hash_add_def hash_del_def)
  have fin: "finite (dom (tbls spares))" by (simp add: spares_def)
  have "levels spares None = 5" by (simp add: levels_def tbl_of_def)
  then have lim: "malloc_ok next_table \<and> max 5 (levels spares None) + length (entered ?cs) \<le> 31"
    using next_table_ok by simp
  have e: "\<forall>(k, a) \<in> set (entered ?cs). hhs spares a \<noteq> None \<and> length k < 2 ^ 32" by (simp add: spares_def)
  obtain did rest s' head' where d: "?cs = did @ rest"
      "call_run (\<lambda>(s, head) k. HASH_FIND s head k) (\<lambda>k a (s, head). HASH_ADD_KEYPTR next_table head k a s)
        (\<lambda>a (s, head). HASH_DELETE head a s) did (spares, None) = Some (fst (table_run did []), (s', head'))"
      "ut_rel s' head' (snd (table_run did []))" "HASH_ITER s' head' = Some (map snd (snd (table_run did [])))"
      "HASH_CNT s' head' = Some (of_nat (hash_count (snd (table_run did []))))"
      "malloc_ok next_table \<and> max 5 (levels spares None) + length (entered ?cs) \<le> 31 \<longrightarrow> rest = []"
    using uthash_runs [OF empty_rel fin next_table_fresh ok e] by (elim exE conjE) (rule that, assumption+)
  have "rest = []" by (rule mp [OF d(6) lim])
  with d(1) have "did = ?cs" by simp
  from d(2-5) [unfolded this run] show ?thesis
    by (intro exI [of _ s'] exI [of _ head']) (simp add: hash_count_def)
qed

text \<open>C7: The tables of a node do not get in each other's way: no sequence of calls on one table, up to where
  it stops as in C6, changes what another table of other elements holds.\<close>

theorem uthash_separate:
  assumes "ut_rel s head al" "finite (dom (tbls s))" "malloc_fresh M" "calls_ok al cs"
    "\<forall>(k, a) \<in> set (entered cs). hhs s a \<noteq> None \<and> length k < 2 ^ 32 \<and> a \<notin> snd ` set al2"
    and other: "ut_rel s head2 al2" "snd ` set al2 \<inter> snd ` set al = {}"
      "head2 = None \<or> head = None \<or> tbl_of s head2 \<noteq> tbl_of s head"
  shows "\<exists>did rest s' head'. cs = did @ rest
    \<and> call_run (\<lambda>(s, head) k. HASH_FIND s head k) (\<lambda>k a (s, head). HASH_ADD_KEYPTR M head k a s)
        (\<lambda>a (s, head). HASH_DELETE head a s) did (s, head) = Some (fst (table_run did al), (s', head'))
    \<and> ut_rel s' head2 al2 \<and> HASH_FIND s' head2 k = Some (hash_find al2 k)
    \<and> (rest = [] \<or> stops_at M (snd (table_run did al)) rest (s', head'))
    \<and> (malloc_ok M \<and> max 5 (levels s head) + length (entered cs) \<le> 31 \<longrightarrow> rest = [])"
proof -
  have "ut_apart head2 al2 (s, head) al" using other by (auto simp: ut_apart_def tbl_of_def)
  note ap = this
  show ?thesis
  proof (rule ut_run [OF assms(1-5) ap], goal_cases)
    case (1 did rest s' head')
    note d = this
    have rel: "ut_rel s' head2 al2" using d(5) by (simp add: ut_apart_def)
    show ?case
      by (intro exI [of _ did] exI [of _ rest] exI [of _ s'] exI [of _ head'] conjI) (fact d rel rel_find [OF rel])+
  qed
qed

theorem uthash_separate_witness:
  "\<exists>s head2. ut_rel s head2 [(''block'', 3)]
    \<and> (\<exists>rs s' head'. call_run (\<lambda>(s, head) k. HASH_FIND s head k) (\<lambda>k a (s, head). HASH_ADD_KEYPTR next_table head k a s)
          (\<lambda>a (s, head). HASH_DELETE head a s) [Enter ''int'' 1, Enter ''char'' 2, Take ''int''] (s, None) = Some (rs, (s', head'))
        \<and> ut_rel s' head2 [(''block'', 3)] \<and> HASH_FIND s' head2 ''block'' = Some (Some 3))"
proof -
  obtain s where s: "ut_rel s (Some 3) [(''block'', 3)]" "ut_frame {3} spares s" "finite (dom (tbls s))"
  proof -
    have h: "hhs spares 3 = Some spare" and fin: "finite (dom (tbls spares))" by (simp_all add: spares_def)
    have "length ''block'' < 2 ^ 32" by simp
    from rel_add_first [OF refl refl h this next_table_ok fin]
    obtain s t where s: "ut_rel s (Some 3) (hash_add [] ''block'' 3)" "ut_frame {3} spares s"
        "\<forall>t'. t' \<noteq> t \<longrightarrow> tbls s t' = tbls spares t'"
      by blast
    have "finite (dom (tbls s))" by (rule finite_dom_but [OF fin, of t]) (use s(3) in blast)
    with s(1,2) show ?thesis unfolding hash_add_def append_Nil by (rule that)
  qed
  let ?cs = "[Enter ''int'' 1, Enter ''char'' 2, Take ''int'']"
  have "hhs s 1 = Some spare" "hhs s 2 = Some spare" using s(2) by (simp_all add: ut_frame_def spares_def)
  then have e: "\<forall>(k, a) \<in> set (entered ?cs). hhs s a \<noteq> None \<and> length k < 2 ^ 32 \<and> a \<notin> snd ` set [(''block'', 3)]"
    by simp
  have ok: "calls_ok [] ?cs" by (simp add: hash_find_def hash_add_def hash_del_def)
  have apart: "snd ` set [(''block'', 3 :: addr)] \<inter> snd ` set [] = {}" "Some (3 :: addr) = None \<or> None = None \<or> tbl_of s (Some 3) \<noteq> tbl_of s None"
    by simp_all
  have "levels s None = 5" by (simp add: levels_def tbl_of_def)
  then have lim: "malloc_ok next_table \<and> max 5 (levels s None) + length (entered ?cs) \<le> 31" using next_table_ok by simp
  obtain did rest s' head' where d: "?cs = did @ rest"
      "call_run (\<lambda>(s, head) k. HASH_FIND s head k) (\<lambda>k a (s, head). HASH_ADD_KEYPTR next_table head k a s)
        (\<lambda>a (s, head). HASH_DELETE head a s) did (s, None) = Some (fst (table_run did []), (s', head'))"
      "ut_rel s' (Some 3) [(''block'', 3)]" "HASH_FIND s' (Some 3) ''block'' = Some (hash_find [(''block'', 3)] ''block'')"
      "malloc_ok next_table \<and> max 5 (levels s None) + length (entered ?cs) \<le> 31 \<longrightarrow> rest = []"
    using uthash_separate [OF empty_rel s(3) next_table_fresh ok e s(1) apart, where k = "''block''"]
    by (elim exE conjE) (rule that, assumption+)
  have "rest = []" by (rule mp [OF d(5) lim])
  with d(1) have "did = ?cs" by simp
  with d(2-4) have "\<exists>rs s' head'. call_run (\<lambda>(s, head) k. HASH_FIND s head k) (\<lambda>k a (s, head). HASH_ADD_KEYPTR next_table head k a s)
          (\<lambda>a (s, head). HASH_DELETE head a s) ?cs (s, None) = Some (rs, (s', head'))
        \<and> ut_rel s' (Some 3) [(''block'', 3)] \<and> HASH_FIND s' (Some 3) ''block'' = Some (hash_find [(''block'', 3)] ''block'')"
    by blast
  moreover have "hash_find [(''block'', 3 :: addr)] ''block'' = Some 3" by (simp add: hash_find_def)
  ultimately show ?thesis using s(1) by (intro exI [of _ s] exI [of _ "Some 3"]) simp
qed

end
