(* ===== verification/AppModel.thy ===== *)
theory AppModel
  imports Prelude Complex_Main
begin

text \<open>
  What the blocks of the collision avoidance share (\<open>app_blocks\<close>): floating point numbers are a type
  \<open>'f\<close> with the operations of \<open>float_ops\<close>, so rounding is a parameter, and ports are reached through
  the functions of \<open>app_ports\<close>, which stand for the typed accessors of the framework. Reading takes
  the buffer of the caller and gives it back with what was delivered, and the number of elements.
\<close>

subsection \<open>Floating point\<close>

text \<open>\<open>fp_trunc\<close> converts to \<open>int\<close>, which is undefined for NaN and for what does not fit.\<close>

record 'f float_ops =
  fp_int :: "int \<Rightarrow> 'f"
  fp_add :: "'f \<Rightarrow> 'f \<Rightarrow> 'f"
  fp_sub :: "'f \<Rightarrow> 'f \<Rightarrow> 'f"
  fp_mul :: "'f \<Rightarrow> 'f \<Rightarrow> 'f"
  fp_div :: "'f \<Rightarrow> 'f \<Rightarrow> 'f"
  fp_neg :: "'f \<Rightarrow> 'f"
  fp_abs :: "'f \<Rightarrow> 'f"
  fp_sqrt :: "'f \<Rightarrow> 'f"
  fp_less :: "'f \<Rightarrow> 'f \<Rightarrow> bool"
  fp_eq :: "'f \<Rightarrow> 'f \<Rightarrow> bool"
  fp_inf :: 'f
  fp_trunc :: "'f \<Rightarrow> int option"

type_synonym 'f point = "'f \<times> 'f"

text \<open>\<open>a * b + c * d\<close> and \<open>a * b - c * d\<close>, rounded at every operation.\<close>

definition fp_sum2 :: "'f float_ops \<Rightarrow> 'f \<Rightarrow> 'f \<Rightarrow> 'f \<Rightarrow> 'f \<Rightarrow> 'f" where
  "fp_sum2 F a b c d = fp_add F (fp_mul F a b) (fp_mul F c d)"

definition fp_diff2 :: "'f float_ops \<Rightarrow> 'f \<Rightarrow> 'f \<Rightarrow> 'f \<Rightarrow> 'f \<Rightarrow> 'f" where
  "fp_diff2 F a b c d = fp_sub F (fp_mul F a b) (fp_mul F c d)"

text \<open>Numbers that do not round: the reals and infinity, which is also what is not a number.\<close>

datatype xreal = Fin real | Infty

instantiation xreal :: linorder
begin

fun less_eq_xreal :: "xreal \<Rightarrow> xreal \<Rightarrow> bool" where
  "less_eq_xreal (Fin x) (Fin y) \<longleftrightarrow> x \<le> y"
| "less_eq_xreal Infty (Fin y) \<longleftrightarrow> False"
| "less_eq_xreal x Infty \<longleftrightarrow> True"

definition less_xreal :: "xreal \<Rightarrow> xreal \<Rightarrow> bool" where
  "less_xreal x y \<longleftrightarrow> x \<le> y \<and> \<not> y \<le> x"

instance
proof
  fix x y z :: xreal
  show "(x < y) = (x \<le> y \<and> \<not> y \<le> x)" by (rule less_xreal_def)
  show "x \<le> x" by (cases x) simp_all
  show "x \<le> y \<Longrightarrow> y \<le> z \<Longrightarrow> x \<le> z" by (cases x; cases y; cases z) simp_all
  show "x \<le> y \<Longrightarrow> y \<le> x \<Longrightarrow> x = y" by (cases x; cases y) simp_all
  show "x \<le> y \<or> y \<le> x" by (cases x; cases y) auto
qed

end

lemma xreal_less [simp]: "Fin x < Fin y \<longleftrightarrow> x < y" "Fin x < Infty"
  by (auto simp: less_xreal_def)

lemma xreal_not_less [simp]: "\<not> Infty < (z :: xreal)"
  by (cases z) (simp_all add: less_xreal_def)

fun xreal1 :: "(real \<Rightarrow> real) \<Rightarrow> xreal \<Rightarrow> xreal" where
  "xreal1 f (Fin x) = Fin (f x)" | "xreal1 f _ = Infty"

fun xreal2 :: "(real \<Rightarrow> real \<Rightarrow> real) \<Rightarrow> xreal \<Rightarrow> xreal \<Rightarrow> xreal" where
  "xreal2 f (Fin x) (Fin y) = Fin (f x y)" | "xreal2 f _ _ = Infty"

fun xreal_div :: "xreal \<Rightarrow> xreal \<Rightarrow> xreal" where
  "xreal_div (Fin x) (Fin y) = (if y = 0 then Infty else Fin (x / y))" | "xreal_div _ _ = Infty"

fun xreal_trunc :: "xreal \<Rightarrow> int option" where
  "xreal_trunc (Fin x) = Some (if x < 0 then \<lceil>x\<rceil> else \<lfloor>x\<rfloor>)" | "xreal_trunc Infty = None"

definition exact :: "xreal float_ops" where
  "exact = \<lparr>fp_int = (\<lambda>i. Fin (of_int i)), fp_add = xreal2 (+), fp_sub = xreal2 (-), fp_mul = xreal2 (*), fp_div = xreal_div,
     fp_neg = xreal1 uminus, fp_abs = xreal1 abs, fp_sqrt = xreal1 sqrt, fp_less = (<), fp_eq = (=), fp_inf = Infty,
     fp_trunc = xreal_trunc\<rparr>"

lemma exact_sel [simp]:
  "fp_int exact i = Fin (of_int i)" "fp_add exact = xreal2 (+)" "fp_sub exact = xreal2 (-)" "fp_mul exact = xreal2 (*)"
  "fp_div exact = xreal_div" "fp_neg exact = xreal1 uminus" "fp_abs exact = xreal1 abs" "fp_sqrt exact = xreal1 sqrt"
  "fp_less exact = (<)" "fp_eq exact = (=)" "fp_inf exact = Infty" "fp_trunc exact = xreal_trunc"
  "fp_sum2 exact (Fin a) (Fin b) (Fin c) (Fin d) = Fin (a * b + c * d)"
  "fp_diff2 exact (Fin a) (Fin b) (Fin c) (Fin d) = Fin (a * b - c * d)"
  by (simp_all add: exact_def fp_sum2_def fp_diff2_def)

subsection \<open>Ports\<close>

record ('f, 'e) app_ports =
  ap_floats :: "string \<Rightarrow> 'f list \<Rightarrow> 'e \<Rightarrow> int \<times> 'f list \<times> 'e"
  ap_int :: "string \<Rightarrow> int \<Rightarrow> 'e \<Rightarrow> int \<times> int \<times> 'e"
  ap_put_floats :: "string \<Rightarrow> 'f list \<Rightarrow> 'e \<Rightarrow> 'e"
  ap_put_int :: "string \<Rightarrow> int \<Rightarrow> 'e \<Rightarrow> 'e"

subsection \<open>Init hooks\<close>

text \<open>
  Every block allocates its data, zeroed, and copies its configuration into it. \<open>alloc\<close> says whether the
  allocation succeeds and \<open>conf\<close> is what the configuration points to, \<open>None\<close> for NULL, which nothing
  checks. The result of the hook comes with the data; \<open>None\<close> is a NULL pointer followed.
\<close>

definition app_init :: "('c \<Rightarrow> 'i) \<Rightarrow> bool \<Rightarrow> 'c option \<Rightarrow> (int \<times> 'i option) option" where
  "app_init copy alloc conf = (if \<not> alloc then Some (-1, None) else map_option (\<lambda>c. (0, Some (copy c))) conf)"

subsection \<open>Constants\<close>

definition MAX_OBS :: nat where "MAX_OBS = 12"
definition MAX_SAT :: nat where "MAX_SAT = 4"
definition NUM_NODES :: nat where "NUM_NODES = MAX_OBS * MAX_SAT + 4"

lemma NUM_NODES_eq: "NUM_NODES = 52"
  by (simp add: NUM_NODES_def MAX_OBS_def MAX_SAT_def)

end
