(* ===== verification/PathFinding.thy ===== *)
theory PathFinding
  imports AppModel
begin

text \<open>
  The block \<open>app_blocks/path_finding\<close>: the search for a cheapest path from the first to the last of
  \<open>NUM_NODES\<close> way points, along the finite entries of a table of costs. Weights are doubles other
  than NaN, with the two zeros taken as one: a linear order with an addition that rounds and a
  greatest element (\<open>weights\<close>). Vertices are the indices of the vectors, and \<open>-1\<close> is \<open>None\<close>.
\<close>

record 'w weights =
  w_zero :: 'w
  max_weight :: 'w
  w_add :: "'w \<Rightarrow> 'w \<Rightarrow> 'w"

type_synonym 'w adjacency_list = "(nat \<times> 'w) list list"

subsection \<open>The search\<close>

text \<open>The priority queue is a set ordered by weight and then vertex, here the list of its elements in
  that order.\<close>

record 'w search =
  min_distance :: "'w list"
  previous :: "nat option list"
  vertex_queue :: "('w \<times> nat) list"

fun queue_less :: "'w::linorder \<times> nat \<Rightarrow> 'w \<times> nat \<Rightarrow> bool" where
  "queue_less (a, u) (b, v) \<longleftrightarrow> a < b \<or> \<not> b < a \<and> u < v"

fun vq_insert :: "'w::linorder \<times> nat \<Rightarrow> ('w \<times> nat) list \<Rightarrow> ('w \<times> nat) list" where
  "vq_insert x [] = [x]"
| "vq_insert x (y # ys) = (if queue_less x y then x # y # ys else if queue_less y x then y # vq_insert x ys else y # ys)"

fun vq_erase :: "'w::linorder \<times> nat \<Rightarrow> ('w \<times> nat) list \<Rightarrow> ('w \<times> nat) list" where
  "vq_erase x [] = []"
| "vq_erase x (y # ys) = (if queue_less x y then y # ys else if queue_less y x then y # vq_erase x ys else ys)"

text \<open>One edge that leaves \<open>u\<close>, then all of them.\<close>

definition relax :: "'w::linorder weights \<Rightarrow> 'w \<Rightarrow> nat \<Rightarrow> nat \<times> 'w \<Rightarrow> 'w search \<Rightarrow> 'w search option" where
  "relax W near u e s = (case e of (v, weight) \<Rightarrow>
     let distance_through_u = w_add W near weight in
     if v < length (min_distance s) then
       if distance_through_u < min_distance s ! v then
         let q = vq_erase (min_distance s ! v, v) (vertex_queue s) in
         Some (s\<lparr>min_distance := (min_distance s)[v := distance_through_u], previous := (previous s)[v := Some u],
                vertex_queue := vq_insert (distance_through_u, v) q\<rparr>)
       else Some s
     else None)"

fun relax_all :: "'w::linorder weights \<Rightarrow> 'w \<Rightarrow> nat \<Rightarrow> (nat \<times> 'w) list \<Rightarrow> 'w search \<Rightarrow> 'w search option" where
  "relax_all W near u [] s = Some s"
| "relax_all W near u (e # es) s = do { s \<leftarrow> relax W near u e s; relax_all W near u es s }"

partial_function (option) dijkstra_loop :: "'w::linorder weights \<Rightarrow> 'w adjacency_list \<Rightarrow> 'w search \<Rightarrow> 'w search option" where
  "dijkstra_loop W adj s = (case vertex_queue s of
       [] \<Rightarrow> Some s
     | (near, u) # q \<Rightarrow>
         if u < length adj then do {
           s \<leftarrow> relax_all W near u (adj ! u) (s\<lparr>vertex_queue := q\<rparr>);
           dijkstra_loop W adj s }
         else None)"

definition DijkstraComputePaths :: "'w::linorder weights \<Rightarrow> nat \<Rightarrow> 'w adjacency_list \<Rightarrow> ('w list \<times> nat option list) option" where
  "DijkstraComputePaths W source adj = (let n = length adj in
     if source < n then do {
       s \<leftarrow> dijkstra_loop W adj \<lparr>min_distance = (replicate n (max_weight W))[source := w_zero W],
         previous = replicate n None, vertex_queue = [(w_zero W, source)]\<rparr>;
       Some (min_distance s, previous s) }
     else None)"

partial_function (option) path_loop :: "nat option list \<Rightarrow> nat option \<Rightarrow> nat list \<Rightarrow> nat list option" where
  "path_loop prev vertex path = (case vertex of
       None \<Rightarrow> Some path
     | Some v \<Rightarrow> if v < length prev then path_loop prev (prev ! v) (v # path) else None)"

definition DijkstraGetShortestPathTo :: "nat \<Rightarrow> nat option list \<Rightarrow> nat list option" where
  "DijkstraGetShortestPathTo vertex prev = path_loop prev (Some vertex) []"

subsection \<open>The queue\<close>

definition vq_ok :: "('w::linorder \<times> nat) list \<Rightarrow> bool" where
  "vq_ok q \<longleftrightarrow> sorted_wrt queue_less q"

lemma queue_less_trans: "queue_less x y \<Longrightarrow> queue_less y z \<Longrightarrow> queue_less x z"
  by (cases x; cases y; cases z) (auto split: if_splits)

lemma queue_less_linear: "\<not> queue_less x y \<Longrightarrow> \<not> queue_less y x \<Longrightarrow> x = y"
  by (cases x; cases y) auto

lemma queue_less_irrefl: "\<not> queue_less x x"
  by (cases x) simp

lemma set_vq_insert: "set (vq_insert x q) = insert x (set q)"
  using queue_less_linear by (induction q) auto

lemma vq_ok_insert: "vq_ok q \<Longrightarrow> vq_ok (vq_insert x q)"
  by (induction q) (auto simp: vq_ok_def set_vq_insert dest: queue_less_trans)

lemma set_vq_erase: "vq_ok q \<Longrightarrow> set (vq_erase x q) = set q - {x}"
proof (induction q)
  case (Cons y q)
  have "x \<notin> set q" if "queue_less x y \<or> x = y"
    using Cons.prems that queue_less_trans queue_less_irrefl unfolding vq_ok_def by (metis sorted_wrt.simps(2))
  with Cons queue_less_linear [of x y] queue_less_irrefl [of y] show ?case by (auto simp: vq_ok_def)
qed simp

lemma vq_ok_erase: "vq_ok q \<Longrightarrow> vq_ok (vq_erase x q)"
proof (induction q)
  case (Cons y q)
  then have "vq_ok q" by (simp add: vq_ok_def)
  with Cons set_vq_erase [OF this, of x] show ?case by (auto simp: vq_ok_def)
qed simp

lemma vq_first: "vq_ok ((d, u) # q) \<Longrightarrow> (e, v) \<in> set q \<Longrightarrow> d \<le> e"
  unfolding vq_ok_def by fastforce

subsection \<open>What is known during the search\<close>

text \<open>How a sum of doubles behaves when what is added is not negative: rounding keeps the order.\<close>

definition weights_ok :: "'w::linorder weights \<Rightarrow> bool" where
  "weights_ok W \<longleftrightarrow> (\<forall>a w. w_zero W \<le> w \<longrightarrow> a \<le> w_add W a w) \<and> (\<forall>a b w. a \<le> b \<longrightarrow> w_add W a w \<le> w_add W b w)
     \<and> (\<forall>a. a \<le> max_weight W) \<and> w_zero W < max_weight W"

definition graph_ok :: "'w::linorder weights \<Rightarrow> 'w adjacency_list \<Rightarrow> bool" where
  "graph_ok W adj \<longleftrightarrow> (\<forall>u < length adj. \<forall>(v, w) \<in> set (adj ! u). v < length adj \<and> w_zero W \<le> w)"

text \<open>A walk from the source, with the sum of its weights in the order in which they are met.\<close>

inductive walk :: "'w weights \<Rightarrow> 'w adjacency_list \<Rightarrow> nat \<Rightarrow> nat list \<Rightarrow> nat \<Rightarrow> 'w \<Rightarrow> bool" for W adj source where
  walk_start: "source < length adj \<Longrightarrow> walk W adj source [source] source (w_zero W)"
| walk_edge: "walk W adj source p u c \<Longrightarrow> (v, w) \<in> set (adj ! u) \<Longrightarrow> v < length adj \<Longrightarrow> walk W adj source (p @ [v]) v (w_add W c w)"

text \<open>\<open>us\<close> are the vertices that were taken from the queue, the latest first, \<open>R\<close> the edges relaxed so far.\<close>

inductive search_inv :: "'w::linorder weights \<Rightarrow> 'w adjacency_list \<Rightarrow> nat \<Rightarrow> nat list \<Rightarrow> (nat \<Rightarrow> (nat \<times> 'w) set) \<Rightarrow> 'w search \<Rightarrow> bool"
  for W adj src us R s where
  search_invI: "length (min_distance s) = length adj
    \<Longrightarrow> length (previous s) = length adj
    \<Longrightarrow> src < length adj
    \<Longrightarrow> vq_ok (vertex_queue s)
    \<Longrightarrow> (\<And>d v. (d, v) \<in> set (vertex_queue s) \<Longrightarrow> v < length adj \<and> d = min_distance s ! v \<and> v \<notin> set us \<and> d < max_weight W)
    \<Longrightarrow> distinct us
    \<Longrightarrow> set us \<subseteq> {..<length adj}
    \<Longrightarrow> (\<And>v. v < length adj \<Longrightarrow> w_zero W \<le> min_distance s ! v)
    \<Longrightarrow> (\<And>v. v < length adj \<Longrightarrow> min_distance s ! v < max_weight W \<Longrightarrow> v \<in> set us \<or> (min_distance s ! v, v) \<in> set (vertex_queue s))
    \<Longrightarrow> (\<And>u. u \<in> set us \<Longrightarrow> min_distance s ! u < max_weight W)
    \<Longrightarrow> (\<And>u v w. u \<in> set us \<Longrightarrow> (v, w) \<in> R u \<Longrightarrow> min_distance s ! v \<le> w_add W (min_distance s ! u) w)
    \<Longrightarrow> (\<And>u d v. u \<in> set us \<Longrightarrow> (d, v) \<in> set (vertex_queue s) \<Longrightarrow> min_distance s ! u \<le> d)
    \<Longrightarrow> min_distance s ! src = w_zero W
    \<Longrightarrow> previous s ! src = None
    \<Longrightarrow> (\<And>v. v < length adj \<Longrightarrow> v \<noteq> src \<Longrightarrow> min_distance s ! v < max_weight W \<Longrightarrow> \<exists>u w. previous s ! v = Some u \<and> u \<in> set us
       \<and> (v, w) \<in> set (adj ! u) \<and> min_distance s ! v = w_add W (min_distance s ! u) w)
    \<Longrightarrow> (\<And>v. v < length adj \<Longrightarrow> v \<noteq> src \<Longrightarrow> \<not> min_distance s ! v < max_weight W \<Longrightarrow> previous s ! v = None)
    \<Longrightarrow> (\<And>xs v ys u. us = xs @ v # ys \<Longrightarrow> previous s ! v = Some u \<Longrightarrow> u \<in> set ys)
    \<Longrightarrow> search_inv W adj src us R s"

lemma search_invD:
  assumes "search_inv W adj src us R s"
  shows "length (min_distance s) = length adj" "length (previous s) = length adj" "src < length adj" "vq_ok (vertex_queue s)"
    "\<And>d v. (d, v) \<in> set (vertex_queue s) \<Longrightarrow> v < length adj \<and> d = min_distance s ! v \<and> v \<notin> set us \<and> d < max_weight W"
    "distinct us" "set us \<subseteq> {..<length adj}"
    "\<And>v. v < length adj \<Longrightarrow> w_zero W \<le> min_distance s ! v"
    "\<And>v. v < length adj \<Longrightarrow> min_distance s ! v < max_weight W \<Longrightarrow> v \<in> set us \<or> (min_distance s ! v, v) \<in> set (vertex_queue s)"
    "\<And>u. u \<in> set us \<Longrightarrow> min_distance s ! u < max_weight W"
    "\<And>u v w. u \<in> set us \<Longrightarrow> (v, w) \<in> R u \<Longrightarrow> min_distance s ! v \<le> w_add W (min_distance s ! u) w"
    "\<And>u d v. u \<in> set us \<Longrightarrow> (d, v) \<in> set (vertex_queue s) \<Longrightarrow> min_distance s ! u \<le> d"
    "min_distance s ! src = w_zero W" "previous s ! src = None"
    "\<And>v. v < length adj \<Longrightarrow> v \<noteq> src \<Longrightarrow> min_distance s ! v < max_weight W \<Longrightarrow> \<exists>u w. previous s ! v = Some u \<and> u \<in> set us
       \<and> (v, w) \<in> set (adj ! u) \<and> min_distance s ! v = w_add W (min_distance s ! u) w"
    "\<And>v. v < length adj \<Longrightarrow> v \<noteq> src \<Longrightarrow> \<not> min_distance s ! v < max_weight W \<Longrightarrow> previous s ! v = None"
    "\<And>xs v ys u. us = xs @ v # ys \<Longrightarrow> previous s ! v = Some u \<Longrightarrow> u \<in> set ys"
proof -
  note c = search_inv.cases [OF assms]
  show "length (min_distance s) = length adj"
    by (rule c) (assumption | meson)
  show "length (previous s) = length adj"
    by (rule c) (assumption | meson)
  show "src < length adj"
    by (rule c) (assumption | meson)
  show "vq_ok (vertex_queue s)"
    by (rule c) (assumption | meson)
  show "\<And>d v. (d, v) \<in> set (vertex_queue s) \<Longrightarrow> v < length adj \<and> d = min_distance s ! v \<and> v \<notin> set us \<and> d < max_weight W"
    by (rule c) (assumption | meson)
  show "distinct us"
    by (rule c) (assumption | meson)
  show "set us \<subseteq> {..<length adj}"
    by (rule c) (assumption | meson)
  show "\<And>v. v < length adj \<Longrightarrow> w_zero W \<le> min_distance s ! v"
    by (rule c) (assumption | meson)
  show "\<And>v. v < length adj \<Longrightarrow> min_distance s ! v < max_weight W \<Longrightarrow> v \<in> set us \<or> (min_distance s ! v, v) \<in> set (vertex_queue s)"
    by (rule c) (assumption | meson)
  show "\<And>u. u \<in> set us \<Longrightarrow> min_distance s ! u < max_weight W"
    by (rule c) (assumption | meson)
  show "\<And>u v w. u \<in> set us \<Longrightarrow> (v, w) \<in> R u \<Longrightarrow> min_distance s ! v \<le> w_add W (min_distance s ! u) w"
    by (rule c) (assumption | meson)
  show "\<And>u d v. u \<in> set us \<Longrightarrow> (d, v) \<in> set (vertex_queue s) \<Longrightarrow> min_distance s ! u \<le> d"
    by (rule c) (assumption | meson)
  show "min_distance s ! src = w_zero W"
    by (rule c) (assumption | meson)
  show "previous s ! src = None"
    by (rule c) (assumption | meson)
  show "\<And>v. v < length adj \<Longrightarrow> v \<noteq> src \<Longrightarrow> min_distance s ! v < max_weight W \<Longrightarrow> \<exists>u w. previous s ! v = Some u \<and> u \<in> set us
       \<and> (v, w) \<in> set (adj ! u) \<and> min_distance s ! v = w_add W (min_distance s ! u) w"
    by (rule c) (assumption | meson)
  show "\<And>v. v < length adj \<Longrightarrow> v \<noteq> src \<Longrightarrow> \<not> min_distance s ! v < max_weight W \<Longrightarrow> previous s ! v = None"
    by (rule c) (assumption | meson)
  show "\<And>xs v ys u. us = xs @ v # ys \<Longrightarrow> previous s ! v = Some u \<Longrightarrow> u \<in> set ys"
    by (rule c) (assumption | meson)
qed

lemma relax_inv:
  assumes W: "weights_ok W" and inv: "search_inv W adj src us R s"
    and u: "u \<in> set us" "near = min_distance s ! u" "\<And>x. x \<in> set us \<Longrightarrow> min_distance s ! x \<le> near"
      "\<And>d v. (d, v) \<in> set (vertex_queue s) \<Longrightarrow> near \<le> d"
    and e: "v < length adj" "w_zero W \<le> w" "(v, w) \<in> set (adj ! u)"
  shows "\<exists>s'. relax W near u (v, w) s = Some s' \<and> search_inv W adj src us (R(u := insert (v, w) (R u))) s'
    \<and> (\<forall>x \<in> set us. min_distance s' ! x = min_distance s ! x) \<and> (\<forall>(d, x) \<in> set (vertex_queue s'). near \<le> d)"
proof -
  note I = search_invD [OF inv]
  let ?t = "w_add W near w" and ?D = "min_distance s" and ?Q = "vertex_queue s"
  have grow: "near \<le> ?t" using W e(2) by (simp add: weights_ok_def)
  show ?thesis
  proof (cases "?t < ?D ! v")
    case False
    have "search_inv W adj src us (R(u := insert (v, w) (R u))) s"
    proof (rule search_invI)
      show "?D ! y \<le> w_add W (?D ! x) k" if "x \<in> set us" "(y, k) \<in> (R(u := insert (v, w) (R u))) x" for x y k
        using that False I(11) u(2) by (auto split: if_splits)
    qed (rule I; assumption)+
    with False e(1) I(1) u(4) show ?thesis by (auto simp: relax_def)
  next
    case True
    have out: "v \<notin> set us" using True grow u(3) by (meson leD order_trans)
    have "w_zero W \<le> near" using I(8) [of u] I(7) u(1,2) by auto
    then have src: "v \<noteq> src" using True grow I(13) by auto
    let ?s = "s\<lparr>min_distance := ?D[v := ?t], previous := (previous s)[v := Some u],
      vertex_queue := vq_insert (?t, v) (vq_erase (?D ! v, v) ?Q)\<rparr>"
    have Q: "set (vertex_queue ?s) = insert (?t, v) (set ?Q - {(?D ! v, v)})"
      using set_vq_erase [OF I(4)] by (simp add: set_vq_insert)
    have D: "?D[v := ?t] ! x = (if x = v then ?t else ?D ! x)" if "x < length adj" for x
      using that I(1) e(1) by (simp add: nth_list_update)
    have Du: "min_distance ?s ! x = ?D ! x" if "x \<in> set us" for x using out that by (cases "x = v") simp_all
    have P: "(previous s)[v := Some u] ! x = (if x = v then Some u else previous s ! x)" if "x < length adj" for x
      using that I(2) e(1) by (simp add: nth_list_update)
    have less: "?t < max_weight W" using True W by (auto simp: weights_ok_def intro: less_le_trans)
    have le: "min_distance ?s ! x \<le> ?D ! x" for x using True I(1) e(1) by (cases "x = v") (simp_all add: less_imp_le)
    have "search_inv W adj src us (R(u := insert (v, w) (R u))) ?s"
    proof (rule search_invI)
      show "vq_ok (vertex_queue ?s)" using I(4) by (simp add: vq_ok_insert vq_ok_erase)
      show "x < length adj \<and> d = min_distance ?s ! x \<and> x \<notin> set us \<and> d < max_weight W" if "(d, x) \<in> set (vertex_queue ?s)" for d x
        using that I(5) [of d x] out less e(1) unfolding Q by (auto simp: D)
      show "w_zero W \<le> min_distance ?s ! x" if "x < length adj" for x
        using that I(8) \<open>w_zero W \<le> near\<close> grow by (auto simp: D)
      show "x \<in> set us \<or> (min_distance ?s ! x, x) \<in> set (vertex_queue ?s)" if "x < length adj" "min_distance ?s ! x < max_weight W" for x
        using that I(9) [of x] unfolding Q by (auto simp: D split: if_splits)
      show "min_distance ?s ! x < max_weight W" if "x \<in> set us" for x using that I(10) unfolding Du [OF that] by blast
      show "min_distance ?s ! y \<le> w_add W (min_distance ?s ! x) k"
        if "x \<in> set us" "(y, k) \<in> (R(u := insert (v, w) (R u))) x" for x y k
      proof (cases "(y, k) \<in> R x")
        case True
        then show ?thesis using order_trans [OF le [of y] I(11) [OF that(1)]] unfolding Du [OF that(1)] by blast
      next
        case False
        with that(2) have "x = u" "y = v" "k = w" by (auto split: if_splits)
        then show ?thesis using Du [OF u(1)] u(2) D [OF e(1)] by simp
      qed
      show "min_distance ?s ! x \<le> d" if "x \<in> set us" "(d, y) \<in> set (vertex_queue ?s)" for x d y
        using that(2) I(12) [OF that(1)] u(3) [OF that(1)] grow unfolding Q Du [OF that(1)] by (auto intro: order_trans)
      show "\<exists>y k. previous ?s ! x = Some y \<and> y \<in> set us \<and> (x, k) \<in> set (adj ! y) \<and> min_distance ?s ! x = w_add W (min_distance ?s ! y) k"
        if x: "x < length adj" "x \<noteq> src" "min_distance ?s ! x < max_weight W" for x
      proof (cases "x = v")
        case True
        then show ?thesis using D [OF x(1)] P [OF x(1)] Du [OF u(1)] u(1,2) e(3) by auto
      next
        case False
        with x(3) D [OF x(1)] have "?D ! x < max_weight W" by simp
        from I(15) [OF x(1,2) this] obtain y k where y: "previous s ! x = Some y" "y \<in> set us" "(x, k) \<in> set (adj ! y)"
          "?D ! x = w_add W (?D ! y) k" by blast
        with False Du [OF y(2)] show ?thesis by (intro exI [of _ y] exI [of _ k]) simp
      qed
      show "previous ?s ! x = None" if "x < length adj" "x \<noteq> src" "\<not> min_distance ?s ! x < max_weight W" for x
        using that I(16) [of x] less D [of x] P [of x] by (auto split: if_splits)
      show "y \<in> set ys" if "us = xs @ x # ys" "previous ?s ! x = Some y" for xs x ys y
      proof -
        have "x \<noteq> v" using that(1) out by auto
        with that(2) have "previous s ! x = Some y" by simp
        with I(17) that(1) show ?thesis by blast
      qed
      show "min_distance ?s ! src = w_zero W" "previous ?s ! src = None" using src I(13,14) by simp_all
    qed (use I(1-3,6,7) in simp_all)
    moreover have "relax W near u (v, w) s = Some ?s" using True e(1) I(1) by (simp add: relax_def Let_def)
    moreover have "\<forall>(d, x) \<in> set (vertex_queue ?s). near \<le> d" using u(4) grow unfolding Q by auto
    ultimately show ?thesis using Du by blast
  qed
qed

lemma relax_all_inv:
  assumes W: "weights_ok W" and u: "u \<in> set us"
  shows "search_inv W adj src us R s \<Longrightarrow> near = min_distance s ! u \<Longrightarrow> \<forall>x \<in> set us. min_distance s ! x \<le> near
    \<Longrightarrow> \<forall>(d, v) \<in> set (vertex_queue s). near \<le> d \<Longrightarrow> \<forall>(v, w) \<in> set es. v < length adj \<and> w_zero W \<le> w \<and> (v, w) \<in> set (adj ! u)
    \<Longrightarrow> \<exists>s'. relax_all W near u es s = Some s' \<and> search_inv W adj src us (R(u := R u \<union> set es)) s'
      \<and> (\<forall>x \<in> set us. min_distance s' ! x = min_distance s ! x)"
proof (induction es arbitrary: R s)
  case Nil then show ?case by simp
next
  case (Cons e es)
  obtain v w where e: "e = (v, w)" by (cases e)
  from Cons.prems e have ew: "v < length adj" "w_zero W \<le> w" "(v, w) \<in> set (adj ! u)" by auto
  from Cons.prems(3,4) have le: "\<And>x. x \<in> set us \<Longrightarrow> min_distance s ! x \<le> near"
    "\<And>d v. (d, v) \<in> set (vertex_queue s) \<Longrightarrow> near \<le> d" by auto
  have "\<exists>s'. relax W near u (v, w) s = Some s' \<and> search_inv W adj src us (R(u := insert (v, w) (R u))) s'
    \<and> (\<forall>x \<in> set us. min_distance s' ! x = min_distance s ! x) \<and> (\<forall>(d, x) \<in> set (vertex_queue s'). near \<le> d)"
    by (rule relax_inv [OF W Cons.prems(1) u Cons.prems(2)]) (use le ew in blast)+
  then obtain s1 where s1: "relax W near u e s = Some s1"
    "search_inv W adj src us (R(u := insert e (R u))) s1" "\<forall>x \<in> set us. min_distance s1 ! x = min_distance s ! x"
    "\<forall>(d, x) \<in> set (vertex_queue s1). near \<le> d" unfolding e by blast
  have "near = min_distance s1 ! u" "\<forall>x \<in> set us. min_distance s1 ! x \<le> near" using s1(3) u Cons.prems(2,3) by simp_all
  moreover have "\<forall>(v, w) \<in> set es. v < length adj \<and> w_zero W \<le> w \<and> (v, w) \<in> set (adj ! u)" using Cons.prems(5) by simp
  ultimately obtain s2 where s2: "relax_all W near u es s1 = Some s2"
    "search_inv W adj src us ((R(u := insert e (R u)))(u := (R(u := insert e (R u))) u \<union> set es)) s2"
    "\<forall>x \<in> set us. min_distance s2 ! x = min_distance s1 ! x" using Cons.IH [OF s1(2) _ _ s1(4)] by blast
  have "(R(u := insert e (R u)))(u := (R(u := insert e (R u))) u \<union> set es) = R(u := R u \<union> set (e # es))" by auto
  with s2(2) have "search_inv W adj src us (R(u := R u \<union> set (e # es))) s2" by metis
  moreover have "relax_all W near u (e # es) s = Some s2" using s1(1) s2(1) by simp
  moreover have "\<forall>x \<in> set us. min_distance s2 ! x = min_distance s ! x" using s1(3) s2(3) by simp
  ultimately show ?case by blast
qed

definition edges_of :: "'w adjacency_list \<Rightarrow> nat \<Rightarrow> (nat \<times> 'w) set" where
  "edges_of adj u = set (adj ! u)"

lemma pop_inv:
  assumes W: "weights_ok W" and G: "graph_ok W adj" and inv: "search_inv W adj src us (edges_of adj) s"
    and q: "vertex_queue s = (near, u) # q"
  shows "u < length adj \<and> (\<exists>s'. relax_all W near u (adj ! u) (s\<lparr>vertex_queue := q\<rparr>) = Some s' \<and> search_inv W adj src (u # us) (edges_of adj) s')"
proof -
  note I = search_invD [OF inv]
  have u: "u < length adj" "near = min_distance s ! u" "u \<notin> set us" "near < max_weight W" using I(5) [of near u] q by auto
  let ?s = "s\<lparr>vertex_queue := q\<rparr>"
  have ok: "vq_ok ((near, u) # q)" using I(4) q by simp
  then have Q: "vq_ok q" "\<And>d v. (d, v) \<in> set q \<Longrightarrow> near \<le> d" using vq_first [OF ok] by (simp_all add: vq_ok_def)
  have inq: "v \<noteq> u" if "(d, v) \<in> set q" for d v
  proof
    assume "v = u"
    with I(5) [of d v] u(2) q that have "(near, u) \<in> set q" by simp
    with I(4) queue_less_irrefl show False unfolding q vq_ok_def by auto
  qed
  have le: "\<forall>x \<in> set (u # us). min_distance ?s ! x \<le> near" using I(12) [of _ near u] u(2) q by auto
  have inv1: "search_inv W adj src (u # us) ((edges_of adj)(u := {})) ?s"
  proof (rule search_invI)
    show "y \<in> set ys" if a: "u # us = xs @ v # ys" "previous ?s ! v = Some y" for xs v ys y
    proof (cases xs)
      case Nil
      with a have v: "v = u" "ys = us" by simp_all
      then have "u \<noteq> src" using a(2) I(14) by auto
      with I(15) [OF u(1) this] u(2,4) a(2) v show ?thesis by auto
    next
      case (Cons x xs') with a I(17) [of xs' v ys y] show ?thesis by auto
    qed
    show "v \<in> set (u # us) \<or> (min_distance ?s ! v, v) \<in> set (vertex_queue ?s)"
      if "v < length adj" "min_distance ?s ! v < max_weight W" for v
      using I(9) [of v] that q by auto
    show "min_distance ?s ! y \<le> w_add W (min_distance ?s ! x) k" if "x \<in> set (u # us)" "(y, k) \<in> ((edges_of adj)(u := {})) x" for x y k
      using that I(11) [of x y k] by (auto split: if_splits)
    show "min_distance ?s ! x \<le> d" if "x \<in> set (u # us)" "(d, y) \<in> set (vertex_queue ?s)" for x d y
      using that Q(2) le by (auto intro: order_trans)
    show "v < length adj \<and> d = min_distance ?s ! v \<and> v \<notin> set (u # us) \<and> d < max_weight W" if "(d, v) \<in> set (vertex_queue ?s)" for d v
      using that inq I(5) [of d v] q by auto
    show "\<exists>y k. previous ?s ! x = Some y \<and> y \<in> set (u # us) \<and> (x, k) \<in> set (adj ! y) \<and> min_distance ?s ! x = w_add W (min_distance ?s ! y) k"
      if "x < length adj" "x \<noteq> src" "min_distance ?s ! x < max_weight W" for x
      using I(15) [of x] that by auto
    show "min_distance ?s ! x < max_weight W" if "x \<in> set (u # us)" for x using that I(10) u by auto
  qed (use I u Q in \<open>simp_all\<close>)
  have "\<forall>(v, w) \<in> set (adj ! u). v < length adj \<and> w_zero W \<le> w \<and> (v, w) \<in> set (adj ! u)" using G u(1) by (auto simp: graph_ok_def)
  moreover have "\<forall>(d, v) \<in> set (vertex_queue ?s). near \<le> d" using Q(2) by auto
  ultimately obtain s' where s': "relax_all W near u (adj ! u) ?s = Some s'"
    "search_inv W adj src (u # us) ((edges_of adj)(u := ((edges_of adj)(u := {})) u \<union> set (adj ! u))) s'"
    using relax_all_inv [OF W _ inv1 _ le, of u "adj ! u"] u(2) by auto
  have "(edges_of adj)(u := ((edges_of adj)(u := {})) u \<union> set (adj ! u)) = edges_of adj" by (simp add: edges_of_def fun_eq_iff)
  with s' u(1) show ?thesis by auto
qed

lemma loop_ends:
  assumes W: "weights_ok W" and G: "graph_ok W adj"
  shows "search_inv W adj src us (edges_of adj) s \<Longrightarrow> \<exists>s' us'. dijkstra_loop W adj s = Some s' \<and> vertex_queue s' = []
    \<and> search_inv W adj src us' (edges_of adj) s'"
proof (induction "length adj - length us" arbitrary: us s rule: less_induct)
  case less
  note I = search_invD [OF less.prems]
  show ?case
  proof (cases "vertex_queue s")
    case Nil
    with less.prems show ?thesis by (subst dijkstra_loop.simps) auto
  next
    case (Cons x q)
    obtain near u where x: "x = (near, u)" by (cases x)
    from pop_inv [OF W G less.prems Cons [unfolded x]] obtain s1 where s1: "u < length adj"
      "relax_all W near u (adj ! u) (s\<lparr>vertex_queue := q\<rparr>) = Some s1" "search_inv W adj src (u # us) (edges_of adj) s1" by blast
    note J = search_invD [OF s1(3)]
    have "card (set (u # us)) \<le> length adj" using card_mono [OF _ J(7)] by simp
    then have "length (u # us) \<le> length adj" using distinct_card [OF J(6)] by simp
    then have "length adj - length (u # us) < length adj - length us" by simp
    from less.hyps [OF this s1(3)] s1(1,2) Cons x show ?thesis by (subst dijkstra_loop.simps) auto
  qed
qed

subsection \<open>The search is right\<close>

lemma search_start:
  assumes W: "weights_ok W" and "src < length adj"
  shows "search_inv W adj src [] (edges_of adj) \<lparr>min_distance = (replicate (length adj) (max_weight W))[src := w_zero W],
     previous = replicate (length adj) None, vertex_queue = [(w_zero W, src)]\<rparr>"
proof -
  have D: "(replicate (length adj) (max_weight W))[src := w_zero W] ! v = (if v = src then w_zero W else max_weight W)"
    if "v < length adj" for v using that by (simp add: nth_list_update)
  show ?thesis
    by (rule search_invI) (use assms in \<open>auto simp: vq_ok_def weights_ok_def D less_imp_le split: if_splits\<close>)
qed

lemma walk_dom: "walk W adj src p v c \<Longrightarrow> v < length adj"
  by (induction rule: walk.induct) auto

lemma walk_ends: "walk W adj src p v c \<Longrightarrow> hd p = src \<and> last p = v \<and> p \<noteq> []"
  by (induction rule: walk.induct) auto

lemma walk_nodes: "walk W adj src p v c \<Longrightarrow> set p \<subseteq> {..<length adj}"
  by (induction rule: walk.induct) auto

lemma walk_legs:
  "walk W adj src p v c \<Longrightarrow> Suc i < length p \<Longrightarrow> p ! i < length adj \<and> (\<exists>w. (p ! Suc i, w) \<in> set (adj ! (p ! i)))"
proof (induction arbitrary: i rule: walk.induct)
  case (walk_edge p u c v w)
  note ends = walk_ends [OF walk_edge.hyps(1)] walk_dom [OF walk_edge.hyps(1)]
  show ?case
  proof (cases "Suc i < length p")
    case True with walk_edge.IH [OF True] show ?thesis by (simp add: nth_append)
  next
    case False
    with walk_edge.prems have "length p = Suc i" by simp
    moreover from this ends have "p ! i = u" using last_conv_nth [of p] by simp
    ultimately show ?thesis using ends walk_edge.hyps(2) by (auto simp: nth_append)
  qed
qed simp

lemma path_of_settled:
  assumes inv: "search_inv W adj src us (edges_of adj) s"
  shows "us = xs @ v # ys \<Longrightarrow> \<exists>p. path_loop (previous s) (Some v) path = Some (p @ path) \<and> walk W adj src p v (min_distance s ! v)
    \<and> distinct p \<and> set p \<subseteq> set (v # ys)"
proof (induction "length ys" arbitrary: xs v ys path rule: less_induct)
  case less
  note I = search_invD [OF inv]
  have v: "v \<in> set us" "v < length adj" "v \<notin> set ys" using less.prems I(6,7) by auto
  show ?case
  proof (cases "previous s ! v")
    case None
    with I(10) [OF v(1)] I(15) [OF v(2)] have "v = src" by force
    then have "walk W adj src [v] v (min_distance s ! v)" using walk_start [of src adj W] I(3,13) by simp
    moreover have "path_loop (previous s) (Some v) path = Some ([v] @ path)"
      using v(2) I(2) None by (subst path_loop.simps) (simp add: path_loop.simps)
    ultimately show ?thesis by (intro exI [of _ "[v]"]) simp
  next
    case (Some u)
    have "u \<in> set ys" by (rule I(17) [OF less.prems Some])
    then obtain as bs where ys: "ys = as @ u # bs" by (auto simp: in_set_conv_decomp)
    have "us = (xs @ v # as) @ u # bs" using less.prems ys by simp
    from less.hyps [OF _ this, of "v # path"] ys obtain p where p: "path_loop (previous s) (Some u) (v # path) = Some (p @ v # path)"
      "walk W adj src p u (min_distance s ! u)" "distinct p" "set p \<subseteq> set (u # bs)" by auto
    have "v \<noteq> src" using Some I(14) by auto
    from I(15) [OF v(2) this I(10) [OF v(1)]] Some obtain w where w: "(v, w) \<in> set (adj ! u)"
      "min_distance s ! v = w_add W (min_distance s ! u) w" by auto
    from walk_edge [OF p(2) w(1) v(2)] w(2) have "walk W adj src (p @ [v]) v (min_distance s ! v)" by simp
    moreover have "path_loop (previous s) (Some v) path = Some ((p @ [v]) @ path)"
      using v(2) I(2) Some p(1) by (subst path_loop.simps) simp
    moreover have "distinct (p @ [v])" "set (p @ [v]) \<subseteq> set (v # ys)" using p(3,4) v(3) ys by auto
    ultimately show ?thesis by blast
  qed
qed

lemma search_result:
  assumes W: "weights_ok W" and G: "graph_ok W adj" and src: "src < length adj"
  shows "\<exists>D P. DijkstraComputePaths W src adj = Some (D, P) \<and> length D = length adj
    \<and> (\<forall>v < length adj. (\<forall>p c. walk W adj src p v c \<longrightarrow> D ! v \<le> c)
        \<and> (if D ! v < max_weight W then \<exists>p. DijkstraGetShortestPathTo v P = Some p \<and> walk W adj src p v (D ! v)
             \<and> distinct p \<and> set p \<subseteq> {..<length adj}
           else DijkstraGetShortestPathTo v P = Some [v]))"
proof -
  from loop_ends [OF W G search_start [OF W src]] obtain s us where
    s: "dijkstra_loop W adj \<lparr>min_distance = (replicate (length adj) (max_weight W))[src := w_zero W],
     previous = replicate (length adj) None, vertex_queue = [(w_zero W, src)]\<rparr> = Some s" "vertex_queue s = []"
    "search_inv W adj src us (edges_of adj) s" by blast
  note I = search_invD [OF s(3)]
  let ?D = "min_distance s"
  have r: "DijkstraComputePaths W src adj = Some (?D, previous s)" using s(1) src by (simp add: DijkstraComputePaths_def Let_def)
  have least: "?D ! v \<le> c" if "walk W adj src p v c" for p v c
    using that
  proof (induction rule: walk.induct)
    case walk_start then show ?case using I(13) by simp
  next
    case (walk_edge p u c v w)
    have u: "u < length adj" by (rule walk_dom [OF walk_edge.hyps(1)])
    show ?case
    proof (cases "?D ! u < max_weight W")
      case True
      with I(9) [OF u] s(2) have "u \<in> set us" by simp
      with I(11) [of u v w] walk_edge.hyps(2) have "?D ! v \<le> w_add W (?D ! u) w" by (simp add: edges_of_def)
      also have "\<dots> \<le> w_add W c w" using W walk_edge.IH by (simp add: weights_ok_def)
      finally show ?thesis .
    next
      case False
      then have "max_weight W \<le> ?D ! u" by simp
      with walk_edge.IH have "max_weight W \<le> c" by (rule order_trans [rotated])
      have "w_zero W \<le> w" using G u walk_edge.hyps(2) by (auto simp: graph_ok_def)
      then have "c \<le> w_add W c w" using W by (simp add: weights_ok_def)
      moreover have "?D ! v \<le> max_weight W" using W by (simp add: weights_ok_def)
      ultimately show ?thesis using \<open>max_weight W \<le> c\<close> by (meson order_trans)
    qed
  qed
  have path: "if ?D ! v < max_weight W then \<exists>p. DijkstraGetShortestPathTo v (previous s) = Some p \<and> walk W adj src p v (?D ! v)
        \<and> distinct p \<and> set p \<subseteq> {..<length adj}
      else DijkstraGetShortestPathTo v (previous s) = Some [v]" if v: "v < length adj" for v
  proof (cases "?D ! v < max_weight W")
    case True
    with I(9) [OF v] s(2) have "v \<in> set us" by simp
    then obtain xs ys where "us = xs @ v # ys" by (auto simp: in_set_conv_decomp)
    from path_of_settled [OF s(3) this, of "[]"] this I(7) True show ?thesis by (fastforce simp: DijkstraGetShortestPathTo_def)
  next
    case False
    with I(13) W have "v \<noteq> src" by (auto simp: weights_ok_def)
    from I(16) [OF v this False] v I(2) have "DijkstraGetShortestPathTo v (previous s) = Some [v]"
      by (simp add: DijkstraGetShortestPathTo_def path_loop.simps)
    with False show ?thesis by simp
  qed
  show ?thesis using r least path I(1) by blast
qed

subsection \<open>The block\<close>

text \<open>\<open>double\<close> converts a float, NaN to \<open>None\<close>; the table is read row by row.\<close>

definition adjacency_of :: "'w::linorder weights \<Rightarrow> ('f \<Rightarrow> 'w option) \<Rightarrow> 'f list \<Rightarrow> 'w adjacency_list" where
  "adjacency_of W double costTable = map (\<lambda>m. List.map_filter (\<lambda>n.
     case double (costTable ! (m * NUM_NODES + n)) of
       Some w \<Rightarrow> if w < max_weight W then Some (n, w) else None
     | None \<Rightarrow> None) [0..<NUM_NODES]) [0..<NUM_NODES]"

text \<open>
  The array for the path is made when the path is still empty. \<open>room\<close> is how many numbers the
  memory behind an array of no elements takes; the language promises none.
\<close>

definition copy_path :: "nat \<Rightarrow> nat list \<Rightarrow> nat list option" where
  "copy_path room path = (if length path \<le> room then Some path else None)"

text \<open>The loop over the array: the count of valid nodes, and their points, as far as the last node.\<close>

fun put_points :: "nat \<Rightarrow> nat list \<Rightarrow> 'f list \<Rightarrow> int \<Rightarrow> 'f list \<Rightarrow> (int \<times> 'f list) option" where
  "put_points i [] wp n out = (if i < NUM_NODES then None else Some (n, out))"
| "put_points i (a # arr) wp n out =
     (if i < NUM_NODES then
        let (n, out) = (if a < NUM_NODES then (n + 1, out[i * 2 := wp ! (a * 2), i * 2 + 1 := wp ! (a * 2 + 1)]) else (n, out)) in
        if a = NUM_NODES - 1 then Some (n, out) else put_points (Suc i) arr wp n out
      else Some (n, out))"

definition find_path :: "'w::linorder weights \<Rightarrow> ('f \<Rightarrow> 'w option) \<Rightarrow> nat \<Rightarrow> 'f list \<Rightarrow> 'f list \<Rightarrow> 'f list \<Rightarrow> (int \<times> 'f list) option" where
  "find_path W double room costTable wayPoints out = do {
     (min_distance, previous) \<leftarrow> DijkstraComputePaths W 0 (adjacency_of W double costTable);
     path \<leftarrow> DijkstraGetShortestPathTo (NUM_NODES - 1) previous;
     arr \<leftarrow> copy_path room path;
     put_points 0 arr wayPoints 0 out }"

definition points :: "'f list \<Rightarrow> nat list \<Rightarrow> 'f list" where
  "points wp p = concat (map (\<lambda>a. [wp ! (a * 2), wp ! (a * 2 + 1)]) p)"

lemma length_points: "length (points wp p) = 2 * length p"
  by (induction p) (simp_all add: points_def)

lemma put_points_path:
  assumes "i + length p < NUM_NODES" "set p \<subseteq> {..<NUM_NODES - 1}" "length out = 2 * NUM_NODES"
  shows "put_points i (p @ [NUM_NODES - 1]) wp n out
    = Some (n + int (length p) + 1, take (2 * i) out @ points wp (p @ [NUM_NODES - 1]) @ drop (2 * (i + length p) + 2) out)"
  using assms
proof (induction p arbitrary: i n out)
  case Nil
  have "out[i * 2 := x, i * 2 + 1 := y] = take (2 * i) out @ [x, y] @ drop (2 * i + 2) out" for x y
    using Nil.prems by (simp add: upd_conv_take_nth_drop mult.commute take_Suc_conv_app_nth min_def)
  with Nil.prems show ?case by (simp add: points_def Let_def NUM_NODES_eq)
next
  case (Cons a p)
  let ?out = "out[i * 2 := wp ! (a * 2), i * 2 + 1 := wp ! (a * 2 + 1)]"
  have o: "?out = take (2 * i) out @ [wp ! (a * 2), wp ! (a * 2 + 1)] @ drop (2 * i + 2) out"
    using Cons.prems by (simp add: upd_conv_take_nth_drop mult.commute take_Suc_conv_app_nth min_def)
  have "a < NUM_NODES" "a \<noteq> NUM_NODES - 1" "i < NUM_NODES" using Cons.prems by (auto simp: NUM_NODES_eq)
  then have "put_points i ((a # p) @ [NUM_NODES - 1]) wp n out = put_points (Suc i) (p @ [NUM_NODES - 1]) wp (n + 1) ?out"
    by (simp add: Let_def)
  also have "\<dots> = Some (n + 1 + int (length p) + 1, take (2 * Suc i) ?out @ points wp (p @ [NUM_NODES - 1]) @ drop (2 * (Suc i + length p) + 2) ?out)"
    using Cons.prems by (intro Cons.IH) auto
  also have "take (2 * Suc i) ?out = take (2 * i) out @ [wp ! (a * 2), wp ! (a * 2 + 1)]" unfolding o using Cons.prems by simp
  also have "drop (2 * (Suc i + length p) + 2) ?out = drop (2 * (i + length (a # p)) + 2) out" by (simp add: algebra_simps)
  finally show ?case by (simp add: points_def)
qed

lemma adjacency_edges:
  assumes "m < NUM_NODES"
  shows "(n, w) \<in> set (adjacency_of W double ct ! m) \<longleftrightarrow> n < NUM_NODES \<and> double (ct ! (m * NUM_NODES + n)) = Some w \<and> w < max_weight W"
  using assms unfolding adjacency_of_def
  by (auto simp: List.map_filter_def image_iff split: option.splits if_splits)

lemma length_adjacency [simp]: "length (adjacency_of W double ct) = NUM_NODES"
  by (simp add: adjacency_of_def)

text \<open>The hooks; \<open>junk\<close> is what the arrays of a step hold before it.\<close>

record path_finding_info =
  pf_nCenters :: int

definition path_finding_init :: "bool \<Rightarrow> int option \<Rightarrow> (int \<times> path_finding_info option) option" where
  "path_finding_init = app_init (\<lambda>nCenters. \<lparr>pf_nCenters = nCenters\<rparr>)"

definition path_finding_step :: "('f, 'e) app_ports \<Rightarrow> 'w::linorder weights \<Rightarrow> ('f \<Rightarrow> 'w option) \<Rightarrow> nat \<Rightarrow> 'f \<Rightarrow> 'e \<Rightarrow> 'e option" where
  "path_finding_step A W double room junk e = (
     let (_, costTable, e) = ap_floats A ''costTable'' (replicate (NUM_NODES * NUM_NODES) junk) e;
         (_, wayPoints, e) = ap_floats A ''wayPoints'' (replicate (NUM_NODES * 2) junk) e in do {
     (nValidNodes, pathWayPoints) \<leftarrow> find_path W double room costTable wayPoints (replicate (NUM_NODES * 2) junk);
     let e = ap_put_int A ''nValidNodes'' nValidNodes e;
     Some (ap_put_floats A ''pathWayPoints'' pathWayPoints e) })"

text \<open>Costs other than NaN are not negative.\<close>

definition costs_ok :: "'w::linorder weights \<Rightarrow> ('f \<Rightarrow> 'w option) \<Rightarrow> 'f list \<Rightarrow> bool" where
  "costs_ok W double ct \<longleftrightarrow> (\<forall>c \<in> set ct. \<forall>w. double c = Some w \<longrightarrow> w_zero W \<le> w) \<and> length ct = NUM_NODES * NUM_NODES"

lemma adjacency_ok: "costs_ok W double ct \<Longrightarrow> graph_ok W (adjacency_of W double ct)"
proof -
  assume ok: "costs_ok W double ct"
  have "m * NUM_NODES + n < length ct" if "m < NUM_NODES" "n < NUM_NODES" for m n
    using ok that by (simp add: costs_ok_def NUM_NODES_eq)
  then have "ct ! (m * NUM_NODES + n) \<in> set ct" if "m < NUM_NODES" "n < NUM_NODES" for m n using that by simp
  then show ?thesis using ok by (force simp: graph_ok_def adjacency_edges costs_ok_def)
qed

lemma find_path_result:
  assumes W: "weights_ok W" and ct: "costs_ok W double ct" and out: "length out = 2 * NUM_NODES"
  defines "adj \<equiv> adjacency_of W double ct"
  shows "\<exists>p D. (\<forall>q c. walk W adj 0 q (NUM_NODES - 1) c \<longrightarrow> D \<le> c) \<and> p \<noteq> [] \<and> length p \<le> NUM_NODES
    \<and> (if D < max_weight W then walk W adj 0 p (NUM_NODES - 1) D else p = [NUM_NODES - 1])
    \<and> find_path W double room ct wp out
      = (if length p \<le> room then Some (int (length p), points wp p @ drop (2 * length p) out) else None)"
proof -
  have n: "0 < length adj" "NUM_NODES - 1 < length adj" "length adj = NUM_NODES" by (simp_all add: adj_def NUM_NODES_eq)
  have G: "graph_ok W adj" unfolding adj_def by (rule adjacency_ok [OF ct])
  from search_result [OF W G n(1)] obtain D P where DP: "DijkstraComputePaths W 0 adj = Some (D, P)"
    "\<forall>v < length adj. (\<forall>p c. walk W adj 0 p v c \<longrightarrow> D ! v \<le> c)
        \<and> (if D ! v < max_weight W then \<exists>p. DijkstraGetShortestPathTo v P = Some p \<and> walk W adj 0 p v (D ! v)
             \<and> distinct p \<and> set p \<subseteq> {..<length adj}
           else DijkstraGetShortestPathTo v P = Some [v])" by blast
  have r: "DijkstraComputePaths W 0 adj = Some (D, P)" "\<forall>q c. walk W adj 0 q (NUM_NODES - 1) c \<longrightarrow> D ! (NUM_NODES - 1) \<le> c"
    "if D ! (NUM_NODES - 1) < max_weight W then \<exists>p. DijkstraGetShortestPathTo (NUM_NODES - 1) P = Some p
        \<and> walk W adj 0 p (NUM_NODES - 1) (D ! (NUM_NODES - 1)) \<and> distinct p \<and> set p \<subseteq> {..<NUM_NODES}
      else DijkstraGetShortestPathTo (NUM_NODES - 1) P = Some [NUM_NODES - 1]"
    using DP(1) DP(2) [rule_format, OF n(2)] unfolding n(3) by blast+
  obtain p where p: "DijkstraGetShortestPathTo (NUM_NODES - 1) P = Some p" "distinct p" "set p \<subseteq> {..<NUM_NODES}" "p \<noteq> []"
    "last p = NUM_NODES - 1"
    "if D ! (NUM_NODES - 1) < max_weight W then walk W adj 0 p (NUM_NODES - 1) (D ! (NUM_NODES - 1)) else p = [NUM_NODES - 1]"
  proof (cases "D ! (NUM_NODES - 1) < max_weight W")
    case True
    with r(3) that walk_ends show ?thesis by (metis (no_types, lifting))
  next
    case False
    with r(3) that [of "[NUM_NODES - 1]"] show ?thesis by (simp add: NUM_NODES_eq)
  qed
  have len: "length p \<le> NUM_NODES" using card_mono [OF _ p(3)] distinct_card [OF p(2)] by simp
  obtain q where q: "p = q @ [NUM_NODES - 1]" using p(4,5) by (metis append_butlast_last_id)
  have "NUM_NODES - 1 \<notin> set q" using p(2) q by simp
  then have "x < NUM_NODES" "x \<noteq> NUM_NODES - 1" if "x \<in> set q" for x using p(3) q that by auto
  then have "set q \<subseteq> {..<NUM_NODES - 1}" by force
  then have "put_points 0 p wp 0 out = Some (int (length p), points wp p @ drop (2 * length p) out)"
    using put_points_path [of 0 q out wp 0] len q out by simp
  then have "find_path W double room ct wp out
      = (if length p \<le> room then Some (int (length p), points wp p @ drop (2 * length p) out) else None)"
    using r(1) p(1) by (simp add: find_path_def adj_def copy_path_def)
  with r(2) p(4,6) len show ?thesis by blast
qed

lemma path_loop_nonempty:
  assumes "path_loop prev vertex path = Some p"
  shows "path \<noteq> [] \<or> vertex \<noteq> None \<longrightarrow> p \<noteq> []"
proof (rule path_loop.raw_induct [OF _ assms])
  fix loop prev vertex path p
  assume "\<And>prev vertex path p. loop prev vertex path = Some p \<Longrightarrow> path \<noteq> [] \<or> vertex \<noteq> None \<longrightarrow> p \<noteq> []"
    and "(case vertex of None \<Rightarrow> Some path | Some v \<Rightarrow> if v < length prev then loop prev (prev ! v) (v # path) else None) = Some p"
  then show "path \<noteq> [] \<or> vertex \<noteq> None \<longrightarrow> p \<noteq> []" by (cases vertex) (auto split: if_splits)
qed

text \<open>Whatever the table holds, the path is longer than the array made for it.\<close>

lemma path_array_overrun: "find_path W double 0 ct wp out = None"
proof -
  have "path \<noteq> []" if "DijkstraGetShortestPathTo v P = Some path" for v P path
    using path_loop_nonempty that by (fastforce simp: DijkstraGetShortestPathTo_def)
  then show ?thesis by (auto simp: find_path_def copy_path_def split: Option.bind_splits)
qed

text \<open>The exact numbers are weights.\<close>

definition exact_weights :: "xreal weights" where
  "exact_weights = \<lparr>w_zero = Fin 0, max_weight = Infty, w_add = xreal2 (+)\<rparr>"

lemma exact_weights_sel [simp]: "w_zero exact_weights = Fin 0" "max_weight exact_weights = Infty" "w_add exact_weights = xreal2 (+)"
  by (simp_all add: exact_weights_def)

lemma exact_weights_ok: "weights_ok exact_weights"
proof -
  have "a \<le> xreal2 (+) a w" if "Fin 0 \<le> w" for a w using that by (cases a; cases w) simp_all
  moreover have "xreal2 (+) a w \<le> xreal2 (+) b w" if "a \<le> b" for a b w using that by (cases a; cases b; cases w) simp_all
  moreover have "a \<le> Infty" for a by (cases a) simp_all
  ultimately show ?thesis by (simp add: weights_ok_def)
qed

subsection \<open>Properties\<close>

text \<open>C8: The path is a cheapest one. When the costs in the table are not negative, the path is a walk from the first to the last
  node along entries of the table, whose cost is finite and at most that of every other such walk, and
  when there is no such walk it is the last node alone. The block puts out its length and the points of its nodes,
  if the memory behind the array takes it.\<close>

theorem path_is_cheapest:
  assumes "weights_ok W" "costs_ok W double ct" "length out = 2 * NUM_NODES"
  defines "adj \<equiv> adjacency_of W double ct" and "goal \<equiv> NUM_NODES - 1"
  shows "\<exists>p. find_path W double room ct wp out
      = (if length p \<le> room then Some (int (length p), points wp p @ drop (2 * length p) out) else None)
    \<and> length p \<le> NUM_NODES
    \<and> (if \<exists>q c. walk W adj 0 q goal c \<and> c < max_weight W
       then 2 \<le> length p \<and> (\<exists>c < max_weight W. walk W adj 0 p goal c \<and> (\<forall>q d. walk W adj 0 q goal d \<longrightarrow> c \<le> d))
       else p = [goal])"
proof -
  from find_path_result [OF assms(1-3), of room wp] obtain p D where r: "\<forall>q c. walk W adj 0 q goal c \<longrightarrow> D \<le> c" "p \<noteq> []" "length p \<le> NUM_NODES"
    "if D < max_weight W then walk W adj 0 p goal D else p = [goal]"
    "find_path W double room ct wp out = (if length p \<le> room then Some (int (length p), points wp p @ drop (2 * length p) out) else None)"
    unfolding adj_def goal_def by blast
  have two: "2 \<le> length q" if "walk W adj 0 q goal c" for q c
    using walk_ends [OF that] by (cases q rule: remdups_adj.cases) (auto simp: goal_def NUM_NODES_eq)
  have fin: "D < max_weight W" if "walk W adj 0 q goal c" "c < max_weight W" for q c
    using r(1) that by (meson le_less_trans)
  have "if \<exists>q c. walk W adj 0 q goal c \<and> c < max_weight W
     then 2 \<le> length p \<and> (\<exists>c < max_weight W. walk W adj 0 p goal c \<and> (\<forall>q d. walk W adj 0 q goal d \<longrightarrow> c \<le> d)) else p = [goal]"
    using r(1,4) two fin by (auto split: if_splits)
  with r(3,5) show ?thesis by blast
qed

text \<open>A table whose only finite entry leads from the first to the last node.\<close>

definition one_leg :: "xreal list" where
  "one_leg = (replicate (NUM_NODES * NUM_NODES) Infty)[NUM_NODES - 1 := Fin 7]"

lemma one_leg_ok: "costs_ok exact_weights Some one_leg"
proof -
  have "set one_leg \<subseteq> {Infty, Fin 7}" unfolding one_leg_def by (rule set_update_subsetI) auto
  then show ?thesis by (auto simp: costs_ok_def one_leg_def)
qed

lemma one_leg_walk: "\<exists>q c. walk exact_weights (adjacency_of exact_weights Some one_leg) 0 q (NUM_NODES - 1) c \<and> c < max_weight exact_weights"
proof -
  let ?adj = "adjacency_of exact_weights Some one_leg"
  have "(NUM_NODES - 1, Fin 7) \<in> set (?adj ! 0)" by (subst adjacency_edges) (simp_all add: NUM_NODES_eq one_leg_def)
  moreover have "walk exact_weights ?adj 0 [0] 0 (w_zero exact_weights)" by (rule walk_start) (simp add: NUM_NODES_eq)
  ultimately have "walk exact_weights ?adj 0 ([0] @ [NUM_NODES - 1]) (NUM_NODES - 1) (w_add exact_weights (w_zero exact_weights) (Fin 7))"
    by (intro walk_edge) (simp_all add: NUM_NODES_eq)
  then show ?thesis by (intro exI conjI) auto
qed

theorem path_is_cheapest_witness:
  "\<exists>p. find_path exact_weights Some 52 one_leg (replicate 104 (Fin 1)) (replicate 104 Infty)
      = Some (int (length p), points (replicate 104 (Fin 1)) p @ drop (2 * length p) (replicate 104 Infty)) \<and> 2 \<le> length p"
proof -
  have "length (replicate 104 Infty) = 2 * NUM_NODES" by (simp add: NUM_NODES_eq)
  from path_is_cheapest [OF exact_weights_ok one_leg_ok this, of 52 "replicate 104 (Fin 1)", unfolded if_P [OF one_leg_walk]]
  obtain p where "find_path exact_weights Some 52 one_leg (replicate 104 (Fin 1)) (replicate 104 Infty)
      = (if length p \<le> 52 then Some (int (length p), points (replicate 104 (Fin 1)) p @ drop (2 * length p) (replicate 104 Infty)) else None)"
    "length p \<le> NUM_NODES" "2 \<le> length p" by blast
  then show ?thesis by (auto simp: NUM_NODES_eq)
qed

end
