(* ===== verification/Waypoints.thy ===== *)
theory Waypoints
  imports AppModel
begin

text \<open>
  The block \<open>app_blocks/waypoints_gen\<close>: around every obstacle four way points are placed, and a table
  says what it costs to go straight from one to another, infinity when an obstacle is in the way.
\<close>

subsection \<open>Geometry\<close>

text \<open>A line is the three coefficients of its equation.\<close>

definition Line2D :: "'f float_ops \<Rightarrow> 'f point \<Rightarrow> 'f point \<Rightarrow> 'f \<times> 'f \<times> 'f" where
  "Line2D F A B = (let na = fp_sub F (snd A) (snd B); nb = fp_sub F (fst B) (fst A) in
     (na, nb, fp_diff2 F (fp_neg F nb) (snd A) na (fst A)))"

definition distPoints :: "'f float_ops \<Rightarrow> 'f point \<Rightarrow> 'f point \<Rightarrow> 'f" where
  "distPoints F A B = (let x = fp_sub F (fst A) (fst B); y = fp_sub F (snd A) (snd B) in fp_sqrt F (fp_sum2 F x x y y))"

definition distPointToLine :: "'f float_ops \<Rightarrow> 'f point \<Rightarrow> 'f \<times> 'f \<times> 'f \<Rightarrow> 'f" where
  "distPointToLine F P L = (case L of (a, b, c) \<Rightarrow>
     fp_div F (fp_abs F (fp_add F (fp_sum2 F a (fst P) b (snd P)) c)) (fp_sqrt F (fp_sum2 F a a b b)))"

text \<open>The foot of the perpendicular; a point is made from two \<open>int\<close>s.\<close>

definition Point2D :: "'f float_ops \<Rightarrow> 'f \<Rightarrow> 'f \<Rightarrow> 'f point option" where
  "Point2D F x y = do { m \<leftarrow> fp_trunc F x; n \<leftarrow> fp_trunc F y; Some (fp_int F m, fp_int F n) }"

definition PedalCoordinates :: "'f float_ops \<Rightarrow> 'f point \<Rightarrow> 'f \<times> 'f \<times> 'f \<Rightarrow> 'f point option" where
  "PedalCoordinates F P L = (case L of (a, b, c) \<Rightarrow>
     let m = fp_sum2 F a a b b in
     if fp_eq F m (fp_int F 0) then Some P
     else Point2D F
       (fp_div F (fp_sub F (fp_diff2 F (fp_mul F b b) (fst P) (fp_mul F a b) (snd P)) (fp_mul F a c)) m)
       (fp_div F (fp_sub F (fp_sum2 F (fp_mul F (fp_neg F a) b) (fst P) (fp_mul F a a) (snd P)) (fp_mul F b c)) m))"

text \<open>The four points around the obstacle \<open>orig\<close>; \<open>away F k p o\<close> is \<open>k * (p - o) + o\<close>.\<close>

definition away :: "'f float_ops \<Rightarrow> 'f \<Rightarrow> 'f point \<Rightarrow> 'f point \<Rightarrow> 'f point" where
  "away F k p orig = (fp_add F (fp_mul F k (fp_sub F (fst p) (fst orig))) (fst orig),
     fp_add F (fp_mul F k (fp_sub F (snd p) (snd orig))) (snd orig))"

definition from_pedal :: "'f float_ops \<Rightarrow> 'f \<Rightarrow> 'f point \<Rightarrow> 'f point \<Rightarrow> 'f point" where
  "from_pedal F k pedal orig = (fp_add F (fp_mul F k (fp_sub F (fst orig) (fst pedal))) (fst orig),
     fp_add F (fp_mul F k (fp_sub F (snd orig) (snd pedal))) (snd orig))"

definition turned :: "'f float_ops \<Rightarrow> 'f point \<Rightarrow> 'f point \<Rightarrow> 'f point" where
  "turned F p orig = (fp_add F (fp_neg F (fp_sub F (snd p) (snd orig))) (fst orig),
     fp_add F (fp_sub F (fst p) (fst orig)) (snd orig))"

definition satelliteNode :: "'f float_ops \<Rightarrow> 'f point \<Rightarrow> 'f point \<Rightarrow> 'f point \<Rightarrow> 'f \<Rightarrow> 'f \<Rightarrow> 'f point list" where
  "satelliteNode F refPoint pedal orig safetyDist perpendicularLength = (
     let m = fp_div F safetyDist perpendicularLength;
         (p0, p1) = (if fp_less F perpendicularLength (fp_int F 5) then
             let d = fp_div F safetyDist (distPoints F orig refPoint);
                 perpendicularPoint = turned F refPoint orig in
             (away F (fp_neg F d) perpendicularPoint orig, away F d perpendicularPoint orig)
           else (from_pedal F (fp_neg F m) pedal orig, from_pedal F m pedal orig)) in
     [p0, p1, turned F p0 orig, turned F p1 orig])"

definition checkBlocking :: "'f float_ops \<Rightarrow> 'f point \<Rightarrow> 'f point \<Rightarrow> 'f point \<Rightarrow> 'f \<Rightarrow> int" where
  "checkBlocking F RPos RGoal OC robotRadius = (
     if fp_less F (fp_mul F (fp_sub F (fst OC) (fst RPos)) (fp_sub F (fst OC) (fst RGoal))) (fp_int F 0)
      \<or> fp_less F (fp_mul F (fp_sub F (snd OC) (snd RPos)) (fp_sub F (snd OC) (snd RGoal))) (fp_int F 0)
     then if fp_less F (fp_mul F robotRadius (fp_int F 2)) (distPointToLine F OC (Line2D F RPos RGoal)) then 0 else -1
     else 0)"

fun checkBlockingObstacles :: "'f float_ops \<Rightarrow> 'f point \<Rightarrow> 'f point \<Rightarrow> 'f point list \<Rightarrow> 'f \<Rightarrow> int" where
  "checkBlockingObstacles F OA OB [] r = 0"
| "checkBlockingObstacles F OA OB (oc # ocs) r =
     checkBlockingObstacles F OA OB ocs r + (if checkBlocking F OA OB oc r \<noteq> 0 then 1 else 0)"

subsection \<open>Way points and costs\<close>

definition ROBOT_WIDTH :: int where "ROBOT_WIDTH = 400"

fun points_of :: "'f list \<Rightarrow> 'f point list" where
  "points_of (x # y # zs) = (x, y) # points_of zs" | "points_of _ = []"

definition floats_of :: "'f point list \<Rightarrow> 'f list" where
  "floats_of ps = concat (map (\<lambda>p. [fst p, snd p]) ps)"

text \<open>The obstacles are given relative to where the robot is.\<close>

definition obstacles :: "'f float_ops \<Rightarrow> 'f point \<Rightarrow> 'f point list \<Rightarrow> 'f point list" where
  "obstacles F beginPos centers = map (\<lambda>c. (fp_add F (fst c) (fst beginPos), fp_add F (snd c) (snd beginPos))) centers"

fun pedals :: "'f float_ops \<Rightarrow> 'f \<times> 'f \<times> 'f \<Rightarrow> 'f point list \<Rightarrow> 'f point list option" where
  "pedals F L [] = Some []"
| "pedals F L (p # ps) = do { q \<leftarrow> PedalCoordinates F p L; qs \<leftarrow> pedals F L ps; Some (q # qs) }"

text \<open>
  The loop that copies the points behind the first five writes five points behind the end of the
  array \<open>NodesPairs\<close>; \<open>slack\<close> is how many fit there without harm, and the language promises none.
\<close>

definition put_node :: "nat \<Rightarrow> nat \<Rightarrow> 'f point \<Rightarrow> 'f point list \<Rightarrow> 'f point list option" where
  "put_node slack i p nodes = (if i < length nodes then Some (nodes[i := p])
     else if i < length nodes + slack then Some nodes else None)"

fun copy_nodes :: "nat \<Rightarrow> nat \<Rightarrow> 'f point list \<Rightarrow> 'f point list \<Rightarrow> 'f point list option" where
  "copy_nodes slack m [] nodes = Some nodes"
| "copy_nodes slack m (p # ps) nodes = do { nodes \<leftarrow> put_node slack (m + 5) p nodes; copy_nodes slack (Suc m) ps nodes }"

definition first_nodes :: "'f float_ops \<Rightarrow> 'f point \<Rightarrow> 'f point list" where
  "first_nodes F p = (let r = fp_int F (ROBOT_WIDTH * 2) in
     [p, (fp_add F (fst p) r, snd p), (fp_sub F (fst p) r, snd p), (fst p, fp_add F (snd p) r), (fst p, fp_sub F (snd p) r)])"

text \<open>\<open>assisting\<close> and \<open>nodes\<close> are the arrays as they are when the loops begin.\<close>

definition way_points :: "'f float_ops \<Rightarrow> nat \<Rightarrow> 'f point \<Rightarrow> 'f point \<Rightarrow> 'f point list \<Rightarrow> 'f point list \<Rightarrow> 'f point list
    \<Rightarrow> 'f point list option" where
  "way_points F slack beginPos endPos obsPos assisting nodes = do {
     let L = Line2D F beginPos endPos;
     p0 \<leftarrow> pedals F L obsPos;
     let sat = concat (map (\<lambda>(p, orig). satelliteNode F endPos p orig (fp_int F (ROBOT_WIDTH div 2 + ROBOT_WIDTH))
       (distPointToLine F orig L)) (zip p0 obsPos));
     let nodes = first_nodes F beginPos @ drop 5 nodes;
     nodes \<leftarrow> copy_nodes slack 0 (sat @ drop (length sat) assisting) nodes;
     put_node 0 (NUM_NODES - 1) endPos nodes }"

definition cost_entry :: "'f float_ops \<Rightarrow> 'f point list \<Rightarrow> 'f point list \<Rightarrow> nat \<Rightarrow> nat \<Rightarrow> 'f" where
  "cost_entry F obsPos nodes m n =
     (if n \<le> m then fp_inf F
      else if m mod 2 = 0 \<and> n = m + 1 then fp_inf F
      else if 0 < checkBlockingObstacles F (nodes ! m) (nodes ! n) obsPos (fp_int F (ROBOT_WIDTH div 2)) then fp_inf F
      else distPoints F (nodes ! m) (nodes ! n))"

definition cost_table :: "'f float_ops \<Rightarrow> 'f point list \<Rightarrow> 'f point list \<Rightarrow> 'f list" where
  "cost_table F obsPos nodes = concat (map (\<lambda>m. map (cost_entry F obsPos nodes m) [0..<NUM_NODES]) [0..<NUM_NODES])"

text \<open>The block: its private data start as zeros; \<open>junk\<close> is what the arrays of a step hold before it.\<close>

record 'f waypoints_gen_config =
  wgc_nCenters :: int
  wgc_initGoal :: "'f point"
  wgc_initPos :: "'f point"

record 'f waypoints_gen_info =
  wg_nCenters :: int
  wg_initGoal :: "'f point"
  wg_initPos :: "'f point"
  wg_begin :: "'f point"
  wg_end :: "'f point"

definition waypoints_gen_init :: "'f float_ops \<Rightarrow> bool \<Rightarrow> 'f waypoints_gen_config option \<Rightarrow> (int \<times> 'f waypoints_gen_info option) option" where
  "waypoints_gen_init F = (let z = (fp_int F 0, fp_int F 0) in
     app_init (\<lambda>c. \<lparr>wg_nCenters = wgc_nCenters c, wg_initGoal = wgc_initGoal c, wg_initPos = wgc_initPos c, wg_begin = z, wg_end = z\<rparr>))"

definition waypoints_gen_step :: "('f, 'e) app_ports \<Rightarrow> 'f float_ops \<Rightarrow> nat \<Rightarrow> 'f \<Rightarrow> 'f waypoints_gen_info \<Rightarrow> 'e
    \<Rightarrow> ('f waypoints_gen_info \<times> 'e) option" where
  "waypoints_gen_step A F slack junk info e = (
     let (_, inCenterCoordinates, e) = ap_floats A ''centerCoordinates'' (replicate (2 * MAX_OBS) junk) e;
         (_, inBeginPos, e) = ap_floats A ''beginPos'' [junk, junk] e;
         (ret_read_pos, inEndPos, e) = ap_floats A ''endPos'' [junk, junk] e;
         (_, inNCenters, e) = ap_int A ''nCenters'' 0 e;
         mm = (\<lambda>xs. (fp_mul F (xs ! 0) (fp_int F 1000), fp_mul F (xs ! 1) (fp_int F 1000)));
         info = (if 0 < ret_read_pos then info\<lparr>wg_begin := mm inBeginPos, wg_end := mm inEndPos\<rparr> else info);
         obsPos = obstacles F (wg_begin info) (points_of inCenterCoordinates) in do {
     nodes \<leftarrow> way_points F slack (wg_begin info) (wg_end info) obsPos
       (points_of inCenterCoordinates @ replicate (NUM_NODES - MAX_OBS) (junk, junk)) (replicate NUM_NODES (junk, junk));
     let e = ap_put_floats A ''wayPoints'' (floats_of nodes) e;
     Some (info, ap_put_floats A ''costTable'' (cost_table F obsPos nodes) e) })"

subsection \<open>The way points\<close>

lemma length_pedals: "pedals F L ps = Some qs \<Longrightarrow> length qs = length ps"
  by (induction ps arbitrary: qs) (auto split: Option.bind_splits)

lemma length_satellites:
  "length xs = length ys \<Longrightarrow> length (concat (map (\<lambda>(p, orig). satelliteNode F r p orig s (h orig)) (zip xs ys))) = MAX_SAT * length ys"
  by (induction xs ys rule: list_induct2) (auto simp: satelliteNode_def Let_def MAX_SAT_def split: prod.splits)

lemma copy_nodes_append:
  "copy_nodes slack m (ps @ qs) nodes = do { nodes \<leftarrow> copy_nodes slack m ps nodes; copy_nodes slack (m + length ps) qs nodes }"
  by (induction ps arbitrary: m nodes) (auto split: Option.bind_splits)

lemma copy_nodes_inside:
  "m + 5 + length ps \<le> length nodes
    \<Longrightarrow> copy_nodes slack m ps nodes = Some (take (m + 5) nodes @ ps @ drop (m + 5 + length ps) nodes)"
proof (induction ps arbitrary: m nodes)
  case (Cons p ps)
  then have "copy_nodes slack m (p # ps) nodes = Some (take (Suc (m + 5)) (nodes[m + 5 := p]) @ ps @ drop (Suc m + 5 + length ps) (nodes[m + 5 := p]))"
    by (simp add: put_node_def)
  also have "take (Suc (m + 5)) (nodes[m + 5 := p]) = take (m + 5) nodes @ [p]"
    using Cons.prems by (subst take_Suc_conv_app_nth) simp_all
  finally show ?case by (simp add: add.assoc)
qed simp

lemma copy_nodes_outside:
  "length nodes \<le> m + 5 \<Longrightarrow> copy_nodes slack m ps nodes
    = (if ps = [] \<or> m + 5 + length ps \<le> length nodes + slack then Some nodes else None)"
proof (induction ps arbitrary: m)
  case (Cons p ps)
  have "copy_nodes slack (Suc m) ps nodes = (if ps = [] \<or> Suc m + 5 + length ps \<le> length nodes + slack then Some nodes else None)"
    by (rule Cons.IH) (use Cons.prems in simp)
  then show ?case using Cons.prems by (cases "ps = []") (simp_all add: put_node_def del: copy_nodes.simps(2) add: copy_nodes.simps(2) [of _ _ p])
qed simp

lemma way_points_result:
  assumes p0: "pedals F (Line2D F b e) obs = Some p0" and len: "length obs = MAX_OBS" "length assisting = NUM_NODES" "length nodes0 = NUM_NODES"
  defines "sat \<equiv> concat (map (\<lambda>(p, orig). satelliteNode F e p orig (fp_int F (ROBOT_WIDTH div 2 + ROBOT_WIDTH))
       (distPointToLine F orig (Line2D F b e))) (zip p0 obs))"
  shows "way_points F slack b e obs assisting nodes0 = (if 5 \<le> slack then Some (first_nodes F b @ take 46 sat @ [e]) else None)"
proof -
  have sat: "length sat = 48" unfolding sat_def
    using length_satellites [OF length_pedals [OF p0]] len(1) by (simp add: MAX_OBS_def MAX_SAT_def)
  let ?n = "first_nodes F b @ drop 5 nodes0"
  have first: "length (first_nodes F b) = 5" by (simp add: first_nodes_def Let_def)
  have n: "length ?n = 52" using len(3) first by (simp add: NUM_NODES_eq)
  have split: "sat @ drop (length sat) assisting = take 47 sat @ drop 47 sat @ drop 48 assisting" using sat by simp
  have "copy_nodes slack 0 (take 47 sat) ?n = Some (take 5 ?n @ take 47 sat @ drop 52 ?n)"
    using copy_nodes_inside [of 0 "take 47 sat" ?n slack] sat n by simp
  also have "\<dots> = Some (first_nodes F b @ take 47 sat)" using first n by simp
  finally have "copy_nodes slack 0 (sat @ drop (length sat) assisting) ?n
      = copy_nodes slack 47 (drop 47 sat @ drop 48 assisting) (first_nodes F b @ take 47 sat)"
    unfolding split copy_nodes_append [of slack 0] using sat by simp
  also have "\<dots> = (if 5 \<le> slack then Some (first_nodes F b @ take 47 sat) else None)"
    using sat first len(2) by (subst copy_nodes_outside) (simp_all add: NUM_NODES_eq)
  finally have copied: "copy_nodes slack 0 (sat @ drop (length sat) assisting) ?n
      = (if 5 \<le> slack then Some (first_nodes F b @ take 47 sat) else None)" .
  have "take 47 sat = take 46 sat @ [sat ! 46]" using sat take_Suc_conv_app_nth [of 46 sat] by simp
  then have "(first_nodes F b @ take 47 sat)[51 := e] = first_nodes F b @ take 46 sat @ [e]"
    using sat first by (simp add: list_update_append)
  with copied show ?thesis
    using p0 sat first by (simp add: way_points_def Let_def sat_def [symmetric] put_node_def NUM_NODES_eq)
qed

lemma way_points_ends:
  assumes "way_points F slack b e obs assisting nodes0 = Some ns" "length obs = MAX_OBS" "length assisting = NUM_NODES"
    "length nodes0 = NUM_NODES"
  shows "length ns = NUM_NODES \<and> ns ! (NUM_NODES - 1) = e \<and> ns ! 0 = b"
proof -
  obtain p0 where p0: "pedals F (Line2D F b e) obs = Some p0" using assms(1) by (auto simp: way_points_def Let_def split: Option.bind_splits)
  let ?sat = "concat (map (\<lambda>(p, orig). satelliteNode F e p orig (fp_int F (ROBOT_WIDTH div 2 + ROBOT_WIDTH))
       (distPointToLine F orig (Line2D F b e))) (zip p0 obs))"
  have "length ?sat = 48" using length_satellites [OF length_pedals [OF p0]] assms(2) by (simp add: MAX_OBS_def MAX_SAT_def)
  moreover have "ns = first_nodes F b @ take 46 ?sat @ [e]"
    using way_points_result [OF p0 assms(2-4), of slack] assms(1) by (simp split: if_splits)
  moreover have "length (first_nodes F b) = 5" "first_nodes F b ! 0 = b" by (simp_all add: first_nodes_def Let_def)
  ultimately show ?thesis by (simp add: NUM_NODES_eq nth_append)
qed

text \<open>The language promises no room behind an array, and without it every step goes wrong here.\<close>

lemma nodes_overrun:
  assumes "length obs = MAX_OBS" "length assisting = NUM_NODES" "length nodes0 = NUM_NODES" "slack < 5"
  shows "way_points F slack b e obs assisting nodes0 = None"
proof (cases "pedals F (Line2D F b e) obs")
  case (Some p0)
  from way_points_result [OF Some assms(1-3), of slack] assms(4) show ?thesis by simp
qed (simp add: way_points_def Let_def)

subsection \<open>What a finite cost means\<close>

lemma blocking_count_nonneg: "0 \<le> checkBlockingObstacles F A B ocs r"
  by (induction ocs) auto

lemma blocking_count_zero: "checkBlockingObstacles F A B ocs r = 0 \<longleftrightarrow> (\<forall>oc \<in> set ocs. checkBlocking F A B oc r = 0)"
proof (induction ocs)
  case (Cons oc ocs)
  with blocking_count_nonneg [of F A B ocs r] show ?case by auto
qed simp

lemma cost_entry_clear:
  assumes "cost_entry F obs nodes m n \<noteq> fp_inf F" "oc \<in> set obs"
  shows "m < n \<and> checkBlocking F (nodes ! m) (nodes ! n) oc (fp_int F (ROBOT_WIDTH div 2)) = 0"
  using assms blocking_count_nonneg [of F "nodes ! m" "nodes ! n" obs "fp_int F (ROBOT_WIDTH div 2)"]
    blocking_count_zero [of F "nodes ! m" "nodes ! n" obs "fp_int F (ROBOT_WIDTH div 2)"]
  by (auto simp: cost_entry_def split: if_splits)

lemma nth_cost_table:
  assumes "m < NUM_NODES" "n < NUM_NODES"
  shows "cost_table F obs nodes ! (m * NUM_NODES + n) = cost_entry F obs nodes m n"
proof -
  have "concat (map (\<lambda>m. map (f m) [0..<k]) [a..<b]) ! ((m - a) * k + n) = f m n" if "a \<le> m" "m < b" "n < k"
    for f :: "nat \<Rightarrow> nat \<Rightarrow> 'a" and a b k m n
    using that
  proof (induction "b - a" arbitrary: a)
    case (Suc d)
    then have r: "[a..<b] = a # [Suc a..<b]" by (simp add: upt_conv_Cons)
    show ?case
    proof (cases "m = a")
      case True with Suc.prems show ?thesis unfolding r by (simp add: nth_append)
    next
      case False
      with Suc.prems have "m - a = Suc (m - Suc a)" by simp
      then have i: "(m - a) * k + n = k + ((m - Suc a) * k + n)" by simp
      have "concat (map (\<lambda>m. map (f m) [0..<k]) [Suc a..<b]) ! ((m - Suc a) * k + n) = f m n"
        using False Suc.prems Suc.hyps(2) by (intro Suc.hyps(1)) simp_all
      then show ?thesis unfolding r i by (simp add: nth_append)
    qed
  qed simp
  from this [of 0 m NUM_NODES n NUM_NODES "cost_entry F obs nodes"] assms show ?thesis by (simp add: cost_table_def)
qed

lemma length_cost_table: "length (cost_table F obs nodes) = NUM_NODES * NUM_NODES"
  by (simp add: cost_table_def length_concat comp_def sum_list_triv)

text \<open>In exact arithmetic an obstacle that is beside the leg, in one of the two directions, is further than
  twice the radius from every point of the line through its ends.\<close>

lemma clear_leg:
  assumes clear: "checkBlocking exact (Fin ax, Fin ay) (Fin bx, Fin by') (Fin ox, Fin oy) (Fin r) = 0" and r: "0 \<le> r"
    and beside: "(ox - ax) * (ox - bx) < 0 \<or> (oy - ay) * (oy - by') < 0"
  shows "2 * r < sqrt ((ax + t * (bx - ax) - ox)\<^sup>2 + (ay + t * (by' - ay) - oy)\<^sup>2)"
proof -
  let ?a = "ay - by'" and ?b = "bx - ax"
  let ?dx = "ax + t * (bx - ax) - ox" and ?dy = "ay + t * (by' - ay) - oy"
  let ?n = "sqrt (?a * ?a + ?b * ?b)"
  have line: "distPointToLine exact (Fin ox, Fin oy) (Line2D exact (Fin ax, Fin ay) (Fin bx, Fin by'))
      = (if ?n = 0 then Infty else Fin (\<bar>?a * ox + ?b * oy + (- ?b * ay - ?a * ax)\<bar> / ?n))"
    by (simp add: distPointToLine_def Line2D_def Let_def)
  have "?a \<noteq> 0 \<or> ?b \<noteq> 0" using beside by (auto simp: zero_le_square not_less [symmetric] mult_less_0_iff)
  then have n: "0 < ?n" by (auto simp: sum_power2_gt_zero_iff power2_eq_square [symmetric])
  have "Fin (r * 2) < Fin (\<bar>?a * ox + ?b * oy + (- ?b * ay - ?a * ax)\<bar> / ?n)"
    using clear beside line n by (auto simp: checkBlocking_def split: if_splits)
  then have "2 * r * ?n < \<bar>?a * ox + ?b * oy + (- ?b * ay - ?a * ax)\<bar>" using n by (simp add: pos_less_divide_eq mult.commute)
  also have "?a * ox + ?b * oy + (- ?b * ay - ?a * ax) = - (?a * ?dx + ?b * ?dy)" by (simp add: algebra_simps)
  also have "\<bar>- (?a * ?dx + ?b * ?dy)\<bar> \<le> ?n * sqrt (?dx\<^sup>2 + ?dy\<^sup>2)"
  proof -
    have "(?a * ?dx + ?b * ?dy)\<^sup>2 \<le> (?a * ?a + ?b * ?b) * (?dx\<^sup>2 + ?dy\<^sup>2)"
    proof -
      have "(a * c + b * d)\<^sup>2 \<le> (a * a + b * b) * (c\<^sup>2 + d\<^sup>2)" for a b c d :: real
      proof -
        have "(a * a + b * b) * (c\<^sup>2 + d\<^sup>2) = (a * c + b * d)\<^sup>2 + (a * d - b * c)\<^sup>2" by (simp add: power2_eq_square algebra_simps)
        then show ?thesis by simp
      qed
      then show ?thesis .
    qed
    then have "\<bar>?a * ?dx + ?b * ?dy\<bar> \<le> sqrt ((?a * ?a + ?b * ?b) * (?dx\<^sup>2 + ?dy\<^sup>2))"
      using real_sqrt_le_mono by fastforce
    then show ?thesis by (simp add: real_sqrt_mult)
  qed
  finally have "2 * r * ?n < ?n * sqrt (?dx\<^sup>2 + ?dy\<^sup>2)" .
  with n show ?thesis by (simp add: mult.commute [of ?n])
qed

text \<open>An obstacle straight ahead is not seen when it is at the end of the leg or further on, however near.\<close>

lemma blind_spot: "1000 \<le> x \<Longrightarrow> checkBlocking exact (Fin 0, Fin 0) (Fin 1000, Fin 0) (Fin x, Fin 0) r = 0"
  by (simp add: checkBlocking_def mult_less_0_iff)

end
