(* ===== verification/PathHandler.thy ===== *)
theory PathHandler
  imports PathFinding Waypoints
begin

text \<open>
  The block \<open>app_blocks/path_handler\<close>, which moves the robot to the second point of the path, and what
  the way points, the search and this block come to when each works on the output of the one before.
\<close>

subsection \<open>The block\<close>

record 'f path_handler_info =
  ph_nCenters :: int
  ph_moveToPos :: "'f point"

definition path_handler_init :: "'f float_ops \<Rightarrow> bool \<Rightarrow> int option \<Rightarrow> (int \<times> 'f path_handler_info option) option" where
  "path_handler_init F = app_init (\<lambda>n. \<lparr>ph_nCenters = n, ph_moveToPos = (fp_int F 0, fp_int F 0)\<rparr>)"

definition next_point :: "'f float_ops \<Rightarrow> int \<Rightarrow> 'f list \<Rightarrow> 'f point \<Rightarrow> 'f point" where
  "next_point F nValidNodes plannedPathWayPoints moveToPos = (
     if 0 < nValidNodes \<and> \<not> fp_eq F (plannedPathWayPoints ! 2) (fp_inf F) \<and> \<not> fp_eq F (plannedPathWayPoints ! 3) (fp_inf F)
     then (plannedPathWayPoints ! 2, plannedPathWayPoints ! 3) else moveToPos)"

definition path_handler_step :: "('f, 'e) app_ports \<Rightarrow> 'f float_ops \<Rightarrow> 'f \<Rightarrow> 'f path_handler_info \<Rightarrow> 'e \<Rightarrow> 'f path_handler_info \<times> 'e" where
  "path_handler_step A F junk info e = (
     let (_, currentPos, e) = ap_floats A ''currentPos'' [junk, junk] e;
         (_, goalPos, e) = ap_floats A ''goalPos'' [junk, junk] e;
         (_, plannedPathWayPoints, e) = ap_floats A ''plannedPathWayPoints'' (replicate (NUM_NODES * 2) junk) e;
         (_, nValidNodes, e) = ap_int A ''nValidNodes'' 0 e;
         info = info\<lparr>ph_moveToPos := next_point F nValidNodes plannedPathWayPoints (ph_moveToPos info)\<rparr> in
     (info, ap_put_floats A ''moveToPos'' [fst (ph_moveToPos info), snd (ph_moveToPos info)] e))"

subsection \<open>Paths through the table of costs\<close>

lemma xreal2_Fin: "xreal2 f x y = Fin z \<Longrightarrow> \<exists>a b. x = Fin a \<and> y = Fin b"
  by (cases x; cases y) simp_all

lemma xreal1_Fin: "xreal1 f x = Fin z \<Longrightarrow> \<exists>a. x = Fin a"
  by (cases x) simp_all

lemma distPoints_cases:
  "distPoints exact A B = Infty \<or> (\<exists>ax ay bx by'. A = (Fin ax, Fin ay) \<and> B = (Fin bx, Fin by')
     \<and> distPoints exact A B = Fin (sqrt ((ax - bx) * (ax - bx) + (ay - by') * (ay - by'))))"
proof -
  obtain a1 a2 b1 b2 where "A = (a1, a2)" "B = (b1, b2)" by (cases A; cases B)
  then show ?thesis
    by (cases a1; cases a2; cases b1; cases b2) (simp_all add: distPoints_def fp_sum2_def Let_def)
qed

lemma exact_entry_cases:
  assumes "cost_entry exact obs nodes m n = Fin c"
  shows "m < n \<and> 0 \<le> c \<and> (\<exists>ax ay bx by'. nodes ! m = (Fin ax, Fin ay) \<and> nodes ! n = (Fin bx, Fin by')
     \<and> (\<forall>oc \<in> set obs. checkBlocking exact (Fin ax, Fin ay) (Fin bx, Fin by') oc (Fin 200) = 0))"
proof -
  have d: "distPoints exact (nodes ! m) (nodes ! n) = Fin c" using assms by (simp add: cost_entry_def split: if_splits)
  with distPoints_cases [of "nodes ! m" "nodes ! n"] obtain ax ay bx by' where n: "nodes ! m = (Fin ax, Fin ay)"
    "nodes ! n = (Fin bx, Fin by')" "c = sqrt ((ax - bx) * (ax - bx) + (ay - by') * (ay - by'))" by auto
  have "m < n \<and> checkBlocking exact (nodes ! m) (nodes ! n) oc (Fin 200) = 0" if "oc \<in> set obs" for oc
    using cost_entry_clear [of exact obs nodes m n oc] assms that by (simp add: ROBOT_WIDTH_def)
  moreover have "m < n" using assms by (simp add: cost_entry_def split: if_splits)
  ultimately show ?thesis using n by simp
qed

lemma nth_cost_table_all:
  "i < NUM_NODES * NUM_NODES \<Longrightarrow> cost_table F obs nodes ! i = cost_entry F obs nodes (i div NUM_NODES) (i mod NUM_NODES)"
proof -
  assume "i < NUM_NODES * NUM_NODES"
  then have "i div NUM_NODES < NUM_NODES" "i mod NUM_NODES < NUM_NODES"
    by (simp_all add: less_mult_imp_div_less NUM_NODES_eq)
  from nth_cost_table [OF this, of F obs nodes] show ?thesis by simp
qed

lemma exact_costs_ok: "costs_ok exact_weights Some (cost_table exact obs nodes)"
proof -
  have "Fin 0 \<le> c" if c: "c \<in> set (cost_table exact obs nodes)" for c
  proof -
    obtain i where "i < NUM_NODES * NUM_NODES" "c = cost_table exact obs nodes ! i"
      using c unfolding in_set_conv_nth length_cost_table by blast
    with nth_cost_table_all have e: "cost_entry exact obs nodes (i div NUM_NODES) (i mod NUM_NODES) = c" by metis
    show ?thesis
    proof (cases c)
      case (Fin x) with exact_entry_cases [OF e [unfolded Fin]] show ?thesis by simp
    qed simp
  qed
  then show ?thesis by (simp add: costs_ok_def length_cost_table)
qed

lemma nth_floats_of: "i < length ps \<Longrightarrow> floats_of ps ! (i * 2) = fst (ps ! i) \<and> floats_of ps ! (i * 2 + 1) = snd (ps ! i)"
proof (induction ps arbitrary: i)
  case (Cons p ps)
  then show ?case by (cases i) (simp_all add: floats_of_def)
qed simp

lemma points_floats_of: "set p \<subseteq> {..<length ps} \<Longrightarrow> points (floats_of ps) p = floats_of (map ((!) ps) p)"
  by (induction p) (use nth_floats_of in \<open>auto simp: points_def floats_of_def\<close>)

text \<open>A straight leg keeps 400 mm from every obstacle that is beside it in one of the two directions.\<close>

definition clear_between :: "xreal point \<Rightarrow> xreal point \<Rightarrow> xreal point list \<Rightarrow> bool" where
  "clear_between A B obs \<longleftrightarrow> (\<exists>ax ay bx by'. A = (Fin ax, Fin ay) \<and> B = (Fin bx, Fin by')
     \<and> (\<forall>ox oy. (Fin ox, Fin oy) \<in> set obs \<and> ((ox - ax) * (ox - bx) < 0 \<or> (oy - ay) * (oy - by') < 0)
          \<longrightarrow> (\<forall>t. 400 < sqrt ((ax + t * (bx - ax) - ox)\<^sup>2 + (ay + t * (by' - ay) - oy)\<^sup>2))))"

lemma leg_of_table:
  assumes "(n, w) \<in> set (adjacency_of exact_weights Some (cost_table exact obs nodes) ! m)" "m < NUM_NODES"
  shows "clear_between (nodes ! m) (nodes ! n) obs"
proof -
  have n: "n < NUM_NODES" "cost_table exact obs nodes ! (m * NUM_NODES + n) = w" "w < Infty"
    using assms by (auto simp: adjacency_edges)
  then obtain c where "w = Fin c" by (cases w) auto
  with n nth_cost_table [OF assms(2) n(1)] have "cost_entry exact obs nodes m n = Fin c" by metis
  from exact_entry_cases [OF this] obtain ax ay bx by' where e: "nodes ! m = (Fin ax, Fin ay)" "nodes ! n = (Fin bx, Fin by')"
    "\<forall>oc \<in> set obs. checkBlocking exact (Fin ax, Fin ay) (Fin bx, Fin by') oc (Fin 200) = 0" by blast
  have "400 < sqrt ((ax + t * (bx - ax) - ox)\<^sup>2 + (ay + t * (by' - ay) - oy)\<^sup>2)"
    if "(Fin ox, Fin oy) \<in> set obs" "(ox - ax) * (ox - bx) < 0 \<or> (oy - ay) * (oy - by') < 0" for ox oy t
    using clear_leg [OF e(3) [rule_format, OF that(1)] _ that(2), of t] by simp
  with e(1,2) show ?thesis by (auto simp: clear_between_def)
qed

subsection \<open>Properties\<close>

text \<open>C9: The planned path leads from where the robot is to its goal and keeps clear. In exact arithmetic the
  path that is found in the table made from the way points and the obstacles ends at the goal; when
  it has more than one point it begins at the position of the robot, and every one of its legs is
  further than twice the radius of the robot from each obstacle that lies beside the leg.\<close>

theorem planned_path_is_clear:
  assumes "way_points exact slack a b obs assisting nodes0 = Some ns" "length obs = MAX_OBS" "length assisting = NUM_NODES"
    "length nodes0 = NUM_NODES" "length out = 2 * NUM_NODES"
  shows "\<exists>p. find_path exact_weights Some room (cost_table exact obs ns) (floats_of ns) out
      = (if length p \<le> room then Some (int (length p), floats_of (map ((!) ns) p) @ drop (2 * length p) out) else None)
    \<and> p \<noteq> [] \<and> length p \<le> NUM_NODES \<and> ns ! last p = b \<and> (2 \<le> length p \<longrightarrow> ns ! hd p = a)
    \<and> (\<forall>i. Suc i < length p \<longrightarrow> clear_between (ns ! (p ! i)) (ns ! (p ! Suc i)) obs)"
proof -
  have ns: "length ns = NUM_NODES" "ns ! (NUM_NODES - 1) = b" "ns ! 0 = a"
    using way_points_ends [OF assms(1-4)] by blast+
  let ?adj = "adjacency_of exact_weights Some (cost_table exact obs ns)"
  from find_path_result [OF exact_weights_ok exact_costs_ok assms(5), of obs ns room "floats_of ns"]
  obtain p D where r: "p \<noteq> []" "length p \<le> NUM_NODES"
    "if D < max_weight exact_weights then walk exact_weights ?adj 0 p (NUM_NODES - 1) D else p = [NUM_NODES - 1]"
    "find_path exact_weights Some room (cost_table exact obs ns) (floats_of ns) out
      = (if length p \<le> room then Some (int (length p), points (floats_of ns) p @ drop (2 * length p) out) else None)"
    by blast
  note p = r
  show ?thesis
  proof (cases "D < max_weight exact_weights")
    case True
    with p(3) have w: "walk exact_weights ?adj 0 p (NUM_NODES - 1) D" by simp
    have "set p \<subseteq> {..<NUM_NODES}" using walk_nodes [OF w] by simp
    then have "points (floats_of ns) p = floats_of (map ((!) ns) p)" using ns(1) by (simp add: points_floats_of)
    moreover have "clear_between (ns ! (p ! i)) (ns ! (p ! Suc i)) obs" if "Suc i < length p" for i
      using walk_legs [OF w that] leg_of_table by auto
    ultimately show ?thesis using p(1,2,4) walk_ends [OF w] ns by (intro exI [of _ p]) auto
  next
    case False
    with p(3) have "p = [NUM_NODES - 1]" by simp
    moreover have "points (floats_of ns) p = floats_of (map ((!) ns) p)" by (rule points_floats_of) (use calculation ns(1) in \<open>simp add: NUM_NODES_eq\<close>)
    ultimately show ?thesis using p(2,4) ns by (intro exI [of _ p]) simp
  qed
qed

text \<open>Twelve obstacles in one place, at (1000, 1000), on the way from (0, 0) to (3000, 0).\<close>

lemma example_pedals:
  "pedals exact (Line2D exact (Fin 0, Fin 0) (Fin 3000, Fin 0)) (replicate n (Fin 1000, Fin 1000)) = Some (replicate n (Fin 1000, Fin 0))"
  by (induction n) (simp_all add: PedalCoordinates_def Line2D_def Point2D_def Let_def)

theorem planned_path_is_clear_witness:
  "\<exists>ns p. way_points exact 5 (Fin 0, Fin 0) (Fin 3000, Fin 0) (replicate 12 (Fin 1000, Fin 1000)) (replicate 52 (Infty, Infty))
      (replicate 52 (Infty, Infty)) = Some ns
    \<and> find_path exact_weights Some 52 (cost_table exact (replicate 12 (Fin 1000, Fin 1000)) ns) (floats_of ns) (replicate 104 Infty)
      = Some (int (length p), floats_of (map ((!) ns) p) @ drop (2 * length p) (replicate 104 Infty))
    \<and> ns ! last p = (Fin 3000, Fin 0)"
proof -
  obtain ns where ns: "way_points exact 5 (Fin 0, Fin 0) (Fin 3000, Fin 0) (replicate 12 (Fin 1000, Fin 1000))
      (replicate 52 (Infty, Infty)) (replicate 52 (Infty, Infty)) = Some ns"
    using way_points_result [OF example_pedals [of 12], of "replicate 52 (Infty, Infty)" "replicate 52 (Infty, Infty)" 5]
    by (simp add: MAX_OBS_def NUM_NODES_eq)
  from planned_path_is_clear [OF this, of "replicate 104 Infty" 52] obtain p where
    "find_path exact_weights Some 52 (cost_table exact (replicate 12 (Fin 1000, Fin 1000)) ns) (floats_of ns) (replicate 104 Infty)
      = (if length p \<le> 52 then Some (int (length p), floats_of (map ((!) ns) p) @ drop (2 * length p) (replicate 104 Infty)) else None)"
    "ns ! last p = (Fin 3000, Fin 0)" "length p \<le> 52"
    by (auto simp: MAX_OBS_def NUM_NODES_eq)
  with ns show ?thesis by auto
qed

text \<open>C11: The robot moves to the second point of the path, or nowhere in particular. When the search returns, what the handler makes of
  the output of the search is the second point of a walk to the goal when there is one of finite cost. When there
  is none, it is whatever the array of the search held before, though the count of valid nodes is one.
  In both cases a point at infinity is passed over and the last target stays.\<close>

theorem handler_target:
  fixes F :: "'f float_ops"
  assumes "weights_ok W" "costs_ok W double ct" "length out = 2 * NUM_NODES" "find_path W double room ct wp out = Some (n, pts)"
  defines "adj \<equiv> adjacency_of W double ct" and "goal \<equiv> NUM_NODES - 1"
    and "unless_far \<equiv> \<lambda>x y old. if fp_eq F x (fp_inf F) \<or> fp_eq F y (fp_inf F) then old else (x, y)"
  shows "0 < n \<and> (if \<exists>q c. walk W adj 0 q goal c \<and> c < max_weight W
       then \<exists>p c. walk W adj 0 p goal c \<and> 2 \<le> length p
         \<and> next_point F n pts old = unless_far (wp ! (p ! 1 * 2)) (wp ! (p ! 1 * 2 + 1)) old
       else n = 1 \<and> next_point F n pts old = unless_far (out ! 2) (out ! 3) old)"
proof -
  from find_path_result [OF assms(1-3), of room wp] obtain p D where r: "\<forall>q c. walk W adj 0 q goal c \<longrightarrow> D \<le> c" "p \<noteq> []" "length p \<le> NUM_NODES"
    "if D < max_weight W then walk W adj 0 p goal D else p = [goal]"
    "find_path W double room ct wp out = (if length p \<le> room then Some (int (length p), points wp p @ drop (2 * length p) out) else None)"
    unfolding adj_def goal_def by blast
  have f: "n = int (length p)" "pts = points wp p @ drop (2 * length p) out" using r(5) assms(4) by (simp_all split: if_splits)
  show ?thesis
  proof (cases "D < max_weight W")
    case True
    with r(4) have w: "walk W adj 0 p goal D" by simp
    obtain a b q where p: "p = a # b # q" using walk_ends [OF w] by (cases p rule: remdups_adj.cases) (auto simp: goal_def NUM_NODES_eq)
    have "next_point F (int (length p)) (points wp p @ drop (2 * length p) out) old = unless_far (wp ! (p ! 1 * 2)) (wp ! (p ! 1 * 2 + 1)) old"
      by (simp add: next_point_def unless_far_def p points_def)
    with f w True p show ?thesis by fastforce
  next
    case False
    then have none: "\<not> (\<exists>q c. walk W adj 0 q goal c \<and> c < max_weight W)" using r(1) by (meson le_less_trans)
    have p: "p = [goal]" using r(4) False by simp
    have "next_point F 1 (points wp p @ drop (2 * length p) out) old = unless_far (out ! 2) (out ! 3) old"
      using assms(3) by (simp add: next_point_def unless_far_def p points_def nth_append NUM_NODES_eq)
    with f none p show ?thesis by auto
  qed
qed

theorem handler_target_witness:
  "\<exists>pts. find_path exact_weights Some 52 (replicate 2704 Infty) (replicate 104 (Fin 1)) (replicate 104 (Fin 7)) = Some (1, pts)
     \<and> next_point exact 1 pts (Fin 0, Fin 0) = (Fin 7, Fin 7)"
proof -
  have ok: "costs_ok exact_weights Some (replicate 2704 Infty)" by (auto simp: costs_ok_def NUM_NODES_eq)
  have stuck: "v = 0" if "walk exact_weights (adjacency_of exact_weights Some (replicate 2704 Infty)) 0 p v c" for p v c
    using that
  proof (induction rule: walk.induct)
    case (walk_edge p u c v w)
    have "u < NUM_NODES" using walk_dom [OF walk_edge.hyps(1)] by simp
    with walk_edge.hyps(2) show ?case by (subst (asm) adjacency_edges) (auto simp: NUM_NODES_eq)
  qed simp
  have none: "\<not> (\<exists>q c. walk exact_weights (adjacency_of exact_weights Some (replicate 2704 Infty)) 0 q (NUM_NODES - 1) c
      \<and> c < max_weight exact_weights)"
  proof
    assume "\<exists>q c. walk exact_weights (adjacency_of exact_weights Some (replicate 2704 Infty)) 0 q (NUM_NODES - 1) c
      \<and> c < max_weight exact_weights"
    then have "NUM_NODES - 1 = 0" using stuck by blast
    then show False by (simp add: NUM_NODES_eq)
  qed
  have "length (replicate 104 (Fin 7)) = 2 * NUM_NODES" "NUM_NODES \<le> 52" by (simp_all add: NUM_NODES_eq)
  from find_path_result [OF exact_weights_ok ok this(1), of 52 "replicate 104 (Fin 1)"] this(2)
  obtain n pts where f: "find_path exact_weights Some 52 (replicate 2704 Infty) (replicate 104 (Fin 1)) (replicate 104 (Fin 7)) = Some (n, pts)"
    by (auto split: if_splits)
  have "length (replicate 104 (Fin 7)) = 2 * NUM_NODES" by (simp add: NUM_NODES_eq)
  from handler_target [OF exact_weights_ok ok this f, of exact "(Fin 0, Fin 0)", unfolded if_not_P [OF none]] f
  show ?thesis by auto
qed

end
