(* ===== verification/KMeans.thy ===== *)
theory KMeans
  imports AppModel
begin

text \<open>
  The block \<open>app_blocks/k_means_plus\<close>: the points of a laser scan are put in clusters, whose centres
  are the obstacles. Points hold doubles, the ports floats, so there are two conversions. \<open>rand\<close> is a
  parameter with a state of its own. An index outside an array is \<open>None\<close>, as is a remainder by zero.
\<close>

subsection \<open>Clusters\<close>

definition PTS :: nat where "PTS = 360"
definition K :: nat where "K = 12"

record 'f point_s =
  ps_x :: 'f
  ps_y :: 'f
  ps_group :: nat

record 'r prng =
  rnd_next :: "'r \<Rightarrow> nat \<times> 'r"
  rand_max :: nat

definition randf :: "'f float_ops \<Rightarrow> 'r prng \<Rightarrow> 'f \<Rightarrow> 'r \<Rightarrow> 'f \<times> 'r" where
  "randf F rnd m r = (let (x, r) = rnd_next rnd r in
     (fp_div F (fp_mul F m (fp_int F (int x))) (fp_sub F (fp_int F (int (rand_max rnd))) (fp_int F 1)), r))"

definition init_xy_s :: "'f float_ops \<Rightarrow> nat \<Rightarrow> 'f point_s list" where
  "init_xy_s F n = replicate n \<lparr>ps_x = fp_int F 0, ps_y = fp_int F 0, ps_group = 0\<rparr>"

definition dist2_s :: "'f float_ops \<Rightarrow> 'f point_s \<Rightarrow> 'f point_s \<Rightarrow> 'f" where
  "dist2_s F a b = (let x = fp_sub F (ps_x a) (ps_x b); y = fp_sub F (ps_y a) (ps_y b) in fp_sum2 F x x y y)"

fun nearest_loop :: "'f float_ops \<Rightarrow> 'f point_s \<Rightarrow> 'f point_s list \<Rightarrow> nat \<Rightarrow> 'f \<Rightarrow> nat \<Rightarrow> nat \<times> 'f" where
  "nearest_loop F pt [] i min_d min_i = (min_i, min_d)"
| "nearest_loop F pt (c # cs) i min_d min_i = (let d = dist2_s F c pt in
     if fp_less F d min_d then nearest_loop F pt cs (Suc i) d i else nearest_loop F pt cs (Suc i) min_d min_i)"

definition nearest_s :: "'f float_ops \<Rightarrow> 'f point_s \<Rightarrow> 'f point_s list \<Rightarrow> nat \<Rightarrow> (nat \<times> 'f) option" where
  "nearest_s F pt cent n_cluster = (if n_cluster \<le> length cent
     then Some (nearest_loop F pt (take n_cluster cent) 0 (fp_inf F) (ps_group pt)) else None)"

text \<open>The next centre is the point at which what is left of the sum is used up, if there is one.\<close>

fun kpp_pick :: "'f float_ops \<Rightarrow> 'f \<Rightarrow> ('f \<times> 'f point_s) list \<Rightarrow> 'f point_s option" where
  "kpp_pick F rest [] = None"
| "kpp_pick F rest ((d, p) # ps) = (let rest = fp_sub F rest d in if fp_less F (fp_int F 0) rest then kpp_pick F rest ps else Some p)"

definition kpp_next :: "'f float_ops \<Rightarrow> 'r prng \<Rightarrow> 'f point_s list \<Rightarrow> nat \<Rightarrow> 'f point_s list \<Rightarrow> 'r \<Rightarrow> ('f point_s list \<times> 'r) option" where
  "kpp_next F rnd pts n cent r = do {
     d \<leftarrow> those (map (\<lambda>p. map_option snd (nearest_s F p cent n)) pts);
     let (rest, r) = randf F rnd (foldl (fp_add F) (fp_int F 0) d) r;
     case kpp_pick F rest (zip d pts) of
       None \<Rightarrow> Some (cent, r)
     | Some p \<Rightarrow> if n < length cent then Some (cent[n := p], r) else None }"

fun kpp_loop :: "'f float_ops \<Rightarrow> 'r prng \<Rightarrow> 'f point_s list \<Rightarrow> nat \<Rightarrow> nat \<Rightarrow> 'f point_s list \<Rightarrow> 'r \<Rightarrow> ('f point_s list \<times> 'r) option" where
  "kpp_loop F rnd pts 0 n cent r = Some (cent, r)"
| "kpp_loop F rnd pts (Suc k) n cent r = do { (cent, r) \<leftarrow> kpp_next F rnd pts n cent r; kpp_loop F rnd pts k (Suc n) cent r }"

definition regroup :: "'f point_s list \<Rightarrow> nat list \<Rightarrow> 'f point_s list" where
  "regroup pts gs = map (\<lambda>(p, g). p\<lparr>ps_group := g\<rparr>) (zip pts gs)"

text \<open>\<open>mem\<close> is whether \<open>malloc\<close> gives the array of distances, which nothing checks; it is used when a second centre is picked.\<close>

definition kpp_s :: "bool \<Rightarrow> 'f float_ops \<Rightarrow> 'r prng \<Rightarrow> 'f point_s list \<Rightarrow> 'f point_s list \<Rightarrow> nat \<Rightarrow> 'r
    \<Rightarrow> ('f point_s list \<times> 'f point_s list \<times> 'r) option" where
  "kpp_s mem F rnd pts cent n_cent r = (let (x, r) = rnd_next rnd r in
     if pts = [] \<or> cent = [] \<or> \<not> mem \<and> 1 < n_cent then None
     else do {
       (cent, r) \<leftarrow> kpp_loop F rnd pts (n_cent - 1) 1 (cent[0 := pts ! (x mod length pts)]) r;
       gs \<leftarrow> those (map (\<lambda>p. map_option fst (nearest_s F p cent (max 1 n_cent))) pts);
       Some (regroup pts gs, cent, r) })"

text \<open>One round: the centres become the means of their clusters, the points go to the nearest centre.\<close>

fun accumulate :: "'f float_ops \<Rightarrow> 'f point_s list \<Rightarrow> 'f point_s list \<Rightarrow> 'f point_s list option" where
  "accumulate F [] cent = Some cent"
| "accumulate F (p # ps) cent = (let g = ps_group p; c = cent ! g in
     if g < length cent
     then accumulate F ps (cent[g := \<lparr>ps_x = fp_add F (ps_x c) (ps_x p), ps_y = fp_add F (ps_y c) (ps_y p), ps_group = ps_group c + 1\<rparr>])
     else None)"

definition on_first :: "nat \<Rightarrow> ('a \<Rightarrow> 'a) \<Rightarrow> 'a list \<Rightarrow> 'a list option" where
  "on_first n f xs = (if n \<le> length xs then Some (map f (take n xs) @ drop n xs) else None)"

definition lloyd_round :: "'f float_ops \<Rightarrow> 'f point_s list \<Rightarrow> nat \<Rightarrow> 'f point_s list \<Rightarrow> (nat \<times> 'f point_s list \<times> 'f point_s list) option" where
  "lloyd_round F pts n_cluster cent = do {
     cent \<leftarrow> on_first n_cluster (\<lambda>c. \<lparr>ps_x = fp_int F 0, ps_y = fp_int F 0, ps_group = 0\<rparr>) cent;
     cent \<leftarrow> accumulate F pts cent;
     cent \<leftarrow> on_first n_cluster (\<lambda>c. c\<lparr>ps_x := fp_div F (ps_x c) (fp_int F (int (ps_group c))),
       ps_y := fp_div F (ps_y c) (fp_int F (int (ps_group c)))\<rparr>) cent;
     gs \<leftarrow> those (map (\<lambda>p. map_option fst (nearest_s F p cent n_cluster)) pts);
     Some (length (filter (\<lambda>(p, g). g \<noteq> ps_group p) (zip pts gs)), regroup pts gs, cent) }"

partial_function (option) lloyd_loop :: "'f float_ops \<Rightarrow> nat \<Rightarrow> 'f point_s list \<Rightarrow> 'f point_s list
    \<Rightarrow> ('f point_s list \<times> 'f point_s list) option" where
  "lloyd_loop F n_cluster pts cent = do {
     (changed, pts', cent) \<leftarrow> lloyd_round F pts n_cluster cent;
     if length pts div 1024 < changed then lloyd_loop F n_cluster pts' cent else Some (pts', cent) }"

definition lloyd_s :: "bool \<Rightarrow> 'f float_ops \<Rightarrow> 'r prng \<Rightarrow> 'f point_s list \<Rightarrow> nat \<Rightarrow> 'f point_s list \<Rightarrow> 'r
    \<Rightarrow> ('f point_s list \<times> 'f point_s list \<times> 'r) option" where
  "lloyd_s mem F rnd pts n_cluster cent r = do {
     (pts, cent, r) \<leftarrow> kpp_s mem F rnd pts cent n_cluster r;
     (pts, cent) \<leftarrow> lloyd_loop F n_cluster pts cent;
     Some (pts, map (\<lambda>(i, c). if i < n_cluster then c\<lparr>ps_group := i\<rparr> else c) (enumerate 0 cent), r) }"

subsection \<open>The block\<close>

record 'f k_means_plus_info =
  km_n_clusters :: int
  km_cent :: "'f point_s list"
  km_pts :: "'f point_s list"

definition k_means_plus_init :: "'f float_ops \<Rightarrow> bool \<Rightarrow> int option \<Rightarrow> (int \<times> 'f k_means_plus_info option) option" where
  "k_means_plus_init F = app_init (\<lambda>n. \<lparr>km_n_clusters = n,
     km_cent = replicate K \<lparr>ps_x = fp_int F 0, ps_y = fp_int F 0, ps_group = 0\<rparr>, km_pts = init_xy_s F PTS\<rparr>)"

text \<open>A point of the scan that is too far, or not a number, is put at the origin.\<close>

definition scan_point :: "'f float_ops \<Rightarrow> 'f \<Rightarrow> 'f \<Rightarrow> nat \<Rightarrow> 'f point_s" where
  "scan_point F x y g = (if fp_less F (fp_abs F x) (fp_int F 2000) \<and> fp_less F (fp_abs F y) (fp_int F 2000)
     then \<lparr>ps_x = x, ps_y = y, ps_group = g\<rparr> else \<lparr>ps_x = fp_int F 0, ps_y = fp_int F 0, ps_group = g\<rparr>)"

definition scan_points :: "'f float_ops \<Rightarrow> ('s \<Rightarrow> 'f) \<Rightarrow> 's list \<Rightarrow> 'f point_s list \<Rightarrow> 'f point_s list" where
  "scan_points F widen data pts = map (\<lambda>(i, p). scan_point F (widen (data ! (i * 2))) (widen (data ! (i * 2 + 1))) (ps_group p))
     (enumerate 0 pts)"

definition k_means_plus_step :: "bool \<Rightarrow> ('s, 'e) app_ports \<Rightarrow> 'f float_ops \<Rightarrow> ('s \<Rightarrow> 'f) \<Rightarrow> ('f \<Rightarrow> 's) \<Rightarrow> 'r prng \<Rightarrow> 's
    \<Rightarrow> 'f k_means_plus_info \<Rightarrow> 'e \<Rightarrow> 'r \<Rightarrow> ('f k_means_plus_info \<times> 'e \<times> 'r) option" where
  "k_means_plus_step mem A F widen narrow rnd junk info e r = (
     let (ret, n_clusters, e) = ap_int A ''n_clusters'' 0 e;
         info = (if 0 < ret then info\<lparr>km_n_clusters := n_clusters\<rparr> else info);
         (ret, data, e) = ap_floats A ''data_in'' (replicate (PTS * 2) junk) e in
     if 0 < ret then do {
       let n = nat (km_n_clusters info);
       (pts, cent, r) \<leftarrow> lloyd_s mem F rnd (scan_points F widen data (km_pts info)) n (km_cent info) r;
       out \<leftarrow> (if n \<le> K then Some (concat (map (\<lambda>c. [narrow (ps_x c), narrow (ps_y c)]) (take n cent)) @ replicate ((K - n) * 2) junk)
         else None);
       let e = ap_put_floats A ''data_out'' out e;
       Some (info\<lparr>km_pts := pts, km_cent := cent\<rparr>, ap_put_int A ''n_clusters_out'' (km_n_clusters info) e, r) }
     else Some (info, e, r))"

subsection \<open>The nearest centre\<close>

lemma those_map_Some: "(\<And>x. x \<in> set xs \<Longrightarrow> f x = Some (g x)) \<Longrightarrow> those (map f xs) = Some (map g xs)"
  by (induction xs) auto

lemma those_map_None: "x \<in> set xs \<Longrightarrow> f x = None \<Longrightarrow> those (map f xs) = None"
  by (induction xs) (auto split: option.splits)

lemma nearest_loop_least:
  assumes "nearest_loop exact p cs i d0 g = (k, d)"
  shows "d \<le> d0 \<and> (\<forall>j < length cs. d \<le> dist2_s exact (cs ! j) p)
    \<and> (d = d0 \<and> k = g \<or> (\<exists>j < length cs. k = i + j \<and> d = dist2_s exact (cs ! j) p \<and> d < d0 \<and> (\<forall>j' < j. d < dist2_s exact (cs ! j') p)))"
  using assms
proof (induction cs arbitrary: i d0 g)
  case (Cons c cs)
  let ?d = "dist2_s exact c p"
  show ?case
  proof (cases "?d < d0")
    case True
    with Cons.prems have "nearest_loop exact p cs (Suc i) ?d i = (k, d)" by (simp add: Let_def)
    from Cons.IH [OF this] have a: "d \<le> ?d" "\<forall>j < length cs. d \<le> dist2_s exact (cs ! j) p"
      and b: "d = ?d \<and> k = i \<or> (\<exists>j < length cs. k = Suc i + j \<and> d = dist2_s exact (cs ! j) p \<and> d < ?d \<and> (\<forall>j' < j. d < dist2_s exact (cs ! j') p))"
      by blast+
    have "\<forall>j < length (c # cs). d \<le> dist2_s exact ((c # cs) ! j) p" using a by (auto simp: nth_Cons split: nat.splits)
    moreover have "\<exists>j < length (c # cs). k = i + j \<and> d = dist2_s exact ((c # cs) ! j) p \<and> d < d0 \<and> (\<forall>j' < j. d < dist2_s exact ((c # cs) ! j') p)"
      using b
    proof
      assume "d = ?d \<and> k = i" with True show ?thesis by (intro exI [of _ 0]) simp
    next
      assume "\<exists>j < length cs. k = Suc i + j \<and> d = dist2_s exact (cs ! j) p \<and> d < ?d \<and> (\<forall>j' < j. d < dist2_s exact (cs ! j') p)"
      then obtain j where "j < length cs" "k = Suc i + j" "d = dist2_s exact (cs ! j) p" "d < ?d" "\<forall>j' < j. d < dist2_s exact (cs ! j') p" by blast
      with True show ?thesis by (intro exI [of _ "Suc j"]) (auto simp: nth_Cons split: nat.splits)
    qed
    ultimately show ?thesis using a(1) True by auto
  next
    case False
    with Cons.prems have "nearest_loop exact p cs (Suc i) d0 g = (k, d)" by (simp add: Let_def)
    from Cons.IH [OF this] have a: "d \<le> d0" "\<forall>j < length cs. d \<le> dist2_s exact (cs ! j) p"
      and b: "d = d0 \<and> k = g \<or> (\<exists>j < length cs. k = Suc i + j \<and> d = dist2_s exact (cs ! j) p \<and> d < d0 \<and> (\<forall>j' < j. d < dist2_s exact (cs ! j') p))"
      by blast+
    have c: "d0 \<le> ?d" using False by simp
    have "\<forall>j < length (c # cs). d \<le> dist2_s exact ((c # cs) ! j) p" using a c by (auto simp: nth_Cons split: nat.splits)
    moreover have "d = d0 \<and> k = g \<or> (\<exists>j < length (c # cs). k = i + j \<and> d = dist2_s exact ((c # cs) ! j) p \<and> d < d0 \<and> (\<forall>j' < j. d < dist2_s exact ((c # cs) ! j') p))"
      using b
    proof
      assume "\<exists>j < length cs. k = Suc i + j \<and> d = dist2_s exact (cs ! j) p \<and> d < d0 \<and> (\<forall>j' < j. d < dist2_s exact (cs ! j') p)"
      then obtain j where "j < length cs" "k = Suc i + j" "d = dist2_s exact (cs ! j) p" "d < d0" "\<forall>j' < j. d < dist2_s exact (cs ! j') p" by blast
      with c show ?thesis by (intro disjI2 exI [of _ "Suc j"]) (auto simp: nth_Cons split: nat.splits)
    qed blast
    ultimately show ?thesis using a(1) by blast
  qed
qed simp

text \<open>A point that some centre is at a finite distance of goes to the first of the nearest ones.\<close>

lemma nearest_s_least:
  assumes n: "n \<le> length cent" and g: "g < n" "dist2_s exact (cent ! g) p < Infty"
  shows "\<exists>k. nearest_s exact p cent n = Some (k, dist2_s exact (cent ! k) p) \<and> k < n \<and> dist2_s exact (cent ! k) p < Infty
    \<and> (\<forall>j < n. dist2_s exact (cent ! k) p \<le> dist2_s exact (cent ! j) p) \<and> (\<forall>j < k. dist2_s exact (cent ! k) p < dist2_s exact (cent ! j) p)"
proof -
  obtain k d where k: "nearest_loop exact p (take n cent) 0 Infty (ps_group p) = (k, d)" by (cases "nearest_loop exact p (take n cent) 0 Infty (ps_group p)")
  note L = nearest_loop_least [OF k]
  have least: "d \<le> dist2_s exact (cent ! j) p" if "j < n" for j using L that n by auto
  with g have "d < Infty" by (meson le_less_trans)
  with L n obtain j where "j < n" "k = j" "d = dist2_s exact (cent ! j) p" "\<forall>j' < j. d < dist2_s exact (cent ! j') p" by auto
  with k n least \<open>d < Infty\<close> show ?thesis by (intro exI [of _ k]) (simp add: nearest_s_def)
qed

end
