(* ===== verification/KMeansEnds.thy ===== *)
theory KMeansEnds
  imports KMeans
begin

text \<open>
  Why the clusters of \<open>KMeans\<close> are found: in exact arithmetic the sum of the squared distances of the points
  to the means of their clusters falls from round to round, or stays and the points move to clusters with
  a lower index, so that no grouping of the points comes back.
\<close>

subsection \<open>Means\<close>

type_synonym grouping = "((real \<times> real) \<times> nat) list"

definition as_point :: "(real \<times> real) \<times> nat \<Rightarrow> xreal point_s" where
  "as_point z = \<lparr>ps_x = Fin (fst (fst z)), ps_y = Fin (snd (fst z)), ps_group = snd z\<rparr>"

definition members :: "grouping \<Rightarrow> nat \<Rightarrow> (real \<times> real) list" where
  "members zs i = List.map fst (List.filter (\<lambda>z. snd z = i) zs)"

definition mean :: "(real \<times> real) list \<Rightarrow> real \<times> real" where
  "mean S = (sum_list (map fst S) / real (length S), sum_list (map snd S) / real (length S))"

definition centre :: "(real \<times> real) list \<Rightarrow> xreal point_s" where
  "centre S = (if S = [] then \<lparr>ps_x = Infty, ps_y = Infty, ps_group = 0\<rparr>
     else \<lparr>ps_x = Fin (fst (mean S)), ps_y = Fin (snd (mean S)), ps_group = length S\<rparr>)"

definition dist2 :: "real \<times> real \<Rightarrow> real \<times> real \<Rightarrow> real" where
  "dist2 c p = (fst c - fst p)\<^sup>2 + (snd c - snd p)\<^sup>2"

definition cost :: "grouping \<Rightarrow> (nat \<Rightarrow> real \<times> real) \<Rightarrow> real" where
  "cost zs c = sum_list (map (\<lambda>z. dist2 (c (snd z)) (fst z)) zs)"

definition means :: "grouping \<Rightarrow> nat \<Rightarrow> real \<times> real" where
  "means zs i = mean (members zs i)"

lemma members_simps [simp]: "members [] i = []" "members (z # zs) i = (if snd z = i then fst z # members zs i else members zs i)"
  by (simp_all add: members_def)

lemma members_nonempty: "z \<in> set zs \<Longrightarrow> members zs (snd z) \<noteq> []"
  by (auto simp: members_def filter_empty_conv)

lemma squares_eq: "sum_list (map (\<lambda>x. (c - x)\<^sup>2) xs) = real (length xs) * c\<^sup>2 - 2 * c * sum_list xs + sum_list (map (\<lambda>x. x\<^sup>2) xs)"
  for c :: real
  by (induction xs) (simp_all add: power2_eq_square algebra_simps)

lemma mean_least: "sum_list (map (\<lambda>x. (sum_list xs / real (length xs) - x)\<^sup>2) xs) \<le> sum_list (map (\<lambda>x. (c - x)\<^sup>2) xs)" for c :: real
proof (cases "xs = []")
  case False
  let ?n = "real (length xs)" and ?m = "sum_list xs / real (length xs)"
  have "sum_list xs = ?n * ?m" using False by simp
  then have "sum_list (map (\<lambda>x. (c - x)\<^sup>2) xs) - sum_list (map (\<lambda>x. (?m - x)\<^sup>2) xs) = ?n * (c - ?m)\<^sup>2"
    unfolding squares_eq by (simp add: power2_eq_square algebra_simps)
  then show ?thesis by (smt (verit) zero_le_power2 mult_nonneg_nonneg of_nat_0_le_iff)
qed simp

lemma mean_optimal: "sum_list (map (dist2 (mean S)) S) \<le> sum_list (map (dist2 c) S)"
proof -
  have "sum_list (map (dist2 c) S) = sum_list (map (\<lambda>x. (fst c - x)\<^sup>2) (map fst S)) + sum_list (map (\<lambda>x. (snd c - x)\<^sup>2) (map snd S))" for c
    by (induction S) (simp_all add: dist2_def)
  then show ?thesis using mean_least [of "map fst S" "fst c"] mean_least [of "map snd S" "snd c"] by (simp add: mean_def)
qed

lemma cost_by_cluster:
  assumes "\<And>z. z \<in> set zs \<Longrightarrow> snd z < n"
  shows "cost zs c = (\<Sum>i < n. sum_list (map (dist2 (c i)) (members zs i)))"
  using assms
proof (induction zs)
  case (Cons z zs)
  have "(\<Sum>i < n. sum_list (map (dist2 (c i)) (members (z # zs) i)))
      = (\<Sum>i < n. (if snd z = i then dist2 (c i) (fst z) else 0) + sum_list (map (dist2 (c i)) (members zs i)))"
    by (rule sum.cong) auto
  also have "\<dots> = dist2 (c (snd z)) (fst z) + (\<Sum>i < n. sum_list (map (dist2 (c i)) (members zs i)))"
    using Cons.prems by (simp add: sum.distrib)
  finally show ?case using Cons by (simp add: cost_def)
qed (simp add: cost_def)

lemma means_optimal:
  assumes "\<And>z. z \<in> set zs \<Longrightarrow> snd z < n"
  shows "cost zs (means zs) \<le> cost zs c"
proof -
  have "cost zs c = (\<Sum>i < n. sum_list (map (dist2 (c i)) (members zs i)))" for c by (rule cost_by_cluster) (rule assms)
  then show ?thesis by (simp add: means_def sum_mono mean_optimal)
qed

subsection \<open>A round\<close>

lemma accumulate_exact:
  assumes "\<And>z. z \<in> set zs \<Longrightarrow> snd z < n"
  shows "accumulate exact (map as_point zs) (map (\<lambda>i. \<lparr>ps_x = Fin (X i), ps_y = Fin (Y i), ps_group = C i\<rparr>) [0..<n] @ tl')
    = Some (map (\<lambda>i. \<lparr>ps_x = Fin (X i + sum_list (map fst (members zs i))), ps_y = Fin (Y i + sum_list (map snd (members zs i))),
        ps_group = C i + length (members zs i)\<rparr>) [0..<n] @ tl')"
  using assms
proof (induction zs arbitrary: X Y C)
  case (Cons z zs)
  let ?g = "snd z" and ?x = "fst (fst z)" and ?y = "snd (fst z)"
  let ?c = "\<lambda>X Y C. map (\<lambda>i. \<lparr>ps_x = Fin (X i), ps_y = Fin (Y i), ps_group = C i\<rparr>) [0..<n] @ tl'"
  have g: "?g < n" using Cons.prems by simp
  have "(?c X Y C)[?g := \<lparr>ps_x = Fin (X ?g + ?x), ps_y = Fin (Y ?g + ?y), ps_group = C ?g + 1\<rparr>]
      = ?c (X(?g := X ?g + ?x)) (Y(?g := Y ?g + ?y)) (C(?g := C ?g + 1))"
    using g by (auto simp: list_eq_iff_nth_eq nth_append nth_list_update)
  then have "accumulate exact (map as_point (z # zs)) (?c X Y C)
      = accumulate exact (map as_point zs) (?c (X(?g := X ?g + ?x)) (Y(?g := Y ?g + ?y)) (C(?g := C ?g + 1)))"
    using g by (simp add: as_point_def Let_def nth_append)
  also note Cons.IH
  finally show ?case using Cons.prems by (auto simp: algebra_simps intro!: map_cong)
qed simp

definition centres :: "grouping \<Rightarrow> nat \<Rightarrow> xreal point_s list \<Rightarrow> xreal point_s list" where
  "centres zs n cent = map (\<lambda>i. centre (members zs i)) [0..<n] @ drop n cent"

definition regrouped :: "grouping \<Rightarrow> nat \<Rightarrow> xreal point_s list \<Rightarrow> grouping" where
  "regrouped zs n cent = map (\<lambda>z. (fst z, fst (nearest_loop exact (as_point z) (take n (centres zs n cent)) 0 Infty (snd z)))) zs"

lemma length_centres: "n \<le> length cent \<Longrightarrow> length (centres zs n cent) = length cent"
  by (simp add: centres_def)

lemma regroup_as_points: "regroup (map as_point zs) (map f (map as_point zs)) = map as_point (map (\<lambda>z. (fst z, f (as_point z))) zs)"
  by (induction zs) (simp_all add: regroup_def as_point_def)

lemma round_exact:
  assumes zs: "\<And>z. z \<in> set zs \<Longrightarrow> snd z < n" and n: "n \<le> length cent"
  shows "lloyd_round exact (map as_point zs) n cent = Some (length (filter (\<lambda>(z, z'). snd z' \<noteq> snd z) (zip zs (regrouped zs n cent))),
    map as_point (regrouped zs n cent), centres zs n cent)"
proof -
  have zero: "on_first n (\<lambda>c. \<lparr>ps_x = fp_int exact 0, ps_y = fp_int exact 0, ps_group = 0\<rparr>) cent
      = Some (map (\<lambda>i. \<lparr>ps_x = Fin 0, ps_y = Fin 0, ps_group = 0\<rparr>) [0..<n] @ drop n cent)"
    using n by (simp add: on_first_def list_eq_iff_nth_eq nth_append)
  have div: "on_first n (\<lambda>c. c\<lparr>ps_x := fp_div exact (ps_x c) (fp_int exact (int (ps_group c))),
       ps_y := fp_div exact (ps_y c) (fp_int exact (int (ps_group c)))\<rparr>)
     (map (\<lambda>i. \<lparr>ps_x = Fin (sum_list (map fst (members zs i))), ps_y = Fin (sum_list (map snd (members zs i))),
        ps_group = length (members zs i)\<rparr>) [0..<n] @ drop n cent) = Some (centres zs n cent)"
    by (auto simp: on_first_def centres_def centre_def mean_def)
  let ?f = "\<lambda>p. fst (nearest_loop exact p (take n (centres zs n cent)) 0 Infty (ps_group p))"
  have acc: "accumulate exact (map as_point zs) (map (\<lambda>i. \<lparr>ps_x = Fin 0, ps_y = Fin 0, ps_group = 0\<rparr>) [0..<n] @ drop n cent)
     = Some (map (\<lambda>i. \<lparr>ps_x = Fin (sum_list (map fst (members zs i))), ps_y = Fin (sum_list (map snd (members zs i))),
        ps_group = length (members zs i)\<rparr>) [0..<n] @ drop n cent)"
    using accumulate_exact [of zs n "\<lambda>_. 0" "\<lambda>_. 0" "\<lambda>_. 0" "drop n cent", OF zs] by simp
  have near: "those (map (\<lambda>p. map_option fst (nearest_s exact p (centres zs n cent) n)) (map as_point zs)) = Some (map ?f (map as_point zs))"
    using n by (intro those_map_Some) (simp add: nearest_s_def length_centres)
  have move: "map as_point (map (\<lambda>z. (fst z, ?f (as_point z))) zs) = map as_point (regrouped zs n cent)"
    by (simp add: regrouped_def as_point_def)
  have moves: "length (filter (\<lambda>(p, g). g \<noteq> ps_group p) (zip (map as_point zs) (map ?f (map as_point zs))))
      = length (filter (\<lambda>(z, z'). snd z' \<noteq> snd z) (zip zs (regrouped zs n cent)))"
  proof -
    have "length (filter (\<lambda>(p, g). g \<noteq> ps_group p) (zip (map as_point ys) (map h (map as_point ys))))
      = length (filter (\<lambda>(z, z'). snd z' \<noteq> snd z) (zip ys (map (\<lambda>z. (fst z, h (as_point z))) ys)))" for ys h
      by (induction ys) (simp_all add: as_point_def)
    from this [of zs ?f] show ?thesis by (simp add: regrouped_def as_point_def)
  qed
  show ?thesis unfolding lloyd_round_def zero bind.bind_lunit acc div near regroup_as_points move moves ..
qed

text \<open>Where a point goes.\<close>

lemma dist2_s_centre: "dist2_s exact (centre S) (as_point z) = (if S = [] then Infty else Fin (dist2 (mean S) (fst z)))"
  by (simp add: dist2_s_def centre_def as_point_def dist2_def Let_def power2_eq_square fp_sum2_def)

lemma regrouped_point:
  assumes zs: "\<And>z. z \<in> set zs \<Longrightarrow> snd z < n" and n: "n \<le> length cent" and z: "z \<in> set zs"
  defines "k \<equiv> fst (nearest_loop exact (as_point z) (take n (centres zs n cent)) 0 Infty (snd z))"
  shows "k < n \<and> members zs k \<noteq> [] \<and> (\<forall>j < n. members zs j \<noteq> [] \<longrightarrow> dist2 (means zs k) (fst z) \<le> dist2 (means zs j) (fst z))
    \<and> (dist2 (means zs k) (fst z) = dist2 (means zs (snd z)) (fst z) \<longrightarrow> k \<le> snd z)"
proof -
  have d: "dist2_s exact (centres zs n cent ! j) (as_point z) = (if members zs j = [] then Infty else Fin (dist2 (means zs j) (fst z)))"
    if "j < n" for j using that n by (simp add: centres_def nth_append dist2_s_centre means_def)
  have g: "snd z < n" using zs z by simp
  from nearest_s_least [of n "centres zs n cent" "snd z" "as_point z"] d [OF g] members_nonempty [OF z] n g length_centres [OF n, of zs]
  obtain k' where k': "nearest_s exact (as_point z) (centres zs n cent) n = Some (k', dist2_s exact (centres zs n cent ! k') (as_point z))"
    "k' < n" "dist2_s exact (centres zs n cent ! k') (as_point z) < Infty"
    "\<forall>j < n. dist2_s exact (centres zs n cent ! k') (as_point z) \<le> dist2_s exact (centres zs n cent ! j) (as_point z)"
    "\<forall>j < k'. dist2_s exact (centres zs n cent ! k') (as_point z) < dist2_s exact (centres zs n cent ! j) (as_point z)" by auto
  have "k = k'" using k'(1) n by (auto simp: nearest_s_def k_def as_point_def length_centres split: if_splits)
  moreover have ne: "members zs k' \<noteq> []" using k'(2,3) d by auto
  moreover have "dist2 (means zs k') (fst z) \<le> dist2 (means zs j) (fst z)" if "j < n" "members zs j \<noteq> []" for j
    using k'(4) [rule_format, OF that(1)] d [OF k'(2)] d [OF that(1)] that(2) ne by simp
  moreover have "k' \<le> snd z" if "dist2 (means zs k') (fst z) = dist2 (means zs (snd z)) (fst z)"
  proof (rule ccontr)
    assume "\<not> k' \<le> snd z"
    then have "snd z < k'" by simp
    from k'(5) [rule_format, OF this] d [OF k'(2)] d [OF g] ne members_nonempty [OF z] that show False by simp
  qed
  ultimately show ?thesis using k'(2) by blast
qed

subsection \<open>The rounds end\<close>

definition value_of :: "grouping \<Rightarrow> real" where
  "value_of zs = cost zs (means zs)"

definition better :: "grouping \<Rightarrow> grouping \<Rightarrow> bool" where
  "better ys zs \<longleftrightarrow> value_of ys < value_of zs \<or> value_of ys = value_of zs \<and> sum_list (map snd ys) < sum_list (map snd zs)"

definition same_points :: "grouping \<Rightarrow> nat \<Rightarrow> grouping set" where
  "same_points zs n = {ys. map fst ys = map fst zs \<and> (\<forall>y \<in> set ys. snd y < n)}"

lemma finite_same_points: "finite (same_points zs n)"
proof (rule finite_subset)
  show "same_points zs n \<subseteq> {ys. set ys \<subseteq> fst ` set zs \<times> {..<n} \<and> length ys = length zs}"
  proof
    fix ys assume "ys \<in> same_points zs n"
    then have ys: "map fst ys = map fst zs" "\<forall>y \<in> set ys. snd y < n" by (simp_all add: same_points_def)
    have "fst ` set ys = fst ` set zs" using arg_cong [OF ys(1), of set] by simp
    then have "y \<in> fst ` set zs \<times> {..<n}" if "y \<in> set ys" for y
      using imageI [OF that, of fst] ys(2) that by (simp add: mem_Times_iff)
    then have "set ys \<subseteq> fst ` set zs \<times> {..<n}" by blast
    moreover have "length ys = length zs" using arg_cong [OF ys(1), of length] by simp
    ultimately show "ys \<in> {ys. set ys \<subseteq> fst ` set zs \<times> {..<n} \<and> length ys = length zs}" by simp
  qed
  show "finite {ys. set ys \<subseteq> fst ` set zs \<times> {..<n} \<and> length ys = length zs}" by (rule finite_lists_length_eq) simp
qed

lemma sums_equal:
  fixes f g :: "'a \<Rightarrow> real"
  assumes "\<And>z. z \<in> set zs \<Longrightarrow> f z \<le> g z" "sum_list (map f zs) = sum_list (map g zs)" "z \<in> set zs"
  shows "f z = g z"
  using assms
proof (induction zs)
  case (Cons y zs)
  have "sum_list (map f zs) \<le> sum_list (map g zs)" "f y \<le> g y" using Cons.prems(1) by (auto intro: sum_list_mono)
  with Cons.prems(2) have "f y = g y" "sum_list (map f zs) = sum_list (map g zs)" by simp_all
  with Cons show ?case by auto
qed simp

lemma sums_less:
  fixes f g :: "'a \<Rightarrow> nat"
  assumes "\<And>z. z \<in> set zs \<Longrightarrow> f z \<le> g z" "y \<in> set zs" "f y \<noteq> g y"
  shows "sum_list (map f zs) < sum_list (map g zs)"
  using assms
proof (induction zs)
  case (Cons x zs)
  have le: "sum_list (map f zs) \<le> sum_list (map g zs)" using Cons.prems(1) by (auto intro: sum_list_mono)
  have x: "f x \<le> g x" using Cons.prems(1) by simp
  show ?case
  proof (cases "y \<in> set zs")
    case True
    have "sum_list (map f zs) < sum_list (map g zs)" by (rule Cons.IH [OF _ True Cons.prems(3)]) (simp add: Cons.prems(1))
    with x show ?thesis by simp
  next
    case False
    with Cons.prems(2) have "y = x" by simp
    with x Cons.prems(3) have "f x < g x" by simp
    with le show ?thesis by simp
  qed
qed simp

lemma cost_regrouped: "cost (regrouped zs n cent) c
  = sum_list (map (\<lambda>z. dist2 (c (fst (nearest_loop exact (as_point z) (take n (centres zs n cent)) 0 Infty (snd z)))) (fst z)) zs)"
  by (simp add: cost_def regrouped_def comp_def)

lemma regrouped_same:
  assumes "\<And>z. z \<in> set zs \<Longrightarrow> snd z < n" "n \<le> length cent"
  shows "map fst (regrouped zs n cent) = map fst zs" "\<And>z. z \<in> set (regrouped zs n cent) \<Longrightarrow> snd z < n"
  using regrouped_point [OF assms] by (auto simp: regrouped_def)

lemma regrouped_better:
  assumes zs: "\<And>z. z \<in> set zs \<Longrightarrow> snd z < n" and n: "n \<le> length cent" and ne: "regrouped zs n cent \<noteq> zs"
  shows "better (regrouped zs n cent) zs"
proof -
  let ?m = "regrouped zs n cent" and ?k = "\<lambda>z. fst (nearest_loop exact (as_point z) (take n (centres zs n cent)) 0 Infty (snd z))"
  note M = regrouped_point [OF zs n]
  have le: "dist2 (means zs (?k z)) (fst z) \<le> dist2 (means zs (snd z)) (fst z)" if "z \<in> set zs" for z
    using M [OF _ that] zs [OF that] members_nonempty [OF that] by blast
  have "value_of ?m \<le> cost ?m (means zs)"
    unfolding value_of_def by (rule means_optimal [of _ n]) (rule regrouped_same(2) [OF zs n])
  also have "\<dots> \<le> value_of zs" unfolding cost_regrouped unfolding value_of_def cost_def using le by (rule sum_list_mono)
  finally have down: "value_of ?m \<le> value_of zs" .
  show ?thesis
  proof (cases "value_of ?m < value_of zs")
    case False
    with down have eq: "value_of ?m = value_of zs" by simp
    with \<open>value_of ?m \<le> cost ?m (means zs)\<close> \<open>cost ?m (means zs) \<le> value_of zs\<close> have "cost ?m (means zs) = value_of zs" by simp
    then have sums: "sum_list (map (\<lambda>z. dist2 (means zs (?k z)) (fst z)) zs) = sum_list (map (\<lambda>z. dist2 (means zs (snd z)) (fst z)) zs)"
      unfolding cost_regrouped by (simp add: value_of_def cost_def)
    have down: "?k z \<le> snd z" if "z \<in> set zs" for z using M [OF _ that] sums_equal [OF le sums that] by blast
    have "sum_list (map ?k zs) < sum_list (map snd zs)"
    proof -
      obtain y where y: "y \<in> set zs" "?k y \<noteq> snd y"
        using ne by (force simp: regrouped_def intro: map_idI)
      show ?thesis by (rule sums_less [of zs ?k snd y, OF down y])
    qed
    with eq show ?thesis by (simp add: better_def regrouped_def comp_def)
  qed (simp add: better_def)
qed

lemma changed_none: "length (filter (\<lambda>(z, z'). snd z' \<noteq> snd z) (zip zs (regrouped zs n cent))) = 0 \<longleftrightarrow> regrouped zs n cent = zs"
proof -
  have "length (filter (\<lambda>(z, z'). snd z' \<noteq> snd z) (zip xs (map (\<lambda>z. (fst z, h z)) xs))) = 0 \<longleftrightarrow> map (\<lambda>z. (fst z, h z)) xs = xs"
    for xs :: grouping and h
    by (induction xs) auto
  then show ?thesis unfolding regrouped_def .
qed

lemma centres_again: "n \<le> length cent \<Longrightarrow> centres ys n (centres zs n cent) = centres ys n cent"
  by (simp add: centres_def)

lemma loop_result:
  assumes "\<And>z. z \<in> set zs \<Longrightarrow> snd z < n" "n \<le> length cent" "length zs < 1024"
  shows "\<exists>ys \<in> same_points zs n. regrouped ys n cent = ys
    \<and> lloyd_loop exact n (map as_point zs) cent = Some (map as_point ys, centres ys n cent)"
  using assms
proof (induction "card {ys \<in> same_points zs n. better ys zs}" arbitrary: zs cent rule: less_induct)
  case less
  let ?m = "regrouped zs n cent" and ?c = "centres zs n cent"
  note r = round_exact [of zs n cent, OF less.prems(1,2)]
  note same = regrouped_same [of zs n cent, OF less.prems(1,2)]
  have short: "length (map as_point zs) div 1024 = 0" using less.prems(3) by simp
  show ?case
  proof (cases "?m = zs")
    case True
    have "lloyd_loop exact n (map as_point zs) cent = Some (map as_point ?m, ?c)"
      by (subst lloyd_loop.simps) (simp add: r short changed_none [THEN iffD2, OF True] del: length_0_conv length_map)
    moreover have "zs \<in> same_points zs n" using less.prems(1) by (simp add: same_points_def)
    ultimately show ?thesis using True by auto
  next
    case False
    have sp: "same_points ?m n = same_points zs n" using same(1) by (simp add: same_points_def)
    have b: "better ?m zs" by (rule regrouped_better [OF less.prems(1,2) False])
    have "{ys \<in> same_points ?m n. better ys ?m} \<subset> {ys \<in> same_points zs n. better ys zs}"
    proof (rule psubsetI)
      show "{ys \<in> same_points ?m n. better ys ?m} \<subseteq> {ys \<in> same_points zs n. better ys zs}" using b sp by (auto simp: better_def)
      have "?m \<in> {ys \<in> same_points zs n. better ys zs}" using b same by (simp add: same_points_def)
      moreover have "?m \<notin> {ys \<in> same_points ?m n. better ys ?m}" by (simp add: better_def)
      ultimately show "{ys \<in> same_points ?m n. better ys ?m} \<noteq> {ys \<in> same_points zs n. better ys zs}" by blast
    qed
    then have "card {ys \<in> same_points ?m n. better ys ?m} < card {ys \<in> same_points zs n. better ys zs}"
      by (rule psubset_card_mono [rotated]) (simp add: finite_same_points)
    moreover have "n \<le> length ?c" "length ?m < 1024" using less.prems(2,3) by (simp_all add: length_centres regrouped_def)
    ultimately obtain ys where ys: "ys \<in> same_points ?m n" "regrouped ys n ?c = ys"
      "lloyd_loop exact n (map as_point ?m) ?c = Some (map as_point ys, centres ys n ?c)"
      using less.hyps [of ?m ?c] same(2) by blast
    have again: "centres ys n ?c = centres ys n cent" by (rule centres_again [OF less.prems(2)])
    have "lloyd_loop exact n (map as_point zs) cent = lloyd_loop exact n (map as_point ?m) ?c"
      using False by (subst lloyd_loop.simps) (simp add: r short changed_none [symmetric] del: length_0_conv length_map)
    with ys again sp show ?thesis by (auto simp: regrouped_def)
  qed
qed

subsection \<open>The first centres\<close>

lemma kpp_next_length: "kpp_next F rnd pts n cent r = Some (c, r') \<Longrightarrow> length c = length cent \<and> (0 < n \<longrightarrow> c ! 0 = cent ! 0)"
  by (cases "those (map (\<lambda>p. map_option snd (nearest_s F p cent n)) pts)")
    (auto simp: kpp_next_def Let_def split: option.splits prod.splits if_splits)

lemma kpp_next_Some: "n < length cent \<Longrightarrow> kpp_next F rnd pts n cent r \<noteq> None"
  using those_map_Some [of pts "\<lambda>p. map_option snd (nearest_s F p cent n)"
      "\<lambda>p. snd (nearest_loop F p (take n cent) 0 (fp_inf F) (ps_group p))"]
  by (auto simp: kpp_next_def nearest_s_def Let_def split: option.splits prod.splits)

lemma kpp_loop_keeps: "kpp_loop F rnd pts k n cent r = Some (c, r') \<Longrightarrow> length c = length cent \<and> (0 < n \<longrightarrow> c ! 0 = cent ! 0)"
proof (induction k arbitrary: n cent r)
  case (Suc k)
  then obtain c1 r1 where "kpp_next F rnd pts n cent r = Some (c1, r1)" "kpp_loop F rnd pts k (Suc n) c1 r1 = Some (c, r')"
    by (auto split: Option.bind_split_asm)
  with kpp_next_length [OF this(1)] Suc.IH [OF this(2)] show ?case by auto
qed simp

lemma kpp_loop_Some: "n + k \<le> length cent \<Longrightarrow> kpp_loop F rnd pts k n cent r \<noteq> None"
proof (induction k arbitrary: n cent r)
  case (Suc k)
  then obtain c1 r1 where c1: "kpp_next F rnd pts n cent r = Some (c1, r1)" using kpp_next_Some [of n cent F rnd pts r] by auto
  with kpp_next_length [OF c1] Suc.IH [of "Suc n" c1 r1] Suc.prems show ?case by simp
qed simp

lemma kpp_result:
  assumes n: "max 1 n \<le> length cent" and zs: "zs \<noteq> []"
  shows "\<exists>ys cent' r'. kpp_s True exact rnd (map as_point zs) cent n r = Some (map as_point ys, cent', r') \<and> length cent' = length cent
    \<and> map fst ys = map fst zs \<and> (\<forall>y \<in> set ys. snd y < max 1 n)"
proof -
  obtain x r1 where x: "rnd_next rnd r = (x, r1)" by (cases "rnd_next rnd r")
  let ?p = "map as_point zs ! (x mod length zs)"
  obtain p where p: "?p = as_point p" using zs by simp
  let ?c = "cent[0 := ?p]"
  have "0 < length cent" "1 + (n - 1) \<le> length ?c" using n by (auto simp: max_def split: if_splits)
  from kpp_loop_Some [OF this(2), of exact rnd "map as_point zs" r1] obtain cent' r' where
    loop0: "kpp_loop exact rnd (map as_point zs) (n - 1) 1 ?c r1 = Some (cent', r')" by auto
  then have loop: "kpp_loop exact rnd (map as_point zs) (n - 1) 1 ?c r1 = Some (cent', r')" "length cent' = length cent" "cent' ! 0 = as_point p"
    using kpp_loop_keeps [OF loop0] p \<open>0 < length cent\<close> by auto
  let ?f = "\<lambda>p. fst (nearest_loop exact p (take (max 1 n) cent') 0 Infty (ps_group p))"
  have near: "those (map (\<lambda>p. map_option fst (nearest_s exact p cent' (max 1 n))) (map as_point zs)) = Some (map ?f (map as_point zs))"
    using n loop(2) by (intro those_map_Some) (simp add: nearest_s_def)
  have "?f (as_point z) < max 1 n" for z
  proof -
    have "dist2_s exact (cent' ! 0) (as_point z) < Infty" by (simp add: loop(3) dist2_s_def as_point_def Let_def fp_sum2_def)
    moreover have "max 1 n \<le> length cent'" "0 < max 1 n" using n loop(2) by simp_all
    ultimately obtain k d where "nearest_s exact (as_point z) cent' (max 1 n) = Some (k, d)" "k < max 1 n"
      using nearest_s_least by blast
    then show ?thesis using \<open>max 1 n \<le> length cent'\<close> by (simp add: nearest_s_def)
  qed
  then have "\<forall>y \<in> set (map (\<lambda>z. (fst z, ?f (as_point z))) zs). snd y < max 1 n" by auto
  moreover have "kpp_s True exact rnd (map as_point zs) cent n r = Some (map as_point (map (\<lambda>z. (fst z, ?f (as_point z))) zs), cent', r')"
  proof -
    have "map as_point zs \<noteq> []" "cent \<noteq> []" using zs n by auto
    then show ?thesis unfolding kpp_s_def x Let_def prod.case length_map loop(1) bind.bind_lunit near regroup_as_points by simp
  qed
  ultimately show ?thesis using loop(2) by (intro exI conjI) (assumption | simp add: comp_def)+
qed

text \<open>The largest random number gives more than the sum, and then no point is picked.\<close>

lemma randf_exceeds:
  assumes "rnd_next rnd r = (rand_max rnd, r')" "1 < rand_max rnd" "0 < m"
  shows "\<exists>m'. randf exact rnd (Fin m) r = (Fin m', r') \<and> m < m'"
  using assms by (simp add: randf_def pos_less_divide_eq algebra_simps)

lemma kpp_pick_none:
  "sum_list ds < s \<Longrightarrow> (\<And>d. d \<in> set ds \<Longrightarrow> 0 \<le> d) \<Longrightarrow> kpp_pick exact (Fin s) (zip (map Fin ds) pts) = None"
proof (induction ds arbitrary: s pts)
  case (Cons d ds)
  have "0 \<le> sum_list ds" using Cons.prems(2) by (intro sum_list_nonneg) simp
  moreover have "kpp_pick exact (Fin (s - d)) (zip (map Fin ds) qs) = None" for qs by (rule Cons.IH) (use Cons.prems in simp_all)
  ultimately show ?case using Cons.prems(1) by (cases pts) simp_all
qed simp

subsection \<open>The algorithm\<close>

text \<open>Every point is in the cluster of a centre that is nearest to it, and the centres are the means of their clusters.\<close>

definition clustered :: "grouping \<Rightarrow> nat \<Rightarrow> xreal point_s list \<Rightarrow> bool" where
  "clustered ys n cent \<longleftrightarrow> (\<forall>i < n. cent ! i = (centre (members ys i))\<lparr>ps_group := i\<rparr>)
     \<and> (\<forall>y \<in> set ys. snd y < n \<and> (\<forall>i < n. dist2_s exact (cent ! snd y) (as_point y) \<le> dist2_s exact (cent ! i) (as_point y)))"

lemma dist2_s_group [simp]: "dist2_s exact (c\<lparr>ps_group := g\<rparr>) p = dist2_s exact c p"
  by (simp add: dist2_s_def)

lemma lloyd_result:
  assumes n: "1 \<le> n" "n \<le> length cent" and zs: "zs \<noteq> []" "length zs < 1024"
  shows "\<exists>ys cent' r'. lloyd_s True exact rnd (map as_point zs) n cent r = Some (map as_point ys, cent', r') \<and> length cent' = length cent
    \<and> map fst ys = map fst zs \<and> clustered ys n cent'"
proof -
  have "max 1 n = n" using n(1) by simp
  with kpp_result [of n cent zs rnd r] n(2) zs(1) obtain xs c1 r' where k: "kpp_s True exact rnd (map as_point zs) cent n r = Some (map as_point xs, c1, r')"
    "length c1 = length cent" "map fst xs = map fst zs" "\<And>y. y \<in> set xs \<Longrightarrow> snd y < n" by auto
  have "length xs < 1024" using arg_cong [OF k(3), of length] zs(2) by simp
  with loop_result [of xs n c1] k(2,4) n(2) obtain ys where ys: "ys \<in> same_points xs n" "regrouped ys n c1 = ys"
    "lloyd_loop exact n (map as_point xs) c1 = Some (map as_point ys, centres ys n c1)" by auto
  have g: "snd y < n" if "y \<in> set ys" for y using ys(1) that by (simp add: same_points_def)
  let ?c = "map (\<lambda>(i, c). if i < n then c\<lparr>ps_group := i\<rparr> else c) (enumerate 0 (centres ys n c1))"
  have c: "?c ! i = (centre (members ys i))\<lparr>ps_group := i\<rparr>" if "i < n" for i
    using that n(2) k(2) by (simp add: nth_enumerate_eq length_centres) (simp add: centres_def nth_append)
  have d: "dist2_s exact (?c ! i) (as_point y) = (if members ys i = [] then Infty else Fin (dist2 (means ys i) (fst y)))" if "i < n" for i y
    unfolding c [OF that] by (simp add: dist2_s_centre means_def)
  have "dist2_s exact (?c ! snd y) (as_point y) \<le> dist2_s exact (?c ! i) (as_point y)" if y: "y \<in> set ys" "i < n" for y i
  proof -
    have n': "n \<le> length c1" using n(2) k(2) by simp
    have "fst (nearest_loop exact (as_point y) (take n (centres ys n c1)) 0 Infty (snd y)) = snd y"
      using y(1) ys(2) unfolding regrouped_def by (metis (no_types, lifting) list.map_ident map_eq_conv snd_conv)
    with regrouped_point [of ys n c1 y, OF g n' y(1)] have "\<forall>j < n. members ys j \<noteq> [] \<longrightarrow> dist2 (means ys (snd y)) (fst y) \<le> dist2 (means ys j) (fst y)"
      by simp
    with y(2) show ?thesis unfolding d [OF g [OF y(1)]] d [OF y(2)] using members_nonempty [OF y(1)] by simp
  qed
  with c g have "clustered ys n ?c" by (simp add: clustered_def)
  moreover have "lloyd_s True exact rnd (map as_point zs) n cent r = Some (map as_point ys, ?c, r')"
    by (simp add: lloyd_s_def k(1) ys(3))
  moreover have "length ?c = length cent" using n(2) k(2) by (simp add: length_centres)
  moreover have "map fst ys = map fst zs" using ys(1) k(3) by (simp add: same_points_def)
  ultimately show ?thesis by blast
qed

text \<open>No clusters are asked for, or more than there is room for.\<close>

lemma lloyd_none_wanted:
  assumes "zs \<noteq> []" "cent \<noteq> []"
  shows "lloyd_s True exact rnd (map as_point zs) 0 cent r \<noteq> None"
proof -
  from assms(2) have "max 1 0 \<le> length cent" by (cases cent) simp_all
  from kpp_result [OF this assms(1), of rnd r] obtain xs c1 r' where k: "kpp_s True exact rnd (map as_point zs) cent 0 r = Some (map as_point xs, c1, r')"
    "length c1 = length cent" "\<And>y. y \<in> set xs \<Longrightarrow> snd y < 1" by auto
  have acc: "accumulate exact (map as_point ys) c \<noteq> None" if "\<And>y. y \<in> set ys \<Longrightarrow> snd y < 1" "c \<noteq> []" for ys c
    using that by (induction ys arbitrary: c) (auto simp: as_point_def Let_def)
  have "c1 \<noteq> []" using k(2) assms(2) by auto
  with acc [of xs c1] k(3) obtain c2 where c2: "accumulate exact (map as_point xs) c1 = Some c2" by blast
  have near: "those (map (\<lambda>p. map_option fst (nearest_s exact p c2 0)) (map as_point xs)) = Some (map (\<lambda>p. ps_group p) (map as_point xs))"
    by (rule those_map_Some) (simp add: nearest_s_def)
  have "map as_point (map (\<lambda>z. (fst z, ps_group (as_point z))) xs) = map as_point xs" by (simp add: as_point_def)
  moreover have "filter (\<lambda>(p, g). g \<noteq> ps_group p) (zip (map as_point xs) (map (\<lambda>p. ps_group p) (map as_point xs))) = []"
    by (induction xs) simp_all
  ultimately have "lloyd_round exact (map as_point xs) 0 c1 = Some (0, map as_point xs, c2)"
    unfolding lloyd_round_def on_first_def using c2 near regroup_as_points [of xs "\<lambda>p. ps_group p"] by simp
  then have "lloyd_loop exact 0 (map as_point xs) c1 = Some (map as_point xs, c2)" by (subst lloyd_loop.simps) simp
  with k(1) show ?thesis by (simp add: lloyd_s_def)
qed

lemma lloyd_too_many:
  assumes "length cent < n" "pts \<noteq> []"
  shows "lloyd_s True F rnd pts n cent r = None"
proof -
  have "those (map (\<lambda>p. map_option fst (nearest_s F p c (max 1 n))) pts) = None" if "length c = length cent" for c
    using assms that by (intro those_map_None [of "hd pts"]) (auto simp: nearest_s_def)
  then have "kpp_s True F rnd pts cent n r = None"
    using kpp_loop_keeps by (fastforce simp: kpp_s_def Let_def split: prod.splits Option.bind_splits)
  then show ?thesis by (simp add: lloyd_s_def)
qed

text \<open>Without memory.\<close>

lemma lloyd_no_memory:
  "pts \<noteq> [] \<Longrightarrow> lloyd_s mem F rnd pts n cent r = (if \<not> mem \<and> 1 < n then None else lloyd_s True F rnd pts n cent r)"
  by (simp add: lloyd_s_def kpp_s_def Let_def split: prod.split)

subsection \<open>The points of a scan\<close>

definition finite_part :: "xreal \<Rightarrow> real" where
  "finite_part x = (case x of Fin r \<Rightarrow> r | Infty \<Rightarrow> 0)"

definition coordinates :: "xreal point_s list \<Rightarrow> (real \<times> real) list" where
  "coordinates pts = map (\<lambda>p. (finite_part (ps_x p), finite_part (ps_y p))) pts"

lemma scan_points_exact:
  "\<exists>zs. scan_points exact widen data pts = map as_point zs \<and> length zs = length pts
    \<and> map fst zs = coordinates (scan_points exact widen data pts)"
proof -
  have one: "as_point ((finite_part (ps_x p), finite_part (ps_y p)), ps_group p) = p" if "p = scan_point exact x y g" for p x y g
    unfolding that by (cases x; cases y) (simp_all add: scan_point_def as_point_def finite_part_def)
  let ?ps = "scan_points exact widen data pts"
  let ?zs = "map (\<lambda>p. ((finite_part (ps_x p), finite_part (ps_y p)), ps_group p)) ?ps"
  have "map as_point ?zs = ?ps"
    unfolding map_map by (rule map_idI) (auto simp: scan_points_def intro: one)
  then show ?thesis by (intro exI [of _ ?zs]) (simp add: coordinates_def scan_points_def comp_def)
qed

lemma length_scan_points: "length (scan_points F widen data pts) = length pts"
  by (simp add: scan_points_def)

subsection \<open>Properties\<close>

text \<open>C10: The obstacles are found. In exact arithmetic, when a scan is delivered and between one and \<open>K\<close> clusters are asked
  for, and the array of distances is allocated, the step of the block ends, whatever the random numbers: its points are those of the scan, every point is
  in the cluster of a nearest centre, every centre is the mean of its cluster, and the centres are
  what the block puts out.\<close>

theorem clusters_found:
  assumes "length (km_cent info) = K" "length (km_pts info) = PTS"
    and "ap_int A ''n_clusters'' 0 e = (ret, n_clusters, e1)" "ap_floats A ''data_in'' (replicate (PTS * 2) junk) e1 = (ret', data, e2)" "0 < ret'"
    and "n = (if 0 < ret then n_clusters else km_n_clusters info)" "1 \<le> n" "n \<le> int K"
  shows "\<exists>ys cent r'. k_means_plus_step True A exact widen narrow rnd junk info e r
      = Some (\<lparr>km_n_clusters = n, km_cent = cent, km_pts = map as_point ys\<rparr>,
          ap_put_int A ''n_clusters_out'' n (ap_put_floats A ''data_out''
            (concat (map (\<lambda>c. [narrow (ps_x c), narrow (ps_y c)]) (take (nat n) cent)) @ replicate ((K - nat n) * 2) junk) e2), r')
    \<and> map fst ys = coordinates (scan_points exact widen data (km_pts info)) \<and> length cent = K \<and> clustered ys (nat n) cent"
proof -
  obtain zs where zs: "scan_points exact widen data (km_pts info) = map as_point zs" "length zs = length (km_pts info)"
    "map fst zs = coordinates (scan_points exact widen data (km_pts info))" using scan_points_exact by blast
  have m: "1 \<le> nat n" "nat n \<le> length (km_cent info)" "zs \<noteq> []" "length zs < 1024" using assms(1,2,7,8) zs(2) by (auto simp: PTS_def)
  from lloyd_result [OF m, of rnd r] obtain ys cent r' where
    "lloyd_s True exact rnd (map as_point zs) (nat n) (km_cent info) r = Some (map as_point ys, cent, r')" "length cent = length (km_cent info)"
    "map fst ys = map fst zs" "clustered ys (nat n) cent" by blast
  with zs assms show ?thesis
    by (intro exI [of _ ys] exI [of _ cent] exI [of _ r']) (auto simp: k_means_plus_step_def Let_def)
qed

definition still_scan :: "(real, unit) app_ports" where
  "still_scan = \<lparr>ap_floats = (\<lambda>_ xs e. (1, map (\<lambda>_. 5) xs, e)), ap_int = (\<lambda>_ _ e. (1, 2, e)), ap_put_floats = (\<lambda>_ _ e. e),
     ap_put_int = (\<lambda>_ _ e. e)\<rparr>"

theorem clusters_found_witness:
  "\<exists>ys cent r'. k_means_plus_step True still_scan exact Fin finite_part \<lparr>rnd_next = (\<lambda>r. (r, Suc r)), rand_max = 2147483647\<rparr> 0
      \<lparr>km_n_clusters = 0, km_cent = replicate K (centre []), km_pts = init_xy_s exact PTS\<rparr> () 3
      = Some (\<lparr>km_n_clusters = 2, km_cent = cent, km_pts = map as_point ys\<rparr>, (), r')
    \<and> length cent = K \<and> clustered ys 2 cent"
  using clusters_found [of "\<lparr>km_n_clusters = 0, km_cent = replicate K (centre []), km_pts = init_xy_s exact PTS\<rparr>" still_scan "()" 1 2 "()"
      0 1 "replicate (PTS * 2) 5" "()" 2 Fin finite_part "\<lparr>rnd_next = (\<lambda>r. (r, Suc r)), rand_max = 2147483647\<rparr>" 3]
  by (auto simp: still_scan_def init_xy_s_def K_def)

text \<open>C12: The step of the clustering goes wrong exactly when a scan is delivered while more clusters are asked for
  than there is room for: \<open>n_clusters\<close> comes from a port or the configuration and nothing compares it
  with \<open>K\<close>, so that the centres are written and read behind the end of their array; or when more than one cluster is
  asked for and \<open>malloc\<close> fails, which nothing checks either.\<close>

theorem clusters_in_range:
  assumes "length (km_cent info) = K" "length (km_pts info) = PTS"
    and "ap_int A ''n_clusters'' 0 e = (ret, n_clusters, e1)" "ap_floats A ''data_in'' (replicate (PTS * 2) junk) e1 = (ret', data, e2)"
    and "n = (if 0 < ret then n_clusters else km_n_clusters info)"
  shows "k_means_plus_step mem A exact widen narrow rnd junk info e r = None \<longleftrightarrow> 0 < ret' \<and> (int K < n \<or> \<not> mem \<and> 1 < n)"
proof -
  let ?pts = "scan_points exact widen data (km_pts info)" and ?L = "lloyd_s True exact rnd (scan_points exact widen data (km_pts info)) (nat n) (km_cent info) r"
  obtain zs where zs: "?pts = map as_point zs" "length zs = length (km_pts info)" using scan_points_exact by blast
  have ne: "?pts \<noteq> []" "zs \<noteq> []" "km_cent info \<noteq> []" "length zs < 1024" using assms(1,2) zs by (auto simp: PTS_def K_def)
  have L: "?L = None \<longleftrightarrow> int K < n"
  proof (cases "int K < n")
    case True
    then have "length (km_cent info) < nat n" using assms(1) by simp
    with lloyd_too_many [OF this ne(1)] True show ?thesis by simp
  next
    case False
    have "?L \<noteq> None"
    proof (cases "1 \<le> nat n")
      case True
      have "nat n \<le> length (km_cent info)" using False assms(1) by simp
      from lloyd_result [OF True this ne(2,4), of rnd r] zs(1) show ?thesis by auto
    next
      case False
      then have "nat n = 0" by simp
      with lloyd_none_wanted [OF ne(2,3), of rnd r] zs(1) show ?thesis by simp
    qed
    with False show ?thesis by simp
  qed
  show ?thesis
  proof (cases "0 < ret'")
    case True
    have "k_means_plus_step mem A exact widen narrow rnd junk info e r = None \<longleftrightarrow> lloyd_s mem exact rnd ?pts (nat n) (km_cent info) r = None \<or> K < nat n"
      using assms(3-5) True
      by (cases "lloyd_s mem exact rnd ?pts (nat n) (km_cent info) r") (auto simp: k_means_plus_step_def Let_def split: if_split_asm)
    with L True lloyd_no_memory [OF ne(1), of mem exact rnd "nat n" "km_cent info" r] show ?thesis by (auto split: if_splits)
  next
    case False
    then show ?thesis using assms(3,4) by (simp add: k_means_plus_step_def Let_def)
  qed
qed

theorem clusters_in_range_witness:
  "k_means_plus_step True (still_scan\<lparr>ap_int := \<lambda>_ _ e. (1, 13, e)\<rparr>) exact Fin finite_part \<lparr>rnd_next = (\<lambda>r. (r, Suc r)), rand_max = 2147483647\<rparr> 0
      \<lparr>km_n_clusters = 0, km_cent = replicate K (centre []), km_pts = init_xy_s exact PTS\<rparr> () 3 = None"
  using clusters_in_range [of "\<lparr>km_n_clusters = 0, km_cent = replicate K (centre []), km_pts = init_xy_s exact PTS\<rparr>"
      "still_scan\<lparr>ap_int := \<lambda>_ _ e. (1, 13, e)\<rparr>" "()" 1 13 "()"
      0 1 "replicate (PTS * 2) 5" "()" 13 True Fin finite_part "\<lparr>rnd_next = (\<lambda>r. (r, Suc r)), rand_max = 2147483647\<rparr>" 3]
  by (simp add: still_scan_def init_xy_s_def K_def)

end
