(* ===== verification/PatMux.thy ===== *)
theory PatMux
  imports UbxModel
begin

text \<open>
  The block \<open>pat_mux\<close> (\<open>std_blocks/pat_mux\<close>, of which \<open>pat_mux2\<close> is a copy): it packs the arrays of its ports into
  bytes, or takes them out again, as a pattern like \<open>C3F4I4\<close> says. Numbers are bit patterns of their
  width. An access outside an array is \<open>None\<close>, as is a signed overflow.
\<close>

subsection \<open>Bytes\<close>

fun le_digits :: "nat \<Rightarrow> nat \<Rightarrow> nat list" where
  "le_digits 0 v = []"
| "le_digits (Suc n) v = v mod 256 # le_digits n (v div 256)"

fun le_value :: "nat list \<Rightarrow> nat" where
  "le_value [] = 0" | "le_value (d # ds) = d + 256 * le_value ds"

definition in_order :: "endian \<Rightarrow> 'a list \<Rightarrow> 'a list" where
  "in_order E xs = (case E of Little \<Rightarrow> xs | Big \<Rightarrow> rev xs)"

text \<open>The bytes of a number in memory, through a union.\<close>

definition t2Bytes :: "endian \<Rightarrow> 'a::len word \<Rightarrow> u8 list" where
  "t2Bytes E var = in_order E (map word_of_nat (le_digits (LENGTH('a) div 8) (unat var)))"

definition bytes2t :: "endian \<Rightarrow> u8 list \<Rightarrow> 'a::len word" where
  "bytes2t E bytes = word_of_nat (le_value (map unat (in_order E bytes)))"

fun tArray2Bytes :: "endian \<Rightarrow> 'a::len word list \<Rightarrow> int \<Rightarrow> nat \<Rightarrow> int \<Rightarrow> u8 list \<Rightarrow> u8 list option" where
  "tArray2Bytes E tArr i 0 pt bytes = Some bytes"
| "tArray2Bytes E tArr i (Suc n) pt bytes = (let size = LENGTH('a) div 8 in
     if 0 \<le> i \<and> nat i < length tArr \<and> 0 \<le> pt \<and> nat pt + size \<le> length bytes
     then tArray2Bytes E tArr (i + 1) n (pt + int size) (blit (nat pt) (t2Bytes E (tArr ! nat i)) bytes)
     else None)"

fun bytes2tArray :: "endian \<Rightarrow> u8 list \<Rightarrow> 'a::len word list \<Rightarrow> int \<Rightarrow> nat \<Rightarrow> int \<Rightarrow> 'a word list option" where
  "bytes2tArray E bytes tArr i 0 pt = Some tArr"
| "bytes2tArray E bytes tArr i (Suc n) pt = (let size = LENGTH('a) div 8 in
     if 0 \<le> i \<and> nat i < length tArr \<and> 0 \<le> pt \<and> nat pt + size \<le> length bytes
     then bytes2tArray E bytes (tArr[nat i := bytes2t E (take size (drop (nat pt) bytes))]) (i + 1) n (pt + int size)
     else None)"

subsection \<open>Patterns\<close>

text \<open>A pattern is read up to its terminating zero; \<open>strtol\<close> stops at the largest \<open>long\<close>, which is then cut to an \<open>int\<close>.\<close>

definition N_TYPES :: nat where "N_TYPES = 16"

definition isdigit :: "char \<Rightarrow> bool" where
  "isdigit c \<longleftrightarrow> 48 \<le> (of_char c :: nat) \<and> (of_char c :: nat) \<le> 57"

definition to_int :: "int \<Rightarrow> int" where
  "to_int x = sint (word_of_int x :: 32 word)"

definition strtol :: "string \<Rightarrow> int" where
  "strtol ds = min (2 ^ 63 - 1) (int (foldl (\<lambda>v c. v * 10 + (of_char c - 48)) 0 ds))"

function str2ByteInfo :: "string \<Rightarrow> nat \<Rightarrow> string \<Rightarrow> int list \<Rightarrow> (nat \<times> string \<times> int list) option" where
  "str2ByteInfo [] i typeArr typeLen = None"
| "str2ByteInfo (c # cs) i typeArr typeLen = (
     if c = CHR 0x00 then if i < length typeArr then Some (i, typeArr[i := CHR 0x00], typeLen) else None
     else if isdigit c then
       if i < length typeLen then str2ByteInfo (dropWhile isdigit cs) (i + 1) typeArr (typeLen[i := to_int (strtol (c # takeWhile isdigit cs))])
       else None
     else if i < length typeArr then str2ByteInfo cs i (typeArr[i := c]) typeLen
     else None)"
  by pat_completeness auto
termination by (relation "measure (\<lambda>(s, _). length s)") (auto simp: le_imp_less_Suc length_dropWhile_le)

subsection \<open>Packing and unpacking\<close>

datatype kind = KChar | KShort | KInt | KFloat | KDouble

definition kind_of :: "char \<Rightarrow> kind option" where
  "kind_of c = (if c \<in> {CHR ''f'', CHR ''F''} then Some KFloat else if c \<in> {CHR ''I'', CHR ''i''} then Some KInt
     else if c \<in> {CHR ''D'', CHR ''d''} then Some KDouble else if c \<in> {CHR ''S'', CHR ''s''} then Some KShort
     else if c \<in> {CHR ''C'', CHR ''c''} then Some KChar else None)"

fun sizeof :: "kind \<Rightarrow> nat" where
  "sizeof KChar = 1" | "sizeof KShort = 2" | "sizeof KInt = 4" | "sizeof KFloat = 4" | "sizeof KDouble = 8"

record type_arrays =
  ta_char :: "u8 list"
  ta_short :: "16 word list"
  ta_int :: "u32 list"
  ta_long :: "64 word list"
  ta_float :: "u32 list"
  ta_double :: "64 word list"

definition pack :: "endian \<Rightarrow> type_arrays \<Rightarrow> kind \<Rightarrow> int \<Rightarrow> nat \<Rightarrow> int \<Rightarrow> u8 list \<Rightarrow> u8 list option" where
  "pack E a k = (case k of KChar \<Rightarrow> tArray2Bytes E (ta_char a) | KShort \<Rightarrow> tArray2Bytes E (ta_short a)
     | KInt \<Rightarrow> tArray2Bytes E (ta_int a) | KFloat \<Rightarrow> tArray2Bytes E (ta_float a) | KDouble \<Rightarrow> tArray2Bytes E (ta_double a))"

definition unpack :: "endian \<Rightarrow> u8 list \<Rightarrow> kind \<Rightarrow> int \<Rightarrow> nat \<Rightarrow> int \<Rightarrow> type_arrays \<Rightarrow> type_arrays option" where
  "unpack E bytes k i n pt a = (case k of
       KChar \<Rightarrow> map_option (\<lambda>xs. a\<lparr>ta_char := xs\<rparr>) (bytes2tArray E bytes (ta_char a) i n pt)
     | KShort \<Rightarrow> map_option (\<lambda>xs. a\<lparr>ta_short := xs\<rparr>) (bytes2tArray E bytes (ta_short a) i n pt)
     | KInt \<Rightarrow> map_option (\<lambda>xs. a\<lparr>ta_int := xs\<rparr>) (bytes2tArray E bytes (ta_int a) i n pt)
     | KFloat \<Rightarrow> map_option (\<lambda>xs. a\<lparr>ta_float := xs\<rparr>) (bytes2tArray E bytes (ta_float a) i n pt)
     | KDouble \<Rightarrow> map_option (\<lambda>xs. a\<lparr>ta_double := xs\<rparr>) (bytes2tArray E bytes (ta_double a) i n pt))"

definition count_up :: "int \<Rightarrow> int \<Rightarrow> int option" where
  "count_up x y = (if - (2 ^ 31) \<le> x + y \<and> x + y < 2 ^ 31 then Some (x + y) else None)"

text \<open>The loops over the pieces of a pattern; \<open>cnt\<close> are the counters of the types.\<close>

fun mux_loop :: "endian \<Rightarrow> type_arrays \<Rightarrow> (char \<times> int) list \<Rightarrow> (kind \<Rightarrow> int) \<Rightarrow> int \<Rightarrow> int \<Rightarrow> u8 list \<Rightarrow> (int \<times> u8 list) option" where
  "mux_loop E a [] cnt pt tot bytes = Some (tot, bytes)"
| "mux_loop E a ((c, len) # ps) cnt pt tot bytes = (case kind_of c of
       None \<Rightarrow> mux_loop E a ps cnt pt tot bytes
     | Some k \<Rightarrow> do {
         m \<leftarrow> count_up (cnt k) len;
         bytes \<leftarrow> pack E a k (cnt k) (nat len) pt bytes;
         mux_loop E a ps (cnt(k := m)) (pt + len * int (sizeof k)) (to_int (tot + int (sizeof k) * len)) bytes })"

fun demux_loop :: "endian \<Rightarrow> u8 list \<Rightarrow> (char \<times> int) list \<Rightarrow> (kind \<Rightarrow> int) \<Rightarrow> int \<Rightarrow> type_arrays \<Rightarrow> type_arrays option" where
  "demux_loop E bytes [] cnt pt a = Some a"
| "demux_loop E bytes ((c, len) # ps) cnt pt a = (case kind_of c of
       None \<Rightarrow> demux_loop E bytes ps cnt pt a
     | Some k \<Rightarrow> do {
         m \<leftarrow> count_up (cnt k) len;
         a \<leftarrow> unpack E bytes k (cnt k) (nat len) pt a;
         demux_loop E bytes ps (cnt(k := m)) (pt + len * int (sizeof k)) a })"

subsection \<open>The block\<close>

definition MUX :: nat where "MUX = 0"
definition DEMUX :: nat where "DEMUX = 1"
definition MAX_LEN_DATA :: nat where "MAX_LEN_DATA = 512"
definition MAX_LEN_TYPE_DATA :: nat where "MAX_LEN_TYPE_DATA = 64"

record pat_mux_config =
  pmc_mux_type :: nat
  pmc_mux_pattern :: string

record pat_mux_info =
  pm_mux_type :: nat
  pm_mux_pattern :: string
  pm_in_bytes :: "u8 list"
  pm_in :: type_arrays
  pm_out_bytes :: "u8 list"
  pm_out :: type_arrays
  pm_typeArr :: string
  pm_typeLen :: "int list"

definition zero_arrays :: "nat \<Rightarrow> type_arrays" where
  "zero_arrays floats = (let n = MAX_LEN_TYPE_DATA in \<lparr>ta_char = replicate n 0, ta_short = replicate n 0, ta_int = replicate n 0,
     ta_long = replicate n 0, ta_float = replicate floats 0, ta_double = replicate n 0\<rparr>)"

text \<open>Without memory the hook returns \<open>EOUTOFMEM\<close>; \<open>conf\<close> is \<open>None\<close> for NULL, which is not checked.\<close>

definition pat_mux_init :: "bool \<Rightarrow> pat_mux_config option \<Rightarrow> (int \<times> pat_mux_info option) option" where
  "pat_mux_init alloc conf = (if \<not> alloc then Some (EOUTOFMEM, None)
     else map_option (\<lambda>c. (0, Some \<lparr>pm_mux_type = pmc_mux_type c, pm_mux_pattern = pmc_mux_pattern c,
       pm_in_bytes = replicate MAX_LEN_DATA 0, pm_in = zero_arrays MAX_LEN_TYPE_DATA, pm_out_bytes = replicate MAX_LEN_DATA 0,
       pm_out = zero_arrays 6, pm_typeArr = replicate N_TYPES (CHR 0x00), pm_typeLen = replicate N_TYPES 0\<rparr>)) conf)"

text \<open>The accessors of the ports: reading takes the array as it was and gives what it is afterwards.\<close>

record 'e mux_ports =
  mp_in_char :: "u8 list \<Rightarrow> 'e \<Rightarrow> u8 list \<times> 'e"
  mp_in_short :: "16 word list \<Rightarrow> 'e \<Rightarrow> 16 word list \<times> 'e"
  mp_in_int :: "u32 list \<Rightarrow> 'e \<Rightarrow> u32 list \<times> 'e"
  mp_in_long :: "64 word list \<Rightarrow> 'e \<Rightarrow> 64 word list \<times> 'e"
  mp_in_float :: "u32 list \<Rightarrow> 'e \<Rightarrow> u32 list \<times> 'e"
  mp_in_double :: "64 word list \<Rightarrow> 'e \<Rightarrow> 64 word list \<times> 'e"
  mp_in_port :: "u8 list \<Rightarrow> 'e \<Rightarrow> u8 list \<times> 'e"
  mp_in_total_bytes :: "'e \<Rightarrow> 'e"
  mp_out_char :: "u8 list \<Rightarrow> 'e \<Rightarrow> 'e"
  mp_out_short :: "16 word list \<Rightarrow> 'e \<Rightarrow> 'e"
  mp_out_int :: "u32 list \<Rightarrow> 'e \<Rightarrow> 'e"
  mp_out_long :: "64 word list \<Rightarrow> 'e \<Rightarrow> 'e"
  mp_out_float :: "u32 list \<Rightarrow> 'e \<Rightarrow> 'e"
  mp_out_double :: "64 word list \<Rightarrow> 'e \<Rightarrow> 'e"
  mp_out_port :: "u8 list \<Rightarrow> 'e \<Rightarrow> 'e"
  mp_out_total_bytes :: "int \<Rightarrow> 'e \<Rightarrow> 'e"

definition read_arrays :: "'e mux_ports \<Rightarrow> type_arrays \<Rightarrow> 'e \<Rightarrow> type_arrays \<times> 'e" where
  "read_arrays P a e = (
     let (c, e) = mp_in_char P (ta_char a) e; (s, e) = mp_in_short P (ta_short a) e; (i, e) = mp_in_int P (ta_int a) e;
         (l, e) = mp_in_long P (ta_long a) e; (f, e) = mp_in_float P (ta_float a) e; (d, e) = mp_in_double P (ta_double a) e in
     (\<lparr>ta_char = c, ta_short = s, ta_int = i, ta_long = l, ta_float = f, ta_double = d\<rparr>, e))"

definition write_arrays :: "'e mux_ports \<Rightarrow> type_arrays \<Rightarrow> 'e \<Rightarrow> 'e" where
  "write_arrays P a e = mp_out_double P (ta_double a) (mp_out_float P (ta_float a) (mp_out_long P (ta_long a)
     (mp_out_int P (ta_int a) (mp_out_short P (ta_short a) (mp_out_char P (ta_char a) e)))))"

definition pieces :: "nat \<Rightarrow> string \<Rightarrow> int list \<Rightarrow> (char \<times> int) list" where
  "pieces n typeArr typeLen = take n (zip typeArr typeLen)"

definition pat_mux_step :: "endian \<Rightarrow> 'e mux_ports \<Rightarrow> pat_mux_info \<Rightarrow> 'e \<Rightarrow> (pat_mux_info \<times> 'e) option" where
  "pat_mux_step E P info e = do {
     (nNumbers, typeArr, typeLen) \<leftarrow> str2ByteInfo (pm_mux_pattern info) 0 (pm_typeArr info) (pm_typeLen info);
     let info = info\<lparr>pm_typeArr := typeArr, pm_typeLen := typeLen\<rparr>;
     let ps = pieces nNumbers typeArr typeLen;
     (info, e) \<leftarrow> (if pm_mux_type info = MUX then do {
         let (a, e) = read_arrays P (pm_in info) e;
         (tot, bytes) \<leftarrow> mux_loop E a ps (\<lambda>_. 0) 0 0 (pm_out_bytes info);
         Some (info\<lparr>pm_in := a, pm_out_bytes := bytes\<rparr>, mp_out_total_bytes P tot (mp_out_port P bytes e)) }
       else Some (info, e));
     (if pm_mux_type info = DEMUX then do {
         let (bytes, e) = mp_in_port P (pm_in_bytes info) e;
         let e = mp_in_total_bytes P e;
         a \<leftarrow> demux_loop E bytes ps (\<lambda>_. 0) 0 (pm_out info);
         Some (info\<lparr>pm_in_bytes := bytes, pm_out := a\<rparr>, write_arrays P a e) }
       else Some (info, e)) }"

subsection \<open>Bytes and numbers\<close>

lemma length_le_digits [simp]: "length (le_digits n v) = n"
  by (induction n v rule: le_digits.induct) simp_all

lemma le_digits_bounded: "d \<in> set (le_digits n v) \<Longrightarrow> d < 256"
  by (induction n v rule: le_digits.induct) auto

lemma le_value_digits: "le_value (le_digits n v) = v mod 256 ^ n"
proof (induction n v rule: le_digits.induct)
  case (2 n v)
  have "v mod 256 + 256 * (v div 256 mod 256 ^ n) = v mod (256 * 256 ^ n)" by (simp add: mod_mult2_eq)
  with 2 show ?case by simp
qed simp

lemma in_order_simps [simp]: "length (in_order E xs) = length xs" "in_order E (in_order E xs) = xs" "map f (in_order E xs) = in_order E (map f xs)"
  by (cases E; simp add: in_order_def rev_map)+

lemma length_t2Bytes [simp]: "length (t2Bytes E (w :: 'a::len word)) = LENGTH('a) div 8"
  by (simp add: t2Bytes_def)

lemma bytes2t_t2Bytes: "8 * n = LENGTH('a) \<Longrightarrow> bytes2t E (t2Bytes E w) = (w :: 'a::len word)"
proof -
  assume n: "8 * n = LENGTH('a)"
  have "map unat (map (word_of_nat :: nat \<Rightarrow> u8) ds) = ds" if "\<forall>d \<in> set ds. d < 256" for ds
    using that by (induction ds) (simp_all add: unat_of_nat)
  then have "map (unat \<circ> (word_of_nat :: nat \<Rightarrow> u8)) (le_digits n (unat w)) = le_digits n (unat w)"
    using le_digits_bounded by fastforce
  moreover have "(256 :: nat) ^ n = 2 ^ LENGTH('a)" unfolding n [symmetric] by (simp add: power_mult)
  then have "unat w mod 256 ^ n = unat w" by simp
  ultimately show ?thesis using n by (simp add: bytes2t_def t2Bytes_def le_value_digits flip: n)
qed

lemma blit_nil [simp]: "blit pt [] xs = xs"
  by (simp add: blit_def)

lemma blit_blit: "pt + length xs \<le> length ys \<Longrightarrow> blit (pt + length xs) zs (blit pt xs ys) = blit pt (xs @ zs) ys"
  by (simp add: blit_def ac_simps)

lemma length_blit_fits: "pt + length xs \<le> length ys \<Longrightarrow> length (blit pt xs ys) = length ys"
  by (simp add: blit_def)

lemma tArray2Bytes_result:
  fixes tArr :: "'a::len word list"
  assumes "tArray2Bytes E tArr (int i) n (int pt) bytes = Some out"
  shows "(n = 0 \<or> i + n \<le> length tArr \<and> pt + n * (LENGTH('a) div 8) \<le> length bytes)
    \<and> out = blit pt (concat (map (t2Bytes E) (take n (drop i tArr)))) bytes"
  using assms
proof (induction n arbitrary: i pt bytes)
  case (Suc n)
  let ?s = "LENGTH('a) div 8"
  from Suc.prems have b: "i < length tArr" "pt + ?s \<le> length bytes"
    and r: "tArray2Bytes E tArr (int (Suc i)) n (int (pt + ?s)) (blit pt (t2Bytes E (tArr ! i)) bytes) = Some out"
    by (simp_all add: Let_def ac_simps split: if_splits)
  from Suc.IH [OF r] b have o: "n = 0 \<or> Suc i + n \<le> length tArr \<and> pt + ?s + n * ?s \<le> length bytes"
    "out = blit (pt + ?s) (concat (map (t2Bytes E) (take n (drop (Suc i) tArr)))) (blit pt (t2Bytes E (tArr ! i)) bytes)"
    by (simp_all add: length_blit_fits)
  have "take (Suc n) (drop i tArr) = tArr ! i # take n (drop (Suc i) tArr)"
    using b(1) by (simp add: Cons_nth_drop_Suc [symmetric])
  with o b blit_blit [of pt "t2Bytes E (tArr ! i)" bytes] show ?case by (auto simp: algebra_simps)
qed simp

lemma tArray2Bytes_fits:
  fixes tArr :: "'a::len word list"
  assumes "i + n \<le> length tArr" "pt + n * (LENGTH('a) div 8) \<le> length bytes"
  shows "tArray2Bytes E tArr (int i) n (int pt) bytes = Some (blit pt (concat (map (t2Bytes E) (take n (drop i tArr)))) bytes)"
proof -
  have "tArray2Bytes E tArr (int i) n (int pt) bytes \<noteq> None"
    using assms
  proof (induction n arbitrary: i pt bytes)
    case (Suc n)
    let ?s = "LENGTH('a) div 8" and ?b = "blit pt (t2Bytes E (tArr ! i)) bytes"
    have "tArray2Bytes E tArr (int (Suc i)) n (int (pt + ?s)) ?b \<noteq> None"
      using Suc.prems by (intro Suc.IH) (simp_all add: length_blit_fits add.assoc)
    then show ?case using Suc.prems by (simp add: Let_def ac_simps)
  qed simp
  then show ?thesis using tArray2Bytes_result by blast
qed

lemma bytes2tArray_result:
  fixes ys :: "'a::len word list"
  assumes "8 * k = LENGTH('a)" "i + length ys \<le> length tArr"
  shows "bytes2tArray E (pre @ concat (map (t2Bytes E) ys) @ suf) tArr (int i) (length ys) (int (length pre))
    = Some (take i tArr @ ys @ drop (i + length ys) tArr)"
  using assms(2)
proof (induction ys arbitrary: i pre tArr)
  case (Cons y ys)
  let ?s = "LENGTH('a) div 8" and ?b = "pre @ concat (map (t2Bytes E) (y # ys)) @ suf"
  have "take ?s (drop (length pre) ?b) = t2Bytes E y" by simp
  then have "bytes2tArray E ?b tArr (int i) (length (y # ys)) (int (length pre))
      = bytes2tArray E ?b (tArr[i := y]) (int (Suc i)) (length ys) (int (length (pre @ t2Bytes E y)))"
    using Cons.prems bytes2t_t2Bytes [OF assms(1)] by (simp add: Let_def ac_simps)
  also have "\<dots> = Some (take (Suc i) (tArr[i := y]) @ ys @ drop (Suc i + length ys) (tArr[i := y]))"
    using Cons.IH [of "Suc i" "tArr[i := y]" "pre @ t2Bytes E y"] Cons.prems by simp
  also have "take (Suc i) (tArr[i := y]) = take i tArr @ [y]" using Cons.prems by (subst take_Suc_conv_app_nth) simp_all
  finally show ?case by simp
qed simp

subsection \<open>Pieces\<close>

definition piece_bytes :: "endian \<Rightarrow> type_arrays \<Rightarrow> kind \<Rightarrow> nat \<Rightarrow> nat \<Rightarrow> u8 list" where
  "piece_bytes E a k i n = (case k of
       KChar \<Rightarrow> concat (map (t2Bytes E) (take n (drop i (ta_char a)))) | KShort \<Rightarrow> concat (map (t2Bytes E) (take n (drop i (ta_short a))))
     | KInt \<Rightarrow> concat (map (t2Bytes E) (take n (drop i (ta_int a)))) | KFloat \<Rightarrow> concat (map (t2Bytes E) (take n (drop i (ta_float a))))
     | KDouble \<Rightarrow> concat (map (t2Bytes E) (take n (drop i (ta_double a)))))"

definition room_for :: "type_arrays \<Rightarrow> kind \<Rightarrow> nat" where
  "room_for a k = (case k of KChar \<Rightarrow> length (ta_char a) | KShort \<Rightarrow> length (ta_short a) | KInt \<Rightarrow> length (ta_int a)
     | KFloat \<Rightarrow> length (ta_float a) | KDouble \<Rightarrow> length (ta_double a))"

text \<open>The first \<open>c\<close> elements of each array from \<open>a\<close>, the others from \<open>b\<close>.\<close>

definition mixed :: "type_arrays \<Rightarrow> type_arrays \<Rightarrow> (kind \<Rightarrow> nat) \<Rightarrow> type_arrays" where
  "mixed a b c = \<lparr>ta_char = take (c KChar) (ta_char a) @ drop (c KChar) (ta_char b),
     ta_short = take (c KShort) (ta_short a) @ drop (c KShort) (ta_short b), ta_int = take (c KInt) (ta_int a) @ drop (c KInt) (ta_int b),
     ta_long = ta_long b, ta_float = take (c KFloat) (ta_float a) @ drop (c KFloat) (ta_float b),
     ta_double = take (c KDouble) (ta_double a) @ drop (c KDouble) (ta_double b)\<rparr>"

lemma length_concat_bytes: "length (concat (map (t2Bytes E) (xs :: 'a::len word list))) = length xs * (LENGTH('a) div 8)"
  by (induction xs) simp_all

lemma length_piece_bytes: "n = 0 \<or> i + n \<le> room_for a k \<Longrightarrow> length (piece_bytes E a k i n) = n * sizeof k"
  by (cases k) (auto simp: piece_bytes_def room_for_def length_concat_bytes)

lemma pack_result:
  assumes "pack E a k (int i) n (int pt) bytes = Some out"
  shows "(n = 0 \<or> i + n \<le> room_for a k \<and> pt + n * sizeof k \<le> length bytes) \<and> out = blit pt (piece_bytes E a k i n) bytes"
  using assms by (cases k) (auto simp: pack_def piece_bytes_def room_for_def dest!: tArray2Bytes_result)

lemma mix_more:
  "take i (take i xs @ drop i ys) @ take n (drop i xs) @ drop (i + n) (take i xs @ drop i ys) = take (i + n) xs @ drop (i + n) ys"
  if "i + n \<le> length xs" "i + n \<le> length ys"
  using that by (simp add: take_add ac_simps)

lemma unpack_result:
  assumes "c k + n \<le> room_for a k" "c k + n \<le> room_for b k"
  shows "unpack E (pre @ piece_bytes E a k (c k) n @ suf) k (int (c k)) n (int (length pre)) (mixed a b c)
    = Some (mixed a b (c(k := c k + n)))"
proof -
  have u: "bytes2tArray E (pre @ concat (map (t2Bytes E) (take n (drop i xs))) @ suf) (take i xs @ drop i ys) (int i) n (int (length pre))
      = Some (take (i + n) xs @ drop (i + n) ys)"
    if "8 * j = LENGTH('a)" "i + n \<le> length xs" "i + n \<le> length ys" for xs ys :: "'a::len word list" and i j
  proof -
    have len: "length (take n (drop i xs)) = n" using that(2) by simp
    have "i + n \<le> length (take i xs @ drop i ys)" using that(2,3) by simp
    with bytes2tArray_result [OF that(1), of i "take n (drop i xs)" "take i xs @ drop i ys" E pre suf] mix_more [OF that(2,3)]
    show ?thesis unfolding len by simp
  qed
  show ?thesis
  proof (cases k)
    case KChar
    with assms u [of 1 "c KChar" "ta_char a" "ta_char b"] show ?thesis by (simp add: unpack_def piece_bytes_def room_for_def mixed_def)
  next
    case KShort
    with assms u [of 2 "c KShort" "ta_short a" "ta_short b"] show ?thesis by (simp add: unpack_def piece_bytes_def room_for_def mixed_def)
  next
    case KInt
    with assms u [of 4 "c KInt" "ta_int a" "ta_int b"] show ?thesis by (simp add: unpack_def piece_bytes_def room_for_def mixed_def)
  next
    case KFloat
    with assms u [of 4 "c KFloat" "ta_float a" "ta_float b"] show ?thesis by (simp add: unpack_def piece_bytes_def room_for_def mixed_def)
  next
    case KDouble
    with assms u [of 8 "c KDouble" "ta_double a" "ta_double b"] show ?thesis by (simp add: unpack_def piece_bytes_def room_for_def mixed_def)
  qed
qed

fun encoded :: "endian \<Rightarrow> type_arrays \<Rightarrow> (char \<times> int) list \<Rightarrow> (kind \<Rightarrow> nat) \<Rightarrow> u8 list" where
  "encoded E a [] n = []"
| "encoded E a ((c, len) # ps) n = (case kind_of c of None \<Rightarrow> encoded E a ps n
     | Some k \<Rightarrow> piece_bytes E a k (n k) (nat len) @ encoded E a ps (n(k := n k + nat len)))"

fun counts :: "(char \<times> int) list \<Rightarrow> (kind \<Rightarrow> nat) \<Rightarrow> kind \<Rightarrow> nat" where
  "counts [] n = n"
| "counts ((c, len) # ps) n = (case kind_of c of None \<Rightarrow> counts ps n | Some k \<Rightarrow> counts ps (n(k := n k + nat len)))"

lemma counts_mono: "n k \<le> counts ps n k"
proof (induction ps n rule: counts.induct)
  case (2 c len ps n)
  show ?case
  proof (cases "kind_of c")
    case None with 2 show ?thesis by simp
  next
    case (Some j)
    have "n k \<le> (n(j := n j + nat len)) k" by simp
    also note 2(2) [OF Some]
    finally show ?thesis unfolding counts.simps Some option.case .
  qed
qed simp

lemma count_upD: "count_up (int x) len = Some m \<Longrightarrow> 0 \<le> len \<Longrightarrow> m = int (x + nat len)"
  by (simp add: count_up_def split: if_splits)

lemma fun_upd_int: "(\<lambda>k. int (n k))(j := int m) = (\<lambda>k. int ((n(j := m)) k))"
  by (rule ext) simp

lemma mux_loop_result:
  assumes "mux_loop E a ps (\<lambda>k. int (n k)) (int pt) tot bytes = Some (t, out)" "\<forall>(c, len) \<in> set ps. 0 \<le> len"
    "\<And>k. n k \<le> room_for a k" "pt \<le> length bytes"
  shows "out = blit pt (encoded E a ps n) bytes \<and> pt + length (encoded E a ps n) \<le> length bytes \<and> (\<forall>k. counts ps n k \<le> room_for a k)"
  using assms
proof (induction ps arbitrary: n pt tot bytes)
  case (Cons p ps)
  obtain c len where p: "p = (c, len)" by (cases p)
  show ?case
  proof (cases "kind_of c")
    case None with Cons p show ?thesis by simp
  next
    case (Some k)
    with Cons.prems(1) p obtain m b1 where m: "count_up (int (n k)) len = Some m" "pack E a k (int (n k)) (nat len) (int pt) bytes = Some b1"
      "mux_loop E a ps ((\<lambda>k. int (n k))(k := m)) (int pt + len * int (sizeof k)) (to_int (tot + int (sizeof k) * len)) b1 = Some (t, out)"
      by (auto split: Option.bind_split_asm)
    have len: "0 \<le> len" using Cons.prems(2) p by simp
    let ?q = "piece_bytes E a k (n k) (nat len)" and ?n = "n(k := n k + nat len)"
    from pack_result [OF m(2)] have q: "nat len = 0 \<or> n k + nat len \<le> room_for a k \<and> pt + nat len * sizeof k \<le> length bytes" "b1 = blit pt ?q bytes" by auto
    have lq: "length ?q = nat len * sizeof k" by (rule length_piece_bytes) (use q in blast)
    have fits: "pt + length ?q \<le> length bytes" using q(1) lq Cons.prems(4) by auto
    have pt: "int pt + len * int (sizeof k) = int (pt + length ?q)" using lq len by simp
    have "mux_loop E a ps (\<lambda>k. int (?n k)) (int (pt + length ?q)) (to_int (tot + int (sizeof k) * len)) b1 = Some (t, out)"
      using m(3) unfolding pt count_upD [OF m(1) len] fun_upd_int .
    from this have "out = blit (pt + length ?q) (encoded E a ps ?n) b1 \<and> pt + length ?q + length (encoded E a ps ?n) \<le> length b1
      \<and> (\<forall>k. counts ps ?n k \<le> room_for a k)"
    proof (rule Cons.IH)
      show "\<forall>(c, len) \<in> set ps. 0 \<le> len" using Cons.prems(2) by simp
      show "?n j \<le> room_for a j" for j using q(1) Cons.prems(3) [of j] by auto
      show "pt + length ?q \<le> length b1" using fits q(2) by (simp add: length_blit_fits)
    qed
    then have "out = blit pt (?q @ encoded E a ps ?n) bytes \<and> pt + length (?q @ encoded E a ps ?n) \<le> length bytes \<and> (\<forall>k. counts ps ?n k \<le> room_for a k)"
      unfolding q(2) by (simp add: blit_blit [OF fits] length_blit_fits [OF fits] add.assoc del: fun_upd_apply)
    then show ?thesis unfolding p encoded.simps counts.simps Some option.case .
  qed
qed simp

lemma demux_loop_result:
  assumes "\<forall>(c, len) \<in> set ps. 0 \<le> len" "\<And>k. counts ps n k \<le> room_for a k" "\<And>k. counts ps n k \<le> room_for b k" "\<And>k. room_for a k < 2 ^ 31"
  shows "demux_loop E (pre @ encoded E a ps n @ suf) ps (\<lambda>k. int (n k)) (int (length pre)) (mixed a b n) = Some (mixed a b (counts ps n))"
  using assms(1-3)
proof (induction ps arbitrary: n pre)
  case (Cons p ps)
  obtain c len where p: "p = (c, len)" by (cases p)
  show ?case
  proof (cases "kind_of c")
    case None with Cons p show ?thesis by simp
  next
    case (Some k)
    let ?q = "piece_bytes E a k (n k) (nat len)" and ?n = "n(k := n k + nat len)"
    have len: "0 \<le> len" using Cons.prems(1) p by simp
    have "?n k \<le> counts ps ?n k" by (rule counts_mono)
    then have fit: "n k + nat len \<le> room_for a k" "n k + nat len \<le> room_for b k"
      using Cons.prems(2,3) [of k] Some p by auto
    have up: "count_up (int (n k)) len = Some (int (n k + nat len))"
      using fit(1) assms(4) [of k] len by (simp add: count_up_def)
    have lq: "length ?q = nat len * sizeof k" by (rule length_piece_bytes) (use fit in blast)
    have pt: "int (length pre) + len * int (sizeof k) = int (length (pre @ ?q))" using lq len by simp
    have "demux_loop E (pre @ encoded E a (p # ps) n @ suf) (p # ps) (\<lambda>k. int (n k)) (int (length pre)) (mixed a b n)
        = demux_loop E ((pre @ ?q) @ encoded E a ps ?n @ suf) ps (\<lambda>k. int (?n k)) (int (length (pre @ ?q))) (mixed a b ?n)"
      by (simp only: p demux_loop.simps encoded.simps Some option.case append_assoc up unpack_result [of n k "nat len" a b, OF fit] bind.bind_lunit pt fun_upd_int)
    also have "\<dots> = Some (mixed a b (counts ps ?n))" by (rule Cons.IH) (use Cons.prems Some p in \<open>auto simp del: fun_upd_apply\<close>)
    finally show ?thesis using Some p by simp
  qed
qed simp

subsection \<open>Printing a pattern\<close>

fun decimal :: "nat \<Rightarrow> string" where
  "decimal n = (if n < 10 then [char_of (48 + n)] else decimal (n div 10) @ [char_of (48 + n mod 10)])"

declare decimal.simps [simp del]

definition print_pattern :: "(char \<times> nat) list \<Rightarrow> string" where
  "print_pattern items = concat (map (\<lambda>(c, n). c # decimal n) items) @ [CHR 0x00]"

lemma isdigit_char_of: "n < 10 \<Longrightarrow> isdigit (char_of (48 + n :: nat))"
  by (simp add: isdigit_def)

lemma decimal_digits: "c \<in> set (decimal n) \<Longrightarrow> isdigit c"
proof (induction n rule: decimal.induct)
  case (1 n)
  then show ?case by (subst (asm) (2) decimal.simps) (auto simp: isdigit_char_of split: if_splits)
qed

lemma decimal_nonempty: "decimal n \<noteq> []"
  by (subst decimal.simps) simp

lemma decimal_value: "foldl (\<lambda>v c. v * 10 + (of_char c - 48)) 0 (decimal n) = n"
proof (induction n rule: decimal.induct)
  case (1 n)
  show ?case
  proof (cases "n < 10")
    case True then show ?thesis by (subst decimal.simps) simp
  next
    case False
    with 1 show ?thesis by (subst decimal.simps) simp
  qed
qed

lemma isdigit_zero: "\<not> isdigit (CHR 0x00)"
  by (simp add: isdigit_def)

lemma to_int_small: "n < 2 ^ 31 \<Longrightarrow> to_int (strtol (decimal n)) = int n"
proof -
  assume n: "n < 2 ^ 31"
  then have "strtol (decimal n) = int n" by (simp add: strtol_def decimal_value)
  moreover have "sint (word_of_int (int n) :: 32 word) = int n"
    using n by (subst sint_sbintrunc') (simp add: signed_take_bit_int_eq_self)
  ultimately show ?thesis by (simp add: to_int_def)
qed

lemma str2ByteInfo_item:
  assumes "\<not> isdigit c" "c \<noteq> CHR 0x00" "n < 2 ^ 31" "i < length ta" "i < length tl'" "rest = [] \<or> \<not> isdigit (hd rest)"
  shows "str2ByteInfo (c # decimal n @ rest) i ta tl' = str2ByteInfo rest (i + 1) (ta[i := c]) (tl'[i := int n])"
proof -
  obtain d ds where d: "decimal n = d # ds" using decimal_nonempty [of n] by (cases "decimal n") auto
  have dig: "isdigit d" "\<forall>x \<in> set ds. isdigit x" using decimal_digits [of _ n] d by auto
  have "takeWhile isdigit (ds @ rest) = ds" "dropWhile isdigit (ds @ rest) = rest"
    using dig(2) assms(6) by (cases rest; simp add: takeWhile_append dropWhile_append)+
  moreover have "d \<noteq> CHR 0x00" using dig(1) isdigit_zero by auto
  ultimately show ?thesis using assms dig to_int_small [OF assms(3)] d by simp
qed

lemma str2ByteInfo_print:
  assumes "\<forall>(c, n) \<in> set items. \<not> isdigit c \<and> c \<noteq> CHR 0x00 \<and> n < 2 ^ 31" "i + length items < length ta" "length tl' = length ta"
  shows "\<exists>ta' tl''. str2ByteInfo (print_pattern items) i ta tl' = Some (i + length items, ta', tl'')
    \<and> pieces (i + length items) ta' tl'' = pieces i ta tl' @ map (\<lambda>(c, n). (c, int n)) items"
  using assms
proof (induction items arbitrary: i ta tl')
  case Nil
  then have "pieces i (ta[i := CHR 0x00]) tl' = pieces i ta tl'"
    by (simp add: pieces_def take_zip)
  with Nil show ?case by (simp add: print_pattern_def)
next
  case (Cons x items)
  obtain c n where x: "x = (c, n)" by (cases x)
  have hd: "\<not> isdigit (hd (print_pattern items))"
    using Cons.prems(1) by (cases items) (auto simp: print_pattern_def isdigit_zero)
  have "str2ByteInfo (print_pattern (x # items)) i ta tl' = str2ByteInfo (print_pattern items) (i + 1) (ta[i := c]) (tl'[i := int n])"
    using str2ByteInfo_item [of c n i ta tl' "print_pattern items"] Cons.prems hd x by (simp add: print_pattern_def)
  moreover from Cons.IH [of "i + 1" "ta[i := c]" "tl'[i := int n]"] Cons.prems
  obtain ta' tl'' where "str2ByteInfo (print_pattern items) (i + 1) (ta[i := c]) (tl'[i := int n]) = Some (i + 1 + length items, ta', tl'')"
    "pieces (i + 1 + length items) ta' tl'' = pieces (i + 1) (ta[i := c]) (tl'[i := int n]) @ map (\<lambda>(c, n). (c, int n)) items" by auto
  moreover have "pieces (i + 1) (ta[i := c]) (tl'[i := int n]) = pieces i ta tl' @ [(c, int n)]"
    using Cons.prems by (simp add: pieces_def take_Suc_conv_app_nth take_zip)
  ultimately show ?case using x by simp
qed

text \<open>The blocks have room for 64 floats in what they pack and for six in what they unpack.\<close>

lemma bytes2tArray_bound: "bytes2tArray E bytes tArr (int i) n pt = Some xs \<Longrightarrow> n = 0 \<or> i + n \<le> length tArr"
proof (induction n arbitrary: i tArr pt)
  case (Suc n)
  from Suc.prems obtain x q where "i < length tArr" "bytes2tArray E bytes (tArr[i := x]) (int (Suc i)) n q = Some xs"
    by (auto simp: Let_def ac_simps split: if_splits)
  with Suc.IH [OF this(2)] show ?case by auto
qed simp

lemma demux_seven_floats: "demux_loop E bytes [(CHR ''F'', 7)] (\<lambda>_. 0) 0 (zero_arrays 6) = None"
  using bytes2tArray_bound [of E bytes "replicate 6 0" 0 7 0]
  by (cases "bytes2tArray E bytes (replicate 6 0 :: u32 list) 0 7 0")
    (auto simp: kind_of_def count_up_def unpack_def zero_arrays_def Let_def)

subsection \<open>Properties\<close>

text \<open>C37: What one block packs another takes out again. When the step of a block that packs by a printed pattern succeeds, and
  its bytes reach a block that unpacks by the same pattern and has room for it, then the step of the
  other succeeds, and of each type it has the numbers that were packed; all else stays as it was.\<close>

theorem mux_roundtrip:
  assumes "\<forall>(c, n) \<in> set items. \<not> isdigit c \<and> c \<noteq> CHR 0x00 \<and> n < 2 ^ 31" "length items < N_TYPES"
    and "pm_mux_type s = MUX" "pm_mux_pattern s = print_pattern items" "length (pm_typeArr s) = N_TYPES" "length (pm_typeLen s) = N_TYPES"
    and "pm_mux_type r = DEMUX" "pm_mux_pattern r = print_pattern items" "length (pm_typeArr r) = N_TYPES" "length (pm_typeLen r) = N_TYPES"
    and "pat_mux_step E P s e = Some (s', e')" "\<And>k. room_for (pm_in s') k < 2 ^ 31"
    and "mp_in_port Q (pm_in_bytes r) f = (pm_out_bytes s', f')"
  defines "n \<equiv> counts (map (\<lambda>(c, n). (c, int n)) items) (\<lambda>_. 0)"
  assumes "\<And>k. n k \<le> room_for (pm_out r) k"
  shows "\<exists>r'. pat_mux_step E Q r f = Some (r', write_arrays Q (pm_out r') (mp_in_total_bytes Q f')) \<and> pm_out r' = mixed (pm_in s') (pm_out r) n"
proof -
  let ?ps = "map (\<lambda>(c, n). (c, int n)) items"
  have pos: "\<forall>(c, len) \<in> set ?ps. 0 \<le> len" by auto
  from str2ByteInfo_print [OF assms(1), of 0 "pm_typeArr s" "pm_typeLen s"] assms(2,5,6) obtain ta tl' where
    s: "str2ByteInfo (print_pattern items) 0 (pm_typeArr s) (pm_typeLen s) = Some (length items, ta, tl')" "pieces (length items) ta tl' = ?ps"
    by (auto simp: pieces_def)
  from str2ByteInfo_print [OF assms(1), of 0 "pm_typeArr r" "pm_typeLen r"] assms(2,9,10) obtain ta2 tl2 where
    r: "str2ByteInfo (print_pattern items) 0 (pm_typeArr r) (pm_typeLen r) = Some (length items, ta2, tl2)" "pieces (length items) ta2 tl2 = ?ps"
    by (auto simp: pieces_def)
  obtain t where m: "mux_loop E (pm_in s') ?ps (\<lambda>_. 0) 0 0 (pm_out_bytes s) = Some (t, pm_out_bytes s')"
    using assms(3,4,11) s by (auto simp: pat_mux_step_def Let_def MUX_def DEMUX_def split: Option.bind_split_asm prod.split_asm)
  from mux_loop_result [of E "pm_in s'" ?ps "\<lambda>_. 0" 0 0 "pm_out_bytes s" t "pm_out_bytes s'"] m pos
  have o: "pm_out_bytes s' = blit 0 (encoded E (pm_in s') ?ps (\<lambda>_. 0)) (pm_out_bytes s)" "n k \<le> room_for (pm_in s') k" for k
    by (simp_all add: n_def)
  have "mixed (pm_in s') (pm_out r) (\<lambda>_. 0) = pm_out r" by (simp add: mixed_def)
  with demux_loop_result [OF pos, of "\<lambda>_. 0" "pm_in s'" "pm_out r" E "[]"] o(2) assms(12,15)
  have "demux_loop E (pm_out_bytes s') ?ps (\<lambda>_. 0) 0 (pm_out r) = Some (mixed (pm_in s') (pm_out r) n)"
    unfolding o(1) blit_def by (simp add: n_def)
  then show ?thesis using assms(7,8,13) r by (simp add: pat_mux_step_def Let_def MUX_def DEMUX_def)
qed

definition ex_mux :: "nat \<Rightarrow> pat_mux_info" where
  "ex_mux t = \<lparr>pm_mux_type = t, pm_mux_pattern = print_pattern [(CHR ''S'', 1), (CHR ''f'', 2)], pm_in_bytes = replicate MAX_LEN_DATA 0,
     pm_in = zero_arrays MAX_LEN_TYPE_DATA, pm_out_bytes = replicate MAX_LEN_DATA 0, pm_out = zero_arrays 6,
     pm_typeArr = replicate N_TYPES (CHR 0x00), pm_typeLen = replicate N_TYPES 0\<rparr>"

text \<open>Ports where nothing comes but two floats and a short, and a line that carries bytes.\<close>

definition ex_mux_ports :: "u8 list mux_ports" where
  "ex_mux_ports = \<lparr>mp_in_char = Pair, mp_in_short = (\<lambda>xs e. (xs[0 := 5], e)), mp_in_int = Pair, mp_in_long = Pair, mp_in_float = (\<lambda>xs e. (xs[0 := 7, 1 := 8], e)),
     mp_in_double = Pair, mp_in_port = (\<lambda>_ e. (e, e)), mp_in_total_bytes = (\<lambda>e. e), mp_out_char = (\<lambda>_ e. e), mp_out_short = (\<lambda>_ e. e), mp_out_int = (\<lambda>_ e. e),
     mp_out_long = (\<lambda>_ e. e), mp_out_float = (\<lambda>_ e. e), mp_out_double = (\<lambda>_ e. e), mp_out_port = (\<lambda>bs e. bs), mp_out_total_bytes = (\<lambda>_ e. e)\<rparr>"

lemma ex_mux_step:
  "\<exists>bytes. pat_mux_step Little ex_mux_ports (ex_mux MUX) [] = Some ((ex_mux MUX)\<lparr>pm_typeArr := ta, pm_typeLen := tl',
      pm_in := (zero_arrays MAX_LEN_TYPE_DATA)\<lparr>ta_short := (replicate 64 0)[0 := 5], ta_float := (replicate 64 0)[0 := 7, 1 := 8]\<rparr>,
      pm_out_bytes := bytes\<rparr>, bytes)"
  if "str2ByteInfo (print_pattern [(CHR ''S'', 1), (CHR ''f'', 2)]) 0 (replicate 16 (CHR 0x00)) (replicate 16 0) = Some (2, ta, tl')"
    "pieces 2 ta tl' = [(CHR ''S'', 1), (CHR ''f'', 2)]"
proof -
  let ?b = "blit 0 (t2Bytes Little (5 :: 16 word)) (replicate 512 0)"
  have "tArray2Bytes Little ((replicate 64 0)[0 := 5 :: 16 word]) (int 0) 1 (int 0) (replicate 512 0) = Some ?b"
    by (subst tArray2Bytes_fits) (simp_all add: take_Suc_conv_app_nth)
  moreover have "tArray2Bytes Little ((replicate 64 0)[0 := 7 :: 32 word, 1 := 8]) (int 0) 2 (int 2) ?b \<noteq> None"
    by (subst tArray2Bytes_fits) (simp_all add: length_blit_fits)
  ultimately show ?thesis using that
    by (auto simp: pat_mux_step_def ex_mux_def ex_mux_ports_def read_arrays_def zero_arrays_def MAX_LEN_TYPE_DATA_def MAX_LEN_DATA_def
        N_TYPES_def MUX_def DEMUX_def Let_def kind_of_def count_up_def pack_def)
qed

theorem mux_roundtrip_witness:
  "\<exists>s' e' r' f'. pat_mux_step Little ex_mux_ports (ex_mux MUX) [] = Some (s', e') \<and> pat_mux_step Little ex_mux_ports (ex_mux DEMUX) e' = Some (r', f')
    \<and> take 1 (ta_short (pm_out r')) = [5] \<and> take 2 (ta_float (pm_out r')) = [7, 8]"
proof -
  let ?items = "[(CHR ''S'', 1 :: nat), (CHR ''f'', 2)]"
  have items: "\<forall>(c, n) \<in> set ?items. \<not> isdigit c \<and> c \<noteq> CHR 0x00 \<and> n < 2 ^ 31" by (simp add: isdigit_def)
  from str2ByteInfo_print [OF this, of 0 "replicate 16 (CHR 0x00)" "replicate 16 0"] obtain ta tl' where
    "str2ByteInfo (print_pattern ?items) 0 (replicate 16 (CHR 0x00)) (replicate 16 0) = Some (2, ta, tl')"
    "pieces 2 ta tl' = [(CHR ''S'', 1), (CHR ''f'', 2)]" by (auto simp: pieces_def numeral_2_eq_2)
  from ex_mux_step [OF this] obtain bytes where st: "pat_mux_step Little ex_mux_ports (ex_mux MUX) [] = Some ((ex_mux MUX)\<lparr>pm_typeArr := ta, pm_typeLen := tl',
      pm_in := (zero_arrays MAX_LEN_TYPE_DATA)\<lparr>ta_short := (replicate 64 0)[0 := 5], ta_float := (replicate 64 0)[0 := 7, 1 := 8]\<rparr>,
      pm_out_bytes := bytes\<rparr>, bytes)" by blast
  let ?s = "(ex_mux MUX)\<lparr>pm_typeArr := ta, pm_typeLen := tl',
      pm_in := (zero_arrays MAX_LEN_TYPE_DATA)\<lparr>ta_short := (replicate 64 0)[0 := 5], ta_float := (replicate 64 0)[0 := 7, 1 := 8]\<rparr>,
      pm_out_bytes := bytes\<rparr>"
  let ?n = "counts (map (\<lambda>(c, n). (c, int n)) ?items) (\<lambda>_. 0)"
  have n: "?n KShort = 1" "?n KFloat = 2" "?n k \<le> 2" "k \<noteq> KShort \<Longrightarrow> k \<noteq> KFloat \<Longrightarrow> ?n k = 0" for k by (simp_all add: kind_of_def)
  have "room_for (pm_in ?s) k < 2 ^ 31" "?n k \<le> room_for (pm_out (ex_mux DEMUX)) k" for k
    using n(3) [of k] by (cases k; simp add: room_for_def zero_arrays_def ex_mux_def MAX_LEN_TYPE_DATA_def Let_def)+
  with mux_roundtrip [OF items _ _ _ _ _ _ _ _ _ st, of "ex_mux DEMUX" ex_mux_ports bytes bytes]
  obtain r' where "pat_mux_step Little ex_mux_ports (ex_mux DEMUX) bytes = Some (r', write_arrays ex_mux_ports (pm_out r') (mp_in_total_bytes ex_mux_ports bytes))"
    "pm_out r' = mixed (pm_in ?s) (pm_out (ex_mux DEMUX)) ?n" by (auto simp: ex_mux_def N_TYPES_def ex_mux_ports_def)
  with st n show ?thesis
    by (intro exI conjI) (assumption | simp add: mixed_def take_Suc_conv_app_nth numeral_2_eq_2 ex_mux_def zero_arrays_def MAX_LEN_TYPE_DATA_def Let_def)+
qed

end
