(* ===== verification/Spec2Isabelle.thy ===== *)
theory Spec2Isabelle
  imports NodeRun PtrigBlock MqueueBlock HexdumpBlock YoubotBlock QueueRefine UtHashRun PathHandler KMeansEnds PatMux
begin

text \<open>
  A model of the microblx robotics framework in this repository: the framework itself
  (\<open>src/src\<close>), its standard blocks for buffering, random numbers and triggering, the lock-free
  library these buffers use, the driver of the youBot (\<open>src/std_blocks\<close>), and the blocks that plan
  a way around obstacles (\<open>app_blocks\<close>).

  \<^bold>\<open>The program.\<close> A node holds three tables: types, blocks and loaded modules. Blocks are
  computations or interactions; each has ports, configurations and a life cycle (preinit,
  inactive, active) whose transitions call hooks the block provides. Prototypes are cloned into
  instances; ports of computations are connected to interactions, and a write or read of a port
  calls the hooks of the active interactions it is connected to. Modules are shared libraries
  whose functions register types and prototypes. In the collision avoidance the points of a laser scan are
  clustered (\<open>k_means_plus\<close>), way points are placed around the clusters (\<open>waypoints_gen\<close>), a cheapest path is
  searched (\<open>path_finding\<close>), and the robot is sent to its second point (\<open>path_handler\<close>).

  \<^bold>\<open>Conventions.\<close> A computation in the option monad is \<open>None\<close> exactly when the C code has undefined
  behaviour or does not return: a dangling or NULL pointer, an access outside a buffer, a signed
  overflow, a failed assertion. Error codes are values. Integers have their C width; pointers are
  addresses into heaps of objects; the allocator follows a plan of successes and failures
  (\<open>mem\<close>), so that every out-of-memory branch is reached; uninitialised memory is a parameter
  (\<open>garbage\<close>). \<open>post\<close> states what holds of a result if there is one.

  \<^bold>\<open>Theories and code.\<close>
  \<^item> \<open>Prelude\<close>: integer types, option monad, \<open>post\<close> with its rules \<open>wlp\<close>, C arithmetic of width
    64, removal from an array by moving its last entry.
  \<^item> \<open>Md5\<close>: \<open>src/src/md5.c\<close>, every function, against the digest of RFC 1321 (\<open>md5_spec\<close>).
  \<^item> \<open>Table\<close>: the interface to \<open>uthash.h\<close>, an insertion ordered table with one entry per key.
  \<^item> \<open>UtHash\<close>: the macros of \<open>uthash.h\<close> with their pointers, buckets and hash function; \<open>Dll\<close>: doubly linked
    lists in a store; \<open>UtHashSpec\<close>, \<open>UtHashRefine\<close>, \<open>UtHashDel\<close>, \<open>UtHashRun\<close>: the representation
    invariant, the operations on it, and sequences of calls against the list of \<open>Table\<close>.
  \<^item> \<open>UbxTime\<close>: the \<open>ubx_ts_\<close> functions of \<open>src/src/ubx.c\<close>.
  \<^item> \<open>UbxModel\<close>: the structures of \<open>src/src/ubx_types.h\<close> as records, the process as the record
    \<open>world\<close>, the allocator.
  \<^item> \<open>UbxData\<close>, \<open>UbxBlock\<close>, \<open>UbxPorts\<close>, \<open>UbxLife\<close>, \<open>UbxConn\<close>, \<open>UbxNode\<close>: the functions of
    \<open>src/src/ubx.c\<close> on types and buffers; on prototypes and instances; on ports and configurations; on
    the life cycle; on connections, port reads and writes and the accessors generated by
    \<open>ubx.h\<close>; and on modules and the node.
  \<^item> \<open>LfdsFreelist\<close>, \<open>LfdsQueue\<close>, \<open>LfdsRingbuffer\<close>: the free list, queue and ring buffer of
    \<open>lfds_buffers/liblfds611\<close>, given by single accesses to shared memory; \<open>LfdsThreads\<close> lets any
    number of threads interleave on the free list, \<open>QueueThreads\<close> on the queue and the initialisation
    of its elements; \<open>QueueInv\<close> and \<open>QueueRefine\<close>: the invariant and the refinement when one of them enqueues.
  \<^item> \<open>StdPriv\<close>, \<open>SimpleFifo\<close>, \<open>RandomBlock\<close>, \<open>TrigBlock\<close>, \<open>CyclicBlock\<close>: the blocks \<open>simple_fifo.c\<close>,
    \<open>random.c\<close>, \<open>trig.c\<close>, \<open>lfds_cyclic.c\<close> and \<open>lfds_cyclic_raw.c\<close>; \<open>StdHooks\<close> is the table of their
    hooks and module functions.
  \<^item> \<open>PtrigBlock\<close>: \<open>ptrig.c\<close>, the trigger with a thread of its own: its thread and its hooks interleave.
  \<^item> \<open>MqueueBlock\<close>: \<open>mqueue.c\<close> and \<open>mqueue_raw.c\<close> over the operating system's message queues; \<open>HexdumpBlock\<close>:
    \<open>hexdump.c\<close>; \<open>PatMux\<close>: \<open>pat_mux.cpp\<close>, which packs numbers by a pattern.
  \<^item> \<open>NodeRun\<close>: runs of a node, each step a call of \<open>src/src/ubx_proto.h\<close> on a node, its blocks or its data.
  \<^item> \<open>YoubotModel\<close>, \<open>YoubotBase\<close>, \<open>YoubotArm\<close>, \<open>YoubotBlock\<close>: \<open>youbot_driver.c\<close>, its data and
    mailbox, base, arm, and the block with detection and life cycle.
  \<^item> \<open>AppModel\<close>: floating point numbers and ports as the blocks of \<open>app_blocks\<close> use them; \<open>KMeans\<close>, \<open>Waypoints\<close>,
    \<open>PathFinding\<close>, \<open>PathHandler\<close>: \<open>k_means.cpp\<close> and \<open>k_means_plus.cpp\<close>, \<open>waypoints_gen.cpp\<close> with
    \<open>RoboMap/waypoints_func.cpp\<close>, \<open>path_finding.cpp\<close>, \<open>path_handler.cpp\<close>; \<open>KMeansEnds\<close>: why the clustering ends.

  \<^bold>\<open>Interfaces.\<close> The locale \<open>name_table\<close> is the contract of the hash tables the registries use. The locale
  \<open>block_hooks\<close> is the contract of hooks (they leave the node's tables and the control data of
  blocks alone), under which life cycle, reads, writes and runs are analysed; \<open>priv_hooks\<close>
  instantiates it for the standard blocks. \<open>module_code\<close> is the contract of modules in a run (they register and unregister);
  \<open>total_hooks\<close> and \<open>module_hooks\<close> are what cleaning up a node relies on. \<open>element_maker\<close>, \<open>bounded_queue\<close>, \<open>overwriting_ring\<close> and \<open>ring_maker\<close> are the
  contracts between the layers of the lock-free library and its clients; \<open>table_impl\<close> is what an
  implementation of the association list promises. Each is interpreted on
  the definitions that model the code.

  \<^bold>\<open>What the theorems show.\<close> For the framework: registries stay well formed in every run, an
  instance is a faithful copy, removal, disconnection and deletion undo creation, connection and
  addition, the life cycle implements its automaton, cleaning up a node ends and leaves only
  prototypes; the hash tables behind the registries implement association lists and do not
  disturb each other. For data: the digest is MD5 on either byte order and can be streamed, time
  arithmetic is exact, buffers are never left. For the lock-free list: linearisability under all
  interleavings, exclusive use of elements, progress; for the queue the same with one thread that
  enqueues, and a run that goes wrong with several; run alone, queue, ring and cyclic
  buffers deliver in order and overwrite the oldest. For the periodic trigger: under all interleavings
  its thread uses no freed data, misses no start, and after a stop begins at most one more round. The message
  queue block delivers in order what fits the queue, a hex dump can be read back,
  and what one multiplexer packs another unpacks.
  For the youBot: each motor gets its own
  command in its part's mode, the calibration follows its automaton and ends, the watchdog
  stops the base, commands at the joint limits are scaled down. For the collision avoidance, the search finds a cheapest
  path for any weights that rounding leaves ordered; in exact arithmetic every leg of that path keeps clear of
  the obstacles beside it, and the clustering ends with every point at a nearest centre. Where the code misbehaves, the
  theorem says what it does.

  \<^bold>\<open>Bounds and fuel.\<close> \<open>ubx_node_cleanup\<close> takes fuel for its table walks; the number of entries
  plus one is enough. \<open>std_hooks E n\<close> lets triggers and buffers call other blocks' hooks to the
  depth \<open>n\<close>; deeper nesting is \<open>None\<close>, and the theorems hold for every \<open>n\<close>. A thread alone needs at most six accesses
  from the start of a push or pop, fifteen for an enqueue and nineteen for a dequeue, which is the fuel of the sequential
  functions. \<open>freelist_delete\<close> and \<open>queue_drain\<close> are bounded by the size of the ring plus one.
  The buckets of a hash table can be doubled 26 times, from 32 to \<open>2 ^ 31\<close>; runs of calls on it are of any length, and stop only
  at an insertion when \<open>malloc\<close> fails or no doubling is left. The counter against reuse of an element is 64 bits wide; the theorems on interleavings are for
  runs of fewer than \<open>2 ^ 64\<close> steps.

  \<^bold>\<open>Parameters.\<close> \<open>malloc\<close> in the hash table, the dynamic linker, the C library's random numbers, the clock, the layout of
  structures in byte buffers, the message queues of the operating system, floating point operations (\<open>exact\<close> are the ones on
  reals and one value for infinity and NaN), how far one may write behind two arrays that are too short
  (\<open>room\<close> and \<open>slack\<close>; C++ promises 0, where \<open>path_array_overrun\<close> and \<open>nodes_overrun\<close> show that every step goes wrong), and the EtherCAT master and ports behind
  the youBot driver (a record of functions) are parameters. Memory is sequentially consistent.

  \<^bold>\<open>Not modelled.\<close> Sorting, selecting and clearing of hash tables, which nothing uses; the query functions, stack and list of the
  vendored library, which nothing calls; the classes \<open>RoboMap\<close>, \<open>RoboMe\<close>, \<open>RoboBox\<close>, \<open>gen_xy_s\<close> and \<open>print_eps_s\<close>, which no block
  calls; the laser scanner with the SDK of its vendor and the UDP blocks; printing and logging; \<open>ubx_ts_to_double\<close>;
  the vendored web server \<open>mongoose.c\<close>, Lua bindings and scripts; the numerical C++ blocks
  (\<open>fmpc_c\<close> on a vendored matrix library, \<open>youbot_kindyn\<close>) and the examples.
\<close>

section \<open>The life cycle\<close>

text \<open>C16: The life cycle operations implement the automaton. In any run of operations on a
  block, whose hooks keep the framework's contract, every result is 0 or -1, the
  operations that returned 0 form a word the automaton accepts from the block's initial
  state, and the block ends in the state the automaton reaches.\<close>

theorem life_refines:
  assumes "block_hooks H" "life_run H a ops w = Some (rs, w')" "state_of w a = Some s"
  shows "set rs \<subseteq> {0, -1} \<and> state_of w' a \<noteq> None
    \<and> life_accepts s (succeeded ops rs) = state_of w' a"
  using block_hooks.run_accepts [OF assms] by blast

theorem life_refines_witness:
  "\<exists>rs w'. life_run (std_hooks ex_env 1) 2 [LStop, LCleanup, LInit] ex_std = Some (rs, w')
    \<and> life_accepts BLOCK_STATE_INACTIVE (succeeded [LStop, LCleanup, LInit] rs) = state_of w' 2"
proof -
  let ?H = "std_hooks ex_env (Suc 0)"
  have "\<exists>rs w'. life_run ?H 2 [LStop, LCleanup, LInit] ex_std = Some (rs, w')"
    by (simp add: ubx_block_stop_def ubx_block_cleanup_def ubx_block_init_def ex_std_defs state_defs
        block_state_tostr_def block_states_def fids rnd_cleanup_def rnd_init_def priv_of_def set_priv_def
        heap_upd_block alloc_ok_def std_hooks.simps)
  then obtain rs w' where r: "life_run ?H 2 [LStop, LCleanup, LInit] ex_std = Some (rs, w')" by blast
  have "state_of ex_std 2 = Some BLOCK_STATE_INACTIVE" by (simp add: state_of_def ex_std_defs)
  from life_refines [OF std.block_hooks_axioms r this] r show ?thesis by auto
qed

text \<open>An operation that the automaton does not allow in the block's state is refused: it
  returns -1, calls no hook and changes nothing.\<close>

lemma life_refuses:
  assumes "state_of w a = Some s" "s \<in> S0" "life_next s op = None"
  shows "life_exec H a op w = Some (-1, w)"
proof -
  obtain blk where blk: "heap w a = Some blk" "block_state blk = s" using assms(1) by (auto simp: state_of_def)
  from tostr_valid [OF assms(2)] obtain str where "block_state_tostr s = Some str" by auto
  with blk assms(3) show ?thesis
    by (cases op)
      (auto simp: life_next_def ubx_block_init_def ubx_block_start_def ubx_block_stop_def
        ubx_block_cleanup_def ubx_cblock_step_def split: if_splits)
qed

section \<open>Runs of a node\<close>



text \<open>C18: Cleaning up a node with standard blocks ends, with as much fuel as there are blocks
  and modules, and leaves no module loaded and no instance registered: what is left in
  the table are prototypes in state preinit.\<close>

theorem node_cleanup_complete:
  assumes "node_inv w" "std_inv w" "hash_ok (modules w)"
    and "\<forall>(n, md) \<in> set (modules w). std_module (m_cleanup md)"
    and "length (blocks w) < fuel" "length (modules w) < fuel"
  shows "\<exists>w'. ubx_node_cleanup fuel (std_hooks E (Suc n)) (std_modules L) w = Some w'
    \<and> modules w' = [] \<and> node_name w' = None
    \<and> (\<forall>n a. (n, a) \<in> set (blocks w') \<longrightarrow>
         state_of w' a = Some BLOCK_STATE_PREINIT \<and> proto_of w' a = Some None)"
proof -
  have wf: "wf_node w" using assms(1) by (simp add: node_inv_def)
  have st: "state_of w a \<in> Some ` S0" if e: "(n, a) \<in> set (blocks w)" for n a
  proof -
    obtain b where "heap w a = Some b" by (rule entry_okE [OF wf_nodeD(2) [OF wf e]])
    with assms(1) show ?thesis by (auto simp: node_inv_def state_of_def)
  qed
  have known: "std_module (m_cleanup md)" if "(n, md) \<in> set (modules w)" for n md
    using assms(4) that by auto
  have "\<exists>w'. ubx_node_cleanup fuel (std_hooks E (Suc n)) (std_modules L) w = Some w'
      \<and> clean w' \<and> modules w' = [] \<and> node_name w' = None"
    by (rule std_node.node_cleanup_done [OF mods.module_hooks_axioms assms(2) wf _ assms(3) _ assms(5,6)])
      (fact st known)+
  then show ?thesis by (simp add: clean_def conj_ac)
qed

theorem node_cleanup_complete_witness:
  "\<exists>w'. ubx_node_cleanup 3 (std_hooks ex_env 1) (std_modules ex_libs) ex_std = Some w'
    \<and> modules w' = [] \<and> node_name w' = None"
proof -
  have "hash_ok (modules ex_std)" "\<forall>(n, md) \<in> set (modules ex_std). std_module (m_cleanup md)"
    "length (blocks ex_std) < 3" "length (modules ex_std) < 3"
    by (simp_all add: ex_std_defs hash_ok_def std_module_def)
  from node_cleanup_complete [OF ex_std_inv this, of ex_env 0 ex_libs] show ?thesis by auto
qed

section \<open>Ports, interactions and the standard blocks\<close>

text \<open>Reading from or writing to a port goes through the active ones among its
  interactions only: those that are not active make no difference.\<close>

lemma inactive_ignored:
  assumes "block_hooks H" "\<forall>ia \<in> set ias. heap w ia \<noteq> None"
  shows "read_loop H pp arr ias ret d w = read_loop H pp arr (active_only w ias) ret d w
    \<and> write_loop H pp arr ias d w = write_loop H pp arr (active_only w ias) d w"
  using block_hooks.read_loop_active [OF assms] block_hooks.write_loop_active [OF assms] by simp_all

text \<open>C27: The result of a read hook is taken as an unsigned number, so a hook that reports an
  error counts as one that delivered data: the port returns the error code, its counter
  and the interaction's go up, and the interactions after it are not asked.\<close>

theorem read_error_counts:
  assumes "port_at w pp = Some p" "p_attrs p AND PORT_DIR_IN \<noteq> 0" "in_type p = d_type d" "d_len d \<noteq> 0"
    and "in_interaction p = Some (ia # ias)" "heap w ia = Some ib" "block_state ib = BLOCK_STATE_ACTIVE"
    and "b_type ib = BLOCK_TYPE_INTERACTION" "b_read ib = Some f"
    and "h_read H f ia d w = Some (r, d', w)" "- (2 ^ 31) \<le> r" "r < 0"
  shows "\<exists>w'. port_read H (Some pp) (Some d) w = Some (word_of_int r, Some d', w')
    \<and> map_option stat_reades (port_at w' pp) = Some (stat_reades p + 1)
    \<and> map_option stat_num_reads (heap w' ia) = Some (stat_num_reads ib + 1)"
proof -
  have "(word_of_int r :: u32) \<noteq> 0"
  proof
    assume "(word_of_int r :: u32) = 0"
    then have "uint (word_of_int r :: u32) = 0" by simp
    then have "r mod 2 ^ 32 = 0" by (simp add: uint_word_of_int)
    then obtain k where "r = 2 ^ 32 * k" by (auto elim: dvdE simp: mod_eq_0_iff_dvd)
    with assms(11,12) show False by simp
  qed
  then have r: "0 < (word_of_int r :: u32)" by (simp add: word_neq_0_conv)
  let ?w1 = "upd_port w pp (\<lambda>p. p\<lparr>stat_reades := stat_reades p + 1\<rparr>)"
  let ?w2 = "upd_block ?w1 ia (\<lambda>b. b\<lparr>stat_num_reads := stat_num_reads b + 1\<rparr>)"
  have live: "\<exists>b. heap ?w1 ia = Some b \<and> stat_num_reads b = stat_num_reads ib"
    using assms(6) by (auto simp: upd_port_heap)
  have "port_read H (Some pp) (Some d) w = Some (word_of_int r, Some d', ?w2)"
    using assms(1-10) r live by (auto simp: port_read_def Let_def)
  moreover have "map_option stat_num_reads (heap ?w2 ia) = Some (stat_num_reads ib + 1)"
    using live by (auto simp: heap_upd_block)
  moreover have "port_at ?w2 pp = port_at ?w1 pp"
    by (simp add: port_at_upd_other)
  moreover have "port_at ?w1 pp = Some (p\<lparr>stat_reades := stat_reades p + 1\<rparr>)"
    using port_at_upd_port [OF assms(1)] by simp
  ultimately show ?thesis by simp
qed

definition ex_data :: ubx_data where
  "ex_data = \<lparr>d_type = Some 0, d_len = 1, d_data = BLive [1, 2, 3, 4, 5, 6, 7, 8]\<rparr>"

text \<open>Hooks whose reads fail.\<close>

definition ex_failing :: "priv hooks" where
  "ex_failing = (std_hooks ex_env 1)\<lparr>h_read := \<lambda>f a d w. Some (-2, d, w)\<rparr>"

theorem read_error_counts_witness:
  "\<exists>w'. port_read ex_failing (Some (2, 0)) (Some ex_data) ex_std = Some (word_of_int (-2), Some ex_data, w')
    \<and> map_option stat_reades (port_at w' (2, 0)) = Some 1"
proof -
  let ?ib = "ex_std_block ''fifo1'' BLOCK_TYPE_INTERACTION FIFO BLOCK_STATE_ACTIVE [] (Some (PFifo ex_fifo))"
  have "port_at ex_std (2, 0) = Some ex_out_port" "p_attrs ex_out_port AND PORT_DIR_IN \<noteq> 0"
    "in_type ex_out_port = d_type ex_data" "d_len ex_data \<noteq> 0" "in_interaction ex_out_port = Some [1]"
    "heap ex_std 1 = Some ?ib" "block_state ?ib = BLOCK_STATE_ACTIVE" "b_type ?ib = BLOCK_TYPE_INTERACTION"
    "b_read ?ib = Some FIFO" "h_read ex_failing FIFO 1 ex_data ex_std = Some (-2, ex_data, ex_std)"
    by (simp_all add: port_at_def ex_std_defs ex_data_def PORT_DIR_IN_def ex_failing_def)
  from read_error_counts [OF this] show ?thesis by (auto simp: ex_std_defs)
qed

text \<open>C20: Writing through an output port that is connected to an active FIFO stores the bytes
  behind those the FIFO holds, or starts the buffer over when they fill it exactly, or
  drops them when they do not fit; nothing is written outside the buffer, and the write is
  counted.\<close>

theorem write_reaches_fifo:
  assumes "port_at w pp = Some p" "p_attrs p AND PORT_DIR_OUT \<noteq> 0" "out_type p = d_type d"
    and "out_interaction p = Some [ia]" "heap w ia = Some ib" "block_state ib = BLOCK_STATE_ACTIVE"
    and "b_type ib = BLOCK_TYPE_INTERACTION" "b_write ib = Some FIFO"
    and "priv_of w ia = Some (PFifo b)" "fifo_ok b" "wf_data w d" "d_data d = BLive ms"
  shows "\<exists>w' b'. port_write (std_hooks E (Suc n)) (Some pp) (Some d) w = Some (Some d, w')
    \<and> priv_of w' ia = Some (PFifo b') \<and> fifo_ok b' \<and> fifo_content b' = fifo_appended b ms
    \<and> map_option stat_num_writes (heap w' ia) = Some (stat_num_writes ib + 1)
    \<and> map_option stat_writes (port_at w' pp) = Some (stat_writes p + 1)"
proof -
  obtain w1 b1 where w1: "fifo_write ia d w = Some (d, w1)" "priv_of w1 ia = Some (PFifo b1)" "fifo_ok b1"
    "fifo_content b1 = fifo_appended b ms"
    using fifo_write_ok [OF assms(9-12)] by blast
  obtain q where q: "w1 = w \<or> w1 = set_priv w ia q" using postD [OF fifo_write_shape w1(1)] by auto
  have p1: "port_at w1 = port_at w"
    using q by (auto simp: set_priv_def port_at_upd_other)
  have h1: "\<exists>b. heap w1 ia = Some b \<and> stat_num_writes b = stat_num_writes ib"
    using q assms(5) by (auto simp: set_priv_def heap_upd_block)
  let ?w2 = "upd_block w1 ia (\<lambda>b. b\<lparr>stat_num_writes := stat_num_writes b + 1\<rparr>)"
  let ?w3 = "upd_port ?w2 pp (\<lambda>p. p\<lparr>stat_writes := stat_writes p + 1\<rparr>)"
  have p2: "port_at ?w2 pp = Some p"
    using assms(1) p1 by (simp add: port_at_upd_other)
  have "port_write (std_hooks E (Suc n)) (Some pp) (Some d) w = Some (Some d, ?w3)"
    using assms(1-8) w1(1) p1 h1 by (auto simp: port_write_def)
  moreover have "priv_of ?w3 ia = Some (PFifo b1)"
    using w1(2) by (auto simp: priv_of_def upd_port_heap heap_upd_block)
  moreover have "map_option stat_num_writes (heap ?w3 ia) = Some (stat_num_writes ib + 1)"
    using h1 by (auto simp: upd_port_heap heap_upd_block)
  moreover have "map_option stat_writes (port_at ?w3 pp) = Some (stat_writes p + 1)"
    by (simp add: port_at_upd_port [OF p2])
  ultimately show ?thesis using w1(3,4) by blast
qed

lemma ex_fifo_ok: "fifo_ok ex_fifo"
  by (simp add: fifo_ok_def ex_fifo_def)

theorem write_reaches_fifo_witness:
  "\<exists>w' b'. port_write (std_hooks ex_env 1) (Some (2, 0)) (Some ex_data) ex_std = Some (Some ex_data, w')
    \<and> priv_of w' 1 = Some (PFifo b') \<and> fifo_content b' = [1, 2, 3, 4, 5, 6, 7, 8]"
proof -
  let ?ib = "ex_std_block ''fifo1'' BLOCK_TYPE_INTERACTION FIFO BLOCK_STATE_ACTIVE [] (Some (PFifo ex_fifo))"
  have "port_at ex_std (2, 0) = Some ex_out_port" "p_attrs ex_out_port AND PORT_DIR_OUT \<noteq> 0"
    "out_type ex_out_port = d_type ex_data" "out_interaction ex_out_port = Some [1]"
    "heap ex_std 1 = Some ?ib" "block_state ?ib = BLOCK_STATE_ACTIVE" "b_type ?ib = BLOCK_TYPE_INTERACTION"
    "b_write ?ib = Some FIFO" "priv_of ex_std 1 = Some (PFifo ex_fifo)" "wf_data ex_std ex_data"
    "d_data ex_data = BLive [1, 2, 3, 4, 5, 6, 7, 8]"
    by (simp_all add: port_at_def ex_std_defs ex_data_def PORT_DIR_OUT_def priv_of_def wf_data_def)
  from write_reaches_fifo [OF this(1-9) ex_fifo_ok this(10,11), of ex_env 0]
  show ?thesis by (auto simp: fifo_appended_def fifo_content_def ex_fifo_def)
qed

text \<open>A FIFO hands nothing out: whatever it holds, a read that is defined leaves the caller's
  buffer as it was and returns zero elements or a type error.\<close>

lemma fifo_never_delivers:
  assumes "h_read (std_hooks E (Suc n)) FIFO i msg w = Some (r, msg', w')"
    and "priv_of w i = Some (PFifo b)" "fifo_ok b"
  shows "msg' = msg \<and> (r = 0 \<or> r = EPORT_INVALID_TYPE)"
  using assms(1) fifo_okE [OF assms(3)] assms(2)
  by (intro fifo_read_nothing [of i msg w r msg' w']) auto

section \<open>The cyclic buffers\<close>

text \<open>A node with one active typed buffer of two elements.\<close>

definition ex_cyclic :: "cyclic_elem ringbuffer \<Rightarrow> cyclic_info" where
  "ex_cyclic rbs = \<lparr>cy_type = 0, cy_data_len = 1, cy_buffer_len = 2, cy_rbs = rbs, cy_overruns = 0, cy_port = None\<rparr>"

definition ex_cyc :: "cyclic_elem ringbuffer \<Rightarrow> priv world" where
  "ex_cyc rbs = ex_std\<lparr>heap := [1 \<mapsto> ex_std_block ''cyc1'' BLOCK_TYPE_INTERACTION CYCLIC BLOCK_STATE_ACTIVE []
     (Some (PCyclic (ex_cyclic rbs)))]\<rparr>"

lemma ex_ring: "\<exists>rbs w'. new_ring 2 8 ex_std = Some (Some rbs, w')"
  by (simp add: new_ring_def ringbuffer_new_def freelist_new_def lfds_malloc_def queue_malloc_def new_elements_numeral
      freelist_internal_new_element_def cyclic_data_elem_init_def freelist_push_eq freelist_pop_eq empty_freelist_def
      queue_new_def queue_internal_freelist_init_function_def queue_new_element_from_freelist_def
      queue_init_element_def freelist_get_user_data_def upd_elem_def lfds_increment_def Let_def ex_std_def)

lemma ex_cyc_sel:
  "priv_of (ex_cyc rbs) 1 = Some (PCyclic (ex_cyclic rbs))" "theap (ex_cyc rbs) 0 = Some ex_type"
  "wf_data (ex_cyc rbs) ex_data" "d_type ex_data = Some 0" "d_len ex_data = 1"
  "d_data ex_data = BLive [1, 2, 3, 4, 5, 6, 7, 8]" "ty_size ex_type = 8"
  "quiet_port H 1 (cy_port (ex_cyclic rbs))" "cy_type (ex_cyclic rbs) = 0" "cy_data_len (ex_cyclic rbs) = 1"
  "cy_rbs (ex_cyclic rbs) = rbs"
  by (simp_all add: ex_cyc_def ex_cyclic_def priv_of_def ex_std_defs ex_data_def wf_data_def quiet_port_def typed_write_def)

theorem ring_lifetime_witness:
  "\<exists>rbs w' rbs' ds. new_ring 2 8 ex_std = Some (Some rbs, w')
     \<and> ring.write_all (replicate 3 (Some \<lparr>ce_len = 1, ce_data = replicate 8 5\<rparr>)) rbs = Some (1, rbs')
     \<and> ringbuffer_delete 3 rbs' = Some ds \<and> ds = []"
proof -
  obtain rbs w' where r: "new_ring 2 (1 * 8) ex_std = Some (Some rbs, w')" using ex_ring by auto
  have "(2 :: u64) \<noteq> 0" "(2 :: u64) + 1 \<noteq> 0" "unat (1 :: u64) * unat (8 :: u64) < 2 ^ 64" by simp_all
  moreover have "\<forall>v \<in> set (replicate 3 (Some \<lparr>ce_len = 1, ce_data = replicate 8 5\<rparr>)). elem_ok 1 8 v"
    by (simp add: elem_ok_def)
  ultimately show ?thesis using ring_lifetime [OF r] r by fastforce
qed

theorem cyclic_write_stores_witness:
  "\<exists>rbs w'. cyclic_write (std_hooks ex_env 1) 1 ex_data (ex_cyc rbs) = Some (ex_data, w')
     \<and> (\<exists>b u. priv_of w' 1 = Some (PCyclic b) \<and> take 8 (ce_data u) = [1, 2, 3, 4, 5, 6, 7, 8]
          \<and> ring_holds (elem_ok 1 8) (cy_rbs b) [Some u] 2)"
proof -
  obtain rbs w' where r: "new_ring 2 (1 * 8) ex_std = Some (Some rbs, w')" using ex_ring by auto
  have h: "ring_holds (elem_ok (cy_data_len (ex_cyclic rbs)) (ty_size ex_type)) (cy_rbs (ex_cyclic rbs)) [] 2"
    using new_ring_empty [OF r] by (simp add: ex_cyc_sel)
  have fits: "d_len ex_data \<le> cy_data_len (ex_cyclic rbs)" by (simp add: ex_cyc_sel)
  have ty: "theap (ex_cyc rbs) (cy_type (ex_cyclic rbs)) = Some ex_type" by (simp add: ex_cyc_sel)
  have dt: "d_type ex_data = Some (cy_type (ex_cyclic rbs))" by (simp add: ex_cyc_sel)
  have "(0 :: nat) < 2" by simp
  note stores = cyclic_write_stores [OF ex_cyc_sel(1) h this ty ex_cyc_sel(3) dt fits ex_cyc_sel(6,8), of "std_hooks ex_env 1"]
  from stores obtain m w2 where w2: "cyclic_write (std_hooks ex_env 1) 1 ex_data (ex_cyc rbs) = Some (m, w2)"
    by auto
  from stores [THEN conjunct2, rule_format, OF w2] obtain b u where "m = ex_data" "priv_of w2 1 = Some (PCyclic b)"
      "take (length [1, 2, 3, 4, 5, 6, 7, 8 :: u8]) (ce_data u) = [1, 2, 3, 4, 5, 6, 7, 8]"
      "ring_holds (elem_ok (cy_data_len (ex_cyclic rbs)) (ty_size ex_type)) (cy_rbs b) (drop (of_bool (length ([] :: cyclic_elem option list) = 2)) [] @ [Some u]) 2"
    by (elim conjE exE)
  note got = this
  have eight: "length [1, 2, 3, 4, 5, 6, 7, 8 :: u8] = 8" by simp
  have "take 8 (ce_data u) = [1, 2, 3, 4, 5, 6, 7, 8]" "ring_holds (elem_ok 1 8) (cy_rbs b) [Some u] 2"
    using got(3) [unfolded eight] got(4) by (simp_all add: ex_cyc_sel)
  with w2 \<open>m = ex_data\<close> \<open>priv_of w2 1 = Some (PCyclic b)\<close> show ?thesis by blast
qed

theorem cyclic_read_takes_witness:
  "\<exists>rbs (u :: cyclic_elem) w'. ce_data u = replicate 8 5 \<and> cyclic_read 1 ex_data (ex_cyc rbs)
     = Some (1, ex_data\<lparr>d_data := BLive (replicate 8 5)\<rparr>, w')"
proof -
  let ?u = "\<lparr>ce_len = 1, ce_data = replicate 8 5\<rparr>"
  obtain rs0 w' where r: "new_ring 2 (1 * 8) ex_std = Some (Some rs0, w')" using ex_ring by auto
  have "ring_holds (elem_ok 1 8) rs0 [] 2" using new_ring_empty [OF r] by simp
  from ring.write_all_spec [OF this, of "[Some ?u]"] obtain rbs where
    "ring_holds (elem_ok 1 8) rbs [Some ?u] 2" by (auto simp: elem_ok_def)
  then have h: "ring_holds (elem_ok (cy_data_len (ex_cyclic rbs)) (ty_size ex_type)) (cy_rbs (ex_cyclic rbs)) [Some ?u] 2"
    by (simp add: ex_cyc_sel)
  have ty: "theap (ex_cyc rbs) (cy_type (ex_cyclic rbs)) = Some ex_type" by (simp add: ex_cyc_sel)
  have dt: "d_type ex_data = Some (cy_type (ex_cyclic rbs))" by (simp add: ex_cyc_sel)
  note takes = cyclic_read_takes [OF ex_cyc_sel(1) h ty ex_cyc_sel(3) dt ex_cyc_sel(6)]
  then obtain w2 where "cyclic_read 1 ex_data (ex_cyc rbs) = Some (sint (ucast (min (d_len ex_data) (ce_len ?u)) :: u32),
      ex_data\<lparr>d_data := BLive (let k = unat (min (d_len ex_data) (ce_len ?u)) * unat (ty_size ex_type)
        in take k (ce_data ?u) @ drop k [1, 2, 3, 4, 5, 6, 7, 8])\<rparr>, w2)" by blast
  then have "cyclic_read 1 ex_data (ex_cyc rbs) = Some (1, ex_data\<lparr>d_data := BLive (replicate 8 5)\<rparr>, w2)"
    by (simp add: ex_cyc_sel)
  moreover have "ce_data ?u = replicate 8 5" by simp
  ultimately show ?thesis by blast
qed

end
